(* ===== verification/Prelude.thy ===== *)
theory Prelude
  imports Main "HOL-Library.Word" "HOL-Library.List_Lexorder"
begin

text \<open>
  What every theory of the development shares: the machine integers and bytes of the
  program, its error type (\<open>src/.src/error.rs\<close>), the propagation of an error (the \<open>?\<close>
  operator of the language), the big-endian bytes of an integer (\<open>to_be_bytes\<close>), which
  every key is built from, saturating arithmetic, and the generic lemmas about them.
\<close>

named_theorems form_simps \<open>a form read back from what it wrote\<close>
named_theorems form_wf \<open>what a reader's answer satisfies\<close>
named_theorems key_simps \<open>keys are equal only where what they are built from is\<close>

section \<open>Integers, bytes, words\<close>

type_synonym u8 = "8 word"
type_synonym u32 = "32 word"
type_synonym u64 = "64 word"
type_synonym u128 = "128 word"

text \<open>A signed integer of 128 bits is its word, read by \<^const>\<open>sint\<close>.\<close>

type_synonym i128 = "128 word"
type_synonym bytes = "8 word list"

text \<open>A record's kind, and its place: its kind and its key.\<close>

type_synonym kind = string
type_synonym key = bytes

definition as_bytes :: "string \<Rightarrow> bytes" where
  "as_bytes s = map (\<lambda>c. word_of_nat (of_char c)) s"

text \<open>A number in words, as the language's \<open>Display\<close> of an integer says it.\<close>

fun digits :: "nat \<Rightarrow> string" where
  "digits n = (if n < 10 then [char_of (48 + n)] else digits (n div 10) @ [char_of (48 + n mod 10)])"

declare digits.simps [simp del]

section \<open>Errors\<close>

text \<open>
  What the key home answers where it cannot: a refusal, with its reason, is told from every
  other failure, kept by its words (\<open>SecretError\<close>, of the crate \<open>secret\<close>).
\<close>

datatype secret_error = SecretRefused string | SecretOther string

datatype persist_error =
    Refused (refused_scope: string) (refused_reason: string)
  | Key secret_error
  | Engine (engine_name: string) (engine_reason: string)
  | Record (record_reason: string)
  | Failed (failed_reason: string)
  | Unreachable string
  | Schema string
  | Standby string

type_synonym 'a result = "persist_error + 'a"

definition malformed :: "string \<Rightarrow> persist_error" where
  "malformed reason = Record reason"

text \<open>The language's \<open>?\<close>: the value goes on, an error is the answer.\<close>

definition bindr :: "'e + 'a \<Rightarrow> ('a \<Rightarrow> 'e + 'b) \<Rightarrow> 'e + 'b" where
  "bindr r f = (case r of Inl e \<Rightarrow> Inl e | Inr x \<Rightarrow> f x)"

lemma bindr_simps [simp]:
  "bindr (Inl e) f = Inl e"
  "bindr (Inr x) f = f x"
  by (simp_all add: bindr_def)

lemma bindr_eq_Inr: "bindr r f = Inr y \<longleftrightarrow> (\<exists>x. r = Inr x \<and> f x = Inr y)"
  by (cases r) auto

lemma bindr_cong [fundef_cong]:
  "r = r' \<Longrightarrow> (\<And>x. r' = Inr x \<Longrightarrow> f x = g x) \<Longrightarrow> bindr r f = bindr r' g"
  by (cases r') auto

text \<open>Every element in turn, the first error the answer: \<open>collect::<Result<Vec<_>, _>>\<close>.\<close>

fun each :: "('a \<Rightarrow> 'e + 'b) \<Rightarrow> 'a list \<Rightarrow> 'e + 'b list" where
  "each f [] = Inr []"
| "each f (x # xs) = bindr (f x) (\<lambda>y. bindr (each f xs) (\<lambda>ys. Inr (y # ys)))"

lemma each_Inr: "(\<And>x. x \<in> set xs \<Longrightarrow> f x = Inr (g x)) \<Longrightarrow> each f xs = Inr (map g xs)"
  by (induction xs) auto

lemma each_eq_Inr: "each f xs = Inr ys \<longleftrightarrow> list_all2 (\<lambda>x y. f x = Inr y) xs ys"
  by (induction xs arbitrary: ys) (auto simp: bindr_eq_Inr list_all2_Cons1)

section \<open>Big-endian bytes\<close>

text \<open>The lowest \<open>n\<close> bytes of a number, the highest first; and the number bytes are.\<close>

fun be :: "nat \<Rightarrow> nat \<Rightarrow> bytes" where
  "be 0 x = []"
| "be (Suc n) x = be n (x div 256) @ [word_of_nat (x mod 256)]"

definition from_be :: "bytes \<Rightarrow> nat" where
  "from_be bs = foldl (\<lambda>a b. a * 256 + unat b) 0 bs"

definition be32 :: "u32 \<Rightarrow> bytes" where "be32 x = be 4 (unat x)"
definition be64 :: "u64 \<Rightarrow> bytes" where "be64 x = be 8 (unat x)"
definition be128 :: "u128 \<Rightarrow> bytes" where "be128 x = be 16 (unat x)"

lemma length_be [simp]: "length (be n x) = n"
  by (induction n arbitrary: x) auto

lemma length_be_words [simp]:
  "length (be32 x) = 4" "length (be64 y) = 8" "length (be128 z) = 16"
  by (simp_all add: be32_def be64_def be128_def)

lemma from_be_append: "from_be (xs @ [b]) = from_be xs * 256 + unat b"
  by (simp add: from_be_def)

lemma from_be_be: "x < 256 ^ n \<Longrightarrow> from_be (be n x) = x"
proof (induction n arbitrary: x)
  case 0
  then show ?case by (simp add: from_be_def)
next
  case (Suc n)
  then have "x div 256 < 256 ^ n" by (simp add: less_mult_imp_div_less mult.commute)
  then have "from_be (be n (x div 256)) = x div 256" by (rule Suc.IH)
  moreover have "unat (word_of_nat (x mod 256) :: u8) = x mod 256"
    by (simp add: unat_of_nat take_bit_eq_mod)
  ultimately show ?case by (simp add: from_be_append)
qed

lemma from_be_words [simp]:
  "from_be (be32 x) = unat x" "from_be (be64 y) = unat y" "from_be (be128 z) = unat z"
proof -
  have "unat x < 2 ^ 32" "unat y < 2 ^ 64" "unat z < 2 ^ 128"
    using unsigned_less [of x] unsigned_less [of y] unsigned_less [of z] by simp_all
  then show "from_be (be32 x) = unat x" "from_be (be64 y) = unat y" "from_be (be128 z) = unat z"
    by (simp_all add: be32_def be64_def be128_def from_be_be)
qed

lemma be_words_inject [simp, key_simps]:
  "be32 x = be32 x' \<longleftrightarrow> x = x'"
  "be64 y = be64 y' \<longleftrightarrow> y = y'"
  "be128 z = be128 z' \<longleftrightarrow> z = z'"
  by (metis from_be_words word_unat_eq_iff)+

lemma be_words_append_inject [simp, key_simps]:
  "be32 x @ xs = be32 x' @ xs' \<longleftrightarrow> x = x' \<and> xs = xs'"
  "be64 y @ xs = be64 y' @ xs' \<longleftrightarrow> y = y' \<and> xs = xs'"
  "be128 z @ xs = be128 z' @ xs' \<longleftrightarrow> z = z' \<and> xs = xs'"
  by (auto simp: append_eq_append_conv)

lemma be64_not_Nil [simp]: "be64 x \<noteq> []" "[] \<noteq> be64 x"
  by (metis length_0_conv length_be_words(2) zero_neq_numeral)+

text \<open>Of one length, big-endian bytes sort as the numbers they are.\<close>

lemma list_less_append_eq_length:
  fixes xs ys :: "'a :: linorder list"
  assumes "length xs = length ys"
  shows "xs @ us < ys @ vs \<longleftrightarrow> xs < ys \<or> xs = ys \<and> us < vs"
  using assms by (induction xs ys rule: list_induct2) auto

lemma div_mod_less:
  fixes x y :: nat
  shows "x div 256 < y div 256 \<or> x div 256 = y div 256 \<and> x mod 256 < y mod 256 \<longleftrightarrow> x < y"
proof -
  define a b c d where "a = x div 256" and "b = x mod 256" and "c = y div 256" and "d = y mod 256"
  have "x = 256 * a + b" "y = 256 * c + d" "b < 256" "d < 256"
    by (simp_all add: a_def b_def c_def d_def)
  then show ?thesis
    unfolding a_def [symmetric] b_def [symmetric] c_def [symmetric] d_def [symmetric] by arith
qed

lemma be_less: "x < 256 ^ n \<Longrightarrow> y < 256 ^ n \<Longrightarrow> be n x < be n y \<longleftrightarrow> x < y"
proof (induction n arbitrary: x y)
  case 0
  then show ?case by simp
next
  case (Suc n)
  then have bounds: "x div 256 < 256 ^ n" "y div 256 < 256 ^ n"
    by (simp_all add: less_mult_imp_div_less mult.commute)
  have last: "(word_of_nat (x mod 256) :: u8) < word_of_nat (y mod 256) \<longleftrightarrow> x mod 256 < y mod 256"
    by (simp add: word_less_nat_alt unat_of_nat take_bit_eq_mod)
  have heads: "be n (x div 256) = be n (y div 256) \<longleftrightarrow> x div 256 = y div 256"
    using bounds by (metis from_be_be)
  have "be (Suc n) x < be (Suc n) y \<longleftrightarrow>
      x div 256 < y div 256 \<or> x div 256 = y div 256 \<and> x mod 256 < y mod 256"
    using Suc.IH [OF bounds] by (simp add: list_less_append_eq_length heads last)
  also have "\<dots> \<longleftrightarrow> x < y"
    by (simp only: div_mod_less)
  finally show ?case .
qed

lemma be64_less [simp]: "be64 x < be64 y \<longleftrightarrow> x < y"
proof -
  have "unat x < 256 ^ 8" "unat y < 256 ^ 8"
    using unsigned_less [of x] unsigned_less [of y] by simp_all
  then show ?thesis by (simp add: be64_def be_less word_less_nat_alt)
qed

section \<open>Saturating arithmetic\<close>

text \<open>\<open>i128::saturating_add\<close>, \<open>u64::saturating_sub\<close>, \<open>u64::saturating_add\<close>.\<close>

definition sat_i128 :: "int \<Rightarrow> i128" where
  "sat_i128 x = word_of_int (max (- (2 ^ 127)) (min (2 ^ 127 - 1) x))"

definition i128_add :: "i128 \<Rightarrow> i128 \<Rightarrow> i128" where
  "i128_add a b = sat_i128 (sint a + sint b)"

definition u64_sub :: "u64 \<Rightarrow> u64 \<Rightarrow> u64" where
  "u64_sub a b = (if b \<le> a then a - b else 0)"

definition u64_add :: "u64 \<Rightarrow> u64 \<Rightarrow> u64" where
  "u64_add a b = (if unat a + unat b < 2 ^ 64 then a + b else - 1)"

lemma sint_sat_i128: "sint (sat_i128 x) = max (- (2 ^ 127)) (min (2 ^ 127 - 1) x)"
proof -
  have "signed_take_bit 127 (max (- (2 ^ 127)) (min (2 ^ 127 - 1) x)) =
      max (- (2 ^ 127)) (min (2 ^ 127 - 1) x)"
    by (rule signed_take_bit_int_eq_self) (auto simp: max_def min_def)
  then show ?thesis by (simp add: sat_i128_def signed_of_int)
qed

lemma sint_i128_bounds: "- (2 ^ 127) \<le> sint (a :: i128)" "sint (a :: i128) < 2 ^ 127"
  using sint_greater_eq [of a] sint_less [of a] by simp_all

lemma sint_i128_add:
  "sint (i128_add a b) = max (- (2 ^ 127)) (min (2 ^ 127 - 1) (sint a + sint b))"
  by (simp add: i128_add_def sint_sat_i128)

lemma i128_add_ge: "0 \<le> sint b \<Longrightarrow> sint a \<le> sint (i128_add a b)"
  using sint_i128_bounds [of a] by (simp add: sint_i128_add)

text \<open>
  A time as a column keeps it, none before the epoch (\<open>nanos\<close> of \<open>src/.src/storage/row.rs\<close>).
\<close>

definition nanos :: "i128 \<Rightarrow> u64" where
  "nanos time = (let t = max 0 (sint time) in if t < 2 ^ 64 then word_of_int t else - 1)"

lemma uint_nanos: "uint (nanos t) = min (2 ^ 64 - 1) (max 0 (sint t))"
proof (cases "max 0 (sint t) < 2 ^ 64")
  case True
  then have "uint (nanos t) = take_bit 64 (max 0 (sint t))"
    unfolding nanos_def Let_def if_P [OF True] uint_word_of_int_eq by simp
  also have "\<dots> = max 0 (sint t)" using True by (intro take_bit_int_eq_self) simp_all
  finally show ?thesis using True by simp
next
  case False
  then show ?thesis by (simp add: nanos_def unsigned_minus_1_eq_mask mask_eq_exp_minus_1)
qed

lemma unat_Suc_u64: "x \<noteq> - 1 \<Longrightarrow> unat (x + 1 :: u64) = Suc (unat x)"
  by (metis Suc_eq_plus1 add.commute unatSuc add_eq_0_iff)

lemma unat_Suc_u32: "unat x + 1 < 2 ^ 32 \<Longrightarrow> unat (x + 1 :: u32) = Suc (unat x)"
  by (simp add: unat_word_ariths)

lemma u64_less_Suc: "x \<noteq> - 1 \<Longrightarrow> (y :: u64) < x + 1 \<longleftrightarrow> y \<le> x"
  by (simp add: word_less_nat_alt word_le_nat_alt unat_Suc_u64 less_Suc_eq_le)

lemma u64_next_less: "x \<noteq> - 1 \<Longrightarrow> (x :: u64) < x + 1"
  by (simp add: u64_less_Suc)

section \<open>Options\<close>

text \<open>\<open>Option::transpose\<close> of a reader's answer.\<close>

definition map_maybe :: "('a \<Rightarrow> 'e + 'b) \<Rightarrow> 'a option \<Rightarrow> 'e + 'b option" where
  "map_maybe f v = (case v of None \<Rightarrow> Inr None | Some x \<Rightarrow> bindr (f x) (\<lambda>y. Inr (Some y)))"

lemma map_maybe_simps [simp]:
  "map_maybe f None = Inr None"
  "map_maybe f (Some x) = bindr (f x) (\<lambda>y. Inr (Some y))"
  by (simp_all add: map_maybe_def)

section \<open>Ranges of keys\<close>

lemma between_append:
  fixes xs :: bytes
  assumes "xs @ us \<le> k" and "k \<le> xs @ vs"
  obtains k' where "k = xs @ k'" "us \<le> k'" "k' \<le> vs"
proof -
  have "\<exists>k'. k = xs @ k' \<and> us \<le> k' \<and> k' \<le> vs"
    using assms
  proof (induction xs arbitrary: k)
    case (Cons x xs)
    then obtain k1 where k: "k = x # k1" "xs @ us \<le> k1" "k1 \<le> xs @ vs"
      by (cases k) (auto split: if_splits)
    with Cons.IH [of k1] show ?case by auto
  qed simp
  with that show ?thesis by blast
qed

lemma append_le_append [simp]: "xs @ x \<le> xs @ y \<longleftrightarrow> x \<le> (y :: bytes)"
  by (induction xs) auto

lemma le_all_ones: "length xs \<le> n \<Longrightarrow> xs \<le> replicate n (0xFF :: u8)"
proof (induction n arbitrary: xs)
  case (Suc n)
  have "b \<le> 0xFF" for b :: u8
  proof -
    have "unat b < 2 ^ LENGTH(8)" by (rule unsigned_less)
    then show ?thesis by (simp add: word_le_nat_alt)
  qed
  with Suc show ?case by (cases xs) (auto simp: le_less)
qed simp

lemma be64_append_le: "be64 x @ us \<le> be64 y @ vs \<longleftrightarrow> x < y \<or> x = y \<and> us \<le> vs"
  using list_less_append_eq_length [of "be64 x" "be64 y" us vs] by (auto simp: le_less)

lemma sorted_image:
  fixes f :: "'a :: linorder \<Rightarrow> 'b :: linorder"
  assumes "finite A" and "\<And>x y. x \<in> A \<Longrightarrow> y \<in> A \<Longrightarrow> f x \<le> f y \<longleftrightarrow> x \<le> y"
  shows "sorted_list_of_set (f ` A) = map f (sorted_list_of_set A)"
proof -
  have "sorted (map f (sorted_list_of_set A))"
    unfolding sorted_wrt_map
    by (rule sorted_wrt_mono_rel [OF _ sorted_sorted_list_of_set]) (use assms in simp)
  moreover have "distinct (map f (sorted_list_of_set A))"
    using assms by (simp add: distinct_map inj_on_def order_eq_iff)
  ultimately show ?thesis
    using assms(1) by (metis set_map set_sorted_list_of_set sorted_list_of_set.idem_if_sorted_distinct)
qed

end
