(* ===== verification/Codec.thy ===== *)
theory Codec
  imports Prelude
begin

text \<open>
  The estate's codec library (\<open>xmip-core-library-codec\<close>), which every record's one binary
  form is written over, is not part of the repository: it is the parameter \<open>codec\<close> of
  every definition that reads or writes a record. What the code relies on is the locale
  \<open>codec_laws\<close>: a value written is read back with the bytes after it left, a text or a
  counted field up to the longest the codec counts, and what is read is never longer. A
  record's form (\<open>codec::form::Form\<close>) is the locale \<open>form\<close>; \<open>plain_codec\<close> shows that the
  laws can hold.
\<close>

section \<open>Readers\<close>

text \<open>A cursor is the bytes left; a reader takes a value from their front, or refuses.\<close>

type_synonym 'a reader = "bytes \<Rightarrow> string + ('a \<times> bytes)"

definition ret :: "'a \<Rightarrow> 'a reader" where
  "ret x = (\<lambda>bs. Inr (x, bs))"

definition refuse :: "string \<Rightarrow> 'a reader" where
  "refuse why = (\<lambda>bs. Inl why)"

definition andr :: "'a reader \<Rightarrow> ('a \<Rightarrow> 'b reader) \<Rightarrow> 'b reader" where
  "andr r f = (\<lambda>bs. bindr (r bs) (\<lambda>(x, rest). f x rest))"

lemma ret_apply [simp]: "ret x bs = Inr (x, bs)"
  by (simp add: ret_def)

lemma refuse_apply [simp]: "refuse why bs = Inl why"
  by (simp add: refuse_def)

lemma andr_Inr [simp]: "r bs = Inr (x, rest) \<Longrightarrow> andr r f bs = f x rest"
  by (simp add: andr_def)

lemma andr_eq_Inr: "andr r f bs = Inr z \<longleftrightarrow> (\<exists>x rest. r bs = Inr (x, rest) \<and> f x rest = Inr z)"
  by (cases "r bs") (auto simp: andr_def)

section \<open>The codec\<close>

record codec =
  w_byte :: "u8 \<Rightarrow> bytes"
  r_byte :: "u8 reader"
  w_u32 :: "u32 \<Rightarrow> bytes"
  r_u32 :: "u32 reader"
  w_u64 :: "u64 \<Rightarrow> bytes"
  r_u64 :: "u64 reader"
  w_u128 :: "u128 \<Rightarrow> bytes"
  r_u128 :: "u128 reader"
  w_i128 :: "i128 \<Rightarrow> bytes"
  r_i128 :: "i128 reader"
  w_text :: "string \<Rightarrow> bytes"
  r_text :: "string reader"
  w_counted :: "bytes \<Rightarrow> bytes"
  r_counted :: "bytes reader"
  r_take :: "nat \<Rightarrow> bytes reader"
  w_vec :: "bytes list \<Rightarrow> bytes"
  r_vec :: "bytes reader \<Rightarrow> bytes list reader"
  left_over :: "bytes \<Rightarrow> string option"
  most :: nat
  sha1 :: "bytes \<Rightarrow> bytes"
  show_id :: "u128 \<Rightarrow> string"

text \<open>
  \<open>Form::from_bytes\<close>: the form read from the front of the bytes, and what the codec says of
  the bytes left over; \<open>u8::from(bool)\<close>; the form of a vector, whose elements' forms the
  codec frames and a reader of one element takes apart again.
\<close>

definition from_bytes :: "codec \<Rightarrow> 'a reader \<Rightarrow> bytes \<Rightarrow> 'a result" where
  "from_bytes c r bs = (case r bs of
     Inl why \<Rightarrow> Inl (Record why)
   | Inr (x, rest) \<Rightarrow> (case left_over c rest of Some why \<Rightarrow> Inl (Record why) | None \<Rightarrow> Inr x))"

definition w_flag :: "codec \<Rightarrow> bool \<Rightarrow> bytes" where
  "w_flag c b = w_byte c (if b then 1 else 0)"

definition r_flag :: "codec \<Rightarrow> bool reader" where
  "r_flag c = andr (r_byte c) (\<lambda>b. ret (b \<noteq> 0))"

definition w_maybe :: "codec \<Rightarrow> ('a \<Rightarrow> bytes) \<Rightarrow> 'a option \<Rightarrow> bytes" where
  "w_maybe c w v = w_flag c (v \<noteq> None) @ (case v of None \<Rightarrow> [] | Some x \<Rightarrow> w x)"

definition r_maybe :: "codec \<Rightarrow> 'a reader \<Rightarrow> 'a option reader" where
  "r_maybe c r = andr (r_byte c) (\<lambda>b. if b = 0 then ret None else andr r (\<lambda>x. ret (Some x)))"

definition w_list :: "codec \<Rightarrow> ('a \<Rightarrow> bytes) \<Rightarrow> 'a list \<Rightarrow> bytes" where
  "w_list c w xs = w_vec c (map w xs)"

definition span :: "'a reader \<Rightarrow> bytes reader" where
  "span r = (\<lambda>bs. bindr (r bs) (\<lambda>(x, rest). Inr (take (length bs - length rest) bs, rest)))"

definition r_list :: "codec \<Rightarrow> 'a reader \<Rightarrow> 'a list reader" where
  "r_list c r = andr (r_vec c (span r))
     (\<lambda>pieces rest. bindr (each (\<lambda>p. bindr (r p) (\<lambda>(x, _). Inr x)) pieces) (\<lambda>xs. Inr (xs, rest)))"

text \<open>A count in four bytes, and that many values after it, as several forms write a list.\<close>

definition saturated_u32 :: "nat \<Rightarrow> u32" where
  "saturated_u32 n = (if n < 2 ^ 32 then word_of_nat n else - 1)"

definition w_many :: "codec \<Rightarrow> ('a \<Rightarrow> bytes) \<Rightarrow> 'a list \<Rightarrow> bytes" where
  "w_many c w xs = w_u32 c (saturated_u32 (length xs)) @ concat (map w xs)"

fun r_times :: "nat \<Rightarrow> 'a reader \<Rightarrow> 'a list reader" where
  "r_times 0 r = ret []"
| "r_times (Suc n) r = andr r (\<lambda>x. andr (r_times n r) (\<lambda>xs. ret (x # xs)))"

definition r_many :: "codec \<Rightarrow> 'a reader \<Rightarrow> 'a list reader" where
  "r_many c r = andr (r_u32 c) (\<lambda>n. r_times (unat n) r)"

section \<open>What a form promises\<close>

text \<open>
  A value fit to be written (every field as long as the codec counts at most) is read back
  from its bytes, whatever follows them; a value read is fit to be written.
\<close>

locale form =
  fixes enc :: "'a \<Rightarrow> bytes" and dec :: "'a reader" and fit :: "'a \<Rightarrow> bool"
  assumes read_write: "fit x \<Longrightarrow> dec (enc x @ rest) = Inr (x, rest)"
    and read_fit: "dec bs = Inr (x, rest) \<Longrightarrow> fit x"
begin

lemma read_write_whole: "fit x \<Longrightarrow> dec (enc x) = Inr (x, [])"
  using read_write [of x "[]"] by simp

lemma write_inject: "fit x \<Longrightarrow> fit y \<Longrightarrow> enc x = enc y \<longleftrightarrow> x = y"
  by (metis Inr_inject Pair_inject read_write_whole)

lemma from_bytes_write: "fit x \<Longrightarrow> left_over c [] = None \<Longrightarrow> from_bytes c dec (enc x) = Inr x"
  by (simp add: from_bytes_def read_write_whole)

lemma from_bytes_fit: "from_bytes c dec bs = Inr x \<Longrightarrow> fit x"
  by (auto simp: from_bytes_def read_fit split: sum.splits option.splits)

lemma span_write: "fit x \<Longrightarrow> span dec (enc x @ rest) = Inr (enc x, rest)"
  by (simp add: span_def read_write)

lemma each_write:
  "list_all fit xs \<Longrightarrow> each (\<lambda>p. bindr (dec p) (\<lambda>(x, _). Inr x)) (map enc xs) = Inr xs"
  by (induction xs) (simp_all add: read_write_whole)

lemma each_fit:
  "each (\<lambda>p. bindr (dec p) (\<lambda>(x, _). Inr x)) pieces = Inr xs \<Longrightarrow>
    list_all fit xs \<and> length xs = length pieces"
  by (induction pieces arbitrary: xs) (auto simp: bindr_eq_Inr dest: read_fit)

lemma times_write:
  "list_all fit xs \<Longrightarrow> r_times (length xs) dec (concat (map enc xs) @ rest) = Inr (xs, rest)"
  by (induction xs) (simp_all add: read_write)

lemma times_fit: "r_times n dec bs = Inr (xs, rest) \<Longrightarrow> list_all fit xs \<and> length xs = n"
  by (induction n arbitrary: bs xs rest) (fastforce simp: andr_eq_Inr dest: read_fit)+

end

section \<open>What the code relies on of the codec\<close>

locale codec_laws =
  fixes c :: codec
  assumes byte [simp]: "r_byte c (w_byte c b @ rest) = Inr (b, rest)"
    and raw_byte [simp]: "r_byte c (b # rest) = Inr (b, rest)"
    and u32 [simp]: "r_u32 c (w_u32 c x32 @ rest) = Inr (x32, rest)"
    and u64 [simp]: "r_u64 c (w_u64 c x64 @ rest) = Inr (x64, rest)"
    and u128 [simp]: "r_u128 c (w_u128 c x128 @ rest) = Inr (x128, rest)"
    and i128 [simp]: "r_i128 c (w_i128 c i @ rest) = Inr (i, rest)"
    and text_back: "length s \<le> most c \<Longrightarrow> r_text c (w_text c s @ rest) = Inr (s, rest)"
    and text_short: "r_text c bs = Inr (s, rest) \<Longrightarrow> length s \<le> most c"
    and counted_back: "length b' \<le> most c \<Longrightarrow> r_counted c (w_counted c b' @ rest) = Inr (b', rest)"
    and counted_short: "r_counted c bs = Inr (b', rest) \<Longrightarrow> length b' \<le> most c"
    and take_back [simp]: "r_take c (length b') (b' @ rest) = Inr (b', rest)"
    and take_exact: "r_take c n bs = Inr (b', rest) \<Longrightarrow> length b' = n"
    and vec_back: "length ps \<le> most c \<Longrightarrow> (\<And>p rest. p \<in> set ps \<Longrightarrow> one (p @ rest) = Inr (p, rest)) \<Longrightarrow>
      r_vec c one (w_vec c ps @ rest) = Inr (ps, rest)"
    and vec_short: "r_vec c one bs = Inr (ps, rest) \<Longrightarrow> length ps \<le> most c"
    and nothing_left [simp]: "left_over c [] = None"
begin

lemma flag [simp]: "r_flag c (w_flag c b @ rest) = Inr (b, rest)"
  by (simp add: r_flag_def w_flag_def)

end

sublocale codec_laws \<subseteq> text_form: form "w_text c" "r_text c" "\<lambda>s. length s \<le> most c"
  by unfold_locales (auto intro: text_back text_short)

sublocale codec_laws \<subseteq> counted_form: form "w_counted c" "r_counted c" "\<lambda>b. length b \<le> most c"
  by unfold_locales (auto intro: counted_back counted_short)

sublocale codec_laws \<subseteq> u128_form: form "w_u128 c" "r_u128 c" "\<lambda>x. True"
  by unfold_locales auto

section \<open>Forms made of forms\<close>

definition fit_maybe :: "('a \<Rightarrow> bool) \<Rightarrow> 'a option \<Rightarrow> bool" where
  "fit_maybe fit v = (case v of None \<Rightarrow> True | Some x \<Rightarrow> fit x)"

definition fit_list :: "codec \<Rightarrow> ('a \<Rightarrow> bool) \<Rightarrow> 'a list \<Rightarrow> bool" where
  "fit_list c fit xs = (list_all fit xs \<and> length xs \<le> most c)"

definition fit_many :: "('a \<Rightarrow> bool) \<Rightarrow> 'a list \<Rightarrow> bool" where
  "fit_many fit xs = (list_all fit xs \<and> length xs < 2 ^ 32)"

lemma fit_maybe_simps [simp]: "fit_maybe fit None" "fit_maybe fit (Some x) = fit x"
  by (simp_all add: fit_maybe_def)

context codec_laws
begin

lemma maybe_form:
  assumes "form enc dec fit"
  shows "form (w_maybe c enc) (r_maybe c dec) (fit_maybe fit)"
proof -
  note laws = form.read_write [OF assms] form.read_fit [OF assms]
  show ?thesis
  proof
    show "r_maybe c dec (w_maybe c enc x @ rest) = Inr (x, rest)" if "fit_maybe fit x" for x rest
      using that by (cases x) (simp_all add: r_maybe_def w_maybe_def w_flag_def laws)
    show "fit_maybe fit x" if "r_maybe c dec bs = Inr (x, rest)" for bs x rest
      using that by (cases x) (auto simp: r_maybe_def andr_eq_Inr laws split: if_splits)
  qed
qed

lemma list_form:
  assumes "form enc dec fit"
  shows "form (w_list c enc) (r_list c dec) (fit_list c fit)"
proof
  show "r_list c dec (w_list c enc xs @ rest) = Inr (xs, rest)" if "fit_list c fit xs" for xs rest
  proof -
    have "r_vec c (span dec) (w_vec c (map enc xs) @ rest) = Inr (map enc xs, rest)"
      using that by (intro vec_back) (auto simp: fit_list_def list_all_iff form.span_write [OF assms])
    with that show ?thesis
      by (simp add: r_list_def w_list_def fit_list_def form.each_write [OF assms])
  qed
  show "fit_list c fit xs" if "r_list c dec bs = Inr (xs, rest)" for bs xs rest
    using that
    by (auto simp: r_list_def andr_eq_Inr bindr_eq_Inr fit_list_def dest!: form.each_fit [OF assms] vec_short)
qed

lemma many_form:
  assumes "form enc dec fit"
  shows "form (w_many c enc) (r_many c dec) (fit_many fit)"
proof
  show "r_many c dec (w_many c enc xs @ rest) = Inr (xs, rest)" if "fit_many fit xs" for xs rest
  proof -
    have "unat (saturated_u32 (length xs)) = length xs"
      using that by (simp add: saturated_u32_def fit_many_def unat_of_nat take_bit_nat_eq_self)
    with that show ?thesis
      by (simp add: r_many_def w_many_def fit_many_def form.times_write [OF assms])
  qed
  show "fit_many fit xs" if "r_many c dec bs = Inr (xs, rest)" for bs xs rest
  proof -
    from that obtain n :: u32 and bs' where "r_times (unat n) dec bs' = Inr (xs, rest)"
      by (auto simp: r_many_def andr_eq_Inr)
    then show ?thesis
      using form.times_fit [OF assms, of "unat n" bs' xs rest] unsigned_less [of n]
      by (simp add: fit_many_def)
  qed
qed

end

sublocale codec_laws \<subseteq> text_maybe_form:
    form "w_maybe c (w_text c)" "r_maybe c (r_text c)" "fit_maybe (\<lambda>s. length s \<le> most c)"
  by (rule maybe_form) (rule text_form.form_axioms)

sublocale codec_laws \<subseteq> u128_maybe_form:
    form "w_maybe c (w_u128 c)" "r_maybe c (r_u128 c)" "fit_maybe (\<lambda>x. True)"
  by (rule maybe_form) (rule u128_form.form_axioms)

sublocale codec_laws \<subseteq> u128_many_form:
    form "w_many c (w_u128 c)" "r_many c (r_u128 c)" "fit_many (\<lambda>x. True)"
  by (rule many_form) (rule u128_form.form_axioms)

lemma fit_maybe_True [simp]: "fit_maybe (\<lambda>x. True) v"
  by (cases v) simp_all

context codec_laws
begin

lemmas field_simps' [simp, form_simps] =
  text_form.read_write counted_form.read_write text_maybe_form.read_write
  u128_maybe_form.read_write [OF fit_maybe_True] u128_many_form.read_write

lemmas field_fit [form_wf] =
  text_form.read_fit counted_form.read_fit text_maybe_form.read_fit u128_many_form.read_fit
  take_exact

end

section \<open>The laws can hold\<close>

definition split_at :: "nat \<Rightarrow> (bytes \<Rightarrow> 'a) \<Rightarrow> 'a reader" where
  "split_at n f = (\<lambda>bs. if length bs < n then Inl ''cut short'' else Inr (f (take n bs), drop n bs))"

definition of_text :: "bytes \<Rightarrow> string" where
  "of_text bs = map (\<lambda>b. char_of (unat b)) bs"

definition plain_counted :: "bytes \<Rightarrow> bytes" where
  "plain_counted bs = be32 (saturated_u32 (length bs)) @ take (2 ^ 32 - 1) bs"

definition plain_read_counted :: "bytes reader" where
  "plain_read_counted = andr (split_at 4 from_be) (\<lambda>n. split_at n (\<lambda>b. b))"

definition plain_codec :: codec where
  "plain_codec = \<lparr>
     w_byte = (\<lambda>b. [b]), r_byte = split_at 1 hd,
     w_u32 = be32, r_u32 = split_at 4 (\<lambda>b. word_of_nat (from_be b)),
     w_u64 = be64, r_u64 = split_at 8 (\<lambda>b. word_of_nat (from_be b)),
     w_u128 = be128, r_u128 = split_at 16 (\<lambda>b. word_of_nat (from_be b)),
     w_i128 = be128, r_i128 = split_at 16 (\<lambda>b. word_of_nat (from_be b)),
     w_text = (\<lambda>s. plain_counted (as_bytes s)),
     r_text = andr plain_read_counted (\<lambda>b. ret (of_text b)),
     w_counted = plain_counted, r_counted = plain_read_counted,
     r_take = (\<lambda>n. split_at n (\<lambda>b. b)),
     w_vec = (\<lambda>ps. be32 (saturated_u32 (length ps)) @ concat ps),
     r_vec = (\<lambda>one. andr (split_at 4 from_be) (\<lambda>n. r_times n one)),
     left_over = (\<lambda>rest. if rest = [] then None else Some ''bytes left''),
     most = 2 ^ 32 - 1, sha1 = (\<lambda>b. b), show_id = (\<lambda>x. digits (unat x))\<rparr>"

lemma most_plain [simp]: "most plain_codec = 4294967295"
  by (simp add: plain_codec_def)

lemma of_text_as_bytes: "of_text (as_bytes s) = s"
proof (induction s)
  case (Cons ch s)
  have "unat (word_of_nat (of_char ch) :: u8) = of_char ch"
    by (simp add: unat_of_nat take_bit_nat_eq_self of_char_def)
  with Cons show ?case by (simp add: of_text_def as_bytes_def)
qed (simp add: of_text_def as_bytes_def)

lemma plain_counted_back:
  assumes "length b \<le> 2 ^ 32 - 1"
  shows "plain_read_counted (plain_counted b @ rest) = Inr (b, rest)"
proof -
  have "unat (saturated_u32 (length b)) = length b"
    using assms by (simp add: saturated_u32_def unat_of_nat take_bit_nat_eq_self)
  with assms show ?thesis
    by (simp add: plain_read_counted_def plain_counted_def split_at_def)
qed

lemma from_be_bound: "from_be bs < 256 ^ length bs"
proof (induction bs rule: rev_induct)
  case (snoc b bs)
  have "unat b < 256" using unsigned_less [of b] by simp
  with snoc show ?case by (simp add: from_be_append)
qed (simp add: from_be_def)

lemma plain_counted_short:
  assumes "plain_read_counted bs = Inr (b, rest)"
  shows "length b \<le> 2 ^ 32 - 1"
proof -
  from assms have "length b = from_be (take 4 bs)" "length bs \<ge> 4"
    by (auto simp: plain_read_counted_def andr_eq_Inr split_at_def split: if_splits)
  then show ?thesis using from_be_bound [of "take 4 bs"] by simp
qed

lemma r_times_concat:
  "(\<And>p rest. p \<in> set ps \<Longrightarrow> one (p @ rest) = Inr (p, rest)) \<Longrightarrow>
    r_times (length ps) one (concat ps @ rest) = Inr (ps, rest)"
  by (induction ps) simp_all

lemma r_times_length: "r_times n one bs = Inr (ps, rest) \<Longrightarrow> length ps = n"
  by (induction n arbitrary: bs ps rest) (auto simp: andr_eq_Inr)

lemma plain_vec_back:
  assumes "length ps \<le> 2 ^ 32 - 1" and "\<And>p rest. p \<in> set ps \<Longrightarrow> one (p @ rest) = Inr (p, rest)"
  shows "r_vec plain_codec one (w_vec plain_codec ps @ rest) = Inr (ps, rest)"
proof -
  have "unat (saturated_u32 (length ps)) = length ps"
    using assms(1) by (simp add: saturated_u32_def unat_of_nat take_bit_nat_eq_self)
  with assms(2) show ?thesis
    by (simp add: plain_codec_def split_at_def r_times_concat)
qed

lemma plain_vec_short:
  assumes "r_vec plain_codec one bs = Inr (ps, rest)"
  shows "length ps \<le> 2 ^ 32 - 1"
proof -
  from assms have "length ps = from_be (take 4 bs)" "length bs \<ge> 4"
    by (auto simp: plain_codec_def andr_eq_Inr split_at_def split: if_splits dest: r_times_length)
  then show ?thesis using from_be_bound [of "take 4 bs"] by simp
qed

interpretation plain: codec_laws plain_codec
proof
  show "r_text plain_codec (w_text plain_codec s @ rest) = Inr (s, rest)"
    if "length s \<le> most plain_codec" for s rest
    using that by (simp add: plain_codec_def plain_counted_back as_bytes_def [symmetric]
        of_text_as_bytes) (simp add: as_bytes_def plain_counted_back of_text_as_bytes [unfolded as_bytes_def])
  show "length s \<le> most plain_codec" if "r_text plain_codec bs = Inr (s, rest)" for bs s rest
    using that by (auto simp: plain_codec_def andr_eq_Inr of_text_def dest: plain_counted_short)
qed (auto simp: plain_codec_def split_at_def plain_counted_back split: if_splits
    dest: plain_counted_short
    intro: plain_vec_back [unfolded plain_codec_def, simplified]
      plain_vec_short [unfolded plain_codec_def, simplified])

end
