(* ===== verification/Facts.thy ===== *)
theory Facts
  imports Codec
begin

text \<open>
  A record's fields laid out (\<open>src/.src/storage/facts.rs\<close>): the single values of a Journey, a
  Message and an audit record, which travel beside the record's body and which its table keeps
  in columns of their own; and the form each is written in. A field's name carries its record's
  first letter or letters (\<open>jf_\<close>, \<open>mf_\<close>, \<open>af_\<close>), as two records share names.
\<close>

text \<open>
  A digest is written as its thirty-two bytes and read as as many
  (\<open>src/.src/storage/stream.rs\<close>, \<open>write_digest\<close> and \<open>read_digest\<close>).
\<close>

definition w_digest :: "bytes \<Rightarrow> bytes" where
  "w_digest d = d"

definition r_digest :: "codec \<Rightarrow> bytes reader" where
  "r_digest c = andr (r_take c 32) (\<lambda>b. if length b = 32 then ret b else refuse ''a digest cut short'')"

context codec_laws
begin

lemma digest_back [simp]: "length d = 32 \<Longrightarrow> r_digest c (w_digest d @ rest) = Inr (d, rest)"
  using take_back [of d rest] by (simp add: r_digest_def w_digest_def)

lemma digest_exact [form_wf]: "r_digest c bs = Inr (d, rest) \<Longrightarrow> length d = 32"
  by (auto simp: r_digest_def andr_eq_Inr split: if_splits)

end

section \<open>A Journey\<close>

record journey_facts =
  jf_state :: string
  jf_previous_journey :: "u128 option"
  jf_subscription :: "string option"
  jf_cause_work_process :: "string option"
  jf_depth :: u32
  jf_work_process :: "string option"
  jf_send_port :: "string option"
  jf_send_location :: u32
  jf_attempts :: u32
  jf_message :: "u128 option"
  jf_origin :: "u128 option"
  jf_open :: bool
  jf_group_delivery :: "u128 option"
  jf_group_open :: bool
  jf_created_unix_nanos :: u64
  jf_updated_unix_nanos :: u64

definition w_journey_facts :: "codec \<Rightarrow> journey_facts \<Rightarrow> bytes" where
  "w_journey_facts c x =
     w_text c (jf_state x) @
     w_maybe c (w_u128 c) (jf_previous_journey x) @
     w_maybe c (w_text c) (jf_subscription x) @
     w_maybe c (w_text c) (jf_cause_work_process x) @
     w_u32 c (jf_depth x) @
     w_maybe c (w_text c) (jf_work_process x) @
     w_maybe c (w_text c) (jf_send_port x) @
     w_u32 c (jf_send_location x) @
     w_u32 c (jf_attempts x) @
     w_maybe c (w_u128 c) (jf_message x) @
     w_maybe c (w_u128 c) (jf_origin x) @
     w_flag c (jf_open x) @
     w_maybe c (w_u128 c) (jf_group_delivery x) @
     w_flag c (jf_group_open x) @
     w_u64 c (jf_created_unix_nanos x) @
     w_u64 c (jf_updated_unix_nanos x)"

definition r_journey_facts :: "codec \<Rightarrow> journey_facts reader" where
  "r_journey_facts c =
     andr (r_text c) (\<lambda>state.
     andr (r_maybe c (r_u128 c)) (\<lambda>previous_journey.
     andr (r_maybe c (r_text c)) (\<lambda>subscription.
     andr (r_maybe c (r_text c)) (\<lambda>cause_work_process.
     andr (r_u32 c) (\<lambda>depth.
     andr (r_maybe c (r_text c)) (\<lambda>work_process.
     andr (r_maybe c (r_text c)) (\<lambda>send_port.
     andr (r_u32 c) (\<lambda>send_location.
     andr (r_u32 c) (\<lambda>attempts.
     andr (r_maybe c (r_u128 c)) (\<lambda>message.
     andr (r_maybe c (r_u128 c)) (\<lambda>origin.
     andr (r_flag c) (\<lambda>open.
     andr (r_maybe c (r_u128 c)) (\<lambda>group_delivery.
     andr (r_flag c) (\<lambda>group_open.
     andr (r_u64 c) (\<lambda>created_unix_nanos.
     andr (r_u64 c) (\<lambda>updated_unix_nanos.
     ret \<lparr>jf_state = state, jf_previous_journey = previous_journey, jf_subscription = subscription, jf_cause_work_process = cause_work_process, jf_depth = depth, jf_work_process = work_process, jf_send_port = send_port, jf_send_location = send_location, jf_attempts = attempts, jf_message = message, jf_origin = origin, jf_open = open, jf_group_delivery = group_delivery, jf_group_open = group_open, jf_created_unix_nanos = created_unix_nanos, jf_updated_unix_nanos = updated_unix_nanos\<rparr>))))))))))))))))"

definition fit_journey_facts :: "codec \<Rightarrow> journey_facts \<Rightarrow> bool" where
  "fit_journey_facts c x \<longleftrightarrow>
     length (jf_state x) \<le> most c \<and>
     fit_maybe (\<lambda>s. length s \<le> most c) (jf_subscription x) \<and>
     fit_maybe (\<lambda>s. length s \<le> most c) (jf_cause_work_process x) \<and>
     fit_maybe (\<lambda>s. length s \<le> most c) (jf_work_process x) \<and>
     fit_maybe (\<lambda>s. length s \<le> most c) (jf_send_port x)"

sublocale codec_laws \<subseteq> journey_facts: form "w_journey_facts c" "r_journey_facts c" "fit_journey_facts c"
proof
  show "r_journey_facts c (w_journey_facts c x @ rest) = Inr (x, rest)" if "fit_journey_facts c x" for x rest
    using that by (cases x) (simp add: r_journey_facts_def w_journey_facts_def fit_journey_facts_def)
  show "fit_journey_facts c x" if "r_journey_facts c bs = Inr (x, rest)" for bs x rest
    using that by (auto simp: r_journey_facts_def andr_eq_Inr fit_journey_facts_def intro: form_wf)
qed

section \<open>A Message\<close>

record message_facts =
  mf_previous_message :: "u128 option"
  mf_generation :: u32
  mf_created_by :: string
  mf_priority :: string
  mf_execution_profile :: string
  mf_durability :: string
  mf_size_bytes :: u64
  mf_party :: "string option"
  mf_contract :: "string option"
  mf_stream :: "u128 option"
  mf_created_unix_nanos :: u64

definition w_message_facts :: "codec \<Rightarrow> message_facts \<Rightarrow> bytes" where
  "w_message_facts c x =
     w_maybe c (w_u128 c) (mf_previous_message x) @
     w_u32 c (mf_generation x) @
     w_text c (mf_created_by x) @
     w_text c (mf_priority x) @
     w_text c (mf_execution_profile x) @
     w_text c (mf_durability x) @
     w_u64 c (mf_size_bytes x) @
     w_maybe c (w_text c) (mf_party x) @
     w_maybe c (w_text c) (mf_contract x) @
     w_maybe c (w_u128 c) (mf_stream x) @
     w_u64 c (mf_created_unix_nanos x)"

definition r_message_facts :: "codec \<Rightarrow> message_facts reader" where
  "r_message_facts c =
     andr (r_maybe c (r_u128 c)) (\<lambda>previous_message.
     andr (r_u32 c) (\<lambda>generation.
     andr (r_text c) (\<lambda>created_by.
     andr (r_text c) (\<lambda>priority.
     andr (r_text c) (\<lambda>execution_profile.
     andr (r_text c) (\<lambda>durability.
     andr (r_u64 c) (\<lambda>size_bytes.
     andr (r_maybe c (r_text c)) (\<lambda>party.
     andr (r_maybe c (r_text c)) (\<lambda>contract.
     andr (r_maybe c (r_u128 c)) (\<lambda>stream.
     andr (r_u64 c) (\<lambda>created_unix_nanos.
     ret \<lparr>mf_previous_message = previous_message, mf_generation = generation, mf_created_by = created_by, mf_priority = priority, mf_execution_profile = execution_profile, mf_durability = durability, mf_size_bytes = size_bytes, mf_party = party, mf_contract = contract, mf_stream = stream, mf_created_unix_nanos = created_unix_nanos\<rparr>)))))))))))"

definition fit_message_facts :: "codec \<Rightarrow> message_facts \<Rightarrow> bool" where
  "fit_message_facts c x \<longleftrightarrow>
     length (mf_created_by x) \<le> most c \<and>
     length (mf_priority x) \<le> most c \<and>
     length (mf_execution_profile x) \<le> most c \<and>
     length (mf_durability x) \<le> most c \<and>
     fit_maybe (\<lambda>s. length s \<le> most c) (mf_party x) \<and>
     fit_maybe (\<lambda>s. length s \<le> most c) (mf_contract x)"

sublocale codec_laws \<subseteq> message_facts: form "w_message_facts c" "r_message_facts c" "fit_message_facts c"
proof
  show "r_message_facts c (w_message_facts c x @ rest) = Inr (x, rest)" if "fit_message_facts c x" for x rest
    using that by (cases x) (simp add: r_message_facts_def w_message_facts_def fit_message_facts_def)
  show "fit_message_facts c x" if "r_message_facts c bs = Inr (x, rest)" for bs x rest
    using that by (auto simp: r_message_facts_def andr_eq_Inr fit_message_facts_def intro: form_wf)
qed

section \<open>An audit record\<close>

record audit_facts =
  af_occurred_unix_nanos :: u64
  af_action :: string
  af_phase :: string
  af_severity :: string
  af_failed :: bool
  af_text :: "string option"
  af_program :: string
  af_host :: string
  af_process :: u32
  af_location :: "string option"
  af_hidden :: bool
  af_execution :: "u128 option"
  af_journey :: "u128 option"
  af_message :: "u128 option"
  af_artifact_kind :: "string option"
  af_artifact_name :: "string option"
  af_artifact_version :: "string option"
  af_node :: "string option"
  af_cluster :: "string option"
  af_writer :: string
  af_position :: u64
  af_previous :: bytes
  af_digest :: bytes
  af_body_length :: u64
  af_body_chunks :: u32
  af_body_digest :: bytes
  af_kept_unix_nanos :: u64

definition w_audit_facts :: "codec \<Rightarrow> audit_facts \<Rightarrow> bytes" where
  "w_audit_facts c x =
     w_u64 c (af_occurred_unix_nanos x) @
     w_text c (af_action x) @
     w_text c (af_phase x) @
     w_text c (af_severity x) @
     w_flag c (af_failed x) @
     w_maybe c (w_text c) (af_text x) @
     w_text c (af_program x) @
     w_text c (af_host x) @
     w_u32 c (af_process x) @
     w_maybe c (w_text c) (af_location x) @
     w_flag c (af_hidden x) @
     w_maybe c (w_u128 c) (af_execution x) @
     w_maybe c (w_u128 c) (af_journey x) @
     w_maybe c (w_u128 c) (af_message x) @
     w_maybe c (w_text c) (af_artifact_kind x) @
     w_maybe c (w_text c) (af_artifact_name x) @
     w_maybe c (w_text c) (af_artifact_version x) @
     w_maybe c (w_text c) (af_node x) @
     w_maybe c (w_text c) (af_cluster x) @
     w_text c (af_writer x) @
     w_u64 c (af_position x) @
     w_digest (af_previous x) @
     w_digest (af_digest x) @
     w_u64 c (af_body_length x) @
     w_u32 c (af_body_chunks x) @
     w_digest (af_body_digest x) @
     w_u64 c (af_kept_unix_nanos x)"

definition r_audit_facts :: "codec \<Rightarrow> audit_facts reader" where
  "r_audit_facts c =
     andr (r_u64 c) (\<lambda>occurred_unix_nanos.
     andr (r_text c) (\<lambda>action.
     andr (r_text c) (\<lambda>phase.
     andr (r_text c) (\<lambda>severity.
     andr (r_flag c) (\<lambda>failed.
     andr (r_maybe c (r_text c)) (\<lambda>text.
     andr (r_text c) (\<lambda>program.
     andr (r_text c) (\<lambda>host.
     andr (r_u32 c) (\<lambda>process.
     andr (r_maybe c (r_text c)) (\<lambda>location.
     andr (r_flag c) (\<lambda>hidden.
     andr (r_maybe c (r_u128 c)) (\<lambda>execution.
     andr (r_maybe c (r_u128 c)) (\<lambda>journey.
     andr (r_maybe c (r_u128 c)) (\<lambda>message.
     andr (r_maybe c (r_text c)) (\<lambda>artifact_kind.
     andr (r_maybe c (r_text c)) (\<lambda>artifact_name.
     andr (r_maybe c (r_text c)) (\<lambda>artifact_version.
     andr (r_maybe c (r_text c)) (\<lambda>node.
     andr (r_maybe c (r_text c)) (\<lambda>cluster.
     andr (r_text c) (\<lambda>writer.
     andr (r_u64 c) (\<lambda>position.
     andr (r_digest c) (\<lambda>previous.
     andr (r_digest c) (\<lambda>digest.
     andr (r_u64 c) (\<lambda>body_length.
     andr (r_u32 c) (\<lambda>body_chunks.
     andr (r_digest c) (\<lambda>body_digest.
     andr (r_u64 c) (\<lambda>kept_unix_nanos.
     ret \<lparr>af_occurred_unix_nanos = occurred_unix_nanos, af_action = action, af_phase = phase, af_severity = severity, af_failed = failed, af_text = text, af_program = program, af_host = host, af_process = process, af_location = location, af_hidden = hidden, af_execution = execution, af_journey = journey, af_message = message, af_artifact_kind = artifact_kind, af_artifact_name = artifact_name, af_artifact_version = artifact_version, af_node = node, af_cluster = cluster, af_writer = writer, af_position = position, af_previous = previous, af_digest = digest, af_body_length = body_length, af_body_chunks = body_chunks, af_body_digest = body_digest, af_kept_unix_nanos = kept_unix_nanos\<rparr>)))))))))))))))))))))))))))"

definition fit_audit_facts :: "codec \<Rightarrow> audit_facts \<Rightarrow> bool" where
  "fit_audit_facts c x \<longleftrightarrow>
     length (af_action x) \<le> most c \<and>
     length (af_phase x) \<le> most c \<and>
     length (af_severity x) \<le> most c \<and>
     fit_maybe (\<lambda>s. length s \<le> most c) (af_text x) \<and>
     length (af_program x) \<le> most c \<and>
     length (af_host x) \<le> most c \<and>
     fit_maybe (\<lambda>s. length s \<le> most c) (af_location x) \<and>
     fit_maybe (\<lambda>s. length s \<le> most c) (af_artifact_kind x) \<and>
     fit_maybe (\<lambda>s. length s \<le> most c) (af_artifact_name x) \<and>
     fit_maybe (\<lambda>s. length s \<le> most c) (af_artifact_version x) \<and>
     fit_maybe (\<lambda>s. length s \<le> most c) (af_node x) \<and>
     fit_maybe (\<lambda>s. length s \<le> most c) (af_cluster x) \<and>
     length (af_writer x) \<le> most c \<and>
     length (af_previous x) = 32 \<and>
     length (af_digest x) = 32 \<and>
     length (af_body_digest x) = 32"

sublocale codec_laws \<subseteq> audit_facts: form "w_audit_facts c" "r_audit_facts c" "fit_audit_facts c"
proof
  show "r_audit_facts c (w_audit_facts c x @ rest) = Inr (x, rest)" if "fit_audit_facts c x" for x rest
    using that by (cases x) (simp add: r_audit_facts_def w_audit_facts_def fit_audit_facts_def)
  show "fit_audit_facts c x" if "r_audit_facts c bs = Inr (x, rest)" for bs x rest
    using that by (auto simp: r_audit_facts_def andr_eq_Inr fit_audit_facts_def intro: form_wf)
qed

end
