(* ===== verification/Records.thy ===== *)
theory Records
  imports Facts
begin

text \<open>
  What Xmip Storage keeps and the one form each record is written in
  (\<open>src/.src/storage/record.rs\<close>, \<open>stream.rs\<close>, \<open>audited.rs\<close>, \<open>audit_entry.rs\<close>, \<open>kept_audit.rs\<close>):
  a Stream's chunk and its own record, a Message, a Journey, a claim, an administration record,
  an audit record as its writer said it and as the audit keeper keeps it. Each form is shown to
  be one (\<open>form\<close>): what is written is read back, and only that.
\<close>

section \<open>A Stream\<close>

record stream_chunk =
  sc_stream :: u128
  sc_index :: u32
  sc_bytes :: bytes

definition w_stream_chunk :: "codec \<Rightarrow> stream_chunk \<Rightarrow> bytes" where
  "w_stream_chunk c x =
     w_u128 c (sc_stream x) @
     w_u32 c (sc_index x) @
     w_counted c (sc_bytes x)"

definition r_stream_chunk :: "codec \<Rightarrow> stream_chunk reader" where
  "r_stream_chunk c =
     andr (r_u128 c) (\<lambda>stream.
     andr (r_u32 c) (\<lambda>index.
     andr (r_counted c) (\<lambda>bytes.
     ret \<lparr>sc_stream = stream, sc_index = index, sc_bytes = bytes\<rparr>)))"

definition fit_stream_chunk :: "codec \<Rightarrow> stream_chunk \<Rightarrow> bool" where
  "fit_stream_chunk c x \<longleftrightarrow> length (sc_bytes x) \<le> most c"

sublocale codec_laws \<subseteq> stream_chunk: form "w_stream_chunk c" "r_stream_chunk c" "fit_stream_chunk c"
proof
  show "r_stream_chunk c (w_stream_chunk c x @ rest) = Inr (x, rest)" if "fit_stream_chunk c x" for x rest
    using that by (cases x) (simp add: r_stream_chunk_def w_stream_chunk_def fit_stream_chunk_def)
  show "fit_stream_chunk c x" if "r_stream_chunk c bs = Inr (x, rest)" for bs x rest
    using that by (auto simp: r_stream_chunk_def andr_eq_Inr fit_stream_chunk_def intro: form_wf)
qed

record stream_record =
  sr_stream :: u128
  sr_length :: u64
  sr_chunks :: u32
  sr_digest :: bytes
  sr_written_unix_nanos :: u64

definition w_stream_record :: "codec \<Rightarrow> stream_record \<Rightarrow> bytes" where
  "w_stream_record c x =
     w_u128 c (sr_stream x) @
     w_u64 c (sr_length x) @
     w_u32 c (sr_chunks x) @
     w_digest (sr_digest x) @
     w_u64 c (sr_written_unix_nanos x)"

definition r_stream_record :: "codec \<Rightarrow> stream_record reader" where
  "r_stream_record c =
     andr (r_u128 c) (\<lambda>stream.
     andr (r_u64 c) (\<lambda>length.
     andr (r_u32 c) (\<lambda>chunks.
     andr (r_digest c) (\<lambda>digest.
     andr (r_u64 c) (\<lambda>written_unix_nanos.
     ret \<lparr>sr_stream = stream, sr_length = length, sr_chunks = chunks, sr_digest = digest, sr_written_unix_nanos = written_unix_nanos\<rparr>)))))"

definition fit_stream_record :: "codec \<Rightarrow> stream_record \<Rightarrow> bool" where
  "fit_stream_record c x \<longleftrightarrow> length (sr_digest x) = 32"

sublocale codec_laws \<subseteq> stream_record: form "w_stream_record c" "r_stream_record c" "fit_stream_record c"
proof
  show "r_stream_record c (w_stream_record c x @ rest) = Inr (x, rest)" if "fit_stream_record c x" for x rest
    using that by (cases x) (simp add: r_stream_record_def w_stream_record_def fit_stream_record_def)
  show "fit_stream_record c x" if "r_stream_record c bs = Inr (x, rest)" for bs x rest
    using that by (auto simp: r_stream_record_def andr_eq_Inr fit_stream_record_def intro: form_wf)
qed

definition chunk_key :: "u128 \<Rightarrow> u32 \<Rightarrow> key" where
  "chunk_key stream index = be128 stream @ be32 index"

section \<open>A Message and a Journey\<close>

record message_record =
  mr_message :: u128
  mr_body :: bytes
  mr_facts :: message_facts

definition w_message_record :: "codec \<Rightarrow> message_record \<Rightarrow> bytes" where
  "w_message_record c x =
     w_u128 c (mr_message x) @
     w_counted c (mr_body x) @
     w_message_facts c (mr_facts x)"

definition r_message_record :: "codec \<Rightarrow> message_record reader" where
  "r_message_record c =
     andr (r_u128 c) (\<lambda>message.
     andr (r_counted c) (\<lambda>body.
     andr (r_message_facts c) (\<lambda>facts.
     ret \<lparr>mr_message = message, mr_body = body, mr_facts = facts\<rparr>)))"

definition fit_message_record :: "codec \<Rightarrow> message_record \<Rightarrow> bool" where
  "fit_message_record c x \<longleftrightarrow> length (mr_body x) \<le> most c \<and>
     fit_message_facts c (mr_facts x)"

sublocale codec_laws \<subseteq> message_record: form "w_message_record c" "r_message_record c" "fit_message_record c"
proof
  show "r_message_record c (w_message_record c x @ rest) = Inr (x, rest)" if "fit_message_record c x" for x rest
    using that by (cases x) (simp add: r_message_record_def w_message_record_def fit_message_record_def message_facts.read_write)
  show "fit_message_record c x" if "r_message_record c bs = Inr (x, rest)" for bs x rest
    using that by (auto simp: r_message_record_def andr_eq_Inr fit_message_record_def intro: form_wf message_facts.read_fit)
qed

record journey_record =
  jr_journey :: u128
  jr_body :: bytes
  jr_facts :: journey_facts

definition w_journey_record :: "codec \<Rightarrow> journey_record \<Rightarrow> bytes" where
  "w_journey_record c x =
     w_u128 c (jr_journey x) @
     w_counted c (jr_body x) @
     w_journey_facts c (jr_facts x)"

definition r_journey_record :: "codec \<Rightarrow> journey_record reader" where
  "r_journey_record c =
     andr (r_u128 c) (\<lambda>journey.
     andr (r_counted c) (\<lambda>body.
     andr (r_journey_facts c) (\<lambda>facts.
     ret \<lparr>jr_journey = journey, jr_body = body, jr_facts = facts\<rparr>)))"

definition fit_journey_record :: "codec \<Rightarrow> journey_record \<Rightarrow> bool" where
  "fit_journey_record c x \<longleftrightarrow> length (jr_body x) \<le> most c \<and>
     fit_journey_facts c (jr_facts x)"

sublocale codec_laws \<subseteq> journey_record: form "w_journey_record c" "r_journey_record c" "fit_journey_record c"
proof
  show "r_journey_record c (w_journey_record c x @ rest) = Inr (x, rest)" if "fit_journey_record c x" for x rest
    using that by (cases x) (simp add: r_journey_record_def w_journey_record_def fit_journey_record_def journey_facts.read_write)
  show "fit_journey_record c x" if "r_journey_record c bs = Inr (x, rest)" for bs x rest
    using that by (auto simp: r_journey_record_def andr_eq_Inr fit_journey_record_def intro: form_wf journey_facts.read_fit)
qed

section \<open>A claim\<close>

text \<open>
  A claim kept before fences were written ends after its time: it is read with none. A claim
  is the last of what is read with it, in a batch's record and on its own.
\<close>

record claim =
  cl_journey :: u128
  cl_holder :: string
  cl_token :: u128
  cl_until_unix_nanos :: i128
  cl_fence :: u64

definition w_claim :: "codec \<Rightarrow> claim \<Rightarrow> bytes" where
  "w_claim c x =
     w_u128 c (cl_journey x) @
     w_text c (cl_holder x) @
     w_u128 c (cl_token x) @
     w_i128 c (cl_until_unix_nanos x) @
     w_u64 c (cl_fence x)"

definition r_claim :: "codec \<Rightarrow> claim reader" where
  "r_claim c =
     andr (r_u128 c) (\<lambda>journey.
     andr (r_text c) (\<lambda>holder.
     andr (r_u128 c) (\<lambda>token.
     andr (r_i128 c) (\<lambda>until_unix_nanos.
     andr (\<lambda>bs. if bs = [] then Inr (0, bs) else r_u64 c bs) (\<lambda>fence.
     ret \<lparr>cl_journey = journey, cl_holder = holder, cl_token = token,
       cl_until_unix_nanos = until_unix_nanos, cl_fence = fence\<rparr>)))))"

definition fit_claim :: "codec \<Rightarrow> claim \<Rightarrow> bool" where
  "fit_claim c x \<longleftrightarrow> length (cl_holder x) \<le> most c"

context codec_laws
begin

lemma w_u64_not_Nil: "w_u64 c x @ rest \<noteq> []"
proof
  assume "w_u64 c x @ rest = []"
  then have "w_u64 c x = []" "rest = []" by simp_all
  then have "r_u64 c [] = Inr (x, [])" using u64 [of x "[]"] by simp
  moreover have "r_u64 c [] = Inr (x + 1, [])" if "w_u64 c (x + 1) = []"
    using u64 [of "x + 1" "[]"] that by simp
  moreover have "r_u64 c (w_u64 c (x + 1) @ []) = Inr (x + 1, [])" by (rule u64)
  moreover have "r_u64 c ([] @ w_u64 c (x + 1)) = Inr (x, w_u64 c (x + 1))"
    using u64 [of x "w_u64 c (x + 1)"] \<open>w_u64 c x = []\<close> by simp
  ultimately show False by simp
qed

end

sublocale codec_laws \<subseteq> claim: form "w_claim c" "r_claim c" "fit_claim c"
proof
  show "r_claim c (w_claim c x @ rest) = Inr (x, rest)" if "fit_claim c x" for x rest
    using that w_u64_not_Nil [of "cl_fence x" rest]
    by (cases x) (auto simp: r_claim_def w_claim_def fit_claim_def andr_def)
  show "fit_claim c x" if "r_claim c bs = Inr (x, rest)" for bs x rest
    using that by (auto simp: r_claim_def andr_eq_Inr fit_claim_def intro: form_wf)
qed

section \<open>An administration record\<close>

datatype administration_kind = Registration | Membership | Module | Handler | Deployment | Operator

definition all_kinds :: "administration_kind list" where
  "all_kinds = [Registration, Membership, Module, Handler, Deployment, Operator]"

fun word_of_kind :: "administration_kind \<Rightarrow> string" where
  "word_of_kind Registration = ''registration''"
| "word_of_kind Membership = ''membership''"
| "word_of_kind Module = ''module''"
| "word_of_kind Handler = ''handler''"
| "word_of_kind Deployment = ''deployment''"
| "word_of_kind Operator = ''operator''"

fun number_of_kind :: "administration_kind \<Rightarrow> u8" where
  "number_of_kind Registration = 0"
| "number_of_kind Membership = 1"
| "number_of_kind Module = 2"
| "number_of_kind Handler = 3"
| "number_of_kind Deployment = 4"
| "number_of_kind Operator = 5"

definition numbered_kind :: "u8 \<Rightarrow> string + administration_kind" where
  "numbered_kind number = (case find (\<lambda>k. number_of_kind k = number) all_kinds of
     Some k \<Rightarrow> Inr k
   | None \<Rightarrow> Inl (''no administration kind is numbered '' @ digits (unat number)))"

definition w_administration_kind :: "codec \<Rightarrow> administration_kind \<Rightarrow> bytes" where
  "w_administration_kind c k = w_byte c (number_of_kind k)"

definition r_administration_kind :: "codec \<Rightarrow> administration_kind reader" where
  "r_administration_kind c = andr (r_byte c) (\<lambda>b bs. bindr (numbered_kind b) (\<lambda>k. Inr (k, bs)))"

definition fit_administration_kind :: "codec \<Rightarrow> administration_kind \<Rightarrow> bool" where
  "fit_administration_kind c k \<longleftrightarrow> True"

lemma numbered_number [simp]: "numbered_kind (number_of_kind k) = Inr k"
  by (cases k) (simp_all add: numbered_kind_def all_kinds_def)

sublocale codec_laws \<subseteq> administration_kind:
    form "w_administration_kind c" "r_administration_kind c" "fit_administration_kind c"
  by unfold_locales
    (simp_all add: r_administration_kind_def w_administration_kind_def fit_administration_kind_def)

record administration_record =
  ar_kind :: administration_kind
  ar_id :: u128
  ar_body :: bytes
  ar_updated_unix_nanos :: u64

definition w_administration_record :: "codec \<Rightarrow> administration_record \<Rightarrow> bytes" where
  "w_administration_record c x =
     w_administration_kind c (ar_kind x) @
     w_u128 c (ar_id x) @
     w_counted c (ar_body x) @
     w_u64 c (ar_updated_unix_nanos x)"

definition r_administration_record :: "codec \<Rightarrow> administration_record reader" where
  "r_administration_record c =
     andr (r_administration_kind c) (\<lambda>kind.
     andr (r_u128 c) (\<lambda>id'.
     andr (r_counted c) (\<lambda>body.
     andr (r_u64 c) (\<lambda>updated_unix_nanos.
     ret \<lparr>ar_kind = kind, ar_id = id', ar_body = body, ar_updated_unix_nanos = updated_unix_nanos\<rparr>))))"

definition fit_administration_record :: "codec \<Rightarrow> administration_record \<Rightarrow> bool" where
  "fit_administration_record c x \<longleftrightarrow> fit_administration_kind c (ar_kind x) \<and>
     length (ar_body x) \<le> most c"

sublocale codec_laws \<subseteq> administration_record: form "w_administration_record c" "r_administration_record c" "fit_administration_record c"
proof
  show "r_administration_record c (w_administration_record c x @ rest) = Inr (x, rest)" if "fit_administration_record c x" for x rest
    using that by (cases x) (simp add: r_administration_record_def w_administration_record_def fit_administration_record_def administration_kind.read_write)
  show "fit_administration_record c x" if "r_administration_record c bs = Inr (x, rest)" for bs x rest
    using that by (auto simp: r_administration_record_def andr_eq_Inr fit_administration_record_def intro: form_wf administration_kind.read_fit)
qed

section \<open>An audit record\<close>

record audited =
  ad_message :: bytes
  ad_streams :: "u128 list"

definition w_audited :: "codec \<Rightarrow> audited \<Rightarrow> bytes" where
  "w_audited c x =
     w_counted c (ad_message x) @
     w_many c (w_u128 c) (ad_streams x)"

definition r_audited :: "codec \<Rightarrow> audited reader" where
  "r_audited c =
     andr (r_counted c) (\<lambda>message.
     andr (r_many c (r_u128 c)) (\<lambda>streams.
     ret \<lparr>ad_message = message, ad_streams = streams\<rparr>))"

definition fit_audited :: "codec \<Rightarrow> audited \<Rightarrow> bool" where
  "fit_audited c x \<longleftrightarrow> length (ad_message x) \<le> most c \<and>
     fit_many (\<lambda>x. True) (ad_streams x)"

sublocale codec_laws \<subseteq> audited: form "w_audited c" "r_audited c" "fit_audited c"
proof
  show "r_audited c (w_audited c x @ rest) = Inr (x, rest)" if "fit_audited c x" for x rest
    using that by (cases x) (simp add: r_audited_def w_audited_def fit_audited_def)
  show "fit_audited c x" if "r_audited c bs = Inr (x, rest)" for bs x rest
    using that by (auto simp: r_audited_def andr_eq_Inr fit_audited_def intro: form_wf)
qed

sublocale codec_laws \<subseteq> audited_maybe:
    form "w_maybe c (w_audited c)" "r_maybe c (r_audited c)" "fit_maybe (fit_audited c)"
  by (rule maybe_form) (rule audited.form_axioms)

record audit_body =
  ab_body :: bytes
  ab_audited :: "audited option"

definition w_audit_body :: "codec \<Rightarrow> audit_body \<Rightarrow> bytes" where
  "w_audit_body c x =
     w_counted c (ab_body x) @
     w_maybe c (w_audited c) (ab_audited x)"

definition r_audit_body :: "codec \<Rightarrow> audit_body reader" where
  "r_audit_body c =
     andr (r_counted c) (\<lambda>body.
     andr (r_maybe c (r_audited c)) (\<lambda>audited.
     ret \<lparr>ab_body = body, ab_audited = audited\<rparr>))"

definition fit_audit_body :: "codec \<Rightarrow> audit_body \<Rightarrow> bool" where
  "fit_audit_body c x \<longleftrightarrow> length (ab_body x) \<le> most c \<and>
     fit_maybe (fit_audited c) (ab_audited x)"

sublocale codec_laws \<subseteq> audit_body: form "w_audit_body c" "r_audit_body c" "fit_audit_body c"
proof
  show "r_audit_body c (w_audit_body c x @ rest) = Inr (x, rest)" if "fit_audit_body c x" for x rest
    using that by (cases x) (simp add: r_audit_body_def w_audit_body_def fit_audit_body_def audited_maybe.read_write)
  show "fit_audit_body c x" if "r_audit_body c bs = Inr (x, rest)" for bs x rest
    using that by (auto simp: r_audit_body_def andr_eq_Inr fit_audit_body_def intro: form_wf audited_maybe.read_fit)
qed

record audit_entry =
  ae_id :: u128
  ae_body :: bytes
  ae_audited :: "audited option"
  ae_facts :: audit_facts

definition body_bytes :: "codec \<Rightarrow> audit_entry \<Rightarrow> bytes" where
  "body_bytes c x = w_audit_body c \<lparr>ab_body = ae_body x, ab_audited = ae_audited x\<rparr>"

definition w_audit_entry :: "codec \<Rightarrow> audit_entry \<Rightarrow> bytes" where
  "w_audit_entry c x = w_u128 c (ae_id x) @ body_bytes c x @ w_audit_facts c (ae_facts x)"

definition r_audit_entry :: "codec \<Rightarrow> audit_entry reader" where
  "r_audit_entry c =
     andr (r_u128 c) (\<lambda>i.
     andr (r_audit_body c) (\<lambda>b.
     andr (r_audit_facts c) (\<lambda>facts.
     ret \<lparr>ae_id = i, ae_body = ab_body b, ae_audited = ab_audited b, ae_facts = facts\<rparr>)))"

definition fit_audit_entry :: "codec \<Rightarrow> audit_entry \<Rightarrow> bool" where
  "fit_audit_entry c x \<longleftrightarrow> length (ae_body x) \<le> most c \<and>
     fit_maybe (fit_audited c) (ae_audited x) \<and> fit_audit_facts c (ae_facts x)"

sublocale codec_laws \<subseteq> audit_entry: form "w_audit_entry c" "r_audit_entry c" "fit_audit_entry c"
proof
  show "r_audit_entry c (w_audit_entry c x @ rest) = Inr (x, rest)" if "fit_audit_entry c x" for x rest
    using that
    by (cases x) (simp add: r_audit_entry_def w_audit_entry_def fit_audit_entry_def body_bytes_def
        audit_body.read_write fit_audit_body_def audit_facts.read_write)
  show "fit_audit_entry c x" if "r_audit_entry c bs = Inr (x, rest)" for bs x rest
    using that by (auto simp: r_audit_entry_def andr_eq_Inr fit_audit_entry_def fit_audit_body_def
        dest!: audit_body.read_fit audit_facts.read_fit)
qed

record kept_audit =
  ka_id :: u128
  ka_streams :: "u128 list"
  ka_facts :: audit_facts

definition w_kept_audit :: "codec \<Rightarrow> kept_audit \<Rightarrow> bytes" where
  "w_kept_audit c x =
     w_u128 c (ka_id x) @
     w_many c (w_u128 c) (ka_streams x) @
     w_audit_facts c (ka_facts x)"

definition r_kept_audit :: "codec \<Rightarrow> kept_audit reader" where
  "r_kept_audit c =
     andr (r_u128 c) (\<lambda>id'.
     andr (r_many c (r_u128 c)) (\<lambda>streams.
     andr (r_audit_facts c) (\<lambda>facts.
     ret \<lparr>ka_id = id', ka_streams = streams, ka_facts = facts\<rparr>)))"

definition fit_kept_audit :: "codec \<Rightarrow> kept_audit \<Rightarrow> bool" where
  "fit_kept_audit c x \<longleftrightarrow> fit_many (\<lambda>x. True) (ka_streams x) \<and>
     fit_audit_facts c (ka_facts x)"

sublocale codec_laws \<subseteq> kept_audit: form "w_kept_audit c" "r_kept_audit c" "fit_kept_audit c"
proof
  show "r_kept_audit c (w_kept_audit c x @ rest) = Inr (x, rest)" if "fit_kept_audit c x" for x rest
    using that by (cases x) (simp add: r_kept_audit_def w_kept_audit_def fit_kept_audit_def audit_facts.read_write)
  show "fit_kept_audit c x" if "r_kept_audit c bs = Inr (x, rest)" for bs x rest
    using that by (auto simp: r_kept_audit_def andr_eq_Inr fit_kept_audit_def intro: form_wf audit_facts.read_fit)
qed

record kept_stream =
  ks_audit :: u128
  ks_stream :: stream_record

definition w_kept_stream :: "codec \<Rightarrow> kept_stream \<Rightarrow> bytes" where
  "w_kept_stream c x =
     w_u128 c (ks_audit x) @
     w_stream_record c (ks_stream x)"

definition r_kept_stream :: "codec \<Rightarrow> kept_stream reader" where
  "r_kept_stream c =
     andr (r_u128 c) (\<lambda>audit.
     andr (r_stream_record c) (\<lambda>stream.
     ret \<lparr>ks_audit = audit, ks_stream = stream\<rparr>))"

definition fit_kept_stream :: "codec \<Rightarrow> kept_stream \<Rightarrow> bool" where
  "fit_kept_stream c x \<longleftrightarrow> fit_stream_record c (ks_stream x)"

sublocale codec_laws \<subseteq> kept_stream: form "w_kept_stream c" "r_kept_stream c" "fit_kept_stream c"
proof
  show "r_kept_stream c (w_kept_stream c x @ rest) = Inr (x, rest)" if "fit_kept_stream c x" for x rest
    using that by (cases x) (simp add: r_kept_stream_def w_kept_stream_def fit_kept_stream_def stream_record.read_write)
  show "fit_kept_stream c x" if "r_kept_stream c bs = Inr (x, rest)" for bs x rest
    using that by (auto simp: r_kept_stream_def andr_eq_Inr fit_kept_stream_def intro: form_wf stream_record.read_fit)
qed

definition audit_stream_key :: "u128 \<Rightarrow> u128 \<Rightarrow> key" where
  "audit_stream_key audit stream = be128 audit @ be128 stream"

definition audit_chunk_key :: "u128 \<Rightarrow> u128 \<Rightarrow> u32 \<Rightarrow> key" where
  "audit_chunk_key audit stream index = be128 audit @ be128 stream @ be32 index"

definition audit_body_key :: "u128 \<Rightarrow> u32 \<Rightarrow> key" where
  "audit_body_key audit index = be128 audit @ be32 index"

lemma record_keys_inject [simp, key_simps]:
  "chunk_key s i = chunk_key s' i' \<longleftrightarrow> s = s' \<and> i = i'"
  "audit_stream_key a s = audit_stream_key a' s' \<longleftrightarrow> a = a' \<and> s = s'"
  "audit_chunk_key a s i = audit_chunk_key a' s' i' \<longleftrightarrow> a = a' \<and> s = s' \<and> i = i'"
  "audit_body_key a i = audit_body_key a' i' \<longleftrightarrow> a = a' \<and> i = i'"
  by (auto simp: chunk_key_def audit_stream_key_def audit_chunk_key_def audit_body_key_def)

end
