(* ===== verification/Batch.thy ===== *)
theory Batch
  imports Prelude "HOL-Library.AList"
begin

text \<open>
  One batch the embedded Storage node's writer decides (\<open>src/.src/storage/commit/batch.rs\<close>):
  what it has written so far by place, its changes in order, and what the store held of each
  record it read, read from the store once. An operation is decided on a stage over the batch,
  which takes the stage only once the whole operation has been decided.

  The operations that read and write a batch (\<open>claim.rs\<close>, \<open>queue.rs\<close>, \<open>hold.rs\<close> and the others)
  are programs of two effects, a read and a write of one record: \<open>'a prog\<close>. A program is run
  two ways: on a batch over a store (\<open>run\<close>, what the code does), and on a ledger, a plain map
  of records (\<open>eval\<close>, what it means). \<open>run_eval\<close> shows the first does the second; the
  components are proved on the second.
\<close>

section \<open>The batch\<close>

type_synonym record_change = "kind \<times> key \<times> bytes option"
type_synonym by_place = "((kind \<times> key) \<times> bytes option) list"

text \<open>What the store answers for a record: its value, none, or an error.\<close>

type_synonym store_get = "kind \<Rightarrow> key \<Rightarrow> bytes option result"

datatype batch =
    Bottom (written: by_place) (changes: "record_change list") (kept: by_place)
  | Stage (below: batch) (written: by_place) (changes: "record_change list")

definition empty_batch :: batch where
  "empty_batch = Bottom [] [] []"

definition staged :: "batch \<Rightarrow> batch" where
  "staged b = Stage b [] []"

primrec before :: "store_get \<Rightarrow> batch \<Rightarrow> kind \<Rightarrow> key \<Rightarrow> bytes option result \<times> batch" where
  "before g (Bottom w cs ks) k key = (case map_of ks (k, key) of
     Some v \<Rightarrow> (Inr v, Bottom w cs ks)
   | None \<Rightarrow> (case g k key of
       Inl e \<Rightarrow> (Inl e, Bottom w cs ks)
     | Inr v \<Rightarrow> (Inr v, Bottom w cs (((k, key), v) # ks))))"
| "before g (Stage b w cs) k key = (let (r, b') = before g b k key in (r, Stage b' w cs))"

primrec read :: "store_get \<Rightarrow> batch \<Rightarrow> kind \<Rightarrow> key \<Rightarrow> bytes option result \<times> batch" where
  "read g (Bottom w cs ks) k key = (case map_of w (k, key) of
     Some v \<Rightarrow> (Inr v, Bottom w cs ks)
   | None \<Rightarrow> before g (Bottom w cs ks) k key)"
| "read g (Stage b w cs) k key = (case map_of w (k, key) of
     Some v \<Rightarrow> (Inr v, Stage b w cs)
   | None \<Rightarrow> (let (r, b') = read g b k key in (r, Stage b' w cs)))"

fun put :: "batch \<Rightarrow> kind \<Rightarrow> key \<Rightarrow> bytes option \<Rightarrow> batch" where
  "put (Bottom w cs ks) k key v = Bottom (AList.update (k, key) v w) (cs @ [(k, key, v)]) ks"
| "put (Stage b w cs) k key v = Stage b (AList.update (k, key) v w) (cs @ [(k, key, v)])"

definition written_of :: "batch \<Rightarrow> kind \<Rightarrow> (key \<times> bytes option) list" where
  "written_of b k = [(key, v). ((k', key), v) \<leftarrow> written b, k' = k]"

text \<open>
  The batch takes a stage: \<open>written.extend\<close> and \<open>changes.extend\<close> of the stage's, over the batch
  below as the stage's reads left it; or, where its operation failed, the stage is dropped.
\<close>

definition extend :: "by_place \<Rightarrow> by_place \<Rightarrow> by_place" where
  "extend w w' = foldl (\<lambda>acc (p, v). AList.update p v acc) w w'"

fun taken :: "batch \<Rightarrow> batch" where
  "taken (Stage (Bottom w cs ks) w' cs') = Bottom (extend w w') (cs @ cs') ks"
| "taken (Stage (Stage b w cs) w' cs') = Stage b (extend w w') (cs @ cs')"
| "taken (Bottom w cs ks) = Bottom w cs ks"

fun dropped :: "batch \<Rightarrow> batch" where
  "dropped (Stage b w cs) = b"
| "dropped (Bottom w cs ks) = Bottom w cs ks"

section \<open>Programs over a batch\<close>

datatype 'a prog =
    Ret 'a
  | Fail persist_error
  | Read kind key "bytes option \<Rightarrow> 'a prog"
  | Put kind key "bytes option" "'a prog"

primrec bindp :: "'a prog \<Rightarrow> ('a \<Rightarrow> 'b prog) \<Rightarrow> 'b prog" where
  "bindp (Ret x) f = f x"
| "bindp (Fail e) f = Fail e"
| "bindp (Read k key h) f = Read k key (\<lambda>v. bindp (h v) f)"
| "bindp (Put k key v p) f = Put k key v (bindp p f)"

text \<open>An answer that may be an error, as the language's \<open>?\<close> takes it; a loop over a list.\<close>

definition liftp :: "'a result \<Rightarrow> 'a prog" where
  "liftp r = (case r of Inl e \<Rightarrow> Fail e | Inr x \<Rightarrow> Ret x)"

fun eachp :: "('a \<Rightarrow> unit prog) \<Rightarrow> 'a list \<Rightarrow> unit prog" where
  "eachp f [] = Ret ()"
| "eachp f (x # xs) = bindp (f x) (\<lambda>_. eachp f xs)"

fun gatherp :: "('a \<Rightarrow> 'b option prog) \<Rightarrow> 'a list \<Rightarrow> 'b list prog" where
  "gatherp f [] = Ret []"
| "gatherp f (x # xs) = bindp (f x) (\<lambda>y. bindp (gatherp f xs) (\<lambda>ys.
     Ret (case y of None \<Rightarrow> ys | Some z \<Rightarrow> z # ys)))"

primrec run :: "store_get \<Rightarrow> batch \<Rightarrow> 'a prog \<Rightarrow> 'a result \<times> batch" where
  "run g b (Ret x) = (Inr x, b)"
| "run g b (Fail e) = (Inl e, b)"
| "run g b (Read k key h) = (case read g b k key of
     (Inl e, b') \<Rightarrow> (Inl e, b')
   | (Inr v, b') \<Rightarrow> run g b' (h v))"
| "run g b (Put k key v p) = run g (put b k key v) p"

section \<open>What a program means\<close>

text \<open>A ledger: every record by its kind and key. A program on it, and what it changed.\<close>

type_synonym ledger = "kind \<Rightarrow> key \<Rightarrow> bytes option"

definition empty_ledger :: ledger where
  "empty_ledger = (\<lambda>k key. None)"

definition upd :: "ledger \<Rightarrow> kind \<Rightarrow> key \<Rightarrow> bytes option \<Rightarrow> ledger" where
  "upd L k key v = L(k := (L k)(key := v))"

primrec eval :: "ledger \<Rightarrow> 'a prog \<Rightarrow> ('a \<times> ledger) result" where
  "eval L (Ret x) = Inr (x, L)"
| "eval L (Fail e) = Inl e"
| "eval L (Read k key h) = eval L (h (L k key))"
| "eval L (Put k key v p) = eval (upd L k key v) p"

primrec trace :: "ledger \<Rightarrow> 'a prog \<Rightarrow> record_change list" where
  "trace L (Ret x) = []"
| "trace L (Fail e) = []"
| "trace L (Read k key h) = trace L (h (L k key))"
| "trace L (Put k key v p) = (k, key, v) # trace (upd L k key v) p"

definition apply_changes :: "ledger \<Rightarrow> record_change list \<Rightarrow> ledger" where
  "apply_changes L cs = foldl (\<lambda>L (k, key, v). upd L k key v) L cs"

lemma upd_apply: "upd L k key v k' key' = (if k' = k \<and> key' = key then v else L k' key')"
  by (simp add: upd_def)

lemma upd_same [simp]: "upd L k key v k key = v"
  by (simp add: upd_def)

lemma upd_other_kind [simp]: "k' \<noteq> k \<Longrightarrow> upd L k key v k' = L k'"
  by (simp add: upd_def)

lemma upd_other_key [simp]: "key' \<noteq> key \<Longrightarrow> upd L k key v k' key' = L k' key'"
  by (simp add: upd_def)

lemma eval_bindp [simp]: "eval L (bindp p f) = bindr (eval L p) (\<lambda>(x, L'). eval L' (f x))"
  by (induction p arbitrary: L) auto

lemma eval_bindp_Inr: "eval L p = Inr (x, L') \<Longrightarrow> eval L (bindp p f) = eval L' (f x)"
  by (simp add: eval_bindp)

lemma eval_bindp_Inl: "eval L p = Inl e \<Longrightarrow> eval L (bindp p f) = Inl e"
  by (simp add: eval_bindp)

lemma eval_bindp_eq_Inr:
  "eval L (bindp p f) = Inr (y, L'') \<longleftrightarrow> (\<exists>x L'. eval L p = Inr (x, L') \<and> eval L' (f x) = Inr (y, L''))"
  by (auto simp: eval_bindp bindr_eq_Inr)

lemma eval_liftp [simp]: "eval L (liftp r) = bindr r (\<lambda>x. Inr (x, L))"
  by (cases r) (simp_all add: liftp_def)

lemma bindp_liftp_Inr [simp]: "bindp (liftp (Inr x)) f = f x"
  by (simp add: liftp_def)

lemma bindp_liftp_Inl [simp]: "bindp (liftp (Inl e)) f = Fail e"
  by (simp add: liftp_def)

lemma apply_changes_simps [simp]:
  "apply_changes L [] = L"
  "apply_changes L ((k, key, v) # cs) = apply_changes (upd L k key v) cs"
  "apply_changes L (cs @ cs') = apply_changes (apply_changes L cs) cs'"
  by (simp_all add: apply_changes_def)

text \<open>The ledger a program leaves is the one before it with what it changed, in order.\<close>

lemma eval_trace: "eval L p = Inr (x, L') \<Longrightarrow> L' = apply_changes L (trace L p)"
  by (induction p arbitrary: L) auto

text \<open>The kinds of record a program writes, whatever it reads; every other it leaves as it was.\<close>

primrec writes :: "kind set \<Rightarrow> 'a prog \<Rightarrow> bool" where
  "writes S (Ret x) \<longleftrightarrow> True"
| "writes S (Fail e) \<longleftrightarrow> True"
| "writes S (Read k key h) \<longleftrightarrow> (\<forall>v. writes S (h v))"
| "writes S (Put k key v p) \<longleftrightarrow> k \<in> S \<and> writes S p"

lemma writes_bindp [intro!]: "writes S p \<Longrightarrow> (\<And>x. writes S (f x)) \<Longrightarrow> writes S (bindp p f)"
  by (induction p) simp_all

lemma writes_liftp [simp]: "writes S (liftp r)"
  by (cases r) (simp_all add: liftp_def)

lemma writes_eachp [intro!]: "(\<And>x. x \<in> set xs \<Longrightarrow> writes S (f x)) \<Longrightarrow> writes S (eachp f xs)"
  by (induction xs) auto

lemma writes_gatherp [intro!]: "(\<And>x. x \<in> set xs \<Longrightarrow> writes S (f x)) \<Longrightarrow> writes S (gatherp f xs)"
  by (induction xs) auto

lemma writes_mono: "writes S p \<Longrightarrow> S \<subseteq> T \<Longrightarrow> writes T p"
  by (induction p) auto

lemma writes_eval: "writes S p \<Longrightarrow> eval L p = Inr (x, L') \<Longrightarrow> k \<notin> S \<Longrightarrow> L' k = L k"
proof (induction p arbitrary: L)
  case (Put k' key v p)
  then have "L' k = upd L k' key v k" by (auto intro: Put.IH)
  moreover have "k \<noteq> k'" using Put.prems by auto
  ultimately show ?case by simp
qed auto

section \<open>A batch does what a program means\<close>

text \<open>What a batch reads now, the reads of it changing nothing of that.\<close>

definition view :: "store_get \<Rightarrow> batch \<Rightarrow> kind \<Rightarrow> key \<Rightarrow> bytes option result" where
  "view g b k key = fst (read g b k key)"

definition agrees :: "store_get \<Rightarrow> batch \<Rightarrow> ledger \<Rightarrow> bool" where
  "agrees g b L \<longleftrightarrow> (\<forall>k key. view g b k key = Inr (L k key))"

lemma before_before [simp]: "fst (before g (snd (before g b k key)) k' key') = fst (before g b k' key')"
  by (induction b) (auto split: option.splits sum.splits prod.splits)

lemma read_before [simp]: "fst (read g (snd (before g b k key)) k' key') = fst (read g b k' key')"
proof (induction b)
  case (Bottom w cs ks)
  have "fst (before g (snd (before g (Bottom w cs ks) k key)) k' key') =
      fst (before g (Bottom w cs ks) k' key')" by (rule before_before)
  then show ?case by (auto split: option.splits sum.splits)
next
  case (Stage b w cs)
  then show ?case by (auto split: option.splits prod.splits simp: Let_def split_beta)
qed

lemma view_read [simp]: "view g (snd (read g b k key)) = view g b"
proof (intro ext)
  fix k' key'
  show "view g (snd (read g b k key)) k' key' = view g b k' key'"
  proof (induction b)
    case (Bottom w cs ks)
    have "fst (read g (snd (before g (Bottom w cs ks) k key)) k' key') =
        fst (read g (Bottom w cs ks) k' key')" by (rule read_before)
    then show ?case by (auto simp: view_def split: option.splits)
  next
    case (Stage b w cs)
    then show ?case by (auto simp: view_def Let_def split_beta split: option.splits)
  qed
qed

lemma read_same_parts [simp]:
  "changes (snd (read g b k key)) = changes b" "written (snd (read g b k key)) = written b"
  by (cases b; auto simp: Let_def split_beta split: option.splits sum.splits)+

lemma before_same_parts [simp]:
  "changes (snd (before g b k key)) = changes b" "written (snd (before g b k key)) = written b"
  by (cases b; auto simp: Let_def split_beta split: option.splits sum.splits)+

lemma view_put [simp]:
  "view g (put b k key v) k' key' = (if k' = k \<and> key' = key then Inr v else view g b k' key')"
  by (cases b) (auto simp: view_def update_conv' Let_def split_beta split: option.splits sum.splits)

lemma changes_put [simp]: "changes (put b k key v) = changes b @ [(k, key, v)]"
  by (cases b) simp_all

lemma agrees_put: "agrees g b L \<Longrightarrow> agrees g (put b k key v) (upd L k key v)"
  by (auto simp: agrees_def upd_apply)

lemma agrees_read: "agrees g b L \<Longrightarrow> agrees g (snd (read g b k key)) L"
  by (simp add: agrees_def)

text \<open>
  A program run on a batch that reads what the ledger holds answers what it answers on the
  ledger, error or not, leaves the batch reading the ledger it leaves, and adds to the batch's
  changes exactly what it changed.
\<close>

lemma run_eval:
  assumes "agrees g b L"
  shows "(\<forall>e. eval L p = Inl e \<longrightarrow> fst (run g b p) = Inl e) \<and>
    (\<forall>x L'. eval L p = Inr (x, L') \<longrightarrow> fst (run g b p) = Inr x \<and>
      agrees g (snd (run g b p)) L' \<and> changes (snd (run g b p)) = changes b @ trace L p)"
  using assms
proof (induction p arbitrary: b L)
  case (Read k key h)
  obtain r b' where rb: "read g b k key = (r, b')" by (cases "read g b k key") auto
  have "fst (read g b k key) = Inr (L k key)" using Read.prems by (simp add: agrees_def view_def)
  then have "r = Inr (L k key)" using rb by simp
  moreover have "agrees g b' L" "changes b' = changes b"
    using agrees_read [OF Read.prems, of k key] read_same_parts(1) [of g b k key] rb by simp_all
  ultimately show ?case using Read.IH [OF rangeI, of b' L "L k key"] rb by simp
next
  case (Put k key v p)
  show ?case using Put.IH [OF agrees_put [OF Put.prems]] by simp
qed auto

text \<open>
  A stage over a batch reads what the batch does until it writes; the batch with the stage
  taken reads what the stage did.
\<close>

lemma view_staged [simp]: "view g (staged b) = view g b"
  by (auto simp: fun_eq_iff view_def staged_def Let_def split_beta)

lemma map_of_extend: "map_of (extend w w') = map_of w ++ map_of (rev w')"
proof (induction w' arbitrary: w)
  case Nil
  then show ?case by (simp add: extend_def)
next
  case (Cons pv w')
  obtain p v where "pv = (p, v)" by (cases pv)
  with Cons show ?case 
    by (auto simp: extend_def update_conv' fun_eq_iff map_add_def split: option.splits)
qed

text \<open>What a stage wrote by place has each place once, so its order does not matter.\<close>

definition distinct_places :: "batch \<Rightarrow> bool" where
  "distinct_places b \<longleftrightarrow> distinct (map fst (written b))"

lemma distinct_places_put: "distinct_places b \<Longrightarrow> distinct_places (put b k key v)"
  by (cases b) (simp_all add: distinct_places_def distinct_update)

lemma distinct_places_run: "distinct_places b \<Longrightarrow> distinct_places (snd (run g b p))"
proof (induction p arbitrary: b)
  case (Read k key h)
  obtain r b' where rb: "read g b k key = (r, b')" by (cases "read g b k key") auto
  have "distinct_places b'"
    using Read.prems read_same_parts(2) [of g b k key] rb by (simp add: distinct_places_def)
  then show ?case using Read.IH [OF rangeI] rb by (cases r) auto
next
  case (Put k key v p)
  then show ?case by (simp add: distinct_places_put)
qed simp_all

lemma map_of_rev_distinct: "distinct (map fst w) \<Longrightarrow> map_of (rev w) = map_of w"
  by (induction w) (force simp: fun_eq_iff map_add_def split: option.splits dest: map_of_SomeD)+

lemma view_taken:
  assumes "distinct_places (Stage b w cs)"
  shows "view g (taken (Stage b w cs)) = view g (Stage b w cs)"
proof -
  have "map_of (rev w) = map_of w"
    using assms by (simp add: distinct_places_def map_of_rev_distinct)
  then show ?thesis
    by (cases b) (auto simp: fun_eq_iff view_def map_of_extend map_add_def Let_def split_beta
        split: option.splits sum.splits)
qed

text \<open>A run on a stage leaves the batch below it as it was, but for what it remembers.\<close>

lemma read_Stage: "snd (read g (Stage b w cs) k key) = Stage (if map_of w (k, key) = None then snd (read g b k key) else b) w cs"
  by (auto simp: Let_def split_beta split: option.splits)

lemma run_Stage:
  "\<exists>b' w' cs'. snd (run g (Stage b w cs) p) = Stage b' w' cs' \<and>
    view g b' = view g b \<and> changes b' = changes b \<and> written b' = written b"
proof (induction p arbitrary: b w cs)
  case (Read k key h)
  define b1 where "b1 = (if map_of w (k, key) = None then snd (read g b k key) else b)"
  have s: "snd (read g (Stage b w cs) k key) = Stage b1 w cs"
    by (simp only: read_Stage b1_def)
  have same: "view g b1 = view g b" "changes b1 = changes b" "written b1 = written b"
    by (simp_all add: b1_def)
  show ?case
  proof (cases "fst (read g (Stage b w cs) k key)")
    case (Inl e)
    then have "snd (run g (Stage b w cs) (Read k key h)) = Stage b1 w cs"
      using s by (cases "read g (Stage b w cs) k key") simp
    with same show ?thesis by blast
  next
    case (Inr v)
    then have "run g (Stage b w cs) (Read k key h) = run g (Stage b1 w cs) (h v)"
      using s by (cases "read g (Stage b w cs) k key") simp
    then show ?thesis using Read.IH [OF rangeI, where b = b1 and w = w and cs = cs] same
      by (simp only:)
  qed
next
  case (Put k key v p)
  show ?case using Put.IH [of b "AList.update (k, key) v w" "cs @ [(k, key, v)]"] by simp
qed auto

end
