(* ===== verification/Queue.thy ===== *)
theory Queue
  imports Records Batch
begin

text \<open>
  A queue in the runtime database (\<open>src/.src/storage/queue.rs\<close>): what a paused Subscription or
  a Send Port holds, a node's Dead Message Queue, a queue's index of failed Messages. A queue
  keeps its entries by place, an index from what each entry is about to its place, and its
  places: its first, its next and how many it holds. The operations are programs over a batch.

  The abstraction of a queue is the list of its entries in the order of their places: an entry
  placed goes to its end, an entry taken out leaves the others in their order. The invariant
  (\<open>qinv\<close>) says how the three parts agree; the locale \<open>queue_kind\<close> proves the operations once
  for every kind of queue. A place wraps at two to the sixty-four, as the language's release
  build does; the lemmas ask for a next place before the last.
\<close>

section \<open>What a queue keeps\<close>

record kinds =
  k_entry :: kind
  k_by :: kind
  k_places :: kind
  k_table :: string
  k_index :: string

record places =
  pl_first :: u64
  pl_next :: u64
  pl_count :: u64

definition w_places :: "codec \<Rightarrow> places \<Rightarrow> bytes" where
  "w_places c x =
     w_u64 c (pl_first x) @
     w_u64 c (pl_next x) @
     w_u64 c (pl_count x)"

definition r_places :: "codec \<Rightarrow> places reader" where
  "r_places c =
     andr (r_u64 c) (\<lambda>first.
     andr (r_u64 c) (\<lambda>next'.
     andr (r_u64 c) (\<lambda>count.
     ret \<lparr>pl_first = first, pl_next = next', pl_count = count\<rparr>)))"

definition fit_places :: "codec \<Rightarrow> places \<Rightarrow> bool" where
  "fit_places c x \<longleftrightarrow> True"

sublocale codec_laws \<subseteq> places: form "w_places c" "r_places c" "fit_places c"
proof
  show "r_places c (w_places c x @ rest) = Inr (x, rest)" if "fit_places c x" for x rest
    using that by (cases x) (simp add: r_places_def w_places_def fit_places_def)
  show "fit_places c x" if "r_places c bs = Inr (x, rest)" for bs x rest
    using that by (auto simp: r_places_def andr_eq_Inr fit_places_def intro: form_wf)
qed

definition default_places :: places where
  "default_places = \<lparr>pl_first = 0, pl_next = 0, pl_count = 0\<rparr>"

definition entry_key :: "u128 \<Rightarrow> u64 \<Rightarrow> key" where
  "entry_key queue sequence = be128 queue @ be64 sequence"

definition places_key :: "u128 \<Rightarrow> key" where
  "places_key queue = be128 queue"

definition by_key :: "u128 \<Rightarrow> u128 \<Rightarrow> key" where
  "by_key queue about = be128 queue @ be128 about"

lemma queue_keys_inject [simp, key_simps]:
  "entry_key q s = entry_key q' s' \<longleftrightarrow> q = q' \<and> s = s'"
  "places_key q = places_key q' \<longleftrightarrow> q = q'"
  "by_key q a = by_key q' a' \<longleftrightarrow> q = q' \<and> a = a'"
  by (auto simp: entry_key_def places_key_def by_key_def)

section \<open>Its operations\<close>

definition decode_places :: "codec \<Rightarrow> bytes option \<Rightarrow> places result" where
  "decode_places c v = (case v of None \<Rightarrow> Inr default_places | Some bs \<Rightarrow> from_bytes c (r_places c) bs)"

definition places :: "codec \<Rightarrow> kinds \<Rightarrow> u128 \<Rightarrow> places prog" where
  "places c K queue = Read (k_places K) (places_key queue) (\<lambda>v. liftp (decode_places c v))"

definition place :: "codec \<Rightarrow> kinds \<Rightarrow> u128 \<times> u128 \<Rightarrow> (u64 \<Rightarrow> bytes) \<Rightarrow> bool prog" where
  "place c K qa entry = (let (queue, about) = qa; by = by_key queue about in
     Read (k_by K) by (\<lambda>v.
       if v \<noteq> None then Ret False
       else bindp (places c K queue) (\<lambda>p. let sequence = pl_next p in
         Put (k_entry K) (entry_key queue sequence) (Some (entry sequence))
         (Put (k_by K) by (Some (be64 sequence))
         (Put (k_places K) (places_key queue)
           (Some (w_places c (p\<lparr>pl_next := pl_next p + 1, pl_count := pl_count p + 1\<rparr>)))
         (Ret True))))))"

datatype placed = Never | TakenOut | At u64

definition decode_placed :: "bytes option \<Rightarrow> placed result" where
  "decode_placed v = (case v of
     None \<Rightarrow> Inr Never
   | Some bs \<Rightarrow> if bs = [] then Inr TakenOut
       else if length bs = 8 then Inr (At (word_of_nat (from_be bs)))
       else Inl (malformed ''a place that is not eight bytes''))"

definition placed :: "kinds \<Rightarrow> u128 \<times> u128 \<Rightarrow> placed prog" where
  "placed K qa = (let (queue, about) = qa in
     Read (k_by K) (by_key queue about) (\<lambda>v. liftp (decode_placed v)))"

definition take_out :: "codec \<Rightarrow> kinds \<Rightarrow> u128 \<Rightarrow> u64 \<Rightarrow> bytes option prog" where
  "take_out c K queue sequence = Read (k_entry K) (entry_key queue sequence) (\<lambda>v.
     case v of None \<Rightarrow> Ret None
     | Some bytes \<Rightarrow> Put (k_entry K) (entry_key queue sequence) None
        (bindp (places c K queue) (\<lambda>p.
          let p1 = p\<lparr>pl_count := u64_sub (pl_count p) 1\<rparr>;
              p2 = (if pl_count p1 = 0 then p1\<lparr>pl_first := pl_next p1\<rparr> else p1)
          in Put (k_places K) (places_key queue) (Some (w_places c p2)) (Ret (Some bytes)))))"

definition forget :: "kinds \<Rightarrow> u128 \<times> u128 \<Rightarrow> unit prog" where
  "forget K qa = (let (queue, about) = qa in Put (k_by K) (by_key queue about) None (Ret ()))"

definition remember :: "kinds \<Rightarrow> u128 \<times> u128 \<Rightarrow> unit prog" where
  "remember K qa = (let (queue, about) = qa in Put (k_by K) (by_key queue about) (Some []) (Ret ()))"

lemma decode_placed_simps [simp]:
  "decode_placed None = Inr Never"
  "decode_placed (Some []) = Inr TakenOut"
  "decode_placed (Some (be64 s)) = Inr (At s)"
  by (simp_all add: decode_placed_def)

text \<open>What each writes.\<close>

definition kinds_of :: "kinds \<Rightarrow> kind set" where
  "kinds_of K = {k_entry K, k_by K, k_places K}"

lemma queue_writes [intro!]:
  "writes (kinds_of K) (places c K q)" "writes (kinds_of K) (place c K qa f)"
  "writes (kinds_of K) (placed K qa)" "writes (kinds_of K) (take_out c K q s)"
  "writes (kinds_of K) (forget K qa)" "writes (kinds_of K) (remember K qa)"
  by (auto simp: places_def place_def placed_def take_out_def forget_def remember_def kinds_of_def
      Let_def split: prod.splits option.splits)

section \<open>The abstract queue\<close>

text \<open>
  Entries by place, places by what they are about, and the places kept: how they agree, and
  the list of entries they stand for. \<open>about\<close> says what an entry is about.
\<close>

definition qinv :: "(bytes \<Rightarrow> u128 option) \<Rightarrow> (u64 \<Rightarrow> bytes option) \<Rightarrow> (u128 \<Rightarrow> bytes option) \<Rightarrow> places \<Rightarrow> bool" where
  "qinv about e b p \<longleftrightarrow>
     (\<forall>s v. e s = Some v \<longrightarrow> pl_first p \<le> s \<and> s < pl_next p \<and> (\<exists>a. about v = Some a \<and> b a = Some (be64 s))) \<and>
     (\<forall>a bs. b a = Some bs \<longrightarrow> bs = [] \<or> (\<exists>s v. bs = be64 s \<and> e s = Some v \<and> about v = Some a)) \<and>
     unat (pl_count p) = card (dom e) \<and> pl_first p \<le> pl_next p \<and>
     (pl_count p = 0 \<longrightarrow> pl_first p = pl_next p)"

definition qlist :: "(u64 \<Rightarrow> bytes option) \<Rightarrow> bytes list" where
  "qlist e = map (\<lambda>s. the (e s)) (sorted_list_of_set (dom e))"

lemma finite_dom_u64 [simp]: "finite (dom (e :: u64 \<Rightarrow> 'a option))"
  by (rule finite_subset [OF subset_UNIV]) simp

lemma qinv_dests:
  assumes "qinv about e b p"
  shows qinv_range: "e s = Some v \<Longrightarrow> pl_first p \<le> s \<and> s < pl_next p"
    and qinv_about: "e s = Some v \<Longrightarrow> \<exists>a. about v = Some a \<and> b a = Some (be64 s)"
    and qinv_by: "e s = Some v \<Longrightarrow> about v = Some a \<Longrightarrow> b a = Some (be64 s)"
    and qinv_index: "b a = Some bs \<Longrightarrow> bs \<noteq> [] \<Longrightarrow> \<exists>s v. bs = be64 s \<and> e s = Some v \<and> about v = Some a"
    and qinv_count: "unat (pl_count p) = card (dom e)"
    and qinv_first: "pl_first p \<le> pl_next p"
    and qinv_empty: "pl_count p = 0 \<Longrightarrow> pl_first p = pl_next p"
  using assms by (auto simp: qinv_def dest!: spec [of _ s] spec [of _ a])

lemma qinv_same_place:
  "qinv about e b p \<Longrightarrow> e s = Some v \<Longrightarrow> e s' = Some v' \<Longrightarrow> about v = Some a \<Longrightarrow> about v' = Some a \<Longrightarrow> s = s'"
  using qinv_by [of about e b p s v a] qinv_by [of about e b p s' v' a] by simp

lemma qinv_card_le: "qinv about e b p \<Longrightarrow> card (dom e) \<le> unat (pl_next p)"
proof -
  assume "qinv about e b p"
  then have "dom e \<subseteq> {..< pl_next p}" by (auto simp: qinv_def)
  then have "unat ` dom e \<subseteq> {..< unat (pl_next p)}" by (auto simp: word_less_nat_alt)
  then have "card (unat ` dom e) \<le> card {..< unat (pl_next p)}" by (rule card_mono [rotated]) simp
  moreover have "card (unat ` dom e) = card (dom e)" by (rule card_image) (simp add: inj_on_def word_unat_eq_iff)
  ultimately show ?thesis by simp
qed

lemma sorted_list_of_set_append_greater:
  fixes n :: "'a :: linorder"
  assumes "finite S" and "\<And>s. s \<in> S \<Longrightarrow> s < n"
  shows "sorted_list_of_set (insert n S) = sorted_list_of_set S @ [n]"
proof (rule sorted_list_of_set_unique [THEN iffD1])
  show "finite (insert n S)" using assms(1) by simp
  have "n \<notin> S" using assms(2) by blast
  then show "sorted_wrt (<) (sorted_list_of_set S @ [n]) \<and>
      set (sorted_list_of_set S @ [n]) = insert n S \<and>
      length (sorted_list_of_set S @ [n]) = card (insert n S)"
    using assms by (auto simp: sorted_wrt_append strict_sorted_list_of_set)
qed

text \<open>An entry placed at the next place: the invariant kept, the entry at the end of the list.\<close>

lemma qinv_append:
  assumes inv: "qinv about e b p" and fresh: "b a = None" and v: "about v = Some a"
    and room: "pl_next p \<noteq> - 1"
  shows "qinv about (e(pl_next p \<mapsto> v)) (b(a \<mapsto> be64 (pl_next p)))
      (p\<lparr>pl_next := pl_next p + 1, pl_count := pl_count p + 1\<rparr>)"
    and "qlist (e(pl_next p \<mapsto> v)) = qlist e @ [v]"
proof -
  let ?n = "pl_next p"
  have below: "s < ?n" if "e s = Some w" for s w using qinv_range [OF inv that] by simp
  then have new: "?n \<notin> dom e" by auto
  have "unat (pl_count p) < unat (- 1 :: u64)"
  proof -
    have "unat ?n < unat (- 1 :: u64)" using room by (simp add: word_less_nat_alt [symmetric] word_order.not_eq_extremum)
    then show ?thesis using qinv_card_le [OF inv] qinv_count [OF inv] by simp
  qed
  then have "pl_count p \<noteq> - 1" by auto
  then have count: "unat (pl_count p + 1) = Suc (card (dom e))"
    using unat_Suc_u64 [of "pl_count p"] qinv_count [OF inv] by simp
  then have count0: "pl_count p + 1 \<noteq> 0" by (metis nat.distinct(1) unat_0)
  have other: "about w \<noteq> Some a" if "e s = Some w" for s w
    using qinv_by [OF inv that] fresh by auto
  have first: "pl_first p \<le> ?n" by (rule qinv_first [OF inv])
  show "qinv about (e(?n \<mapsto> v)) (b(a \<mapsto> be64 ?n))
      (p\<lparr>pl_next := ?n + 1, pl_count := pl_count p + 1\<rparr>)"
    unfolding qinv_def
  proof (intro conjI allI impI)
    fix s w assume s: "(e(?n \<mapsto> v)) s = Some w"
    show "pl_first (p\<lparr>pl_next := ?n + 1, pl_count := pl_count p + 1\<rparr>) \<le> s"
      using s first by (auto dest: qinv_range [OF inv] split: if_splits)
    show "s < pl_next (p\<lparr>pl_next := ?n + 1, pl_count := pl_count p + 1\<rparr>)"
      using s below [of s w] u64_less_Suc [OF room, of s] by (auto split: if_splits)
    show "\<exists>a'. about w = Some a' \<and> (b(a \<mapsto> be64 ?n)) a' = Some (be64 s)"
    proof (cases "s = ?n")
      case False
      with s have "e s = Some w" by simp
      with qinv_about [OF inv] other obtain a' where "about w = Some a'" "b a' = Some (be64 s)" "a' \<noteq> a"
        by blast
      then show ?thesis by auto
    qed (use s v in auto)
  next
    fix a' bs assume "(b(a \<mapsto> be64 ?n)) a' = Some bs"
    then show "bs = [] \<or> (\<exists>s w. bs = be64 s \<and> (e(?n \<mapsto> v)) s = Some w \<and> about w = Some a')"
    proof (cases "a' = a \<or> bs = []")
      case False
      then obtain s w where "bs = be64 s" "e s = Some w" "about w = Some a'"
        using \<open>(b(a \<mapsto> be64 ?n)) a' = Some bs\<close> qinv_index [OF inv, of a' bs] by auto
      moreover from this(2) new have "s \<noteq> ?n" by auto
      ultimately show ?thesis by auto
    qed (use \<open>(b(a \<mapsto> be64 ?n)) a' = Some bs\<close> v in auto)
  qed (use count count0 new first u64_next_less [OF room] in auto)
  show "qlist (e(?n \<mapsto> v)) = qlist e @ [v]"
  proof -
    have "sorted_list_of_set (insert ?n (dom e)) = sorted_list_of_set (dom e) @ [?n]"
      by (rule sorted_list_of_set_append_greater) (auto dest: below)
    moreover have "map (\<lambda>s. the ((e(?n \<mapsto> v)) s)) (sorted_list_of_set (dom e)) =
        map (\<lambda>s. the (e s)) (sorted_list_of_set (dom e))" using new by (intro map_cong) auto
    ultimately show ?thesis by (simp add: qlist_def)
  qed
qed

text \<open>An entry taken out and its index forgotten, or remembered as taken out.\<close>

definition places_without_one :: "places \<Rightarrow> places" where
  "places_without_one p = (let p1 = p\<lparr>pl_count := u64_sub (pl_count p) 1\<rparr>
     in if pl_count p1 = 0 then p1\<lparr>pl_first := pl_next p1\<rparr> else p1)"

lemma qinv_remove:
  assumes inv: "qinv about e b p" and s: "e s = Some v" and v: "about v = Some a"
    and r: "r = None \<or> r = Some []"
  shows "qinv about (e(s := None)) (b(a := r)) (places_without_one p)"
    and "qlist (e(s := None)) = filter (\<lambda>w. about w \<noteq> Some a) (qlist e)"
proof -
  have "0 < card (dom e)" using s by (auto simp: card_gt_0_iff)
  then have pos: "pl_count p \<noteq> 0" "1 \<le> pl_count p"
    using qinv_count [OF inv] by (auto simp: word_le_nat_alt unat_gt_0 Suc_leI)
  have cnt: "unat (pl_count p - 1) = card (dom e - {s})"
    using qinv_count [OF inv] s pos by (simp add: unat_sub card_Diff_singleton domI)
  have only: "about w = Some a \<longleftrightarrow> s' = s" if "e s' = Some w" for s' w
    using qinv_same_place [OF inv that s] that s v by auto
  have none: "pl_count p - 1 = 0 \<Longrightarrow> e s' = None" if "s' \<noteq> s" for s'
    using cnt that by (auto simp: card_eq_0_iff)
  show "qinv about (e(s := None)) (b(a := r)) (places_without_one p)"
    unfolding qinv_def
  proof (intro conjI allI impI)
    fix s' w assume s': "(e(s := None)) s' = Some w"
    then have e: "e s' = Some w" "s' \<noteq> s" by (auto split: if_splits)
    with none [of s'] qinv_range [OF inv, of s' w] show "pl_first (places_without_one p) \<le> s'"
      "s' < pl_next (places_without_one p)"
      by (auto simp: places_without_one_def u64_sub_def Let_def pos)
    show "\<exists>a'. about w = Some a' \<and> (b(a := r)) a' = Some (be64 s')"
      using e qinv_about [OF inv, of s' w] only [of s' w] by auto
  next
    fix a' bs assume "(b(a := r)) a' = Some bs"
    then show "bs = [] \<or> (\<exists>s' w. bs = be64 s' \<and> (e(s := None)) s' = Some w \<and> about w = Some a')"
    proof (cases "a' = a \<or> bs = []")
      case False
      then obtain s' w where "bs = be64 s'" "e s' = Some w" "about w = Some a'"
        using \<open>(b(a := r)) a' = Some bs\<close> qinv_index [OF inv, of a' bs] by auto
      moreover from this(2,3) False only [of s' w] have "s' \<noteq> s" by auto
      ultimately show ?thesis by auto
    qed (use \<open>(b(a := r)) a' = Some bs\<close> r in auto)
  next
    show "unat (pl_count (places_without_one p)) = card (dom (e(s := None)))"
    proof -
      have "pl_count (places_without_one p) = pl_count p - 1"
        using pos by (simp add: places_without_one_def u64_sub_def Let_def)
      then show ?thesis using cnt by (simp only: dom_fun_upd if_True refl)
    qed
  qed (use pos qinv_first [OF inv] in \<open>auto simp: places_without_one_def u64_sub_def Let_def\<close>)
  have "sorted_list_of_set (dom e - {s}) = filter (\<lambda>s'. s' \<noteq> s) (sorted_list_of_set (dom e))"
    by (simp add: sorted_list_of_set_remove distinct_remove1_removeAll removeAll_filter_not_eq neq_commute)
  also have "\<dots> = filter (\<lambda>s'. about (the (e s')) \<noteq> Some a) (sorted_list_of_set (dom e))"
    by (rule filter_cong) (auto dest: only)
  finally show "qlist (e(s := None)) = filter (\<lambda>w. about w \<noteq> Some a) (qlist e)"
    by (auto simp: qlist_def filter_map o_def v s intro!: map_cong)
qed

text \<open>An entry written anew at its place, still about the same.\<close>

lemma qinv_rewrite:
  assumes "qinv about e b p" and "e s = Some v" and "about v' = about v"
  shows "qinv about (e(s \<mapsto> v')) b p"
    and "qlist (e(s \<mapsto> v')) = map (\<lambda>s'. if s' = s then v' else the (e s')) (sorted_list_of_set (dom e))"
proof -
  have "insert s (dom e) = dom e" using assms(2) by auto
  note inv = assms(1)
  show "qinv about (e(s \<mapsto> v')) b p"
    unfolding qinv_def
  proof (intro conjI allI impI)
    fix s' w assume w: "(e(s \<mapsto> v')) s' = Some w"
    show "pl_first p \<le> s'" "s' < pl_next p" "\<exists>a. about w = Some a \<and> b a = Some (be64 s')"
      using w assms(2,3) qinv_range [OF inv, of s'] qinv_about [OF inv, of s'] by (auto split: if_splits)
  next
    fix a bs assume "b a = Some bs"
    then consider "bs = []" | s' w where "bs = be64 s'" "e s' = Some w" "about w = Some a"
      using qinv_index [OF inv, of a bs] by blast
    then show "bs = [] \<or> (\<exists>s' w. bs = be64 s' \<and> (e(s \<mapsto> v')) s' = Some w \<and> about w = Some a)"
    proof cases
      case (2 s' w)
      then have "(e(s \<mapsto> v')) s' = Some (if s' = s then v' else w)" "about (if s' = s then v' else w) = Some a"
        using assms(2,3) by auto
      with 2(1) show ?thesis by blast
    qed simp
  qed (use \<open>insert s (dom e) = dom e\<close> qinv_dests(5-7) [OF inv] in auto)
  show "qlist (e(s \<mapsto> v')) = map (\<lambda>s'. if s' = s then v' else the (e s')) (sorted_list_of_set (dom e))"
    using \<open>insert s (dom e) = dom e\<close> by (simp add: qlist_def)
qed

section \<open>A queue in a ledger\<close>

definition entries_of :: "kinds \<Rightarrow> ledger \<Rightarrow> u128 \<Rightarrow> u64 \<Rightarrow> bytes option" where
  "entries_of K L queue s = L (k_entry K) (entry_key queue s)"

definition index_of :: "kinds \<Rightarrow> ledger \<Rightarrow> u128 \<Rightarrow> u128 \<Rightarrow> bytes option" where
  "index_of K L queue a = L (k_by K) (by_key queue a)"

definition places_of :: "codec \<Rightarrow> kinds \<Rightarrow> ledger \<Rightarrow> u128 \<Rightarrow> places" where
  "places_of c K L queue = (case decode_places c (L (k_places K) (places_key queue)) of
     Inr p \<Rightarrow> p | Inl e \<Rightarrow> default_places)"

definition queue_inv :: "codec \<Rightarrow> kinds \<Rightarrow> (bytes \<Rightarrow> u128 option) \<Rightarrow> ledger \<Rightarrow> u128 \<Rightarrow> bool" where
  "queue_inv c K about L queue \<longleftrightarrow>
     decode_places c (L (k_places K) (places_key queue)) = Inr (places_of c K L queue) \<and>
     qinv about (entries_of K L queue) (index_of K L queue) (places_of c K L queue)"

definition queue_list :: "kinds \<Rightarrow> ledger \<Rightarrow> u128 \<Rightarrow> bytes list" where
  "queue_list K L queue = qlist (entries_of K L queue)"

lemma queue_inv_parts:
  assumes "queue_inv c K about L q"
  shows "decode_places c (L (k_places K) (places_key q)) = Inr (places_of c K L q)"
    and "qinv about (entries_of K L q) (index_of K L q) (places_of c K L q)"
  using assms by (simp_all add: queue_inv_def)

text \<open>
  A kind of queue: its three kinds of record are three. What an entry is about is said by
  \<open>about\<close>. Two ledgers agree on a queue where its parts are the same in both.
\<close>

definition same_queue :: "kinds \<Rightarrow> ledger \<Rightarrow> ledger \<Rightarrow> u128 \<Rightarrow> bool" where
  "same_queue K L L' queue \<longleftrightarrow> entries_of K L' queue = entries_of K L queue \<and>
     index_of K L' queue = index_of K L queue \<and>
     L' (k_places K) (places_key queue) = L (k_places K) (places_key queue)"

lemma same_queue_inv: "same_queue K L L' q \<Longrightarrow> queue_inv c K about L' q = queue_inv c K about L q"
  by (simp add: same_queue_def queue_inv_def places_of_def)

lemma same_queue_list: "same_queue K L L' q \<Longrightarrow> queue_list K L' q = queue_list K L q"
  by (simp add: same_queue_def queue_list_def)

lemma same_kinds_same_queue:
  assumes "\<And>k. k \<in> kinds_of K \<Longrightarrow> L' k = L k"
  shows "same_queue K L L' q"
  using assms by (auto simp: kinds_of_def same_queue_def entries_of_def index_of_def fun_eq_iff)

lemma same_queue_refl [simp]: "same_queue K L L q"
  by (simp add: same_queue_def)

lemma same_queue_trans: "same_queue K L L' q \<Longrightarrow> same_queue K L' L'' q \<Longrightarrow> same_queue K L L'' q"
  by (simp add: same_queue_def)

lemma same_queue_other_kind:
  "k \<notin> {k_entry K, k_by K, k_places K} \<Longrightarrow> same_queue K L (upd L k key v) q"
  by (auto simp: same_queue_def entries_of_def index_of_def fun_eq_iff)

lemma empty_queue [simp]:
  "entries_of K empty_ledger q = Map.empty" "index_of K empty_ledger q = Map.empty"
  "places_of c K empty_ledger q = default_places" "queue_inv c K about empty_ledger q"
  "queue_list K empty_ledger q = []"
proof -
  show [simp]: "entries_of K empty_ledger q = Map.empty" "index_of K empty_ledger q = Map.empty"
    by (simp_all add: fun_eq_iff entries_of_def index_of_def empty_ledger_def)
  show [simp]: "places_of c K empty_ledger q = default_places"
    by (simp add: places_of_def empty_ledger_def decode_places_def)
  show "queue_inv c K about empty_ledger q"
    by (simp add: queue_inv_def qinv_def default_places_def) (simp add: empty_ledger_def decode_places_def default_places_def)
  show "queue_list K empty_ledger q = []" by (simp add: queue_list_def qlist_def)
qed

text \<open>What an operation on one queue leaves as it was: every other queue, and every other kind.\<close>

definition only_queue :: "kinds \<Rightarrow> u128 \<Rightarrow> ledger \<Rightarrow> ledger \<Rightarrow> bool" where
  "only_queue K queue L L' \<longleftrightarrow> (\<forall>q'. q' \<noteq> queue \<longrightarrow> same_queue K L L' q') \<and>
     (\<forall>k. k \<notin> {k_entry K, k_by K, k_places K} \<longrightarrow> L' k = L k)"

lemma only_queue_refl [simp]: "only_queue K q L L"
  by (simp add: only_queue_def)

lemma only_queue_trans: "only_queue K q L L' \<Longrightarrow> only_queue K q L' L'' \<Longrightarrow> only_queue K q L L''"
  unfolding only_queue_def by (metis same_queue_trans)

lemma in_queue_list: "v \<in> set (queue_list K L q) \<longleftrightarrow> (\<exists>s. entries_of K L q s = Some v)"
  by (force simp: queue_list_def qlist_def)

locale queue_kind = codec_laws c for c :: codec +
  fixes K :: kinds and about :: "bytes \<Rightarrow> u128 option"
  assumes kinds_differ: "distinct [k_entry K, k_by K, k_places K]"
begin

lemma kinds_differ' [simp]:
  "k_entry K \<noteq> k_by K" "k_by K \<noteq> k_entry K" "k_entry K \<noteq> k_places K"
  "k_places K \<noteq> k_entry K" "k_by K \<noteq> k_places K" "k_places K \<noteq> k_by K"
  using kinds_differ by auto

lemma decode_w_places [simp]: "decode_places c (Some (w_places c p)) = Inr p"
  by (simp add: decode_places_def places.from_bytes_write fit_places_def)

text \<open>The three writes an operation may make of a queue, on its three parts.\<close>

lemma parts_upd [simp]:
  "entries_of K (upd L (k_entry K) (entry_key q s) v) q = (entries_of K L q)(s := v)"
  "entries_of K (upd L (k_by K) key v) q = entries_of K L q"
  "entries_of K (upd L (k_places K) key v) q = entries_of K L q"
  "index_of K (upd L (k_by K) (by_key q a) v) q = (index_of K L q)(a := v)"
  "index_of K (upd L (k_entry K) key v) q = index_of K L q"
  "index_of K (upd L (k_places K) key v) q = index_of K L q"
  "places_of c K (upd L (k_entry K) key v) q = places_of c K L q"
  "places_of c K (upd L (k_by K) key v) q = places_of c K L q"
  "places_of c K (upd L (k_places K) (places_key q) (Some (w_places c p))) q = p"
  by (auto simp: fun_eq_iff entries_of_def index_of_def places_of_def upd_apply)

lemma same_queue_upd:
  "q' \<noteq> q \<Longrightarrow> same_queue K L (upd L (k_entry K) (entry_key q s) v) q'"
  "q' \<noteq> q \<Longrightarrow> same_queue K L (upd L (k_by K) (by_key q a) v) q'"
  "q' \<noteq> q \<Longrightarrow> same_queue K L (upd L (k_places K) (places_key q) v) q'"
  by (auto simp: same_queue_def entries_of_def index_of_def upd_apply fun_eq_iff)

lemma eval_places: "queue_inv c K about L q \<Longrightarrow> eval L (places c K q) = Inr (places_of c K L q, L)"
  by (simp add: places_def queue_inv_def)

lemma eval_placed:
  assumes "queue_inv c K about L q"
  shows "eval L (placed K (q, a)) = Inr (case index_of K L q a of None \<Rightarrow> Never
      | Some bs \<Rightarrow> if bs = [] then TakenOut else At (word_of_nat (from_be bs)), L)"
proof (cases "index_of K L q a")
  case None
  then show ?thesis by (simp add: placed_def index_of_def)
next
  case (Some bs)
  with assms have "bs = [] \<or> (\<exists>s. bs = be64 s)" by (auto simp: queue_inv_def dest: qinv_index)
  with Some show ?thesis by (auto simp: placed_def index_of_def)
qed

lemma eval_placed_eq:
  "eval L (placed K (q, a)) = Inr (At s, L) \<longleftrightarrow> (\<exists>bs. index_of K L q a = Some bs \<and> bs = be64 s)"
  if "queue_inv c K about L q" for L q a s
  using that eval_placed [OF that, of a]
  by (auto simp: queue_inv_def split: option.splits if_splits dest: qinv_index)

text \<open>Placed at the end: one entry more, the last; every other queue as it was.\<close>

lemma eval_place_new:
  assumes inv: "queue_inv c K about L q" and fresh: "index_of K L q a = None"
    and v: "about (entry (pl_next (places_of c K L q))) = Some a"
    and room: "pl_next (places_of c K L q) \<noteq> - 1"
  shows "\<exists>L'. eval L (place c K (q, a) entry) = Inr (True, L') \<and> queue_inv c K about L' q \<and>
    queue_list K L' q = queue_list K L q @ [entry (pl_next (places_of c K L q))] \<and>
    index_of K L' q = (index_of K L q)(a \<mapsto> be64 (pl_next (places_of c K L q))) \<and>
    entries_of K L' q = (entries_of K L q)(pl_next (places_of c K L q) \<mapsto> entry (pl_next (places_of c K L q))) \<and>
    pl_next (places_of c K L' q) = pl_next (places_of c K L q) + 1 \<and> only_queue K q L L'"
proof -
  let ?p = "places_of c K L q"
  let ?n = "pl_next ?p"
  let ?p' = "?p\<lparr>pl_next := ?n + 1, pl_count := pl_count ?p + 1\<rparr>"
  define L' where "L' = upd (upd (upd L (k_entry K) (entry_key q ?n) (Some (entry ?n)))
      (k_by K) (by_key q a) (Some (be64 ?n))) (k_places K) (places_key q) (Some (w_places c ?p'))"
  have "eval L (place c K (q, a) entry) = Inr (True, L')"
    using fresh eval_places [OF inv] by (simp add: place_def index_of_def L'_def Let_def)
  moreover have parts: "index_of K L' q = (index_of K L q)(a \<mapsto> be64 ?n)"
    "entries_of K L' q = (entries_of K L q)(?n \<mapsto> entry ?n)" "places_of c K L' q = ?p'"
    "decode_places c (L' (k_places K) (places_key q)) = Inr ?p'" by (simp_all add: L'_def)
  moreover have "queue_inv c K about L' q" "queue_list K L' q = queue_list K L q @ [entry ?n]"
    unfolding queue_inv_def queue_list_def parts
    using qinv_append [OF queue_inv_parts(2) [OF inv] fresh v room] by (blast, blast)
  moreover have "same_queue K L L' q'" if "q' \<noteq> q" for q'
    unfolding L'_def
    by (rule same_queue_trans [OF same_queue_trans [OF same_queue_upd(1) [OF that] same_queue_upd(2) [OF that]]
          same_queue_upd(3) [OF that]])
  moreover have "\<forall>k. k \<notin> {k_entry K, k_by K, k_places K} \<longrightarrow> L' k = L k" by (simp add: L'_def)
  ultimately show ?thesis unfolding only_queue_def by auto
qed

text \<open>What the index has already is not placed again, and nothing is written.\<close>

lemma eval_place_again:
  "index_of K L q a \<noteq> None \<Longrightarrow> eval L (place c K (q, a) entry) = Inr (False, L)"
  by (auto simp: place_def index_of_def Let_def)

text \<open>Taken out with its index: the entry gone from the list, the others in their order.\<close>

lemma eval_take_out:
  assumes inv: "queue_inv c K about L q" and s: "entries_of K L q s = Some v"
  shows "eval L (take_out c K q s) = Inr (Some v, upd (upd L (k_entry K) (entry_key q s) None)
    (k_places K) (places_key q) (Some (w_places c (places_without_one (places_of c K L q)))))"
proof -
  let ?L = "upd L (k_entry K) (entry_key q s) None"
  have "decode_places c (?L (k_places K) (places_key q)) = Inr (places_of c K L q)"
    using inv by (simp add: queue_inv_def)
  then have "eval ?L (places c K q) = Inr (places_of c K L q, ?L)" by (simp add: places_def)
  with s show ?thesis by (simp add: take_out_def entries_of_def places_without_one_def Let_def)
qed

lemma eval_take_out_none: "entries_of K L q s = None \<Longrightarrow> eval L (take_out c K q s) = Inr (None, L)"
  by (simp add: take_out_def entries_of_def)

lemma removed_inv:
  assumes inv: "queue_inv c K about L q" and s: "entries_of K L q s = Some v" and v: "about v = Some a"
    and r: "r = None \<or> r = Some []"
  defines "L' \<equiv> upd (upd (upd L (k_entry K) (entry_key q s) None)
    (k_places K) (places_key q) (Some (w_places c (places_without_one (places_of c K L q)))))
    (k_by K) (by_key q a) r"
  shows "queue_inv c K about L' q"
    and "queue_list K L' q = filter (\<lambda>w. about w \<noteq> Some a) (queue_list K L q)"
    and "index_of K L' q = (index_of K L q)(a := r)"
    and "entries_of K L' q = (entries_of K L q)(s := None)"
    and "pl_next (places_of c K L' q) = pl_next (places_of c K L q)"
    and "only_queue K q L L'"
proof -
  let ?p' = "places_without_one (places_of c K L q)"
  have parts: "index_of K L' q = (index_of K L q)(a := r)"
    "entries_of K L' q = (entries_of K L q)(s := None)" "places_of c K L' q = ?p'"
    "decode_places c (L' (k_places K) (places_key q)) = Inr ?p'" by (simp_all add: L'_def)
  show "queue_inv c K about L' q" "queue_list K L' q = filter (\<lambda>w. about w \<noteq> Some a) (queue_list K L q)"
    unfolding queue_inv_def queue_list_def parts
    using qinv_remove [OF queue_inv_parts(2) [OF inv] s v r] by (blast, blast)
  have "same_queue K L L' q'" if "q' \<noteq> q" for q'
    unfolding L'_def
    by (rule same_queue_trans [OF same_queue_trans [OF same_queue_upd(1) [OF that] same_queue_upd(3) [OF that]]
          same_queue_upd(2) [OF that]])
  then show "only_queue K q L L'" by (simp add: only_queue_def L'_def)
qed (simp_all add: L'_def places_without_one_def Let_def)

lemma rewritten_inv:
  assumes inv: "queue_inv c K about L q" and s: "entries_of K L q s = Some v" and v: "about v' = about v"
  defines "L' \<equiv> upd L (k_entry K) (entry_key q s) (Some v')"
  shows "queue_inv c K about L' q"
    and "queue_list K L' q = map (\<lambda>s'. if s' = s then v' else the (entries_of K L q s'))
      (sorted_list_of_set (dom (entries_of K L q)))"
    and "index_of K L' q = index_of K L q" and "only_queue K q L L'"
    and "entries_of K L' q = (entries_of K L q)(s \<mapsto> v')" and "places_of c K L' q = places_of c K L q"
proof -
  have parts: "index_of K L' q = index_of K L q" "entries_of K L' q = (entries_of K L q)(s \<mapsto> v')"
    "places_of c K L' q = places_of c K L q"
    "L' (k_places K) (places_key q) = L (k_places K) (places_key q)" by (simp_all add: L'_def)
  show "queue_inv c K about L' q"
    "queue_list K L' q = map (\<lambda>s'. if s' = s then v' else the (entries_of K L q s'))
      (sorted_list_of_set (dom (entries_of K L q)))"
    unfolding queue_inv_def queue_list_def parts
    using qinv_rewrite [OF queue_inv_parts(2) [OF inv] s v] queue_inv_parts(1) [OF inv] by (blast, blast)
  show "index_of K L' q = index_of K L q" "entries_of K L' q = (entries_of K L q)(s \<mapsto> v')"
    "places_of c K L' q = places_of c K L q" by (rule parts)+
  show "only_queue K q L L'" unfolding only_queue_def L'_def using same_queue_upd(1) by simp
qed

end

section \<open>Queues of records\<close>

text \<open>
  Where every entry is a record of one form, a queue stands for the list of those records. What
  an entry is about is a field of it.
\<close>

definition typed_about :: "codec \<Rightarrow> 'a reader \<Rightarrow> ('a \<Rightarrow> u128) \<Rightarrow> bytes \<Rightarrow> u128 option" where
  "typed_about c dec f v = (case from_bytes c dec v of Inl e \<Rightarrow> None | Inr x \<Rightarrow> Some (f x))"

definition value_at :: "codec \<Rightarrow> 'a reader \<Rightarrow> bytes \<Rightarrow> 'a" where
  "value_at c dec v = projr (from_bytes c dec v)"

definition records_of :: "codec \<Rightarrow> kinds \<Rightarrow> 'a reader \<Rightarrow> ledger \<Rightarrow> u128 \<Rightarrow> 'a list" where
  "records_of c K dec L q = map (value_at c dec) (queue_list K L q)"

lemma typed_about_Some: "typed_about c dec f v = Some a \<longleftrightarrow> (\<exists>x. from_bytes c dec v = Inr x \<and> f x = a)"
  by (auto simp: typed_about_def split: sum.splits)

lemma value_at_eq: "from_bytes c dec v = Inr x \<Longrightarrow> value_at c dec v = x"
  by (simp add: value_at_def)

locale typed_queue = codec_laws c for c :: codec +
  fixes K :: kinds and enc :: "'a \<Rightarrow> bytes" and dec :: "'a reader" and fit :: "'a \<Rightarrow> bool"
    and about_of :: "'a \<Rightarrow> u128"
  assumes three_kinds: "distinct [k_entry K, k_by K, k_places K]"
    and typed: "form enc dec fit"

sublocale typed_queue \<subseteq> queue_kind c K "typed_about c dec about_of"
  by unfold_locales (rule three_kinds)

sublocale typed_queue \<subseteq> entry: form enc dec fit
  by (rule typed)

context typed_queue
begin

abbreviation inv :: "ledger \<Rightarrow> u128 \<Rightarrow> bool" where
  "inv L q \<equiv> queue_inv c K (typed_about c dec about_of) L q"

lemma decoded:
  assumes "inv L q" and "entries_of K L q s = Some v"
  shows "from_bytes c dec v = Inr (value_at c dec v)"
    and "typed_about c dec about_of v = Some (about_of (value_at c dec v))"
    and "fit (value_at c dec v)" and "value_at c dec v \<in> set (records_of c K dec L q)"
    and "index_of K L q (about_of (value_at c dec v)) = Some (be64 s)"
proof -
  obtain a where a: "typed_about c dec about_of v = Some a" "index_of K L q a = Some (be64 s)"
    using qinv_about [OF queue_inv_parts(2) [OF assms(1)] assms(2)] by blast
  then show decoded: "from_bytes c dec v = Inr (value_at c dec v)"
    by (auto simp: typed_about_Some value_at_def)
  then show "typed_about c dec about_of v = Some (about_of (value_at c dec v))" by (simp add: typed_about_def)
  with a show "index_of K L q (about_of (value_at c dec v)) = Some (be64 s)" by simp
  show "fit (value_at c dec v)" by (rule entry.from_bytes_fit [OF decoded])
  show "value_at c dec v \<in> set (records_of c K dec L q)"
    using assms(2) in_queue_list [of v K L q] by (auto simp: records_of_def)
qed

lemma in_records: "x \<in> set (records_of c K dec L q) \<longleftrightarrow>
    (\<exists>s v. entries_of K L q s = Some v \<and> x = value_at c dec v)"
  unfolding records_of_def set_map image_iff Bex_def in_queue_list by blast

text \<open>What the index says of one thing, and what the list holds about it.\<close>

lemma index_cases:
  assumes "inv L q"
  obtains (away) "index_of K L q a = None \<or> index_of K L q a = Some []"
      "\<forall>x \<in> set (records_of c K dec L q). about_of x \<noteq> a"
  | (here) s v where "index_of K L q a = Some (be64 s)" "entries_of K L q s = Some v"
      "eval L (placed K (q, a)) = Inr (At s, L)" "about_of (value_at c dec v) = a"
proof (cases "index_of K L q a = None \<or> index_of K L q a = Some []")
  case True
  have "about_of x \<noteq> a" if "x \<in> set (records_of c K dec L q)" for x
    using that True decoded(5) [OF assms] by (auto simp: in_records)
  with True away show ?thesis by blast
next
  case False
  then obtain bs where "index_of K L q a = Some bs" "bs \<noteq> []" by auto
  then obtain s v where v: "index_of K L q a = Some (be64 s)" "entries_of K L q s = Some v"
      "typed_about c dec about_of v = Some a"
    using qinv_index [OF queue_inv_parts(2) [OF assms]] by blast
  then show ?thesis
    using here eval_placed [OF assms, of a] decoded(2) [OF assms v(2)] by simp
qed

lemma records_without:
  assumes "inv L q"
  shows "map (value_at c dec) (filter (\<lambda>w. typed_about c dec about_of w \<noteq> Some a) (queue_list K L q)) =
    filter (\<lambda>x. about_of x \<noteq> a) (records_of c K dec L q)"
  unfolding records_of_def filter_map o_def
  by (intro arg_cong [where f = "map (value_at c dec)"] filter_cong)
    (auto simp: in_queue_list dest: decoded(2) [OF assms])

lemma eval_place_record:
  assumes inv: "inv L q" and fresh: "index_of K L q a = None"
    and "about_of (entry (pl_next (places_of c K L q))) = a" and "fit (entry (pl_next (places_of c K L q)))"
    and room: "pl_next (places_of c K L q) \<noteq> - 1"
  shows "\<exists>L'. eval L (place c K (q, a) (\<lambda>s. enc (entry s))) = Inr (True, L') \<and> inv L' q \<and>
    records_of c K dec L' q = records_of c K dec L q @ [entry (pl_next (places_of c K L q))] \<and>
    index_of K L' q = (index_of K L q)(a \<mapsto> be64 (pl_next (places_of c K L q))) \<and>
    pl_next (places_of c K L' q) = pl_next (places_of c K L q) + 1 \<and> only_queue K q L L'"
proof -
  let ?x = "entry (pl_next (places_of c K L q))"
  have rt: "from_bytes c dec (enc ?x) = Inr ?x" using assms(4) by (simp add: entry.from_bytes_write)
  then have "typed_about c dec about_of (enc ?x) = Some a" using assms(3) by (simp add: typed_about_def)
  then obtain L' where "eval L (place c K (q, a) (\<lambda>s. enc (entry s))) = Inr (True, L')" "inv L' q"
    "queue_list K L' q = queue_list K L q @ [enc ?x]"
    "index_of K L' q = (index_of K L q)(a \<mapsto> be64 (pl_next (places_of c K L q)))"
    "pl_next (places_of c K L' q) = pl_next (places_of c K L q) + 1" "only_queue K q L L'"
    using eval_place_new [OF inv fresh, of "\<lambda>s. enc (entry s)"] room by blast
  then show ?thesis using value_at_eq [OF rt] by (auto simp: records_of_def)
qed

lemma removed_record:
  assumes inv: "inv L q" and s: "entries_of K L q s = Some v" and a: "about_of (value_at c dec v) = a"
    and r: "r = None \<or> r = Some []"
  defines "L' \<equiv> upd (upd (upd L (k_entry K) (entry_key q s) None)
    (k_places K) (places_key q) (Some (w_places c (places_without_one (places_of c K L q)))))
    (k_by K) (by_key q a) r"
  shows "inv L' q" and "records_of c K dec L' q = filter (\<lambda>x. about_of x \<noteq> a) (records_of c K dec L q)"
    and "index_of K L' q = (index_of K L q)(a := r)"
    and "pl_next (places_of c K L' q) = pl_next (places_of c K L q)" and "only_queue K q L L'"
proof -
  have "typed_about c dec about_of v = Some a" using decoded(2) [OF inv s] a by simp
  note r = removed_inv [OF inv s this r, folded L'_def]
  show "inv L' q" "index_of K L' q = (index_of K L q)(a := r)"
    "pl_next (places_of c K L' q) = pl_next (places_of c K L q)" "only_queue K q L L'" by (fact r)+
  show "records_of c K dec L' q = filter (\<lambda>x. about_of x \<noteq> a) (records_of c K dec L q)"
    using records_without [OF inv] by (simp add: records_of_def r(2))
qed

end

end
