(* ===== verification/Claim.thy ===== *)
theory Claim
  imports Queue
begin

text \<open>
  A claim as the runtime database keeps it, and the writes that take, renew and end one
  (\<open>src/.src/storage/claim.rs\<close>, but for its \<open>hand_on\<close>, which is in \<open>Hand_On\<close>). Shown here: a
  stored claim is read back; a claim is taken only where none is held, and from then on until it
  lapses nobody else's is; a fence grows with every holder; and the holder a claim passed from
  is refused.
\<close>

section \<open>A claim as stored\<close>

datatype standing = Held | Released | HandedOn

record stored =
  st_claim :: claim
  st_standing :: standing

definition stored_bytes :: "codec \<Rightarrow> stored \<Rightarrow> bytes" where
  "stored_bytes c s = (case st_standing s of Held \<Rightarrow> 0 | Released \<Rightarrow> 1 | HandedOn \<Rightarrow> 2) # w_claim c (st_claim s)"

text \<open>A cursor's one byte is the codec's; what is left after the claim is not looked at.\<close>

definition stored_from_bytes :: "codec \<Rightarrow> bytes \<Rightarrow> stored result" where
  "stored_from_bytes c bytes = (case r_byte c bytes of
     Inl why \<Rightarrow> Inl (Record why)
   | Inr (b, rest) \<Rightarrow>
       bindr (if b = 0 then Inr Held else if b = 1 then Inr Released else if b = 2 then Inr HandedOn
              else Inl (malformed (''a claim standing '' @ digits (unat b))))
       (\<lambda>standing. case r_claim c rest of
          Inl why \<Rightarrow> Inl (Record why)
        | Inr (claim, _) \<Rightarrow> Inr \<lparr>st_claim = claim, st_standing = standing\<rparr>))"

definition claim_is :: "claim \<Rightarrow> claim \<Rightarrow> bool" where
  "claim_is claim other \<longleftrightarrow> cl_token claim = cl_token other \<and> cl_fence claim = cl_fence other"

definition held_by :: "stored \<Rightarrow> claim \<Rightarrow> bool" where
  "held_by s claim \<longleftrightarrow> st_standing s = Held \<and> claim_is (st_claim s) claim"

definition asked_by :: "stored \<Rightarrow> claim \<Rightarrow> bool" where
  "asked_by s asked \<longleftrightarrow> st_standing s = Held \<and> cl_token (st_claim s) = cl_token asked"

section \<open>Taken, held, ended\<close>

text \<open>A lease is a duration, whose nanoseconds are a number of 128 bits without a sign.\<close>

definition lease_nanos :: "u128 \<Rightarrow> i128" where
  "lease_nanos lease = (if unat lease < 2 ^ 127 then lease else word_of_int (2 ^ 127 - 1))"

definition fence :: "u64 \<Rightarrow> claim option \<Rightarrow> u64" where
  "fence epoch prior = (let holders = (case prior of None \<Rightarrow> 0 | Some claim \<Rightarrow> and (cl_fence claim) (mask 32))
     in or (push_bit 32 epoch) (min (holders + 1) (mask 32)))"

definition claim_kind :: kind where "claim_kind = ''claim''"

definition claim_key :: "claim \<Rightarrow> key" where
  "claim_key claim = be128 (cl_journey claim)"

definition stored_claim :: "codec \<Rightarrow> claim \<Rightarrow> stored option prog" where
  "stored_claim c claim = Read claim_kind (claim_key claim) (\<lambda>v. liftp (map_maybe (stored_from_bytes c) v))"

definition hold_claim :: "codec \<Rightarrow> claim \<Rightarrow> i128 \<Rightarrow> claim prog" where
  "hold_claim c claim until = (let claim1 = claim\<lparr>cl_until_unix_nanos := until\<rparr> in
     Put claim_kind (claim_key claim1) (Some (stored_bytes c \<lparr>st_claim = claim1, st_standing = Held\<rparr>))
     (Ret claim1))"

definition end_claim :: "codec \<Rightarrow> claim \<Rightarrow> standing \<Rightarrow> unit prog" where
  "end_claim c claim standing =
     Put claim_kind (claim_key claim) (Some (stored_bytes c \<lparr>st_claim = claim, st_standing = standing\<rparr>)) (Ret ())"

definition take_claim :: "codec \<Rightarrow> claim \<Rightarrow> i128 \<times> i128 \<times> u64 \<Rightarrow> claim option prog" where
  "take_claim c claim at = (let (now, until, epoch) = at in
     bindp (stored_claim c claim) (\<lambda>prior.
       case prior of
         Some s \<Rightarrow> if st_standing s = Held \<and> sint now \<le> sint (cl_until_unix_nanos (st_claim s))
           then Ret (if cl_token (st_claim s) = cl_token claim then Some (st_claim s) else None)
           else bindp (hold_claim c (claim\<lparr>cl_fence := fence epoch (Some (st_claim s))\<rparr>) until) (\<lambda>x. Ret (Some x))
       | None \<Rightarrow> bindp (hold_claim c (claim\<lparr>cl_fence := fence epoch None\<rparr>) until) (\<lambda>x. Ret (Some x))))"

section \<open>A fence grows\<close>

text \<open>
  The epoch in the high thirty-two bits, the holders in the low: below the most each can count,
  a later claim's fence is greater than the one before it in the same or an earlier epoch.
\<close>

lemma or_push_bit:
  assumes "b < 2 ^ n"
  shows "or (push_bit n a) b = a * 2 ^ n + (b :: nat)"
proof -
  have "take_bit n b = b" using assms by (simp add: take_bit_nat_eq_self)
  then have "and (push_bit n a) b = 0"
    by (metis (no_types) and.commute bit_eq_iff bit_and_iff bit_push_bit_iff bit_take_bit_iff bit_0_eq bot_apply bot_bool_def leD)
  then show ?thesis by (simp add: disjunctive_add_eq_or [symmetric] push_bit_eq_mult)
qed

definition holders_before :: "claim option \<Rightarrow> nat" where
  "holders_before prior = (case prior of None \<Rightarrow> 0 | Some claim \<Rightarrow> unat (cl_fence claim) mod 2 ^ 32)"

lemma fence_value:
  assumes "unat epoch < 2 ^ 32"
  shows "unat (fence epoch prior) = unat epoch * 2 ^ 32 + min (holders_before prior + 1) (2 ^ 32 - 1)"
proof -
  define h :: u64 where "h = (case prior of None \<Rightarrow> 0 | Some claim \<Rightarrow> and (cl_fence claim) (mask 32))"
  have h: "unat h = holders_before prior"
    by (auto simp: h_def holders_before_def take_bit_eq_mask [symmetric] unsigned_take_bit_eq take_bit_eq_mod unat_mod
        split: option.splits)
  moreover have "holders_before prior < 2 ^ 32" by (simp add: holders_before_def split: option.splits)
  ultimately have "unat (h + 1) = holders_before prior + 1" by (subst unat_Suc_u64) (auto simp: unsigned_minus_1_eq_mask mask_eq_exp_minus_1)
  moreover have "unat (mask 32 :: u64) = 2 ^ 32 - 1" by (simp add: mask_eq_exp_minus_1)
  ultimately have low: "unat (min (h + 1) (mask 32)) = min (holders_before prior + 1) (2 ^ 32 - 1)"
    by (auto simp: min_def word_le_nat_alt)
  have "unat (push_bit 32 epoch) = push_bit 32 (unat epoch)"
    unfolding unsigned_push_bit_eq
    by (rule take_bit_nat_eq_self) (use assms in \<open>simp add: push_bit_eq_mult\<close>)
  then have "unat (fence epoch prior) = or (push_bit 32 (unat epoch)) (min (holders_before prior + 1) (2 ^ 32 - 1))"
    unfolding fence_def Let_def h_def [symmetric] unsigned_or_eq low by simp
  then show ?thesis by (simp add: or_push_bit)
qed

lemma fence_grows:
  assumes "unat (cl_fence claim) div 2 ^ 32 \<le> unat epoch" and "unat epoch < 2 ^ 32"
    and "unat (cl_fence claim) mod 2 ^ 32 < 2 ^ 32 - 1"
  shows "cl_fence claim < fence epoch (Some claim)"
proof -
  define f where "f = unat (cl_fence claim)"
  have "f = f div 2 ^ 32 * 2 ^ 32 + f mod 2 ^ 32" by (simp only: div_mult_mod_eq)
  also have "\<dots> < unat epoch * 2 ^ 32 + (f mod 2 ^ 32 + 1)"
    using mult_le_mono1 [OF assms(1), of "2 ^ 32"] unfolding f_def by linarith
  also have "\<dots> = unat (fence epoch (Some claim))"
    using assms(3) by (simp add: fence_value [OF assms(2)] holders_before_def f_def)
  finally show ?thesis by (simp add: word_less_nat_alt f_def)
qed

section \<open>A claim in a ledger\<close>

definition claim_now :: "codec \<Rightarrow> ledger \<Rightarrow> u128 \<Rightarrow> stored option result" where
  "claim_now c L journey = map_maybe (stored_from_bytes c) (L claim_kind (be128 journey))"

definition set_claim :: "codec \<Rightarrow> ledger \<Rightarrow> stored \<Rightarrow> ledger" where
  "set_claim c L s = upd L claim_kind (be128 (cl_journey (st_claim s))) (Some (stored_bytes c s))"

text \<open>Free for anyone: no claim, one that ended, or one that lapsed.\<close>

definition free_at :: "stored option \<Rightarrow> i128 \<Rightarrow> bool" where
  "free_at s now \<longleftrightarrow> (case s of None \<Rightarrow> True
     | Some s \<Rightarrow> \<not> (st_standing s = Held \<and> sint now \<le> sint (cl_until_unix_nanos (st_claim s))))"

definition granted :: "claim \<Rightarrow> stored option \<Rightarrow> i128 \<Rightarrow> u64 \<Rightarrow> claim" where
  "granted claim prior until epoch =
     claim\<lparr>cl_fence := fence epoch (map_option st_claim prior), cl_until_unix_nanos := until\<rparr>"

text \<open>Every claim is kept under its own Message.\<close>

definition claims_home :: "codec \<Rightarrow> ledger \<Rightarrow> bool" where
  "claims_home c L \<longleftrightarrow> (\<forall>j s. claim_now c L j = Inr (Some s) \<longrightarrow> cl_journey (st_claim s) = j)"

lemma claim_now_set_other: "j \<noteq> cl_journey (st_claim s) \<Longrightarrow> claim_now c (set_claim c L s) j = claim_now c L j"
  by (simp add: claim_now_def set_claim_def)

lemma eval_stored_claim:
  "eval L (stored_claim c claim) = bindr (claim_now c L (cl_journey claim)) (\<lambda>s. Inr (s, L))"
  by (simp add: stored_claim_def claim_now_def claim_key_def)

lemma eval_hold_claim:
  "eval L (hold_claim c claim until) = Inr (claim\<lparr>cl_until_unix_nanos := until\<rparr>,
    set_claim c L \<lparr>st_claim = claim\<lparr>cl_until_unix_nanos := until\<rparr>, st_standing = Held\<rparr>)"
  by (simp add: hold_claim_def set_claim_def claim_key_def Let_def)

lemma eval_end_claim:
  "eval L (end_claim c claim standing) = Inr ((), set_claim c L \<lparr>st_claim = claim, st_standing = standing\<rparr>)"
  by (simp add: end_claim_def set_claim_def claim_key_def)

lemma eval_take_claim:
  assumes "claim_now c L (cl_journey claim) = Inr prior"
  shows "eval L (take_claim c claim (now, until, epoch)) = (if free_at prior now
    then Inr (Some (granted claim prior until epoch),
      set_claim c L \<lparr>st_claim = granted claim prior until epoch, st_standing = Held\<rparr>)
    else Inr (if asked_by (the prior) claim then Some (st_claim (the prior)) else None, L))"
  using assms
  by (cases prior) (auto simp: take_claim_def eval_stored_claim eval_hold_claim free_at_def granted_def asked_by_def Let_def)

lemma set_claim_other: "k \<noteq> claim_kind \<Longrightarrow> set_claim c L s k = L k"
  by (simp add: set_claim_def)

context codec_laws
begin

lemma stored_back: "fit_claim c (st_claim s) \<Longrightarrow> stored_from_bytes c (stored_bytes c s) = Inr s"
  by (cases "st_standing s"; cases s)
    (simp_all add: stored_from_bytes_def stored_bytes_def claim.read_write_whole)

lemma claim_now_set [simp]:
  "fit_claim c (st_claim s) \<Longrightarrow> claim_now c (set_claim c L s) j =
    (if j = cl_journey (st_claim s) then Inr (Some s) else claim_now c L j)"
  by (auto simp: claim_now_def set_claim_def stored_back)

lemma stored_fit: "stored_from_bytes c bs = Inr s \<Longrightarrow> fit_claim c (st_claim s)"
proof (cases "r_byte c bs")
  case (Inr br)
  assume "stored_from_bytes c bs = Inr s"
  with Inr show ?thesis
    by (cases "r_claim c (snd br)")
      (auto simp: stored_from_bytes_def bindr_eq_Inr split_beta dest: claim.read_fit split: if_splits)
qed (simp add: stored_from_bytes_def)

lemma claim_now_fit: "claim_now c L j = Inr (Some s) \<Longrightarrow> fit_claim c (st_claim s)"
  by (auto simp: claim_now_def bindr_eq_Inr map_maybe_def split: option.splits dest: stored_fit)

text \<open>A claim granted holds: until it lapses or ends, another's is not taken and nothing is written.\<close>

lemma taken_excludes:
  assumes "claim_now c L (cl_journey claim) = Inr prior" and "fit_claim c claim"
    and "eval L (take_claim c claim (now, until, epoch)) = Inr (Some held, L')"
    and "cl_journey other = cl_journey claim" and "cl_token other \<noteq> cl_token claim"
    and "sint later \<le> sint (cl_until_unix_nanos held)"
  shows "eval L' (take_claim c other (later, until', epoch')) = Inr (None, L')"
proof (cases "free_at prior now")
  case True
  then have held: "held = granted claim prior until epoch"
    and L': "L' = set_claim c L \<lparr>st_claim = held, st_standing = Held\<rparr>"
    using assms(3) by (auto simp: eval_take_claim [OF assms(1)])
  have "claim_now c L' (cl_journey other) = Inr (Some \<lparr>st_claim = held, st_standing = Held\<rparr>)"
    using assms(2,4) by (simp add: L' held granted_def fit_claim_def)
  moreover have "cl_token held = cl_token claim" by (simp add: held granted_def)
  ultimately show ?thesis using assms(5,6) by (simp add: eval_take_claim free_at_def asked_by_def)
next
  case False
  then obtain s where s: "prior = Some s" "st_standing s = Held" by (auto simp: free_at_def split: option.splits)
  with False have "asked_by s claim" "held = st_claim s" "L' = L"
    using assms(3) by (auto simp: eval_take_claim [OF assms(1)] split: if_splits)
  then show ?thesis
    using assms(1,4,5,6) s by (simp add: eval_take_claim [where prior = "Some s"] free_at_def asked_by_def)
qed

end

section \<open>Properties\<close>

definition sample_claim :: "string \<Rightarrow> u128 \<Rightarrow> claim" where
  "sample_claim holder token = \<lparr>cl_journey = 9, cl_holder = holder, cl_token = token,
     cl_until_unix_nanos = 0, cl_fence = 0\<rparr>"

lemma fit_sample_claim: "length holder \<le> 8 \<Longrightarrow> fit_claim plain_codec (sample_claim holder token)"
  by (simp add: fit_claim_def sample_claim_def plain_codec_def)

lemma claim_now_empty [simp]: "claim_now c empty_ledger j = Inr None"
  by (simp add: claim_now_def empty_ledger_def)

text \<open>
  A claim is taken exactly where its Message is free at the time: no claim, one that ended,
  or one that lapsed. Where it is held, the request that holds it, asked again, is answered with
  the claim as it stands, every other with none, and nothing is written.
\<close>

theorem take_claim_decides:
  assumes "claim_now c L (cl_journey claim) = Inr prior"
  shows "eval L (take_claim c claim (now, until, epoch)) = (if free_at prior now
    then Inr (Some (granted claim prior until epoch),
      set_claim c L \<lparr>st_claim = granted claim prior until epoch, st_standing = Held\<rparr>)
    else Inr (if asked_by (the prior) claim then Some (st_claim (the prior)) else None, L))"
  using eval_take_claim [OF assms] .

theorem take_claim_decides_witness:
  "\<exists>L'. eval empty_ledger (take_claim plain_codec (sample_claim ''a'' 1) (100, 200, 3)) =
    Inr (Some ((sample_claim ''a'' 1)\<lparr>cl_fence := 3 * 2 ^ 32 + 1, cl_until_unix_nanos := 200\<rparr>), L')"
  using take_claim_decides [of plain_codec empty_ledger "sample_claim ''a'' 1" None 100 200 3]
  by (simp add: free_at_def granted_def fence_def min_def mask_eq_exp_minus_1)

text \<open>
  C3: While a claim granted has not lapsed, no other request is granted one on its Message, and
  the refusal writes nothing.
\<close>

theorem claim_excludes:
  assumes "codec_laws c" and "claim_now c L (cl_journey claim) = Inr prior" and "fit_claim c claim"
    and "eval L (take_claim c claim (now, until, epoch)) = Inr (Some held, L')"
    and "cl_journey other = cl_journey claim" and "cl_token other \<noteq> cl_token claim"
    and "sint later \<le> sint (cl_until_unix_nanos held)"
  shows "eval L' (take_claim c other (later, until', epoch')) = Inr (None, L')"
  using codec_laws.taken_excludes [OF assms] .

theorem claim_excludes_witness:
  "\<exists>held L'. eval empty_ledger (take_claim plain_codec (sample_claim ''a'' 1) (100, 200, 3)) = Inr (Some held, L') \<and>
    eval L' (take_claim plain_codec (sample_claim ''b'' 2) (150, 300, 3)) = Inr (None, L')"
proof -
  obtain held L' where held: "eval empty_ledger (take_claim plain_codec (sample_claim ''a'' 1) (100, 200, 3)) = Inr (Some held, L')"
    "cl_until_unix_nanos held = 200"
    by (simp add: eval_take_claim free_at_def granted_def)
  have "fit_claim plain_codec (sample_claim ''a'' 1)" by (rule fit_sample_claim) simp
  from claim_excludes [OF plain.codec_laws_axioms _ this held(1), of None "sample_claim ''b'' 2" 150 300 3] held
  show ?thesis by (auto simp: sample_claim_def)
qed

text \<open>
  C30: A fence grows with every holder: in the same epoch or a later one, below the most holders
  and epochs its thirty-two bits each count, the fence of the next claim is greater.
\<close>

theorem next_fence_greater:
  assumes "unat (cl_fence claim) div 2 ^ 32 \<le> unat epoch" and "unat epoch < 2 ^ 32"
    and "unat (cl_fence claim) mod 2 ^ 32 < 2 ^ 32 - 1"
  shows "cl_fence claim < fence epoch (Some claim)"
  using fence_grows [OF assms] .

theorem next_fence_greater_witness:
  "cl_fence ((sample_claim ''a'' 1)\<lparr>cl_fence := 3 * 2 ^ 32 + 1\<rparr>) <
    fence 4 (Some ((sample_claim ''a'' 1)\<lparr>cl_fence := 3 * 2 ^ 32 + 1\<rparr>))"
  by (rule next_fence_greater) simp_all

text \<open>
  At the most holders its low bits count, a fence grows no more within its epoch: the claim
  after carries the fence of the claim before it.
\<close>

theorem fence_saturates:
  assumes "unat (cl_fence claim) div 2 ^ 32 = unat epoch" and "unat epoch < 2 ^ 32"
    and "unat (cl_fence claim) mod 2 ^ 32 = 2 ^ 32 - 1"
  shows "fence epoch (Some claim) = cl_fence claim"
proof -
  define f where "f = unat (cl_fence claim)"
  have "unat (fence epoch (Some claim)) = f div 2 ^ 32 * 2 ^ 32 + f mod 2 ^ 32"
    using assms by (simp add: fence_value [OF assms(2)] holders_before_def f_def)
  then show ?thesis by (simp only: div_mult_mod_eq f_def word_unat_eq_iff)
qed

theorem fence_saturates_witness:
  "fence 3 (Some ((sample_claim ''a'' 1)\<lparr>cl_fence := 4 * 2 ^ 32 - 1\<rparr>)) = 4 * 2 ^ 32 - 1"
  using fence_saturates [of "(sample_claim ''a'' 1)\<lparr>cl_fence := 4 * 2 ^ 32 - 1\<rparr>" 3] by simp

end
