(* ===== verification/Hold.thy ===== *)
theory Hold
  imports Queue
begin

text \<open>
  What a paused Subscription or a Send Port holds (\<open>src/.src/storage/hold.rs\<close>): a Message to
  hold, a Message held at its place, and the operations that keep one at the end of its queue,
  leave it waiting for a retry, mark it failed, let go of it and move it to the end. A queue
  stands for the list of what it holds, oldest first (\<open>waiting\<close>); each operation is shown to
  be the operation on that list, and to touch nothing else.
\<close>

section \<open>A Message to hold, and one held\<close>

record hold =
  ho_queue :: u128
  ho_journey :: u128
  ho_body :: bytes

definition w_hold :: "codec \<Rightarrow> hold \<Rightarrow> bytes" where
  "w_hold c x =
     w_u128 c (ho_queue x) @
     w_u128 c (ho_journey x) @
     w_counted c (ho_body x)"

definition r_hold :: "codec \<Rightarrow> hold reader" where
  "r_hold c =
     andr (r_u128 c) (\<lambda>queue.
     andr (r_u128 c) (\<lambda>journey.
     andr (r_counted c) (\<lambda>body.
     ret \<lparr>ho_queue = queue, ho_journey = journey, ho_body = body\<rparr>)))"

definition fit_hold :: "codec \<Rightarrow> hold \<Rightarrow> bool" where
  "fit_hold c x \<longleftrightarrow> length (ho_body x) \<le> most c"

sublocale codec_laws \<subseteq> hold: form "w_hold c" "r_hold c" "fit_hold c"
proof
  show "r_hold c (w_hold c x @ rest) = Inr (x, rest)" if "fit_hold c x" for x rest
    using that by (cases x) (simp add: r_hold_def w_hold_def fit_hold_def)
  show "fit_hold c x" if "r_hold c bs = Inr (x, rest)" for bs x rest
    using that by (auto simp: r_hold_def andr_eq_Inr fit_hold_def intro: form_wf)
qed

text \<open>A due time is written at one length, whether there is one or not.\<close>

definition w_due :: "codec \<Rightarrow> i128 option \<Rightarrow> bytes" where
  "w_due c v = w_flag c (v \<noteq> None) @ w_i128 c (case v of None \<Rightarrow> 0 | Some d \<Rightarrow> d)"

definition r_due :: "codec \<Rightarrow> i128 option reader" where
  "r_due c = andr (r_flag c) (\<lambda>waits. andr (r_i128 c) (\<lambda>due. ret (if waits then Some due else None)))"

context codec_laws
begin

lemma due_back [simp]: "r_due c (w_due c v @ rest) = Inr (v, rest)"
  by (cases v) (simp_all add: r_due_def w_due_def andr_def)

end

record held =
  he_sequence :: u64
  he_hold :: hold
  he_held_unix_nanos :: u64
  he_failed :: bool
  he_due_unix_nanos :: "i128 option"

definition w_held :: "codec \<Rightarrow> held \<Rightarrow> bytes" where
  "w_held c x =
     w_u64 c (he_sequence x) @
     w_hold c (he_hold x) @
     w_u64 c (he_held_unix_nanos x) @
     w_flag c (he_failed x) @
     w_due c (he_due_unix_nanos x)"

definition r_held :: "codec \<Rightarrow> held reader" where
  "r_held c =
     andr (r_u64 c) (\<lambda>sequence.
     andr (r_hold c) (\<lambda>hold.
     andr (r_u64 c) (\<lambda>held_unix_nanos.
     andr (r_flag c) (\<lambda>failed.
     andr (r_due c) (\<lambda>due_unix_nanos.
     ret \<lparr>he_sequence = sequence, he_hold = hold, he_held_unix_nanos = held_unix_nanos, he_failed = failed, he_due_unix_nanos = due_unix_nanos\<rparr>)))))"

definition fit_held :: "codec \<Rightarrow> held \<Rightarrow> bool" where
  "fit_held c x \<longleftrightarrow> fit_hold c (he_hold x)"

sublocale codec_laws \<subseteq> held: form "w_held c" "r_held c" "fit_held c"
proof
  show "r_held c (w_held c x @ rest) = Inr (x, rest)" if "fit_held c x" for x rest
    using that by (cases x) (simp add: r_held_def w_held_def fit_held_def hold.read_write)
  show "fit_held c x" if "r_held c bs = Inr (x, rest)" for bs x rest
    using that by (auto simp: r_held_def andr_eq_Inr fit_held_def intro: form_wf hold.read_fit)
qed

sublocale codec_laws \<subseteq> held_list: form "w_list c (w_held c)" "r_list c (r_held c)" "fit_list c (fit_held c)"
  by (rule list_form) (rule held.form_axioms)

record held_queue =
  hq_first :: u64
  hq_next :: u64
  hq_count :: u64
  hq_held :: "held list"
  hq_read_unix_nanos :: i128

definition w_held_queue :: "codec \<Rightarrow> held_queue \<Rightarrow> bytes" where
  "w_held_queue c x =
     w_u64 c (hq_first x) @
     w_u64 c (hq_next x) @
     w_u64 c (hq_count x) @
     w_list c (w_held c) (hq_held x) @
     w_i128 c (hq_read_unix_nanos x)"

definition r_held_queue :: "codec \<Rightarrow> held_queue reader" where
  "r_held_queue c =
     andr (r_u64 c) (\<lambda>first.
     andr (r_u64 c) (\<lambda>next'.
     andr (r_u64 c) (\<lambda>count.
     andr (r_list c (r_held c)) (\<lambda>held.
     andr (r_i128 c) (\<lambda>read_unix_nanos.
     ret \<lparr>hq_first = first, hq_next = next', hq_count = count, hq_held = held, hq_read_unix_nanos = read_unix_nanos\<rparr>)))))"

definition fit_held_queue :: "codec \<Rightarrow> held_queue \<Rightarrow> bool" where
  "fit_held_queue c x \<longleftrightarrow> fit_list c (fit_held c) (hq_held x)"

sublocale codec_laws \<subseteq> held_queue: form "w_held_queue c" "r_held_queue c" "fit_held_queue c"
proof
  show "r_held_queue c (w_held_queue c x @ rest) = Inr (x, rest)" if "fit_held_queue c x" for x rest
    using that by (cases x) (simp add: r_held_queue_def w_held_queue_def fit_held_queue_def held_list.read_write)
  show "fit_held_queue c x" if "r_held_queue c bs = Inr (x, rest)" for bs x rest
    using that by (auto simp: r_held_queue_def andr_eq_Inr fit_held_queue_def intro: form_wf held_list.read_fit)
qed

section \<open>When it is due\<close>

text \<open>
  How long it still waits, in nanoseconds: what is left is a difference of two signed times,
  which wraps as the language's release build does.
\<close>

definition due_in :: "held \<Rightarrow> i128 \<Rightarrow> u64 option" where
  "due_in held at = (case he_due_unix_nanos held of None \<Rightarrow> None
   | Some due \<Rightarrow> let left = sint (due - at)
       in if 0 < left \<and> left < 2 ^ 64 then Some (word_of_int left) else None)"

definition queue_due_in :: "held_queue \<Rightarrow> held \<Rightarrow> u64 option" where
  "queue_due_in queue held = due_in held (hq_read_unix_nanos queue)"

definition due_at :: "held \<Rightarrow> u64" where
  "due_at held = (case he_due_unix_nanos held of None \<Rightarrow> 0 | Some due \<Rightarrow> max 1 (nanos due))"

section \<open>What a queue is found by\<close>

definition url_namespace :: u128 where
  "url_namespace = 0x6ba7b8119dad11d180b400c04fd430c8"

definition version_five :: "codec \<Rightarrow> u128 \<Rightarrow> bytes \<Rightarrow> u128" where
  "version_five c namespace name =
     (let digest = sha1 c (be128 namespace @ name);
          bytes = take 16 digest;
          bytes = bytes[6 := or (and (bytes ! 6) 0x0f) 0x50];
          bytes = bytes[8 := or (and (bytes ! 8) 0x3f) 0x80]
      in word_of_nat (from_be bytes))"

definition named :: "codec \<Rightarrow> string \<Rightarrow> u128" where
  "named c uri = version_five c url_namespace (as_bytes uri)"

section \<open>The operations\<close>

definition hold_kinds :: kinds where
  "hold_kinds = \<lparr>k_entry = ''held'', k_by = ''held-journey'', k_places = ''held-places'',
     k_table = ''held'', k_index = ''held_place''\<rparr>"

definition keep :: "codec \<Rightarrow> hold \<Rightarrow> unit prog" where
  "keep c hold = bindp (place c hold_kinds (ho_queue hold, ho_journey hold) (\<lambda>sequence.
       w_held c \<lparr>he_sequence = sequence, he_hold = hold, he_held_unix_nanos = 0,
         he_failed = False, he_due_unix_nanos = None\<rparr>))
     (\<lambda>_. Ret ())"

definition wait :: "codec \<Rightarrow> u128 \<times> u128 \<Rightarrow> i128 \<Rightarrow> unit prog" where
  "wait c qj due = (let (queue, journey) = qj in
     bindp (placed hold_kinds (queue, journey)) (\<lambda>p. case p of
       At sequence \<Rightarrow> let key = entry_key queue sequence in
         Read (k_entry hold_kinds) key (\<lambda>v. case v of None \<Rightarrow> Ret ()
         | Some bytes \<Rightarrow> bindp (liftp (from_bytes c (r_held c) bytes)) (\<lambda>held.
             Put (k_entry hold_kinds) key (Some (w_held c (held\<lparr>he_due_unix_nanos := Some due\<rparr>)))
             (Ret ())))
     | _ \<Rightarrow> Ret ()))"

definition mark :: "codec \<Rightarrow> u128 \<Rightarrow> u64 \<Rightarrow> bool \<Rightarrow> unit prog" where
  "mark c queue sequence failed = (let key = entry_key queue sequence in
     Read (k_entry hold_kinds) key (\<lambda>v. case v of None \<Rightarrow> Ret ()
     | Some bytes \<Rightarrow> bindp (liftp (from_bytes c (r_held c) bytes)) (\<lambda>held.
         if he_failed held \<noteq> failed then
           let held1 = held\<lparr>he_failed := failed\<rparr>;
               held2 = (if failed then held1\<lparr>he_due_unix_nanos := None\<rparr> else held1)
           in Put (k_entry hold_kinds) key (Some (w_held c held2)) (Ret ())
         else Ret ())))"

definition let_go :: "codec \<Rightarrow> u128 \<Rightarrow> u64 \<Rightarrow> unit prog" where
  "let_go c queue sequence = bindp (take_out c hold_kinds queue sequence) (\<lambda>v.
     case v of None \<Rightarrow> Ret ()
     | Some bytes \<Rightarrow> bindp (liftp (from_bytes c (r_held c) bytes)) (\<lambda>held.
         forget hold_kinds (queue, ho_journey (he_hold held))))"

definition let_go_of :: "codec \<Rightarrow> u128 \<Rightarrow> u128 \<Rightarrow> unit prog" where
  "let_go_of c queue journey = bindp (placed hold_kinds (queue, journey)) (\<lambda>p. case p of
     At sequence \<Rightarrow> let_go c queue sequence
   | Never \<Rightarrow> Ret ()
   | TakenOut \<Rightarrow> Ret ())"

definition to_the_end :: "codec \<Rightarrow> u128 \<Rightarrow> u128 \<Rightarrow> unit prog" where
  "to_the_end c queue journey = bindp (placed hold_kinds (queue, journey)) (\<lambda>p. case p of
     At sequence \<Rightarrow> bindp (take_out c hold_kinds queue sequence) (\<lambda>v.
       case v of None \<Rightarrow> Ret ()
       | Some bytes \<Rightarrow> bindp (liftp (from_bytes c (r_held c) bytes)) (\<lambda>held.
           bindp (forget hold_kinds (queue, journey)) (\<lambda>_. keep c (he_hold held))))
   | _ \<Rightarrow> Ret ())"

lemma hold_writes [intro!]:
  "writes (kinds_of hold_kinds) (keep c h)" "writes (kinds_of hold_kinds) (wait c qj due)"
  "writes (kinds_of hold_kinds) (mark c q s f)" "writes (kinds_of hold_kinds) (let_go c q s)"
  "writes (kinds_of hold_kinds) (let_go_of c q j)" "writes (kinds_of hold_kinds) (to_the_end c q j)"
proof -
  show "writes (kinds_of hold_kinds) (keep c h)" for h by (auto simp: keep_def)
  note this [intro!]
  have put: "k_entry hold_kinds \<in> kinds_of hold_kinds" by (simp add: kinds_of_def)
  show "writes (kinds_of hold_kinds) (wait c qj due)"
    by (auto simp: wait_def Let_def put split: placed.splits option.splits prod.splits)
  show "writes (kinds_of hold_kinds) (mark c q s f)"
    by (auto simp: mark_def Let_def put split: option.splits)
  show "writes (kinds_of hold_kinds) (let_go c q s)" for s
    by (auto simp: let_go_def split: option.splits)
  note this [intro!]
  show "writes (kinds_of hold_kinds) (let_go_of c q j)"
    by (auto simp: let_go_of_def split: placed.splits)
  show "writes (kinds_of hold_kinds) (to_the_end c q j)"
    by (auto simp: to_the_end_def split: placed.splits option.splits)
qed

section \<open>What a queue holds\<close>

text \<open>
  What an entry is about is its Journey. A queue of held Messages is well formed when it is a
  queue, each entry is a held Message that names its own place and queue, and none is
  remembered as taken out.
\<close>

definition held_about :: "codec \<Rightarrow> bytes \<Rightarrow> u128 option" where
  "held_about c v = (case from_bytes c (r_held c) v of Inl e \<Rightarrow> None | Inr h \<Rightarrow> Some (ho_journey (he_hold h)))"

definition held_at :: "codec \<Rightarrow> bytes \<Rightarrow> held" where
  "held_at c v = projr (from_bytes c (r_held c) v)"

definition held_well :: "codec \<Rightarrow> u128 \<Rightarrow> (u64 \<Rightarrow> bytes option) \<Rightarrow> bool" where
  "held_well c q e \<longleftrightarrow> (\<forall>s v. e s = Some v \<longrightarrow> from_bytes c (r_held c) v = Inr (held_at c v) \<and>
     he_sequence (held_at c v) = s \<and> ho_queue (he_hold (held_at c v)) = q)"

definition hold_inv :: "codec \<Rightarrow> ledger \<Rightarrow> u128 \<Rightarrow> bool" where
  "hold_inv c L q \<longleftrightarrow> queue_inv c hold_kinds (held_about c) L q \<and>
     held_well c q (entries_of hold_kinds L q) \<and> (\<forall>j. index_of hold_kinds L q j \<noteq> Some [])"

definition waiting :: "codec \<Rightarrow> ledger \<Rightarrow> u128 \<Rightarrow> held list" where
  "waiting c L q = map (held_at c) (queue_list hold_kinds L q)"

definition held_here :: "held list \<Rightarrow> u128 \<Rightarrow> bool" where
  "held_here hs journey \<longleftrightarrow> (\<exists>h \<in> set hs. ho_journey (he_hold h) = journey)"

definition next_place :: "codec \<Rightarrow> ledger \<Rightarrow> u128 \<Rightarrow> u64" where
  "next_place c L q = pl_next (places_of c hold_kinds L q)"

definition newly_held :: "u64 \<Rightarrow> hold \<Rightarrow> held" where
  "newly_held sequence h = \<lparr>he_sequence = sequence, he_hold = h, he_held_unix_nanos = 0,
     he_failed = False, he_due_unix_nanos = None\<rparr>"

text \<open>The operations on the list a queue stands for.\<close>

definition moved_to_the_end :: "u64 \<Rightarrow> u128 \<Rightarrow> held list \<Rightarrow> held list" where
  "moved_to_the_end sequence journey hs = (case find (\<lambda>h. ho_journey (he_hold h) = journey) hs of
     None \<Rightarrow> hs
   | Some h \<Rightarrow> filter (\<lambda>h. ho_journey (he_hold h) \<noteq> journey) hs @ [newly_held sequence (he_hold h)])"

definition marked :: "bool \<Rightarrow> held \<Rightarrow> held" where
  "marked failed h = (if he_failed h = failed then h
     else if failed then h\<lparr>he_failed := True, he_due_unix_nanos := None\<rparr>
     else h\<lparr>he_failed := False\<rparr>)"

lemma held_about_eq: "from_bytes c (r_held c) v = Inr h \<Longrightarrow> held_about c v = Some (ho_journey (he_hold h))"
  by (simp add: held_about_def)

lemma held_at_eq: "from_bytes c (r_held c) v = Inr h \<Longrightarrow> held_at c v = h"
  by (simp add: held_at_def)

lemma hold_inv_parts:
  assumes "hold_inv c L q"
  shows "queue_inv c hold_kinds (held_about c) L q" and "held_well c q (entries_of hold_kinds L q)"
    and "index_of hold_kinds L q j \<noteq> Some []"
  using assms by (simp_all add: hold_inv_def)

lemma hold_inv_same:
  assumes "same_queue hold_kinds L L' q"
  shows "hold_inv c L' q = hold_inv c L q" and "waiting c L' q = waiting c L q"
  using same_queue_inv [OF assms] same_queue_list [OF assms] assms
  by (simp_all add: hold_inv_def waiting_def same_queue_def)

lemma hold_inv_other:
  assumes "only_queue hold_kinds q L L'" and "q' \<noteq> q"
  shows "hold_inv c L' q' = hold_inv c L q'" and "waiting c L' q' = waiting c L q'"
proof -
  have same: "same_queue hold_kinds L L' q'" using assms by (simp add: only_queue_def)
  then show "waiting c L' q' = waiting c L q'" by (simp add: waiting_def same_queue_list)
  show "hold_inv c L' q' = hold_inv c L q'"
    using same_queue_inv [OF same] same by (simp add: hold_inv_def same_queue_def)
qed

sublocale codec_laws \<subseteq> hold_queue: queue_kind c hold_kinds "held_about c"
  by unfold_locales (simp add: hold_kinds_def)

context codec_laws
begin

text \<open>A Journey is held in a queue where the index has its place, and nowhere else.\<close>

lemma held_index:
  assumes inv: "hold_inv c L q"
  obtains (away) "index_of hold_kinds L q j = None" "\<not> held_here (waiting c L q) j"
  | (here) s v where "index_of hold_kinds L q j = Some (be64 s)" "entries_of hold_kinds L q s = Some v"
      "held_about c v = Some j" "from_bytes c (r_held c) v = Inr (held_at c v)" "held_at c v \<in> set (waiting c L q)"
      "he_sequence (held_at c v) = s" "ho_queue (he_hold (held_at c v)) = q" "ho_journey (he_hold (held_at c v)) = j"
      "held_here (waiting c L q) j"
proof (cases "index_of hold_kinds L q j")
  case None
  have "\<not> held_here (waiting c L q) j"
  proof
    assume "held_here (waiting c L q) j"
    then obtain s v where v: "entries_of hold_kinds L q s = Some v" "ho_journey (he_hold (held_at c v)) = j"
      by (auto simp: held_here_def waiting_def in_queue_list)
    then have "held_about c v = Some j"
      using hold_inv_parts(2) [OF inv] by (auto simp: held_well_def intro: held_about_eq)
    with v(1) None show False using qinv_by [OF queue_inv_parts(2) [OF hold_inv_parts(1) [OF inv]]] by fastforce
  qed
  then show ?thesis by (rule away [OF None])
next
  case (Some bs)
  then have "bs \<noteq> []" using hold_inv_parts(3) [OF inv] by blast
  then obtain s v where v: "bs = be64 s" "entries_of hold_kinds L q s = Some v" "held_about c v = Some j"
    using qinv_index [OF queue_inv_parts(2) [OF hold_inv_parts(1) [OF inv]] Some] by blast
  then have w: "from_bytes c (r_held c) v = Inr (held_at c v)" "he_sequence (held_at c v) = s"
      "ho_queue (he_hold (held_at c v)) = q"
    using hold_inv_parts(2) [OF inv] by (auto simp: held_well_def)
  moreover have "held_at c v \<in> set (waiting c L q)" using v(2) in_queue_list [of v hold_kinds L q] by (auto simp: waiting_def)
  moreover have "ho_journey (he_hold (held_at c v)) = j" using v(3) held_about_eq [OF w(1)] by simp
  ultimately show ?thesis using Some v here by (auto simp: held_here_def)
qed

lemma eval_placed_held:
  assumes "hold_inv c L q" and "index_of hold_kinds L q j = (if b then Some (be64 s) else None)"
  shows "eval L (placed hold_kinds (q, j)) = Inr (if b then At s else Never, L)"
  using hold_queue.eval_placed [OF hold_inv_parts(1) [OF assms(1)], of j] assms(2) by (cases b) simp_all

lemma held_index_cases:
  assumes "hold_inv c L q"
  obtains (away) "index_of hold_kinds L q j = None" "\<not> held_here (waiting c L q) j"
    "eval L (placed hold_kinds (q, j)) = Inr (Never, L)"
  | (here) s v where "eval L (placed hold_kinds (q, j)) = Inr (At s, L)"
      "entries_of hold_kinds L q s = Some v" "held_about c v = Some j"
      "from_bytes c (r_held c) v = Inr (held_at c v)" "ho_queue (he_hold (held_at c v)) = q"
      "ho_journey (he_hold (held_at c v)) = j" "he_sequence (held_at c v) = s"
      "held_here (waiting c L q) j" "held_at c v \<in> set (waiting c L q)"
  using held_index [OF assms, of j] eval_placed_held [OF assms, of j False] eval_placed_held [OF assms, of j True]
  by (metis (full_types))

lemma held_about_well:
  assumes "hold_inv c L q" and "entries_of hold_kinds L q s = Some v"
  shows "held_about c v = Some (ho_journey (he_hold (held_at c v)))"
  using assms by (auto simp: hold_inv_def held_well_def intro: held_about_eq)

lemma waiting_without:
  assumes "hold_inv c L q"
  shows "map (held_at c) (filter (\<lambda>w. held_about c w \<noteq> Some j) (queue_list hold_kinds L q)) =
    filter (\<lambda>h. ho_journey (he_hold h) \<noteq> j) (waiting c L q)"
  unfolding waiting_def filter_map o_def
  by (intro arg_cong [where f = "map (held_at c)"] filter_cong)
    (auto simp: in_queue_list dest: held_about_well [OF assms])

text \<open>Kept at the end of its queue, once.\<close>

lemma eval_keep:
  assumes inv: "hold_inv c L (ho_queue h)" and fit: "fit_hold c h"
    and room: "next_place c L (ho_queue h) \<noteq> - 1"
  shows "\<exists>L'. eval L (keep c h) = Inr ((), L') \<and> hold_inv c L' (ho_queue h) \<and>
    waiting c L' (ho_queue h) = (if held_here (waiting c L (ho_queue h)) (ho_journey h)
      then waiting c L (ho_queue h)
      else waiting c L (ho_queue h) @ [newly_held (next_place c L (ho_queue h)) h]) \<and>
    next_place c L' (ho_queue h) = next_place c L (ho_queue h) + (if held_here (waiting c L (ho_queue h)) (ho_journey h) then 0 else 1) \<and>
    only_queue hold_kinds (ho_queue h) L L'"
  using inv
proof (cases rule: held_index [where j = "ho_journey h"])
  case away
  let ?q = "ho_queue h" and ?n = "next_place c L (ho_queue h)"
  let ?v = "w_held c (newly_held ?n h)"
  note parts = hold_inv_parts [OF inv]
  have rt: "from_bytes c (r_held c) ?v = Inr (newly_held ?n h)"
    using fit by (intro held.from_bytes_write) (simp_all add: fit_held_def newly_held_def)
  then have about: "held_about c ?v = Some (ho_journey h)"
    using held_about_eq [of c ?v] by (simp add: newly_held_def)
  obtain L' where L': "eval L (place c hold_kinds (?q, ho_journey h) (\<lambda>s. w_held c (newly_held s h))) = Inr (True, L')"
    "queue_inv c hold_kinds (held_about c) L' ?q"
    "queue_list hold_kinds L' ?q = queue_list hold_kinds L ?q @ [?v]"
    "index_of hold_kinds L' ?q = (index_of hold_kinds L ?q)(ho_journey h \<mapsto> be64 ?n)"
    "entries_of hold_kinds L' ?q = (entries_of hold_kinds L ?q)(?n \<mapsto> ?v)"
    "next_place c L' ?q = ?n + 1" "only_queue hold_kinds ?q L L'"
    using hold_queue.eval_place_new [OF parts(1) away(1), of "\<lambda>s. w_held c (newly_held s h)"] about room
    unfolding next_place_def by blast
  have "eval L (keep c h) = Inr ((), L')"
    using L'(1) by (simp add: keep_def newly_held_def)
  moreover have "held_well c ?q (entries_of hold_kinds L' ?q)"
    using parts(2) rt held_at_eq [OF rt] unfolding L'(5) by (auto simp: held_well_def newly_held_def)
  then have "hold_inv c L' ?q" using L'(2,4) parts(3) by (simp add: hold_inv_def)
  moreover have "waiting c L' ?q = waiting c L ?q @ [newly_held ?n h]"
    using held_at_eq [OF rt] by (simp add: waiting_def L'(3))
  ultimately show ?thesis using L'(6,7) away(2) by auto
next
  case (here s v)
  have "eval L (keep c h) = Inr ((), L)"
    using hold_queue.eval_place_again [of L "ho_queue h" "ho_journey h"] here(1) by (simp add: keep_def)
  then show ?thesis using inv here(9) by auto
qed

text \<open>Let go of: the others in their order.\<close>

lemma eval_let_go_at:
  assumes inv: "hold_inv c L q" and v: "entries_of hold_kinds L q s = Some v"
    and j: "held_about c v = Some j"
  defines "L' \<equiv> upd (upd (upd L (k_entry hold_kinds) (entry_key q s) None)
    (k_places hold_kinds) (places_key q) (Some (w_places c (places_without_one (places_of c hold_kinds L q)))))
    (k_by hold_kinds) (by_key q j) None"
  shows "eval L (let_go c q s) = Inr ((), L')"
    and "hold_inv c L' q" and "waiting c L' q = filter (\<lambda>h. ho_journey (he_hold h) \<noteq> j) (waiting c L q)"
    and "next_place c L' q = next_place c L q" and "only_queue hold_kinds q L L'"
proof -
  note parts = hold_inv_parts [OF inv]
  note r = hold_queue.removed_inv [OF parts(1) v j disjI1 [OF refl], folded L'_def]
  have rt: "from_bytes c (r_held c) v = Inr (held_at c v)" using v parts(2) by (simp add: held_well_def)
  then have "ho_journey (he_hold (held_at c v)) = j" using j held_about_eq by fastforce
  with rt show "eval L (let_go c q s) = Inr ((), L')"
    using hold_queue.eval_take_out [OF parts(1) v] by (simp add: let_go_def forget_def L'_def)
  have "held_well c q (entries_of hold_kinds L' q)"
    using parts(2) unfolding r(4) by (auto simp: held_well_def)
  then show "hold_inv c L' q" using r(1,3) parts(3) by (simp add: hold_inv_def)
  show "waiting c L' q = filter (\<lambda>h. ho_journey (he_hold h) \<noteq> j) (waiting c L q)"
    using waiting_without [OF inv] by (simp add: waiting_def r(2))
  show "next_place c L' q = next_place c L q" using r(5) by (simp add: next_place_def)
  show "only_queue hold_kinds q L L'" by (rule r(6))
qed

lemma not_held_filter: "\<not> held_here hs j \<Longrightarrow> filter (\<lambda>h. ho_journey (he_hold h) \<noteq> j) hs = hs"
  by (auto simp: held_here_def filter_id_conv)

lemma eval_let_go_of:
  assumes inv: "hold_inv c L q"
  shows "\<exists>L'. eval L (let_go_of c q j) = Inr ((), L') \<and> hold_inv c L' q \<and>
    waiting c L' q = filter (\<lambda>h. ho_journey (he_hold h) \<noteq> j) (waiting c L q) \<and>
    next_place c L' q = next_place c L q \<and> only_queue hold_kinds q L L'"
  using inv
proof (cases rule: held_index_cases [where j = j])
  case away
  then have "eval L (let_go_of c q j) = Inr ((), L)" by (simp add: let_go_of_def)
  then show ?thesis using inv not_held_filter [OF away(2)] by auto
next
  case (here s v)
  note go = eval_let_go_at [OF inv here(2,3)]
  have "eval L (let_go_of c q j) = eval L (let_go c q s)" using here(1) by (simp add: let_go_of_def)
  then show ?thesis using go by auto
qed

lemma one_per_journey:
  assumes inv: "hold_inv c L q" and "h \<in> set (waiting c L q)" and "h' \<in> set (waiting c L q)"
    and "ho_journey (he_hold h) = ho_journey (he_hold h')"
  shows "h = h'"
proof -
  obtain s v s' v' where v: "entries_of hold_kinds L q s = Some v" "h = held_at c v"
      "entries_of hold_kinds L q s' = Some v'" "h' = held_at c v'"
    using assms(2,3) by (auto simp: waiting_def in_queue_list)
  have "held_about c v' = Some (ho_journey (he_hold (held_at c v)))"
    unfolding held_about_well [OF inv v(3)] using assms(4) v(2,4) by simp
  then have "s = s'"
    by (rule qinv_same_place [OF queue_inv_parts(2) [OF hold_inv_parts(1) [OF inv]] v(1,3)
          held_about_well [OF inv v(1)]])
  with v show ?thesis by simp
qed

lemma find_held:
  assumes "hold_inv c L q" and "h \<in> set (waiting c L q)"
  shows "find (\<lambda>h'. ho_journey (he_hold h') = ho_journey (he_hold h)) (waiting c L q) = Some h"
proof (cases "find (\<lambda>h'. ho_journey (he_hold h') = ho_journey (he_hold h)) (waiting c L q)")
  case None
  with assms(2) show ?thesis by (auto simp: find_None_iff)
next
  case (Some h')
  then have "h' \<in> set (waiting c L q)" "ho_journey (he_hold h') = ho_journey (he_hold h)"
    by (auto simp: find_Some_iff)
  with Some one_per_journey [OF assms(1) _ assms(2)] show ?thesis by simp
qed

text \<open>Moved to the end, with what was kept beside it and nothing else.\<close>

lemma eval_to_the_end:
  assumes inv: "hold_inv c L q" and room: "next_place c L q \<noteq> - 1"
  shows "\<exists>L'. eval L (to_the_end c q j) = Inr ((), L') \<and> hold_inv c L' q \<and>
    waiting c L' q = moved_to_the_end (next_place c L q) j (waiting c L q) \<and> only_queue hold_kinds q L L'"
  using inv
proof (cases rule: held_index_cases [where j = j])
  case away
  then have "find (\<lambda>h. ho_journey (he_hold h) = j) (waiting c L q) = None"
    by (auto simp: find_None_iff held_here_def)
  moreover have "eval L (to_the_end c q j) = Inr ((), L)" using away by (simp add: to_the_end_def)
  ultimately show ?thesis using inv by (auto simp: moved_to_the_end_def)
next
  case (here s v)
  let ?h = "he_hold (held_at c v)"
  define L1 where "L1 = upd (upd (upd L (k_entry hold_kinds) (entry_key q s) None)
    (k_places hold_kinds) (places_key q) (Some (w_places c (places_without_one (places_of c hold_kinds L q)))))
    (k_by hold_kinds) (by_key q j) None"
  note go = eval_let_go_at [OF inv here(2,3), folded L1_def]
  have step: "eval L (to_the_end c q j) = eval L1 (keep c ?h)"
    using here(1,4) hold_queue.eval_take_out [OF hold_inv_parts(1) [OF inv] here(2)]
    by (simp add: to_the_end_def forget_def L1_def)
  have "fit_hold c ?h" using held.from_bytes_fit [OF here(4)] by (simp add: fit_held_def)
  moreover have "\<not> held_here (waiting c L1 q) j" by (simp add: go(3) held_here_def)
  ultimately obtain L' where L': "eval L1 (keep c ?h) = Inr ((), L')" "hold_inv c L' q"
    "waiting c L' q = filter (\<lambda>h. ho_journey (he_hold h) \<noteq> j) (waiting c L q) @ [newly_held (next_place c L q) ?h]"
    "only_queue hold_kinds q L1 L'"
    using eval_keep [of L1 ?h] go(2-4) here(5,6) room by auto
  have "moved_to_the_end (next_place c L q) j (waiting c L q) = waiting c L' q"
    using find_held [OF inv here(9)] here(6) by (simp add: moved_to_the_end_def L'(3))
  then show ?thesis using step L' go(5) only_queue_trans by auto
qed

text \<open>Written anew at its place.\<close>

lemma rewritten_held:
  assumes inv: "hold_inv c L q" and v: "entries_of hold_kinds L q s = Some v"
    and h': "he_sequence h' = s" "he_hold h' = he_hold (held_at c v)"
  defines "L' \<equiv> upd L (k_entry hold_kinds) (entry_key q s) (Some (w_held c h'))"
  shows "hold_inv c L' q"
    and "waiting c L' q = map (\<lambda>h. if he_sequence h = s then h' else h) (waiting c L q)"
    and "only_queue hold_kinds q L L'"
proof -
  note parts = hold_inv_parts [OF inv]
  have well: "from_bytes c (r_held c) v = Inr (held_at c v)" "ho_queue (he_hold (held_at c v)) = q"
    using parts(2) v by (simp_all add: held_well_def)
  have "fit_held c h'" using held.from_bytes_fit [OF well(1)] h'(2) by (simp add: fit_held_def)
  then have rt: "from_bytes c (r_held c) (w_held c h') = Inr h'" by (simp add: held.from_bytes_write)
  have about: "held_about c (w_held c h') = held_about c v"
    using held_about_eq [OF rt] held_about_well [OF inv v] h'(2) by simp
  note r = hold_queue.rewritten_inv [OF parts(1) v about, folded L'_def]
  have "held_well c q (entries_of hold_kinds L' q)"
    using parts(2) well(2) h' unfolding r(5) by (auto simp: held_well_def rt held_at_eq [OF rt])
  then show "hold_inv c L' q" using r(1,3) parts(3) by (simp add: hold_inv_def)
  have "held_at c (if s' = s then w_held c h' else the (entries_of hold_kinds L q s')) =
      (let h = held_at c (the (entries_of hold_kinds L q s')) in if he_sequence h = s then h' else h)"
    if "s' \<in> dom (entries_of hold_kinds L q)" for s'
    using that parts(2) v by (auto simp: held_well_def held_at_eq [OF rt] Let_def)
  then show "waiting c L' q = map (\<lambda>h. if he_sequence h = s then h' else h) (waiting c L q)"
    unfolding waiting_def r(2) by (simp add: queue_list_def qlist_def Let_def)
  show "only_queue hold_kinds q L L'" by (rule r(4))
qed

lemma same_place_same_held:
  assumes inv: "hold_inv c L q" and v: "entries_of hold_kinds L q s = Some v"
    and h: "h \<in> set (waiting c L q)"
  shows "he_sequence h = s \<longleftrightarrow> h = held_at c v"
    and "ho_journey (he_hold h) = ho_journey (he_hold (held_at c v)) \<longleftrightarrow> h = held_at c v"
proof -
  obtain s' v' where v': "entries_of hold_kinds L q s' = Some v'" "h = held_at c v'"
    using h by (auto simp: waiting_def in_queue_list)
  have "he_sequence (held_at c v) = s" "he_sequence h = s'"
    using hold_inv_parts(2) [OF inv] v v' by (simp_all add: held_well_def)
  then show "he_sequence h = s \<longleftrightarrow> h = held_at c v" using v v' by (metis option.inject)
  have "held_at c v \<in> set (waiting c L q)"
    using v in_queue_list [of v hold_kinds L q] by (auto simp: waiting_def)
  then show "ho_journey (he_hold h) = ho_journey (he_hold (held_at c v)) \<longleftrightarrow> h = held_at c v"
    using one_per_journey [OF inv h] by auto
qed

lemma eval_wait:
  assumes inv: "hold_inv c L q"
  shows "\<exists>L'. eval L (wait c (q, j) due) = Inr ((), L') \<and> hold_inv c L' q \<and>
    waiting c L' q = map (\<lambda>h. if ho_journey (he_hold h) = j then h\<lparr>he_due_unix_nanos := Some due\<rparr> else h)
      (waiting c L q) \<and> only_queue hold_kinds q L L'"
  using inv
proof (cases rule: held_index_cases [where j = j])
  case away
  then have "map (\<lambda>h. if ho_journey (he_hold h) = j then h\<lparr>he_due_unix_nanos := Some due\<rparr> else h)
      (waiting c L q) = waiting c L q" by (intro map_idI) (auto simp: held_here_def)
  moreover have "eval L (wait c (q, j) due) = Inr ((), L)" using away by (simp add: wait_def)
  ultimately show ?thesis using inv by auto
next
  case (here s v)
  let ?h = "(held_at c v)\<lparr>he_due_unix_nanos := Some due\<rparr>"
  note r = rewritten_held [OF inv here(2), of ?h]
  have "eval L (wait c (q, j) due) = Inr ((), upd L (k_entry hold_kinds) (entry_key q s) (Some (w_held c ?h)))"
    using here(1,2,4) by (simp add: wait_def entries_of_def Let_def)
  moreover have "map (\<lambda>h. if he_sequence h = s then ?h else h) (waiting c L q) =
      map (\<lambda>h. if ho_journey (he_hold h) = j then h\<lparr>he_due_unix_nanos := Some due\<rparr> else h) (waiting c L q)"
    using same_place_same_held [OF inv here(2)] here(6) by (intro map_cong) auto
  ultimately show ?thesis using r here(7) by auto
qed

lemma eval_mark:
  assumes inv: "hold_inv c L q"
  shows "\<exists>L'. eval L (mark c q s failed) = Inr ((), L') \<and> hold_inv c L' q \<and>
    waiting c L' q = map (\<lambda>h. if he_sequence h = s then marked failed h else h) (waiting c L q) \<and>
    only_queue hold_kinds q L L'"
proof (cases "entries_of hold_kinds L q s")
  case None
  then have "he_sequence h \<noteq> s" if "h \<in> set (waiting c L q)" for h
    using that hold_inv_parts(2) [OF inv] by (auto simp: waiting_def in_queue_list held_well_def)
  then have "map (\<lambda>h. if he_sequence h = s then marked failed h else h) (waiting c L q) = waiting c L q"
    by (intro map_idI) auto
  moreover have "eval L (mark c q s failed) = Inr ((), L)" using None by (simp add: mark_def entries_of_def Let_def)
  ultimately show ?thesis using inv by auto
next
  case (Some v)
  have well: "from_bytes c (r_held c) v = Inr (held_at c v)" "he_sequence (held_at c v) = s"
    using hold_inv_parts(2) [OF inv] Some by (simp_all add: held_well_def)
  have same: "map (\<lambda>h. if he_sequence h = s then marked failed (held_at c v) else h) (waiting c L q) =
      map (\<lambda>h. if he_sequence h = s then marked failed h else h) (waiting c L q)"
    using same_place_same_held [OF inv Some] by (intro map_cong) auto
  show ?thesis
  proof (cases "he_failed (held_at c v) = failed")
    case True
    then have "map (\<lambda>h. if he_sequence h = s then marked failed h else h) (waiting c L q) = waiting c L q"
      using same_place_same_held(1) [OF inv Some] by (intro map_idI) (auto simp: marked_def)
    moreover have "eval L (mark c q s failed) = Inr ((), L)"
      using True Some well by (simp add: mark_def entries_of_def Let_def)
    ultimately show ?thesis using inv by auto
  next
    case False
    note r = rewritten_held [OF inv Some, of "marked failed (held_at c v)"]
    have "eval L (mark c q s failed) =
        Inr ((), upd L (k_entry hold_kinds) (entry_key q s) (Some (w_held c (marked failed (held_at c v)))))"
      using False Some well by (auto simp: mark_def entries_of_def marked_def Let_def)
    moreover have "he_sequence (marked failed (held_at c v)) = s"
      "he_hold (marked failed (held_at c v)) = he_hold (held_at c v)" using well by (simp_all add: marked_def)
    ultimately show ?thesis using r same by auto
  qed
qed

end

lemma hold_inv_empty [simp]: "hold_inv c empty_ledger q" "waiting c empty_ledger q = []"
  "next_place c empty_ledger q = 0"
  by (simp_all add: hold_inv_def held_well_def waiting_def next_place_def default_places_def)

section \<open>Properties\<close>

text \<open>A queue of two, for the witnesses: nine, then eleven, held in queue seven.\<close>

definition sample_hold :: "u128 \<Rightarrow> hold" where
  "sample_hold j = \<lparr>ho_queue = 7, ho_journey = j, ho_body = []\<rparr>"

lemma fit_sample_hold: "fit_hold plain_codec (sample_hold j)"
  by (simp add: fit_hold_def sample_hold_def)

lemma two_held:
  "\<exists>L. eval empty_ledger (bindp (keep plain_codec (sample_hold 9)) (\<lambda>_. keep plain_codec (sample_hold 11))) = Inr ((), L) \<and>
    hold_inv plain_codec L 7 \<and> next_place plain_codec L 7 = 2 \<and>
    waiting plain_codec L 7 = [newly_held 0 (sample_hold 9), newly_held 1 (sample_hold 11)]"
proof -
  obtain L1 where L1: "eval empty_ledger (keep plain_codec (sample_hold 9)) = Inr ((), L1)" "hold_inv plain_codec L1 7"
    "waiting plain_codec L1 7 = [newly_held 0 (sample_hold 9)]" "next_place plain_codec L1 7 = 1"
    using plain.eval_keep [OF _ fit_sample_hold, of empty_ledger 9]
    by (auto simp: sample_hold_def held_here_def)
  obtain L where "eval L1 (keep plain_codec (sample_hold 11)) = Inr ((), L)" "hold_inv plain_codec L 7"
    "waiting plain_codec L 7 = [newly_held 0 (sample_hold 9), newly_held 1 (sample_hold 11)]" "next_place plain_codec L 7 = 2"
    using plain.eval_keep [OF _ fit_sample_hold, of L1 11] L1
    by (auto simp: sample_hold_def held_here_def newly_held_def)
  with L1(1) show ?thesis by auto
qed

text \<open>
  C26: A Message kept takes the last place of its queue, once: a Journey the queue holds already
  keeps the place it has. The queue stays well formed and nothing but it is written.
\<close>

theorem keep_appends:
  assumes "codec_laws c" and "hold_inv c L (ho_queue h)" and "fit_hold c h"
    and "next_place c L (ho_queue h) \<noteq> - 1"
  shows "\<exists>L'. eval L (keep c h) = Inr ((), L') \<and> hold_inv c L' (ho_queue h) \<and>
    waiting c L' (ho_queue h) = (if held_here (waiting c L (ho_queue h)) (ho_journey h)
      then waiting c L (ho_queue h)
      else waiting c L (ho_queue h) @ [newly_held (next_place c L (ho_queue h)) h]) \<and>
    only_queue hold_kinds (ho_queue h) L L'"
  using codec_laws.eval_keep [OF assms] by blast

theorem keep_appends_witness:
  "\<exists>L'. eval empty_ledger (keep plain_codec (sample_hold 9)) = Inr ((), L') \<and>
    waiting plain_codec L' 7 = [newly_held 0 (sample_hold 9)]"
  using keep_appends [OF plain.codec_laws_axioms, of empty_ledger "sample_hold 9"] fit_sample_hold [of 9]
  by (auto simp: sample_hold_def held_here_def)

text \<open>
  A Journey let go of leaves its queue and the others stay in their order; letting go of
  what is not held changes nothing.
\<close>

theorem let_go_of_removes:
  assumes "codec_laws c" and "hold_inv c L q"
  shows "\<exists>L'. eval L (let_go_of c q j) = Inr ((), L') \<and> hold_inv c L' q \<and>
    waiting c L' q = filter (\<lambda>h. ho_journey (he_hold h) \<noteq> j) (waiting c L q) \<and>
    only_queue hold_kinds q L L'"
  using codec_laws.eval_let_go_of [OF assms] by blast

theorem let_go_of_removes_witness:
  "\<exists>L L'. waiting plain_codec L 7 = [newly_held 0 (sample_hold 9), newly_held 1 (sample_hold 11)] \<and>
    eval L (let_go_of plain_codec 7 9) = Inr ((), L') \<and>
    waiting plain_codec L' 7 = [newly_held 1 (sample_hold 11)]"
proof -
  obtain L where "hold_inv plain_codec L 7"
    "waiting plain_codec L 7 = [newly_held 0 (sample_hold 9), newly_held 1 (sample_hold 11)]"
    using two_held by blast
  with let_go_of_removes [OF plain.codec_laws_axioms this(1), of 9] show ?thesis
    by (auto simp: newly_held_def sample_hold_def)
qed

text \<open>
  C27: A Retry moves its Journey to the end of its queue, at a new place, with what was kept
  beside it, neither failed nor waiting for a time; where the queue does not hold it, nothing.
\<close>

theorem to_the_end_moves:
  assumes "codec_laws c" and "hold_inv c L q" and "next_place c L q \<noteq> - 1"
  shows "\<exists>L'. eval L (to_the_end c q j) = Inr ((), L') \<and> hold_inv c L' q \<and>
    waiting c L' q = moved_to_the_end (next_place c L q) j (waiting c L q) \<and> only_queue hold_kinds q L L'"
  using codec_laws.eval_to_the_end [OF assms] .

theorem to_the_end_moves_witness:
  "\<exists>L L'. waiting plain_codec L 7 = [newly_held 0 (sample_hold 9), newly_held 1 (sample_hold 11)] \<and>
    eval L (to_the_end plain_codec 7 9) = Inr ((), L') \<and>
    waiting plain_codec L' 7 = [newly_held 1 (sample_hold 11), newly_held 2 (sample_hold 9)]"
proof -
  obtain L where "hold_inv plain_codec L 7" "next_place plain_codec L 7 = 2"
    "waiting plain_codec L 7 = [newly_held 0 (sample_hold 9), newly_held 1 (sample_hold 11)]"
    using two_held by blast
  with to_the_end_moves [OF plain.codec_laws_axioms this(1), of 9] show ?thesis
    by (auto simp: newly_held_def sample_hold_def moved_to_the_end_def)
qed

text \<open>
  A Message left waiting for a retry keeps its place, its due time set, and every other as
  it was.
\<close>

theorem wait_sets_due:
  assumes "codec_laws c" and "hold_inv c L q"
  shows "\<exists>L'. eval L (wait c (q, j) due) = Inr ((), L') \<and> hold_inv c L' q \<and>
    waiting c L' q = map (\<lambda>h. if ho_journey (he_hold h) = j then h\<lparr>he_due_unix_nanos := Some due\<rparr> else h)
      (waiting c L q) \<and> only_queue hold_kinds q L L'"
  using codec_laws.eval_wait [OF assms] .

theorem wait_sets_due_witness:
  "\<exists>L L'. waiting plain_codec L 7 = [newly_held 0 (sample_hold 9), newly_held 1 (sample_hold 11)] \<and>
    eval L (wait plain_codec (7, 11) 500) = Inr ((), L') \<and>
    waiting plain_codec L' 7 = [newly_held 0 (sample_hold 9),
      (newly_held 1 (sample_hold 11))\<lparr>he_due_unix_nanos := Some 500\<rparr>]"
proof -
  obtain L where "hold_inv plain_codec L 7"
    "waiting plain_codec L 7 = [newly_held 0 (sample_hold 9), newly_held 1 (sample_hold 11)]"
    using two_held by blast
  with wait_sets_due [OF plain.codec_laws_axioms this(1), of 11 500] show ?thesis
    by (auto simp: newly_held_def sample_hold_def)
qed

text \<open>
  A Message's wait as a read finds it: none where it is due, and otherwise the time left,
  from one clock; a due time in the index is never the zero that means due since it was held.
\<close>

theorem due_in_is_left:
  assumes "he_due_unix_nanos h = Some due"
    and "- (2 ^ 127) \<le> sint due - sint at" and "sint due - sint at < 2 ^ 127"
  shows "due_in h at = (if 0 < sint due - sint at \<and> sint due - sint at < 2 ^ 64
      then Some (word_of_int (sint due - sint at)) else None) \<and> 0 < due_at h"
proof -
  have "sint (due - at) = signed_take_bit 127 (sint due - sint at)" by (simp add: sint_word_diff)
  also have "\<dots> = sint due - sint at" using assms(2,3) by (intro signed_take_bit_int_eq_self) simp_all
  finally have left: "sint (due - at) = sint due - sint at" .
  have "(0 :: u64) < max 1 x" for x by (simp add: less_max_iff_disj)
  then show ?thesis unfolding due_in_def due_at_def assms(1) option.case Let_def left by simp
qed

theorem due_in_is_left_witness:
  "due_in ((newly_held 0 (sample_hold 9))\<lparr>he_due_unix_nanos := Some 500\<rparr>) 200 = Some 300"
  using due_in_is_left [of "(newly_held 0 (sample_hold 9))\<lparr>he_due_unix_nanos := Some 500\<rparr>" 500 200] by simp

end
