(* ===== verification/Failed.thy ===== *)
theory Failed
  imports Hold
begin

text \<open>
  The Messages that failed waiting in a queue, indexed beside it
  (\<open>src/.src/storage/failed.rs\<close>): a hand-on that leaves its Message Failed enters it at the end
  of the queue's index of failed Messages and marks its place in the queue; an operator's act
  clears both. The index and the marks are shown never to disagree.
\<close>

section \<open>A failure, and a Message that failed\<close>

record failure =
  fu_queue :: u128
  fu_reason :: string

definition w_failure :: "codec \<Rightarrow> failure \<Rightarrow> bytes" where
  "w_failure c x =
     w_u128 c (fu_queue x) @
     w_text c (fu_reason x)"

definition r_failure :: "codec \<Rightarrow> failure reader" where
  "r_failure c =
     andr (r_u128 c) (\<lambda>queue.
     andr (r_text c) (\<lambda>reason.
     ret \<lparr>fu_queue = queue, fu_reason = reason\<rparr>))"

definition fit_failure :: "codec \<Rightarrow> failure \<Rightarrow> bool" where
  "fit_failure c x \<longleftrightarrow> length (fu_reason x) \<le> most c"

sublocale codec_laws \<subseteq> failure: form "w_failure c" "r_failure c" "fit_failure c"
proof
  show "r_failure c (w_failure c x @ rest) = Inr (x, rest)" if "fit_failure c x" for x rest
    using that by (cases x) (simp add: r_failure_def w_failure_def fit_failure_def)
  show "fit_failure c x" if "r_failure c bs = Inr (x, rest)" for bs x rest
    using that by (auto simp: r_failure_def andr_eq_Inr fit_failure_def intro: form_wf)
qed

record failed =
  fa_queue :: u128
  fa_sequence :: u64
  fa_journey :: u128
  fa_place :: u64
  fa_reason :: string
  fa_failed_unix_nanos :: i128

definition w_failed :: "codec \<Rightarrow> failed \<Rightarrow> bytes" where
  "w_failed c x =
     w_u128 c (fa_queue x) @
     w_u64 c (fa_sequence x) @
     w_u128 c (fa_journey x) @
     w_u64 c (fa_place x) @
     w_text c (fa_reason x) @
     w_i128 c (fa_failed_unix_nanos x)"

definition r_failed :: "codec \<Rightarrow> failed reader" where
  "r_failed c =
     andr (r_u128 c) (\<lambda>queue.
     andr (r_u64 c) (\<lambda>sequence.
     andr (r_u128 c) (\<lambda>journey.
     andr (r_u64 c) (\<lambda>place.
     andr (r_text c) (\<lambda>reason.
     andr (r_i128 c) (\<lambda>failed_unix_nanos.
     ret \<lparr>fa_queue = queue, fa_sequence = sequence, fa_journey = journey, fa_place = place, fa_reason = reason, fa_failed_unix_nanos = failed_unix_nanos\<rparr>))))))"

definition fit_failed :: "codec \<Rightarrow> failed \<Rightarrow> bool" where
  "fit_failed c x \<longleftrightarrow> length (fa_reason x) \<le> most c"

sublocale codec_laws \<subseteq> failed: form "w_failed c" "r_failed c" "fit_failed c"
proof
  show "r_failed c (w_failed c x @ rest) = Inr (x, rest)" if "fit_failed c x" for x rest
    using that by (cases x) (simp add: r_failed_def w_failed_def fit_failed_def)
  show "fit_failed c x" if "r_failed c bs = Inr (x, rest)" for bs x rest
    using that by (auto simp: r_failed_def andr_eq_Inr fit_failed_def intro: form_wf)
qed

sublocale codec_laws \<subseteq> failed_list: form "w_list c (w_failed c)" "r_list c (r_failed c)" "fit_list c (fit_failed c)"
  by (rule list_form) (rule failed.form_axioms)

record failed_queue =
  fq_first :: u64
  fq_next :: u64
  fq_count :: u64
  fq_failed :: "failed list"

definition w_failed_queue :: "codec \<Rightarrow> failed_queue \<Rightarrow> bytes" where
  "w_failed_queue c x =
     w_u64 c (fq_first x) @
     w_u64 c (fq_next x) @
     w_u64 c (fq_count x) @
     w_list c (w_failed c) (fq_failed x)"

definition r_failed_queue :: "codec \<Rightarrow> failed_queue reader" where
  "r_failed_queue c =
     andr (r_u64 c) (\<lambda>first.
     andr (r_u64 c) (\<lambda>next'.
     andr (r_u64 c) (\<lambda>count.
     andr (r_list c (r_failed c)) (\<lambda>failed.
     ret \<lparr>fq_first = first, fq_next = next', fq_count = count, fq_failed = failed\<rparr>))))"

definition fit_failed_queue :: "codec \<Rightarrow> failed_queue \<Rightarrow> bool" where
  "fit_failed_queue c x \<longleftrightarrow> fit_list c (fit_failed c) (fq_failed x)"

sublocale codec_laws \<subseteq> failed_queue: form "w_failed_queue c" "r_failed_queue c" "fit_failed_queue c"
proof
  show "r_failed_queue c (w_failed_queue c x @ rest) = Inr (x, rest)" if "fit_failed_queue c x" for x rest
    using that by (cases x) (simp add: r_failed_queue_def w_failed_queue_def fit_failed_queue_def failed_list.read_write)
  show "fit_failed_queue c x" if "r_failed_queue c bs = Inr (x, rest)" for bs x rest
    using that by (auto simp: r_failed_queue_def andr_eq_Inr fit_failed_queue_def intro: form_wf failed_list.read_fit)
qed

section \<open>Entered and cleared\<close>

definition failed_kinds :: kinds where
  "failed_kinds = \<lparr>k_entry = ''failed-message'', k_by = ''failed-message-by-journey'',
     k_places = ''failed-message-places'', k_table = ''failed_message'', k_index = ''failed_message_place''\<rparr>"

definition enter :: "codec \<Rightarrow> u128 \<Rightarrow> failure \<Rightarrow> i128 \<Rightarrow> unit prog" where
  "enter c journey failure now = (let about = (fu_queue failure, journey) in
     bindp (placed hold_kinds about) (\<lambda>p. case p of
       At at \<Rightarrow> bindp (mark c (fu_queue failure) at True) (\<lambda>_.
         bindp (place c failed_kinds about (\<lambda>sequence.
             w_failed c \<lparr>fa_queue = fu_queue failure, fa_sequence = sequence, fa_journey = journey,
               fa_place = at, fa_reason = fu_reason failure, fa_failed_unix_nanos = now\<rparr>))
           (\<lambda>_. Ret ()))
     | _ \<Rightarrow> Ret ()))"

definition clear :: "codec \<Rightarrow> u128 \<Rightarrow> u128 \<Rightarrow> unit prog" where
  "clear c queue journey = (let about = (queue, journey) in
     bindp (bindp (placed failed_kinds about) (\<lambda>p. case p of
         At sequence \<Rightarrow> bindp (take_out c failed_kinds queue sequence) (\<lambda>_. forget failed_kinds about)
       | _ \<Rightarrow> Ret ()))
     (\<lambda>_. bindp (placed hold_kinds about) (\<lambda>p. case p of
         At at \<Rightarrow> mark c queue at False
       | _ \<Rightarrow> Ret ())))"

section \<open>The index and the marks\<close>

text \<open>
  The failed Messages of a queue, in the order they failed; well formed where none is remembered
  as taken out. The index agrees with the queue where it has exactly the Messages the queue has
  marked failed, each with its place there.
\<close>

definition failed_list :: "codec \<Rightarrow> ledger \<Rightarrow> u128 \<Rightarrow> failed list" where
  "failed_list c L q = records_of c failed_kinds (r_failed c) L q"

definition failed_inv :: "codec \<Rightarrow> ledger \<Rightarrow> u128 \<Rightarrow> bool" where
  "failed_inv c L q \<longleftrightarrow> queue_inv c failed_kinds (typed_about c (r_failed c) fa_journey) L q \<and>
     (\<forall>j. index_of failed_kinds L q j \<noteq> Some [])"

definition marked_failed :: "held list \<Rightarrow> (u128 \<times> u64) set" where
  "marked_failed hs = {(ho_journey (he_hold h), he_sequence h) | h. h \<in> set hs \<and> he_failed h}"

definition entered :: "failed list \<Rightarrow> (u128 \<times> u64) set" where
  "entered fs = {(fa_journey f, fa_place f) | f. f \<in> set fs}"

definition failed_agrees :: "codec \<Rightarrow> ledger \<Rightarrow> u128 \<Rightarrow> bool" where
  "failed_agrees c L q \<longleftrightarrow> hold_inv c L q \<and> failed_inv c L q \<and>
     entered (failed_list c L q) = marked_failed (waiting c L q)"

sublocale codec_laws \<subseteq> failed_queue_of: typed_queue c failed_kinds "w_failed c" "r_failed c" "fit_failed c" fa_journey
  by unfold_locales (simp_all add: failed_kinds_def failed.read_write failed.read_fit)

text \<open>A write of one queue kind leaves the other's queues as they were.\<close>

lemma only_queue_other_kinds:
  assumes "only_queue K q L L'" and "{k_entry K', k_by K', k_places K'} \<inter> {k_entry K, k_by K, k_places K} = {}"
  shows "same_queue K' L L' q'"
  using assms by (auto simp: only_queue_def same_queue_def entries_of_def index_of_def fun_eq_iff)

lemma failed_inv_other:
  assumes "same_queue failed_kinds L L' q"
  shows "failed_inv c L' q = failed_inv c L q" and "failed_list c L' q = failed_list c L q"
  using same_queue_inv [OF assms] same_queue_list [OF assms] assms
  by (simp_all add: failed_inv_def failed_list_def records_of_def same_queue_def)

lemma hold_failed_apart [simp]:
  "{k_entry failed_kinds, k_by failed_kinds, k_places failed_kinds} \<inter>
   {k_entry hold_kinds, k_by hold_kinds, k_places hold_kinds} = {}"
  "{k_entry hold_kinds, k_by hold_kinds, k_places hold_kinds} \<inter>
   {k_entry failed_kinds, k_by failed_kinds, k_places failed_kinds} = {}"
  by (auto simp: failed_kinds_def hold_kinds_def)

lemmas after_hold = failed_inv_other [OF only_queue_other_kinds [OF _ hold_failed_apart(1)]]
lemmas after_failed = hold_inv_same [OF only_queue_other_kinds [OF _ hold_failed_apart(2)]]

definition only_failed :: "u128 \<Rightarrow> ledger \<Rightarrow> ledger \<Rightarrow> bool" where
  "only_failed q L L' \<longleftrightarrow> (\<forall>q'. q' \<noteq> q \<longrightarrow> same_queue hold_kinds L L' q' \<and> same_queue failed_kinds L L' q') \<and>
     (\<forall>k. k \<notin> {k_entry hold_kinds, k_by hold_kinds, k_places hold_kinds,
        k_entry failed_kinds, k_by failed_kinds, k_places failed_kinds} \<longrightarrow> L' k = L k)"

lemma only_failed_intros:
  "only_queue hold_kinds q L L' \<Longrightarrow> only_failed q L L'"
  "only_queue failed_kinds q L L' \<Longrightarrow> only_failed q L L'"
  using only_queue_other_kinds [OF _ hold_failed_apart(1), of q L L']
    only_queue_other_kinds [OF _ hold_failed_apart(2), of q L L']
  by (auto simp: only_failed_def only_queue_def)

lemma only_failed_trans: "only_failed q L L' \<Longrightarrow> only_failed q L' L'' \<Longrightarrow> only_failed q L L''"
  unfolding only_failed_def by (metis same_queue_trans)

lemma marked_parts [simp]: "he_hold (marked f h) = he_hold h" "he_sequence (marked f h) = he_sequence h"
  "he_failed (marked f h) = f"
  by (auto simp: marked_def)

lemma in_marked_failed:
  "(j, p) \<in> marked_failed hs \<longleftrightarrow> (\<exists>h \<in> set hs. he_failed h \<and> ho_journey (he_hold h) = j \<and> he_sequence h = p)"
  by (auto simp: marked_failed_def)

lemma in_entered: "(j, p) \<in> entered fs \<longleftrightarrow> (\<exists>f \<in> set fs. fa_journey f = j \<and> fa_place f = p)"
  by (auto simp: entered_def)

lemma marked_failed_cleared:
  "(j', p) \<in> marked_failed (map (\<lambda>h. if ho_journey (he_hold h) = j then marked False h else h) hs) \<longleftrightarrow>
    (j', p) \<in> marked_failed hs \<and> j' \<noteq> j"
  by (simp add: in_marked_failed) (auto split: if_splits)

lemma entered_cleared:
  "(j', p) \<in> entered (filter (\<lambda>f. fa_journey f \<noteq> j) fs) \<longleftrightarrow> (j', p) \<in> entered fs \<and> j' \<noteq> j"
  by (auto simp: in_entered)

lemma marked_failed_entered:
  assumes "h \<in> set hs" and "ho_journey (he_hold h) = j"
    and "\<And>h'. h' \<in> set hs \<Longrightarrow> ho_journey (he_hold h') = j \<Longrightarrow> h' = h"
  shows "(j', p) \<in> marked_failed (map (\<lambda>h. if ho_journey (he_hold h) = j then marked True h else h) hs) \<longleftrightarrow>
    (j', p) \<in> marked_failed hs \<or> j' = j \<and> p = he_sequence h"
proof (cases "j' = j")
  case True
  let ?hs = "map (\<lambda>h. if ho_journey (he_hold h) = j then marked True h else h) hs"
  have "marked True h \<in> set ?hs" using assms(1,2) by force
  then have "(j, he_sequence h) \<in> marked_failed ?hs"
    unfolding in_marked_failed by (rule bexI [rotated]) (simp add: assms(2))
  moreover have "p = he_sequence h" if "(j, p) \<in> marked_failed ?hs"
  proof -
    from that obtain x where x: "x \<in> set ?hs" "ho_journey (he_hold x) = j" "he_sequence x = p"
      unfolding in_marked_failed by blast
    then obtain h' where h': "h' \<in> set hs" "x = (if ho_journey (he_hold h') = j then marked True h' else h')"
      unfolding set_map by blast
    then have "ho_journey (he_hold h') = j" "he_sequence h' = p" using x(2,3) by (cases "ho_journey (he_hold h') = j"; simp)+
    with assms(3) h'(1) show ?thesis by blast
  qed
  moreover have "p = he_sequence h" if "(j, p) \<in> marked_failed hs"
    using that assms(3) unfolding in_marked_failed by blast
  ultimately show ?thesis using True by blast
next
  case False
  then show ?thesis by (simp add: in_marked_failed) (auto split: if_splits)
qed

context codec_laws
begin

lemma mark_at_journey:
  assumes inv: "hold_inv c L q" and "entries_of hold_kinds L q s = Some v"
    and "ho_journey (he_hold (held_at c v)) = j"
  shows "\<exists>L'. eval L (mark c q s f) = Inr ((), L') \<and> hold_inv c L' q \<and>
    waiting c L' q = map (\<lambda>h. if ho_journey (he_hold h) = j then marked f h else h) (waiting c L q) \<and>
    only_queue hold_kinds q L L'"
proof -
  have "map (\<lambda>h. if he_sequence h = s then marked f h else h) (waiting c L q) =
      map (\<lambda>h. if ho_journey (he_hold h) = j then marked f h else h) (waiting c L q)"
    using same_place_same_held [OF inv assms(2)] assms(3) by (intro map_cong) auto
  then show ?thesis using eval_mark [OF inv, of s f] by (simp only:)
qed

lemma eval_clear_index:
  assumes "failed_inv c L q"
  shows "\<exists>L'. eval L (bindp (placed failed_kinds (q, j)) (\<lambda>p. case p of
         At sequence \<Rightarrow> bindp (take_out c failed_kinds q sequence) (\<lambda>_. forget failed_kinds (q, j))
       | _ \<Rightarrow> Ret ())) = Inr ((), L') \<and> failed_inv c L' q \<and>
    failed_list c L' q = filter (\<lambda>f. fa_journey f \<noteq> j) (failed_list c L q) \<and> only_queue failed_kinds q L L'"
proof -
  have inv: "queue_inv c failed_kinds (typed_about c (r_failed c) fa_journey) L q"
    and none: "index_of failed_kinds L q j' \<noteq> Some []" for j'
    using assms by (simp_all add: failed_inv_def)
  from inv show ?thesis
  proof (cases rule: failed_queue_of.index_cases [where a = j])
    case away
    then have "filter (\<lambda>f. fa_journey f \<noteq> j) (failed_list c L q) = failed_list c L q"
      by (simp add: failed_list_def)
    moreover have "index_of failed_kinds L q j = None" using away(1) none by blast
    ultimately show ?thesis using failed_queue_of.eval_placed [OF inv, of j] assms by auto
  next
    case (here s v)
    note r = failed_queue_of.removed_record [OF inv here(2,4) disjI1 [OF refl]]
    show ?thesis
      using here(3) failed_queue_of.eval_take_out [OF inv here(2)] r none
      by (auto simp: forget_def failed_inv_def failed_list_def)
  qed
qed

text \<open>An operator's act: out of the index and no longer marked, every other as it was.\<close>

lemma eval_clear:
  assumes agrees: "failed_agrees c L q"
  shows "\<exists>L'. eval L (clear c q j) = Inr ((), L') \<and> failed_agrees c L' q \<and>
    failed_list c L' q = filter (\<lambda>f. fa_journey f \<noteq> j) (failed_list c L q) \<and>
    waiting c L' q = map (\<lambda>h. if ho_journey (he_hold h) = j then marked False h else h) (waiting c L q) \<and>
    only_failed q L L'"
proof -
  obtain L1 where L1: "eval L (bindp (placed failed_kinds (q, j)) (\<lambda>p. case p of
         At sequence \<Rightarrow> bindp (take_out c failed_kinds q sequence) (\<lambda>_. forget failed_kinds (q, j))
       | _ \<Rightarrow> Ret ())) = Inr ((), L1)" "failed_inv c L1 q"
    "failed_list c L1 q = filter (\<lambda>f. fa_journey f \<noteq> j) (failed_list c L q)" "only_queue failed_kinds q L L1"
    using eval_clear_index [of L q j] agrees by (auto simp: failed_agrees_def)
  have hold1: "hold_inv c L1 q" "waiting c L1 q = waiting c L q"
    using after_failed [OF L1(4)] agrees by (simp_all add: failed_agrees_def)
  have step: "eval L (clear c q j) = eval L1 (bindp (placed hold_kinds (q, j)) (\<lambda>p. case p of
      At at \<Rightarrow> mark c q at False | _ \<Rightarrow> Ret ()))"
    unfolding clear_def Let_def using L1(1) by (subst eval_bindp_Inr) auto
  obtain L' where L': "eval L (clear c q j) = Inr ((), L')" "hold_inv c L' q"
    "waiting c L' q = map (\<lambda>h. if ho_journey (he_hold h) = j then marked False h else h) (waiting c L q)"
    "only_queue hold_kinds q L1 L'"
    using hold1(1)
  proof (cases rule: held_index_cases [where j = j])
    case away
    then have "map (\<lambda>h. if ho_journey (he_hold h) = j then marked False h else h) (waiting c L q) = waiting c L q"
      by (intro map_idI) (auto simp: held_here_def hold1(2))
    then show ?thesis using that [of L1] away(3) step hold1 by simp
  next
    case (here s v)
    then show ?thesis using that step hold1(2) mark_at_journey [OF hold1(1) here(2,6), of False] by auto
  qed
  have failed: "failed_inv c L' q" "failed_list c L' q = filter (\<lambda>f. fa_journey f \<noteq> j) (failed_list c L q)"
    using after_hold [OF L'(4)] L1(2,3) by simp_all
  moreover have "failed_agrees c L' q"
    using agrees L'(2,3) failed
    by (simp add: failed_agrees_def set_eq_iff split_paired_all entered_cleared marked_failed_cleared)
  moreover have "only_failed q L L'"
    using only_failed_trans only_failed_intros L1(4) L'(4) by blast
  ultimately show ?thesis using L' by blast
qed

text \<open>A Message left Failed: entered at the end of the index, once, and its place marked.\<close>

lemma eval_enter:
  assumes agrees: "failed_agrees c L (fu_queue fu)" and fit: "length (fu_reason fu) \<le> most c"
    and room: "pl_next (places_of c failed_kinds L (fu_queue fu)) \<noteq> - 1"
  shows "\<exists>L'. eval L (enter c j fu now) = Inr ((), L') \<and> failed_agrees c L' (fu_queue fu) \<and>
    waiting c L' (fu_queue fu) =
      map (\<lambda>h. if ho_journey (he_hold h) = j then marked True h else h) (waiting c L (fu_queue fu)) \<and>
    failed_list c L' (fu_queue fu) = (case find (\<lambda>h. ho_journey (he_hold h) = j) (waiting c L (fu_queue fu)) of
        None \<Rightarrow> failed_list c L (fu_queue fu)
      | Some h \<Rightarrow> if he_failed h then failed_list c L (fu_queue fu) else failed_list c L (fu_queue fu) @
          [\<lparr>fa_queue = fu_queue fu, fa_sequence = pl_next (places_of c failed_kinds L (fu_queue fu)),
            fa_journey = j, fa_place = he_sequence h, fa_reason = fu_reason fu, fa_failed_unix_nanos = now\<rparr>]) \<and>
    only_failed (fu_queue fu) L L'"
proof -
  let ?q = "fu_queue fu"
  have hold: "hold_inv c L ?q" and failed: "failed_inv c L ?q"
    and same: "entered (failed_list c L ?q) = marked_failed (waiting c L ?q)"
    using agrees by (simp_all add: failed_agrees_def)
  from hold show ?thesis
  proof (cases rule: held_index_cases [where j = j])
    case away
    then have "find (\<lambda>h. ho_journey (he_hold h) = j) (waiting c L ?q) = None"
      by (auto simp: find_None_iff held_here_def)
    moreover have "map (\<lambda>h. if ho_journey (he_hold h) = j then marked True h else h) (waiting c L ?q) = waiting c L ?q"
      using away(2) by (intro map_idI) (auto simp: held_here_def)
    moreover have "eval L (enter c j fu now) = Inr ((), L)" using away(3) by (simp add: enter_def Let_def)
    ultimately show ?thesis using agrees only_failed_intros(1) [of ?q L L] by simp
  next
    case (here s v)
    note held = here
    let ?h = "held_at c v"
    obtain L1 where L1: "eval L (mark c ?q s True) = Inr ((), L1)" "hold_inv c L1 ?q"
      "waiting c L1 ?q = map (\<lambda>h. if ho_journey (he_hold h) = j then marked True h else h) (waiting c L ?q)"
      "only_queue hold_kinds ?q L L1"
      using mark_at_journey [OF hold here(2,6), of True] by blast
    have marks: "(j', p) \<in> marked_failed (waiting c L1 ?q) \<longleftrightarrow>
        (j', p) \<in> marked_failed (waiting c L ?q) \<or> j' = j \<and> p = s" for j' p
      unfolding L1(3) using marked_failed_entered [OF here(9,6)] one_per_journey [OF hold _ here(9)] here(6,7) by simp
    have found: "find (\<lambda>h. ho_journey (he_hold h) = j) (waiting c L ?q) = Some ?h"
      using find_held [OF hold here(9)] here(6) by simp
    have step: "eval L (enter c j fu now) = bindr (eval L1 (place c failed_kinds (?q, j) (\<lambda>n.
        w_failed c \<lparr>fa_queue = ?q, fa_sequence = n, fa_journey = j, fa_place = s,
          fa_reason = fu_reason fu, fa_failed_unix_nanos = now\<rparr>))) (\<lambda>(x, L'). Inr ((), L'))"
      using here(1) L1(1) by (simp add: enter_def Let_def)
    have failed1: "failed_inv c L1 ?q" "failed_list c L1 ?q = failed_list c L ?q"
      using after_hold [OF L1(4)] failed by simp_all
    have inv1: "queue_inv c failed_kinds (typed_about c (r_failed c) fa_journey) L1 ?q"
      and none1: "index_of failed_kinds L1 ?q j' \<noteq> Some []" for j'
      using failed1(1) by (simp_all add: failed_inv_def)
    have next1: "places_of c failed_kinds L1 ?q = places_of c failed_kinds L ?q"
      using only_queue_other_kinds [OF L1(4) hold_failed_apart(1), of ?q]
      by (simp add: same_queue_def places_of_def)
    from inv1 show ?thesis
    proof (cases rule: failed_queue_of.index_cases [where a = j])
      case away
      have fresh: "index_of failed_kinds L1 ?q j = None" using away(1) none1 by blast
      have "(j, s) \<notin> marked_failed (waiting c L ?q)"
        using away(2) failed1(2) unfolding same [symmetric] in_entered by (simp add: failed_list_def)
      then have new: "\<not> he_failed ?h" using here(6,7,9) unfolding in_marked_failed by blast
      let ?f = "\<lparr>fa_queue = ?q, fa_sequence = pl_next (places_of c failed_kinds L1 ?q), fa_journey = j,
        fa_place = s, fa_reason = fu_reason fu, fa_failed_unix_nanos = now\<rparr>"
      obtain L' where L': "eval L (enter c j fu now) = Inr ((), L')" "failed_inv c L' ?q"
        "failed_list c L' ?q = failed_list c L ?q @ [?f]" "only_queue failed_kinds ?q L1 L'"
        using failed_queue_of.eval_place_record [OF inv1 fresh, of "\<lambda>n. \<lparr>fa_queue = ?q, fa_sequence = n,
            fa_journey = j, fa_place = s, fa_reason = fu_reason fu, fa_failed_unix_nanos = now\<rparr>"]
          fit room next1 none1 step failed1(2)
        by (auto simp: fit_failed_def failed_inv_def failed_list_def)
      have hold': "hold_inv c L' ?q" "waiting c L' ?q = waiting c L1 ?q"
        using after_failed [OF L'(4)] L1(2) by simp_all
      have "entered (failed_list c L' ?q) = marked_failed (waiting c L' ?q)"
        unfolding hold'(2) set_eq_iff split_paired_All marks same [symmetric] L'(3)
        by (auto simp: in_entered)
      then have "failed_agrees c L' ?q" using L'(2) hold'(1) by (simp add: failed_agrees_def)
      moreover have "only_failed ?q L L'" using only_failed_trans only_failed_intros L1(4) L'(4) by blast
      ultimately show ?thesis using L'(1,3) hold'(2) L1(3) found new here(7) next1 by auto
    next
      case (here s' v')
      then have step: "eval L (enter c j fu now) = Inr ((), L1)"
        using step failed_queue_of.eval_place_again [of L1 ?q j] by simp
      have "(j, fa_place (value_at c (r_failed c) v')) \<in> entered (failed_list c L1 ?q)"
        using failed_queue_of.decoded(4) [OF inv1 here(2)] here(4) unfolding in_entered failed_list_def by blast
      then obtain h where h: "h \<in> set (waiting c L ?q)" "he_failed h" "ho_journey (he_hold h) = j"
        unfolding failed1(2) same in_marked_failed by blast
      then have "h = ?h" using one_per_journey [OF hold h(1) held(9)] held(6) by simp
      with h have already: "he_failed ?h" "(j, s) \<in> marked_failed (waiting c L ?q)"
        using held(6,7,9) unfolding in_marked_failed by blast+
      then have "entered (failed_list c L1 ?q) = marked_failed (waiting c L1 ?q)"
        unfolding failed1(2) same set_eq_iff split_paired_All marks by blast
      then have "failed_agrees c L1 ?q" using L1(2) failed1(1) by (simp add: failed_agrees_def)
      then show ?thesis using step L1(3,4) failed1(2) found already(1) only_failed_intros(1) by auto
    qed
  qed
qed

end

section \<open>Properties\<close>

lemma two_held_none_failed:
  "\<exists>L. hold_inv plain_codec L 7 \<and> failed_agrees plain_codec L 7 \<and> failed_list plain_codec L 7 = [] \<and>
    places_of plain_codec failed_kinds L 7 = default_places \<and>
    waiting plain_codec L 7 = [newly_held 0 (sample_hold 9), newly_held 1 (sample_hold 11)]"
proof -
  obtain L where L: "eval empty_ledger (bindp (keep plain_codec (sample_hold 9)) (\<lambda>_. keep plain_codec (sample_hold 11))) = Inr ((), L)"
    "hold_inv plain_codec L 7"
    "waiting plain_codec L 7 = [newly_held 0 (sample_hold 9), newly_held 1 (sample_hold 11)]"
    using two_held by blast
  have "writes (kinds_of hold_kinds) (bindp (keep plain_codec (sample_hold 9)) (\<lambda>_. keep plain_codec (sample_hold 11)))"
    by auto
  from writes_eval [OF this L(1)] have "L k = empty_ledger k" if "k \<in> kinds_of failed_kinds" for k
    using that hold_failed_apart(1) unfolding kinds_of_def by blast
  then have same: "same_queue failed_kinds empty_ledger L 7"
    by (rule same_kinds_same_queue)
  have "failed_inv plain_codec empty_ledger 7" "failed_list plain_codec empty_ledger 7 = []"
    by (simp_all add: failed_inv_def failed_list_def records_of_def)
  then have "failed_inv plain_codec L 7" "failed_list plain_codec L 7 = []"
    using failed_inv_other [OF same, of plain_codec] by simp_all
  moreover have "places_of plain_codec failed_kinds L 7 = default_places"
    using same empty_queue(3) [of plain_codec failed_kinds 7] by (simp add: same_queue_def places_of_def)
  moreover have "marked_failed (waiting plain_codec L 7) = {}"
    unfolding L(3) by (auto simp: marked_failed_def newly_held_def)
  ultimately show ?thesis
    using L(2,3) by (intro exI [of _ L]) (simp add: failed_agrees_def entered_def)
qed

text \<open>
  C29: A hand-on that leaves its Message Failed marks it in its queue and enters it at the end of
  the queue's index of failed Messages, once, and the index and the marks agree after it.
\<close>

theorem enter_agrees:
  assumes "codec_laws c" and "failed_agrees c L (fu_queue fu)" and "length (fu_reason fu) \<le> most c"
    and "pl_next (places_of c failed_kinds L (fu_queue fu)) \<noteq> - 1"
  shows "\<exists>L'. eval L (enter c j fu now) = Inr ((), L') \<and> failed_agrees c L' (fu_queue fu) \<and>
    waiting c L' (fu_queue fu) =
      map (\<lambda>h. if ho_journey (he_hold h) = j then marked True h else h) (waiting c L (fu_queue fu)) \<and>
    failed_list c L' (fu_queue fu) = (case find (\<lambda>h. ho_journey (he_hold h) = j) (waiting c L (fu_queue fu)) of
        None \<Rightarrow> failed_list c L (fu_queue fu)
      | Some h \<Rightarrow> if he_failed h then failed_list c L (fu_queue fu) else failed_list c L (fu_queue fu) @
          [\<lparr>fa_queue = fu_queue fu, fa_sequence = pl_next (places_of c failed_kinds L (fu_queue fu)),
            fa_journey = j, fa_place = he_sequence h, fa_reason = fu_reason fu, fa_failed_unix_nanos = now\<rparr>])"
  using codec_laws.eval_enter [OF assms] by blast

definition sample_failure :: failure where
  "sample_failure = \<lparr>fu_queue = 7, fu_reason = ''refused''\<rparr>"

definition sample_failed :: failed where
  "sample_failed = \<lparr>fa_queue = 7, fa_sequence = 0, fa_journey = 9, fa_place = 0, fa_reason = ''refused'',
     fa_failed_unix_nanos = 100\<rparr>"

theorem enter_agrees_witness:
  "\<exists>L L'. waiting plain_codec L 7 = [newly_held 0 (sample_hold 9), newly_held 1 (sample_hold 11)] \<and>
    eval L (enter plain_codec 9 sample_failure 100) = Inr ((), L') \<and>
    failed_list plain_codec L' 7 = [sample_failed] \<and>
    waiting plain_codec L' 7 = [(newly_held 0 (sample_hold 9))\<lparr>he_failed := True\<rparr>, newly_held 1 (sample_hold 11)]"
proof -
  obtain L where L: "failed_agrees plain_codec L 7" "failed_list plain_codec L 7 = []"
    "places_of plain_codec failed_kinds L 7 = default_places"
    "waiting plain_codec L 7 = [newly_held 0 (sample_hold 9), newly_held 1 (sample_hold 11)]"
    using two_held_none_failed by blast
  have "length (fu_reason sample_failure) \<le> most plain_codec" by (simp add: sample_failure_def plain_codec_def)
  then show ?thesis
    using enter_agrees [OF plain.codec_laws_axioms, of L sample_failure 9 100] L
    by (auto simp: sample_failure_def sample_failed_def default_places_def newly_held_def sample_hold_def marked_def)
qed

text \<open>
  An operator's act takes its Message out of the index of failed Messages and its mark away,
  every other of both as it was, and the two agree after it.
\<close>

theorem clear_agrees:
  assumes "codec_laws c" and "failed_agrees c L q"
  shows "\<exists>L'. eval L (clear c q j) = Inr ((), L') \<and> failed_agrees c L' q \<and>
    failed_list c L' q = filter (\<lambda>f. fa_journey f \<noteq> j) (failed_list c L q) \<and>
    waiting c L' q = map (\<lambda>h. if ho_journey (he_hold h) = j then marked False h else h) (waiting c L q)"
  using codec_laws.eval_clear [OF assms] by blast

theorem clear_agrees_witness:
  "\<exists>L L'. failed_list plain_codec L 7 = [sample_failed] \<and>
    eval L (clear plain_codec 7 9) = Inr ((), L') \<and> failed_list plain_codec L' 7 = [] \<and>
    waiting plain_codec L' 7 = [newly_held 0 (sample_hold 9), newly_held 1 (sample_hold 11)]"
proof -
  obtain L where L: "failed_agrees plain_codec L 7" "failed_list plain_codec L 7 = []"
    "places_of plain_codec failed_kinds L 7 = default_places"
    "waiting plain_codec L 7 = [newly_held 0 (sample_hold 9), newly_held 1 (sample_hold 11)]"
    using two_held_none_failed by blast
  have "length (fu_reason sample_failure) \<le> most plain_codec" by (simp add: sample_failure_def plain_codec_def)
  then obtain L1 where "failed_agrees plain_codec L1 7" "failed_list plain_codec L1 7 = [sample_failed]"
    "waiting plain_codec L1 7 = [(newly_held 0 (sample_hold 9))\<lparr>he_failed := True\<rparr>, newly_held 1 (sample_hold 11)]"
    using plain.eval_enter [of L sample_failure 9 100] L
    by (auto simp: sample_failure_def sample_failed_def default_places_def newly_held_def sample_hold_def marked_def)
  with clear_agrees [OF plain.codec_laws_axioms this(1), of 9] show ?thesis
    by (auto simp: sample_failed_def newly_held_def sample_hold_def marked_def)
qed

end
