(* ===== verification/Origin.thy ===== *)
theory Origin
  imports Hold
begin

text \<open>
  A place held for many Messages at once, kept until the last of their Journeys closes
  (\<open>src/.src/storage/origin.rs\<close>): a holder's count of open Journeys and the queues it holds a
  place in, moved in the write that writes each Journey. The count is shown to be the number of
  open Journeys the ledger has for the holder, whatever is written, and the places let go with
  the last of them.
\<close>

section \<open>A holder's open Journeys, and its places\<close>

definition origin_kind :: kind where "origin_kind = ''sequence-origin''"
definition journey_kind :: kind where "journey_kind = ''journey''"

record origin =
  or_open :: u32
  or_queues :: "u128 list"

definition w_origin :: "codec \<Rightarrow> origin \<Rightarrow> bytes" where
  "w_origin c x =
     w_u32 c (or_open x) @
     w_many c (w_u128 c) (or_queues x)"

definition r_origin :: "codec \<Rightarrow> origin reader" where
  "r_origin c =
     andr (r_u32 c) (\<lambda>open'.
     andr (r_many c (r_u128 c)) (\<lambda>queues.
     ret \<lparr>or_open = open', or_queues = queues\<rparr>))"

definition fit_origin :: "codec \<Rightarrow> origin \<Rightarrow> bool" where
  "fit_origin c x \<longleftrightarrow> fit_many (\<lambda>x. True) (or_queues x)"

sublocale codec_laws \<subseteq> origin: form "w_origin c" "r_origin c" "fit_origin c"
proof
  show "r_origin c (w_origin c x @ rest) = Inr (x, rest)" if "fit_origin c x" for x rest
    using that by (cases x) (simp add: r_origin_def w_origin_def fit_origin_def)
  show "fit_origin c x" if "r_origin c bs = Inr (x, rest)" for bs x rest
    using that by (auto simp: r_origin_def andr_eq_Inr fit_origin_def intro: form_wf)
qed

definition holders :: "journey_record \<Rightarrow> (u128 option \<times> bool) list" where
  "holders r = [(jf_origin (jr_facts r), jf_open (jr_facts r)),
     (jf_group_delivery (jr_facts r), jf_group_open (jr_facts r))]"

definition take_places :: "u128 \<Rightarrow> hold list \<Rightarrow> u128 list \<Rightarrow> u128 list" where
  "take_places holder ps queues = foldl (\<lambda>qs place. if ho_queue place \<in> set qs then qs else qs @ [ho_queue place])
     queues (filter (\<lambda>place. ho_journey place = holder) ps)"

definition moved_count :: "bool option \<Rightarrow> u32 \<Rightarrow> u32" where
  "moved_count moved n = (case moved of
     Some True \<Rightarrow> n + 1
   | Some False \<Rightarrow> (if n = 0 then 0 else n - 1)
   | None \<Rightarrow> n)"

definition count :: "codec \<Rightarrow> u128 \<times> bool option \<Rightarrow> hold list \<Rightarrow> unit prog" where
  "count c hm ps = (let (holder, moved) = hm; key = be128 holder in
     Read origin_kind key (\<lambda>v.
       bindp (liftp (case v of Some bytes \<Rightarrow> from_bytes c (r_origin c) bytes
                     | None \<Rightarrow> Inr \<lparr>or_open = 0, or_queues = []\<rparr>)) (\<lambda>o'.
         let counted = \<lparr>or_open = moved_count moved (or_open o'), or_queues = take_places holder ps (or_queues o')\<rparr>
         in if or_open counted = 0
            then bindp (eachp (\<lambda>queue. let_go_of c queue holder) (or_queues counted)) (\<lambda>_.
              Put origin_kind key None (Ret ()))
            else Put origin_kind key (Some (w_origin c counted)) (Ret ()))))"

definition counted_one :: "codec \<Rightarrow> journey_record option \<Rightarrow> hold list \<Rightarrow> nat \<times> u128 option \<times> bool \<Rightarrow> unit prog" where
  "counted_one c prior ps aho = (let (at, holder, open') = aho in
     case holder of None \<Rightarrow> Ret ()
     | Some holder \<Rightarrow>
        let was = (case prior of None \<Rightarrow> False | Some r \<Rightarrow> holders r ! at = (Some holder, True));
            takes = list_ex (\<lambda>place. ho_journey place = holder) ps
        in if was \<noteq> open' \<or> takes
           then count c (holder, if was \<noteq> open' then Some open' else None) ps
           else Ret ())"

definition counted :: "codec \<Rightarrow> journey_record \<Rightarrow> hold list \<Rightarrow> unit prog" where
  "counted c record ps = Read journey_kind (be128 (jr_journey record)) (\<lambda>v.
     bindp (liftp (map_maybe (from_bytes c (r_journey_record c)) v)) (\<lambda>prior.
       eachp (counted_one c prior ps) (List.enumerate 0 (holders record))))"

text \<open>A Journey's record, as \<open>batch.record\<close> writes it.\<close>

definition put_journey :: "codec \<Rightarrow> journey_record \<Rightarrow> unit prog" where
  "put_journey c record = Put journey_kind (be128 (jr_journey record)) (Some (w_journey_record c record)) (Ret ())"

lemma origin_writes [intro]:
  "writes (insert origin_kind (kinds_of hold_kinds)) (counted c r ps)"
  "writes {journey_kind} (put_journey c r)"
proof -
  have "writes (insert origin_kind (kinds_of hold_kinds)) (let_go_of c q h)" for q h
    by (rule writes_mono [OF hold_writes(5)]) auto
  then have "writes (insert origin_kind (kinds_of hold_kinds)) (count c hm ps)" for hm
    by (auto simp: count_def Let_def split: prod.splits)
  then show "writes (insert origin_kind (kinds_of hold_kinds)) (counted c r ps)"
    by (auto simp: counted_def counted_one_def Let_def split: prod.splits option.splits)
qed (simp add: put_journey_def)

section \<open>The count is the number of open Journeys\<close>

definition journey_at :: "codec \<Rightarrow> ledger \<Rightarrow> u128 \<Rightarrow> journey_record option result" where
  "journey_at c L j = map_maybe (from_bytes c (r_journey_record c)) (L journey_kind (be128 j))"

definition origin_at :: "codec \<Rightarrow> ledger \<Rightarrow> u128 \<Rightarrow> origin result" where
  "origin_at c L h = (case L origin_kind (be128 h) of Some bytes \<Rightarrow> from_bytes c (r_origin c) bytes
     | None \<Rightarrow> Inr \<lparr>or_open = 0, or_queues = []\<rparr>)"

definition opens :: "journey_record \<Rightarrow> u128 \<Rightarrow> nat" where
  "opens r h = length (filter (\<lambda>ho. ho = (Some h, True)) (holders r))"

definition open_number :: "codec \<Rightarrow> ledger \<Rightarrow> u128 \<Rightarrow> nat" where
  "open_number c L h = (\<Sum>j \<in> UNIV. case journey_at c L j of Inr (Some r) \<Rightarrow> opens r h | _ \<Rightarrow> 0)"

definition origin_inv :: "codec \<Rightarrow> ledger \<Rightarrow> bool" where
  "origin_inv c L \<longleftrightarrow> (\<forall>h. \<exists>o'. origin_at c L h = Inr o' \<and> unat (or_open o') = open_number c L h)"

definition kept_count :: "codec \<Rightarrow> ledger \<Rightarrow> u128 \<Rightarrow> nat" where
  "kept_count c L h = (case origin_at c L h of Inr o' \<Rightarrow> unat (or_open o') | Inl e \<Rightarrow> 0)"

text \<open>Every holder's record can be read, and has room for the queues of \<open>n\<close> places more.\<close>

definition origins_well :: "codec \<Rightarrow> nat \<Rightarrow> ledger \<Rightarrow> bool" where
  "origins_well c n L \<longleftrightarrow> (\<forall>h. \<exists>o'. origin_at c L h = Inr o' \<and> length (or_queues o') + n < 2 ^ 32)"

text \<open>
  A Journey keeps the holders it is open for: an open one is written again with the same holder.
\<close>

definition keeps_holders :: "journey_record option \<Rightarrow> journey_record \<Rightarrow> bool" where
  "keeps_holders prior r \<longleftrightarrow> (case prior of None \<Rightarrow> True | Some p \<Rightarrow>
     (\<forall>at < 2. \<forall>h. holders p ! at = (Some h, True) \<longrightarrow> fst (holders r ! at) = Some h))"

definition holds_well :: "codec \<Rightarrow> ledger \<Rightarrow> bool" where
  "holds_well c L \<longleftrightarrow> (\<forall>q. hold_inv c L q)"

abbreviation hold_kind_set :: "kind set" where
  "hold_kind_set \<equiv> kinds_of hold_kinds"

lemma kinds_apart [simp]:
  "origin_kind \<notin> hold_kind_set" "journey_kind \<notin> hold_kind_set"
  "origin_kind \<noteq> journey_kind" "journey_kind \<noteq> origin_kind"
  by (simp_all add: origin_kind_def journey_kind_def kinds_of_def hold_kinds_def)

lemma holds_well_same:
  assumes "\<And>k. k \<in> hold_kind_set \<Longrightarrow> L' k = L k"
  shows "holds_well c L' = holds_well c L" and "waiting c L' q = waiting c L q"
proof -
  have "same_queue hold_kinds L L' q'" for q'
    using assms by (auto simp: kinds_of_def same_queue_def entries_of_def index_of_def fun_eq_iff)
  note same = hold_inv_same [OF this]
  show "holds_well c L' = holds_well c L" "waiting c L' q = waiting c L q"
    by (simp_all only: holds_well_def same)
qed

lemma moved_count_value:
  assumes "was \<Longrightarrow> 0 < unat n" and "unat n + 1 < 2 ^ 32"
  shows "unat (moved_count (if was \<noteq> open' then Some open' else None) n) + of_bool was =
    unat n + (of_bool open' :: nat)"
proof (cases "was = open'")
  case False
  show ?thesis
  proof (cases was)
    case True
    then have "n \<noteq> 0" using assms(1) by auto
    then have "unat (n - 1) = unat n - 1" "0 < unat n" by (simp_all add: unat_minus_one unat_gt_0)
    then show ?thesis using True False \<open>n \<noteq> 0\<close> by (simp add: moved_count_def)
  next
    case was: False
    then show ?thesis using False unat_Suc_u32 [OF assms(2)] by (simp add: moved_count_def)
  qed
qed (simp add: moved_count_def)

lemma length_take_places: "length (take_places h ps qs) \<le> length qs + length ps"
proof -
  have "length (foldl (\<lambda>qs place. if ho_queue place \<in> set qs then qs else qs @ [ho_queue place]) qs ps') \<le>
      length qs + length ps'" for ps' :: "hold list"
  proof (induction ps' arbitrary: qs)
    case (Cons a ps')
    show ?case using Cons.IH [of qs] Cons.IH [of "qs @ [ho_queue a]"] by auto
  qed simp
  from this [of "filter (\<lambda>place. ho_journey place = h) ps"] length_filter_le show ?thesis
    unfolding take_places_def by (metis (no_types, lifting) add_left_mono le_trans)
qed

context codec_laws
begin

lemma eval_let_go_all:
  assumes "holds_well c L"
  shows "\<exists>L'. eval L (eachp (\<lambda>q. let_go_of c q h) qs) = Inr ((), L') \<and> holds_well c L' \<and>
    (\<forall>q. waiting c L' q = (if q \<in> set qs then filter (\<lambda>x. ho_journey (he_hold x) \<noteq> h) (waiting c L q) else waiting c L q)) \<and>
    (\<forall>k. k \<notin> hold_kind_set \<longrightarrow> L' k = L k)"
  using assms
proof (induction qs arbitrary: L)
  case (Cons q qs)
  obtain L1 where L1: "eval L (let_go_of c q h) = Inr ((), L1)" "hold_inv c L1 q"
    "waiting c L1 q = filter (\<lambda>x. ho_journey (he_hold x) \<noteq> h) (waiting c L q)" "only_queue hold_kinds q L L1"
    using eval_let_go_of [of L q h] Cons.prems by (auto simp: holds_well_def)
  have "holds_well c L1"
    using Cons.prems L1(2) hold_inv_other(1) [OF L1(4)] unfolding holds_well_def by metis
  then obtain L' where L': "eval L1 (eachp (\<lambda>q. let_go_of c q h) qs) = Inr ((), L')" "holds_well c L'"
    "\<And>q. waiting c L' q = (if q \<in> set qs then filter (\<lambda>x. ho_journey (he_hold x) \<noteq> h) (waiting c L1 q) else waiting c L1 q)"
    "\<And>k. k \<notin> hold_kind_set \<Longrightarrow> L' k = L1 k"
    using Cons.IH by blast
  have "waiting c L' q' = (if q' \<in> set (q # qs) then filter (\<lambda>x. ho_journey (he_hold x) \<noteq> h) (waiting c L q') else waiting c L q')" for q'
    using L'(3) [of q'] L1(3) hold_inv_other(2) [OF L1(4), of q'] by (cases "q' = q") simp_all
  moreover have "L' k = L k" if "k \<notin> hold_kind_set" for k
    using L'(4) [OF that] L1(4) that by (simp add: only_queue_def kinds_of_def)
  ultimately show ?case using L1(1) L'(1,2) by auto
qed auto

text \<open>One Journey of a holder opened or closed.\<close>

lemma eval_count:
  assumes well: "holds_well c L" and o': "origin_at c L h = Inr o'"
    and short: "length (or_queues o') + length ps < 2 ^ 32"
  shows "\<exists>L' o''. eval L (count c (h, moved) ps) = Inr ((), L') \<and> holds_well c L' \<and>
    origin_at c L' h = Inr o'' \<and> or_open o'' = moved_count moved (or_open o') \<and>
    length (or_queues o'') \<le> length (or_queues o') + length ps \<and>
    (\<forall>h'. h' \<noteq> h \<longrightarrow> origin_at c L' h' = origin_at c L h') \<and>
    (or_open o'' = 0 \<longrightarrow> (\<forall>q \<in> set (take_places h ps (or_queues o')). \<not> held_here (waiting c L' q) h)) \<and>
    (\<forall>k. k \<notin> insert origin_kind hold_kind_set \<longrightarrow> L' k = L k)"
proof -
  let ?o = "\<lparr>or_open = moved_count moved (or_open o'), or_queues = take_places h ps (or_queues o')\<rparr>"
  have fit: "fit_origin c ?o"
    using short length_take_places [of h ps "or_queues o'"] by (simp add: fit_origin_def fit_many_def list_all_iff)
  have read: "(case L origin_kind (be128 h) of Some bytes \<Rightarrow> from_bytes c (r_origin c) bytes
      | None \<Rightarrow> Inr \<lparr>or_open = 0, or_queues = []\<rparr>) = Inr o'" using o' by (simp add: origin_at_def)
  show ?thesis
  proof (cases "or_open ?o = 0")
    case True
    obtain L1 where L1: "eval L (eachp (\<lambda>q. let_go_of c q h) (or_queues ?o)) = Inr ((), L1)" "holds_well c L1"
      "\<And>q. waiting c L1 q = (if q \<in> set (or_queues ?o) then filter (\<lambda>x. ho_journey (he_hold x) \<noteq> h) (waiting c L q) else waiting c L q)"
      "\<And>k. k \<notin> hold_kind_set \<Longrightarrow> L1 k = L k"
      using eval_let_go_all [OF well] by blast
    let ?L = "upd L1 origin_kind (be128 h) None"
    have "eval L (count c (h, moved) ps) = Inr ((), ?L)"
      using True L1(1) by (simp add: count_def Let_def read)
    moreover have "\<And>k. k \<in> hold_kind_set \<Longrightarrow> ?L k = L1 k" by (metis kinds_apart(1) upd_other_kind)
    note same = holds_well_same [OF this]
    have "holds_well c ?L" using same(1) L1(2) by simp
    moreover have "origin_at c ?L h = Inr \<lparr>or_open = 0, or_queues = []\<rparr>" by (simp add: origin_at_def)
    moreover have "origin_at c ?L h' = origin_at c L h'" if "h' \<noteq> h" for h'
      using that L1(4) by (simp add: origin_at_def)
    moreover have "\<not> held_here (waiting c ?L q) h" if "q \<in> set (take_places h ps (or_queues o'))" for q
      using that same(2) L1(3) [of q] by (simp add: held_here_def)
    moreover have "?L k = L k" if "k \<notin> insert origin_kind hold_kind_set" for k
      using that L1(4) by simp
    ultimately show ?thesis using True by auto
  next
    case False
    let ?L = "upd L origin_kind (be128 h) (Some (w_origin c ?o))"
    have "eval L (count c (h, moved) ps) = Inr ((), ?L)"
      using False by (simp add: count_def Let_def read)
    moreover have "\<And>k. k \<in> hold_kind_set \<Longrightarrow> ?L k = L k" by (metis kinds_apart(1) upd_other_kind)
    note same = holds_well_same [OF this]
    have "holds_well c ?L" using same(1) well by simp
    moreover have "origin_at c ?L h = Inr ?o"
      using fit by (simp add: origin_at_def origin.from_bytes_write)
    moreover have "origin_at c ?L h' = origin_at c L h'" if "h' \<noteq> h" for h'
      using that by (simp add: origin_at_def)
    moreover have "?L k = L k" if "k \<notin> insert origin_kind hold_kind_set" for k using that by simp
    ultimately show ?thesis using False length_take_places [of h ps "or_queues o'"] by auto
  qed
qed

lemma eval_counted_one:
  assumes well: "holds_well c L" "origins_well c (length ps + n) L"
    and was: "was = (\<lambda>h. case prior of None \<Rightarrow> False | Some r \<Rightarrow> holders r ! at = (Some h, True))"
    and kept: "\<And>h. holder = Some h \<Longrightarrow> was h \<Longrightarrow> 0 < kept_count c L h"
    and room: "\<And>h. holder = Some h \<Longrightarrow> kept_count c L h + 1 < 2 ^ 32"
  shows "\<exists>L'. eval L (counted_one c prior ps (at, holder, open')) = Inr ((), L') \<and>
    holds_well c L' \<and> origins_well c n L' \<and>
    (\<forall>h. kept_count c L' h + of_bool (holder = Some h \<and> was h) =
      kept_count c L h + of_bool (holder = Some h \<and> open')) \<and>
    (\<forall>k. k \<notin> insert origin_kind hold_kind_set \<longrightarrow> L' k = L k)"
proof -
  have less: "origins_well c n L" using well(2) by (fastforce simp: origins_well_def)
  show ?thesis
  proof (cases holder)
    case None
    then show ?thesis using well(1) less by (auto simp: counted_one_def)
  next
    case (Some h)
    let ?moved = "if was h \<noteq> open' then Some open' else None"
    show ?thesis
    proof (cases "was h \<noteq> open' \<or> list_ex (\<lambda>place. ho_journey place = h) ps")
      case True
      obtain o' where o': "origin_at c L h = Inr o'" "length (or_queues o') + (length ps + n) < 2 ^ 32"
        using well(2) by (auto simp: origins_well_def)
      then have "length (or_queues o') + length ps < 2 ^ 32" by simp
      then obtain L' o'' where L': "eval L (count c (h, ?moved) ps) = Inr ((), L')" "holds_well c L'"
        "origin_at c L' h = Inr o''" "or_open o'' = moved_count ?moved (or_open o')"
        "length (or_queues o'') \<le> length (or_queues o') + length ps"
        "\<And>h'. h' \<noteq> h \<Longrightarrow> origin_at c L' h' = origin_at c L h'"
        "\<And>k. k \<notin> insert origin_kind hold_kind_set \<Longrightarrow> L' k = L k"
        using eval_count [OF well(1) o'(1)] by blast
      have "eval L (counted_one c prior ps (at, holder, open')) = Inr ((), L')"
        using Some True L'(1) by (simp add: counted_one_def was Let_def)
      moreover have "origins_well c n L'"
        unfolding origins_well_def
      proof
        fix h'
        show "\<exists>o'. origin_at c L' h' = Inr o' \<and> length (or_queues o') + n < 2 ^ 32"
          using L'(3,5) L'(6) [of h'] o'(2) less by (cases "h' = h") (auto simp: origins_well_def)
      qed
      moreover have "unat (moved_count ?moved (or_open o')) + of_bool (was h) = unat (or_open o') + of_bool open'"
        using kept [OF Some] room [OF Some] o'(1) by (intro moved_count_value) (simp_all add: kept_count_def)
      then have "kept_count c L' h' + of_bool (holder = Some h' \<and> was h') =
          kept_count c L h' + of_bool (holder = Some h' \<and> open')" for h'
        using L'(3,4) L'(6) [of h'] o'(1) Some by (cases "h' = h") (auto simp: kept_count_def)
      ultimately show ?thesis using L'(2,7) by blast
    next
      case False
      then have "eval L (counted_one c prior ps (at, holder, open')) = Inr ((), L)"
        using Some by (simp add: counted_one_def was Let_def)
      then show ?thesis using False well(1) less Some by auto
    qed
  qed
qed

lemma journey_at_upd:
  assumes "fit_journey_record c r"
  shows "journey_at c (upd L journey_kind (be128 (jr_journey r)) (Some (w_journey_record c r))) j =
    (if j = jr_journey r then Inr (Some r) else journey_at c L j)"
  using assms by (auto simp: journey_at_def journey_record.from_bytes_write)

lemma opens_split: "opens r h = of_bool (holders r ! 0 = (Some h, True)) + of_bool (holders r ! 1 = (Some h, True))"
  by (auto simp: opens_def holders_def)

text \<open>
  Counted, then written: the number kept for every holder is again the number of open Journeys
  the ledger has for it.
\<close>

lemma eval_counted:
  assumes well: "holds_well c L" "origins_well c (2 * length ps) L" and inv: "origin_inv c L"
    and prior: "journey_at c L (jr_journey r) = Inr prior" and keeps: "keeps_holders prior r"
    and room: "\<And>h. open_number c L h + 2 < 2 ^ 32"
  shows "\<exists>L'. eval L (counted c r ps) = Inr ((), L') \<and> holds_well c L' \<and> origins_well c 0 L' \<and>
    (\<forall>h. kept_count c L' h + (case prior of None \<Rightarrow> 0 | Some p \<Rightarrow> opens p h) = open_number c L h + opens r h) \<and>
    (\<forall>k. k \<notin> insert origin_kind hold_kind_set \<longrightarrow> L' k = L k)"
proof -
  define was where "was at h \<longleftrightarrow> (case prior of None \<Rightarrow> False | Some p \<Rightarrow> holders p ! at = (Some h, True))" for at :: nat and h
  have kept: "kept_count c L h = open_number c L h" for h
    using inv unfolding origin_inv_def kept_count_def by (metis (no_types, lifting) sum.case(2))
  have some: "of_bool (was 0 h) + of_bool (was 1 h) \<le> kept_count c L h" for h
  proof -
    have "(case journey_at c L (jr_journey r) of Inr (Some r) \<Rightarrow> opens r h | _ \<Rightarrow> 0) \<le> open_number c L h"
      unfolding open_number_def by (rule member_le_sum) simp_all
    then show ?thesis unfolding kept prior by (cases prior) (simp_all add: was_def opens_split)
  qed
  have holds: "holders r ! at = (Some h, open') \<longleftrightarrow> fst (holders r ! at) = Some h \<and> snd (holders r ! at) = open'" for at h open'
    by (cases "holders r ! at") auto
  have was_fun: "was at = (\<lambda>h. case prior of None \<Rightarrow> False | Some p \<Rightarrow> holders p ! at = (Some h, True))" for at
    by (simp add: was_def fun_eq_iff)
  define ho0 where "ho0 = holders r ! 0"
  define ho1 where "ho1 = holders r ! 1"
  have room0: "fst ho0 = Some h \<Longrightarrow> kept_count c L h + 1 < 2 ^ 32"
    and kept0: "fst ho0 = Some h \<Longrightarrow> was 0 h \<Longrightarrow> 0 < kept_count c L h" for h
    using room [of h] some [of h] kept [of h] by simp_all
  have well0: "origins_well c (length ps + length ps) L" using well(2) by (simp add: mult_2)
  obtain L1 where L1: "eval L (counted_one c prior ps (0, fst ho0, snd ho0)) = Inr ((), L1)"
    "holds_well c L1" "origins_well c (length ps) L1"
    "\<And>h. kept_count c L1 h + of_bool (fst ho0 = Some h \<and> was 0 h) =
      kept_count c L h + of_bool (fst ho0 = Some h \<and> snd ho0)"
    "\<And>k. k \<notin> insert origin_kind hold_kind_set \<Longrightarrow> L1 k = L k"
    using eval_counted_one [where holder = "fst ho0" and open' = "snd ho0", OF well(1) well0 was_fun [of 0] kept0 room0]
    by auto
  have keep: "was at h \<Longrightarrow> fst (holders r ! at) = Some h" if "at < 2" for at h
    using keeps that by (cases prior) (simp_all add: was_def keeps_holders_def)
  have first: "kept_count c L1 h + of_bool (was 0 h) = kept_count c L h + of_bool (holders r ! 0 = (Some h, True))" for h
    using L1(4) [of h] keep [of 0 h] holds [of 0 h True] by (auto simp: ho0_def)
  obtain L' where L': "eval L1 (counted_one c prior ps (1, fst ho1, snd ho1)) = Inr ((), L')"
    "holds_well c L'" "origins_well c 0 L'"
    "\<And>h. kept_count c L' h + of_bool (fst ho1 = Some h \<and> was 1 h) =
      kept_count c L1 h + of_bool (fst ho1 = Some h \<and> snd ho1)"
    "\<And>k. k \<notin> insert origin_kind hold_kind_set \<Longrightarrow> L' k = L1 k"
  proof -
    have kept1: "0 < kept_count c L1 h" if "fst ho1 = Some h" "was 1 h" for h
      using that(2) first [of h] some [of h] by (cases "was 0 h") auto
    have room1: "kept_count c L1 h + 1 < 2 ^ 32" if "fst ho1 = Some h" for h
      using first [of h] room [of h] kept [of h]
      by (cases "was 0 h"; cases "holders r ! 0 = (Some h, True)") simp_all
    have well1: "origins_well c (length ps + 0) L1" using L1(3) by simp
    show ?thesis
      using that eval_counted_one [where holder = "fst ho1" and open' = "snd ho1", OF L1(2) well1 was_fun [of 1] kept1 room1]
      by auto
  qed
  have second: "kept_count c L' h + of_bool (was 1 h) = kept_count c L1 h + of_bool (holders r ! 1 = (Some h, True))" for h
    using L'(4) [of h] keep [of 1 h] holds [of 1 h True] by (auto simp: ho1_def)
  have "eval L (counted c r ps) = Inr ((), L')"
    using prior L1(1) L'(1) by (simp add: counted_def journey_at_def holders_def ho0_def ho1_def)
  moreover have "kept_count c L' h + (case prior of None \<Rightarrow> 0 | Some p \<Rightarrow> opens p h) = open_number c L h + opens r h" for h
    using first [of h] second [of h] kept [of h] by (cases prior) (simp_all add: was_def opens_split)
  ultimately show ?thesis using L'(2,3,5) L1(5) by auto
qed

text \<open>The number of open Journeys once a Journey is written anew.\<close>

lemma open_number_written:
  assumes "fit_journey_record c r" and "journey_at c L (jr_journey r) = Inr prior"
  shows "open_number c (upd L journey_kind (be128 (jr_journey r)) (Some (w_journey_record c r))) h +
    (case prior of None \<Rightarrow> 0 | Some p \<Rightarrow> opens p h) = open_number c L h + opens r h"
proof -
  let ?f = "\<lambda>L j. case journey_at c L j of Inr (Some r) \<Rightarrow> opens r h | _ \<Rightarrow> 0"
  let ?L = "upd L journey_kind (be128 (jr_journey r)) (Some (w_journey_record c r))"
  have "open_number c M h = ?f M (jr_journey r) + (\<Sum>j \<in> UNIV - {jr_journey r}. ?f M j)" for M
    unfolding open_number_def by (rule sum.remove) simp_all
  moreover have "(\<Sum>j \<in> UNIV - {jr_journey r}. ?f ?L j) = (\<Sum>j \<in> UNIV - {jr_journey r}. ?f L j)"
    by (rule sum.cong) (simp_all add: journey_at_upd [OF assms(1)])
  ultimately show ?thesis
    using assms(2) by (cases prior) (simp_all add: journey_at_upd [OF assms(1)])
qed

lemma open_number_same: "L' journey_kind = L journey_kind \<Longrightarrow> open_number c L' h = open_number c L h"
  by (simp add: open_number_def journey_at_def)

lemma eval_counted_put:
  assumes well: "holds_well c L" "origins_well c (2 * length ps) L" and inv: "origin_inv c L"
    and prior: "journey_at c L (jr_journey r) = Inr prior" and keeps: "keeps_holders prior r"
    and room: "\<And>h. open_number c L h + 2 < 2 ^ 32" and fit: "fit_journey_record c r"
  shows "\<exists>L'. eval L (bindp (counted c r ps) (\<lambda>_. put_journey c r)) = Inr ((), L') \<and>
    holds_well c L' \<and> origin_inv c L' \<and> journey_at c L' (jr_journey r) = Inr (Some r) \<and>
    (\<forall>h. open_number c L' h + (case prior of None \<Rightarrow> 0 | Some p \<Rightarrow> opens p h) = open_number c L h + opens r h) \<and>
    (\<forall>k. k \<notin> {origin_kind, journey_kind} \<union> hold_kind_set \<longrightarrow> L' k = L k)"
proof -
  obtain L1 where L1: "eval L (counted c r ps) = Inr ((), L1)" "holds_well c L1" "origins_well c 0 L1"
    "\<And>h. kept_count c L1 h + (case prior of None \<Rightarrow> 0 | Some p \<Rightarrow> opens p h) = open_number c L h + opens r h"
    "\<And>k. k \<notin> insert origin_kind hold_kind_set \<Longrightarrow> L1 k = L k"
    using eval_counted [OF well inv prior keeps room] by auto
  let ?L = "upd L1 journey_kind (be128 (jr_journey r)) (Some (w_journey_record c r))"
  have same: "L1 journey_kind = L journey_kind" using L1(5) by simp
  then have prior1: "journey_at c L1 (jr_journey r) = Inr prior" using prior by (simp add: journey_at_def)
  have number: "open_number c ?L h + (case prior of None \<Rightarrow> 0 | Some p \<Rightarrow> opens p h) = open_number c L h + opens r h" for h
    using open_number_written [OF fit prior1, of h] open_number_same [where L' = L1 and L = L and h = h, OF same] by simp
  have "kept_count c L1 h = open_number c ?L h" for h
    using number [of h] L1(4) [of h] by linarith
  moreover have "origin_at c ?L h = origin_at c L1 h" for h by (simp add: origin_at_def)
  ultimately have "origin_inv c ?L"
    using L1(3) unfolding origin_inv_def origins_well_def kept_count_def by (metis (no_types, lifting) sum.case(2))
  moreover have "\<And>k. k \<in> hold_kind_set \<Longrightarrow> ?L k = L1 k" by (metis kinds_apart(2) upd_other_kind)
  note holds_well_same(1) [OF this]
  then have "holds_well c ?L" using L1(2) by simp
  ultimately show ?thesis
    using L1(1,5) number fit by (intro exI [of _ ?L]) (simp add: put_journey_def journey_at_upd)
qed

text \<open>The last of a holder's Journeys closed: every place it holds let go.\<close>

lemma eval_count_last:
  assumes "holds_well c L" and "origin_at c L h = Inr o'" and "or_open o' \<le> 1"
    and "length (or_queues o') + length ps < 2 ^ 32" and "q \<in> set (take_places h ps (or_queues o'))"
  shows "\<exists>L'. eval L (count c (h, Some False) ps) = Inr ((), L') \<and> \<not> held_here (waiting c L' q) h \<and>
    kept_count c L' h = 0"
proof -
  have "moved_count (Some False) (or_open o') = 0"
    using assms(3) by (auto simp: moved_count_def word_le_nat_alt unat_eq_zero [symmetric] unat_minus_one)
  then show ?thesis
    using eval_count [OF assms(1,2,4), of "Some False"] assms(5) by (auto simp: kept_count_def)
qed

end

section \<open>Properties\<close>

lemma empty_origins [simp]:
  "holds_well c empty_ledger" "origin_inv c empty_ledger" "open_number c empty_ledger h = 0"
  "journey_at c empty_ledger j = Inr None" "n < 2 ^ 32 \<Longrightarrow> origins_well c n empty_ledger"
proof -
  show at: "journey_at c empty_ledger j = Inr None" for j by (simp add: journey_at_def empty_ledger_def)
  show number: "open_number c empty_ledger h = 0" for h by (simp add: open_number_def at)
  have origin: "origin_at c empty_ledger h = Inr \<lparr>or_open = 0, or_queues = []\<rparr>" for h
    by (simp add: origin_at_def empty_ledger_def)
  show "origin_inv c empty_ledger" by (simp add: origin_inv_def origin number)
  show "n < 2 ^ 32 \<Longrightarrow> origins_well c n empty_ledger" by (simp add: origins_well_def origin)
  show "holds_well c empty_ledger" by (simp add: holds_well_def)
qed

definition sample_journey :: "u128 \<Rightarrow> u128 option \<Rightarrow> bool \<Rightarrow> journey_record" where
  "sample_journey j origin open' = \<lparr>jr_journey = j, jr_body = [], jr_facts = \<lparr>jf_state = ''Published'',
     jf_previous_journey = None, jf_subscription = None, jf_cause_work_process = None, jf_depth = 0,
     jf_work_process = None, jf_send_port = None, jf_send_location = 0, jf_attempts = 0, jf_message = None,
     jf_origin = origin, jf_open = open', jf_group_delivery = None, jf_group_open = False,
     jf_created_unix_nanos = 0, jf_updated_unix_nanos = 0\<rparr>\<rparr>"

lemma fit_sample_journey: "fit_journey_record plain_codec (sample_journey j origin open')"
  by (simp add: fit_journey_record_def fit_journey_facts_def sample_journey_def plain_codec_def)

text \<open>
  A Journey counted and then written, new or written again with the holders it is open for
  unchanged: the number kept for every holder is again the number of open Journeys the ledger has for
  it, and every queue of held Messages stays well formed.
\<close>

theorem counted_counts:
  assumes "codec_laws c" and "holds_well c L" and "origins_well c (2 * length ps) L" and "origin_inv c L"
    and "journey_at c L (jr_journey r) = Inr prior" and "keeps_holders prior r"
    and "\<And>h. open_number c L h + 2 < 2 ^ 32" and "fit_journey_record c r"
  shows "\<exists>L'. eval L (bindp (counted c r ps) (\<lambda>_. put_journey c r)) = Inr ((), L') \<and>
    holds_well c L' \<and> origin_inv c L' \<and> journey_at c L' (jr_journey r) = Inr (Some r) \<and>
    (\<forall>h. open_number c L' h + (case prior of None \<Rightarrow> 0 | Some p \<Rightarrow> opens p h) = open_number c L h + opens r h)"
  using codec_laws.eval_counted_put [OF assms] by blast

theorem counted_counts_witness:
  "\<exists>L'. eval empty_ledger (bindp (counted plain_codec (sample_journey 1 (Some 5) True) [])
      (\<lambda>_. put_journey plain_codec (sample_journey 1 (Some 5) True))) = Inr ((), L') \<and>
    origin_inv plain_codec L' \<and> open_number plain_codec L' 5 = 1"
  using counted_counts [OF plain.codec_laws_axioms, of empty_ledger "[]" "sample_journey 1 (Some 5) True" None]
    fit_sample_journey [of 1 "Some 5" True]
  by (auto simp: keeps_holders_def opens_def holders_def sample_journey_def)

text \<open>
  The last of a holder's Journeys to close lets go of every place it holds, in the same
  write, and its count with them.
\<close>

theorem last_lets_go:
  assumes "codec_laws c" and "holds_well c L" and "origin_at c L h = Inr o'" and "or_open o' \<le> 1"
    and "length (or_queues o') + length ps < 2 ^ 32" and "q \<in> set (take_places h ps (or_queues o'))"
  shows "\<exists>L'. eval L (count c (h, Some False) ps) = Inr ((), L') \<and> \<not> held_here (waiting c L' q) h \<and>
    kept_count c L' h = 0"
  using codec_laws.eval_count_last [OF assms] .

theorem last_lets_go_witness:
  "\<exists>L L'. waiting plain_codec L 7 = [newly_held 0 (sample_hold 9), newly_held 1 (sample_hold 11)] \<and>
    eval L (count plain_codec (9, Some False) [sample_hold 9]) = Inr ((), L') \<and>
    \<not> held_here (waiting plain_codec L' 7) 9"
proof -
  let ?p = "bindp (keep plain_codec (sample_hold 9)) (\<lambda>_. keep plain_codec (sample_hold 11))"
  obtain L where L: "eval empty_ledger ?p = Inr ((), L)" "hold_inv plain_codec L 7"
    "waiting plain_codec L 7 = [newly_held 0 (sample_hold 9), newly_held 1 (sample_hold 11)]"
    using two_held by blast
  have "writes hold_kind_set ?p" by auto
  from writes_eval [OF this L(1)] have "L origin_kind = empty_ledger origin_kind" by simp
  then have "origin_at plain_codec L 9 = Inr \<lparr>or_open = 0, or_queues = []\<rparr>"
    by (simp add: origin_at_def empty_ledger_def)
  moreover have "holds_well plain_codec L"
  proof -
    obtain L1 where L1: "eval empty_ledger (keep plain_codec (sample_hold 9)) = Inr ((), L1)" "hold_inv plain_codec L1 7"
      "only_queue hold_kinds 7 empty_ledger L1" "next_place plain_codec L1 7 = 1"
      using plain.eval_keep [OF _ fit_sample_hold, of empty_ledger 9] by (auto simp: sample_hold_def held_here_def)
    moreover from this L(1) obtain "eval L1 (keep plain_codec (sample_hold 11)) = Inr ((), L)" by simp
    ultimately have "only_queue hold_kinds 7 L1 L"
      using plain.eval_keep [OF _ fit_sample_hold, of L1 11] by (auto simp: sample_hold_def)
    then have "hold_inv plain_codec L q" if "q \<noteq> 7" for q
      using that hold_inv_other(1) [OF L1(3), of q plain_codec] hold_inv_other(1) [of 7 L1 L q plain_codec] by simp
    with L(2) show ?thesis unfolding holds_well_def by metis
  qed
  ultimately show ?thesis
    using last_lets_go [OF plain.codec_laws_axioms, of L 9 "\<lparr>or_open = 0, or_queues = []\<rparr>" "[sample_hold 9]" 7] L(3)
    by (auto simp: take_places_def sample_hold_def)
qed

end
