(* ===== verification/Dead.thy ===== *)
theory Dead
  imports Origin
begin

text \<open>
  A node's Dead Message Queue (\<open>src/.src/storage/dead.rs\<close>) and the one binary form of each of
  its records (\<open>src/.src/storage/dead/form.rs\<close>): the entry kept for a Message nothing matched,
  an operator's Replay of it, and what a queue keeps for one Message. An entry is kept once and
  replayed once, whichever answers were lost.
\<close>

section \<open>An entry\<close>

record named_value =
  nv_name :: string
  nv_value :: string

definition w_named_value :: "codec \<Rightarrow> named_value \<Rightarrow> bytes" where
  "w_named_value c x =
     w_text c (nv_name x) @
     w_text c (nv_value x)"

definition r_named_value :: "codec \<Rightarrow> named_value reader" where
  "r_named_value c =
     andr (r_text c) (\<lambda>name.
     andr (r_text c) (\<lambda>value.
     ret \<lparr>nv_name = name, nv_value = value\<rparr>))"

definition fit_named_value :: "codec \<Rightarrow> named_value \<Rightarrow> bool" where
  "fit_named_value c x \<longleftrightarrow> length (nv_name x) \<le> most c \<and>
     length (nv_value x) \<le> most c"

sublocale codec_laws \<subseteq> named_value: form "w_named_value c" "r_named_value c" "fit_named_value c"
proof
  show "r_named_value c (w_named_value c x @ rest) = Inr (x, rest)" if "fit_named_value c x" for x rest
    using that by (cases x) (simp add: r_named_value_def w_named_value_def fit_named_value_def)
  show "fit_named_value c x" if "r_named_value c bs = Inr (x, rest)" for bs x rest
    using that by (auto simp: r_named_value_def andr_eq_Inr fit_named_value_def intro: form_wf)
qed

sublocale codec_laws \<subseteq> named_value_list: form "w_list c (w_named_value c)" "r_list c (r_named_value c)" "fit_list c (fit_named_value c)"
  by (rule list_form) (rule named_value.form_axioms)

record dead_message =
  dm_queue :: u128
  dm_message :: u128
  dm_stream :: u128
  dm_node :: string
  dm_location :: string
  dm_received_unix_nanos :: i128
  dm_validation :: "named_value list"
  dm_promoted :: "named_value list"
  dm_declines :: "named_value list"
  dm_body :: bytes

definition dead_form :: u8 where "dead_form = 1"

definition w_dead_message :: "codec \<Rightarrow> dead_message \<Rightarrow> bytes" where
  "w_dead_message c x =
     w_byte c dead_form @
     w_u128 c (dm_queue x) @
     w_u128 c (dm_message x) @
     w_u128 c (dm_stream x) @
     w_text c (dm_node x) @
     w_text c (dm_location x) @
     w_i128 c (dm_received_unix_nanos x) @
     w_list c (w_named_value c) (dm_validation x) @
     w_list c (w_named_value c) (dm_promoted x) @
     w_list c (w_named_value c) (dm_declines x) @
     w_counted c (dm_body x)"

definition r_dead_message :: "codec \<Rightarrow> dead_message reader" where
  "r_dead_message c =
     andr (r_byte c) (\<lambda>form.
     if form \<noteq> dead_form then refuse (''a Dead Message Queue entry of form '' @ digits (unat form)
       @ '', and this reads form '' @ digits (unat dead_form)) else
     andr (r_u128 c) (\<lambda>queue.
     andr (r_u128 c) (\<lambda>message.
     andr (r_u128 c) (\<lambda>stream.
     andr (r_text c) (\<lambda>node.
     andr (r_text c) (\<lambda>location.
     andr (r_i128 c) (\<lambda>received_unix_nanos.
     andr (r_list c (r_named_value c)) (\<lambda>validation.
     andr (r_list c (r_named_value c)) (\<lambda>promoted.
     andr (r_list c (r_named_value c)) (\<lambda>declines.
     andr (r_counted c) (\<lambda>body.
     ret \<lparr>dm_queue = queue, dm_message = message, dm_stream = stream, dm_node = node, dm_location = location, dm_received_unix_nanos = received_unix_nanos, dm_validation = validation, dm_promoted = promoted, dm_declines = declines, dm_body = body\<rparr>)))))))))))"

definition fit_dead_message :: "codec \<Rightarrow> dead_message \<Rightarrow> bool" where
  "fit_dead_message c x \<longleftrightarrow> length (dm_node x) \<le> most c \<and>
     length (dm_location x) \<le> most c \<and>
     fit_list c (fit_named_value c) (dm_validation x) \<and>
     fit_list c (fit_named_value c) (dm_promoted x) \<and>
     fit_list c (fit_named_value c) (dm_declines x) \<and>
     length (dm_body x) \<le> most c"

sublocale codec_laws \<subseteq> dead_message: form "w_dead_message c" "r_dead_message c" "fit_dead_message c"
proof
  show "r_dead_message c (w_dead_message c x @ rest) = Inr (x, rest)" if "fit_dead_message c x" for x rest
    using that by (cases x) (simp add: r_dead_message_def w_dead_message_def fit_dead_message_def named_value_list.read_write)
  show "fit_dead_message c x" if "r_dead_message c bs = Inr (x, rest)" for bs x rest
    using that by (auto simp: r_dead_message_def andr_eq_Inr fit_dead_message_def split: if_splits intro: form_wf named_value_list.read_fit)
qed

record dead =
  de_sequence :: u64
  de_message :: dead_message

definition w_dead :: "codec \<Rightarrow> dead \<Rightarrow> bytes" where
  "w_dead c x =
     w_u64 c (de_sequence x) @
     w_dead_message c (de_message x)"

definition r_dead :: "codec \<Rightarrow> dead reader" where
  "r_dead c =
     andr (r_u64 c) (\<lambda>sequence.
     andr (r_dead_message c) (\<lambda>message.
     ret \<lparr>de_sequence = sequence, de_message = message\<rparr>))"

definition fit_dead :: "codec \<Rightarrow> dead \<Rightarrow> bool" where
  "fit_dead c x \<longleftrightarrow> fit_dead_message c (de_message x)"

sublocale codec_laws \<subseteq> dead: form "w_dead c" "r_dead c" "fit_dead c"
proof
  show "r_dead c (w_dead c x @ rest) = Inr (x, rest)" if "fit_dead c x" for x rest
    using that by (cases x) (simp add: r_dead_def w_dead_def fit_dead_def dead_message.read_write)
  show "fit_dead c x" if "r_dead c bs = Inr (x, rest)" for bs x rest
    using that by (auto simp: r_dead_def andr_eq_Inr fit_dead_def intro: form_wf dead_message.read_fit)
qed

sublocale codec_laws \<subseteq> dead_list: form "w_list c (w_dead c)" "r_list c (r_dead c)" "fit_list c (fit_dead c)"
  by (rule list_form) (rule dead.form_axioms)

record dead_queue =
  dq_first :: u64
  dq_next :: u64
  dq_count :: u64
  dq_dead :: "dead list"

definition w_dead_queue :: "codec \<Rightarrow> dead_queue \<Rightarrow> bytes" where
  "w_dead_queue c x =
     w_u64 c (dq_first x) @
     w_u64 c (dq_next x) @
     w_u64 c (dq_count x) @
     w_list c (w_dead c) (dq_dead x)"

definition r_dead_queue :: "codec \<Rightarrow> dead_queue reader" where
  "r_dead_queue c =
     andr (r_u64 c) (\<lambda>first.
     andr (r_u64 c) (\<lambda>next'.
     andr (r_u64 c) (\<lambda>count.
     andr (r_list c (r_dead c)) (\<lambda>dead.
     ret \<lparr>dq_first = first, dq_next = next', dq_count = count, dq_dead = dead\<rparr>))))"

definition fit_dead_queue :: "codec \<Rightarrow> dead_queue \<Rightarrow> bool" where
  "fit_dead_queue c x \<longleftrightarrow> fit_list c (fit_dead c) (dq_dead x)"

sublocale codec_laws \<subseteq> dead_queue: form "w_dead_queue c" "r_dead_queue c" "fit_dead_queue c"
proof
  show "r_dead_queue c (w_dead_queue c x @ rest) = Inr (x, rest)" if "fit_dead_queue c x" for x rest
    using that by (cases x) (simp add: r_dead_queue_def w_dead_queue_def fit_dead_queue_def dead_list.read_write)
  show "fit_dead_queue c x" if "r_dead_queue c bs = Inr (x, rest)" for bs x rest
    using that by (auto simp: r_dead_queue_def andr_eq_Inr fit_dead_queue_def intro: form_wf dead_list.read_fit)
qed

section \<open>A Replay, and what came of it\<close>

sublocale codec_laws \<subseteq> journey_record_list: form "w_list c (w_journey_record c)" "r_list c (r_journey_record c)" "fit_list c (fit_journey_record c)"
  by (rule list_form) (rule journey_record.form_axioms)

sublocale codec_laws \<subseteq> hold_list: form "w_list c (w_hold c)" "r_list c (r_hold c)" "fit_list c (fit_hold c)"
  by (rule list_form) (rule hold.form_axioms)

record replay =
  rp_queue :: u128
  rp_message :: u128
  rp_journeys :: "journey_record list"
  rp_held :: "hold list"
  rp_audit :: audit_entry

definition w_replay :: "codec \<Rightarrow> replay \<Rightarrow> bytes" where
  "w_replay c x =
     w_u128 c (rp_queue x) @
     w_u128 c (rp_message x) @
     w_list c (w_journey_record c) (rp_journeys x) @
     w_list c (w_hold c) (rp_held x) @
     w_audit_entry c (rp_audit x)"

definition r_replay :: "codec \<Rightarrow> replay reader" where
  "r_replay c =
     andr (r_u128 c) (\<lambda>queue.
     andr (r_u128 c) (\<lambda>message.
     andr (r_list c (r_journey_record c)) (\<lambda>journeys.
     andr (r_list c (r_hold c)) (\<lambda>held.
     andr (r_audit_entry c) (\<lambda>audit.
     ret \<lparr>rp_queue = queue, rp_message = message, rp_journeys = journeys, rp_held = held, rp_audit = audit\<rparr>)))))"

definition fit_replay :: "codec \<Rightarrow> replay \<Rightarrow> bool" where
  "fit_replay c x \<longleftrightarrow> fit_list c (fit_journey_record c) (rp_journeys x) \<and>
     fit_list c (fit_hold c) (rp_held x) \<and>
     fit_audit_entry c (rp_audit x)"

sublocale codec_laws \<subseteq> replay: form "w_replay c" "r_replay c" "fit_replay c"
proof
  show "r_replay c (w_replay c x @ rest) = Inr (x, rest)" if "fit_replay c x" for x rest
    using that by (cases x) (simp add: r_replay_def w_replay_def fit_replay_def journey_record_list.read_write hold_list.read_write audit_entry.read_write)
  show "fit_replay c x" if "r_replay c bs = Inr (x, rest)" for bs x rest
    using that by (auto simp: r_replay_def andr_eq_Inr fit_replay_def intro: form_wf journey_record_list.read_fit hold_list.read_fit audit_entry.read_fit)
qed

datatype dead_entry = Kept dead | EntryReplayed | EntryNever

datatype replayed = Now | Before | Absent

definition w_dead_entry :: "codec \<Rightarrow> dead_entry \<Rightarrow> bytes" where
  "w_dead_entry c x = (case x of
     Kept dead \<Rightarrow> w_byte c 0 @ w_dead c dead
   | EntryReplayed \<Rightarrow> w_byte c 1
   | EntryNever \<Rightarrow> w_byte c 2)"

definition r_dead_entry :: "codec \<Rightarrow> dead_entry reader" where
  "r_dead_entry c = andr (r_byte c) (\<lambda>b.
     if b = 0 then andr (r_dead c) (\<lambda>dead. ret (Kept dead))
     else if b = 1 then ret EntryReplayed
     else if b = 2 then ret EntryNever
     else refuse (''no Dead Message Queue entry standing is numbered '' @ digits (unat b)))"

definition fit_dead_entry :: "codec \<Rightarrow> dead_entry \<Rightarrow> bool" where
  "fit_dead_entry c x \<longleftrightarrow> (case x of Kept dead \<Rightarrow> fit_dead c dead | _ \<Rightarrow> True)"

definition w_replayed :: "codec \<Rightarrow> replayed \<Rightarrow> bytes" where
  "w_replayed c x = w_byte c (case x of Now \<Rightarrow> 0 | Before \<Rightarrow> 1 | Absent \<Rightarrow> 2)"

definition r_replayed :: "codec \<Rightarrow> replayed reader" where
  "r_replayed c = andr (r_byte c) (\<lambda>b.
     if b = 0 then ret Now else if b = 1 then ret Before else if b = 2 then ret Absent
     else refuse (''no Replay answer is numbered '' @ digits (unat b)))"

sublocale codec_laws \<subseteq> dead_entry: form "w_dead_entry c" "r_dead_entry c" "fit_dead_entry c"
proof
  show "r_dead_entry c (w_dead_entry c x @ rest) = Inr (x, rest)" if "fit_dead_entry c x" for x rest
    using that by (cases x) (simp_all add: r_dead_entry_def w_dead_entry_def fit_dead_entry_def dead.read_write)
  show "fit_dead_entry c x" if "r_dead_entry c bs = Inr (x, rest)" for bs x rest
    using that by (cases x) (auto simp: r_dead_entry_def andr_eq_Inr fit_dead_entry_def
        split: if_splits dest: dead.read_fit)
qed

sublocale codec_laws \<subseteq> replayed: form "w_replayed c" "r_replayed c" "\<lambda>x. True"
proof
  show "r_replayed c (w_replayed c x @ rest) = Inr (x, rest)" for x rest
    by (cases x) (simp_all add: r_replayed_def w_replayed_def)
qed simp

section \<open>The operations\<close>

definition dead_kinds :: kinds where
  "dead_kinds = \<lparr>k_entry = ''dead-message'', k_by = ''dead-message-by-message'',
     k_places = ''dead-message-places'', k_table = ''dead_message'', k_index = ''dead_message_place''\<rparr>"

definition dead_message_queue :: "codec \<Rightarrow> string \<Rightarrow> u128" where
  "dead_message_queue c node = named c (node @ ''/dead-message-queue'')"

definition keep_dead :: "codec \<Rightarrow> dead_message \<Rightarrow> unit prog" where
  "keep_dead c dead = bindp (place c dead_kinds (dm_queue dead, dm_message dead)
       (\<lambda>sequence. w_dead c \<lparr>de_sequence = sequence, de_message = dead\<rparr>))
     (\<lambda>_. Ret ())"

definition decide_replay :: "codec \<Rightarrow> replay \<Rightarrow> replayed prog" where
  "decide_replay c replay = (let about = (rp_queue replay, rp_message replay) in
     bindp (placed dead_kinds about) (\<lambda>p. case p of
       Never \<Rightarrow> Ret Absent
     | TakenOut \<Rightarrow> Ret Before
     | At sequence \<Rightarrow>
         bindp (take_out c dead_kinds (rp_queue replay) sequence) (\<lambda>_.
         bindp (remember dead_kinds about) (\<lambda>_.
         bindp (eachp (\<lambda>journey. bindp (counted c journey (rp_held replay)) (\<lambda>_. put_journey c journey))
             (rp_journeys replay)) (\<lambda>_.
         bindp (eachp (keep c) (rp_held replay)) (\<lambda>_. Ret Now))))))"

text \<open>A read outside the writer, over what the store answers.\<close>

definition read_one_dead :: "codec \<Rightarrow> store_get \<Rightarrow> u128 \<Rightarrow> u128 \<Rightarrow> dead_entry result" where
  "read_one_dead c g queue message =
     bindr (g (k_by dead_kinds) (by_key queue message)) (\<lambda>v. case v of
       None \<Rightarrow> Inr EntryNever
     | Some bs \<Rightarrow> if length bs \<noteq> 8 then Inr EntryReplayed
         else bindr (g (k_entry dead_kinds) (entry_key queue (word_of_nat (from_be bs)))) (\<lambda>v. case v of
           Some bytes \<Rightarrow> bindr (from_bytes c (r_dead c) bytes) (\<lambda>dead. Inr (Kept dead))
         | None \<Rightarrow> Inr EntryNever))"

section \<open>An entry is kept once and replayed once\<close>

definition dead_about :: "dead \<Rightarrow> u128" where
  "dead_about d = dm_message (de_message d)"

definition dead_inv :: "codec \<Rightarrow> ledger \<Rightarrow> u128 \<Rightarrow> bool" where
  "dead_inv c L q \<longleftrightarrow> queue_inv c dead_kinds (typed_about c (r_dead c) dead_about) L q"

definition dead_list :: "codec \<Rightarrow> ledger \<Rightarrow> u128 \<Rightarrow> dead list" where
  "dead_list c L q = records_of c dead_kinds (r_dead c) L q"

text \<open>What a queue remembers of a Message: nothing, that its entry was taken out, or its entry.\<close>

definition dead_standing :: "ledger \<Rightarrow> u128 \<Rightarrow> u128 \<Rightarrow> placed" where
  "dead_standing L q m = (case index_of dead_kinds L q m of None \<Rightarrow> Never
     | Some bs \<Rightarrow> if bs = [] then TakenOut else At (word_of_nat (from_be bs)))"

sublocale codec_laws \<subseteq> dead_store: typed_queue c dead_kinds "w_dead c" "r_dead c" "fit_dead c" dead_about
  by unfold_locales (simp_all add: dead_kinds_def dead.read_write dead.read_fit)

definition replay_writes_set :: "kind set" where
  "replay_writes_set = insert journey_kind (insert origin_kind (kinds_of hold_kinds))"

lemma replay_rest_writes:
  "writes replay_writes_set (eachp (\<lambda>j. bindp (counted c j hs) (\<lambda>_. put_journey c j)) js)"
  "writes replay_writes_set (eachp (keep c) hs)"
proof -
  have "writes replay_writes_set (counted c j hs)" "writes replay_writes_set (put_journey c j)"
    "writes replay_writes_set (keep c h)" for j h
    by (rule writes_mono, rule origin_writes hold_writes, force simp: replay_writes_set_def)+
  then show "writes replay_writes_set (eachp (\<lambda>j. bindp (counted c j hs) (\<lambda>_. put_journey c j)) js)"
    "writes replay_writes_set (eachp (keep c) hs)" by auto
qed

lemma dead_kinds_apart: "k \<in> kinds_of dead_kinds \<Longrightarrow> k \<notin> replay_writes_set"
  by (auto simp: kinds_of_def dead_kinds_def replay_writes_set_def journey_kind_def origin_kind_def hold_kinds_def)

lemma dead_same:
  assumes "same_queue dead_kinds L L' q"
  shows "dead_inv c L' q = dead_inv c L q" and "dead_list c L' q = dead_list c L q"
    and "dead_standing L' q m = dead_standing L q m"
  using same_queue_inv [OF assms] same_queue_list [OF assms] assms
  by (simp_all add: dead_inv_def dead_list_def records_of_def dead_standing_def same_queue_def)

context codec_laws
begin

lemma dead_typed: "typed_queue c dead_kinds (w_dead c) (r_dead c) (fit_dead c)"
  by (rule dead_store.typed_queue_axioms)

lemma dead_kind: "queue_kind c dead_kinds"
  by (rule dead_store.queue_kind_axioms)

lemma eval_keep_dead:
  assumes inv: "dead_inv c L (dm_queue d)" and fit: "fit_dead_message c d"
    and room: "pl_next (places_of c dead_kinds L (dm_queue d)) \<noteq> - 1"
  shows "\<exists>L'. eval L (keep_dead c d) = Inr ((), L') \<and> dead_inv c L' (dm_queue d) \<and>
    dead_list c L' (dm_queue d) = dead_list c L (dm_queue d) @
      (if dead_standing L (dm_queue d) (dm_message d) = Never
       then [\<lparr>de_sequence = pl_next (places_of c dead_kinds L (dm_queue d)), de_message = d\<rparr>] else []) \<and>
    dead_standing L' (dm_queue d) (dm_message d) \<noteq> Never \<and> only_queue dead_kinds (dm_queue d) L L'"
proof (cases "index_of dead_kinds L (dm_queue d) (dm_message d)")
  case None
  let ?q = "dm_queue d" and ?n = "pl_next (places_of c dead_kinds L (dm_queue d))"
  obtain L' where L': "eval L (place c dead_kinds (?q, dm_message d) (\<lambda>s. w_dead c \<lparr>de_sequence = s, de_message = d\<rparr>)) = Inr (True, L')"
    "dead_inv c L' ?q" "dead_list c L' ?q = dead_list c L ?q @ [\<lparr>de_sequence = ?n, de_message = d\<rparr>]"
    "index_of dead_kinds L' ?q = (index_of dead_kinds L ?q)(dm_message d \<mapsto> be64 ?n)" "only_queue dead_kinds ?q L L'"
    using dead_store.eval_place_record [OF inv [unfolded dead_inv_def] None, of "\<lambda>s. \<lparr>de_sequence = s, de_message = d\<rparr>"]
      fit room by (auto simp: dead_about_def fit_dead_def dead_inv_def dead_list_def)
  then show ?thesis using None by (simp add: keep_dead_def dead_standing_def)
next
  case (Some bs)
  then have "eval L (keep_dead c d) = Inr ((), L)"
    using dead_store.eval_place_again [of L "dm_queue d" "dm_message d"] by (simp add: keep_dead_def)
  then show ?thesis using Some inv by (simp add: dead_standing_def)
qed

lemma eval_placed_dead:
  "dead_inv c L q \<Longrightarrow> eval L (placed dead_kinds (q, m)) = Inr (dead_standing L q m, L)"
  unfolding dead_inv_def dead_standing_def by (rule dead_store.eval_placed)

lemma listed_dead_stands:
  assumes "dead_inv c L q" and "d \<in> set (dead_list c L q)"
  shows "\<exists>s v. dead_standing L q (dead_about d) = At s \<and> entries_of dead_kinds L q s = Some v"
  using assms(1) [unfolded dead_inv_def]
proof (cases rule: dead_store.index_cases [where a = "dead_about d"])
  case away
  then show ?thesis using assms(2) by (auto simp: dead_list_def)
qed (auto simp: dead_standing_def)

lemma replay_of_nothing:
  assumes "dead_inv c L (rp_queue r)"
  shows "dead_standing L (rp_queue r) (rp_message r) = Never \<Longrightarrow> eval L (decide_replay c r) = Inr (Absent, L)"
    and "dead_standing L (rp_queue r) (rp_message r) = TakenOut \<Longrightarrow> eval L (decide_replay c r) = Inr (Before, L)"
  using eval_placed_dead [OF assms, of "rp_message r"] by (simp_all add: decide_replay_def Let_def)

lemma replay_of_entry:
  assumes inv: "dead_inv c L (rp_queue r)" and at: "dead_standing L (rp_queue r) (rp_message r) = At s"
    and ran: "eval L (decide_replay c r) = Inr (x, L')"
  shows "x = Now" and "dead_inv c L' (rp_queue r)"
    and "dead_standing L' (rp_queue r) (rp_message r) = TakenOut"
    and "dead_list c L' (rp_queue r) = filter (\<lambda>d. dm_message (de_message d) \<noteq> rp_message r) (dead_list c L (rp_queue r))"
proof -
  let ?q = "rp_queue r" and ?m = "rp_message r"
  note inv' = inv [unfolded dead_inv_def]
  obtain s' v where v: "index_of dead_kinds L ?q ?m = Some (be64 s')" "entries_of dead_kinds L ?q s' = Some v"
    "eval L (placed dead_kinds (?q, ?m)) = Inr (At s', L)" "dead_about (value_at c (r_dead c) v) = ?m"
    using inv'
  proof (cases rule: dead_store.index_cases [where a = ?m])
    case away
    then show ?thesis using at by (auto simp: dead_standing_def)
  qed
  define L1 where "L1 = upd (upd (upd L (k_entry dead_kinds) (entry_key ?q s') None)
    (k_places dead_kinds) (places_key ?q) (Some (w_places c (places_without_one (places_of c dead_kinds L ?q)))))
    (k_by dead_kinds) (by_key ?q ?m) (Some [])"
  note r = dead_store.removed_record [OF inv' v(2,4) disjI2 [OF refl], folded L1_def]
  let ?js = "eachp (\<lambda>j. bindp (counted c j (rp_held r)) (\<lambda>_. put_journey c j)) (rp_journeys r)"
  have step: "eval L (decide_replay c r) = eval L1 (bindp ?js (\<lambda>_. bindp (eachp (keep c) (rp_held r)) (\<lambda>_. Ret Now)))"
    using v(3) dead_store.eval_take_out [OF inv' v(2)]
    by (simp add: decide_replay_def remember_def L1_def Let_def)
  have "eval L1 (bindp ?js (\<lambda>_. bindp (eachp (keep c) (rp_held r)) (\<lambda>_. Ret Now))) = Inr (x, L')"
    using ran unfolding step .
  then obtain L2 where L2: "eval L1 ?js = Inr ((), L2)" "eval L2 (eachp (keep c) (rp_held r)) = Inr ((), L')" "x = Now"
    unfolding eval_bindp_eq_Inr by auto
  then have "same_queue dead_kinds L1 L' ?q"
    using writes_eval [OF replay_rest_writes(1) L2(1)] writes_eval [OF replay_rest_writes(2) L2(2)] dead_kinds_apart
    by (intro same_kinds_same_queue) simp
  note same = dead_same [OF this]
  show "x = Now" by (rule L2(3))
  show "dead_inv c L' ?q" using same(1) r(1) by (simp add: dead_inv_def)
  show "dead_standing L' ?q ?m = TakenOut" using same(3) r(3) by (simp add: dead_standing_def)
  show "dead_list c L' ?q = filter (\<lambda>d. dm_message (de_message d) \<noteq> ?m) (dead_list c L ?q)"
    using same(2) r(2) by (simp add: dead_list_def dead_about_def)
qed

lemma replay_twice:
  assumes inv: "dead_inv c L (rp_queue r)" and ran: "eval L (decide_replay c r) = Inr (x, L')"
  shows "eval L' (decide_replay c r) = Inr (if x = Absent then Absent else Before, L')"
proof (cases "dead_standing L (rp_queue r) (rp_message r)")
  case (At s)
  note first = replay_of_entry [OF inv At ran]
  show ?thesis using replay_of_nothing(2) [OF first(2,3)] first(1) by simp
qed (use replay_of_nothing [OF inv] ran in auto)

text \<open>What is read of one Message, outside the writer.\<close>

lemma read_one_dead_is:
  assumes inv: "dead_inv c L q" and store: "\<And>k key. g k key = Inr (L k key)"
  shows "read_one_dead c g q m = Inr (case find (\<lambda>d. dm_message (de_message d) = m) (dead_list c L q) of
      Some d \<Rightarrow> Kept d
    | None \<Rightarrow> if dead_standing L q m = Never then EntryNever else EntryReplayed)"
  using inv [unfolded dead_inv_def]
proof (cases rule: dead_store.index_cases [where a = m])
  case away
  then have "find (\<lambda>d. dm_message (de_message d) = m) (dead_list c L q) = None"
    by (auto simp: find_None_iff dead_list_def dead_about_def)
  with away(1) store show ?thesis by (auto simp: read_one_dead_def dead_standing_def index_of_def)
next
  case (here s v)
  note d = dead_store.decoded [OF inv [unfolded dead_inv_def] here(2)]
  obtain d' where d': "find (\<lambda>d. dm_message (de_message d) = m) (dead_list c L q) = Some d'"
    using d(4) here(4) by (cases "find (\<lambda>d. dm_message (de_message d) = m) (dead_list c L q)")
      (auto simp: find_None_iff dead_list_def dead_about_def)
  then have "d' \<in> set (dead_list c L q)" "dead_about d' = m" by (auto simp: find_Some_iff dead_about_def)
  then obtain s' v' where v': "entries_of dead_kinds L q s' = Some v'" "d' = value_at c (r_dead c) v'"
    unfolding dead_list_def dead_store.in_records by blast
  have "index_of dead_kinds L q m = Some (be64 s')"
    using dead_store.decoded(5) [OF inv [unfolded dead_inv_def] v'(1)] v'(2) \<open>dead_about d' = m\<close> by simp
  then have "d' = value_at c (r_dead c) v" using here(1,2) v' by simp
  with d' d(1) here(1,2) store show ?thesis
    by (simp add: read_one_dead_def index_of_def entries_of_def)
qed

end

section \<open>Properties\<close>

lemma empty_dead [simp]: "dead_inv c empty_ledger q" "dead_list c empty_ledger q = []" "dead_standing empty_ledger q m = Never"
  by (simp_all add: dead_inv_def dead_list_def records_of_def dead_standing_def)

definition sample_dead :: dead_message where
  "sample_dead = \<lparr>dm_queue = 7, dm_message = 21, dm_stream = 4, dm_node = ''n'', dm_location = ''l'',
     dm_received_unix_nanos = 1, dm_validation = [], dm_promoted = [], dm_declines = [], dm_body = []\<rparr>"

definition sample_audit :: audit_entry where
  "sample_audit = \<lparr>ae_id = 1, ae_body = [], ae_audited = None, ae_facts = \<lparr>af_occurred_unix_nanos = 0,
     af_action = ''Replay'', af_phase = [], af_severity = [], af_failed = False, af_text = None,
     af_program = [], af_host = [], af_process = 0, af_location = None, af_hidden = False,
     af_execution = None, af_journey = None, af_message = None, af_artifact_kind = None,
     af_artifact_name = None, af_artifact_version = None, af_node = None, af_cluster = None,
     af_writer = [], af_position = 0, af_previous = replicate 32 0, af_digest = replicate 32 0,
     af_body_length = 0, af_body_chunks = 0, af_body_digest = replicate 32 0, af_kept_unix_nanos = 0\<rparr>\<rparr>"

definition sample_replay :: replay where
  "sample_replay = \<lparr>rp_queue = 7, rp_message = 21, rp_journeys = [], rp_held = [], rp_audit = sample_audit\<rparr>"

lemma fit_sample_dead: "fit_dead_message plain_codec sample_dead"
  by (simp add: fit_dead_message_def fit_list_def sample_dead_def plain_codec_def)

lemma one_dead:
  "\<exists>L. eval empty_ledger (keep_dead plain_codec sample_dead) = Inr ((), L) \<and> dead_inv plain_codec L 7 \<and>
    dead_list plain_codec L 7 = [\<lparr>de_sequence = 0, de_message = sample_dead\<rparr>]"
  using plain.eval_keep_dead [OF _ fit_sample_dead, of empty_ledger]
  by (auto simp: sample_dead_def default_places_def)

text \<open>
  C18: A node's Dead Message Queue keeps an entry for a Message once: the first kept goes to the
  end of the queue, and a Message it has kept one for, replayed since or not, is kept no more.
\<close>

theorem dead_kept_once:
  assumes "codec_laws c" and "dead_inv c L (dm_queue d)" and "fit_dead_message c d"
    and "pl_next (places_of c dead_kinds L (dm_queue d)) \<noteq> - 1"
  shows "\<exists>L'. eval L (keep_dead c d) = Inr ((), L') \<and> dead_inv c L' (dm_queue d) \<and>
    dead_list c L' (dm_queue d) = dead_list c L (dm_queue d) @
      (if dead_standing L (dm_queue d) (dm_message d) = Never
       then [\<lparr>de_sequence = pl_next (places_of c dead_kinds L (dm_queue d)), de_message = d\<rparr>] else []) \<and>
    dead_standing L' (dm_queue d) (dm_message d) \<noteq> Never \<and> only_queue dead_kinds (dm_queue d) L L'"
  using codec_laws.eval_keep_dead [OF assms] .

theorem dead_kept_once_witness:
  "\<exists>L'. eval empty_ledger (keep_dead plain_codec sample_dead) = Inr ((), L') \<and>
    dead_list plain_codec L' 7 = [\<lparr>de_sequence = 0, de_message = sample_dead\<rparr>]"
  using dead_kept_once [OF plain.codec_laws_axioms, of empty_ledger sample_dead] fit_sample_dead
  by (auto simp: sample_dead_def default_places_def)

text \<open>
  C19: A Replay of an entry, once written, has taken the entry out, left every other in its
  order, and left the queue remembering that it was replayed.
\<close>

theorem replay_takes_out:
  assumes "codec_laws c" and "dead_inv c L (rp_queue r)"
    and "dead_standing L (rp_queue r) (rp_message r) = At s" and "eval L (decide_replay c r) = Inr (x, L')"
  shows "x = Now \<and> dead_inv c L' (rp_queue r) \<and> dead_standing L' (rp_queue r) (rp_message r) = TakenOut \<and>
    dead_list c L' (rp_queue r) = filter (\<lambda>d. dm_message (de_message d) \<noteq> rp_message r) (dead_list c L (rp_queue r))"
  using codec_laws.replay_of_entry [OF assms] by blast

theorem replay_takes_out_witness:
  "\<exists>L L'. dead_list plain_codec L 7 = [\<lparr>de_sequence = 0, de_message = sample_dead\<rparr>] \<and>
    eval L (decide_replay plain_codec sample_replay) = Inr (Now, L') \<and> dead_list plain_codec L' 7 = []"
proof -
  obtain L where L: "dead_inv plain_codec L 7" "dead_list plain_codec L 7 = [\<lparr>de_sequence = 0, de_message = sample_dead\<rparr>]"
    using one_dead by blast
  obtain s v where "dead_standing L 7 21 = At s" "entries_of dead_kinds L 7 s = Some v"
    using plain.listed_dead_stands [OF L(1), of "\<lparr>de_sequence = 0, de_message = sample_dead\<rparr>"] L(2)
    by (auto simp: dead_about_def sample_dead_def)
  then have "\<exists>s. dead_standing L 7 21 = At s \<and> (\<exists>x L'. eval L (decide_replay plain_codec sample_replay) = Inr (x, L'))"
    using plain.eval_placed_dead [OF L(1), of 21] queue_kind.eval_take_out [OF plain.dead_kind L(1) [unfolded dead_inv_def]]
    by (simp add: decide_replay_def sample_replay_def remember_def Let_def)
  then obtain s x L' where "dead_standing L 7 21 = At s" "eval L (decide_replay plain_codec sample_replay) = Inr (x, L')" by blast
  with replay_takes_out [OF plain.codec_laws_axioms, of L sample_replay s x L'] L show ?thesis
    by (auto simp: sample_replay_def sample_dead_def)
qed

text \<open>
  A Replay asked again, after its answer was lost or by another, is answered that it was
  replayed before, or that there never was an entry, and writes nothing.
\<close>

theorem replay_asked_again:
  assumes "codec_laws c" and "dead_inv c L (rp_queue r)" and "eval L (decide_replay c r) = Inr (x, L')"
  shows "eval L' (decide_replay c r) = Inr (if x = Absent then Absent else Before, L')"
  using codec_laws.replay_twice [OF assms] .

theorem replay_asked_again_witness:
  "eval empty_ledger (decide_replay plain_codec sample_replay) = Inr (Absent, empty_ledger)"
proof -
  have "eval empty_ledger (decide_replay plain_codec sample_replay) = Inr (Absent, empty_ledger)"
    by (rule plain.replay_of_nothing) simp_all
  from replay_asked_again [OF plain.codec_laws_axioms empty_dead(1) this] show ?thesis by simp
qed

text \<open>
  What is read of one Message outside the writer is what its node's queue keeps: its entry,
  that it was replayed, or that there never was one.
\<close>

theorem dead_read_one:
  assumes "codec_laws c" and "dead_inv c L q" and "\<And>k key. g k key = Inr (L k key)"
  shows "read_one_dead c g q m = Inr (case find (\<lambda>d. dm_message (de_message d) = m) (dead_list c L q) of
      Some d \<Rightarrow> Kept d
    | None \<Rightarrow> if dead_standing L q m = Never then EntryNever else EntryReplayed)"
  using codec_laws.read_one_dead_is [OF assms] .

theorem dead_read_one_witness:
  "\<exists>L. eval empty_ledger (keep_dead plain_codec sample_dead) = Inr ((), L) \<and>
    read_one_dead plain_codec (\<lambda>k key. Inr (L k key)) 7 21 = Inr (Kept \<lparr>de_sequence = 0, de_message = sample_dead\<rparr>)"
proof -
  obtain L where L: "eval empty_ledger (keep_dead plain_codec sample_dead) = Inr ((), L)" "dead_inv plain_codec L 7"
    "dead_list plain_codec L 7 = [\<lparr>de_sequence = 0, de_message = sample_dead\<rparr>]"
    using one_dead by blast
  with dead_read_one [OF plain.codec_laws_axioms L(2), of "\<lambda>k key. Inr (L k key)" 21] show ?thesis
    by (auto simp: sample_dead_def)
qed

end
