(* ===== verification/Hand_On.thy ===== *)
theory Hand_On
  imports Claim Failed Dead
begin

text \<open>
  A step handed on: its one record (\<open>src/.src/storage/hand_on.rs\<close>) and the decision of it
  (\<open>hand_on\<close> of \<open>src/.src/storage/claim.rs\<close>). A hand-on is decided for its claim's holder and
  for nobody else, once: asked again after a lost answer it writes nothing, as long as its claim
  was ended with it.
\<close>

section \<open>The record of a hand-on\<close>

record retry_wait =
  wt_queue :: u128
  wt_after_nanos :: u64

definition w_retry_wait :: "codec \<Rightarrow> retry_wait \<Rightarrow> bytes" where
  "w_retry_wait c x =
     w_u128 c (wt_queue x) @
     w_u64 c (wt_after_nanos x)"

definition r_retry_wait :: "codec \<Rightarrow> retry_wait reader" where
  "r_retry_wait c =
     andr (r_u128 c) (\<lambda>queue.
     andr (r_u64 c) (\<lambda>after_nanos.
     ret \<lparr>wt_queue = queue, wt_after_nanos = after_nanos\<rparr>))"

definition fit_retry_wait :: "codec \<Rightarrow> retry_wait \<Rightarrow> bool" where
  "fit_retry_wait c x \<longleftrightarrow> True"

sublocale codec_laws \<subseteq> retry_wait: form "w_retry_wait c" "r_retry_wait c" "fit_retry_wait c"
proof
  show "r_retry_wait c (w_retry_wait c x @ rest) = Inr (x, rest)" if "fit_retry_wait c x" for x rest
    using that by (cases x) (simp add: r_retry_wait_def w_retry_wait_def fit_retry_wait_def)
  show "fit_retry_wait c x" if "r_retry_wait c bs = Inr (x, rest)" for bs x rest
    using that by (auto simp: r_retry_wait_def andr_eq_Inr fit_retry_wait_def intro: form_wf)
qed

sublocale codec_laws \<subseteq> retry_wait_maybe: form "w_maybe c (w_retry_wait c)" "r_maybe c (r_retry_wait c)" "fit_maybe (fit_retry_wait c)"
  by (rule maybe_form) (rule retry_wait.form_axioms)

sublocale codec_laws \<subseteq> failure_maybe: form "w_maybe c (w_failure c)" "r_maybe c (r_failure c)" "fit_maybe (fit_failure c)"
  by (rule maybe_form) (rule failure.form_axioms)

sublocale codec_laws \<subseteq> message_record_list: form "w_list c (w_message_record c)" "r_list c (r_message_record c)" "fit_list c (fit_message_record c)"
  by (rule list_form) (rule message_record.form_axioms)

sublocale codec_laws \<subseteq> u64_form: form "w_u64 c" "r_u64 c" "\<lambda>x. True"
  by unfold_locales auto

sublocale codec_laws \<subseteq> u64_maybe: form "w_maybe c (w_u64 c)" "r_maybe c (r_u64 c)" "fit_maybe (\<lambda>x. True)"
  by (rule maybe_form) (rule u64_form.form_axioms)

record hand_on =
  ha_claim :: claim
  ha_result :: journey_record
  ha_messages :: "message_record list"
  ha_next :: "journey_record list"
  ha_leaves :: "u128 list"
  ha_queued :: "hold list"
  ha_requeued :: "u128 list"
  ha_failed :: "failure option"
  ha_cleared :: "u128 list"
  ha_waits :: "retry_wait option"
  ha_kept_for_nanos :: "u64 option"

definition w_hand_on :: "codec \<Rightarrow> hand_on \<Rightarrow> bytes" where
  "w_hand_on c x =
     w_claim c (ha_claim x) @
     w_journey_record c (ha_result x) @
     w_list c (w_message_record c) (ha_messages x) @
     w_list c (w_journey_record c) (ha_next x) @
     w_many c (w_u128 c) (ha_leaves x) @
     w_list c (w_hold c) (ha_queued x) @
     w_many c (w_u128 c) (ha_requeued x) @
     w_maybe c (w_failure c) (ha_failed x) @
     w_many c (w_u128 c) (ha_cleared x) @
     w_maybe c (w_retry_wait c) (ha_waits x) @
     w_maybe c (w_u64 c) (ha_kept_for_nanos x)"

definition r_hand_on :: "codec \<Rightarrow> hand_on reader" where
  "r_hand_on c =
     andr (r_claim c) (\<lambda>claim.
     andr (r_journey_record c) (\<lambda>result.
     andr (r_list c (r_message_record c)) (\<lambda>messages.
     andr (r_list c (r_journey_record c)) (\<lambda>next'.
     andr (r_many c (r_u128 c)) (\<lambda>leaves.
     andr (r_list c (r_hold c)) (\<lambda>queued.
     andr (r_many c (r_u128 c)) (\<lambda>requeued.
     andr (r_maybe c (r_failure c)) (\<lambda>failed.
     andr (r_many c (r_u128 c)) (\<lambda>cleared.
     andr (r_maybe c (r_retry_wait c)) (\<lambda>waits.
     andr (r_maybe c (r_u64 c)) (\<lambda>kept_for_nanos.
     ret \<lparr>ha_claim = claim, ha_result = result, ha_messages = messages, ha_next = next', ha_leaves = leaves, ha_queued = queued, ha_requeued = requeued, ha_failed = failed, ha_cleared = cleared, ha_waits = waits, ha_kept_for_nanos = kept_for_nanos\<rparr>)))))))))))"

definition fit_hand_on :: "codec \<Rightarrow> hand_on \<Rightarrow> bool" where
  "fit_hand_on c x \<longleftrightarrow> fit_claim c (ha_claim x) \<and>
     fit_journey_record c (ha_result x) \<and>
     fit_list c (fit_message_record c) (ha_messages x) \<and>
     fit_list c (fit_journey_record c) (ha_next x) \<and>
     fit_many (\<lambda>x. True) (ha_leaves x) \<and>
     fit_list c (fit_hold c) (ha_queued x) \<and>
     fit_many (\<lambda>x. True) (ha_requeued x) \<and>
     fit_maybe (fit_failure c) (ha_failed x) \<and>
     fit_many (\<lambda>x. True) (ha_cleared x) \<and>
     fit_maybe (fit_retry_wait c) (ha_waits x)"

sublocale codec_laws \<subseteq> hand_on: form "w_hand_on c" "r_hand_on c" "fit_hand_on c"
proof
  show "r_hand_on c (w_hand_on c x @ rest) = Inr (x, rest)" if "fit_hand_on c x" for x rest
    using that by (cases x) (simp add: r_hand_on_def w_hand_on_def fit_hand_on_def claim.read_write journey_record.read_write message_record_list.read_write journey_record_list.read_write hold_list.read_write failure_maybe.read_write retry_wait_maybe.read_write u64_maybe.read_write)
  show "fit_hand_on c x" if "r_hand_on c bs = Inr (x, rest)" for bs x rest
    using that by (auto simp: r_hand_on_def andr_eq_Inr fit_hand_on_def intro: form_wf claim.read_fit journey_record.read_fit message_record_list.read_fit journey_record_list.read_fit hold_list.read_fit failure_maybe.read_fit retry_wait_maybe.read_fit u64_maybe.read_fit)
qed

section \<open>The decision\<close>

definition message_kind :: kind where "message_kind = ''message''"

definition put_message :: "codec \<Rightarrow> message_record \<Rightarrow> unit prog" where
  "put_message c record = Put message_kind (be128 (mr_message record)) (Some (w_message_record c record)) (Ret ())"

definition i128_of_u64 :: "u64 \<Rightarrow> i128" where
  "i128_of_u64 x = word_of_nat (unat x)"

text \<open>What a hand-on writes beside its claim, in the order of the code.\<close>

definition hand_on_body :: "codec \<Rightarrow> hand_on \<Rightarrow> i128 \<Rightarrow> unit prog" where
  "hand_on_body c h now = (let result = ha_result h; journey = cl_journey (ha_claim h) in
     bindp (counted c result (ha_queued h)) (\<lambda>_.
     bindp (put_journey c result) (\<lambda>_.
     bindp (eachp (put_message c) (ha_messages h)) (\<lambda>_.
     bindp (eachp (\<lambda>n. bindp (counted c n (ha_queued h)) (\<lambda>_. put_journey c n)) (ha_next h)) (\<lambda>_.
     bindp (eachp (\<lambda>queue. let_go_of c queue journey) (ha_leaves h)) (\<lambda>_.
     bindp (eachp (keep c) (ha_queued h)) (\<lambda>_.
     bindp (eachp (\<lambda>queue. to_the_end c queue journey) (ha_requeued h)) (\<lambda>_.
     bindp (case ha_failed h of None \<Rightarrow> Ret () | Some failure \<Rightarrow> enter c journey failure now) (\<lambda>_.
     bindp (eachp (\<lambda>queue. clear c queue journey) (ha_cleared h)) (\<lambda>_.
     case ha_waits h of None \<Rightarrow> Ret ()
     | Some w \<Rightarrow> wait c (wt_queue w, journey) (i128_add now (i128_of_u64 (wt_after_nanos w)))))))))))))"

definition decide_hand_on :: "codec \<Rightarrow> hand_on \<Rightarrow> i128 \<Rightarrow> bool prog" where
  "decide_hand_on c h now = bindp (stored_claim c (ha_claim h)) (\<lambda>s. case s of
     None \<Rightarrow> Ret False
   | Some s \<Rightarrow> let ours = claim_is (st_claim s) (ha_claim h) in
       (case st_standing s of
          HandedOn \<Rightarrow> Ret ours
        | Released \<Rightarrow> Ret False
        | standing.Held \<Rightarrow> if \<not> ours then Ret False
            else bindp (hand_on_body c h now) (\<lambda>_.
              bindp (case ha_kept_for_nanos h of
                  Some ns \<Rightarrow> bindp (hold_claim c (st_claim s) (i128_add now (i128_of_u64 ns))) (\<lambda>_. Ret ())
                | None \<Rightarrow> end_claim c (st_claim s) HandedOn) (\<lambda>_. Ret True))))"

definition hand_on_kinds :: "kind set" where
  "hand_on_kinds = {journey_kind, message_kind, origin_kind} \<union> kinds_of hold_kinds \<union> kinds_of failed_kinds"

lemma failed_writes:
  "writes (kinds_of hold_kinds \<union> kinds_of failed_kinds) (enter c j fu now)"
  "writes (kinds_of hold_kinds \<union> kinds_of failed_kinds) (clear c q j)"
proof -
  let ?S = "kinds_of hold_kinds \<union> kinds_of failed_kinds"
  have "writes ?S (placed hold_kinds qa)" "writes ?S (mark c q s f)" "writes ?S (place c failed_kinds qa g)"
    "writes ?S (placed failed_kinds qa)" "writes ?S (take_out c failed_kinds q s)" "writes ?S (forget failed_kinds qa)"
    for qa q s f g by (rule writes_mono, rule queue_writes hold_writes, simp)+
  then show "writes ?S (enter c j fu now)" "writes ?S (clear c q j)"
    by (auto simp: enter_def clear_def Let_def split: placed.splits)
qed

lemma hand_on_body_writes: "writes hand_on_kinds (hand_on_body c h now)"
proof -
  have "writes hand_on_kinds (counted c r ps)" "writes hand_on_kinds (put_journey c r)"
    "writes hand_on_kinds (put_message c m)" "writes hand_on_kinds (let_go_of c q j)"
    "writes hand_on_kinds (keep c k)" "writes hand_on_kinds (to_the_end c q j)"
    "writes hand_on_kinds (enter c j fu now)" "writes hand_on_kinds (clear c q j)"
    "writes hand_on_kinds (wait c qj due)" for r ps m q j k fu qj due
    by ((rule writes_mono, rule origin_writes hold_writes failed_writes, force simp: hand_on_kinds_def)
        | simp add: put_message_def hand_on_kinds_def)+
  then show ?thesis by (auto simp: hand_on_body_def Let_def split: option.splits)
qed

lemma claim_kind_apart [simp]: "claim_kind \<notin> hand_on_kinds"
  by (simp add: claim_kind_def hand_on_kinds_def journey_kind_def message_kind_def origin_kind_def
      kinds_of_def hold_kinds_def failed_kinds_def)

section \<open>For its holder, once\<close>

lemma hand_on_refused:
  assumes "claim_now c L (cl_journey (ha_claim h)) = Inr s"
    and "\<forall>x. s = Some x \<longrightarrow> st_standing x = Released \<or> \<not> claim_is (st_claim x) (ha_claim h)"
  shows "eval L (decide_hand_on c h now) = Inr (False, L)"
  using assms by (auto simp: decide_hand_on_def eval_stored_claim Let_def split: option.splits standing.splits)

lemma hand_on_before:
  assumes "claim_now c L (cl_journey (ha_claim h)) = Inr (Some s)" and "st_standing s = HandedOn"
  shows "eval L (decide_hand_on c h now) = Inr (claim_is (st_claim s) (ha_claim h), L)"
  using assms by (auto simp: decide_hand_on_def eval_stored_claim Let_def)

lemma hand_on_false:
  assumes "eval L (decide_hand_on c h now) = Inr (False, L')"
  shows "L' = L"
proof -
  obtain s where s: "claim_now c L (cl_journey (ha_claim h)) = Inr s"
    using assms by (cases "claim_now c L (cl_journey (ha_claim h))") (simp_all add: decide_hand_on_def eval_stored_claim)
  show ?thesis
  proof (cases s)
    case (Some x)
    show ?thesis
    proof (cases "st_standing x = standing.Held \<and> claim_is (st_claim x) (ha_claim h)")
      case True
      then show ?thesis using assms s Some
        by (auto simp: decide_hand_on_def eval_stored_claim Let_def bindr_eq_Inr)
    next
      case False
      then show ?thesis
        using assms hand_on_refused [OF s, of now] hand_on_before [of c L h x now] s Some
        by (cases "st_standing x") auto
    qed
  qed (use assms s in \<open>simp add: decide_hand_on_def eval_stored_claim\<close>)
qed

context codec_laws
begin

lemma hand_on_accepted:
  assumes "claim_now c L (cl_journey (ha_claim h)) = Inr (Some s)" and "st_standing s = standing.Held"
    and "claim_is (st_claim s) (ha_claim h)" and "cl_journey (st_claim s) = cl_journey (ha_claim h)"
    and ran: "eval L (decide_hand_on c h now) = Inr (x, L')"
  shows "x = True"
    and "claim_now c L' (cl_journey (ha_claim h)) = Inr (Some (case ha_kept_for_nanos h of
      None \<Rightarrow> \<lparr>st_claim = st_claim s, st_standing = HandedOn\<rparr>
    | Some ns \<Rightarrow> \<lparr>st_claim = (st_claim s)\<lparr>cl_until_unix_nanos := i128_add now (i128_of_u64 ns)\<rparr>,
        st_standing = standing.Held\<rparr>))"
    and "\<exists>L1. eval L (hand_on_body c h now) = Inr ((), L1) \<and> (\<forall>k. k \<noteq> claim_kind \<longrightarrow> L' k = L1 k)"
    and "claims_home c L \<Longrightarrow> claims_home c L'"
    and "j \<noteq> cl_journey (ha_claim h) \<Longrightarrow> claim_now c L' j = claim_now c L j"
proof -
  let ?ending = "case ha_kept_for_nanos h of
      Some ns \<Rightarrow> bindp (hold_claim c (st_claim s) (i128_add now (i128_of_u64 ns))) (\<lambda>_. Ret ())
    | None \<Rightarrow> end_claim c (st_claim s) HandedOn"
  have "eval L (decide_hand_on c h now) = eval L (bindp (hand_on_body c h now) (\<lambda>_. bindp ?ending (\<lambda>_. Ret True)))"
    using assms(1-3) by (simp add: decide_hand_on_def eval_stored_claim Let_def)
  with ran have "eval L (bindp (hand_on_body c h now) (\<lambda>_. bindp ?ending (\<lambda>_. Ret True))) = Inr (x, L')" by (simp only:)
  then obtain L1 where L1: "eval L (hand_on_body c h now) = Inr ((), L1)" "eval L1 (bindp ?ending (\<lambda>_. Ret True)) = Inr (x, L')"
    unfolding eval_bindp_eq_Inr by auto
  define s' where "s' = (case ha_kept_for_nanos h of None \<Rightarrow> \<lparr>st_claim = st_claim s, st_standing = HandedOn\<rparr>
    | Some ns \<Rightarrow> \<lparr>st_claim = (st_claim s)\<lparr>cl_until_unix_nanos := i128_add now (i128_of_u64 ns)\<rparr>,
        st_standing = standing.Held\<rparr>)"
  have L': "L' = set_claim c L1 s'" and x: "x = True"
    using L1(2) by (auto simp: s'_def eval_hold_claim eval_end_claim split: option.splits)
  show "x = True" by (rule x)
  have "fit_claim c (st_claim s')" using claim_now_fit [OF assms(1)] by (simp add: s'_def fit_claim_def split: option.splits)
  moreover have "cl_journey (st_claim s') = cl_journey (ha_claim h)"
    using assms(4) by (simp add: s'_def split: option.splits)
  ultimately have "claim_now c L' (cl_journey (ha_claim h)) = Inr (Some s')" by (simp add: L')
  then show "claim_now c L' (cl_journey (ha_claim h)) = Inr (Some (case ha_kept_for_nanos h of
      None \<Rightarrow> \<lparr>st_claim = st_claim s, st_standing = HandedOn\<rparr>
    | Some ns \<Rightarrow> \<lparr>st_claim = (st_claim s)\<lparr>cl_until_unix_nanos := i128_add now (i128_of_u64 ns)\<rparr>,
        st_standing = standing.Held\<rparr>))" unfolding s'_def .
  show "\<exists>L1. eval L (hand_on_body c h now) = Inr ((), L1) \<and> (\<forall>k. k \<noteq> claim_kind \<longrightarrow> L' k = L1 k)"
    using L1(1) by (auto simp: L' set_claim_other)
  have same: "L1 claim_kind = L claim_kind" using writes_eval [OF hand_on_body_writes L1(1)] by simp
  then have keeps: "claim_now c L1 i = claim_now c L i" for i by (simp add: claim_now_def)
  have key: "cl_journey (st_claim s') = cl_journey (ha_claim h)"
    using assms(4) by (simp add: s'_def split: option.splits)
  then show "j \<noteq> cl_journey (ha_claim h) \<Longrightarrow> claim_now c L' j = claim_now c L j"
    using keeps by (simp add: L' claim_now_set_other)
  show "claims_home c L \<Longrightarrow> claims_home c L'"
    using \<open>fit_claim c (st_claim s')\<close> keeps by (auto simp: L' claims_home_def)
qed

text \<open>Asked again, its claim ended with it: known for what it is, and nothing written.\<close>

lemma hand_on_again:
  assumes "claim_now c L (cl_journey (ha_claim h)) = Inr (Some s)" and "cl_journey (st_claim s) = cl_journey (ha_claim h)"
    and "ha_kept_for_nanos h = None" and "eval L (decide_hand_on c h now) = Inr (x, L')"
  shows "eval L' (decide_hand_on c h later) = Inr (x, L')"
proof (cases "st_standing s = standing.Held \<and> claim_is (st_claim s) (ha_claim h)")
  case True
  note first = hand_on_accepted [OF assms(1) _ _ assms(2,4)]
  show ?thesis
    using hand_on_before [OF first(2), unfolded assms(3)] first(1) True assms(3) by (simp add: claim_is_def)
next
  case False
  have "eval L (decide_hand_on c h t) = Inr (st_standing s = HandedOn \<and> claim_is (st_claim s) (ha_claim h), L)" for t
    using hand_on_refused [OF assms(1)] hand_on_before [OF assms(1)] False by (cases "st_standing s") auto
  then show ?thesis using assms(4) by auto
qed

end

section \<open>Properties\<close>

definition sample_hand_on :: hand_on where
  "sample_hand_on = \<lparr>ha_claim = \<lparr>cl_journey = 9, cl_holder = ''a'', cl_token = 1, cl_until_unix_nanos = 200, cl_fence = 1\<rparr>,
     ha_result = sample_journey 9 None False, ha_messages = [], ha_next = [], ha_leaves = [], ha_queued = [],
     ha_requeued = [], ha_failed = None, ha_cleared = [], ha_waits = None, ha_kept_for_nanos = None\<rparr>"

definition sample_claimed :: ledger where
  "sample_claimed = set_claim plain_codec empty_ledger \<lparr>st_claim = ha_claim sample_hand_on, st_standing = standing.Held\<rparr>"

lemma sample_claimed: "claim_now plain_codec sample_claimed 9 =
    Inr (Some \<lparr>st_claim = ha_claim sample_hand_on, st_standing = standing.Held\<rparr>)"
  by (simp add: sample_claimed_def sample_hand_on_def fit_claim_def plain_codec_def [THEN arg_cong [where f = most]])

lemma sample_hands_on:
  assumes "claim_now plain_codec L 9 = Inr (Some \<lparr>st_claim = cl, st_standing = standing.Held\<rparr>)"
    and "claim_is cl (ha_claim sample_hand_on)" and "journey_at plain_codec L 9 = Inr pr"
  shows "\<exists>L'. eval L (decide_hand_on plain_codec (sample_hand_on\<lparr>ha_kept_for_nanos := k\<rparr>) t) = Inr (True, L') \<and>
    journey_at plain_codec L' 9 = Inr (Some (sample_journey 9 None False))"
proof -
  have body: "eval L (hand_on_body plain_codec (sample_hand_on\<lparr>ha_kept_for_nanos := k\<rparr>) t) =
      eval L (put_journey plain_codec (sample_journey 9 None False))" for k
    using assms(3) by (cases pr) (simp_all add: hand_on_body_def sample_hand_on_def counted_def counted_one_def holders_def
        sample_journey_def put_journey_def journey_at_def)
  have claim: "eval L (stored_claim plain_codec (ha_claim sample_hand_on)) =
      Inr (Some \<lparr>st_claim = cl, st_standing = standing.Held\<rparr>, L)"
    using assms(1) by (simp add: eval_stored_claim sample_hand_on_def)
  have j: "jr_journey (sample_journey 9 None False) = 9" by (simp add: sample_journey_def)
  note written = plain.journey_at_upd [OF fit_sample_journey [of 9 None False], unfolded j]
  have other: "journey_at plain_codec (set_claim plain_codec M s) i = journey_at plain_codec M i" for M s i
    by (simp add: journey_at_def set_claim_def journey_kind_def claim_kind_def)
  show ?thesis
    using claim assms(2)
    by (cases k) (simp_all add: decide_hand_on_def Let_def body [of None] body [of "Some x" for x] put_journey_def j
        eval_hold_claim eval_end_claim other written)
qed

lemma sample_claimed_journey: "journey_at plain_codec sample_claimed j = Inr None"
  by (simp add: sample_claimed_def set_claim_def journey_at_def journey_kind_def claim_kind_def empty_ledger_def)

lemma claim_is_refl: "claim_is x x"
  by (simp add: claim_is_def)

lemma sample_hands_on_first: "\<exists>L'. eval sample_claimed (decide_hand_on plain_codec (sample_hand_on\<lparr>ha_kept_for_nanos := k\<rparr>) t) = Inr (True, L') \<and>
    journey_at plain_codec L' 9 = Inr (Some (sample_journey 9 None False))"
  by (rule sample_hands_on [OF sample_claimed claim_is_refl sample_claimed_journey])

text \<open>
  C28: A hand-on is refused, and writes nothing, where its Message has no claim, the claim was
  given back, or it is held, or was handed on already, under another token or fence: a holder the
  Message passed from writes nothing, and is not told that another's hand-on was its own.
\<close>

theorem hand_on_not_holder:
  assumes "claim_now c L (cl_journey (ha_claim h)) = Inr s"
    and "\<forall>x. s = Some x \<longrightarrow> st_standing x = Released \<or> cl_token (st_claim x) \<noteq> cl_token (ha_claim h) \<or> cl_fence (st_claim x) \<noteq> cl_fence (ha_claim h)"
  shows "eval L (decide_hand_on c h now) = Inr (False, L)"
  using hand_on_refused [OF assms(1)] assms(2) by (simp add: claim_is_def)

theorem hand_on_not_holder_witness:
  "eval sample_claimed (decide_hand_on plain_codec (sample_hand_on\<lparr>ha_claim := (ha_claim sample_hand_on)\<lparr>cl_fence := 0\<rparr>\<rparr>) 100) =
    Inr (False, sample_claimed)"
  using hand_on_not_holder [of plain_codec sample_claimed
      "sample_hand_on\<lparr>ha_claim := (ha_claim sample_hand_on)\<lparr>cl_fence := 0\<rparr>\<rparr>" _ 100] sample_claimed
  by (simp add: sample_hand_on_def claim_is_def)

text \<open>
  C15: A hand-on decided for its claim's holder has its claim ended with it, handed on, or kept
  for the time it asked, and has written nothing else of any claim: it and the rest are one.
\<close>

theorem hand_on_ends_claim:
  assumes "codec_laws c" and "claim_now c L (cl_journey (ha_claim h)) = Inr (Some s)" and "st_standing s = standing.Held"
    and "claim_is (st_claim s) (ha_claim h)" and "cl_journey (st_claim s) = cl_journey (ha_claim h)"
    and "eval L (decide_hand_on c h now) = Inr (x, L')"
  shows "x \<and> claim_now c L' (cl_journey (ha_claim h)) = Inr (Some (case ha_kept_for_nanos h of
      None \<Rightarrow> \<lparr>st_claim = st_claim s, st_standing = HandedOn\<rparr>
    | Some ns \<Rightarrow> \<lparr>st_claim = (st_claim s)\<lparr>cl_until_unix_nanos := i128_add now (i128_of_u64 ns)\<rparr>,
        st_standing = standing.Held\<rparr>)) \<and>
    (\<exists>L1. eval L (hand_on_body c h now) = Inr ((), L1) \<and> (\<forall>k. k \<noteq> claim_kind \<longrightarrow> L' k = L1 k))"
  using codec_laws.hand_on_accepted [OF assms] by blast

theorem hand_on_ends_claim_witness:
  "\<exists>L'. eval sample_claimed (decide_hand_on plain_codec sample_hand_on 100) = Inr (True, L') \<and>
    claim_now plain_codec L' 9 = Inr (Some \<lparr>st_claim = ha_claim sample_hand_on, st_standing = HandedOn\<rparr>)"
proof -
  obtain L' where "eval sample_claimed (decide_hand_on plain_codec sample_hand_on 100) = Inr (True, L')"
    using sample_hands_on_first [of None 100] by (auto simp: sample_hand_on_def)
  with hand_on_ends_claim [OF plain.codec_laws_axioms _ _ _ _ this] sample_claimed show ?thesis
    by (auto simp: sample_hand_on_def claim_is_def)
qed

text \<open>
  A hand-on whose claim was ended with it, asked again after a lost answer, is answered as
  it was and writes nothing.
\<close>

theorem hand_on_asked_again:
  assumes "codec_laws c" and "claim_now c L (cl_journey (ha_claim h)) = Inr (Some s)"
    and "cl_journey (st_claim s) = cl_journey (ha_claim h)"
    and "ha_kept_for_nanos h = None" and "eval L (decide_hand_on c h now) = Inr (x, L')"
  shows "eval L' (decide_hand_on c h later) = Inr (x, L')"
  using codec_laws.hand_on_again [OF assms] .

theorem hand_on_asked_again_witness:
  "\<exists>L'. eval sample_claimed (decide_hand_on plain_codec sample_hand_on 100) = Inr (True, L') \<and>
    eval L' (decide_hand_on plain_codec sample_hand_on 150) = Inr (True, L')"
proof -
  obtain L' where L': "eval sample_claimed (decide_hand_on plain_codec sample_hand_on 100) = Inr (True, L')"
    using sample_hands_on_first [of None 100] by (auto simp: sample_hand_on_def)
  from hand_on_asked_again [OF plain.codec_laws_axioms _ _ _ L'] sample_claimed have
    "eval L' (decide_hand_on plain_codec sample_hand_on 150) = Inr (True, L')"
    by (auto simp: sample_hand_on_def)
  with L' show ?thesis by blast
qed

text \<open>
  A hand-on that keeps its claim, asked again after a lost answer, is decided anew: it is
  answered yes and its claim's time is written again, from the later now.
\<close>

theorem hand_on_kept_written_again:
  assumes "codec_laws c" and "claim_now c L (cl_journey (ha_claim h)) = Inr (Some s)" and "st_standing s = standing.Held"
    and "claim_is (st_claim s) (ha_claim h)" and "cl_journey (st_claim s) = cl_journey (ha_claim h)"
    and "ha_kept_for_nanos h = Some ns" and "eval L (decide_hand_on c h now) = Inr (x, L')"
    and "eval L' (decide_hand_on c h later) = Inr (x', L'')"
  shows "x' \<and> claim_now c L'' (cl_journey (ha_claim h)) = Inr (Some \<lparr>st_claim = (st_claim s)
      \<lparr>cl_until_unix_nanos := i128_add later (i128_of_u64 ns)\<rparr>, st_standing = standing.Held\<rparr>)"
proof -
  note one = codec_laws.hand_on_accepted [OF assms(1-5,7), unfolded assms(6), simplified]
  show ?thesis
    using codec_laws.hand_on_accepted [OF assms(1) one(2) _ _ _ assms(8), unfolded assms(6), simplified] assms(4,5)
    by (simp add: claim_is_def)
qed

theorem hand_on_kept_written_again_witness:
  "\<exists>L' L''. eval sample_claimed (decide_hand_on plain_codec (sample_hand_on\<lparr>ha_kept_for_nanos := Some 50\<rparr>) 100) = Inr (True, L') \<and>
    eval L' (decide_hand_on plain_codec (sample_hand_on\<lparr>ha_kept_for_nanos := Some 50\<rparr>) 120) = Inr (True, L'') \<and>
    claim_now plain_codec L'' 9 = Inr (Some \<lparr>st_claim = (ha_claim sample_hand_on)\<lparr>cl_until_unix_nanos := 170\<rparr>,
      st_standing = standing.Held\<rparr>)"
proof -
  let ?h = "sample_hand_on\<lparr>ha_kept_for_nanos := Some 50\<rparr>"
  have j: "cl_journey (ha_claim ?h) = 9" by (simp add: sample_hand_on_def)
  note held = sample_claimed [folded j]
  obtain L' where L': "eval sample_claimed (decide_hand_on plain_codec ?h 100) = Inr (True, L')"
    "journey_at plain_codec L' 9 = Inr (Some (sample_journey 9 None False))"
    using sample_hands_on_first [of "Some 50" 100] by blast
  have "claim_now plain_codec L' 9 = Inr (Some \<lparr>st_claim = (ha_claim sample_hand_on)\<lparr>cl_until_unix_nanos :=
      i128_add 100 (i128_of_u64 50)\<rparr>, st_standing = standing.Held\<rparr>)"
    using plain.hand_on_accepted(2) [OF held _ _ _ L'(1)] by (simp add: claim_is_def j [simplified])
  then obtain L'' where L'': "eval L' (decide_hand_on plain_codec ?h 120) = Inr (True, L'')"
    using sample_hands_on [of L' _ "Some (sample_journey 9 None False)" "Some 50" 120] L'(2) by (fastforce simp: claim_is_def)
  have "i128_add 120 (i128_of_u64 50) = 170" by (simp add: i128_add_def sat_i128_def i128_of_u64_def max_def min_def)
  with hand_on_kept_written_again [OF plain.codec_laws_axioms held _ _ _ _ L'(1) L'', of 50] L'(1) L'' show ?thesis
    by (auto simp: claim_is_def j [simplified])
qed

end
