(* ===== verification/Publication.thy ===== *)
theory Publication
  imports Hand_On
begin

text \<open>
  A Publication (\<open>src/.src/storage/publication.rs\<close>): a Message, the Journeys it opened, the ones
  held, its Dead Message Queue entry and the claims its node takes of it, decided as one write.
  It is written once, by its Message: asked again it writes nothing and is answered with the
  claims still held, and another Publication of the same Message is refused.
\<close>

section \<open>The record of a Publication\<close>

sublocale codec_laws \<subseteq> dead_message_maybe: form "w_maybe c (w_dead_message c)" "r_maybe c (r_dead_message c)" "fit_maybe (fit_dead_message c)"
  by (rule maybe_form) (rule dead_message.form_axioms)

sublocale codec_laws \<subseteq> claim_list: form "w_list c (w_claim c)" "r_list c (r_claim c)" "fit_list c (fit_claim c)"
  by (rule list_form) (rule claim.form_axioms)

record publication =
  pb_message :: message_record
  pb_journeys :: "journey_record list"
  pb_held :: "hold list"
  pb_dead :: "dead_message option"
  pb_audit :: audit_entry
  pb_claims :: "claim list"
  pb_lease_nanos :: u64

definition w_publication :: "codec \<Rightarrow> publication \<Rightarrow> bytes" where
  "w_publication c x =
     w_message_record c (pb_message x) @
     w_list c (w_journey_record c) (pb_journeys x) @
     w_list c (w_hold c) (pb_held x) @
     w_maybe c (w_dead_message c) (pb_dead x) @
     w_audit_entry c (pb_audit x) @
     w_list c (w_claim c) (pb_claims x) @
     w_u64 c (pb_lease_nanos x)"

definition r_publication :: "codec \<Rightarrow> publication reader" where
  "r_publication c =
     andr (r_message_record c) (\<lambda>message.
     andr (r_list c (r_journey_record c)) (\<lambda>journeys.
     andr (r_list c (r_hold c)) (\<lambda>held.
     andr (r_maybe c (r_dead_message c)) (\<lambda>dead.
     andr (r_audit_entry c) (\<lambda>audit.
     andr (r_list c (r_claim c)) (\<lambda>claims.
     andr (r_u64 c) (\<lambda>lease_nanos.
     ret \<lparr>pb_message = message, pb_journeys = journeys, pb_held = held, pb_dead = dead, pb_audit = audit, pb_claims = claims, pb_lease_nanos = lease_nanos\<rparr>)))))))"

definition fit_publication :: "codec \<Rightarrow> publication \<Rightarrow> bool" where
  "fit_publication c x \<longleftrightarrow> fit_message_record c (pb_message x) \<and>
     fit_list c (fit_journey_record c) (pb_journeys x) \<and>
     fit_list c (fit_hold c) (pb_held x) \<and>
     fit_maybe (fit_dead_message c) (pb_dead x) \<and>
     fit_audit_entry c (pb_audit x) \<and>
     fit_list c (fit_claim c) (pb_claims x)"

sublocale codec_laws \<subseteq> publication: form "w_publication c" "r_publication c" "fit_publication c"
proof
  show "r_publication c (w_publication c x @ rest) = Inr (x, rest)" if "fit_publication c x" for x rest
    using that by (cases x) (simp add: r_publication_def w_publication_def fit_publication_def message_record.read_write journey_record_list.read_write hold_list.read_write dead_message_maybe.read_write audit_entry.read_write claim_list.read_write)
  show "fit_publication c x" if "r_publication c bs = Inr (x, rest)" for bs x rest
    using that by (auto simp: r_publication_def andr_eq_Inr fit_publication_def intro: form_wf message_record.read_fit journey_record_list.read_fit hold_list.read_fit dead_message_maybe.read_fit audit_entry.read_fit claim_list.read_fit)
qed

section \<open>The decision\<close>

text \<open>Written now, its audit record still to be numbered, or written before.\<close>

datatype decided = DecidedNow "claim list" | DecidedBefore "claim list"

definition publication_kind :: kind where "publication_kind = ''publication''"

definition still_held :: "codec \<Rightarrow> claim \<Rightarrow> claim option prog" where
  "still_held c asked = bindp (stored_claim c asked) (\<lambda>s. Ret (case s of
     Some s \<Rightarrow> if asked_by s asked then Some (st_claim s) else None
   | None \<Rightarrow> None))"

text \<open>What a Publication writes before its claims.\<close>

definition publish_body :: "codec \<Rightarrow> publication \<Rightarrow> unit prog" where
  "publish_body c p =
     bindp (put_message c (pb_message p)) (\<lambda>_.
     bindp (eachp (\<lambda>journey. bindp (counted c journey (pb_held p)) (\<lambda>_. put_journey c journey)) (pb_journeys p)) (\<lambda>_.
     bindp (eachp (keep c) (pb_held p)) (\<lambda>_.
     case pb_dead p of None \<Rightarrow> Ret () | Some entry \<Rightarrow> keep_dead c entry)))"

definition decide_publication :: "codec \<Rightarrow> publication \<Rightarrow> i128 \<times> u64 \<Rightarrow> decided prog" where
  "decide_publication c p at = (let (now, epoch) = at; message = mr_message (pb_message p);
       key = be128 message; digest = sha1 c (w_publication c p) in
     Read publication_kind key (\<lambda>v. case v of
       Some w \<Rightarrow> if w \<noteq> digest
         then Fail (persist_error.Failed (''the Message '' @ show_id c message @
           '' was published before as another Publication; nothing of this one is written''))
         else bindp (gatherp (still_held c) (pb_claims p)) (\<lambda>held. Ret (DecidedBefore held))
     | None \<Rightarrow>
         bindp (publish_body c p) (\<lambda>_.
         let until = i128_add now (i128_of_u64 (pb_lease_nanos p)) in
         bindp (gatherp (\<lambda>asked. take_claim c asked (now, until, epoch)) (pb_claims p)) (\<lambda>held.
         Put publication_kind key (Some digest) (Ret (DecidedNow held))))))"

definition publish_kinds :: "kind set" where
  "publish_kinds = {journey_kind, message_kind, origin_kind} \<union> kinds_of hold_kinds \<union> kinds_of dead_kinds"

lemma publish_body_writes: "writes publish_kinds (publish_body c p)"
proof -
  have "writes publish_kinds (counted c r ps)" "writes publish_kinds (put_journey c r)"
    "writes publish_kinds (keep c k)" for r ps k
    by (rule writes_mono, rule origin_writes hold_writes, force simp: publish_kinds_def)+
  moreover have "writes publish_kinds (keep_dead c d)" for d
    by (rule writes_mono [of "kinds_of dead_kinds"]) (auto simp: keep_dead_def publish_kinds_def)
  ultimately show ?thesis
    by (auto simp: publish_body_def put_message_def publish_kinds_def split: option.splits)
qed

lemma publish_kinds_apart [simp]: "claim_kind \<notin> publish_kinds" "publication_kind \<notin> publish_kinds"
  by (simp_all add: claim_kind_def publication_kind_def publish_kinds_def journey_kind_def message_kind_def
      origin_kind_def kinds_of_def hold_kinds_def dead_kinds_def)

lemma claim_publication_apart [simp]: "claim_kind \<noteq> publication_kind" "publication_kind \<noteq> claim_kind"
  by (simp_all add: claim_kind_def publication_kind_def)

lemma take_claim_writes: "writes {claim_kind} (take_claim c claim at)"
  by (auto simp: take_claim_def stored_claim_def hold_claim_def Let_def split: prod.splits option.splits)

section \<open>Claims taken in one write, and found held after\<close>

lemma take_claim_other:
  assumes "eval L (take_claim c x at) = Inr (r, L')" and "j \<noteq> cl_journey x"
  shows "claim_now c L' j = claim_now c L j"
proof -
  obtain now until epoch where at: "at = (now, until, epoch)" by (cases at)
  obtain prior where prior: "claim_now c L (cl_journey x) = Inr prior"
    using assms(1) by (cases "claim_now c L (cl_journey x)") (simp_all add: take_claim_def at eval_stored_claim)
  then show ?thesis
    using assms(1) eval_take_claim [OF prior, of now until epoch] assms(2)
    by (auto simp: at granted_def claim_now_set_other split: if_splits)
qed

lemma eval_gather_Cons:
  assumes "eval L (gatherp f (x # xs)) = Inr (ys, L')"
  obtains r L1 rs where "eval L (f x) = Inr (r, L1)" "eval L1 (gatherp f xs) = Inr (rs, L')"
    "ys = (case r of None \<Rightarrow> rs | Some z \<Rightarrow> z # rs)"
proof -
  from assms obtain r L1 where 1: "eval L (f x) = Inr (r, L1)"
    "eval L1 (bindp (gatherp f xs) (\<lambda>ys. Ret (case r of None \<Rightarrow> ys | Some z \<Rightarrow> z # ys))) = Inr (ys, L')"
    unfolding gatherp.simps(2) eval_bindp_eq_Inr by blast
  from 1(2) obtain rs L2 where "eval L1 (gatherp f xs) = Inr (rs, L2)"
    "eval L2 (Ret (case r of None \<Rightarrow> rs | Some z \<Rightarrow> z # rs)) = Inr (ys, L')"
    unfolding eval_bindp_eq_Inr by blast
  with 1(1) that show ?thesis by simp
qed

lemma take_all_other:
  assumes "eval L (gatherp (\<lambda>x. take_claim c x at) xs) = Inr (ys, L')" and "\<forall>x \<in> set xs. j \<noteq> cl_journey x"
  shows "claim_now c L' j = claim_now c L j"
  using assms
proof (induction xs arbitrary: L ys)
  case (Cons x xs)
  from Cons.prems(1) obtain r L1 rs where "eval L (take_claim c x at) = Inr (r, L1)"
    "eval L1 (gatherp (\<lambda>x. take_claim c x at) xs) = Inr (rs, L')" by (rule eval_gather_Cons)
  then show ?case using Cons.IH [of L1 rs] Cons.prems(2) take_claim_other [of L c x at r L1 j] by simp
qed simp

text \<open>The claims among those a Publication asked for that stand held under the token it asked by.\<close>

definition held_of :: "codec \<Rightarrow> ledger \<Rightarrow> claim list \<Rightarrow> claim list" where
  "held_of c L asked = List.map_filter (\<lambda>x. case claim_now c L (cl_journey x) of
     Inr (Some s) \<Rightarrow> if st_standing s = standing.Held \<and> cl_token (st_claim s) = cl_token x then Some (st_claim s) else None
   | _ \<Rightarrow> None) asked"

lemma still_held_of:
  assumes "\<forall>x \<in> set xs. \<exists>s. claim_now c L (cl_journey x) = Inr s"
  shows "eval L (gatherp (still_held c) xs) = Inr (held_of c L xs, L)"
  using assms
proof (induction xs)
  case (Cons x xs)
  then obtain s where "claim_now c L (cl_journey x) = Inr s" by auto
  then have "eval L (still_held c x) = Inr (case s of Some s \<Rightarrow>
      (if st_standing s = standing.Held \<and> cl_token (st_claim s) = cl_token x then Some (st_claim s) else None) | None \<Rightarrow> None, L)"
    by (simp add: still_held_def eval_stored_claim asked_by_def split: option.splits)
  then show ?case using Cons \<open>claim_now c L (cl_journey x) = Inr s\<close>
    by (auto simp: held_of_def List.map_filter_simps split: option.splits)
qed (simp add: held_of_def List.map_filter_simps)

lemma publication_later:
  assumes "L publication_kind (be128 (mr_message (pb_message p))) = Some (sha1 c (w_publication c p))"
    and "\<forall>x \<in> set (pb_claims p). \<exists>s. claim_now c L (cl_journey x) = Inr s"
  shows "eval L (decide_publication c p at) = Inr (DecidedBefore (held_of c L (pb_claims p)), L)"
  using still_held_of [OF assms(2)] assms(1) by (cases at) (simp add: decide_publication_def Let_def)

context codec_laws
begin

lemma still_held_taken:
  assumes "eval L (take_claim c x at) = Inr (r, L')" and "fit_claim c x"
    and "claim_now c L'' (cl_journey x) = claim_now c L' (cl_journey x)"
  shows "eval L'' (still_held c x) = Inr (r, L'')"
proof -
  obtain now until epoch where at: "at = (now, until, epoch)" by (cases at)
  obtain prior where prior: "claim_now c L (cl_journey x) = Inr prior"
    using assms(1) by (cases "claim_now c L (cl_journey x)") (simp_all add: take_claim_def at eval_stored_claim)
  show ?thesis
  proof (cases "free_at prior now")
    case True
    have "fit_claim c (granted x prior until epoch)" using assms(2) by (simp add: granted_def fit_claim_def)
    moreover have "cl_journey (granted x prior until epoch) = cl_journey x"
      "cl_token (granted x prior until epoch) = cl_token x" by (simp_all add: granted_def)
    ultimately show ?thesis
      using True assms(1,3) by (auto simp: at eval_take_claim [OF prior] still_held_def eval_stored_claim asked_by_def)
  next
    case False
    then obtain s where "prior = Some s" by (auto simp: free_at_def split: option.splits)
    then show ?thesis
      using False assms(1,3) prior by (auto simp: at eval_take_claim [OF prior] still_held_def eval_stored_claim)
  qed
qed

lemma still_held_all:
  assumes "eval L (gatherp (\<lambda>x. take_claim c x at) xs) = Inr (ys, L')" and "list_all (fit_claim c) xs"
    and "distinct (map cl_journey xs)" and "\<forall>x \<in> set xs. claim_now c L'' (cl_journey x) = claim_now c L' (cl_journey x)"
  shows "eval L'' (gatherp (still_held c) xs) = Inr (ys, L'')"
  using assms
proof (induction xs arbitrary: L ys)
  case (Cons x xs)
  from Cons.prems(1) obtain r L1 rs where r: "eval L (take_claim c x at) = Inr (r, L1)"
    "eval L1 (gatherp (\<lambda>x. take_claim c x at) xs) = Inr (rs, L')" "ys = (case r of None \<Rightarrow> rs | Some z \<Rightarrow> z # rs)"
    by (rule eval_gather_Cons)
  have "claim_now c L' (cl_journey x) = claim_now c L1 (cl_journey x)"
    using take_all_other [OF r(2)] Cons.prems(3) by (auto simp: image_iff)
  then have "claim_now c L'' (cl_journey x) = claim_now c L1 (cl_journey x)" using Cons.prems(4) by simp
  then have "eval L'' (still_held c x) = Inr (r, L'')"
    using still_held_taken [OF r(1)] Cons.prems(2) by simp
  moreover have "eval L'' (gatherp (still_held c) xs) = Inr (rs, L'')"
    using Cons.IH [OF r(2)] Cons.prems(2,3,4) by simp
  ultimately show ?case using r(3) by simp
qed simp

section \<open>Written once, by its Message\<close>

lemma publication_written:
  assumes ran: "eval L (decide_publication c p (now, epoch)) = Inr (DecidedNow held, L')"
  shows "L publication_kind (be128 (mr_message (pb_message p))) = None"
    and "L' publication_kind (be128 (mr_message (pb_message p))) = Some (sha1 c (w_publication c p))"
    and "\<exists>L1 L2. eval L (publish_body c p) = Inr ((), L1) \<and>
      eval L1 (gatherp (\<lambda>x. take_claim c x (now, i128_add now (i128_of_u64 (pb_lease_nanos p)), epoch)) (pb_claims p)) =
        Inr (held, L2) \<and>
      L' = upd L2 publication_kind (be128 (mr_message (pb_message p))) (Some (sha1 c (w_publication c p)))"
proof -
  let ?key = "be128 (mr_message (pb_message p))" and ?digest = "sha1 c (w_publication c p)"
  show none: "L publication_kind ?key = None"
    using ran by (auto simp: decide_publication_def Let_def bindr_eq_Inr split: option.splits if_splits)
  let ?take = "gatherp (\<lambda>x. take_claim c x (now, i128_add now (i128_of_u64 (pb_lease_nanos p)), epoch)) (pb_claims p)"
  have "eval L (bindp (publish_body c p) (\<lambda>_. bindp ?take (\<lambda>held.
      Put publication_kind ?key (Some ?digest) (Ret (DecidedNow held))))) = Inr (DecidedNow held, L')"
    using ran none by (simp add: decide_publication_def Let_def)
  then obtain L1 L2 where L: "eval L (publish_body c p) = Inr ((), L1)" "eval L1 ?take = Inr (held, L2)"
    "L' = upd L2 publication_kind ?key (Some ?digest)" unfolding eval_bindp_eq_Inr by auto
  then show "L' publication_kind ?key = Some ?digest" by simp
  from L show "\<exists>L1 L2. eval L (publish_body c p) = Inr ((), L1) \<and> eval L1 ?take = Inr (held, L2) \<and>
      L' = upd L2 publication_kind ?key (Some ?digest)" by blast
qed

lemma publication_again:
  assumes ran: "eval L (decide_publication c p (now, epoch)) = Inr (DecidedNow held, L')"
    and fit: "fit_publication c p" and "distinct (map cl_journey (pb_claims p))"
  shows "eval L' (decide_publication c p at) = Inr (DecidedBefore held, L')"
proof -
  obtain L1 L2 where L: "eval L (publish_body c p) = Inr ((), L1)"
    "eval L1 (gatherp (\<lambda>x. take_claim c x (now, i128_add now (i128_of_u64 (pb_lease_nanos p)), epoch)) (pb_claims p)) = Inr (held, L2)"
    "L' = upd L2 publication_kind (be128 (mr_message (pb_message p))) (Some (sha1 c (w_publication c p)))"
    using publication_written(3) [OF ran] by blast
  have "claim_now c L' j = claim_now c L2 j" for j by (simp add: L(3) claim_now_def)
  then have "eval L' (gatherp (still_held c) (pb_claims p)) = Inr (held, L')"
    using still_held_all [OF L(2)] fit assms(3) by (simp add: fit_publication_def fit_list_def)
  then show ?thesis
    using publication_written(2) [OF ran] by (cases at) (simp add: decide_publication_def Let_def)
qed

lemma publication_other:
  assumes "L publication_kind (be128 (mr_message (pb_message p))) = Some w" and "w \<noteq> sha1 c (w_publication c p)"
  shows "\<exists>why. eval L (decide_publication c p at) = Inl (persist_error.Failed why)"
  using assms by (cases at) (simp add: decide_publication_def Let_def)

end

section \<open>Properties\<close>

definition sample_message :: message_record where
  "sample_message = \<lparr>mr_message = 21, mr_body = [], mr_facts = \<lparr>mf_previous_message = None, mf_generation = 0,
     mf_created_by = [], mf_priority = [], mf_execution_profile = [], mf_durability = [], mf_size_bytes = 0,
     mf_party = None, mf_contract = None, mf_stream = None, mf_created_unix_nanos = 0\<rparr>\<rparr>"

definition sample_publication :: publication where
  "sample_publication = \<lparr>pb_message = sample_message, pb_journeys = [], pb_held = [], pb_dead = None,
     pb_audit = sample_audit, pb_claims = [sample_claim ''a'' 1], pb_lease_nanos = 100\<rparr>"

lemma fit_sample_publication: "fit_publication plain_codec sample_publication"
  by (simp add: fit_publication_def sample_publication_def fit_list_def fit_sample_claim sample_message_def
      fit_message_record_def fit_message_facts_def sample_audit_def fit_audit_entry_def fit_audit_facts_def)

lemma sample_published: "\<exists>held L'. eval empty_ledger (decide_publication plain_codec sample_publication (50, 3)) =
    Inr (DecidedNow held, L') \<and> length held = 1"
proof -
  have "claim_now plain_codec (upd empty_ledger message_kind key v) 9 = Inr None" for key v
    by (simp add: claim_now_def message_kind_def claim_kind_def empty_ledger_def)
  then have "eval (upd empty_ledger message_kind key v) (take_claim plain_codec (sample_claim ''a'' 1) (50, u, 3)) =
      Inr (Some (granted (sample_claim ''a'' 1) None u 3), set_claim plain_codec (upd empty_ledger message_kind key v)
        \<lparr>st_claim = granted (sample_claim ''a'' 1) None u 3, st_standing = standing.Held\<rparr>)" for key v u
    by (subst eval_take_claim [where prior = None]) (simp_all add: sample_claim_def free_at_def)
  moreover have "empty_ledger publication_kind key = None" for key by (simp add: empty_ledger_def)
  ultimately show ?thesis
    by (simp add: decide_publication_def publish_body_def put_message_def sample_publication_def Let_def)
qed

text \<open>
  C6: A Publication asked again writes nothing, and is answered with the claims it asked for that
  still stand held under its tokens, however the store was written since: none given back, handed on
  or passed to another token is answered. Asked again before anything happened to them, those are
  the claims its node took by it.
\<close>

theorem publication_asked_again:
  assumes "codec_laws c" and "eval L (decide_publication c p (now, epoch)) = Inr (DecidedNow held, L')"
    and "fit_publication c p" and "distinct (map cl_journey (pb_claims p))"
    and "L'' publication_kind (be128 (mr_message (pb_message p))) = L' publication_kind (be128 (mr_message (pb_message p)))"
    and "\<forall>x \<in> set (pb_claims p). \<exists>s. claim_now c L'' (cl_journey x) = Inr s"
  shows "eval L'' (decide_publication c p at) = Inr (DecidedBefore (held_of c L'' (pb_claims p)), L'') \<and>
    eval L' (decide_publication c p at) = Inr (DecidedBefore held, L')"
  using codec_laws.publication_again [OF assms(1-4)]
    publication_later [where L = L'', OF assms(5) [unfolded codec_laws.publication_written(2) [OF assms(1,2)]] assms(6)] by simp

text \<open>Asked again once its claim was given back, and before.\<close>

theorem publication_asked_again_witness:
  "\<exists>held L' s. eval empty_ledger (decide_publication plain_codec sample_publication (50, 3)) = Inr (DecidedNow held, L') \<and>
    length held = 1 \<and> eval L' (decide_publication plain_codec sample_publication (80, 4)) = Inr (DecidedBefore held, L') \<and>
    st_standing s = Released \<and> fst (projr (eval (set_claim plain_codec L' s) (decide_publication plain_codec sample_publication (80, 4)))) = DecidedBefore []"
proof -
  obtain held L' where held: "eval empty_ledger (decide_publication plain_codec sample_publication (50, 3)) = Inr (DecidedNow held, L')"
    "length held = 1" using sample_published by blast
  define s where "s = \<lparr>st_claim = sample_claim ''a'' 1, st_standing = Released\<rparr>"
  have fit: "fit_claim plain_codec (sample_claim ''a'' 1)" by (rule fit_sample_claim) simp
  have now: "claim_now plain_codec (set_claim plain_codec L' s) (cl_journey (sample_claim ''a'' 1)) = Inr (Some s)"
    using plain.claim_now_set [of s L' "cl_journey (sample_claim ''a'' 1)"] fit by (simp add: s_def)
  have "set_claim plain_codec L' s publication_kind = L' publication_kind"
    by (simp add: set_claim_def publication_kind_def claim_kind_def)
  with publication_asked_again [OF plain.codec_laws_axioms held(1) fit_sample_publication, of "set_claim plain_codec L' s" "(80, 4)"]
    now held show ?thesis by (auto simp: sample_publication_def held_of_def s_def intro!: exI [of _ s])
qed

text \<open>
  Another Publication of a Message that was published is refused, in words, and writes
  nothing.
\<close>

theorem publication_another_refused:
  assumes "codec_laws c" and "L publication_kind (be128 (mr_message (pb_message p))) = Some w"
    and "w \<noteq> sha1 c (w_publication c p)"
  shows "\<exists>why. eval L (decide_publication c p at) = Inl (persist_error.Failed why)"
  using codec_laws.publication_other [where L = L, OF assms(1) assms(2) assms(3)] .

theorem publication_another_refused_witness:
  "\<exists>why. eval (upd empty_ledger publication_kind (be128 21) (Some [])) (decide_publication plain_codec sample_publication (50, 3)) =
    Inl (persist_error.Failed why)"
proof -
  have "sha1 plain_codec (w_publication plain_codec sample_publication) \<noteq> []"
    by (simp add: plain_codec_def w_publication_def w_message_record_def sample_publication_def sample_message_def be128_def)
  then show ?thesis
    using publication_another_refused [OF plain.codec_laws_axioms,
        of "upd empty_ledger publication_kind (be128 21) (Some [])" sample_publication "[]" "(50, 3)"]
    by (simp add: sample_publication_def sample_message_def)
qed

end
