(* ===== verification/Instance.thy ===== *)
theory Instance
  imports Hand_On
begin

text \<open>
  A Work Process's Instances and keys (\<open>src/.src/storage/instance.rs\<close>): their records, and a
  turn, the hand-on of a Message with the Instances it moved. An Instance is written only over
  the turn it was read at and a key only where it is nobody else's, so of two turns from one
  state one is written and the other writes nothing.
\<close>

section \<open>An Instance, a key, a turn\<close>

record instance_record =
  in_instance :: u128
  in_work_process :: string
  in_turns :: u64
  in_ended :: bool
  in_body :: bytes

definition w_instance_record :: "codec \<Rightarrow> instance_record \<Rightarrow> bytes" where
  "w_instance_record c x =
     w_u128 c (in_instance x) @
     w_text c (in_work_process x) @
     w_u64 c (in_turns x) @
     w_flag c (in_ended x) @
     w_counted c (in_body x)"

definition r_instance_record :: "codec \<Rightarrow> instance_record reader" where
  "r_instance_record c =
     andr (r_u128 c) (\<lambda>instance'.
     andr (r_text c) (\<lambda>work_process.
     andr (r_u64 c) (\<lambda>turns.
     andr (r_flag c) (\<lambda>ended.
     andr (r_counted c) (\<lambda>body.
     ret \<lparr>in_instance = instance', in_work_process = work_process, in_turns = turns, in_ended = ended, in_body = body\<rparr>)))))"

definition fit_instance_record :: "codec \<Rightarrow> instance_record \<Rightarrow> bool" where
  "fit_instance_record c x \<longleftrightarrow> length (in_work_process x) \<le> most c \<and>
     length (in_body x) \<le> most c"

sublocale codec_laws \<subseteq> instance_record: form "w_instance_record c" "r_instance_record c" "fit_instance_record c"
proof
  show "r_instance_record c (w_instance_record c x @ rest) = Inr (x, rest)" if "fit_instance_record c x" for x rest
    using that by (cases x) (simp add: r_instance_record_def w_instance_record_def fit_instance_record_def)
  show "fit_instance_record c x" if "r_instance_record c bs = Inr (x, rest)" for bs x rest
    using that by (auto simp: r_instance_record_def andr_eq_Inr fit_instance_record_def intro: form_wf)
qed

record instance_write =
  iw_record :: instance_record
  iw_over :: u64

definition w_instance_write :: "codec \<Rightarrow> instance_write \<Rightarrow> bytes" where
  "w_instance_write c x =
     w_instance_record c (iw_record x) @
     w_u64 c (iw_over x)"

definition r_instance_write :: "codec \<Rightarrow> instance_write reader" where
  "r_instance_write c =
     andr (r_instance_record c) (\<lambda>record'.
     andr (r_u64 c) (\<lambda>over.
     ret \<lparr>iw_record = record', iw_over = over\<rparr>))"

definition fit_instance_write :: "codec \<Rightarrow> instance_write \<Rightarrow> bool" where
  "fit_instance_write c x \<longleftrightarrow> fit_instance_record c (iw_record x)"

sublocale codec_laws \<subseteq> instance_write: form "w_instance_write c" "r_instance_write c" "fit_instance_write c"
proof
  show "r_instance_write c (w_instance_write c x @ rest) = Inr (x, rest)" if "fit_instance_write c x" for x rest
    using that by (cases x) (simp add: r_instance_write_def w_instance_write_def fit_instance_write_def instance_record.read_write)
  show "fit_instance_write c x" if "r_instance_write c bs = Inr (x, rest)" for bs x rest
    using that by (auto simp: r_instance_write_def andr_eq_Inr fit_instance_write_def intro: form_wf instance_record.read_fit)
qed

record instance_key =
  ik_key :: u128
  ik_instance :: u128

definition w_instance_key :: "codec \<Rightarrow> instance_key \<Rightarrow> bytes" where
  "w_instance_key c x =
     w_u128 c (ik_key x) @
     w_u128 c (ik_instance x)"

definition r_instance_key :: "codec \<Rightarrow> instance_key reader" where
  "r_instance_key c =
     andr (r_u128 c) (\<lambda>key.
     andr (r_u128 c) (\<lambda>instance'.
     ret \<lparr>ik_key = key, ik_instance = instance'\<rparr>))"

definition fit_instance_key :: "codec \<Rightarrow> instance_key \<Rightarrow> bool" where
  "fit_instance_key c x \<longleftrightarrow> True"

sublocale codec_laws \<subseteq> instance_key: form "w_instance_key c" "r_instance_key c" "fit_instance_key c"
proof
  show "r_instance_key c (w_instance_key c x @ rest) = Inr (x, rest)" if "fit_instance_key c x" for x rest
    using that by (cases x) (simp add: r_instance_key_def w_instance_key_def fit_instance_key_def)
  show "fit_instance_key c x" if "r_instance_key c bs = Inr (x, rest)" for bs x rest
    using that by (auto simp: r_instance_key_def andr_eq_Inr fit_instance_key_def intro: form_wf)
qed

sublocale codec_laws \<subseteq> instance_write_list: form "w_list c (w_instance_write c)" "r_list c (r_instance_write c)" "fit_list c (fit_instance_write c)"
  by (rule list_form) (rule instance_write.form_axioms)

sublocale codec_laws \<subseteq> instance_key_list: form "w_list c (w_instance_key c)" "r_list c (r_instance_key c)" "fit_list c (fit_instance_key c)"
  by (rule list_form) (rule instance_key.form_axioms)

record turn =
  tu_hand_on :: hand_on
  tu_instances :: "instance_write list"
  tu_keys :: "instance_key list"
  tu_unkeyed :: "instance_key list"

definition w_turn :: "codec \<Rightarrow> turn \<Rightarrow> bytes" where
  "w_turn c x =
     w_hand_on c (tu_hand_on x) @
     w_list c (w_instance_write c) (tu_instances x) @
     w_list c (w_instance_key c) (tu_keys x) @
     w_list c (w_instance_key c) (tu_unkeyed x)"

definition r_turn :: "codec \<Rightarrow> turn reader" where
  "r_turn c =
     andr (r_hand_on c) (\<lambda>hand_on.
     andr (r_list c (r_instance_write c)) (\<lambda>instances.
     andr (r_list c (r_instance_key c)) (\<lambda>keys.
     andr (r_list c (r_instance_key c)) (\<lambda>unkeyed.
     ret \<lparr>tu_hand_on = hand_on, tu_instances = instances, tu_keys = keys, tu_unkeyed = unkeyed\<rparr>))))"

definition fit_turn :: "codec \<Rightarrow> turn \<Rightarrow> bool" where
  "fit_turn c x \<longleftrightarrow> fit_hand_on c (tu_hand_on x) \<and>
     fit_list c (fit_instance_write c) (tu_instances x) \<and>
     fit_list c (fit_instance_key c) (tu_keys x) \<and>
     fit_list c (fit_instance_key c) (tu_unkeyed x)"

sublocale codec_laws \<subseteq> turn: form "w_turn c" "r_turn c" "fit_turn c"
proof
  show "r_turn c (w_turn c x @ rest) = Inr (x, rest)" if "fit_turn c x" for x rest
    using that by (cases x) (simp add: r_turn_def w_turn_def fit_turn_def hand_on.read_write instance_write_list.read_write instance_key_list.read_write)
  show "fit_turn c x" if "r_turn c bs = Inr (x, rest)" for bs x rest
    using that by (auto simp: r_turn_def andr_eq_Inr fit_turn_def intro: form_wf hand_on.read_fit instance_write_list.read_fit instance_key_list.read_fit)
qed

section \<open>The decision\<close>

definition instance_kind :: kind where "instance_kind = ''process-instance''"
definition instance_key_kind :: kind where "instance_key_kind = ''process-instance-key''"

definition decode_turns :: "codec \<Rightarrow> bytes option \<Rightarrow> u64 result" where
  "decode_turns c v = (case v of None \<Rightarrow> Inr 0
   | Some bytes \<Rightarrow> bindr (from_bytes c (r_instance_record c) bytes) (\<lambda>r. Inr (in_turns r)))"

definition decode_owner :: "codec \<Rightarrow> bytes option \<Rightarrow> u128 option result" where
  "decode_owner c v = map_maybe (\<lambda>bytes. bindr (from_bytes c (r_instance_key c) bytes) (\<lambda>found. Inr (ik_instance found))) v"

definition owner :: "codec \<Rightarrow> u128 \<Rightarrow> u128 option prog" where
  "owner c key = Read instance_key_kind (be128 key) (\<lambda>v. liftp (decode_owner c v))"

fun current_instances :: "codec \<Rightarrow> instance_write list \<Rightarrow> bool prog" where
  "current_instances c [] = Ret True"
| "current_instances c (w # ws) = Read instance_kind (be128 (in_instance (iw_record w))) (\<lambda>v.
     bindp (liftp (decode_turns c v)) (\<lambda>stands.
       if stands \<noteq> iw_over w then Ret False else current_instances c ws))"

fun current_keys :: "codec \<Rightarrow> instance_key list \<Rightarrow> bool prog" where
  "current_keys c [] = Ret True"
| "current_keys c (k # ks) = bindp (owner c (ik_key k)) (\<lambda>o'.
     if o' \<noteq> None \<and> o' \<noteq> Some (ik_instance k) then Ret False else current_keys c ks)"

definition current :: "codec \<Rightarrow> instance_write list \<Rightarrow> instance_key list \<Rightarrow> bool prog" where
  "current c ws ks = bindp (current_instances c ws) (\<lambda>ok. if \<not> ok then Ret False else current_keys c ks)"

definition put_instance :: "codec \<Rightarrow> instance_record \<Rightarrow> unit prog" where
  "put_instance c r = Put instance_kind (be128 (in_instance r)) (Some (w_instance_record c r)) (Ret ())"

definition put_key :: "codec \<Rightarrow> instance_key \<Rightarrow> unit prog" where
  "put_key c k = Put instance_key_kind (be128 (ik_key k)) (Some (w_instance_key c k)) (Ret ())"

definition take_key :: "codec \<Rightarrow> instance_key \<Rightarrow> unit prog" where
  "take_key c gone = bindp (owner c (ik_key gone)) (\<lambda>o'.
     if o' = Some (ik_instance gone) then Put instance_key_kind (be128 (ik_key gone)) None (Ret ()) else Ret ())"

definition write_instances :: "codec \<Rightarrow> instance_write list \<Rightarrow> instance_key list \<Rightarrow> instance_key list \<Rightarrow> unit prog" where
  "write_instances c ws ks unkeyed =
     bindp (eachp (\<lambda>w. put_instance c (iw_record w)) ws) (\<lambda>_.
     bindp (eachp (put_key c) ks) (\<lambda>_.
     eachp (take_key c) unkeyed))"

definition decide_turn :: "codec \<Rightarrow> turn \<Rightarrow> i128 \<Rightarrow> bool prog" where
  "decide_turn c t now = bindp (current c (tu_instances t) (tu_keys t)) (\<lambda>ok.
     if \<not> ok then Ret False
     else bindp (decide_hand_on c (tu_hand_on t) now) (\<lambda>handed.
       if \<not> handed then Ret False
       else bindp (write_instances c (tu_instances t) (tu_keys t) (tu_unkeyed t)) (\<lambda>_. Ret True)))"

text \<open>The reads outside the writer.\<close>

definition read_instance :: "codec \<Rightarrow> store_get \<Rightarrow> u128 \<Rightarrow> instance_record option result" where
  "read_instance c g i = bindr (g instance_kind (be128 i)) (map_maybe (from_bytes c (r_instance_record c)))"

definition read_instance_key :: "codec \<Rightarrow> store_get \<Rightarrow> u128 \<Rightarrow> u128 option result" where
  "read_instance_key c g k = bindr (g instance_key_kind (be128 k)) (decode_owner c)"

section \<open>Over the turn it was read at\<close>

definition turns_at :: "codec \<Rightarrow> ledger \<Rightarrow> u128 \<Rightarrow> u64 result" where
  "turns_at c L i = decode_turns c (L instance_kind (be128 i))"

definition owner_at :: "codec \<Rightarrow> ledger \<Rightarrow> u128 \<Rightarrow> u128 option result" where
  "owner_at c L k = decode_owner c (L instance_key_kind (be128 k))"

definition stands :: "codec \<Rightarrow> ledger \<Rightarrow> turn \<Rightarrow> bool" where
  "stands c L t \<longleftrightarrow> (\<forall>w \<in> set (tu_instances t). turns_at c L (in_instance (iw_record w)) = Inr (iw_over w)) \<and>
     (\<forall>k \<in> set (tu_keys t). owner_at c L (ik_key k) \<in> {Inr None, Inr (Some (ik_instance k))})"

lemma eval_owner: "eval L (owner c k) = bindr (owner_at c L k) (\<lambda>o'. Inr (o', L))"
  by (simp add: owner_def owner_at_def)

lemma eval_current_instances:
  "eval L (current_instances c ws) = Inr (ok, L') \<Longrightarrow>
    L' = L \<and> (ok \<longrightarrow> (\<forall>w \<in> set ws. turns_at c L (in_instance (iw_record w)) = Inr (iw_over w)))"
  by (induction ws) (auto simp: bindr_eq_Inr turns_at_def split: if_splits)

lemma eval_current_keys:
  "eval L (current_keys c ks) = Inr (ok, L') \<Longrightarrow>
    L' = L \<and> (ok \<longrightarrow> (\<forall>k \<in> set ks. owner_at c L (ik_key k) \<in> {Inr None, Inr (Some (ik_instance k))}))"
  by (induction ks) (auto simp: bindr_eq_Inr eval_owner split: if_splits)

lemma eval_current:
  assumes "eval L (current c ws ks) = Inr (ok, L')"
  shows "L' = L" and "ok \<Longrightarrow> w \<in> set ws \<Longrightarrow> turns_at c L (in_instance (iw_record w)) = Inr (iw_over w)"
    and "ok \<Longrightarrow> k \<in> set ks \<Longrightarrow> owner_at c L (ik_key k) \<in> {Inr None, Inr (Some (ik_instance k))}"
proof -
  obtain ok1 L1 where "eval L (current_instances c ws) = Inr (ok1, L1)"
    "eval L1 (if \<not> ok1 then Ret False else current_keys c ks) = Inr (ok, L')"
    using assms unfolding current_def eval_bindp_eq_Inr by blast
  then show "L' = L" "ok \<Longrightarrow> w \<in> set ws \<Longrightarrow> turns_at c L (in_instance (iw_record w)) = Inr (iw_over w)"
    "ok \<Longrightarrow> k \<in> set ks \<Longrightarrow> owner_at c L (ik_key k) \<in> {Inr None, Inr (Some (ik_instance k))}"
    using eval_current_instances [of L c ws ok1 L1] eval_current_keys [of L1 c ks ok L'] by (auto split: if_splits)
qed

text \<open>A turn that answers no has written nothing; one that answers yes stood where it was read.\<close>

lemma turn_parts:
  assumes "eval L (decide_turn c t now) = Inr (x, L')"
  obtains (stale) "eval L (current c (tu_instances t) (tu_keys t)) = Inr (False, L)" "x = False" "L' = L"
  | (not_held) "eval L (decide_hand_on c (tu_hand_on t) now) = Inr (False, L)" "x = False" "L' = L"
  | (moved) L1 where "stands c L t" "eval L (decide_hand_on c (tu_hand_on t) now) = Inr (True, L1)"
      "eval L1 (write_instances c (tu_instances t) (tu_keys t) (tu_unkeyed t)) = Inr ((), L')" "x = True"
proof -
  obtain ok L0 where 0: "eval L (current c (tu_instances t) (tu_keys t)) = Inr (ok, L0)"
    "eval L0 (if \<not> ok then Ret False else bindp (decide_hand_on c (tu_hand_on t) now) (\<lambda>handed.
       if \<not> handed then Ret False
       else bindp (write_instances c (tu_instances t) (tu_keys t) (tu_unkeyed t)) (\<lambda>_. Ret True))) = Inr (x, L')"
    using assms unfolding decide_turn_def eval_bindp_eq_Inr by blast
  have L0: "L0 = L" by (rule eval_current(1) [OF 0(1)])
  show ?thesis
  proof (cases ok)
    case False
    then have "x = False" "L' = L" using 0(2) L0 by auto
    then show ?thesis using 0(1) False L0 by (intro stale) auto
  next
    case True
    have st: "stands c L t" using eval_current(2,3) [OF 0(1) True] by (simp add: stands_def)
    from 0(2) True L0 have "eval L (bindp (decide_hand_on c (tu_hand_on t) now) (\<lambda>handed.
       if \<not> handed then Ret False
       else bindp (write_instances c (tu_instances t) (tu_keys t) (tu_unkeyed t)) (\<lambda>_. Ret True))) = Inr (x, L')"
      by (simp del: eval_bindp)
    then obtain handed L1 where 1: "eval L (decide_hand_on c (tu_hand_on t) now) = Inr (handed, L1)"
      "eval L1 (if \<not> handed then Ret False
       else bindp (write_instances c (tu_instances t) (tu_keys t) (tu_unkeyed t)) (\<lambda>_. Ret True)) = Inr (x, L')"
      unfolding eval_bindp_eq_Inr by blast
    show ?thesis
    proof (cases handed)
      case False
      then have "L1 = L" using 1(1) by (intro hand_on_false [of L c "tu_hand_on t" now L1]) simp
      moreover from this False have "x = False" "L' = L" using 1(2) by auto
      ultimately show ?thesis using 1(1) False by (intro not_held) auto
    next
      case True
      with 1(2) have "eval L1 (write_instances c (tu_instances t) (tu_keys t) (tu_unkeyed t)) = Inr ((), L') \<and> x = True"
        by (auto simp: bindr_eq_Inr)
      then show ?thesis using 1(1) True by (intro moved [OF st]) auto
    qed
  qed
qed

lemma turn_no_writes_nothing: "eval L (decide_turn c t now) = Inr (False, L') \<Longrightarrow> L' = L"
  by (erule turn_parts) auto

lemma turn_yes_stood: "eval L (decide_turn c t now) = Inr (True, L') \<Longrightarrow> stands c L t"
  by (erule turn_parts) auto

text \<open>What a turn leaves of the Instances and keys it wrote.\<close>

lemma put_instances_last:
  assumes "eval L (eachp (\<lambda>w. put_instance c (iw_record w)) ws) = Inr ((), L')"
    and "distinct (map (\<lambda>w. in_instance (iw_record w)) ws)" and "w \<in> set ws"
  shows "L' instance_kind (be128 (in_instance (iw_record w))) = Some (w_instance_record c (iw_record w))"
  using assms
proof (induction ws arbitrary: L)
  case (Cons x ws)
  let ?L1 = "upd L instance_kind (be128 (in_instance (iw_record x))) (Some (w_instance_record c (iw_record x)))"
  have rest: "eval ?L1 (eachp (\<lambda>w. put_instance c (iw_record w)) ws) = Inr ((), L')"
    using Cons.prems(1) by (simp add: put_instance_def)
  have keep: "M' instance_kind (be128 i) = M instance_kind (be128 i)"
    if "eval M (eachp (\<lambda>w. put_instance c (iw_record w)) ws) = Inr ((), M')"
      "i \<notin> set (map (\<lambda>w. in_instance (iw_record w)) ws)" for M M' i
    using that by (induction ws arbitrary: M) (auto simp: put_instance_def upd_apply)
  show ?case
    using Cons.IH [OF rest] Cons.prems(2,3) keep [OF rest, of "in_instance (iw_record x)"] by auto
qed simp

lemma put_keys_last:
  assumes "eval L (eachp (put_key c) ks) = Inr ((), L')"
    and "distinct (map ik_key ks)" and "k \<in> set ks"
  shows "L' instance_key_kind (be128 (ik_key k)) = Some (w_instance_key c k)"
  using assms
proof (induction ks arbitrary: L)
  case (Cons x ks)
  let ?L1 = "upd L instance_key_kind (be128 (ik_key x)) (Some (w_instance_key c x))"
  have rest: "eval ?L1 (eachp (put_key c) ks) = Inr ((), L')"
    using Cons.prems(1) put_key_def [of c x] by simp
  have keep: "M' instance_key_kind (be128 i) = M instance_key_kind (be128 i)"
    if "eval M (eachp (put_key c) ks) = Inr ((), M')" "i \<notin> set (map ik_key ks)" for M M' i
    using that by (induction ks arbitrary: M) (auto simp: put_key_def upd_apply)
  show ?case using Cons.IH [OF rest] Cons.prems(2,3) keep [OF rest, of "ik_key x"] by auto
qed simp

lemma take_keys_other:
  assumes "eval L (eachp (take_key c) gone) = Inr ((), L')" and "k \<notin> ik_key ` set gone"
  shows "L' instance_key_kind (be128 k) = L instance_key_kind (be128 k)"
  using assms
proof (induction gone arbitrary: L)
  case (Cons x gone)
  then obtain L1 where L1: "eval L (take_key c x) = Inr ((), L1)" "eval L1 (eachp (take_key c) gone) = Inr ((), L')"
    unfolding eachp.simps eval_bindp_eq_Inr by auto
  then have "L1 instance_key_kind (be128 k) = L instance_key_kind (be128 k)"
    using Cons.prems(2) by (auto simp: take_key_def eval_owner bindr_eq_Inr upd_apply split: if_splits)
  then show ?case using Cons.IH [OF L1(2)] Cons.prems(2) by simp
qed simp

lemma instance_writes:
  "writes {instance_kind} (eachp (\<lambda>w. put_instance c (iw_record w)) ws)"
  "writes {instance_key_kind} (eachp (put_key c) ks)" "writes {instance_key_kind} (eachp (take_key c) gone)"
  by (auto simp: put_instance_def put_key_def take_key_def owner_def)

lemma instance_kinds_apart [simp]: "instance_kind \<noteq> instance_key_kind" "instance_key_kind \<noteq> instance_kind"
  by (simp_all add: instance_kind_def instance_key_kind_def)

lemma written_instances:
  assumes ran: "eval L (write_instances c ws ks gone) = Inr ((), L')"
  shows "distinct (map (\<lambda>w. in_instance (iw_record w)) ws) \<Longrightarrow> w \<in> set ws \<Longrightarrow>
      L' instance_kind (be128 (in_instance (iw_record w))) = Some (w_instance_record c (iw_record w))"
    and "distinct (map ik_key ks) \<Longrightarrow> k \<in> set ks \<Longrightarrow> ik_key k \<notin> ik_key ` set gone \<Longrightarrow>
      L' instance_key_kind (be128 (ik_key k)) = Some (w_instance_key c k)"
proof -
  obtain L1 L2 where L: "eval L (eachp (\<lambda>w. put_instance c (iw_record w)) ws) = Inr ((), L1)"
    "eval L1 (eachp (put_key c) ks) = Inr ((), L2)" "eval L2 (eachp (take_key c) gone) = Inr ((), L')"
    using ran unfolding write_instances_def eval_bindp_eq_Inr by auto
  have "L2 instance_kind = L1 instance_kind" using writes_eval [OF instance_writes(2) L(2)] by simp
  moreover have "L' instance_kind = L2 instance_kind" using writes_eval [OF instance_writes(3) L(3)] by simp
  ultimately show "distinct (map (\<lambda>w. in_instance (iw_record w)) ws) \<Longrightarrow> w \<in> set ws \<Longrightarrow>
      L' instance_kind (be128 (in_instance (iw_record w))) = Some (w_instance_record c (iw_record w))"
    using put_instances_last [OF L(1)] by simp
  show "distinct (map ik_key ks) \<Longrightarrow> k \<in> set ks \<Longrightarrow> ik_key k \<notin> ik_key ` set gone \<Longrightarrow>
      L' instance_key_kind (be128 (ik_key k)) = Some (w_instance_key c k)"
    using put_keys_last [OF L(2)] take_keys_other [OF L(3)] by simp
qed

context codec_laws
begin

text \<open>Of two turns taken from one state of an Instance, or for one key, the later writes nothing.\<close>

lemma second_turn_refused:
  assumes first: "eval L (decide_turn c t now) = Inr (True, L')"
    and w: "w \<in> set (tu_instances t)" and distinct: "distinct (map (\<lambda>w. in_instance (iw_record w)) (tu_instances t))"
    and fit: "fit_instance_record c (iw_record w)" and moves: "in_turns (iw_record w) \<noteq> iw_over w"
    and w': "w' \<in> set (tu_instances t')" "in_instance (iw_record w') = in_instance (iw_record w)" "iw_over w' = iw_over w"
    and second: "eval L' (decide_turn c t' later) = Inr (x, L'')"
  shows "x = False \<and> L'' = L'"
proof -
  obtain L1 where "eval L1 (write_instances c (tu_instances t) (tu_keys t) (tu_unkeyed t)) = Inr ((), L')"
    using first by (rule turn_parts) auto
  from written_instances(1) [OF this distinct w] have
    "L' instance_kind (be128 (in_instance (iw_record w))) = Some (w_instance_record c (iw_record w))" .
  then have "turns_at c L' (in_instance (iw_record w')) = Inr (in_turns (iw_record w))"
    using fit w'(2) by (simp add: turns_at_def decode_turns_def instance_record.from_bytes_write)
  then have "\<not> stands c L' t'" using w' moves unfolding stands_def by fastforce
  from second show ?thesis by (rule turn_parts) (use \<open>\<not> stands c L' t'\<close> in auto)
qed

lemma second_key_refused:
  assumes first: "eval L (decide_turn c t now) = Inr (True, L')"
    and k: "k \<in> set (tu_keys t)" and distinct: "distinct (map ik_key (tu_keys t))"
    and gone: "ik_key k \<notin> ik_key ` set (tu_unkeyed t)"
    and k': "k' \<in> set (tu_keys t')" "ik_key k' = ik_key k" "ik_instance k' \<noteq> ik_instance k"
    and second: "eval L' (decide_turn c t' later) = Inr (x, L'')"
  shows "x = False \<and> L'' = L'"
proof -
  obtain L1 where "eval L1 (write_instances c (tu_instances t) (tu_keys t) (tu_unkeyed t)) = Inr ((), L')"
    using first by (rule turn_parts) auto
  from written_instances(2) [OF this distinct k gone] have
    "L' instance_key_kind (be128 (ik_key k)) = Some (w_instance_key c k)" .
  then have "owner_at c L' (ik_key k') = Inr (Some (ik_instance k))"
    using k'(2) by (simp add: owner_at_def decode_owner_def instance_key.from_bytes_write fit_instance_key_def)
  then have "\<not> stands c L' t'" using k' unfolding stands_def by fastforce
  from second show ?thesis by (rule turn_parts) (use \<open>\<not> stands c L' t'\<close> in auto)
qed

end

section \<open>Properties\<close>

definition sample_turn :: "u64 \<Rightarrow> turn" where
  "sample_turn n = \<lparr>tu_hand_on = sample_hand_on,
     tu_instances = [\<lparr>iw_record = \<lparr>in_instance = 5, in_work_process = ''p'', in_turns = n, in_ended = False, in_body = []\<rparr>,
       iw_over = 0\<rparr>],
     tu_keys = [\<lparr>ik_key = 6, ik_instance = 5\<rparr>], tu_unkeyed = []\<rparr>"

lemma sample_turned: "\<exists>L'. eval sample_claimed (decide_turn plain_codec (sample_turn n) 100) = Inr (True, L')"
proof -
  have none: "sample_claimed instance_kind key = None" "sample_claimed instance_key_kind key = None" for key
    by (simp_all add: sample_claimed_def set_claim_def instance_kind_def instance_key_kind_def claim_kind_def empty_ledger_def)
  obtain L1 where "eval sample_claimed (decide_hand_on plain_codec sample_hand_on 100) = Inr (True, L1)"
    using sample_hands_on_first [of None 100] by (auto simp: sample_hand_on_def)
  then show ?thesis
    by (simp add: decide_turn_def current_def sample_turn_def none decode_turns_def owner_def decode_owner_def
        write_instances_def put_instance_def put_key_def)
qed

text \<open>
  A turn that answers no has written nothing: an Instance it moves no longer stood where it
  was read, a key it correlates was another's, or its claim was not its holder's.
\<close>

theorem turn_no_nothing:
  assumes "eval L (decide_turn c t now) = Inr (False, L')"
  shows "L' = L"
  using turn_no_writes_nothing [OF assms] .

theorem turn_no_nothing_witness:
  "\<exists>L'. eval empty_ledger (decide_turn plain_codec (sample_turn 1) 100) = Inr (False, L') \<and> L' = empty_ledger"
proof -
  have "eval empty_ledger (decide_hand_on plain_codec sample_hand_on 100) = Inr (False, empty_ledger)"
    by (rule hand_on_refused [where s = None]) simp_all
  moreover have "empty_ledger k key = None" for k key by (simp add: empty_ledger_def)
  ultimately have "eval empty_ledger (decide_turn plain_codec (sample_turn 1) 100) = Inr (False, empty_ledger)"
    by (simp add: decide_turn_def current_def sample_turn_def decode_turns_def owner_def decode_owner_def)
  with turn_no_nothing [OF this] show ?thesis by blast
qed

text \<open>
  C16: Of two turns of one Instance, read at the same turn of it, the one decided later writes
  nothing: two nodes never both move an Instance on from one state.
\<close>

theorem one_turn_of_two:
  assumes "codec_laws c" and "eval L (decide_turn c t now) = Inr (True, L')"
    and "w \<in> set (tu_instances t)" and "distinct (map (\<lambda>w. in_instance (iw_record w)) (tu_instances t))"
    and "fit_instance_record c (iw_record w)" and "in_turns (iw_record w) \<noteq> iw_over w"
    and "w' \<in> set (tu_instances t')" and "in_instance (iw_record w') = in_instance (iw_record w)" and "iw_over w' = iw_over w"
    and "eval L' (decide_turn c t' later) = Inr (x, L'')"
  shows "x = False \<and> L'' = L'"
  using codec_laws.second_turn_refused [OF assms(1-9) assms(10)] .

theorem one_turn_of_two_witness:
  "\<exists>L'. eval sample_claimed (decide_turn plain_codec (sample_turn 1) 100) = Inr (True, L') \<and>
    (\<forall>x L''. eval L' (decide_turn plain_codec (sample_turn 2) 100) \<noteq> Inr (True, L''))"
proof -
  obtain L' where L': "eval sample_claimed (decide_turn plain_codec (sample_turn 1) 100) = Inr (True, L')"
    using sample_turned by blast
  have "x = False" if "eval L' (decide_turn plain_codec (sample_turn 2) 100) = Inr (x, L'')" for x L''
    using one_turn_of_two [OF plain.codec_laws_axioms L' _ _ _ _ _ _ _ that]
    by (auto simp: sample_turn_def fit_instance_record_def plain_codec_def)
  then show ?thesis using L' by blast
qed

text \<open>
  C17: Of two turns that correlate one key to two Instances, the one decided later writes
  nothing: two first arrivals of one key never both start an Instance by it.
\<close>

theorem one_instance_per_key:
  assumes "codec_laws c" and "eval L (decide_turn c t now) = Inr (True, L')"
    and "k \<in> set (tu_keys t)" and "distinct (map ik_key (tu_keys t))" and "ik_key k \<notin> ik_key ` set (tu_unkeyed t)"
    and "k' \<in> set (tu_keys t')" and "ik_key k' = ik_key k" and "ik_instance k' \<noteq> ik_instance k"
    and "eval L' (decide_turn c t' later) = Inr (x, L'')"
  shows "x = False \<and> L'' = L'"
  using codec_laws.second_key_refused [OF assms] .

theorem one_instance_per_key_witness:
  "\<exists>L'. eval sample_claimed (decide_turn plain_codec (sample_turn 1) 100) = Inr (True, L') \<and>
    (\<forall>x L''. eval L' (decide_turn plain_codec ((sample_turn 1)\<lparr>tu_instances := [],
      tu_keys := [\<lparr>ik_key = 6, ik_instance = 8\<rparr>]\<rparr>) 100) \<noteq> Inr (True, L''))"
proof -
  obtain L' where L': "eval sample_claimed (decide_turn plain_codec (sample_turn 1) 100) = Inr (True, L')"
    using sample_turned by blast
  have "x = False" if "eval L' (decide_turn plain_codec ((sample_turn 1)\<lparr>tu_instances := [],
      tu_keys := [\<lparr>ik_key = 6, ik_instance = 8\<rparr>]\<rparr>) 100) = Inr (x, L'')" for x L''
    using one_instance_per_key [OF plain.codec_laws_axioms L' _ _ _ _ _ _ that]
    by (auto simp: sample_turn_def)
  then show ?thesis using L' by blast
qed

end
