(* ===== verification/Commit.thy ===== *)
theory Commit
  imports Publication Instance
begin

text \<open>
  The embedded Storage node's one writer (\<open>src/.src/storage/commit.rs\<close>): the writes it decides
  (\<open>Op\<close>), what each decided (\<open>Done\<close>), and a group of them decided one after the other, each on
  a stage of its own over what the batch has written so far. A group is shown to be decided as
  its operations one after the other would be, each all of it or none of it.
\<close>

section \<open>One write\<close>

datatype op =
    OpPut kind key bytes
  | OpClaim claim i128
  | OpRenew "claim list" i128
  | OpRelease claim
  | OpHandOn hand_on
  | OpTurn turn
  | OpPublish publication
  | OpReplay replay
  | OpAudit audit_entry
  | OpKept u64

datatype outcome =
    Written
  | DoneClaim "claim option"
  | DoneClaims "claim list"
  | Yes bool
  | DoneReplayed replayed

definition audit_kind :: kind where "audit_kind = ''audit''"
definition sequence_kind :: kind where "sequence_kind = ''audit-sequence''"
definition next_key :: key where "next_key = as_bytes ''next''"
definition kept_key :: key where "kept_key = as_bytes ''kept''"

definition decode_sequence :: "bytes option \<Rightarrow> u64 result" where
  "decode_sequence v = (case v of None \<Rightarrow> Inr 0
   | Some bytes \<Rightarrow> if length bytes = 8 then Inr (word_of_nat (from_be bytes))
       else Inl (malformed ''an audit sequence that is not eight bytes''))"

text \<open>The number a sequence's place holds, as the store has it.\<close>

definition sequence :: "store_get \<Rightarrow> key \<Rightarrow> u64 result" where
  "sequence g place' = bindr (g sequence_kind place') decode_sequence"

text \<open>One claim renewed, where it is still its holder's: a later deadline is kept.\<close>

definition renew_one :: "codec \<Rightarrow> i128 \<Rightarrow> i128 \<Rightarrow> claim \<Rightarrow> claim option prog" where
  "renew_one c now lease claim = bindp (stored_claim c claim) (\<lambda>s. case s of
     Some s \<Rightarrow> if held_by s claim
       then let until = i128_add now lease;
                until' = (if sint until \<le> sint (cl_until_unix_nanos (st_claim s))
                          then cl_until_unix_nanos (st_claim s) else until)
            in bindp (hold_claim c (st_claim s) until') (\<lambda>x. Ret (Some x))
       else Ret None
   | None \<Rightarrow> Ret None)"

definition decide_release :: "codec \<Rightarrow> claim \<Rightarrow> bool prog" where
  "decide_release c claim = bindp (stored_claim c claim) (\<lambda>s. case s of
     Some s \<Rightarrow> if held_by s claim then bindp (end_claim c (st_claim s) Released) (\<lambda>_. Ret True) else Ret False
   | None \<Rightarrow> Ret False)"

definition decide_audit :: "codec \<Rightarrow> audit_entry \<Rightarrow> u64 \<Rightarrow> (outcome \<times> u64) prog" where
  "decide_audit c entry next' =
     Put audit_kind (be64 next') (Some (w_audit_entry c entry)) (Ret (Written, next' + 1))"

definition decide_kept :: "u64 \<Rightarrow> bool prog" where
  "decide_kept number = Read sequence_kind kept_key (\<lambda>v. bindp (liftp (decode_sequence v)) (\<lambda>n.
     if n \<noteq> number then Ret False
     else Put audit_kind (be64 number) None
         (Put sequence_kind kept_key (Some (be64 (number + 1))) (Ret True))))"

text \<open>What a write decides, and the audit sequence's next number after it.\<close>

primrec decide :: "codec \<Rightarrow> i128 \<Rightarrow> u64 \<Rightarrow> u64 \<Rightarrow> op \<Rightarrow> (outcome \<times> u64) prog" where
  "decide c now epoch next' (OpPut k key value) = Put k key (Some value) (Ret (Written, next'))"
| "decide c now epoch next' (OpClaim claim lease) =
     bindp (take_claim c claim (now, i128_add now lease, epoch)) (\<lambda>x. Ret (DoneClaim x, next'))"
| "decide c now epoch next' (OpRenew claims lease) =
     bindp (gatherp (renew_one c now lease) claims) (\<lambda>xs. Ret (DoneClaims xs, next'))"
| "decide c now epoch next' (OpRelease claim) = bindp (decide_release c claim) (\<lambda>b. Ret (Yes b, next'))"
| "decide c now epoch next' (OpHandOn h) = bindp (decide_hand_on c h now) (\<lambda>b. Ret (Yes b, next'))"
| "decide c now epoch next' (OpTurn t) = bindp (decide_turn c t now) (\<lambda>b. Ret (Yes b, next'))"
| "decide c now epoch next' (OpPublish p) = bindp (decide_publication c p (now, epoch)) (\<lambda>d. case d of
       DecidedBefore held \<Rightarrow> Ret (DoneClaims held, next')
     | DecidedNow held \<Rightarrow> bindp (decide_audit c (pb_audit p) next') (\<lambda>(_, n). Ret (DoneClaims held, n)))"
| "decide c now epoch next' (OpReplay r) = bindp (decide_replay c r) (\<lambda>d. case d of
       Now \<Rightarrow> bindp (decide_audit c (rp_audit r) next') (\<lambda>(_, n). Ret (DoneReplayed Now, n))
     | Before \<Rightarrow> Ret (DoneReplayed Before, next')
     | Absent \<Rightarrow> Ret (DoneReplayed Absent, next'))"
| "decide c now epoch next' (OpAudit entry) = decide_audit c entry next'"
| "decide c now epoch next' (OpKept number) = bindp (decide_kept number) (\<lambda>b. Ret (Yes b, next'))"

section \<open>A group\<close>

text \<open>
  Each write of a group with the epoch the writer loads for it, decided on a stage of its own:
  taken into the batch where it was decided, dropped where it failed.
\<close>

fun decide_group :: "codec \<Rightarrow> store_get \<Rightarrow> i128 \<Rightarrow> (op \<times> u64) list \<Rightarrow> batch \<times> u64 \<Rightarrow>
    outcome result list \<times> batch \<times> u64" where
  "decide_group c g now [] bn = ([], bn)"
| "decide_group c g now ((op, epoch) # ops) bn = (let (b, next') = bn in
     case run g (staged b) (decide c now epoch next' op) of
       (Inr (d, n), st) \<Rightarrow> (let (ds, r) = decide_group c g now ops (taken st, n) in (Inr d # ds, r))
     | (Inl e, st) \<Rightarrow> (let (ds, r) = decide_group c g now ops (dropped st, next') in (Inl e # ds, r)))"

text \<open>The same writes one after the other on a ledger: what a group means.\<close>

fun in_turn :: "codec \<Rightarrow> i128 \<Rightarrow> (op \<times> u64) list \<Rightarrow> ledger \<times> u64 \<Rightarrow> outcome result list \<times> ledger \<times> u64" where
  "in_turn c now [] Ln = ([], Ln)"
| "in_turn c now ((op, epoch) # ops) Ln = (let (L, next') = Ln in
     case eval L (decide c now epoch next' op) of
       Inr ((d, n), L') \<Rightarrow> (let (ds, r) = in_turn c now ops (L', n) in (Inr d # ds, r))
     | Inl e \<Rightarrow> (let (ds, r) = in_turn c now ops (L, next') in (Inl e # ds, r)))"

lemma staged_run:
  assumes "agrees g b L"
  shows "(\<forall>e. eval L p = Inl e \<longrightarrow> fst (run g (staged b) p) = Inl e \<and>
      agrees g (dropped (snd (run g (staged b) p))) L \<and> changes (dropped (snd (run g (staged b) p))) = changes b)"
    and "(\<forall>x L'. eval L p = Inr (x, L') \<longrightarrow> fst (run g (staged b) p) = Inr x \<and>
      agrees g (taken (snd (run g (staged b) p))) L' \<and>
      changes (taken (snd (run g (staged b) p))) = changes b @ trace L p)"
proof -
  have staged: "agrees g (staged b) L" "distinct_places (staged b)"
    using assms by (simp_all add: agrees_def staged_def distinct_places_def) (simp add: view_staged [unfolded staged_def])
  obtain b' w cs where st: "snd (run g (staged b) p) = Stage b' w cs" "view g b' = view g b" "changes b' = changes b"
    using run_Stage [of g b "[]" "[]" p] unfolding staged_def by blast
  have distinct: "distinct_places (Stage b' w cs)" using distinct_places_run [OF staged(2), of g p] st(1) by simp
  note r = run_eval [OF staged(1), of p]
  show "(\<forall>e. eval L p = Inl e \<longrightarrow> fst (run g (staged b) p) = Inl e \<and>
      agrees g (dropped (snd (run g (staged b) p))) L \<and> changes (dropped (snd (run g (staged b) p))) = changes b)"
    using r st assms by (simp add: agrees_def)
  have "changes (taken (Stage b' w cs)) = changes b' @ cs" by (cases b') simp_all
  moreover have "changes (staged b) = []" by (simp add: staged_def)
  ultimately show "(\<forall>x L'. eval L p = Inr (x, L') \<longrightarrow> fst (run g (staged b) p) = Inr x \<and>
      agrees g (taken (snd (run g (staged b) p))) L' \<and>
      changes (taken (snd (run g (staged b) p))) = changes b @ trace L p)"
    using r st view_taken [OF distinct, of g] by (auto simp: agrees_def)
qed

lemma group_in_turn:
  assumes "agrees g b L" and "in_turn c now ops (L, n) = (ds, L', n')"
  shows "\<exists>b'. decide_group c g now ops (b, n) = (ds, b', n') \<and> agrees g b' L' \<and>
    (\<exists>cs. changes b' = changes b @ cs \<and> L' = apply_changes L cs)"
  using assms
proof (induction ops arbitrary: b L n ds)
  case (Cons oe ops)
  obtain op epoch where oe: "oe = (op, epoch)" by (cases oe)
  let ?p = "decide c now epoch n op"
  obtain r st where rs: "run g (staged b) ?p = (r, st)" by (cases "run g (staged b) ?p")
  note s = staged_run [OF Cons.prems(1), of ?p]
  show ?case
  proof (cases "eval L ?p")
    case (Inl e)
    then obtain ds' where ds: "ds = Inl e # ds'" "in_turn c now ops (L, n) = (ds', L', n')"
      using Cons.prems(2) by (cases "in_turn c now ops (L, n)") (auto simp: oe)
    have d: "r = Inl e" "agrees g (dropped st) L" "changes (dropped st) = changes b"
      using s(1) Inl rs by auto
    show ?thesis using Cons.IH [OF d(2) ds(2)] d ds(1) rs by (auto simp: oe)
  next
    case (Inr xl)
    obtain x n1 L1 where xl: "xl = ((x, n1), L1)" by (cases xl) auto
    then obtain ds' where ds: "ds = Inr x # ds'" "in_turn c now ops (L1, n1) = (ds', L', n')"
      using Cons.prems(2) Inr by (cases "in_turn c now ops (L1, n1)") (auto simp: oe)
    have d: "r = Inr (x, n1)" "agrees g (taken st) L1" "changes (taken st) = changes b @ trace L ?p"
      using s(2) Inr rs xl by auto
    have "L1 = apply_changes L (trace L ?p)" using eval_trace [of L ?p "(x, n1)" L1] Inr xl by simp
    then show ?thesis using Cons.IH [OF d(2) ds(2)] d ds(1) rs by (auto simp: oe)
  qed
qed auto

section \<open>A claim is its holder's\<close>

text \<open>
  Every claim is kept under its own Message. A claim held, and not lapsed, stays so through
  every write but its holder's own release or hand-on: its token and fence are the same and its
  time no shorter.
\<close>

definition held_still :: "codec \<Rightarrow> u128 \<Rightarrow> claim \<Rightarrow> ledger \<Rightarrow> bool" where
  "held_still c j claim L \<longleftrightarrow> (\<exists>s. claim_now c L j = Inr (Some s) \<and> st_standing s = standing.Held \<and>
     claim_is (st_claim s) claim \<and> sint (cl_until_unix_nanos claim) \<le> sint (cl_until_unix_nanos (st_claim s)))"

text \<open>Whose claim a write would end, where it is held by who asks.\<close>

definition ends :: "op \<Rightarrow> claim option" where
  "ends op = (case op of OpRelease claim \<Rightarrow> Some claim | OpHandOn h \<Rightarrow> Some (ha_claim h)
     | OpTurn t \<Rightarrow> Some (ha_claim (tu_hand_on t)) | _ \<Rightarrow> None)"

definition writes_claims_raw :: "op \<Rightarrow> bool" where
  "writes_claims_raw op \<longleftrightarrow> (case op of OpPut k key v \<Rightarrow> k = claim_kind | _ \<Rightarrow> False)"

definition asked_claims :: "op \<Rightarrow> claim set" where
  "asked_claims op = (case op of OpClaim claim lease \<Rightarrow> {claim} | OpPublish p \<Rightarrow> set (pb_claims p) | _ \<Rightarrow> {})"

lemma decide_replay_writes: "writes (replay_writes_set \<union> kinds_of dead_kinds) (decide_replay c r)"
proof -
  let ?S = "replay_writes_set \<union> kinds_of dead_kinds"
  have "writes ?S (eachp (\<lambda>j. bindp (counted c j hs) (\<lambda>_. put_journey c j)) js)" "writes ?S (eachp (keep c) hs)" for hs js
    by (rule writes_mono, rule replay_rest_writes, simp)+
  moreover have "writes ?S (placed dead_kinds qa)" "writes ?S (take_out c dead_kinds q s)" "writes ?S (remember dead_kinds qa)"
    for qa q s by (rule writes_mono, rule queue_writes, simp)+
  ultimately show ?thesis by (auto simp: decide_replay_def Let_def split: placed.splits del: writes_eachp)
qed

lemma claim_kind_not_replayed [simp]: "claim_kind \<notin> replay_writes_set" "claim_kind \<notin> kinds_of dead_kinds"
  by (simp_all add: claim_kind_def replay_writes_set_def journey_kind_def origin_kind_def kinds_of_def
      hold_kinds_def dead_kinds_def)

lemma claim_now_same: "L' claim_kind = L claim_kind \<Longrightarrow> claim_now c L' j = claim_now c L j"
  by (simp add: claim_now_def)

lemma claims_same:
  assumes "L' claim_kind = L claim_kind"
  shows "claims_home c L' = claims_home c L" and "held_still c j claim L' = held_still c j claim L"
  using assms by (simp_all add: claims_home_def held_still_def claim_now_same [where L' = L' and L = L, OF assms])

lemma claims_both:
  "L' claim_kind = L claim_kind \<Longrightarrow>
    (claims_home c L' \<and> held_still c j claim L') = (claims_home c L \<and> held_still c j claim L)"
  by (simp add: claims_same [of L' L])

lemma eval_stored_Some:
  assumes "eval L (bindp (stored_claim c x) f) = Inr (y, L')"
  obtains s where "claim_now c L (cl_journey x) = Inr s" "eval L (f s) = Inr (y, L')"
  using assms by (auto simp: eval_stored_claim bindr_eq_Inr)

context codec_laws
begin

lemma claims_home_set:
  "claims_home c L \<Longrightarrow> fit_claim c (st_claim s) \<Longrightarrow> claims_home c (set_claim c L s)"
  by (auto simp: claims_home_def)

lemma take_claim_keeps:
  assumes home: "claims_home c L" and held: "held_still c j claim L"
    and now: "sint now \<le> sint (cl_until_unix_nanos claim)" and fit: "fit_claim c x"
    and ran: "eval L (take_claim c x (now, until, epoch)) = Inr (r, L')"
  shows "claims_home c L' \<and> held_still c j claim L'"
proof -
  obtain prior where prior: "claim_now c L (cl_journey x) = Inr prior"
    using ran by (cases "claim_now c L (cl_journey x)") (simp_all add: take_claim_def eval_stored_claim)
  show ?thesis
  proof (cases "free_at prior now")
    case True
    then have "cl_journey x \<noteq> j" using held now prior by (auto simp: held_still_def free_at_def)
    moreover have L': "L' = set_claim c L \<lparr>st_claim = granted x prior until epoch, st_standing = standing.Held\<rparr>"
      using ran True by (simp add: eval_take_claim [OF prior])
    moreover have "fit_claim c (granted x prior until epoch)" using fit by (simp add: granted_def fit_claim_def)
    ultimately show ?thesis
      using home held claims_home_set [of L "\<lparr>st_claim = granted x prior until epoch, st_standing = standing.Held\<rparr>"]
      by (auto simp: held_still_def granted_def)
  next
    case False
    then show ?thesis using ran home held by (simp add: eval_take_claim [OF prior])
  qed
qed

lemma set_own_claim_keeps:
  assumes home: "claims_home c L" and held: "held_still c j claim L"
    and s: "claim_now c L i = Inr (Some s)" and s': "st_standing s' = standing.Held"
      "claim_is (st_claim s') (st_claim s)" "cl_journey (st_claim s') = i" "fit_claim c (st_claim s')"
      "sint (cl_until_unix_nanos (st_claim s)) \<le> sint (cl_until_unix_nanos (st_claim s'))"
  shows "claims_home c (set_claim c L s') \<and> held_still c j claim (set_claim c L s')"
proof
  show "claims_home c (set_claim c L s')" using home s'(4) by (rule claims_home_set)
  show "held_still c j claim (set_claim c L s')"
  proof (cases "i = j")
    case True
    have "st_standing s = standing.Held" "claim_is (st_claim s) claim"
      "sint (cl_until_unix_nanos claim) \<le> sint (cl_until_unix_nanos (st_claim s))"
      using held s True by (auto simp: held_still_def)
    moreover have "claim_now c (set_claim c L s') j = Inr (Some s')" using s'(3,4) True by simp
    ultimately show ?thesis using s' unfolding held_still_def claim_is_def by auto
  next
    case False
    then show ?thesis using held s'(3,4) by (simp add: held_still_def)
  qed
qed

lemma renew_keeps:
  assumes home: "claims_home c L" and held: "held_still c j claim L"
    and ran: "eval L (renew_one c now lease x) = Inr (r, L')"
  shows "claims_home c L' \<and> held_still c j claim L'"
  using ran unfolding renew_one_def
proof (rule eval_stored_Some)
  fix s
  assume s: "claim_now c L (cl_journey x) = Inr s"
    and rest: "eval L (case s of Some s \<Rightarrow> if held_by s x
       then let until = i128_add now lease;
                until' = (if sint until \<le> sint (cl_until_unix_nanos (st_claim s))
                          then cl_until_unix_nanos (st_claim s) else until)
            in bindp (hold_claim c (st_claim s) until') (\<lambda>x. Ret (Some x))
       else Ret None | None \<Rightarrow> Ret None) = Inr (r, L')"
  show ?thesis
  proof (cases "s = None \<or> \<not> held_by (the s) x")
    case True
    then have "L' = L" using rest by (auto split: option.splits)
    then show ?thesis using home held by simp
  next
    case False
    then obtain s0 where s0: "s = Some s0" "held_by s0 x" by auto
    define until' where "until' = (if sint (i128_add now lease) \<le> sint (cl_until_unix_nanos (st_claim s0))
      then cl_until_unix_nanos (st_claim s0) else i128_add now lease)"
    let ?s = "\<lparr>st_claim = (st_claim s0)\<lparr>cl_until_unix_nanos := until'\<rparr>, st_standing = standing.Held\<rparr>"
    have "L' = set_claim c L ?s"
      using rest s0 unfolding until'_def by (simp add: eval_hold_claim Let_def del: if_split)
    moreover have "cl_journey (st_claim s0) = cl_journey x" using home s s0(1) by (simp add: claims_home_def)
    moreover have "fit_claim c (st_claim s0)" using claim_now_fit s s0(1) by simp
    ultimately show ?thesis
      using set_own_claim_keeps [OF home held s [unfolded s0(1)], of ?s]
      by (simp add: claim_is_def fit_claim_def until'_def)
  qed
qed

lemma gather_keeps:
  assumes "\<And>L x r L'. x \<in> set xs \<Longrightarrow> P L \<Longrightarrow> eval L (f x) = Inr (r, L') \<Longrightarrow> P L'"
    and "P L" and "eval L (gatherp f xs) = Inr (ys, L')"
  shows "P L'"
  using assms
proof (induction xs arbitrary: L ys)
  case (Cons x xs)
  from Cons.prems(3) obtain r L1 rs where "eval L (f x) = Inr (r, L1)" "eval L1 (gatherp f xs) = Inr (rs, L')"
    by (rule eval_gather_Cons)
  then show ?case using Cons.IH [of L1 rs] Cons.prems(1,2) by (metis list.set_intros)
qed simp

lemma release_keeps:
  assumes home: "claims_home c L" and held: "held_still c j claim L" and other: "\<not> claim_is claim x"
    and ran: "eval L (decide_release c x) = Inr (r, L')"
  shows "claims_home c L' \<and> held_still c j claim L'"
  using ran unfolding decide_release_def
proof (rule eval_stored_Some)
  fix s
  assume s: "claim_now c L (cl_journey x) = Inr s" and rest: "eval L (case s of
     Some s \<Rightarrow> if held_by s x then bindp (end_claim c (st_claim s) Released) (\<lambda>_. Ret True) else Ret False
   | None \<Rightarrow> Ret False) = Inr (r, L')"
  show ?thesis
  proof (cases "s = None \<or> \<not> held_by (the s) x")
    case True
    then have "L' = L" using rest by (auto split: option.splits)
    then show ?thesis using home held by simp
  next
    case False
    then obtain s0 where s0: "s = Some s0" "held_by s0 x" by auto
    have key: "cl_journey (st_claim s0) = cl_journey x" using home s s0(1) by (simp add: claims_home_def)
    have fit: "fit_claim c (st_claim s0)" using claim_now_fit s s0(1) by simp
    have "cl_journey x \<noteq> j" using held s s0 other by (auto simp: held_still_def held_by_def claim_is_def)
    moreover have L': "L' = set_claim c L \<lparr>st_claim = st_claim s0, st_standing = Released\<rparr>"
      using rest s0 by (simp add: eval_end_claim)
    ultimately show ?thesis
      using home held fit key claims_home_set [of L "\<lparr>st_claim = st_claim s0, st_standing = Released\<rparr>"]
      by (auto simp: held_still_def)
  qed
qed

lemma hand_on_keeps:
  assumes home: "claims_home c L" and held: "held_still c j claim L" and other: "\<not> claim_is claim (ha_claim h)"
    and ran: "eval L (decide_hand_on c h now) = Inr (r, L')"
  shows "claims_home c L' \<and> held_still c j claim L'"
proof -
  obtain s where s: "claim_now c L (cl_journey (ha_claim h)) = Inr s"
    using ran by (cases "claim_now c L (cl_journey (ha_claim h))") (simp_all add: decide_hand_on_def eval_stored_claim)
  show ?thesis
  proof (cases "\<exists>s0. s = Some s0 \<and> st_standing s0 = standing.Held \<and> claim_is (st_claim s0) (ha_claim h)")
    case True
    then obtain s0 where s0: "s = Some s0" "st_standing s0 = standing.Held" "claim_is (st_claim s0) (ha_claim h)" by blast
    have key: "cl_journey (st_claim s0) = cl_journey (ha_claim h)" using home s s0(1) by (simp add: claims_home_def)
    note a = hand_on_accepted [OF s [unfolded s0(1)] s0(2,3) key ran]
    have "cl_journey (ha_claim h) \<noteq> j" using held s s0 other by (auto simp: held_still_def claim_is_def)
    then show ?thesis using a(4) [OF home] a(5) [of j] held by (auto simp: held_still_def)
  next
    case False
    have "L' = L"
    proof (cases s)
      case None
      then show ?thesis using ran hand_on_refused [OF s, of now] by simp
    next
      case (Some s0)
      then show ?thesis
        using ran False hand_on_refused [OF s, of now] hand_on_before [of c L h s0 now] s by (cases "st_standing s0") auto
    qed
    then show ?thesis using home held by simp
  qed
qed

lemma turn_keeps:
  assumes home: "claims_home c L" and held: "held_still c j claim L" and other: "\<not> claim_is claim (ha_claim (tu_hand_on t))"
    and ran: "eval L (decide_turn c t now) = Inr (r, L')"
  shows "claims_home c L' \<and> held_still c j claim L'"
  using ran
proof (rule turn_parts)
  fix L1
  assume h: "eval L (decide_hand_on c (tu_hand_on t) now) = Inr (True, L1)"
    and w: "eval L1 (write_instances c (tu_instances t) (tu_keys t) (tu_unkeyed t)) = Inr ((), L')"
  have "writes {instance_kind, instance_key_kind} (write_instances c (tu_instances t) (tu_keys t) (tu_unkeyed t))"
  proof -
    have "writes {instance_kind, instance_key_kind} (eachp (\<lambda>w. put_instance c (iw_record w)) ws)"
      "writes {instance_kind, instance_key_kind} (eachp (put_key c) ks)"
      "writes {instance_kind, instance_key_kind} (eachp (take_key c) ks)" for ws ks
      by (rule writes_mono, rule instance_writes, simp)+
    then show ?thesis by (auto simp: write_instances_def del: writes_eachp)
  qed
  from writes_eval [OF this w] have "L' claim_kind = L1 claim_kind"
    by (simp add: claim_kind_def instance_kind_def instance_key_kind_def)
  from claims_both [of L' L1 c j claim, OF this] hand_on_keeps [OF home held other h] show ?thesis by simp
qed (use home held in auto)

lemma publication_keeps:
  assumes home: "claims_home c L" and held: "held_still c j claim L"
    and now: "sint now \<le> sint (cl_until_unix_nanos claim)" and fit: "list_all (fit_claim c) (pb_claims p)"
    and ran: "eval L (decide_publication c p (now, epoch)) = Inr (r, L')"
  shows "claims_home c L' \<and> held_still c j claim L'"
proof (cases r)
  case (DecidedNow hs)
  obtain L1 L2 where L: "eval L (publish_body c p) = Inr ((), L1)"
    "eval L1 (gatherp (\<lambda>x. take_claim c x (now, i128_add now (i128_of_u64 (pb_lease_nanos p)), epoch)) (pb_claims p)) = Inr (hs, L2)"
    "L' = upd L2 publication_kind (be128 (mr_message (pb_message p))) (Some (sha1 c (w_publication c p)))"
    using publication_written(3) [OF ran [unfolded DecidedNow]] by blast
  have "L1 claim_kind = L claim_kind" using writes_eval [OF publish_body_writes L(1)] by simp
  then have "claims_home c L1 \<and> held_still c j claim L1" using home held claims_both [of L1 L c j claim] by simp
  moreover have "claims_home c K' \<and> held_still c j claim K'"
    if "x \<in> set (pb_claims p)" "claims_home c K \<and> held_still c j claim K"
      "eval K (take_claim c x (now, until, epoch)) = Inr (y, K')" for x K y K' until
    using take_claim_keeps [of K j claim now x until epoch y K'] that now fit by (simp add: list_all_iff)
  ultimately have "claims_home c L2 \<and> held_still c j claim L2"
    using gather_keeps [where P = "\<lambda>K. claims_home c K \<and> held_still c j claim K", OF _ _ L(2)] by blast
  moreover have "L' claim_kind = L2 claim_kind" by (simp add: L(3))
  ultimately show ?thesis using claims_both [of L' L2 c j claim] by simp
next
  case (DecidedBefore hs)
  have "L' = L"
  proof -
    have reads: "eval M (gatherp (still_held c) xs) = Inr (ys, M') \<Longrightarrow> M' = M" for M M' xs ys
      by (rule gather_keeps [where P = "\<lambda>K. K = M"])
        (auto simp: still_held_def eval_stored_claim bindr_eq_Inr)
    obtain w where "L publication_kind (be128 (mr_message (pb_message p))) = Some w"
    proof (cases "L publication_kind (be128 (mr_message (pb_message p)))")
      case None
      with ran DecidedBefore have False by (auto simp: decide_publication_def Let_def bindr_eq_Inr)
      then show ?thesis ..
    qed
    then show ?thesis
      using ran DecidedBefore by (auto simp: decide_publication_def Let_def bindr_eq_Inr dest: reads split: if_splits)
  qed
  then show ?thesis using home held by simp
qed

text \<open>Whatever the writer decides, a claim held and not lapsed is ended only by who holds it.\<close>

lemma audit_keeps:
  assumes "eval L (decide_audit c e n) = Inr (r, L')"
  shows "L' claim_kind = L claim_kind"
  using assms by (auto simp: decide_audit_def audit_kind_def claim_kind_def)

lemma decide_keeps:
  assumes home: "claims_home c L" and held: "held_still c j claim L"
    and now: "sint now \<le> sint (cl_until_unix_nanos claim)"
    and fit: "\<And>x. x \<in> asked_claims op \<Longrightarrow> fit_claim c x" and raw: "\<not> writes_claims_raw op"
    and other: "\<And>x. ends op = Some x \<Longrightarrow> \<not> claim_is claim x"
    and ran: "eval L (decide c now epoch n op) = Inr ((d, n'), L')"
  shows "claims_home c L' \<and> held_still c j claim L'"
proof (cases op)
  case (OpPut k key v)
  then have "L' claim_kind = L claim_kind" using ran raw by (auto simp: writes_claims_raw_def)
  then show ?thesis using claims_both [of L' L c j claim] home held by simp
next
  case (OpClaim x lease)
  then show ?thesis using ran take_claim_keeps [OF home held now] fit by (auto simp: bindr_eq_Inr asked_claims_def)
next
  case (OpRenew xs lease)
  then obtain ys where "eval L (gatherp (renew_one c now lease) xs) = Inr (ys, L')" using ran by (auto simp: bindr_eq_Inr)
  then show ?thesis
    using gather_keeps [where P = "\<lambda>K. claims_home c K \<and> held_still c j claim K" and f = "renew_one c now lease" and L = L]
      home held renew_keeps by meson
next
  case (OpRelease x)
  then show ?thesis using ran release_keeps [OF home held other] by (auto simp: bindr_eq_Inr ends_def)
next
  case (OpHandOn h)
  then show ?thesis using ran hand_on_keeps [OF home held other] by (auto simp: bindr_eq_Inr ends_def)
next
  case (OpTurn t)
  then show ?thesis using ran turn_keeps [OF home held other] by (auto simp: bindr_eq_Inr ends_def)
next
  case (OpPublish p)
  obtain r L1 where r: "eval L (decide_publication c p (now, epoch)) = Inr (r, L1)"
    "eval L1 (case r of DecidedBefore hs \<Rightarrow> Ret (DoneClaims hs, n)
      | DecidedNow hs \<Rightarrow> bindp (decide_audit c (pb_audit p) n) (\<lambda>(_, m). Ret (DoneClaims hs, m))) = Inr ((d, n'), L')"
    using ran unfolding OpPublish decide.simps eval_bindp_eq_Inr by blast
  have "L' claim_kind = L1 claim_kind"
    using r(2) by (cases r) (auto simp: bindr_eq_Inr dest: audit_keeps)
  then show ?thesis
    using publication_keeps [OF home held now _ r(1)] fit claims_both [of L' L1 c j claim] OpPublish
    by (auto simp: asked_claims_def list_all_iff)
next
  case (OpReplay r)
  obtain x L1 where x: "eval L (decide_replay c r) = Inr (x, L1)"
    "eval L1 (case x of Now \<Rightarrow> bindp (decide_audit c (rp_audit r) n) (\<lambda>(_, m). Ret (DoneReplayed Now, m))
      | Before \<Rightarrow> Ret (DoneReplayed Before, n) | Absent \<Rightarrow> Ret (DoneReplayed Absent, n)) = Inr ((d, n'), L')"
    using ran unfolding OpReplay decide.simps eval_bindp_eq_Inr by blast
  have "L' claim_kind = L1 claim_kind"
    using x(2) by (cases x) (auto simp: bindr_eq_Inr dest: audit_keeps)
  moreover have "L1 claim_kind = L claim_kind"
    using writes_eval [OF decide_replay_writes x(1)] by simp
  ultimately have "L' claim_kind = L claim_kind" by simp
  then show ?thesis using claims_both [of L' L c j claim] home held by simp
next
  case (OpAudit e)
  then have "L' claim_kind = L claim_kind" using ran audit_keeps by simp
  then show ?thesis using claims_both [of L' L c j claim] home held by simp
next
  case (OpKept k)
  then have "L' claim_kind = L claim_kind"
    using ran by (auto simp: decide_kept_def bindr_eq_Inr audit_kind_def sequence_kind_def claim_kind_def split: if_splits)
  then show ?thesis using claims_both [of L' L c j claim] home held by simp
qed

end

section \<open>Properties\<close>

lemma agrees_empty: "agrees (\<lambda>k key. Inr (L k key)) empty_batch L"
  by (simp add: agrees_def view_def empty_batch_def)

text \<open>
  A group decided as one batch is decided as its writes one after the other would be: each
  answered the same, one that fails leaving nothing of itself, and the batch's changes, in
  order, make of the store the ledger they would.
\<close>

theorem group_is_serial:
  assumes "agrees g b L" and "in_turn c now ops (L, n) = (ds, L', n')"
  shows "\<exists>b'. decide_group c g now ops (b, n) = (ds, b', n') \<and> agrees g b' L' \<and>
    (\<exists>cs. changes b' = changes b @ cs \<and> L' = apply_changes L cs)"
  using group_in_turn [OF assms] .

theorem group_is_serial_witness:
  "\<exists>cl b'. decide_group plain_codec (\<lambda>k key. Inr (empty_ledger k key)) 100
      [(OpClaim (sample_claim ''a'' 1) 50, 3), (OpClaim (sample_claim ''b'' 2) 50, 3)] (empty_batch, 0) =
    ([Inr (DoneClaim (Some cl)), Inr (DoneClaim None)], b', 0) \<and> cl_token cl = 1"
proof -
  let ?a = "sample_claim ''a'' 1" and ?b = "sample_claim ''b'' 2"
  let ?u = "i128_add 100 50"
  have u: "sint ?u = 150" by (simp add: sint_i128_add)
  let ?cl = "granted ?a None ?u 3"
  let ?L = "set_claim plain_codec empty_ledger \<lparr>st_claim = ?cl, st_standing = standing.Held\<rparr>"
  have first: "eval empty_ledger (take_claim plain_codec ?a (100, ?u, 3)) = Inr (Some ?cl, ?L)"
    by (subst eval_take_claim [where prior = None]) (simp_all add: free_at_def)
  have "eval ?L (take_claim plain_codec ?b (100, ?u, 3)) = Inr (None, ?L)"
  proof (rule plain.taken_excludes [OF _ _ first])
    show "fit_claim plain_codec ?a" by (rule fit_sample_claim) simp
    show "sint (100 :: i128) \<le> sint (cl_until_unix_nanos ?cl)" using u by (simp add: granted_def)
  qed (simp_all add: sample_claim_def)
  with first have "in_turn plain_codec 100 [(OpClaim ?a 50, 3), (OpClaim ?b 50, 3)] (empty_ledger, 0) =
      ([Inr (DoneClaim (Some ?cl)), Inr (DoneClaim None)], ?L, 0)" by simp
  from group_is_serial [OF agrees_empty this] show ?thesis by (auto simp: granted_def sample_claim_def)
qed

text \<open>
  C1: Whatever the writer decides, a claim held and not lapsed stays its holder's, with its
  token and its fence and no less time, unless the write is that holder's own release, hand-on
  or turn; and every claim stays under its own Message.
\<close>

theorem claim_stays_its_holders:
  assumes "codec_laws c" and "claims_home c L" and "held_still c j claim L"
    and "sint now \<le> sint (cl_until_unix_nanos claim)"
    and "\<And>x. x \<in> asked_claims op \<Longrightarrow> fit_claim c x" and "\<not> writes_claims_raw op"
    and "\<And>x. ends op = Some x \<Longrightarrow> \<not> claim_is claim x"
    and "eval L (decide c now epoch n op) = Inr ((d, n'), L')"
  shows "claims_home c L' \<and> held_still c j claim L'"
  using codec_laws.decide_keeps [OF assms] .

theorem claim_stays_its_holders_witness:
  "held_still plain_codec 9 (ha_claim sample_hand_on) sample_claimed \<and>
   (\<exists>d n' L'. eval sample_claimed (decide plain_codec 100 3 0 (OpRelease (sample_claim ''b'' 2))) = Inr ((d, n'), L') \<and>
    held_still plain_codec 9 (ha_claim sample_hand_on) L')"
proof -
  have held: "held_still plain_codec 9 (ha_claim sample_hand_on) sample_claimed"
    using sample_claimed by (simp add: held_still_def claim_is_def)
  have home: "claims_home plain_codec sample_claimed"
    unfolding sample_claimed_def
    by (rule plain.claims_home_set)
      (simp_all add: claims_home_def sample_hand_on_def fit_claim_def plain_codec_def [THEN arg_cong [where f = most]])
  have "eval sample_claimed (decide plain_codec 100 3 0 (OpRelease (sample_claim ''b'' 2))) = Inr ((Yes False, 0), sample_claimed)"
    using sample_claimed
    by (simp add: decide_release_def eval_stored_claim sample_claim_def held_by_def claim_is_def sample_hand_on_def)
  from claim_stays_its_holders [OF plain.codec_laws_axioms home held _ _ _ _ this] this held show ?thesis
    by (auto simp: sample_hand_on_def asked_claims_def writes_claims_raw_def ends_def claim_is_def sample_claim_def)
qed

end
