(* ===== verification/Schema.thy ===== *)
theory Schema
  imports Prelude
begin

text \<open>
  The schema of Xmip Storage's three databases (\<open>src/.src/storage/schema.rs\<close>,
  \<open>schema/searchable.rs\<close>, \<open>schema/tables.rs\<close>): every table with its columns, its keys and its
  indexes. An embedded node files each index's entries under the index's number; that each index
  is of its table's columns, and its number its own, is what its searches rest on.
\<close>

section \<open>Tables, columns, indexes\<close>

datatype database = Runtime | Administration | Audit

definition all_databases :: "database list" where
  "all_databases = [Runtime, Administration, Audit]"

fun database_name :: "database \<Rightarrow> string" where
  "database_name Runtime = ''xmip_runtime''"
| "database_name Administration = ''xmip_administration''"
| "database_name Audit = ''xmip_audit''"

fun database_word :: "database \<Rightarrow> string" where
  "database_word Runtime = ''runtime''"
| "database_word Administration = ''administration''"
| "database_word Audit = ''audit''"

datatype column_kind = KIdentifier | KBytes | KText | KNumber | KCount | KFlag | KSequence | KLongText | KTime | KWord

record column =
  co_name :: string
  co_kind :: column_kind
  co_null :: bool
  co_since :: nat

record index =
  ix_number :: u8
  ix_name :: string
  ix_columns :: "string list"
  ix_only :: "string option"
  ix_since :: nat

record table =
  ta_database :: database
  ta_name :: string
  ta_since :: nat
  ta_keeps :: string
  ta_columns :: "column list"
  ta_key :: "string list"
  ta_unique :: "string list"
  ta_indexes :: "index list"

definition column :: "string \<Rightarrow> column_kind \<Rightarrow> column" where
  "column n k = \<lparr>co_name = n, co_kind = k, co_null = False, co_since = 1\<rparr>"

definition maybe :: "string \<Rightarrow> column_kind \<Rightarrow> column" where
  "maybe n k = \<lparr>co_name = n, co_kind = k, co_null = True, co_since = 1\<rparr>"

definition index_of_columns :: "u8 \<Rightarrow> string \<Rightarrow> string list \<Rightarrow> index" where
  "index_of_columns number n cols =
     \<lparr>ix_number = number, ix_name = n, ix_columns = cols, ix_only = None, ix_since = 1\<rparr>"

definition versions_name :: string where "versions_name = ''schema_version''"

section \<open>What each is\<close>

definition stream_columns :: "column list" where
  "stream_columns = [column ''stream'' KIdentifier,
     column ''length'' KNumber,
     column ''chunks'' KCount,
     column ''digest'' KBytes,
     column ''written_at'' KTime]"

definition journey_columns :: "column list" where
  "journey_columns = [column ''journey'' KIdentifier,
     column ''body'' KBytes,
     column ''created_at'' KTime,
     column ''updated_at'' KTime,
     column ''state'' KWord,
     maybe ''previous_journey'' KIdentifier,
     maybe ''subscription'' KText,
     maybe ''cause_work_process'' KText,
     column ''depth'' KCount,
     maybe ''work_process'' KText,
     maybe ''send_port'' KText,
     column ''send_location'' KCount,
     column ''attempts'' KCount,
     maybe ''message'' KIdentifier,
     maybe ''origin'' KIdentifier,
     column ''open'' KFlag,
     maybe ''group_delivery'' KIdentifier,
     column ''group_open'' KFlag]"

definition journey_indexes :: "index list" where
  "journey_indexes = [index_of_columns 1 ''journey_state'' [''state'', ''updated_at''],
     index_of_columns 2 ''journey_send_port'' [''send_port'', ''state''],
     index_of_columns 3 ''journey_previous'' [''previous_journey''],
     index_of_columns 4 ''journey_message'' [''message'']]"

definition message_columns :: "column list" where
  "message_columns = [column ''message'' KIdentifier,
     column ''body'' KBytes,
     column ''created_at'' KTime,
     maybe ''previous_message'' KIdentifier,
     column ''generation'' KCount,
     column ''created_by'' KWord,
     column ''priority'' KWord,
     column ''execution_profile'' KWord,
     column ''durability'' KWord,
     column ''size_bytes'' KNumber,
     maybe ''party'' KText,
     maybe ''contract'' KText,
     maybe ''stream'' KIdentifier]"

definition message_indexes :: "index list" where
  "message_indexes = [index_of_columns 5 ''message_created'' [''created_at''],
     index_of_columns 6 ''message_party'' [''party'', ''created_at''],
     index_of_columns 7 ''message_contract'' [''contract'', ''created_at''],
     index_of_columns 8 ''message_previous'' [''previous_message''],
     index_of_columns 17 ''message_stream'' [''stream'']]"

definition held_columns :: "column list" where
  "held_columns = [column ''queue'' KIdentifier,
     column ''sequence'' KNumber,
     column ''journey'' KIdentifier,
     column ''body'' KBytes,
     column ''held_at'' KTime,
     column ''failed'' KFlag,
     column ''due_at'' KTime]"

definition held_indexes :: "index list" where
  "held_indexes = [index_of_columns 9 ''held_time'' [''queue'', ''held_at''],
     index_of_columns 20 ''held_place'' [''queue'', ''sequence''],
     index_of_columns 23 ''held_due'' [''queue'', ''failed'', ''due_at'', ''sequence'']]"

definition dead_message_columns :: "column list" where
  "dead_message_columns = [column ''queue'' KIdentifier,
     column ''sequence'' KNumber,
     column ''message'' KIdentifier,
     column ''body'' KBytes,
     column ''stream'' KIdentifier,
     column ''node'' KText,
     column ''receive_location'' KText,
     column ''queued_at'' KTime]"

definition dead_message_indexes :: "index list" where
  "dead_message_indexes = [index_of_columns 10 ''dead_message_time'' [''queue'', ''queued_at''],
     index_of_columns 21 ''dead_message_place'' [''queue'', ''sequence'']]"

definition failed_message_columns :: "column list" where
  "failed_message_columns = [column ''queue'' KIdentifier,
     column ''sequence'' KNumber,
     column ''journey'' KIdentifier,
     column ''place'' KNumber,
     column ''reason'' KLongText,
     column ''failed_at'' KTime]"

definition failed_message_indexes :: "index list" where
  "failed_message_indexes = [index_of_columns 22 ''failed_message_place'' [''queue'', ''sequence'']]"

definition audit_columns :: "column list" where
  "audit_columns = [column ''id'' KIdentifier,
     column ''occurred_at'' KTime,
     column ''kept_at'' KTime,
     column ''action'' KText,
     column ''phase'' KWord,
     column ''severity'' KWord,
     column ''failed'' KFlag,
     maybe ''message_text'' KLongText,
     column ''program'' KText,
     column ''host'' KText,
     column ''process'' KCount,
     maybe ''location'' KText,
     column ''hidden'' KFlag,
     maybe ''execution'' KIdentifier,
     maybe ''journey'' KIdentifier,
     maybe ''message'' KIdentifier,
     maybe ''artifact_kind'' KWord,
     maybe ''artifact_name'' KText,
     maybe ''artifact_version'' KText,
     maybe ''node'' KText,
     maybe ''cluster'' KText,
     column ''writer'' KText,
     column ''position'' KNumber,
     column ''previous_digest'' KBytes,
     column ''digest'' KBytes,
     column ''body_length'' KNumber,
     column ''body_chunks'' KCount,
     column ''body_digest'' KBytes]"

definition audit_indexes :: "index list" where
  "audit_indexes = [index_of_columns 11 ''audit_occurred'' [''occurred_at''],
     index_of_columns 12 ''audit_journey'' [''journey''],
     index_of_columns 13 ''audit_message'' [''message''],
     index_of_columns 14 ''audit_artifact'' [''artifact_name'', ''occurred_at''],
     (index_of_columns 15 ''audit_failed'' [''failed'', ''occurred_at''])\<lparr>ix_only := Some ''failed''\<rparr>,
     index_of_columns 19 ''audit_chain'' [''writer'', ''position'']]"

definition audit_stream_columns :: "column list" where
  "audit_stream_columns = [column ''audit'' KIdentifier,
     column ''stream'' KIdentifier,
     column ''length'' KNumber,
     column ''chunks'' KCount,
     column ''digest'' KBytes,
     column ''written_at'' KTime]"

definition audit_stream_indexes :: "index list" where
  "audit_stream_indexes = [index_of_columns 18 ''audit_stream_stream'' [''stream'']]"

definition administration_columns :: "column list" where
  "administration_columns = [column ''kind'' KWord,
     column ''id'' KIdentifier,
     column ''body'' KBytes,
     column ''updated_at'' KTime]"

definition administration_indexes :: "index list" where
  "administration_indexes = [index_of_columns 16 ''administration_updated'' [''kind'', ''updated_at'']]"

definition secret_columns :: "column list" where
  "secret_columns = [column ''secret'' KIdentifier,
     column ''name'' KText,
     column ''kind'' KWord,
     column ''sealed'' KBytes,
     column ''set_at'' KTime,
     column ''set_by'' KText]"

definition secret_indexes :: "index list" where
  "secret_indexes = [index_of_columns 24 ''secret_name'' [''name'']]"

definition version_columns :: "column list" where
  "version_columns = [column ''version'' KCount,
     column ''recorded_at'' KTime]"

definition versions :: "database \<Rightarrow> table" where
  "versions d = \<lparr>ta_database = d, ta_name = versions_name, ta_since = 1,
     ta_keeps = ''each schema version the database has held, the one it was made at and each an '' @
       ''upgrade reached, with when; the version it holds is the highest'',
     ta_columns = version_columns,
     ta_key = [''version''], ta_unique = [],
     ta_indexes = []\<rparr>"

definition stream_table :: "table" where
  "stream_table = \<lparr>ta_database = Runtime, ta_name = ''stream'', ta_since = 1,
     ta_keeps = ''every Stream, once, as written and never changed: its length, its chunks and '' @
       ''the SHA-256 digest of its bytes; a chunk and every Message referring to it '' @
       ''refer to it by its identifier'',
     ta_columns = stream_columns,
     ta_key = [''stream''], ta_unique = [],
     ta_indexes = []\<rparr>"

definition stream_chunk_table :: "table" where
  "stream_chunk_table = \<lparr>ta_database = Runtime, ta_name = ''stream_chunk'', ta_since = 1,
     ta_keeps = ''every Stream's chunks, by its identifier and their number; a Stream ends where '' @
       ''it has no further chunk'',
     ta_columns = [column ''stream'' KIdentifier,
     column ''chunk'' KCount,
     column ''bytes'' KBytes],
     ta_key = [''stream'', ''chunk''], ta_unique = [],
     ta_indexes = []\<rparr>"

definition message_table :: "table" where
  "message_table = \<lparr>ta_database = Runtime, ta_name = ''message'', ta_since = 1,
     ta_keeps = ''every Message, as a step wrote it, every single value of it in a column of its '' @
       ''own'',
     ta_columns = message_columns,
     ta_key = [''message''], ta_unique = [],
     ta_indexes = message_indexes\<rparr>"

definition journey_table :: "table" where
  "journey_table = \<lparr>ta_database = Runtime, ta_name = ''journey'', ta_since = 1,
     ta_keeps = ''every Journey, as a step wrote it, every single value of it in a column of its '' @
       ''own'',
     ta_columns = journey_columns,
     ta_key = [''journey''], ta_unique = [],
     ta_indexes = journey_indexes\<rparr>"

definition held_table :: "table" where
  "held_table = \<lparr>ta_database = Runtime, ta_name = ''held'', ta_since = 1,
     ta_keeps = ''the Messages a paused Subscription holds, at their place in its queue, each '' @
       ''once, by its Journey'',
     ta_columns = held_columns,
     ta_key = [''queue'', ''sequence''], ta_unique = [''queue'', ''journey''],
     ta_indexes = held_indexes\<rparr>"

definition held_places_table :: "table" where
  "held_places_table = \<lparr>ta_database = Runtime, ta_name = ''held_places'', ta_since = 1,
     ta_keeps = ''each queue's first place, its next and how many it holds'',
     ta_columns = [column ''queue'' KIdentifier,
     column ''first_place'' KNumber,
     column ''next_place'' KNumber,
     column ''held'' KNumber],
     ta_key = [''queue''], ta_unique = [],
     ta_indexes = []\<rparr>"

definition held_due_places_table :: "table" where
  "held_due_places_table = \<lparr>ta_database = Runtime, ta_name = ''held_due_places'', ta_since = 1,
     ta_keeps = ''each queue's places in the order its Messages are due: the place no Message due '' @
       ''since it was held is before, the due time and place no retry is before, and how '' @
       ''many keep a retry's due time'',
     ta_columns = [column ''queue'' KIdentifier,
     column ''first_due_place'' KNumber,
     column ''first_retry_at'' KTime,
     column ''first_retry_place'' KNumber,
     column ''retrying'' KNumber],
     ta_key = [''queue''], ta_unique = [],
     ta_indexes = []\<rparr>"

definition failed_message_table :: "table" where
  "failed_message_table = \<lparr>ta_database = Runtime, ta_name = ''failed_message'', ta_since = 1,
     ta_keeps = ''the Messages that failed waiting in each Send Port's queue for an operator, in '' @
       ''the order they failed, each once, with its place in the queue and why, written '' @
       ''with the failure and taken out with the operator's act'',
     ta_columns = failed_message_columns,
     ta_key = [''queue'', ''sequence''], ta_unique = [''queue'', ''journey''],
     ta_indexes = failed_message_indexes\<rparr>"

definition failed_message_places_table :: "table" where
  "failed_message_places_table = \<lparr>ta_database = Runtime, ta_name = ''failed_message_places'', ta_since = 1,
     ta_keeps = ''each queue's index of failed Messages: its first place, its next and how many '' @
       ''failed Messages wait in the queue'',
     ta_columns = [column ''queue'' KIdentifier,
     column ''first_place'' KNumber,
     column ''next_place'' KNumber,
     column ''failed'' KNumber],
     ta_key = [''queue''], ta_unique = [],
     ta_indexes = []\<rparr>"

definition dead_message_table :: "table" where
  "dead_message_table = \<lparr>ta_database = Runtime, ta_name = ''dead_message'', ta_since = 1,
     ta_keeps = ''each node's Dead Message Queue: every Message nothing matched, at its place, '' @
       ''with its receive context, what its gates concluded, its promoted properties and '' @
       ''each Subscription's reason for declining, each once'',
     ta_columns = dead_message_columns,
     ta_key = [''queue'', ''sequence''], ta_unique = [''queue'', ''message''],
     ta_indexes = dead_message_indexes\<rparr>"

definition dead_message_places_table :: "table" where
  "dead_message_places_table = \<lparr>ta_database = Runtime, ta_name = ''dead_message_places'', ta_since = 1,
     ta_keeps = ''each Dead Message Queue's first place, its next and how many it holds'',
     ta_columns = [column ''queue'' KIdentifier,
     column ''first_place'' KNumber,
     column ''next_place'' KNumber,
     column ''held'' KNumber],
     ta_key = [''queue''], ta_unique = [],
     ta_indexes = []\<rparr>"

definition dead_message_replayed_table :: "table" where
  "dead_message_replayed_table = \<lparr>ta_database = Runtime, ta_name = ''dead_message_replayed'', ta_since = 1,
     ta_keeps = ''each Message replayed from a Dead Message Queue, so a Replay asked again writes '' @
       ''nothing twice'',
     ta_columns = [column ''queue'' KIdentifier,
     column ''message'' KIdentifier],
     ta_key = [''queue'', ''message''], ta_unique = [],
     ta_indexes = []\<rparr>"

definition publication_table :: "table" where
  "publication_table = \<lparr>ta_database = Runtime, ta_name = ''publication'', ta_since = 1,
     ta_keeps = ''each Message published, with the digest of its Publication, so a Publication '' @
       ''asked again writes nothing and resets no Message moved on since'',
     ta_columns = [column ''message'' KIdentifier,
     column ''digest'' KBytes],
     ta_key = [''message''], ta_unique = [],
     ta_indexes = []\<rparr>"

definition claim_table :: "table" where
  "claim_table = \<lparr>ta_database = Runtime, ta_name = ''claim'', ta_since = 1,
     ta_keeps = ''the claim on each Message, by its Journey: its holder, its token, when it '' @
       ''lapses, and whether it was given back or its step handed on'',
     ta_columns = [column ''journey'' KIdentifier,
     column ''holder'' KText,
     column ''token'' KIdentifier,
     column ''until_unix_nanos'' KNumber,
     column ''released'' KFlag,
     column ''handed_on'' KFlag],
     ta_key = [''journey''], ta_unique = [],
     ta_indexes = []\<rparr>"

definition audit_table :: "table" where
  "audit_table = \<lparr>ta_database = Runtime, ta_name = ''audit'', ta_since = 1,
     ta_keeps = ''audit records as first written, until the audit keeper moves them'',
     ta_columns = [column ''sequence'' KSequence,
     column ''id'' KIdentifier,
     column ''body'' KBytes],
     ta_key = [''sequence''], ta_unique = [],
     ta_indexes = []\<rparr>"

definition kept_audit_table :: "table" where
  "kept_audit_table = \<lparr>ta_database = Audit, ta_name = ''audit'', ta_since = 1,
     ta_keeps = ''audit records kept over time, each once, every single value of each in a column '' @
       ''of its own, each in its writer's audit chain: its number there, the SHA-256 '' @
       ''digest of the record before it and its own'',
     ta_columns = audit_columns,
     ta_key = [''id''], ta_unique = [],
     ta_indexes = audit_indexes\<rparr>"

definition audit_chain_head_table :: "table" where
  "audit_chain_head_table = \<lparr>ta_database = Audit, ta_name = ''audit_chain_head'', ta_since = 1,
     ta_keeps = ''where each writer's audit chain stands: the number of its last kept record and '' @
       ''that record's SHA-256 digest, written with it by the audit keeper'',
     ta_columns = [column ''writer'' KText,
     column ''position'' KNumber,
     column ''digest'' KBytes],
     ta_key = [''writer''], ta_unique = [],
     ta_indexes = []\<rparr>"

definition audit_body_chunk_table :: "table" where
  "audit_body_chunk_table = \<lparr>ta_database = Audit, ta_name = ''audit_body_chunk'', ta_since = 1,
     ta_keeps = ''the body of each kept audit record, its record and the Message it carries, in '' @
       ''chunks by the record's identifier and their number, as a Stream is kept, '' @
       ''written with it by the audit keeper'',
     ta_columns = [column ''audit'' KIdentifier,
     column ''chunk'' KCount,
     column ''bytes'' KBytes],
     ta_key = [''audit'', ''chunk''], ta_unique = [],
     ta_indexes = []\<rparr>"

definition audit_stream_table :: "table" where
  "audit_stream_table = \<lparr>ta_database = Audit, ta_name = ''audit_stream'', ta_since = 1,
     ta_keeps = ''each Stream a kept audit record carries, once: its length, its chunks, the '' @
       ''SHA-256 digest of its bytes and when the Ledger wrote it, written with the '' @
       ''record by the audit keeper'',
     ta_columns = audit_stream_columns,
     ta_key = [''audit'', ''stream''], ta_unique = [],
     ta_indexes = audit_stream_indexes\<rparr>"

definition audit_stream_chunk_table :: "table" where
  "audit_stream_chunk_table = \<lparr>ta_database = Audit, ta_name = ''audit_stream_chunk'', ta_since = 1,
     ta_keeps = ''the bytes of each Stream a kept audit record carries, in chunks by the record's '' @
       ''identifier, the Stream's and their number, kept with it by the audit keeper; a '' @
       ''Stream two Sections share once'',
     ta_columns = [column ''audit'' KIdentifier,
     column ''stream'' KIdentifier,
     column ''chunk'' KCount,
     column ''bytes'' KBytes],
     ta_key = [''audit'', ''stream'', ''chunk''], ta_unique = [],
     ta_indexes = []\<rparr>"

definition administration_table :: "table" where
  "administration_table = \<lparr>ta_database = Administration, ta_name = ''administration'', ta_since = 1,
     ta_keeps = ''registration, membership, Modules, Handlers, deployment and operator state, and '' @
       ''when each was last written'',
     ta_columns = administration_columns,
     ta_key = [''kind'', ''id''], ta_unique = [],
     ta_indexes = administration_indexes\<rparr>"

definition secret_table :: "table" where
  "secret_table = \<lparr>ta_database = Administration, ta_name = ''secret'', ta_since = 1,
     ta_keeps = ''each secret a Location names, by its name: its kind, its value sealed by Xmip '' @
       ''under the administration database's data key, and when and by whom it was last '' @
       ''set; its value is never read back out'',
     ta_columns = secret_columns,
     ta_key = [''secret''], ta_unique = [''name''],
     ta_indexes = secret_indexes\<rparr>"

definition tables :: "table list" where
  "tables = [versions Runtime, stream_table, stream_chunk_table, message_table, journey_table, held_table, held_places_table, held_due_places_table, failed_message_table, failed_message_places_table, dead_message_table, dead_message_places_table, dead_message_replayed_table, publication_table, claim_table, audit_table, versions Audit, kept_audit_table, audit_chain_head_table, audit_body_chunk_table, audit_stream_table, audit_stream_chunk_table, versions Administration, administration_table, secret_table]"

lemma column_parts [simp]:
  "co_name (column n k) = n" "co_name (maybe n k) = n"
  "co_kind (column n k) = k" "co_kind (maybe n k) = k"
  "co_null (column n k) = False" "co_null (maybe n k) = True"
  "co_since (column n k) = 1" "co_since (maybe n k) = 1"
  by (simp_all add: column_def maybe_def)

lemmas table_defs = stream_columns_def journey_columns_def journey_indexes_def message_columns_def message_indexes_def held_columns_def
  held_indexes_def dead_message_columns_def dead_message_indexes_def failed_message_columns_def failed_message_indexes_def audit_columns_def
  audit_indexes_def audit_stream_columns_def audit_stream_indexes_def administration_columns_def administration_indexes_def secret_columns_def
  secret_indexes_def version_columns_def versions_def stream_table_def stream_chunk_table_def message_table_def
  journey_table_def held_table_def held_places_table_def held_due_places_table_def failed_message_table_def failed_message_places_table_def
  dead_message_table_def dead_message_places_table_def dead_message_replayed_table_def publication_table_def claim_table_def audit_table_def
  kept_audit_table_def audit_chain_head_table_def audit_body_chunk_table_def audit_stream_table_def audit_stream_chunk_table_def administration_table_def
  secret_table_def
  index_of_columns_def versions_name_def

section \<open>The tables as searched\<close>

text \<open>What a table is found by.\<close>

lemma table_parts [simp]:
  "ta_database stream_table = Runtime" "ta_name stream_table = ''stream''" "ta_indexes stream_table = []"
  "ta_database stream_chunk_table = Runtime" "ta_name stream_chunk_table = ''stream_chunk''" "ta_indexes stream_chunk_table = []"
  "ta_database message_table = Runtime" "ta_name message_table = ''message''" "ta_indexes message_table = message_indexes"
  "ta_database journey_table = Runtime" "ta_name journey_table = ''journey''" "ta_indexes journey_table = journey_indexes"
  "ta_database held_table = Runtime" "ta_name held_table = ''held''" "ta_indexes held_table = held_indexes"
  "ta_database held_places_table = Runtime" "ta_name held_places_table = ''held_places''" "ta_indexes held_places_table = []"
  "ta_database held_due_places_table = Runtime" "ta_name held_due_places_table = ''held_due_places''" "ta_indexes held_due_places_table = []"
  "ta_database failed_message_table = Runtime" "ta_name failed_message_table = ''failed_message''" "ta_indexes failed_message_table = failed_message_indexes"
  "ta_database failed_message_places_table = Runtime" "ta_name failed_message_places_table = ''failed_message_places''" "ta_indexes failed_message_places_table = []"
  "ta_database dead_message_table = Runtime" "ta_name dead_message_table = ''dead_message''" "ta_indexes dead_message_table = dead_message_indexes"
  "ta_database dead_message_places_table = Runtime" "ta_name dead_message_places_table = ''dead_message_places''" "ta_indexes dead_message_places_table = []"
  "ta_database dead_message_replayed_table = Runtime" "ta_name dead_message_replayed_table = ''dead_message_replayed''" "ta_indexes dead_message_replayed_table = []"
  "ta_database publication_table = Runtime" "ta_name publication_table = ''publication''" "ta_indexes publication_table = []"
  "ta_database claim_table = Runtime" "ta_name claim_table = ''claim''" "ta_indexes claim_table = []"
  "ta_database audit_table = Runtime" "ta_name audit_table = ''audit''" "ta_indexes audit_table = []"
  "ta_database kept_audit_table = Audit" "ta_name kept_audit_table = ''audit''" "ta_indexes kept_audit_table = audit_indexes"
  "ta_database audit_chain_head_table = Audit" "ta_name audit_chain_head_table = ''audit_chain_head''" "ta_indexes audit_chain_head_table = []"
  "ta_database audit_body_chunk_table = Audit" "ta_name audit_body_chunk_table = ''audit_body_chunk''" "ta_indexes audit_body_chunk_table = []"
  "ta_database audit_stream_table = Audit" "ta_name audit_stream_table = ''audit_stream''" "ta_indexes audit_stream_table = audit_stream_indexes"
  "ta_database audit_stream_chunk_table = Audit" "ta_name audit_stream_chunk_table = ''audit_stream_chunk''" "ta_indexes audit_stream_chunk_table = []"
  "ta_database administration_table = Administration" "ta_name administration_table = ''administration''" "ta_indexes administration_table = administration_indexes"
  "ta_database secret_table = Administration" "ta_name secret_table = ''secret''" "ta_indexes secret_table = secret_indexes"
  "ta_database (versions d) = d" "ta_name (versions d) = versions_name" "ta_indexes (versions d) = []"
  by (simp_all add: stream_table_def stream_chunk_table_def message_table_def journey_table_def
    held_table_def held_places_table_def held_due_places_table_def failed_message_table_def
    failed_message_places_table_def dead_message_table_def dead_message_places_table_def
    dead_message_replayed_table_def publication_table_def claim_table_def audit_table_def
    kept_audit_table_def audit_chain_head_table_def audit_body_chunk_table_def audit_stream_table_def
    audit_stream_chunk_table_def administration_table_def secret_table_def versions_def)

definition table_of :: "database \<Rightarrow> string \<Rightarrow> table option" where
  "table_of d n = find (\<lambda>t. ta_database t = d \<and> ta_name t = n) tables"

definition index_named :: "table \<Rightarrow> string \<Rightarrow> index option" where
  "index_named t n = find (\<lambda>i. ix_name i = n) (ta_indexes t)"

text \<open>
  What a search of a table rests on: its keys and its indexes' columns are columns of its own, a
  partial index's flag is one, and no two of its columns or of its indexes share a name.
\<close>

definition table_well :: "table \<Rightarrow> bool" where
  "table_well t \<longleftrightarrow> (let names = map co_name (ta_columns t) in
     distinct names \<and> list_all (\<lambda>n. n \<in> set names) (ta_key t @ ta_unique t) \<and>
     distinct (map ix_name (ta_indexes t)) \<and>
     list_all (\<lambda>i. ix_columns i \<noteq> [] \<and> list_all (\<lambda>n. n \<in> set names) (ix_columns i) \<and>
       (case ix_only i of None \<Rightarrow> True
        | Some flag \<Rightarrow> find (\<lambda>c. co_name c = flag) (ta_columns t) = Some (column flag KFlag))) (ta_indexes t))"

definition index_numbers :: "table list \<Rightarrow> u8 list" where
  "index_numbers ts = concat (map (\<lambda>t. map ix_number (ta_indexes t)) ts)"

lemma index_numbers_are:
  "index_numbers tables = [5, 6, 7, 8, 17, 1, 2, 3, 4, 9, 20, 23, 22, 10, 21, 11, 12, 13, 14, 15, 19, 18, 16, 24]"
  by (simp add: index_numbers_def table_defs tables_def)

lemma numbers_distinct: "distinct (index_numbers tables)"
  by (simp add: index_numbers_are)

lemma tables_well: "list_all table_well tables"
  by (simp add: tables_def table_well_def table_defs Let_def)

section \<open>Properties\<close>

text \<open>
  Every table of the three databases is laid out as a search of it needs: its keys and its
  indexes' columns are its own, and an index's number is its alone among all databases, so the
  entries of two indexes are never filed under one number.
\<close>

theorem schema_is_well: "list_all table_well tables \<and> distinct (index_numbers tables)"
  using tables_well numbers_distinct by blast

end
