(* ===== verification/Memory.thy ===== *)
theory Memory
  imports Prelude
begin

text \<open>
  What an engine is to persist (\<open>src/.src/engine.rs\<close>): bytes under bytes. The trait's methods
  are a record of functions on the engine's state, what they promise is a locale over the map of
  records the engine holds, and the engine in memory (\<open>src/.src/fixture.rs\<close>,
  \<open>src/.src/fixture/viewed.rs\<close>) is shown to keep the promises. The engines a node runs on, RocksDB
  and SQLite, are other crates.
\<close>

section \<open>The interface\<close>

type_synonym change = "key \<times> bytes option"
type_synonym entry = "key \<times> bytes"

text \<open>One consistent view of an engine (\<open>Reads\<close>).\<close>

record reads =
  rd_read :: "key \<Rightarrow> bytes option result"
  rd_scan :: "key \<Rightarrow> key \<Rightarrow> nat \<Rightarrow> bool \<Rightarrow> entry list result"

record 'e engine =
  en_name :: string
  en_read :: "'e \<Rightarrow> key \<Rightarrow> bytes option result"
  en_write :: "'e \<Rightarrow> key \<Rightarrow> bytes \<Rightarrow> 'e result"
  en_write_new :: "'e \<Rightarrow> key \<Rightarrow> bytes \<Rightarrow> (bool \<times> 'e) result"
  en_remove :: "'e \<Rightarrow> key \<Rightarrow> 'e result"
  en_apply :: "'e \<Rightarrow> change list \<Rightarrow> 'e result"
  en_apply_deferred :: "'e \<Rightarrow> change list \<Rightarrow> 'e result"
  en_sync :: "'e \<Rightarrow> 'e result"
  en_scan :: "'e \<Rightarrow> key \<Rightarrow> key \<Rightarrow> nat \<Rightarrow> bool \<Rightarrow> entry list result"
  en_view :: "'e \<Rightarrow> reads result"

text \<open>What a batch of changes makes of a map, and a range of it in order or the reverse.\<close>

definition changed :: "change list \<Rightarrow> (key \<rightharpoonup> bytes) \<Rightarrow> key \<rightharpoonup> bytes" where
  "changed b m = foldl (\<lambda>m (k, v). m(k := v)) m b"

definition between :: "(key \<rightharpoonup> 'v) \<Rightarrow> key \<Rightarrow> key \<Rightarrow> nat \<Rightarrow> bool \<Rightarrow> (key \<times> 'v) list" where
  "between m lo hi most reverse =
     take most ((if reverse then rev else id)
       (map (\<lambda>k. (k, the (m k))) (sorted_list_of_set {k \<in> dom m. lo \<le> k \<and> k \<le> hi})))"

lemma changed_simps [simp]:
  "changed [] m = m" "changed ((k, v) # b) m = changed b (m(k := v))"
  "changed (b @ b') m = changed b' (changed b m)"
  by (simp_all add: changed_def)

lemma changed_other: "k \<notin> fst ` set b \<Longrightarrow> changed b m k = m k"
  by (induction b arbitrary: m) auto

text \<open>
  What every engine promises, where it answers: \<open>recs\<close> is the map of records its state holds,
  \<open>ok\<close> what its own writes keep of its state.
\<close>

locale engine_laws =
  fixes E :: "'e engine" and recs :: "'e \<Rightarrow> key \<rightharpoonup> bytes" and ok :: "'e \<Rightarrow> bool"
  assumes read_law: "ok e \<Longrightarrow> en_read E e k = Inr v \<Longrightarrow> v = recs e k"
    and write_law: "ok e \<Longrightarrow> en_write E e k w = Inr e' \<Longrightarrow> ok e' \<and> recs e' = (recs e)(k \<mapsto> w)"
    and write_new_law: "ok e \<Longrightarrow> en_write_new E e k w = Inr (b, e') \<Longrightarrow>
      ok e' \<and> b = (recs e k = None) \<and> recs e' = (if b then (recs e)(k \<mapsto> w) else recs e)"
    and remove_law: "ok e \<Longrightarrow> en_remove E e k = Inr e' \<Longrightarrow> ok e' \<and> recs e' = (recs e)(k := None)"
    and apply_law: "ok e \<Longrightarrow> en_apply E e b' = Inr e' \<Longrightarrow> ok e' \<and> recs e' = changed b' (recs e)"
    and deferred_law: "ok e \<Longrightarrow> en_apply_deferred E e b' = Inr e' \<Longrightarrow> ok e' \<and> recs e' = changed b' (recs e)"
    and sync_law: "ok e \<Longrightarrow> en_sync E e = Inr e' \<Longrightarrow> ok e' \<and> recs e' = recs e"
    and scan_law: "ok e \<Longrightarrow> en_scan E e f l n r = Inr es \<Longrightarrow> es = between (recs e) f l n r"
    and view_law: "ok e \<Longrightarrow> en_view E e = Inr r' \<Longrightarrow>
      (rd_read r' k = Inr v \<longrightarrow> v = recs e k) \<and> (rd_scan r' f l n r = Inr es \<longrightarrow> es = between (recs e) f l n r)"
    and finite_recs: "ok e \<Longrightarrow> finite (dom (recs e))"

section \<open>The engine in memory\<close>

text \<open>A \<open>BTreeMap\<close> of bytes: its entries in the order of their keys.\<close>

type_synonym memory = "entry list"

definition ordered :: "memory \<Rightarrow> bool" where
  "ordered m \<longleftrightarrow> sorted_wrt (<) (map fst m)"

fun tree_insert :: "key \<Rightarrow> bytes \<Rightarrow> memory \<Rightarrow> memory" where
  "tree_insert k v [] = [(k, v)]"
| "tree_insert k v ((k', v') # m) =
     (if k < k' then (k, v) # (k', v') # m
      else if k = k' then (k, v) # m
      else (k', v') # tree_insert k v m)"

definition tree_remove :: "key \<Rightarrow> memory \<Rightarrow> memory" where
  "tree_remove k m = filter (\<lambda>(k', _). k' \<noteq> k) m"

definition memory_read :: "memory \<Rightarrow> key \<Rightarrow> bytes option result" where
  "memory_read m k = Inr (map_of m k)"

definition memory_write :: "memory \<Rightarrow> key \<Rightarrow> bytes \<Rightarrow> memory result" where
  "memory_write m k v = Inr (tree_insert k v m)"

definition memory_write_new :: "memory \<Rightarrow> key \<Rightarrow> bytes \<Rightarrow> (bool \<times> memory) result" where
  "memory_write_new m k v =
     (if map_of m k \<noteq> None then Inr (False, m) else Inr (True, tree_insert k v m))"

definition memory_remove :: "memory \<Rightarrow> key \<Rightarrow> memory result" where
  "memory_remove m k = Inr (tree_remove k m)"

definition memory_apply :: "memory \<Rightarrow> change list \<Rightarrow> memory result" where
  "memory_apply m batch = Inr (foldl (\<lambda>m (key, value).
     case value of Some v \<Rightarrow> tree_insert key v m | None \<Rightarrow> tree_remove key m) m batch)"

definition ranged :: "memory \<Rightarrow> key \<times> key \<Rightarrow> nat \<Rightarrow> bool \<Rightarrow> entry list" where
  "ranged m fl most reverse = (let (lo, hi) = fl in
     if lo > hi then []
     else let range = filter (\<lambda>(k, _). lo \<le> k \<and> k \<le> hi) m
       in if reverse then take most (rev range) else take most range)"

definition memory_scan :: "memory \<Rightarrow> key \<Rightarrow> key \<Rightarrow> nat \<Rightarrow> bool \<Rightarrow> entry list result" where
  "memory_scan m lo hi most reverse = Inr (ranged m (lo, hi) most reverse)"

text \<open>Its records held for the view.\<close>

definition memory_view :: "memory \<Rightarrow> reads result" where
  "memory_view m = Inr \<lparr>rd_read = memory_read m, rd_scan = memory_scan m\<rparr>"

text \<open>The writes the trait gives an engine that says no otherwise: deferred is synced, synced is done.\<close>

definition memory_engine :: "memory engine" where
  "memory_engine = \<lparr>en_name = ''memory'', en_read = memory_read, en_write = memory_write,
     en_write_new = memory_write_new, en_remove = memory_remove, en_apply = memory_apply,
     en_apply_deferred = memory_apply, en_sync = Inr, en_scan = memory_scan,
     en_view = memory_view\<rparr>"

section \<open>The engine in memory keeps the promises\<close>

lemma keys_tree_insert: "fst ` set (tree_insert k v m) = insert k (fst ` set m)"
  by (induction k v m rule: tree_insert.induct) auto

lemma ordered_tree_insert: "ordered m \<Longrightarrow> ordered (tree_insert k v m)"
proof (induction k v m rule: tree_insert.induct)
  case (2 k v k' v' m)
  have keys: "set (map fst (tree_insert k v m)) = insert k (fst ` set m)"
    by (simp add: keys_tree_insert)
  show ?case
  proof (cases "k < k' \<or> k = k'")
    case True
    with 2 show ?thesis by (auto simp: ordered_def)
  next
    case False
    then have "\<forall>x \<in> set (map fst (tree_insert k v m)). k' < x"
      unfolding keys using 2(2) by (auto simp: ordered_def)
    with 2 False show ?thesis by (simp add: ordered_def)
  qed
qed (simp add: ordered_def)

lemma ordered_Nil [simp]: "ordered []"
  by (simp add: ordered_def)

lemma ordered_filter: "ordered m \<Longrightarrow> ordered (filter p m)"
  by (induction m) (auto simp: ordered_def)

lemma map_of_tree_insert: "ordered m \<Longrightarrow> map_of (tree_insert k v m) = (map_of m)(k \<mapsto> v)"
proof (induction k v m rule: tree_insert.induct)
  case (2 k v k' v' m)
  then show ?case by (auto simp: ordered_def fun_eq_iff)
qed auto

lemma map_of_tree_remove: "map_of (tree_remove k m) = (map_of m)(k := None)"
  by (induction m) (auto simp: tree_remove_def fun_eq_iff)

lemma ordered_tree_remove: "ordered m \<Longrightarrow> ordered (tree_remove k m)"
  by (simp add: tree_remove_def ordered_filter)

lemma memory_applied:
  "ordered m \<Longrightarrow> memory_apply m b = Inr m' \<Longrightarrow> ordered m' \<and> map_of m' = changed b (map_of m)"
proof (induction b arbitrary: m)
  case (Cons kv b)
  obtain k v where kv: "kv = (k, v)" by (cases kv)
  define m1 where "m1 = (case v of Some w \<Rightarrow> tree_insert k w m | None \<Rightarrow> tree_remove k m)"
  have "ordered m1" "map_of m1 = (map_of m)(k := v)"
    using Cons.prems(1) by (auto simp: m1_def ordered_tree_insert ordered_tree_remove map_of_tree_insert
        map_of_tree_remove split: option.split)
  moreover have "memory_apply m1 b = Inr m'"
    using Cons.prems(2) by (simp add: memory_apply_def kv m1_def)
  ultimately have "ordered m' \<and> map_of m' = changed b ((map_of m)(k := v))"
    using Cons.IH [of m1] by metis
  then show ?case by (simp only: kv changed_simps simp_thms)
qed (simp add: memory_apply_def)

lemma keys_in_order:
  assumes "ordered m"
  shows "map fst m = sorted_list_of_set (dom (map_of m))" and "map (\<lambda>k. (k, the (map_of m k))) (map fst m) = m"
proof -
  have s: "sorted (map fst m)" "distinct (map fst m)"
    using assms by (simp_all add: ordered_def strict_sorted_iff)
  then show "map fst m = sorted_list_of_set (dom (map_of m))"
    by (metis dom_map_of_conv_image_fst list.set_map sorted_list_of_set.idem_if_sorted_distinct)
  show "map (\<lambda>k. (k, the (map_of m k))) (map fst m) = m"
    using s(2) by (auto intro!: map_idI simp: comp_def)
qed

lemma dom_map_of_filter_keys: "dom (map_of (filter (\<lambda>(k, _). P k) m)) = {k \<in> dom (map_of m). P k}"
  by (auto simp: dom_map_of_conv_image_fst image_iff)

lemma map_of_filter_keys: "P k \<Longrightarrow> map_of (filter (\<lambda>(k, _). P k) m) k = map_of m k"
  by (induction m) auto

lemma ranged_between:
  assumes "ordered m"
  shows "ranged m (lo, hi) most reverse = between (map_of m) lo hi most reverse"
proof -
  let ?r = "filter (\<lambda>(k, _). lo \<le> k \<and> k \<le> hi) m"
  note o = keys_in_order [OF ordered_filter [OF assms], of "\<lambda>(k, _). lo \<le> k \<and> k \<le> hi"]
  have keys: "map fst ?r = sorted_list_of_set {k \<in> dom (map_of m). lo \<le> k \<and> k \<le> hi}"
    using o(1) by (simp add: dom_map_of_filter_keys)
  have "map (\<lambda>k. (k, the (map_of m k))) (map fst ?r) = ?r"
    using assms by (auto intro!: map_idI simp: comp_def ordered_def strict_sorted_iff map_of_eq_Some_iff)
  then have r: "map (\<lambda>k. (k, the (map_of m k))) (sorted_list_of_set {k \<in> dom (map_of m). lo \<le> k \<and> k \<le> hi}) = ?r"
    by (simp add: keys)
  have "?r = []" if "lo > hi" using that by (auto simp: filter_empty_conv)
  with r show ?thesis by (auto simp: ranged_def between_def Let_def)
qed

interpretation memory: engine_laws memory_engine map_of ordered
proof unfold_locales
  show "\<And>e k w b e'. ordered e \<Longrightarrow> en_write_new memory_engine e k w = Inr (b, e') \<Longrightarrow>
      ordered e' \<and> b = (map_of e k = None) \<and> map_of e' = (if b then (map_of e)(k \<mapsto> w) else map_of e)"
    by (auto simp: memory_engine_def memory_write_new_def ordered_tree_insert map_of_tree_insert split: if_splits)
qed (auto simp: memory_engine_def memory_read_def memory_write_def memory_remove_def memory_scan_def memory_view_def
    ordered_tree_insert map_of_tree_insert ordered_tree_remove map_of_tree_remove memory_applied
    ranged_between finite_dom_map_of)

end
