(* ===== verification/Encrypted_Store.thy ===== *)
theory Encrypted_Store
  imports Memory Batch
begin

text \<open>
  The layer that encrypts what a node stores (\<open>src/.src/encrypted_store.rs\<close>, \<open>place.rs\<close>,
  \<open>viewed.rs\<close>): each record sealed for its place and found by a keyed hash of it, index entries
  in the clear with their values sealed, both written as one batch of the engine. It is shown to
  keep a ledger and an index: what it reads after a write is what the write left there.

  The cipher, the hash and the key home are the crate \<open>secret\<close>'s: a record of functions. A nonce
  is an argument, the n-th drawn in a call being \<open>nonces n\<close>.
\<close>

section \<open>What the crate secret does\<close>

record crypt =
  cr_derive :: "bytes \<Rightarrow> bytes \<Rightarrow> secret_error + bytes"
  cr_seal :: "bytes \<Rightarrow> bytes \<Rightarrow> bytes \<Rightarrow> bytes \<Rightarrow> secret_error + bytes"
  cr_open :: "bytes \<Rightarrow> bytes \<Rightarrow> bytes \<Rightarrow> secret_error + bytes"
  cr_hash :: "bytes \<Rightarrow> bytes \<Rightarrow> bytes"
  cr_wrap :: "string \<Rightarrow> bytes \<Rightarrow> bytes \<Rightarrow> secret_error + bytes"
  cr_unwrap :: "string \<Rightarrow> bytes \<Rightarrow> secret_error + bytes"

text \<open>
  Authenticated encryption: what was sealed for a place opens for it and is refused for any other;
  a key unwraps as it was wrapped. A keyed hash has thirty-two bytes.
\<close>

locale crypt_laws =
  fixes C :: crypt
  assumes open_seal: "cr_seal C k n p v = Inr s \<Longrightarrow> cr_open C k p s = Inr v"
    and moved: "cr_seal C k n p v = Inr s \<Longrightarrow> p' \<noteq> p \<Longrightarrow> \<exists>r. cr_open C k p' s = Inl (SecretRefused r)"
    and length_hash: "length (cr_hash C k p) = 32"
    and unwrap_wrap: "cr_wrap C kek n d = Inr w \<Longrightarrow> cr_unwrap C kek w = Inr d"

section \<open>A record's place\<close>

definition short_place :: nat where "short_place = 64"

datatype place_rep = Short bytes nat | Long bytes

fun place_bytes :: "place_rep \<Rightarrow> bytes" where
  "place_bytes (Short bytes n) = take n bytes"
| "place_bytes (Long bytes) = bytes"

text \<open>\<open>copy_from_slice\<close> into a slice of an array.\<close>

definition copied_at :: "nat \<Rightarrow> bytes \<Rightarrow> bytes \<Rightarrow> bytes" where
  "copied_at i xs bs = take i bs @ xs @ drop (i + length xs) bs"

definition place_of :: "kind \<Rightarrow> key \<Rightarrow> place_rep" where
  "place_of kind key = (let k = as_bytes kind; n = length k + 1 + length key in
     if n > short_place then Long (k @ [0] @ key)
     else Short (copied_at (length k + 1) key (copied_at 0 k (replicate short_place 0))) n)"

definition place_at :: "kind \<Rightarrow> key \<Rightarrow> bytes" where
  "place_at kind key = place_bytes (place_of kind key)"

lemma copied_in:
  "i + length xs \<le> length bs \<Longrightarrow> take (i + length xs) (copied_at i xs bs) = take i bs @ xs"
  by (simp add: copied_at_def)

lemma place_at_eq: "place_at kind key = as_bytes kind @ [0] @ key"
proof (cases "length (as_bytes kind) + 1 + length key > short_place")
  case True
  then show ?thesis by (simp add: place_at_def place_of_def Let_def)
next
  case False
  define k where "k = as_bytes kind"
  define bs where "bs = copied_at 0 k (replicate short_place 0)"
  have fits: "length k + 1 + length key \<le> short_place" using False by (simp add: k_def)
  have bs: "bs = k @ replicate (short_place - length k) 0" by (simp add: bs_def copied_at_def drop_replicate)
  have "Suc (short_place - Suc (length k)) = short_place - length k" using fits by simp
  then have "bs = k @ [0] @ replicate (short_place - Suc (length k)) 0"
    using bs by (metis append_Cons append_Nil replicate_Suc)
  then have "take (length k + 1) bs = k @ [0]" "length bs = short_place"
    using fits by simp_all
  then show ?thesis
    using copied_in [of "length k + 1" key bs] False fits
    by (simp add: place_at_def place_of_def Let_def k_def bs_def)
qed

text \<open>A kind is a name of the code's own: no zero byte in it.\<close>

definition plain_kind :: "kind \<Rightarrow> bool" where
  "plain_kind kind \<longleftrightarrow> 0 \<notin> set (as_bytes kind)"

lemma byte_of_char: "unat (word_of_nat (of_char ch) :: u8) = of_char ch"
  by (simp add: unat_of_nat take_bit_nat_eq_self of_char_def)

lemma as_bytes_inject [simp]: "as_bytes s = as_bytes t \<longleftrightarrow> s = t"
proof (induction s arbitrary: t)
  case (Cons x s)
  have "(word_of_nat (of_char x) :: u8) = word_of_nat (of_char y) \<longleftrightarrow> x = y" for y :: char
    using byte_of_char [of x] byte_of_char [of y] by (metis of_char_eq_iff)
  with Cons show ?case by (cases t) (simp_all add: as_bytes_def)
qed (auto simp: as_bytes_def)

lemma split_at_zero:
  "0 \<notin> set xs \<Longrightarrow> 0 \<notin> set ys \<Longrightarrow> xs @ (0::u8) # us = ys @ 0 # vs \<longleftrightarrow> xs = ys \<and> us = vs"
  by (induction xs arbitrary: ys) (case_tac ys; auto)+

lemma place_at_inject:
  "plain_kind kind \<Longrightarrow> plain_kind kind' \<Longrightarrow> place_at kind key = place_at kind' key' \<longleftrightarrow> kind = kind' \<and> key = key'"
  by (simp add: place_at_eq plain_kind_def split_at_zero)

section \<open>The store\<close>

definition data_key_at :: key where
  "data_key_at = 0 # as_bytes ''xmip-core-persist/key'' @ [0]"

definition own_prefix :: bytes where "own_prefix = 0 # as_bytes ''xmip-core-persist/''"
definition record_purpose :: bytes where "record_purpose = as_bytes ''xmip-core-persist/record''"
definition lookup_purpose :: bytes where "lookup_purpose = as_bytes ''xmip-core-persist/lookup''"
definition index_mark :: bytes where "index_mark = 0 # as_bytes ''index'' @ [0]"
definition layout :: u8 where "layout = 1"

record 'e store =
  se_engine :: 'e
  se_record :: bytes
  se_lookup :: bytes

definition keyed :: "(secret_error + 'a) \<Rightarrow> 'a result" where
  "keyed r = (case r of Inl e \<Rightarrow> Inl (Key e) | Inr x \<Rightarrow> Inr x)"

lemma keyed_Inr [simp]: "keyed (Inr x) = Inr x" "keyed r = Inr y \<longleftrightarrow> r = Inr y"
  by (simp_all add: keyed_def split: sum.split)

text \<open>
  The store over an engine, its data key unwrapped, or created and wrapped. \<open>meanwhile\<close> is what
  other openers did to the engine after it was found to have none.
\<close>

definition open_data_key :: "crypt \<Rightarrow> 'e engine \<Rightarrow> string \<Rightarrow> bytes \<times> bytes \<Rightarrow> ('e \<Rightarrow> 'e) \<Rightarrow> 'e \<Rightarrow> (bytes \<times> 'e) result" where
  "open_data_key C E kek fresh_nonce meanwhile e = (let (fresh, nonce) = fresh_nonce in
     bindr (en_read E e data_key_at) (\<lambda>v. case v of
       Some wrapped \<Rightarrow> bindr (keyed (cr_unwrap C kek wrapped)) (\<lambda>d. Inr (d, e))
     | None \<Rightarrow>
         bindr (keyed (cr_wrap C kek nonce fresh)) (\<lambda>wrapped.
         bindr (en_write_new E (meanwhile e) data_key_at wrapped) (\<lambda>(was_new, e').
           if was_new then Inr (fresh, e')
           else bindr (en_read E e' data_key_at) (\<lambda>k. case k of
               None \<Rightarrow> Inl (Engine (en_name E) ''the data key vanished'')
             | Some wrapped' \<Rightarrow> bindr (keyed (cr_unwrap C kek wrapped')) (\<lambda>d. Inr (d, e')))))))"

definition open_store :: "crypt \<Rightarrow> 'e engine \<Rightarrow> string \<Rightarrow> bytes \<times> bytes \<Rightarrow> ('e \<Rightarrow> 'e) \<Rightarrow> 'e \<Rightarrow> 'e store result" where
  "open_store C E kek fresh_nonce meanwhile e =
     bindr (open_data_key C E kek fresh_nonce meanwhile e) (\<lambda>(data, e').
     bindr (keyed (cr_derive C data record_purpose)) (\<lambda>r.
     bindr (keyed (cr_derive C data lookup_purpose)) (\<lambda>l.
       Inr \<lparr>se_engine = e', se_record = r, se_lookup = l\<rparr>)))"

definition seal :: "crypt \<Rightarrow> 'e store \<Rightarrow> bytes \<Rightarrow> bytes \<Rightarrow> bytes \<Rightarrow> bytes result" where
  "seal C s nonce at v = bindr (keyed (cr_seal C (se_record s) nonce at v)) (\<lambda>sealed. Inr (layout # sealed))"

definition record_hash :: "crypt \<Rightarrow> 'e store \<Rightarrow> kind \<Rightarrow> key \<Rightarrow> key" where
  "record_hash C s kind key = cr_hash C (se_lookup s) (place_at kind key)"

definition put_record :: "crypt \<Rightarrow> 'e engine \<Rightarrow> 'e store \<Rightarrow> bytes \<Rightarrow> kind \<Rightarrow> key \<Rightarrow> bytes \<Rightarrow> 'e store result" where
  "put_record C E s nonce kind key v =
     bindr (seal C s nonce (place_at kind key) v) (\<lambda>sealed.
     bindr (en_write E (se_engine s) (record_hash C s kind key) sealed) (\<lambda>e. Inr (s\<lparr>se_engine := e\<rparr>)))"

definition put_new_record :: "crypt \<Rightarrow> 'e engine \<Rightarrow> 'e store \<Rightarrow> bytes \<Rightarrow> kind \<Rightarrow> key \<Rightarrow> bytes \<Rightarrow> (bool \<times> 'e store) result" where
  "put_new_record C E s nonce kind key v =
     bindr (seal C s nonce (place_at kind key) v) (\<lambda>sealed.
     bindr (en_write_new E (se_engine s) (record_hash C s kind key) sealed) (\<lambda>(b, e). Inr (b, s\<lparr>se_engine := e\<rparr>)))"

definition derived :: "crypt \<Rightarrow> 'e store \<Rightarrow> bytes \<Rightarrow> bytes result" where
  "derived C s purpose = keyed (cr_derive C (se_record s) purpose)"

text \<open>What \<open>stored\<close> seals for a place, authenticated.\<close>

definition refused :: "'e engine \<Rightarrow> string \<Rightarrow> string \<Rightarrow> persist_error" where
  "refused E what reason = Refused (en_name E @ '' '' @ what) reason"

definition opened :: "crypt \<Rightarrow> 'e engine \<Rightarrow> 'e store \<Rightarrow> bytes \<Rightarrow> bytes \<Rightarrow> string \<Rightarrow> bytes result" where
  "opened C E s at stored what = (case stored of
     [] \<Rightarrow> Inl (refused E what ''not a record this store wrote'')
   | l # sealed \<Rightarrow> if l \<noteq> layout then Inl (refused E what ''not a record this store wrote'')
       else (case cr_open C (se_record s) at sealed of
         Inr v \<Rightarrow> Inr v
       | Inl (SecretRefused reason) \<Rightarrow> Inl (refused E what reason)
       | Inl other \<Rightarrow> Inl (Key other)))"

definition reads_now :: "'e engine \<Rightarrow> 'e \<Rightarrow> reads" where
  "reads_now E e = \<lparr>rd_read = en_read E e, rd_scan = en_scan E e\<rparr>"

definition get_in :: "crypt \<Rightarrow> 'e engine \<Rightarrow> 'e store \<Rightarrow> reads \<Rightarrow> kind \<Rightarrow> key \<Rightarrow> bytes option result" where
  "get_in C E s r kind key =
     bindr (rd_read r (record_hash C s kind key)) (\<lambda>v. case v of
       None \<Rightarrow> Inr None
     | Some stored \<Rightarrow> bindr (opened C E s (place_at kind key) stored (''record of kind '' @ [CHR 0x27] @ kind @ [CHR 0x27]))
         (\<lambda>v. Inr (Some v)))"

definition get_record :: "crypt \<Rightarrow> 'e engine \<Rightarrow> 'e store \<Rightarrow> kind \<Rightarrow> key \<Rightarrow> bytes option result" where
  "get_record C E s kind key = get_in C E s (reads_now E (se_engine s)) kind key"

text \<open>One consistent view of the store.\<close>

definition viewed :: "'e engine \<Rightarrow> 'e store \<Rightarrow> reads result" where
  "viewed E s = en_view E (se_engine s)"

definition remove_record :: "crypt \<Rightarrow> 'e engine \<Rightarrow> 'e store \<Rightarrow> kind \<Rightarrow> key \<Rightarrow> 'e store result" where
  "remove_record C E s kind key =
     bindr (en_remove E (se_engine s) (record_hash C s kind key)) (\<lambda>e. Inr (s\<lparr>se_engine := e\<rparr>))"

text \<open>A batch's changes sealed, and its index entries after them, the n-th with the n-th nonce.\<close>

type_synonym index_entry = "key \<times> u128 option"

fun sealed :: "crypt \<Rightarrow> 'e store \<Rightarrow> (nat \<Rightarrow> bytes) \<Rightarrow> nat \<Rightarrow> record_change list \<Rightarrow> change list result" where
  "sealed C s nonces n [] = Inr []"
| "sealed C s nonces n ((kind, key, v) # cs) =
     bindr (map_maybe (seal C s (nonces n) (place_at kind key)) v) (\<lambda>w.
     bindr (sealed C s nonces (Suc n) cs) (\<lambda>b. Inr ((record_hash C s kind key, w) # b)))"

fun sealed_entries :: "crypt \<Rightarrow> 'e store \<Rightarrow> (nat \<Rightarrow> bytes) \<Rightarrow> nat \<Rightarrow> index_entry list \<Rightarrow> change list result" where
  "sealed_entries C s nonces n [] = Inr []"
| "sealed_entries C s nonces n ((key, rid) # es) =
     bindr (map_maybe (\<lambda>rid. seal C s (nonces n) (index_mark @ key) (be128 rid)) rid) (\<lambda>w.
     bindr (sealed_entries C s nonces (Suc n) es) (\<lambda>b. Inr ((index_mark @ key, w) # b)))"

definition indexed :: "crypt \<Rightarrow> 'e store \<Rightarrow> (nat \<Rightarrow> bytes) \<Rightarrow> record_change list \<Rightarrow> index_entry list \<Rightarrow> change list result" where
  "indexed C s nonces cs es = bindr (sealed C s nonces 0 cs) (\<lambda>b.
     bindr (sealed_entries C s nonces (length cs) es) (\<lambda>b'. Inr (b @ b')))"

definition apply_all :: "('e \<Rightarrow> change list \<Rightarrow> 'e result) \<Rightarrow> 'e store \<Rightarrow> change list result \<Rightarrow> 'e store result" where
  "apply_all write s b = bindr b (\<lambda>b. bindr (write (se_engine s) b) (\<lambda>e. Inr (s\<lparr>se_engine := e\<rparr>)))"

definition apply_store where
  "apply_store C E s nonces cs = apply_all (en_apply E) s (sealed C s nonces 0 cs)"

definition apply_indexed where
  "apply_indexed C E s nonces cs es = apply_all (en_apply E) s (indexed C s nonces cs es)"

definition apply_indexed_deferred where
  "apply_indexed_deferred C E s nonces cs es = apply_all (en_apply_deferred E) s (indexed C s nonces cs es)"

definition apply_deferred where
  "apply_deferred C E s nonces cs = apply_all (en_apply_deferred E) s (sealed C s nonces 0 cs)"

definition sync_store :: "'e engine \<Rightarrow> 'e store \<Rightarrow> 'e store result" where
  "sync_store E s = bindr (en_sync E (se_engine s)) (\<lambda>e. Inr (s\<lparr>se_engine := e\<rparr>))"

text \<open>A range of an index, each entry authenticated.\<close>

definition entry_found :: "crypt \<Rightarrow> 'e engine \<Rightarrow> 'e store \<Rightarrow> entry \<Rightarrow> (key \<times> u128) result" where
  "entry_found C E s ks = (let (key, stored) = ks in
     bindr (opened C E s key stored ''index entry'') (\<lambda>id.
       if length id = 16 then Inr (drop (length index_mark) key, word_of_nat (from_be id))
       else Inl (refused E ''index entry'' ''not a record's identifier'')))"

definition scan_index_in :: "crypt \<Rightarrow> 'e engine \<Rightarrow> 'e store \<Rightarrow> reads \<Rightarrow> key \<times> key \<Rightarrow> nat \<Rightarrow> bool \<Rightarrow> (key \<times> u128) list result" where
  "scan_index_in C E s r fl most reverse =
     bindr (rd_scan r (index_mark @ fst fl) (index_mark @ snd fl) most reverse) (each (entry_found C E s))"

definition scan_index_keyed :: "crypt \<Rightarrow> 'e engine \<Rightarrow> 'e store \<Rightarrow> key \<Rightarrow> key \<Rightarrow> nat \<Rightarrow> bool \<Rightarrow> (key \<times> u128) list result" where
  "scan_index_keyed C E s lo hi most reverse = scan_index_in C E s (reads_now E (se_engine s)) (lo, hi) most reverse"

definition scan_index :: "crypt \<Rightarrow> 'e engine \<Rightarrow> 'e store \<Rightarrow> key \<Rightarrow> key \<Rightarrow> nat \<Rightarrow> bool \<Rightarrow> u128 list result" where
  "scan_index C E s lo hi most reverse =
     bindr (scan_index_keyed C E s lo hi most reverse) (\<lambda>es. Inr (map snd es))"

section \<open>What the store keeps\<close>

text \<open>
  The records at the places \<open>P\<close> of an engine's map are those of a ledger, and its index entries
  those of an index: each opens for its place to the value, and where there is none, nothing is.
\<close>

definition opens_as :: "crypt \<Rightarrow> 'e engine \<Rightarrow> 'e store \<Rightarrow> bytes \<Rightarrow> bytes option \<Rightarrow> bytes option \<Rightarrow> bool" where
  "opens_as C E s at w v \<longleftrightarrow> (case w of
     None \<Rightarrow> v = None
   | Some stored \<Rightarrow> \<exists>x. v = Some x \<and> (\<forall>what. opened C E s at stored what = Inr x))"

definition keeps_records :: "crypt \<Rightarrow> 'e engine \<Rightarrow> 'e store \<Rightarrow> (key \<rightharpoonup> bytes) \<Rightarrow> (kind \<times> key) set \<Rightarrow> ledger \<Rightarrow> bool" where
  "keeps_records C E s m P L \<longleftrightarrow> (\<forall>kind key. (kind, key) \<in> P \<longrightarrow>
     opens_as C E s (place_at kind key) (m (record_hash C s kind key)) (L kind key))"

definition keeps_index :: "crypt \<Rightarrow> 'e engine \<Rightarrow> 'e store \<Rightarrow> (key \<rightharpoonup> bytes) \<Rightarrow> (key \<rightharpoonup> u128) \<Rightarrow> bool" where
  "keeps_index C E s m X \<longleftrightarrow>
     (\<forall>key. opens_as C E s (index_mark @ key) (m (index_mark @ key)) (map_option be128 (X key)))"

definition apply_entries :: "(key \<rightharpoonup> u128) \<Rightarrow> index_entry list \<Rightarrow> key \<rightharpoonup> u128" where
  "apply_entries X es = foldl (\<lambda>X (k, v). X(k := v)) X es"

text \<open>
  The places told apart by their hashes, none of which begins as an index entry's key does.
\<close>

definition apart_places :: "crypt \<Rightarrow> 'e store \<Rightarrow> (kind \<times> key) set \<Rightarrow> bool" where
  "apart_places C s P \<longleftrightarrow> inj_on (\<lambda>(kind, key). record_hash C s kind key) P \<and>
     (\<forall>(kind, key) \<in> P. take (length index_mark) (record_hash C s kind key) \<noteq> index_mark)"

definition places_changed :: "record_change list \<Rightarrow> (kind \<times> key) set" where
  "places_changed cs = (\<lambda>(kind, key, v). (kind, key)) ` set cs"

lemma engine_fields:
  "se_record (s\<lparr>se_engine := e\<rparr>) = se_record s" "se_lookup (s\<lparr>se_engine := e\<rparr>) = se_lookup s"
  by simp_all

lemma keeps_engine [simp]:
  "keeps_records C E (s\<lparr>se_engine := e\<rparr>) = keeps_records C E s"
  "keeps_index C E (s\<lparr>se_engine := e\<rparr>) = keeps_index C E s"
  "apart_places C (s\<lparr>se_engine := e\<rparr>) = apart_places C s"
  unfolding keeps_records_def keeps_index_def opens_as_def record_hash_def apart_places_def opened_def engine_fields
  by (rule refl)+

lemma apply_entries_simps [simp]:
  "apply_entries X [] = X" "apply_entries X ((k, v) # es) = apply_entries (X(k := v)) es"
  by (simp_all add: apply_entries_def)

text \<open>A range of the engine's keys under the index mark is the range of the keys after it.\<close>

text \<open>What the reads of a store answer, where the engine answers: its ledger and its index.\<close>

definition keeps_store :: "crypt \<Rightarrow> 'e engine \<Rightarrow> ('e \<Rightarrow> key \<rightharpoonup> bytes) \<Rightarrow> ('e \<Rightarrow> bool) \<Rightarrow> 'e store \<Rightarrow>
    (kind \<times> key) set \<Rightarrow> ledger \<Rightarrow> (key \<rightharpoonup> u128) \<Rightarrow> bool" where
  "keeps_store C E recs ok s P L X \<longleftrightarrow> ok (se_engine s) \<and> apart_places C s P \<and>
     keeps_records C E s (recs (se_engine s)) P L \<and> keeps_index C E s (recs (se_engine s)) X"

definition reads_well :: "(key \<rightharpoonup> bytes) \<Rightarrow> reads \<Rightarrow> bool" where
  "reads_well m r \<longleftrightarrow> (\<forall>k v. rd_read r k = Inr v \<longrightarrow> v = m k) \<and>
     (\<forall>lo hi n b es. rd_scan r lo hi n b = Inr es \<longrightarrow> es = between m lo hi n b)"

text \<open>
  A write of the store that was answered well, and the changes it is of: a batch, with index entries
  or without; a record put, put where there was none, or removed; a sync.
\<close>

definition wrote_store :: "crypt \<Rightarrow> 'e engine \<Rightarrow> 'e store \<Rightarrow> record_change list \<Rightarrow> index_entry list \<Rightarrow> 'e store \<Rightarrow> bool" where
  "wrote_store C E s cs es s' \<longleftrightarrow>
     (\<exists>nonces. apply_indexed C E s nonces cs es = Inr s' \<or> apply_indexed_deferred C E s nonces cs es = Inr s') \<or>
     es = [] \<and> (\<exists>nonces. apply_store C E s nonces cs = Inr s' \<or> apply_deferred C E s nonces cs = Inr s') \<or>
     es = [] \<and> (\<exists>nonce kind key v. cs = [(kind, key, Some v)] \<and>
       (put_record C E s nonce kind key v = Inr s' \<or> put_new_record C E s nonce kind key v = Inr (True, s'))) \<or>
     es = [] \<and> (\<exists>kind key. cs = [(kind, key, None)] \<and> remove_record C E s kind key = Inr s') \<or>
     es = [] \<and> cs = [] \<and> (sync_store E s = Inr s' \<or> (\<exists>nonce kind key v. put_new_record C E s nonce kind key v = Inr (False, s')))"

text \<open>The laws of an engine and of the crate together.\<close>

locale encrypted = engine_laws E recs ok + crypt_laws C
  for E :: "'e engine" and recs :: "'e \<Rightarrow> key \<rightharpoonup> bytes" and ok :: "'e \<Rightarrow> bool" and C :: crypt
begin

lemma opened_seal:
  assumes "seal C s nonce at v = Inr w"
  shows "opened C E s at w what = Inr v"
  using assms open_seal by (auto simp: seal_def keyed_def opened_def bindr_eq_Inr split: sum.splits)

lemma opened_elsewhere:
  assumes "seal C s nonce at v = Inr w" and "at' \<noteq> at"
  shows "\<exists>reason. opened C E s at' w what = Inl (refused E what reason)"
  using assms moved [of _ _ at v _ at'] by (fastforce simp: seal_def keyed_def opened_def bindr_eq_Inr split: sum.splits)

lemma opens_sealed:
  assumes "map_maybe (\<lambda>x. seal C s nonce at (f x)) v = Inr w"
  shows "opens_as C E s at w (map_option f v)"
  using assms by (cases v) (auto simp: bindr_eq_Inr opened_seal opens_as_def)

lemma keeps_upd:
  assumes "keeps_records C E s m P L" and "apart_places C s P" and "(kind, key) \<in> P"
    and "map_maybe (seal C s nonce (place_at kind key)) v = Inr w"
  shows "keeps_records C E s (m(record_hash C s kind key := w)) P (upd L kind key v)"
  unfolding keeps_records_def
proof (intro allI impI)
  fix kind' key' assume at: "(kind', key') \<in> P"
  show "opens_as C E s (place_at kind' key') ((m(record_hash C s kind key := w)) (record_hash C s kind' key'))
      (upd L kind key v kind' key')"
  proof (cases "(kind', key') = (kind, key)")
    case True
    with opens_sealed [where f = "\<lambda>x. x", OF assms(4)] show ?thesis by (simp add: option.map_ident)
  next
    case False
    then have "record_hash C s kind' key' \<noteq> record_hash C s kind key"
      using assms(2,3) at by (auto simp: apart_places_def inj_on_def)
    moreover have "upd L kind key v kind' key' = L kind' key'" using False by (auto simp: upd_apply)
    ultimately show ?thesis using assms(1) at by (simp add: keeps_records_def)
  qed
qed

lemma sealed_kept:
  assumes "sealed C s nonces n cs = Inr b" and "keeps_records C E s m P L" and "apart_places C s P"
    and "places_changed cs \<subseteq> P"
  shows "keeps_records C E s (changed b m) P (apply_changes L cs)"
  using assms
proof (induction cs arbitrary: n b m L)
  case (Cons c cs)
  obtain kind key v where c: "c = (kind, key, v)" by (cases c)
  obtain w b1 where w: "map_maybe (seal C s (nonces n) (place_at kind key)) v = Inr w"
      "sealed C s nonces (Suc n) cs = Inr b1" "b = (record_hash C s kind key, w) # b1"
    using Cons.prems(1) by (auto simp: c bindr_eq_Inr)
  have "(kind, key) \<in> P" "places_changed cs \<subseteq> P"
    using Cons.prems(4) by (auto simp: places_changed_def c)
  then have "keeps_records C E s (changed b1 (m(record_hash C s kind key := w))) P (apply_changes (upd L kind key v) cs)"
    by (intro Cons.IH [OF w(2)] keeps_upd [OF Cons.prems(2,3) _ w(1)] Cons.prems(3)) simp_all
  then show ?case by (simp only: w(3) c changed_simps apply_changes_simps)
qed simp

lemma index_apart:
  assumes "keeps_index C E s m X" and "\<forall>k \<in> fst ` set b. take (length index_mark) k \<noteq> index_mark"
  shows "keeps_index C E s (changed b m) X"
proof -
  have "changed b m (index_mark @ key) = m (index_mark @ key)" for key
    using assms(2) by (intro changed_other) (metis append_eq_conv_conj)
  with assms(1) show ?thesis by (simp add: keeps_index_def)
qed

lemma sealed_hashes:
  "sealed C s nonces n cs = Inr b \<Longrightarrow> fst ` set b = (\<lambda>(kind, key). record_hash C s kind key) ` places_changed cs"
proof (induction cs arbitrary: n b)
  case (Cons c cs)
  obtain kind key v where c: "c = (kind, key, v)" by (cases c)
  obtain w b1 where w: "sealed C s nonces (Suc n) cs = Inr b1" "b = (record_hash C s kind key, w) # b1"
    using Cons.prems(1) by (auto simp: c bindr_eq_Inr)
  show ?case using Cons.IH [OF w(1)] by (simp add: places_changed_def w(2) c)
qed (simp add: places_changed_def)

lemma records_apart:
  assumes "keeps_records C E s m P L" and "apart_places C s P"
    and "\<forall>k \<in> fst ` set b. take (length index_mark) k = index_mark"
  shows "keeps_records C E s (changed b m) P L"
proof -
  have "changed b m (record_hash C s kind key) = m (record_hash C s kind key)" if "(kind, key) \<in> P" for kind key
    using assms(2,3) that by (intro changed_other) (force simp: apart_places_def)
  with assms(1) show ?thesis by (auto simp: keeps_records_def)
qed

lemma sealed_entries_kept:
  assumes "sealed_entries C s nonces n es = Inr b" and "keeps_index C E s m X"
  shows "keeps_index C E s (changed b m) (apply_entries X es)"
    and "\<forall>k \<in> fst ` set b. take (length index_mark) k = index_mark"
proof -
  have "keeps_index C E s (changed b m) (apply_entries X es) \<and> (\<forall>k \<in> fst ` set b. take (length index_mark) k = index_mark)"
    using assms
  proof (induction es arbitrary: n b m X)
    case (Cons e es)
    obtain key v where e: "e = (key, v)" by (cases e)
    obtain w b1 where w: "map_maybe (\<lambda>rid. seal C s (nonces n) (index_mark @ key) (be128 rid)) v = Inr w"
        "sealed_entries C s nonces (Suc n) es = Inr b1" "b = (index_mark @ key, w) # b1"
      using Cons.prems(1) by (auto simp: e bindr_eq_Inr)
    have "keeps_index C E s (m(index_mark @ key := w)) (X(key := v))"
      using opens_sealed [OF w(1)] Cons.prems(2) by (simp add: keeps_index_def)
    from Cons.IH [OF w(2) this] show ?case by (simp add: w(3) e fun_upd_def)
  qed simp
  then show "keeps_index C E s (changed b m) (apply_entries X es)"
    and "\<forall>k \<in> fst ` set b. take (length index_mark) k = index_mark" by blast+
qed

lemma indexed_kept:
  assumes "indexed C s nonces cs es = Inr b" and "keeps_records C E s m P L" and "keeps_index C E s m X"
    and "apart_places C s P" and "places_changed cs \<subseteq> P"
  shows "keeps_records C E s (changed b m) P (apply_changes L cs) \<and> keeps_index C E s (changed b m) (apply_entries X es)"
proof -
  obtain b1 b2 where b: "sealed C s nonces 0 cs = Inr b1" "sealed_entries C s nonces (length cs) es = Inr b2" "b = b1 @ b2"
    using assms(1) by (auto simp: indexed_def bindr_eq_Inr)
  have records: "keeps_records C E s (changed b1 m) P (apply_changes L cs)"
    using sealed_kept [OF b(1) assms(2,4,5)] .
  have "\<forall>k \<in> fst ` set b1. take (length index_mark) k \<noteq> index_mark"
    using sealed_hashes [OF b(1)] assms(4,5) by (auto simp: apart_places_def)
  then have "keeps_index C E s (changed b1 m) X" by (rule index_apart [OF assms(3)])
  note entries = sealed_entries_kept [OF b(2) this]
  from records_apart [OF records assms(4) entries(2)] entries(1) show ?thesis by (simp add: b(3))
qed

lemma changed_keeps:
  assumes "keeps_store C E recs ok s P L X" and "places_changed cs \<subseteq> P" and "indexed C s nonces cs es = Inr b"
    and "ok e \<and> recs e = changed b (recs (se_engine s))"
  shows "keeps_store C E recs ok (s\<lparr>se_engine := e\<rparr>) P (apply_changes L cs) (apply_entries X es)"
proof -
  have "keeps_records C E s (changed b (recs (se_engine s))) P (apply_changes L cs) \<and>
      keeps_index C E s (changed b (recs (se_engine s))) (apply_entries X es)"
    using assms(1,2) by (intro indexed_kept [OF assms(3)]) (simp_all add: keeps_store_def)
  with assms(1,4) show ?thesis by (simp add: keeps_store_def)
qed

lemma indexed_none [simp]: "indexed C s nonces cs [] = sealed C s nonces 0 cs"
  by (cases "sealed C s nonces 0 cs") (simp_all add: indexed_def)

lemma written_keeps:
  assumes "keeps_store C E recs ok s P L X" and "places_changed cs \<subseteq> P" and "wrote_store C E s cs es s'"
  shows "keeps_store C E recs ok s' P (apply_changes L cs) (apply_entries X es)"
proof -
  note keeps = changed_keeps [OF assms(1,2)]
  have ok: "ok (se_engine s)" using assms(1) by (simp add: keeps_store_def)
  have whole: ?thesis if b: "b = indexed C s nonces cs es" "apply_all (en_apply E) s b = Inr s' \<or> apply_all (en_apply_deferred E) s b = Inr s'"
    for b nonces
  proof -
    obtain b' e where e: "indexed C s nonces cs es = Inr b'" "s' = s\<lparr>se_engine := e\<rparr>"
        "en_apply E (se_engine s) b' = Inr e \<or> en_apply_deferred E (se_engine s) b' = Inr e"
      using b(2) unfolding b(1) apply_all_def bindr_eq_Inr by auto
    have "ok e \<and> recs e = changed b' (recs (se_engine s))" using e(3) apply_law [OF ok] deferred_law [OF ok] by blast
    with keeps [OF e(1)] e(2) show ?thesis by simp
  qed
  have one: ?thesis if "es = []" "cs = [(kind, key, Some v)]" "seal C s nonce (place_at kind key) v = Inr w"
      "s' = s\<lparr>se_engine := e\<rparr>" "ok e \<and> recs e = (recs (se_engine s))(record_hash C s kind key \<mapsto> w)" for nonce kind key v w e
    using keeps [of "\<lambda>_. nonce" "[]" "[(record_hash C s kind key, Some w)]" e] that by simp
  have none: ?thesis if "es = []" "cs = [(kind, key, None)]" "s' = s\<lparr>se_engine := e\<rparr>"
      "ok e \<and> recs e = (recs (se_engine s))(record_hash C s kind key := None)" for kind key e
    using keeps [of "\<lambda>_. []" "[]" "[(record_hash C s kind key, None)]" e] that by simp
  have same: ?thesis if "es = []" "cs = []" "s' = s\<lparr>se_engine := e\<rparr>" "ok e \<and> recs e = recs (se_engine s)" for e
    using keeps [of "\<lambda>_. []" "[]" "[]" e] that by simp
  from assms(3) consider
      (batch) nonces where "apply_indexed C E s nonces cs es = Inr s' \<or> apply_indexed_deferred C E s nonces cs es = Inr s'"
    | (plain) nonces where "es = []" "apply_store C E s nonces cs = Inr s' \<or> apply_deferred C E s nonces cs = Inr s'"
    | (put) nonce kind key v where "es = []" "cs = [(kind, key, Some v)]" "put_record C E s nonce kind key v = Inr s'"
    | (put_new) nonce kind key v where "es = []" "cs = [(kind, key, Some v)]" "put_new_record C E s nonce kind key v = Inr (True, s')"
    | (remove) kind key where "es = []" "cs = [(kind, key, None)]" "remove_record C E s kind key = Inr s'"
    | (sync) "es = []" "cs = []" "sync_store E s = Inr s'"
    | (there) nonce kind key v where "es = []" "cs = []" "put_new_record C E s nonce kind key v = Inr (False, s')"
    unfolding wrote_store_def by blast
  then show ?thesis
  proof cases
    case batch
    then show ?thesis by (intro whole [OF HOL.refl]) (simp add: apply_indexed_def apply_indexed_deferred_def)
  next
    case plain
    then show ?thesis by (intro whole [OF HOL.refl, of nonces]) (simp add: apply_store_def apply_deferred_def)
  next
    case put
    then obtain w e where w: "seal C s nonce (place_at kind key) v = Inr w" "s' = s\<lparr>se_engine := e\<rparr>"
        "en_write E (se_engine s) (record_hash C s kind key) w = Inr e"
      by (auto simp: put_record_def bindr_eq_Inr)
    from one [OF put(1,2) w(1,2)] write_law [OF ok w(3)] show ?thesis by simp
  next
    case put_new
    then obtain w e where w: "seal C s nonce (place_at kind key) v = Inr w" "s' = s\<lparr>se_engine := e\<rparr>"
        "en_write_new E (se_engine s) (record_hash C s kind key) w = Inr (True, e)"
      by (auto simp: put_new_record_def bindr_eq_Inr)
    from one [OF put_new(1,2) w(1,2)] write_new_law [OF ok w(3)] show ?thesis by simp
  next
    case remove
    then obtain e where e: "s' = s\<lparr>se_engine := e\<rparr>" "en_remove E (se_engine s) (record_hash C s kind key) = Inr e"
      by (auto simp: remove_record_def bindr_eq_Inr)
    from none [OF remove(1,2) e(1)] remove_law [OF ok e(2)] show ?thesis by simp
  next
    case sync
    then obtain e where e: "s' = s\<lparr>se_engine := e\<rparr>" "en_sync E (se_engine s) = Inr e"
      by (auto simp: sync_store_def bindr_eq_Inr)
    from same [OF sync(1,2) e(1)] sync_law [OF ok e(2)] show ?thesis by simp
  next
    case there
    then obtain w e where w: "s' = s\<lparr>se_engine := e\<rparr>" "en_write_new E (se_engine s) (record_hash C s kind key) w = Inr (False, e)"
      by (auto simp: put_new_record_def bindr_eq_Inr)
    from same [OF there(1,2) w(1)] write_new_law [OF ok w(2)] show ?thesis by simp
  qed
qed

lemma put_new_answers:
  assumes "keeps_store C E recs ok s P L X" and "(kind, key) \<in> P" and "put_new_record C E s nonce kind key v = Inr (b, s')"
  shows "b = (L kind key = None)"
proof -
  have ok: "ok (se_engine s)" and "opens_as C E s (place_at kind key) (recs (se_engine s) (record_hash C s kind key)) (L kind key)"
    using assms(1,2) by (simp_all add: keeps_store_def keeps_records_def)
  then have "recs (se_engine s) (record_hash C s kind key) = None \<longleftrightarrow> L kind key = None" by (auto simp: opens_as_def split: option.splits)
  moreover obtain w e where w: "en_write_new E (se_engine s) (record_hash C s kind key) w = Inr (b, e)"
    using assms(3) by (auto simp: put_new_record_def bindr_eq_Inr)
  ultimately show ?thesis using write_new_law [OF ok w] by simp
qed

lemma reads_now_well: "ok e \<Longrightarrow> reads_well (recs e) (reads_now E e)"
  by (auto simp: reads_well_def reads_now_def dest: read_law scan_law)

lemma view_well: "ok e \<Longrightarrow> en_view E e = Inr r \<Longrightarrow> reads_well (recs e) r"
  unfolding reads_well_def by (metis view_law)

lemma get_in_kept:
  assumes "keeps_store C E recs ok s P L X" and "reads_well (recs (se_engine s)) r" and "(kind, key) \<in> P"
  shows "get_in C E s r kind key = bindr (rd_read r (record_hash C s kind key)) (\<lambda>_. Inr (L kind key))"
proof (cases "rd_read r (record_hash C s kind key)")
  case (Inr v)
  then have v: "v = recs (se_engine s) (record_hash C s kind key)" using assms(2) by (simp add: reads_well_def)
  have "opens_as C E s (place_at kind key) v (L kind key)"
    using assms(1,3) v by (simp add: keeps_store_def keeps_records_def)
  then show ?thesis using Inr by (cases v) (auto simp: get_in_def opens_as_def)
qed (simp add: get_in_def)

lemma between_mark:
  assumes "finite (dom X)" and "\<And>k. m (index_mark @ k) = None \<longleftrightarrow> X k = None"
  shows "between m (index_mark @ lo) (index_mark @ hi) n b =
    map (\<lambda>(k, _). (index_mark @ k, the (m (index_mark @ k)))) (between X lo hi n b)"
proof -
  have "{k \<in> dom m. index_mark @ lo \<le> k \<and> k \<le> index_mark @ hi} = (@) index_mark ` {k \<in> dom X. lo \<le> k \<and> k \<le> hi}"
    (is "?A = ?B")
  proof (intro equalityI subsetI)
    fix k assume "k \<in> ?A"
    then have k: "m k \<noteq> None" "index_mark @ lo \<le> k" "k \<le> index_mark @ hi" by auto
    obtain k' where "k = index_mark @ k'" "lo \<le> k'" "k' \<le> hi" by (rule between_append [OF k(2,3)])
    with k(1) show "k \<in> ?B" by (simp add: assms(2) domIff)
  next
    fix k assume "k \<in> ?B"
    then obtain k' where "k = index_mark @ k'" "X k' \<noteq> None" "lo \<le> k'" "k' \<le> hi" by auto
    moreover from this have "m k \<noteq> None" using assms(2) [of k'] by metis
    ultimately show "k \<in> ?A" by (simp add: domIff)
  qed
  then show ?thesis
    using assms(1) by (simp add: between_def sorted_image take_map rev_map comp_def)
qed

lemma entries_found:
  assumes "keeps_index C E s m X" and "finite (dom m)"
  shows "each (entry_found C E s) (between m (index_mark @ lo) (index_mark @ hi) n b) = Inr (between X lo hi n b)"
proof -
  have opens: "opens_as C E s (index_mark @ k) (m (index_mark @ k)) (map_option be128 (X k))" for k
    using assms(1) by (simp add: keeps_index_def)
  have none: "m (index_mark @ k) = None \<longleftrightarrow> X k = None" for k
    using opens [of k] by (auto simp: opens_as_def split: option.splits)
  have "inj ((@) index_mark)" by (simp add: inj_def)
  moreover have "(@) index_mark ` dom X \<subseteq> dom m"
  proof (intro image_subsetI)
    fix k assume "k \<in> dom X"
    then have "X k \<noteq> None" by (metis domIff)
    then have "m (index_mark @ k) \<noteq> None" using none [of k] by metis
    then show "index_mark @ k \<in> dom m" by (metis domIff)
  qed
  ultimately have finite: "finite (dom X)"
    by (metis assms(2) finite_imageD finite_subset inj_on_subset subset_UNIV)
  have "entry_found C E s (index_mark @ k, the (m (index_mark @ k))) = Inr (k, v)" if "X k = Some v" for k v
    using opens [of k] that by (auto simp: entry_found_def opens_as_def split: option.splits)
  moreover have "X k = Some v" if "(k, v) \<in> set (between X lo hi n b)" for k v
    using that finite by (auto simp: between_def dest!: in_set_takeD split: if_splits)
  ultimately have "each (entry_found C E s) (map (\<lambda>(k, _). (index_mark @ k, the (m (index_mark @ k)))) (between X lo hi n b)) =
      Inr (between X lo hi n b)"
    unfolding each_eq_Inr list_all2_map1 by (intro list.rel_refl_strong) fastforce
  then show ?thesis using between_mark [OF finite none] by simp
qed

lemma scan_in_kept:
  assumes "keeps_store C E recs ok s P L X" and "reads_well (recs (se_engine s)) r"
  shows "scan_index_in C E s r (lo, hi) n b =
    bindr (rd_scan r (index_mark @ lo) (index_mark @ hi) n b) (\<lambda>_. Inr (between X lo hi n b))"
proof (cases "rd_scan r (index_mark @ lo) (index_mark @ hi) n b")
  case (Inr es)
  then have "es = between (recs (se_engine s)) (index_mark @ lo) (index_mark @ hi) n b"
    using assms(2) by (simp add: reads_well_def)
  then show ?thesis
    using Inr entries_found [of s "recs (se_engine s)" X lo hi n b] assms(1) finite_recs
    by (simp add: scan_index_in_def keeps_store_def)
qed (simp add: scan_index_in_def)

lemma data_key_kept:
  assumes "ok e" and "\<And>e. ok e \<Longrightarrow> ok (meanwhile e)"
    and "open_data_key C E kek fresh meanwhile e = Inr (d, e')"
  shows "ok e' \<and> (\<exists>w. recs e' data_key_at = Some w \<and> cr_unwrap C kek w = Inr d)"
proof -
  obtain v where v1: "en_read E e data_key_at = Inr v"
    using assms(3) by (auto simp: open_data_key_def bindr_eq_Inr split: prod.splits)
  note v = v1 read_law [OF assms(1) v1]
  show ?thesis
  proof (cases v)
    case (Some w)
    have read: "en_read E e data_key_at = Inr (Some w)" "recs e data_key_at = Some w" using v Some by simp_all
    show ?thesis
      using assms(3) assms(1) read(2) unfolding open_data_key_def read(1)
      by (auto simp: keyed_def bindr_eq_Inr split: sum.splits prod.splits)
  next
    case None
    obtain f n where f: "fresh = (f, n)" by (cases fresh)
    have read: "en_read E e data_key_at = Inr None" using v None by simp
    obtain w b e1 where w: "cr_wrap C kek n f = Inr w" "en_write_new E (meanwhile e) data_key_at w = Inr (b, e1)"
        "(if b then Inr (f, e1) else bindr (en_read E e1 data_key_at) (\<lambda>k. case k of
               None \<Rightarrow> Inl (Engine (en_name E) ''the data key vanished'')
             | Some wrapped' \<Rightarrow> bindr (keyed (cr_unwrap C kek wrapped')) (\<lambda>d. Inr (d, e1)))) = Inr (d, e')"
      using assms(3) unfolding open_data_key_def f read
      by (auto simp: keyed_def bindr_eq_Inr split: sum.splits)
    note new = write_new_law [OF assms(2) [OF assms(1)] w(2)]
    show ?thesis
    proof (cases b)
      case True
      with w new unwrap_wrap [OF w(1)] show ?thesis by auto
    next
      case False
      with w(3) obtain k where k: "en_read E e1 data_key_at = Inr k" "(case k of
          None \<Rightarrow> Inl (Engine (en_name E) ''the data key vanished'')
        | Some w \<Rightarrow> bindr (keyed (cr_unwrap C kek w)) (\<lambda>d. Inr (d, e1))) = Inr (d, e')"
        by (auto simp: bindr_eq_Inr)
      then obtain w' where "k = Some w'" "cr_unwrap C kek w' = Inr d" "e' = e1"
        by (cases k) (auto simp: bindr_eq_Inr)
      with k(1) new read_law [of e1 data_key_at k] show ?thesis by auto
    qed
  qed
qed

lemma opened_data_key:
  assumes "ok e" and "\<And>e. ok e \<Longrightarrow> ok (meanwhile e)" and "open_store C E kek fresh meanwhile e = Inr s"
  obtains w d where "ok (se_engine s)" "recs (se_engine s) data_key_at = Some w" "cr_unwrap C kek w = Inr d"
    "cr_derive C d record_purpose = Inr (se_record s)" "cr_derive C d lookup_purpose = Inr (se_lookup s)"
proof -
  obtain d e' where d: "open_data_key C E kek fresh meanwhile e = Inr (d, e')"
      "cr_derive C d record_purpose = Inr (se_record s)" "cr_derive C d lookup_purpose = Inr (se_lookup s)" "se_engine s = e'"
    using assms(3) by (auto simp: open_store_def bindr_eq_Inr)
  from data_key_kept [OF assms(1,2) d(1)] d that show ?thesis by auto
qed

text \<open>No write of records and entries is of the data key's place.\<close>

lemma data_key_apart:
  "cr_hash C k at \<noteq> data_key_at" "index_mark @ key \<noteq> data_key_at"
proof -
  have "length data_key_at = 23" by (simp add: data_key_at_def as_bytes_def)
  then show "cr_hash C k at \<noteq> data_key_at" using length_hash [of k at] by auto
  show "index_mark @ key \<noteq> data_key_at"
    by (simp add: index_mark_def data_key_at_def as_bytes_def of_char_def)
qed

lemma indexed_keys:
  assumes "indexed C s nonces cs es = Inr b"
  shows "data_key_at \<notin> fst ` set b"
proof -
  obtain b1 b2 where b: "sealed C s nonces 0 cs = Inr b1" "sealed_entries C s nonces (length cs) es = Inr b2" "b = b1 @ b2"
    using assms by (auto simp: indexed_def bindr_eq_Inr)
  have "data_key_at \<notin> fst ` set b1"
    using sealed_hashes [OF b(1)] data_key_apart(1) by (metis (no_types, lifting) case_prod_beta' imageE record_hash_def)
  moreover have "data_key_at \<notin> fst ` set b2" if "sealed_entries C s nonces n es = Inr b2" for n
    using that
  proof (induction es arbitrary: n b2)
    case (Cons e es)
    obtain key v where e: "e = (key, v)" by (cases e)
    obtain w b3 where "sealed_entries C s nonces (Suc n) es = Inr b3" "b2 = (index_mark @ key, w) # b3"
      using Cons.prems by (auto simp: e bindr_eq_Inr)
    then show ?case using Cons.IH data_key_apart(2) [of key] by auto
  qed simp
  ultimately show ?thesis using b by auto
qed

lemma data_key_stays:
  assumes "ok (se_engine s)"
    and "apply_indexed C E s nonces cs es = Inr s' \<or> apply_indexed_deferred C E s nonces cs es = Inr s'"
  shows "ok (se_engine s') \<and> recs (se_engine s') data_key_at = recs (se_engine s) data_key_at \<and>
    se_record s' = se_record s \<and> se_lookup s' = se_lookup s"
proof -
  obtain b e where b: "indexed C s nonces cs es = Inr b" "s' = s\<lparr>se_engine := e\<rparr>"
      "en_apply E (se_engine s) b = Inr e \<or> en_apply_deferred E (se_engine s) b = Inr e"
    using assms(2) by (auto simp: apply_indexed_def apply_indexed_deferred_def apply_all_def bindr_eq_Inr)
  then have "ok e \<and> recs e = changed b (recs (se_engine s))" using assms(1) apply_law deferred_law by blast
  then show ?thesis using changed_other [OF indexed_keys [OF b(1)]] by (simp add: b(2))
qed

end

section \<open>A cipher the laws hold of\<close>

text \<open>Nothing hidden: a value sealed is its place, told apart from what follows, and the value.\<close>

definition plain_mark :: "bytes \<Rightarrow> bytes" where
  "plain_mark p = replicate (length p) 1 @ 0 # p"

definition plain_crypt :: crypt where
  "plain_crypt = \<lparr>cr_derive = (\<lambda>d purpose. Inr (d @ purpose)),
     cr_seal = (\<lambda>k n p v. Inr (plain_mark p @ v)),
     cr_open = (\<lambda>k p s. if take (length (plain_mark p)) s = plain_mark p then Inr (drop (length (plain_mark p)) s)
       else Inl (SecretRefused ''sealed for another place'')),
     cr_hash = (\<lambda>k p. take 32 (p @ 1 # replicate 32 0)),
     cr_wrap = (\<lambda>kek n d. Inr (plain_mark (as_bytes kek) @ d)),
     cr_unwrap = (\<lambda>kek s. if take (length (plain_mark (as_bytes kek))) s = plain_mark (as_bytes kek)
       then Inr (drop (length (plain_mark (as_bytes kek))) s) else Inl (SecretRefused ''wrapped by another key''))\<rparr>"

lemma plain_mark_moved:
  assumes "take (length (plain_mark p')) (plain_mark p @ v) = plain_mark p'"
  shows "p' = p"
proof -
  obtain t where "plain_mark p @ v = plain_mark p' @ t"
    using assms by (metis append_take_drop_id)
  then have "replicate (length p) 1 @ (0::u8) # (p @ v) = replicate (length p') 1 @ 0 # (p' @ t)"
    by (simp add: plain_mark_def)
  then have "replicate (length p) (1::u8) = replicate (length p') 1" "p @ v = p' @ t"
    using split_at_zero [of "replicate (length p) 1" "replicate (length p') 1" "p @ v" "p' @ t"] by auto
  then show ?thesis by (metis append_eq_append_conv length_replicate)
qed

interpretation plain_store: encrypted memory_engine map_of ordered plain_crypt
proof (intro encrypted.intro memory.engine_laws_axioms crypt_laws.intro)
  show "length (cr_hash plain_crypt k p) = 32" for k p by (simp add: plain_crypt_def)
qed (auto simp: plain_crypt_def dest: plain_mark_moved)

section \<open>Properties\<close>

definition sample_store :: "memory store" where
  "sample_store = \<lparr>se_engine = [], se_record = [], se_lookup = []\<rparr>"

lemma sample_store_keeps:
  "keeps_store plain_crypt memory_engine map_of ordered sample_store {(''journey'', [1])} empty_ledger Map.empty"
  by (simp add: keeps_store_def sample_store_def apart_places_def record_hash_def plain_crypt_def place_at_eq
      keeps_records_def keeps_index_def opens_as_def empty_ledger_def index_mark_def as_bytes_def of_char_def)

definition sample_written :: "memory store result" where
  "sample_written = apply_indexed_deferred plain_crypt memory_engine sample_store (\<lambda>_. [])
     [(''journey'', [1], Some [2])] [([3], Some 4)]"

lemma sample_written_is: "\<exists>s'. sample_written = Inr s'"
  by (simp add: sample_written_def apply_indexed_deferred_def apply_all_def indexed_def seal_def keyed_def plain_crypt_def
      memory_engine_def memory_apply_def)

text \<open>
  C8: What was written through the layer is what it reads, for every write it has: after a batch of
  records and index entries, a record put, put where there was none, or removed, or a sync, every
  record told apart by its hash reads, wherever the engine answers the read, as the ledger the changes
  make of the one before, every range of an index as the entries they leave in it, in the order of
  their keys, and the store keeps them so for the next write. A record put where there was none is
  answered as written exactly where the ledger held none.
\<close>

theorem store_reads_its_writes:
  assumes "encrypted E recs ok C" and "keeps_store C E recs ok s P L X" and "places_changed cs \<subseteq> P" and "wrote_store C E s cs es s'"
  shows "keeps_store C E recs ok s' P (apply_changes L cs) (apply_entries X es) \<and>
    ((kind, key) \<in> P \<longrightarrow> get_record C E s' kind key =
      bindr (en_read E (se_engine s') (record_hash C s' kind key)) (\<lambda>_. Inr (apply_changes L cs kind key))) \<and>
    scan_index_keyed C E s' lo hi n b = bindr (en_scan E (se_engine s') (index_mark @ lo) (index_mark @ hi) n b)
      (\<lambda>_. Inr (between (apply_entries X es) lo hi n b)) \<and>
    ((kind, key) \<in> P \<longrightarrow> put_new_record C E s nonce kind key v = Inr (fresh, s'') \<longrightarrow> fresh = (L kind key = None))"
proof -
  have kept: "keeps_store C E recs ok s' P (apply_changes L cs) (apply_entries X es)"
    by (rule encrypted.written_keeps [OF assms])
  then have well: "reads_well (recs (se_engine s')) (reads_now E (se_engine s'))"
    by (intro encrypted.reads_now_well [OF assms(1)]) (simp add: keeps_store_def)
  have "(kind, key) \<in> P \<Longrightarrow> put_new_record C E s nonce kind key v = Inr (fresh, s'') \<Longrightarrow> fresh = (L kind key = None)"
    by (rule encrypted.put_new_answers [OF assms(1,2)])
  with kept encrypted.get_in_kept [OF assms(1) kept well, of kind key] encrypted.scan_in_kept [OF assms(1) kept well, of lo hi n b]
  show ?thesis by (simp add: get_record_def scan_index_keyed_def reads_now_def)
qed

text \<open>A record and an entry of an index written, then the record put over.\<close>

theorem store_reads_its_writes_witness:
  "\<exists>s' s''. sample_written = Inr s' \<and> put_record plain_crypt memory_engine s' [] ''journey'' [1] [7] = Inr s'' \<and>
    get_record plain_crypt memory_engine s' ''journey'' [1] = Inr (Some [2]) \<and>
    get_record plain_crypt memory_engine s'' ''journey'' [1] = Inr (Some [7])"
proof -
  let ?P = "{(''journey'', [1])}"
  obtain s' where s': "sample_written = Inr s'" using sample_written_is by blast
  have wrote: "wrote_store plain_crypt memory_engine sample_store [(''journey'', [1], Some [2])] [([3], Some 4)] s'"
    using s' by (auto simp: wrote_store_def sample_written_def)
  have first: "keeps_store plain_crypt memory_engine map_of ordered s' ?P (apply_changes empty_ledger [(''journey'', [1], Some [2])])
      (apply_entries Map.empty [([3], Some 4)]) \<and> get_record plain_crypt memory_engine s' ''journey'' [1] = Inr (Some [2])"
    using store_reads_its_writes [OF plain_store.encrypted_axioms sample_store_keeps _ wrote, of "''journey''" "[1]"]
    by (auto simp: places_changed_def memory_engine_def memory_read_def)
  obtain s'' where s'': "put_record plain_crypt memory_engine s' [] ''journey'' [1] [7] = Inr s''"
    by (auto simp: put_record_def seal_def keyed_def plain_crypt_def memory_engine_def memory_write_def)
  then have "wrote_store plain_crypt memory_engine s' [(''journey'', [1], Some [7])] [] s''" by (auto simp: wrote_store_def)
  from store_reads_its_writes [OF plain_store.encrypted_axioms first [THEN conjunct1] _ this, of "''journey''" "[1]"]
  have "get_record plain_crypt memory_engine s'' ''journey'' [1] = Inr (Some [7])"
    by (auto simp: places_changed_def memory_engine_def memory_read_def)
  with first s' s'' show ?thesis by blast
qed

text \<open>
  C31: A record sealed for one place and found under another, moved there in the engine's files, is
  refused in words and never answered as a value or as missing.
\<close>

theorem moved_record_refused:
  assumes "encrypted E recs ok C" and "seal C s nonce (place_at kind key) v = Inr w"
    and "plain_kind kind" and "plain_kind kind'" and "(kind', key') \<noteq> (kind, key)"
    and "en_read E (se_engine s) (record_hash C s kind' key') = Inr (Some w)"
  shows "\<exists>scope reason. get_record C E s kind' key' = Inl (Refused scope reason)"
proof -
  have "place_at kind' key' \<noteq> place_at kind key" using assms(3-5) by (auto simp: place_at_inject)
  then obtain reason where "opened C E s (place_at kind' key') w (''record of kind '' @ [CHR 0x27] @ kind' @ [CHR 0x27]) =
      Inl (refused E (''record of kind '' @ [CHR 0x27] @ kind' @ [CHR 0x27]) reason)"
    using encrypted.opened_elsewhere [OF assms(1,2)] by blast
  with assms(6) show ?thesis by (simp add: get_record_def get_in_def reads_now_def refused_def)
qed

definition moved_store :: "memory store" where
  "moved_store = sample_store\<lparr>se_engine :=
     [(record_hash plain_crypt sample_store ''journey'' [2], layout # plain_mark (place_at ''journey'' [1]) @ [9])]\<rparr>"

theorem moved_record_refused_witness:
  "\<exists>scope reason. get_record plain_crypt memory_engine moved_store ''journey'' [2] = Inl (Refused scope reason)"
  by (rule moved_record_refused [OF plain_store.encrypted_axioms, of _ "[]" "''journey''" "[1]" "[9]"])
    (simp_all add: seal_def plain_crypt_def moved_store_def sample_store_def memory_engine_def memory_read_def
      record_hash_def plain_kind_def as_bytes_def of_char_def)

text \<open>
  A store opened again, after whatever was written through it, is opened with the keys it was
  opened with first, whichever opener's data key got there: its records stay readable.
\<close>

theorem opened_again_same_keys:
  assumes "encrypted E recs ok C" and "ok e" and "\<And>e. ok e \<Longrightarrow> ok (meanwhile e)"
    and "open_store C E kek fresh meanwhile e = Inr s"
    and "apply_indexed C E s nonces cs es = Inr s' \<or> apply_indexed_deferred C E s nonces cs es = Inr s'"
    and "\<And>e. ok e \<Longrightarrow> ok (later e)" and "open_store C E kek fresh' later (se_engine s') = Inr s''"
  shows "se_record s'' = se_record s \<and> se_lookup s'' = se_lookup s \<and> se_engine s'' = se_engine s'"
proof -
  obtain w d where d: "ok (se_engine s)" "recs (se_engine s) data_key_at = Some w" "cr_unwrap C kek w = Inr d"
    "cr_derive C d record_purpose = Inr (se_record s)" "cr_derive C d lookup_purpose = Inr (se_lookup s)"
    by (rule encrypted.opened_data_key [OF assms(1,2,3,4)])
  note stays = encrypted.data_key_stays [OF assms(1) d(1) assms(5)]
  then have "ok (se_engine s')" by simp
  obtain v where "en_read E (se_engine s') data_key_at = Inr v"
    using assms(7) by (auto simp: open_store_def open_data_key_def bindr_eq_Inr split: prod.splits)
  moreover from this have "v = Some w"
    using engine_laws.read_law [OF encrypted.axioms(1) [OF assms(1)] \<open>ok (se_engine s')\<close>] stays d(2) by metis
  ultimately have "open_data_key C E kek fresh' later (se_engine s') = Inr (d, se_engine s')"
    using d(3) by (cases fresh') (simp add: open_data_key_def keyed_def)
  with assms(7) d(4,5) show ?thesis by (auto simp: open_store_def bindr_eq_Inr)
qed

definition sample_opened :: "memory \<Rightarrow> memory store result" where
  "sample_opened m = open_store plain_crypt memory_engine ''kek'' ([7], []) id m"

lemma sample_opened_is: "\<exists>s. sample_opened m = Inr s \<and> se_engine s = m \<and> se_record s = 7 # record_purpose"
  if "m = [(data_key_at, plain_mark (as_bytes ''kek'') @ [7])]" for m
  using that by (simp add: sample_opened_def open_store_def open_data_key_def plain_crypt_def memory_engine_def
      memory_read_def keyed_def)

theorem opened_again_same_keys_witness:
  "\<exists>s s' s''. sample_opened [(data_key_at, plain_mark (as_bytes ''kek'') @ [7])] = Inr s \<and>
     apply_indexed_deferred plain_crypt memory_engine s (\<lambda>_. []) [] [] = Inr s' \<and>
     sample_opened (se_engine s') = Inr s'' \<and> se_record s'' = se_record s"
proof -
  obtain s where s: "sample_opened [(data_key_at, plain_mark (as_bytes ''kek'') @ [7])] = Inr s"
      "se_engine s = [(data_key_at, plain_mark (as_bytes ''kek'') @ [7])]"
    using sample_opened_is [OF refl] by blast
  have written: "apply_indexed_deferred plain_crypt memory_engine s (\<lambda>_. []) [] [] = Inr s"
    by (simp add: apply_indexed_deferred_def apply_all_def indexed_def memory_engine_def memory_apply_def)
  then have "se_record s = se_record s"
    using opened_again_same_keys [OF plain_store.encrypted_axioms, where e = "[(data_key_at, plain_mark (as_bytes ''kek'') @ [7])]"
        and meanwhile = id and kek = "''kek''" and fresh = "([7], [])" and s = s and nonces = "\<lambda>_. []" and cs = "[]"
        and es = "[]" and s' = s and later = id and fresh' = "([7], [])" and s'' = s] s
    by (simp add: sample_opened_def ordered_def)
  with s written show ?thesis by auto
qed

end
