(* ===== verification/Secrets.thy ===== *)
theory Secrets
  imports Records Encrypted_Store
begin

text \<open>
  The secrets Locations name (\<open>src/.src/storage/secret.rs\<close>, \<open>secret/sealed.rs\<close>): as a node sets
  and presents one, as a surface lists it, and as its table keeps it, its value sealed under a key
  of its own with its name and kind bound in.

  A name, a kind and a secret are the crate \<open>xcore\<close>'s: a name is its words, a kind its word, and
  which are names, kinds and secrets is a record of functions.
\<close>

record secret_rules =
  xs_name :: "string \<Rightarrow> string + string"
  xs_kind :: "string \<Rightarrow> bool"
  xs_secret :: "string \<Rightarrow> string \<Rightarrow> bytes \<Rightarrow> string + unit"

record secret_record =
  xr_id :: u128
  xr_name :: string
  xr_kind :: string
  xr_value :: bytes
  xr_set_unix_nanos :: u64
  xr_set_by :: string

record secret_entry =
  xe_name :: string
  xe_kind :: string
  xe_set_unix_nanos :: u64
  xe_set_by :: string

record kept_secret =
  xk_id :: u128
  xk_name :: string
  xk_kind :: string
  xk_sealed :: bytes
  xk_set_unix_nanos :: u64
  xk_set_by :: string

section \<open>Their forms\<close>

definition w_kind :: "codec \<Rightarrow> string \<Rightarrow> bytes" where
  "w_kind c kind = w_text c kind"

definition r_kind :: "codec \<Rightarrow> secret_rules \<Rightarrow> string reader" where
  "r_kind c x = andr (r_text c) (\<lambda>word. if xs_kind x word then ret word
     else refuse (''no secret kind is '' @ [CHR 0x27] @ word @ [CHR 0x27]))"

definition r_name :: "codec \<Rightarrow> secret_rules \<Rightarrow> string reader" where
  "r_name c x = andr (r_text c) (\<lambda>word. case xs_name x word of Inl why \<Rightarrow> refuse why | Inr n \<Rightarrow> ret n)"

definition w_secret_record :: "codec \<Rightarrow> secret_record \<Rightarrow> bytes" where
  "w_secret_record c s =
     w_u128 c (xr_id s) @
     w_text c (xr_name s) @
     w_kind c (xr_kind s) @
     w_counted c (xr_value s) @
     w_u64 c (xr_set_unix_nanos s) @
     w_text c (xr_set_by s)"

definition r_secret_record :: "codec \<Rightarrow> secret_rules \<Rightarrow> secret_record reader" where
  "r_secret_record c x =
     andr (r_u128 c) (\<lambda>rid.
     andr (r_name c x) (\<lambda>n.
     andr (r_kind c x) (\<lambda>kind.
     andr (r_counted c) (\<lambda>v.
     (case xs_secret x n kind v of
       Inl why \<Rightarrow> refuse why
     | Inr _ \<Rightarrow>
     andr (r_u64 c) (\<lambda>set_unix_nanos.
     andr (r_text c) (\<lambda>set_by.
     ret \<lparr>xr_id = rid, xr_name = n, xr_kind = kind, xr_value = v, xr_set_unix_nanos = set_unix_nanos,
       xr_set_by = set_by\<rparr>)))))))"

definition w_secret_entry :: "codec \<Rightarrow> secret_entry \<Rightarrow> bytes" where
  "w_secret_entry c e =
     w_text c (xe_name e) @ w_kind c (xe_kind e) @ w_u64 c (xe_set_unix_nanos e) @ w_text c (xe_set_by e)"

definition r_secret_entry :: "codec \<Rightarrow> secret_rules \<Rightarrow> secret_entry reader" where
  "r_secret_entry c x =
     andr (r_name c x) (\<lambda>n.
     andr (r_kind c x) (\<lambda>kind.
     andr (r_u64 c) (\<lambda>set_unix_nanos.
     andr (r_text c) (\<lambda>set_by.
     ret \<lparr>xe_name = n, xe_kind = kind, xe_set_unix_nanos = set_unix_nanos, xe_set_by = set_by\<rparr>))))"

definition w_kept_secret :: "codec \<Rightarrow> kept_secret \<Rightarrow> bytes" where
  "w_kept_secret c k =
     w_u128 c (xk_id k) @
     w_text c (xk_name k) @
     w_kind c (xk_kind k) @
     w_counted c (xk_sealed k) @
     w_u64 c (xk_set_unix_nanos k) @
     w_text c (xk_set_by k)"

definition r_kept_secret :: "codec \<Rightarrow> secret_rules \<Rightarrow> kept_secret reader" where
  "r_kept_secret c x =
     andr (r_u128 c) (\<lambda>rid.
     andr (r_name c x) (\<lambda>n.
     andr (r_kind c x) (\<lambda>kind.
     andr (r_counted c) (\<lambda>sealed.
     andr (r_u64 c) (\<lambda>set_unix_nanos.
     andr (r_text c) (\<lambda>set_by.
     ret \<lparr>xk_id = rid, xk_name = n, xk_kind = kind, xk_sealed = sealed, xk_set_unix_nanos = set_unix_nanos,
       xk_set_by = set_by\<rparr>))))))"

definition fit_named :: "codec \<Rightarrow> secret_rules \<Rightarrow> string \<Rightarrow> string \<Rightarrow> bool" where
  "fit_named c x n kind \<longleftrightarrow> length n \<le> most c \<and> xs_name x n = Inr n \<and> length kind \<le> most c \<and> xs_kind x kind"

definition fit_kept_secret :: "codec \<Rightarrow> secret_rules \<Rightarrow> kept_secret \<Rightarrow> bool" where
  "fit_kept_secret c x k \<longleftrightarrow> fit_named c x (xk_name k) (xk_kind k) \<and>
     length (xk_sealed k) \<le> most c \<and> length (xk_set_by k) \<le> most c"

text \<open>A name taken from words is those words: what \<open>as_str\<close> gives back.\<close>

locale secret_laws = codec_laws +
  fixes x :: secret_rules
  assumes name_words: "xs_name x w = Inr n \<Longrightarrow> n = w"
begin

lemma read_name:
  assumes "r_name c x bs = Inr (n, rest)"
  shows "length n \<le> most c \<and> xs_name x n = Inr n"
proof -
  obtain w r where w: "r_text c bs = Inr (w, r)" "(case xs_name x w of Inl why \<Rightarrow> refuse why | Inr n \<Rightarrow> ret n) r = Inr (n, rest)"
    using assms by (auto simp: r_name_def andr_eq_Inr)
  then have "xs_name x w = Inr n" by (cases "xs_name x w") (auto simp: refuse_def ret_def)
  with name_words [OF this] text_short [OF w(1)] show ?thesis by simp
qed

lemma read_kind: "r_kind c x bs = Inr (k, rest) \<Longrightarrow> length k \<le> most c \<and> xs_kind x k"
  by (auto simp: r_kind_def andr_eq_Inr refuse_def ret_def split: if_splits dest: text_short)

end

sublocale secret_laws \<subseteq> kept_secret: form "w_kept_secret c" "r_kept_secret c x" "fit_kept_secret c x"
proof
  show "r_kept_secret c x (w_kept_secret c k @ rest) = Inr (k, rest)" if "fit_kept_secret c x k" for k rest
    using that by (cases k) (simp add: r_kept_secret_def w_kept_secret_def fit_kept_secret_def fit_named_def r_name_def
        r_kind_def w_kind_def andr_def)
  show "fit_kept_secret c x k" if "r_kept_secret c x bs = Inr (k, rest)" for bs k rest
    using that by (auto simp: r_kept_secret_def andr_eq_Inr fit_kept_secret_def fit_named_def dest: read_name read_kind
        intro: form_wf)
qed

context secret_laws
begin

lemma kept_secret_back:
  "fit_kept_secret c x k \<Longrightarrow> from_bytes c (r_kept_secret c x) (w_kept_secret c k) = Inr k"
  by (simp add: kept_secret.from_bytes_write)

end

section \<open>A value sealed\<close>

definition sealing :: bytes where "sealing = as_bytes ''xmip-core-persist/secret-value''"

definition bound :: "string \<Rightarrow> string \<Rightarrow> bytes" where
  "bound n kind = as_bytes ''xmip.secret'' @ [0] @ as_bytes n @ [0] @ as_bytes kind"

definition sealed_secret :: "crypt \<Rightarrow> bytes \<Rightarrow> bytes \<Rightarrow> secret_record \<Rightarrow> kept_secret result" where
  "sealed_secret C key nonce s =
     bindr (keyed (cr_seal C key nonce (bound (xr_name s) (xr_kind s)) (xr_value s))) (\<lambda>sealed.
     Inr \<lparr>xk_id = xr_id s, xk_name = xr_name s, xk_kind = xr_kind s, xk_sealed = sealed,
       xk_set_unix_nanos = xr_set_unix_nanos s, xk_set_by = xr_set_by s\<rparr>)"

definition opened_secret :: "crypt \<Rightarrow> secret_rules \<Rightarrow> (secret_error \<Rightarrow> string) \<Rightarrow> bytes \<Rightarrow> kept_secret \<Rightarrow> secret_record result" where
  "opened_secret C x show_error key k = (let refused = (\<lambda>reason.
       Refused (''the secret '' @ [CHR 0x27] @ xk_name k @ [CHR 0x27]) reason) in
     case cr_open C key (bound (xk_name k) (xk_kind k)) (xk_sealed k) of
       Inl failed \<Rightarrow> Inl (refused (show_error failed))
     | Inr v \<Rightarrow> (case xs_secret x (xk_name k) (xk_kind k) v of
         Inl why \<Rightarrow> Inl (refused why)
       | Inr _ \<Rightarrow> Inr \<lparr>xr_id = xk_id k, xr_name = xk_name k, xr_kind = xk_kind k, xr_value = v,
           xr_set_unix_nanos = xk_set_unix_nanos k, xr_set_by = xk_set_by k\<rparr>))"

definition record_entry :: "secret_record \<Rightarrow> secret_entry" where
  "record_entry s = \<lparr>xe_name = xr_name s, xe_kind = xr_kind s, xe_set_unix_nanos = xr_set_unix_nanos s,
     xe_set_by = xr_set_by s\<rparr>"

definition kept_entry :: "kept_secret \<Rightarrow> secret_entry" where
  "kept_entry k = \<lparr>xe_name = xk_name k, xe_kind = xk_kind k, xe_set_unix_nanos = xk_set_unix_nanos k,
     xe_set_by = xk_set_by k\<rparr>"

lemma bound_inject:
  assumes "plain_kind n" and "plain_kind n'"
  shows "bound n kind = bound n' kind' \<longleftrightarrow> n = n' \<and> kind = kind'"
  using assms by (simp add: bound_def plain_kind_def split_at_zero)

section \<open>Properties\<close>

text \<open>
  C33: A secret sealed for its row opens to itself, is listed by the same entry, and its row comes
  back from its bytes; the row holds its value only sealed.
\<close>

theorem secret_sealed_and_opened:
  assumes "crypt_laws C" and "secret_laws c x" and "sealed_secret C key nonce s = Inr k"
    and "xs_secret x (xr_name s) (xr_kind s) (xr_value s) = Inr u" and "fit_kept_secret c x k"
  shows "opened_secret C x show_error key k = Inr s \<and> kept_entry k = record_entry s \<and>
    from_bytes c (r_kept_secret c x) (w_kept_secret c k) = Inr k"
proof -
  obtain b where b: "cr_seal C key nonce (bound (xr_name s) (xr_kind s)) (xr_value s) = Inr b"
      "k = \<lparr>xk_id = xr_id s, xk_name = xr_name s, xk_kind = xr_kind s, xk_sealed = b,
        xk_set_unix_nanos = xr_set_unix_nanos s, xk_set_by = xr_set_by s\<rparr>"
    using assms(3) by (auto simp: sealed_secret_def bindr_eq_Inr)
  have "opened_secret C x show_error key k = Inr s"
    using crypt_laws.open_seal [OF assms(1) b(1)] assms(4) by (simp add: opened_secret_def b(2))
  then show ?thesis
    using secret_laws.kept_secret_back [OF assms(2,5)] by (simp add: kept_entry_def record_entry_def b(2))
qed

text \<open>
  A secret's sealed value moved to another name or kind is refused, in words that name the
  secret it was moved to.
\<close>

theorem moved_secret_refused:
  assumes "crypt_laws C" and "sealed_secret C key nonce s = Inr k" and "plain_kind (xr_name s)" and "plain_kind n"
    and "(n, kind) \<noteq> (xr_name s, xr_kind s)"
  shows "\<exists>reason. opened_secret C x show_error key (k\<lparr>xk_name := n, xk_kind := kind\<rparr>) =
    Inl (Refused (''the secret '' @ [CHR 0x27] @ n @ [CHR 0x27]) reason)"
proof -
  obtain b where b: "cr_seal C key nonce (bound (xr_name s) (xr_kind s)) (xr_value s) = Inr b" "xk_sealed k = b"
    using assms(2) by (auto simp: sealed_secret_def bindr_eq_Inr)
  have "bound n kind \<noteq> bound (xr_name s) (xr_kind s)" using assms(3-5) by (auto simp: bound_inject)
  then obtain r where "cr_open C key (bound n kind) b = Inl (SecretRefused r)"
    using crypt_laws.moved [OF assms(1) b(1)] by blast
  then show ?thesis using b(2) by (simp add: opened_secret_def)
qed

definition plain_rules :: secret_rules where
  "plain_rules = \<lparr>xs_name = Inr, xs_kind = (\<lambda>w. w = ''password''), xs_secret = (\<lambda>_ _ _. Inr ())\<rparr>"

interpretation plain_secrets: secret_laws plain_codec plain_rules
  by (intro secret_laws.intro plain.codec_laws_axioms secret_laws_axioms.intro) (simp add: plain_rules_def)

definition sample_secret :: secret_record where
  "sample_secret = \<lparr>xr_id = 7, xr_name = ''partner'', xr_kind = ''password'', xr_value = [1, 2, 3],
     xr_set_unix_nanos = 9, xr_set_by = ''operator''\<rparr>"

lemma sample_sealed:
  "\<exists>k. sealed_secret plain_crypt [] [] sample_secret = Inr k \<and> fit_kept_secret plain_codec plain_rules k"
  by (simp add: sealed_secret_def plain_crypt_def sample_secret_def fit_kept_secret_def fit_named_def plain_rules_def
      plain_mark_def bound_def as_bytes_def)

theorem secret_sealed_and_opened_witness:
  "\<exists>k. sealed_secret plain_crypt [] [] sample_secret = Inr k \<and>
     opened_secret plain_crypt plain_rules (\<lambda>_. []) [] k = Inr sample_secret"
  using secret_sealed_and_opened [OF plain_store.crypt_laws_axioms plain_secrets.secret_laws_axioms] sample_sealed
  by (fastforce simp: plain_rules_def)

theorem moved_secret_refused_witness:
  "\<exists>k reason. sealed_secret plain_crypt [] [] sample_secret = Inr k \<and>
     opened_secret plain_crypt plain_rules (\<lambda>_. []) [] (k\<lparr>xk_name := ''other'', xk_kind := ''password''\<rparr>) =
       Inl (Refused (''the secret '' @ [CHR 0x27] @ ''other'' @ [CHR 0x27]) reason)"
proof -
  obtain k where k: "sealed_secret plain_crypt [] [] sample_secret = Inr k" using sample_sealed by blast
  have "plain_kind (xr_name sample_secret)" "plain_kind ''other''"
    by (simp_all add: plain_kind_def sample_secret_def as_bytes_def)
  moreover have "(''other'', ''password'') \<noteq> (xr_name sample_secret, xr_kind sample_secret)"
    by (simp add: sample_secret_def)
  ultimately show ?thesis using moved_secret_refused [OF plain_store.crypt_laws_axioms k] k by blast
qed

end
