(* ===== verification/Row.thy ===== *)
theory Row
  imports Schema Secrets Failed Dead
begin

text \<open>
  Each laid-out record's row (\<open>src/.src/storage/row.rs\<close>, \<open>secret/sealed.rs\<close>): the values of its
  table's columns besides its key and its body, and the times Xmip Storage sets as it writes it.
  What a record's index entries find is its identifier.
\<close>

datatype col_val =
    VTime u64
  | VCount u64
  | VFlag bool
  | VText string
  | VId u128
  | VBytes bytes

type_synonym row = "(string \<times> col_val option) list"

definition text_maybe :: "string option \<Rightarrow> col_val option" where
  "text_maybe t = map_option VText t"

definition id_maybe :: "u128 option \<Rightarrow> col_val option" where
  "id_maybe i = map_option VId i"

text \<open>\<open>impl Into<u64>\<close> of a \<open>u32\<close>.\<close>

definition count_of :: "u32 \<Rightarrow> col_val" where
  "count_of n = VCount (ucast n)"

section \<open>A Journey\<close>

definition stamp_journey :: "u64 \<Rightarrow> journey_record option \<Rightarrow> journey_record \<Rightarrow> journey_record" where
  "stamp_journey now prior r = r\<lparr>jr_facts := (jr_facts r)\<lparr>
     jf_created_unix_nanos := (case prior of None \<Rightarrow> now | Some b \<Rightarrow> jf_created_unix_nanos (jr_facts b)),
     jf_updated_unix_nanos := now\<rparr>\<rparr>"

definition row_journey :: "journey_record \<Rightarrow> row" where
  "row_journey r = (let facts = jr_facts r in
     [(''created_at'', Some (VTime (jf_created_unix_nanos facts))),
      (''updated_at'', Some (VTime (jf_updated_unix_nanos facts))),
      (''state'', Some (VText (jf_state facts))),
      (''previous_journey'', id_maybe (jf_previous_journey facts)),
      (''subscription'', text_maybe (jf_subscription facts)),
      (''cause_work_process'', text_maybe (jf_cause_work_process facts)),
      (''depth'', Some (count_of (jf_depth facts))),
      (''work_process'', text_maybe (jf_work_process facts)),
      (''send_port'', text_maybe (jf_send_port facts)),
      (''send_location'', Some (count_of (jf_send_location facts))),
      (''attempts'', Some (count_of (jf_attempts facts))),
      (''message'', id_maybe (jf_message facts)),
      (''origin'', id_maybe (jf_origin facts)),
      (''open'', Some (VFlag (jf_open facts))),
      (''group_delivery'', id_maybe (jf_group_delivery facts)),
      (''group_open'', Some (VFlag (jf_group_open facts)))])"

section \<open>A Message\<close>

definition stamp_message :: "u64 \<Rightarrow> message_record option \<Rightarrow> message_record \<Rightarrow> message_record" where
  "stamp_message now prior r = r\<lparr>mr_facts := (mr_facts r)\<lparr>
     mf_created_unix_nanos := (case prior of None \<Rightarrow> now | Some b \<Rightarrow> mf_created_unix_nanos (mr_facts b))\<rparr>\<rparr>"

definition row_message :: "message_record \<Rightarrow> row" where
  "row_message r = (let facts = mr_facts r in
     [(''created_at'', Some (VTime (mf_created_unix_nanos facts))),
      (''previous_message'', id_maybe (mf_previous_message facts)),
      (''generation'', Some (count_of (mf_generation facts))),
      (''created_by'', Some (VText (mf_created_by facts))),
      (''priority'', Some (VText (mf_priority facts))),
      (''execution_profile'', Some (VText (mf_execution_profile facts))),
      (''durability'', Some (VText (mf_durability facts))),
      (''size_bytes'', Some (VCount (mf_size_bytes facts))),
      (''party'', text_maybe (mf_party facts)),
      (''contract'', text_maybe (mf_contract facts)),
      (''stream'', id_maybe (mf_stream facts))])"

section \<open>A held Message, a Dead Message Queue entry, a failed Message\<close>

definition stamp_held :: "u64 \<Rightarrow> held option \<Rightarrow> held \<Rightarrow> held" where
  "stamp_held now prior h = h\<lparr>he_held_unix_nanos := (case prior of None \<Rightarrow> now | Some b \<Rightarrow> he_held_unix_nanos b)\<rparr>"

definition row_held :: "held \<Rightarrow> row" where
  "row_held h =
     [(''queue'', Some (VId (ho_queue (he_hold h)))),
      (''sequence'', Some (VCount (he_sequence h))),
      (''held_at'', Some (VTime (he_held_unix_nanos h))),
      (''failed'', Some (VFlag (he_failed h))),
      (''due_at'', Some (VTime (due_at h)))]"

definition stamp_dead :: "u64 \<Rightarrow> dead option \<Rightarrow> dead \<Rightarrow> dead" where
  "stamp_dead now prior d = d"

definition row_dead :: "dead \<Rightarrow> row" where
  "row_dead d = (let entry = de_message d in
     [(''queue'', Some (VId (dm_queue entry))),
      (''sequence'', Some (VCount (de_sequence d))),
      (''stream'', Some (VId (dm_stream entry))),
      (''node'', Some (VText (dm_node entry))),
      (''receive_location'', Some (VText (dm_location entry))),
      (''queued_at'', Some (VTime (nanos (dm_received_unix_nanos entry))))])"

definition stamp_failed :: "u64 \<Rightarrow> failed option \<Rightarrow> failed \<Rightarrow> failed" where
  "stamp_failed now prior f = f"

definition row_failed :: "failed \<Rightarrow> row" where
  "row_failed f =
     [(''queue'', Some (VId (fa_queue f))),
      (''sequence'', Some (VCount (fa_sequence f))),
      (''place'', Some (VCount (fa_place f))),
      (''reason'', Some (VText (fa_reason f))),
      (''failed_at'', Some (VTime (nanos (fa_failed_unix_nanos f))))]"

section \<open>A kept audit record, a Stream it carries\<close>

definition stamp_audit :: "u64 \<Rightarrow> kept_audit option \<Rightarrow> kept_audit \<Rightarrow> kept_audit" where
  "stamp_audit now prior a = a\<lparr>ka_facts := (ka_facts a)\<lparr>
     af_kept_unix_nanos := (case prior of None \<Rightarrow> now | Some b \<Rightarrow> af_kept_unix_nanos (ka_facts b))\<rparr>\<rparr>"

definition row_audit :: "kept_audit \<Rightarrow> row" where
  "row_audit a = (let facts = ka_facts a in
     [(''occurred_at'', Some (VTime (af_occurred_unix_nanos facts))),
      (''kept_at'', Some (VTime (af_kept_unix_nanos facts))),
      (''action'', Some (VText (af_action facts))),
      (''phase'', Some (VText (af_phase facts))),
      (''severity'', Some (VText (af_severity facts))),
      (''failed'', Some (VFlag (af_failed facts))),
      (''message_text'', text_maybe (af_text facts)),
      (''program'', Some (VText (af_program facts))),
      (''host'', Some (VText (af_host facts))),
      (''process'', Some (count_of (af_process facts))),
      (''location'', text_maybe (af_location facts)),
      (''hidden'', Some (VFlag (af_hidden facts))),
      (''execution'', id_maybe (af_execution facts)),
      (''journey'', id_maybe (af_journey facts)),
      (''message'', id_maybe (af_message facts)),
      (''artifact_kind'', text_maybe (af_artifact_kind facts)),
      (''artifact_name'', text_maybe (af_artifact_name facts)),
      (''artifact_version'', text_maybe (af_artifact_version facts)),
      (''node'', text_maybe (af_node facts)),
      (''cluster'', text_maybe (af_cluster facts)),
      (''writer'', Some (VText (af_writer facts))),
      (''position'', Some (VCount (af_position facts))),
      (''previous_digest'', Some (VBytes (af_previous facts))),
      (''digest'', Some (VBytes (af_digest facts))),
      (''body_length'', Some (VCount (af_body_length facts))),
      (''body_chunks'', Some (count_of (af_body_chunks facts))),
      (''body_digest'', Some (VBytes (af_body_digest facts)))])"

definition stamp_stream :: "u64 \<Rightarrow> kept_stream option \<Rightarrow> kept_stream \<Rightarrow> kept_stream" where
  "stamp_stream now prior s = s"

definition row_stream :: "kept_stream \<Rightarrow> row" where
  "row_stream k = (let stream = ks_stream k in
     [(''stream'', Some (VId (sr_stream stream))),
      (''length'', Some (VCount (sr_length stream))),
      (''chunks'', Some (count_of (sr_chunks stream))),
      (''digest'', Some (VBytes (sr_digest stream))),
      (''written_at'', Some (VTime (sr_written_unix_nanos stream)))])"

section \<open>An administration record, a secret\<close>

definition stamp_administration :: "u64 \<Rightarrow> administration_record option \<Rightarrow> administration_record \<Rightarrow> administration_record" where
  "stamp_administration now prior a = a\<lparr>ar_updated_unix_nanos := now\<rparr>"

definition row_administration :: "administration_record \<Rightarrow> row" where
  "row_administration a =
     [(''kind'', Some (VText (word_of_kind (ar_kind a)))),
      (''updated_at'', Some (VTime (ar_updated_unix_nanos a)))]"

definition stamp_secret :: "u64 \<Rightarrow> kept_secret option \<Rightarrow> kept_secret \<Rightarrow> kept_secret" where
  "stamp_secret now prior k = k\<lparr>xk_set_unix_nanos := now\<rparr>"

definition row_secret :: "kept_secret \<Rightarrow> row" where
  "row_secret k =
     [(''name'', Some (VText (xk_name k))),
      (''kind'', Some (VText (xk_kind k))),
      (''set_at'', Some (VTime (xk_set_unix_nanos k))),
      (''set_by'', Some (VText (xk_set_by k)))]"

section \<open>A row is its table's\<close>

text \<open>A value is of its column's kind.\<close>

fun of_kind :: "column_kind \<Rightarrow> col_val \<Rightarrow> bool" where
  "of_kind KTime (VTime _) = True"
| "of_kind KNumber (VCount _) = True"
| "of_kind KCount (VCount n) = (n < 2 ^ 32)"
| "of_kind KFlag (VFlag _) = True"
| "of_kind KText (VText _) = True"
| "of_kind KLongText (VText _) = True"
| "of_kind KWord (VText _) = True"
| "of_kind KIdentifier (VId _) = True"
| "of_kind KBytes (VBytes _) = True"
| "of_kind _ _ = False"

text \<open>
  The columns a row leaves out are the record's own key and body; each other is in it once, in the
  table's order, with a value of its kind, and holds nothing only where the column may.
\<close>

definition may_hold :: "column \<Rightarrow> col_val option \<Rightarrow> bool" where
  "may_hold co v = (case v of None \<Rightarrow> co_null co | Some x \<Rightarrow> of_kind (co_kind co) x)"

definition row_of_table :: "column list \<Rightarrow> string list \<Rightarrow> row \<Rightarrow> bool" where
  "row_of_table cols left_out r \<longleftrightarrow>
     list_all2 (\<lambda>co nv. fst nv = co_name co \<and> may_hold co (snd nv))
       (filter (\<lambda>co. co_name co \<notin> set left_out) cols) r"

lemma of_kind_count [simp]: "of_kind KCount (count_of n)"
proof -
  have "unat (ucast n :: u64) = unat n"
    by (simp add: unsigned_ucast_eq take_bit_nat_eq_self order_less_trans [OF unsigned_less [of n]])
  then show ?thesis using unsigned_less [of n] by (simp add: count_of_def word_less_nat_alt)
qed

lemma may_hold_simps [simp]:
  "may_hold (column n k) (Some v) = of_kind k v"
  "may_hold (maybe n KText) (text_maybe t)"
  "may_hold (maybe n KLongText) (text_maybe t)"
  "may_hold (maybe n KWord) (text_maybe t)"
  "may_hold (maybe n KIdentifier) (id_maybe i)"
  by (cases t; cases i; simp add: may_hold_def text_maybe_def id_maybe_def)+

lemmas row_defs = row_journey_def row_message_def row_held_def row_dead_def row_failed_def row_audit_def
  row_stream_def row_administration_def row_secret_def

lemma rows_typed:
  "row_of_table journey_columns [''journey'', ''body''] (row_journey j)"
  "row_of_table message_columns [''message'', ''body''] (row_message m)"
  "row_of_table held_columns [''journey'', ''body''] (row_held h)"
  "row_of_table dead_message_columns [''message'', ''body''] (row_dead d)"
  "row_of_table failed_message_columns [''journey''] (row_failed f)"
  "row_of_table audit_columns [''id''] (row_audit a)"
  "row_of_table audit_stream_columns [''audit''] (row_stream s)"
  "row_of_table administration_columns [''id'', ''body''] (row_administration r)"
  "row_of_table secret_columns [''secret'', ''sealed''] (row_secret k)"
  by (simp add: row_of_table_def table_defs row_defs Let_def)+

section \<open>Properties\<close>

text \<open>
  Each laid-out record's row is its table's: every column the table has beside the record's key
  and body is in it, in the table's order, with a value of the column's kind, and holds nothing only
  where the schema says it may.
\<close>

theorem rows_are_their_tables:
  "row_of_table journey_columns [''journey'', ''body''] (row_journey j) \<and>
   row_of_table message_columns [''message'', ''body''] (row_message m) \<and>
   row_of_table held_columns [''journey'', ''body''] (row_held h) \<and>
   row_of_table dead_message_columns [''message'', ''body''] (row_dead d) \<and>
   row_of_table failed_message_columns [''journey''] (row_failed f) \<and>
   row_of_table audit_columns [''id''] (row_audit a) \<and>
   row_of_table audit_stream_columns [''audit''] (row_stream s) \<and>
   row_of_table administration_columns [''id'', ''body''] (row_administration r) \<and>
   row_of_table secret_columns [''secret'', ''sealed''] (row_secret k)"
  by (intro conjI rows_typed)

end
