(* ===== verification/Columns.thy ===== *)
theory Columns
  imports Row
begin

text \<open>
  The laid-out columns as an embedded node writes and searches them (\<open>src/.src/storage/columns.rs\<close>,
  \<open>columns/ordered.rs\<close>): each searchable record stamped with Xmip Storage's times, each of its
  table's indexes kept as entries in the same write, and a search of an index as one range of
  them. It is shown that the entries kept are exactly those of the records the ledger holds.
\<close>

section \<open>The searchable tables\<close>

definition kept_audit_kind :: kind where "kept_audit_kind = ''audit''"
definition kept_streams_kind :: kind where "kept_streams_kind = ''audit_stream''"
definition administration_prefix :: kind where "administration_prefix = ''administration/''"
definition secret_kind :: kind where "secret_kind = ''secret''"

datatype searched =
    SJourney | SMessage | SHeld | SDead | SFailed | SAudit | SAuditStream | SAdministration | SSecret

fun searched_of :: "database \<Rightarrow> kind \<Rightarrow> searched option" where
  "searched_of Runtime kind =
     (if kind = ''journey'' then Some SJourney
      else if kind = ''message'' then Some SMessage
      else if kind = ''held'' then Some SHeld
      else if kind = ''dead-message'' then Some SDead
      else if kind = ''failed-message'' then Some SFailed
      else None)"
| "searched_of Audit kind =
     (if kind = kept_audit_kind then Some SAudit
      else if kind = kept_streams_kind then Some SAuditStream
      else None)"
| "searched_of Administration kind =
     (if take (length administration_prefix) kind = administration_prefix then Some SAdministration
      else if kind = secret_kind then Some SSecret
      else None)"

fun table_word :: "searched \<Rightarrow> string" where
  "table_word SJourney = ''journey''"
| "table_word SMessage = ''message''"
| "table_word SHeld = ''held''"
| "table_word SDead = ''dead_message''"
| "table_word SFailed = ''failed_message''"
| "table_word SAudit = ''audit''"
| "table_word SAuditStream = ''audit_stream''"
| "table_word SAdministration = ''administration''"
| "table_word SSecret = ''secret''"

definition row_as :: "codec \<Rightarrow> 'a reader \<Rightarrow> ('a \<Rightarrow> row) \<Rightarrow> ('a \<Rightarrow> u128) \<Rightarrow> bytes \<Rightarrow> (row \<times> u128) result" where
  "row_as c dec to_row rid bs = bindr (from_bytes c dec bs) (\<lambda>x. Inr (to_row x, rid x))"

definition stamp_as :: "codec \<Rightarrow> ('a \<Rightarrow> bytes) \<Rightarrow> 'a reader \<Rightarrow> (u64 \<Rightarrow> 'a option \<Rightarrow> 'a \<Rightarrow> 'a) \<Rightarrow> ('a \<Rightarrow> row) \<Rightarrow>
    ('a \<Rightarrow> u128) \<Rightarrow> bytes \<Rightarrow> bytes option \<Rightarrow> u64 \<Rightarrow> (bytes \<times> row \<times> u128) result" where
  "stamp_as c enc dec stamp to_row rid bs prior now =
     bindr (from_bytes c dec bs) (\<lambda>x.
     bindr (map_maybe (from_bytes c dec) prior) (\<lambda>b.
       let x' = stamp now b x in Inr (enc x', to_row x', rid x')))"

definition held_id :: "held \<Rightarrow> u128" where "held_id h = ho_journey (he_hold h)"
definition dead_id :: "dead \<Rightarrow> u128" where "dead_id d = dm_message (de_message d)"

fun row_in :: "codec \<Rightarrow> secret_rules \<Rightarrow> searched \<Rightarrow> bytes \<Rightarrow> (row \<times> u128) result" where
  "row_in c x SJourney bs = row_as c (r_journey_record c) row_journey jr_journey bs"
| "row_in c x SMessage bs = row_as c (r_message_record c) row_message mr_message bs"
| "row_in c x SHeld bs = row_as c (r_held c) row_held held_id bs"
| "row_in c x SDead bs = row_as c (r_dead c) row_dead dead_id bs"
| "row_in c x SFailed bs = row_as c (r_failed c) row_failed fa_journey bs"
| "row_in c x SAudit bs = row_as c (r_kept_audit c) row_audit ka_id bs"
| "row_in c x SAuditStream bs = row_as c (r_kept_stream c) row_stream ks_audit bs"
| "row_in c x SAdministration bs = row_as c (r_administration_record c) row_administration ar_id bs"
| "row_in c x SSecret bs = row_as c (r_kept_secret c x) row_secret xk_id bs"

fun stamped :: "codec \<Rightarrow> secret_rules \<Rightarrow> searched \<Rightarrow> bytes \<Rightarrow> bytes option \<Rightarrow> u64 \<Rightarrow> (bytes \<times> row \<times> u128) result" where
  "stamped c x SJourney = stamp_as c (w_journey_record c) (r_journey_record c) stamp_journey row_journey jr_journey"
| "stamped c x SMessage = stamp_as c (w_message_record c) (r_message_record c) stamp_message row_message mr_message"
| "stamped c x SHeld = stamp_as c (w_held c) (r_held c) stamp_held row_held held_id"
| "stamped c x SDead = stamp_as c (w_dead c) (r_dead c) stamp_dead row_dead dead_id"
| "stamped c x SFailed = stamp_as c (w_failed c) (r_failed c) stamp_failed row_failed fa_journey"
| "stamped c x SAudit = stamp_as c (w_kept_audit c) (r_kept_audit c) stamp_audit row_audit ka_id"
| "stamped c x SAuditStream = stamp_as c (w_kept_stream c) (r_kept_stream c) stamp_stream row_stream ks_audit"
| "stamped c x SAdministration =
     stamp_as c (w_administration_record c) (r_administration_record c) stamp_administration row_administration ar_id"
| "stamped c x SSecret = stamp_as c (w_kept_secret c) (r_kept_secret c x) stamp_secret row_secret xk_id"

section \<open>An index's entries\<close>

definition counted_words :: "bytes \<Rightarrow> bytes" where
  "counted_words bs = be32 (saturated_u32 (length bs)) @ bs"

fun encoded :: "col_val \<Rightarrow> bytes" where
  "encoded (VTime t) = be64 t"
| "encoded (VCount t) = be64 t"
| "encoded (VFlag b) = [if b then 1 else 0]"
| "encoded (VText t) = counted_words (as_bytes t)"
| "encoded (VBytes bs) = counted_words bs"
| "encoded (VId i) = be128 i"

definition value_in :: "row \<Rightarrow> string \<Rightarrow> col_val option" where
  "value_in r n = (case find (\<lambda>(n', _). n' = n) r of None \<Rightarrow> None | Some (_, v) \<Rightarrow> v)"

text \<open>The key of a row's entry in an index: none where it lacks a column, or the flag.\<close>

fun columns_key :: "row \<Rightarrow> string list \<Rightarrow> bytes option" where
  "columns_key r [] = Some []"
| "columns_key r (n # ns) = (case value_in r n of
     None \<Rightarrow> None
   | Some v \<Rightarrow> map_option ((@) (encoded v)) (columns_key r ns))"

definition index_entry_key :: "index \<Rightarrow> row \<Rightarrow> u128 \<Rightarrow> key option" where
  "index_entry_key i r rid = (case ix_only i of
     Some flag \<Rightarrow> if value_in r flag \<noteq> Some (VFlag True) then None
       else map_option (\<lambda>k. ix_number i # k @ be128 rid) (columns_key r (ix_columns i))
   | None \<Rightarrow> map_option (\<lambda>k. ix_number i # k @ be128 rid) (columns_key r (ix_columns i)))"

definition row_entries :: "database \<Rightarrow> string \<Rightarrow> row \<Rightarrow> u128 \<Rightarrow> key list result" where
  "row_entries d n r rid = (case table_of d n of
     None \<Rightarrow> Inl (malformed (''no table '' @ [CHR 0x27] @ n @ [CHR 0x27]))
   | Some t \<Rightarrow> Inr (List.map_filter (\<lambda>i. index_entry_key i r rid) (ta_indexes t)))"

section \<open>A write\<close>

text \<open>
  Changes as they are written: \<open>was\<close> answers what the store held before them of a record,
  \<open>latest\<close> is what they have left of it so far.
\<close>

fun written_from :: "codec \<Rightarrow> secret_rules \<Rightarrow> database \<Rightarrow> u64 \<Rightarrow> store_get \<Rightarrow> by_place \<Rightarrow> record_change list \<Rightarrow>
    (record_change list \<times> index_entry list) result" where
  "written_from c x d now was latest [] = Inr ([], [])"
| "written_from c x d now was latest ((kind, key, v) # cs) = (case searched_of d kind of
     None \<Rightarrow> bindr (written_from c x d now was latest cs) (\<lambda>(ws, es). Inr ((kind, key, v) # ws, es))
   | Some s \<Rightarrow>
       bindr (case map_of latest (kind, key) of Some b \<Rightarrow> Inr b | None \<Rightarrow> was kind key) (\<lambda>prior.
       bindr (case prior of None \<Rightarrow> Inr []
         | Some b \<Rightarrow> bindr (row_in c x s b) (\<lambda>(r, rid). row_entries d (table_word s) r rid)) (\<lambda>gone.
       bindr (case v of None \<Rightarrow> Inr (None, [])
         | Some bs \<Rightarrow> bindr (stamped c x s bs prior now) (\<lambda>(bs', r, rid).
             bindr (row_entries d (table_word s) r rid) (\<lambda>ks. Inr (Some bs', map (\<lambda>k. (k, Some rid)) ks)))) (\<lambda>(v', added).
       bindr (written_from c x d now was (((kind, key), v') # latest) cs) (\<lambda>(ws, es).
         Inr ((kind, key, v') # ws, map (\<lambda>k. (k, None)) gone @ added @ es))))))"

definition written_over :: "codec \<Rightarrow> secret_rules \<Rightarrow> database \<Rightarrow> record_change list \<Rightarrow> u64 \<Rightarrow> store_get \<Rightarrow>
    (record_change list \<times> index_entry list) result" where
  "written_over c x d cs now was = written_from c x d now was [] cs"

section \<open>A search\<close>

text \<open>A range of the store's index, each record with its entry's key (\<open>IndexScan\<close>).\<close>

type_synonym index_scan = "key \<Rightarrow> key \<Rightarrow> nat \<Rightarrow> bool \<Rightarrow> (key \<times> u128) list result"

definition missing_index :: "string \<Rightarrow> string \<Rightarrow> persist_error" where
  "missing_index t i = malformed (''no index '' @ t @ ''.'' @ i)"

definition index_prefix :: "database \<Rightarrow> string \<times> string \<Rightarrow> col_val list \<Rightarrow> (index \<times> key) result" where
  "index_prefix d at equal = (let (t, i) = at in
     case table_of d t of
       None \<Rightarrow> Inl (missing_index t i)
     | Some tab \<Rightarrow> (case index_named tab i of
         None \<Rightarrow> Inl (missing_index t i)
       | Some ix \<Rightarrow> Inr (ix, ix_number ix # concat (map encoded (take (length (ix_columns ix)) equal)))))"

definition index_range :: "database \<Rightarrow> string \<times> string \<Rightarrow> col_val list \<Rightarrow> (u64 \<times> u64) option \<Rightarrow>
    (index \<times> (key \<times> key) option) result" where
  "index_range d at equal limits = bindr (index_prefix d at equal) (\<lambda>(ix, prefix). Inr (ix, (case limits of
     Some (lo, hi) \<Rightarrow> if lo > hi then None
       else Some (prefix @ be64 lo, prefix @ be64 hi @ replicate 17 0xFF)
   | None \<Rightarrow> Some (prefix, prefix @ replicate 64 0xFF))))"

definition find_in :: "database \<Rightarrow> index_scan \<Rightarrow> string \<times> string \<Rightarrow> col_val list \<Rightarrow> (u64 \<times> u64) option \<Rightarrow>
    u32 \<times> bool \<Rightarrow> u128 list result" where
  "find_in d scan at equal limits mr = (let (at_most, reverse) = mr in
     bindr (index_range d at equal limits) (\<lambda>(ix, keys). case keys of
       None \<Rightarrow> Inr []
     | Some (lo, hi) \<Rightarrow> bindr (scan lo hi (unat at_most) reverse) (\<lambda>es. Inr (map snd es))))"

text \<open>A range read in its order, each entry with the values its key holds after \<open>equal\<close>.\<close>

definition not_ordered :: "index \<Rightarrow> persist_error" where
  "not_ordered ix = malformed (ix_name ix @ '': not in that order'')"

fun eights :: "bytes \<Rightarrow> u64 list" where
  "eights bs = (if length bs < 8 then [] else word_of_nat (from_be (take 8 bs)) # eights (drop 8 bs))"

declare eights.simps [simp del]

definition entry_values :: "index \<Rightarrow> key \<Rightarrow> nat \<Rightarrow> key \<times> u128 \<Rightarrow> (u64 list \<times> u128) result" where
  "entry_values ix prefix trailing e = (let (key, rid) = e; vs = drop (length prefix) (take (length key - 16) key) in
     if length prefix \<le> length key - 16 \<and> length vs = 8 * trailing then Inr (eights vs, rid)
     else Inl (not_ordered ix))"

definition find_ordered :: "database \<Rightarrow> index_scan \<Rightarrow> string \<times> string \<Rightarrow> col_val list \<Rightarrow> u64 list \<times> u64 \<Rightarrow> nat \<Rightarrow>
    (u64 list \<times> u128) list result" where
  "find_ordered d scan at equal ft at_most = (let (from, to) = ft in
     bindr (index_prefix d at equal) (\<lambda>(ix, prefix).
       let trailing = length (ix_columns ix) - length equal in
       case from of
         [] \<Rightarrow> Inl (not_ordered ix)
       | start # _ \<Rightarrow>
           if length from > trailing \<or> start > to then Inr []
           else bindr (scan (prefix @ concat (map be64 from))
               (prefix @ be64 to @ replicate (8 * (trailing - 1) + 17) 0xFF) at_most False)
             (each (entry_values ix prefix trailing))))"

definition find_from :: "database \<Rightarrow> index_scan \<Rightarrow> string \<times> string \<Rightarrow> col_val list \<Rightarrow> u64 \<Rightarrow> nat \<Rightarrow> (u64 \<times> u128) list result" where
  "find_from d scan at equal from at_most =
     bindr (find_ordered d scan at equal ([from], - 1) at_most) (\<lambda>found.
       Inr (map (\<lambda>(vs, rid). (case vs of [] \<Rightarrow> 0 | v # _ \<Rightarrow> v, rid)) found))"

section \<open>The entries are the records'\<close>

text \<open>The entries a record's bytes belong in, each with the identifier it finds.\<close>

definition bytes_entries :: "codec \<Rightarrow> secret_rules \<Rightarrow> database \<Rightarrow> kind \<Rightarrow> bytes option \<Rightarrow> (key \<times> u128) list result" where
  "bytes_entries c x d kind v = (case (searched_of d kind, v) of
     (Some s, Some bs) \<Rightarrow> bindr (row_in c x s bs) (\<lambda>(r, rid).
       bindr (row_entries d (table_word s) r rid) (\<lambda>ks. Inr (map (\<lambda>k. (k, rid)) ks)))
   | _ \<Rightarrow> Inr [])"

definition place_entries :: "codec \<Rightarrow> secret_rules \<Rightarrow> database \<Rightarrow> ledger \<Rightarrow> kind \<Rightarrow> key \<Rightarrow> (key \<times> u128) set" where
  "place_entries c x d L kind key = (case bytes_entries c x d kind (L kind key) of Inl _ \<Rightarrow> {} | Inr es \<Rightarrow> set es)"

definition index_exact :: "codec \<Rightarrow> secret_rules \<Rightarrow> database \<Rightarrow> ledger \<Rightarrow> (key \<rightharpoonup> u128) \<Rightarrow> bool" where
  "index_exact c x d L X \<longleftrightarrow> (\<forall>k rid. X k = Some rid \<longleftrightarrow> (\<exists>kind key. (k, rid) \<in> place_entries c x d L kind key))"

text \<open>No two records, at two places, have an entry of one key.\<close>

definition entries_apart :: "codec \<Rightarrow> secret_rules \<Rightarrow> database \<Rightarrow> ledger \<Rightarrow> bool" where
  "entries_apart c x d L \<longleftrightarrow> (\<forall>kind key kind' key' k rid rid'. (k, rid) \<in> place_entries c x d L kind key \<longrightarrow>
     (k, rid') \<in> place_entries c x d L kind' key' \<longrightarrow> (kind, key) = (kind', key'))"

definition apart_throughout :: "codec \<Rightarrow> secret_rules \<Rightarrow> database \<Rightarrow> ledger \<Rightarrow> record_change list \<Rightarrow> bool" where
  "apart_throughout c x d L cs \<longleftrightarrow> (\<forall>n \<le> length cs. entries_apart c x d (apply_changes L (take n cs)))"

lemma apart_throughout_Cons:
  "apart_throughout c x d L ((kind, key, v) # cs) \<longleftrightarrow>
     entries_apart c x d L \<and> apart_throughout c x d (upd L kind key v) cs"
proof -
  have "(\<forall>n \<le> Suc m. P n) \<longleftrightarrow> P 0 \<and> (\<forall>n \<le> m. P (Suc n))" for m and P :: "nat \<Rightarrow> bool"
    by (metis Suc_le_mono le0 not0_implies_Suc)
  from this [of "length cs" "\<lambda>n. entries_apart c x d (apply_changes L (take n ((kind, key, v) # cs)))"]
  show ?thesis by (simp add: apart_throughout_def)
qed

lemma apart_throughout_now: "apart_throughout c x d L cs \<Longrightarrow> entries_apart c x d L"
  by (auto simp: apart_throughout_def dest: spec [of _ 0])

text \<open>One place's entries replaced by another value's.\<close>

lemma map_of_const [simp]: "apply_entries X (map (\<lambda>k. (k, None)) ks) k = (if k \<in> set ks then None else X k)"
  by (induction ks arbitrary: X) (auto simp: fun_upd_apply)

lemma apply_entries_append [simp]: "apply_entries X (es @ es') = apply_entries (apply_entries X es) es'"
  by (simp add: apply_entries_def)

lemma apply_entries_added:
  "apply_entries X (map (\<lambda>k. (k, Some rid)) ks) k = (if k \<in> set ks then Some rid else X k)"
  by (induction ks arbitrary: X) (auto simp: fun_upd_apply)

lemma place_entries_upd:
  "place_entries c x d (upd L kind key v) kind' key' =
     (if (kind', key') = (kind, key) then (case bytes_entries c x d kind v of Inl _ \<Rightarrow> {} | Inr es \<Rightarrow> set es)
      else place_entries c x d L kind' key')"
  by (auto simp: place_entries_def upd_apply)

lemma replaced_exact:
  assumes exact: "index_exact c x d L X" and apart: "entries_apart c x d L" "entries_apart c x d (upd L kind key v)"
    and gone: "bytes_entries c x d kind (L kind key) = Inr (map (\<lambda>k. (k, old)) gone)"
    and added: "bytes_entries c x d kind v = Inr (map (\<lambda>k. (k, rid)) ks)"
  shows "index_exact c x d (upd L kind key v)
    (apply_entries X (map (\<lambda>k. (k, None)) gone @ map (\<lambda>k. (k, Some rid)) ks))"
proof -
  let ?L = "upd L kind key v"
  have here: "place_entries c x d ?L kind key = (\<lambda>k. (k, rid)) ` set ks"
    by (simp add: place_entries_upd added)
  have was: "place_entries c x d L kind key = (\<lambda>k. (k, old)) ` set gone"
    by (simp add: place_entries_def gone)
  show ?thesis
    unfolding index_exact_def
  proof (intro allI)
    fix k r
    show "apply_entries X (map (\<lambda>k. (k, None)) gone @ map (\<lambda>k. (k, Some rid)) ks) k = Some r \<longleftrightarrow>
        (\<exists>kind' key'. (k, r) \<in> place_entries c x d ?L kind' key')" (is "?new \<longleftrightarrow> ?in")
    proof (cases "k \<in> set ks")
      case True
      then have at: "(k, rid) \<in> place_entries c x d ?L kind key" by (auto simp: here)
      have "(kind', key') = (kind, key)" if "(k, r) \<in> place_entries c x d ?L kind' key'" for kind' key'
        using apart(2) that at unfolding entries_apart_def by metis
      then have "?in \<longleftrightarrow> (k, r) \<in> place_entries c x d ?L kind key" by blast
      then show ?thesis using True by (auto simp: here apply_entries_added)
    next
      case False
      then have new: "?new \<longleftrightarrow> k \<notin> set gone \<and> X k = Some r" by (simp add: apply_entries_added)
      have now: "(k, r) \<in> place_entries c x d ?L kind' key' \<longleftrightarrow>
          (kind', key') \<noteq> (kind, key) \<and> (k, r) \<in> place_entries c x d L kind' key'" for kind' key'
        using False by (auto simp: here place_entries_upd added)
      have in_X: "X k = Some r \<longleftrightarrow> (\<exists>kind' key'. (k, r) \<in> place_entries c x d L kind' key')"
        using exact by (simp add: index_exact_def)
      show ?thesis
      proof (cases "k \<in> set gone")
        case True
        have "(k, r) \<notin> place_entries c x d ?L kind' key'" for kind' key'
        proof
          assume "(k, r) \<in> place_entries c x d ?L kind' key'"
          then have "(kind', key') \<noteq> (kind, key)" "(k, r) \<in> place_entries c x d L kind' key'" using now by auto
          moreover have "(k, old) \<in> place_entries c x d L kind key" using True was by auto
          ultimately show False using apart(1) unfolding entries_apart_def by metis
        qed
        then show ?thesis unfolding new using True by simp
      next
        case False
        then have "(k, r) \<notin> place_entries c x d L kind key" using was by auto
        then have "(k, r) \<in> place_entries c x d ?L kind' key' \<longleftrightarrow> (k, r) \<in> place_entries c x d L kind' key'" for kind' key'
          using now [of kind' key'] by (cases "(kind', key') = (kind, key)") auto
        then show ?thesis unfolding new in_X using False by simp
      qed
    qed
  qed
qed

text \<open>What a stamped record's row says is what its bytes, read again, say.\<close>

lemma stamp_as_row:
  assumes "form enc dec fit" and "left_over c [] = None" and "\<And>x now b. fit x \<Longrightarrow> fit (stamp now b x)"
    and "stamp_as c enc dec stamp to_row rid bs prior now = Inr (bs', r, i)"
  shows "row_as c dec to_row rid bs' = Inr (r, i)"
proof -
  obtain x b where x: "from_bytes c dec bs = Inr x" "bs' = enc (stamp now b x)" "r = to_row (stamp now b x)" "i = rid (stamp now b x)"
    using assms(4) by (auto simp: stamp_as_def bindr_eq_Inr Let_def)
  have "fit (stamp now b x)" using assms(3) form.from_bytes_fit [OF assms(1) x(1)] .
  then show ?thesis using form.from_bytes_write [OF assms(1) _ assms(2)] x by (simp add: row_as_def)
qed

context secret_laws
begin

lemma fit_stamps:
  "fit_journey_record c r0 \<Longrightarrow> fit_journey_record c (stamp_journey now b0 r0)"
  "fit_message_record c r1 \<Longrightarrow> fit_message_record c (stamp_message now b1 r1)"
  "fit_held c r2 \<Longrightarrow> fit_held c (stamp_held now b2 r2)"
  "fit_dead c r3 \<Longrightarrow> fit_dead c (stamp_dead now b3 r3)"
  "fit_failed c r4 \<Longrightarrow> fit_failed c (stamp_failed now b4 r4)"
  "fit_kept_audit c r5 \<Longrightarrow> fit_kept_audit c (stamp_audit now b5 r5)"
  "fit_kept_stream c r6 \<Longrightarrow> fit_kept_stream c (stamp_stream now b6 r6)"
  "fit_administration_record c r7 \<Longrightarrow> fit_administration_record c (stamp_administration now b7 r7)"
  "fit_kept_secret c x r8 \<Longrightarrow> fit_kept_secret c x (stamp_secret now b8 r8)"
  by (simp_all add: fit_journey_record_def fit_journey_facts_def fit_message_record_def fit_message_facts_def fit_held_def
      fit_kept_audit_def fit_audit_facts_def fit_administration_record_def fit_kept_secret_def
      stamp_journey_def stamp_message_def stamp_held_def stamp_dead_def stamp_failed_def stamp_audit_def
      stamp_stream_def stamp_administration_def stamp_secret_def)

lemmas stamped_forms =
  stamp_as_row [OF journey_record.form_axioms nothing_left fit_stamps(1)]
  stamp_as_row [OF message_record.form_axioms nothing_left fit_stamps(2)]
  stamp_as_row [OF held.form_axioms nothing_left fit_stamps(3)]
  stamp_as_row [OF dead.form_axioms nothing_left fit_stamps(4)]
  stamp_as_row [OF failed.form_axioms nothing_left fit_stamps(5)]
  stamp_as_row [OF kept_audit.form_axioms nothing_left fit_stamps(6)]
  stamp_as_row [OF kept_stream.form_axioms nothing_left fit_stamps(7)]
  stamp_as_row [OF administration_record.form_axioms nothing_left fit_stamps(8)]
  stamp_as_row [OF kept_secret.form_axioms nothing_left fit_stamps(9)]

lemma stamped_row:
  assumes "stamped c x s bs prior now = Inr (bs', r, rid)"
  shows "row_in c x s bs' = Inr (r, rid)"
  using assms by (cases s) (simp_all add: stamped_forms)

text \<open>One change: what it takes out of the index and what it adds are its record's before and after.\<close>

lemma change_entries:
  assumes "searched_of d kind = Some s"
    and "(case prior of None \<Rightarrow> Inr [] | Some b \<Rightarrow> bindr (row_in c x s b) (\<lambda>(r, rid). row_entries d (table_word s) r rid)) = Inr gone"
    and "(case v of None \<Rightarrow> Inr (None, [])
         | Some bs \<Rightarrow> bindr (stamped c x s bs prior now) (\<lambda>(bs', r, rid).
             bindr (row_entries d (table_word s) r rid) (\<lambda>ks. Inr (Some bs', map (\<lambda>k. (k, Some rid)) ks)))) = Inr (v', added)"
  shows "\<exists>old. bytes_entries c x d kind prior = Inr (map (\<lambda>k. (k, old)) gone)"
    and "\<exists>rid ks. bytes_entries c x d kind v' = Inr (map (\<lambda>k. (k, rid)) ks) \<and> added = map (\<lambda>k. (k, Some rid)) ks"
proof -
  show "\<exists>old. bytes_entries c x d kind prior = Inr (map (\<lambda>k. (k, old)) gone)"
    using assms(1,2) by (cases prior) (auto simp: bytes_entries_def bindr_eq_Inr)
  show "\<exists>rid ks. bytes_entries c x d kind v' = Inr (map (\<lambda>k. (k, rid)) ks) \<and> added = map (\<lambda>k. (k, Some rid)) ks"
  proof (cases v)
    case None
    with assms(1,3) show ?thesis by (auto simp: bytes_entries_def)
  next
    case (Some bs)
    obtain bs' r rid ks where r: "stamped c x s bs prior now = Inr (bs', r, rid)"
        "row_entries d (table_word s) r rid = Inr ks" "v' = Some bs'" "added = map (\<lambda>k. (k, Some rid)) ks"
      using assms(3) by (auto simp: Some bindr_eq_Inr)
    with assms(1) stamped_row [OF r(1)] show ?thesis by (auto simp: bytes_entries_def)
  qed
qed

lemma written_exact:
  assumes "written_from c x d now was latest cs = Inr (ws, es)"
    and "\<And>kind key. searched_of d kind \<noteq> None \<Longrightarrow>
      (case map_of latest (kind, key) of Some b \<Rightarrow> Inr b | None \<Rightarrow> was kind key) = Inr (L kind key)"
    and "index_exact c x d L X" and "apart_throughout c x d L ws"
  shows "index_exact c x d (apply_changes L ws) (apply_entries X es)"
  using assms
proof (induction cs arbitrary: latest ws es L X)
  case (Cons ch cs)
  obtain kind key v where ch: "ch = (kind, key, v)" by (cases ch)
  show ?case
  proof (cases "searched_of d kind")
    case None
    obtain ws' where w: "written_from c x d now was latest cs = Inr (ws', es)" "ws = (kind, key, v) # ws'"
      using Cons.prems(1) None by (auto simp: ch bindr_eq_Inr)
    have apart: "entries_apart c x d L" "apart_throughout c x d (upd L kind key v) ws'"
      using Cons.prems(4) by (simp_all add: w(2) apart_throughout_Cons)
    have "bytes_entries c x d kind u = Inr (map (\<lambda>k. (k, 0)) [])" for u
      by (simp add: bytes_entries_def None)
    from replaced_exact [OF Cons.prems(3) apart(1) apart_throughout_now [OF apart(2)] this this]
    have "index_exact c x d (upd L kind key v) X" by simp
    moreover have "(case map_of latest (kind', key') of Some b \<Rightarrow> Inr b | None \<Rightarrow> was kind' key') =
        Inr (upd L kind key v kind' key')" if "searched_of d kind' \<noteq> None" for kind' key'
      using Cons.prems(2) [OF that] None that by (auto simp: upd_apply)
    ultimately show ?thesis using Cons.IH [OF w(1) _ _ apart(2)] by (simp add: w(2))
  next
    case (Some s)
    then have was: "(case map_of latest (kind, key) of Some b \<Rightarrow> Inr b | None \<Rightarrow> was kind key) = Inr (L kind key)"
      using Cons.prems(2) by simp
    obtain gone v' added ws' es' where w:
        "(case L kind key of None \<Rightarrow> Inr [] | Some b \<Rightarrow> bindr (row_in c x s b) (\<lambda>(r, rid). row_entries d (table_word s) r rid)) = Inr gone"
        "(case v of None \<Rightarrow> Inr (None, [])
         | Some bs \<Rightarrow> bindr (stamped c x s bs (L kind key) now) (\<lambda>(bs', r, rid).
             bindr (row_entries d (table_word s) r rid) (\<lambda>ks. Inr (Some bs', map (\<lambda>k. (k, Some rid)) ks)))) = Inr (v', added)"
        "written_from c x d now was (((kind, key), v') # latest) cs = Inr (ws', es')"
        "ws = (kind, key, v') # ws'" "es = map (\<lambda>k. (k, None)) gone @ added @ es'"
      using Cons.prems(1) Some unfolding ch by (auto simp: was bindr_eq_Inr)
    obtain old rid ks where e: "bytes_entries c x d kind (L kind key) = Inr (map (\<lambda>k. (k, old)) gone)"
        "bytes_entries c x d kind v' = Inr (map (\<lambda>k. (k, rid)) ks)" "added = map (\<lambda>k. (k, Some rid)) ks"
      using change_entries [OF Some w(1,2)] by blast
    have apart: "entries_apart c x d L" "apart_throughout c x d (upd L kind key v') ws'"
      using Cons.prems(4) by (simp_all add: w(4) apart_throughout_Cons)
    note exact = replaced_exact [OF Cons.prems(3) apart(1) apart_throughout_now [OF apart(2)] e(1,2)]
    have "(case map_of (((kind, key), v') # latest) (kind', key') of Some b \<Rightarrow> Inr b | None \<Rightarrow> was kind' key') =
        Inr (upd L kind key v' kind' key')" if "searched_of d kind' \<noteq> None" for kind' key'
      using Cons.prems(2) [OF that] by (simp add: upd_apply)
    from Cons.IH [OF w(3) this exact apart(2)] show ?thesis by (simp add: w(4,5) e(3))
  qed
qed simp

lemma written_places:
  "written_from c x d now was latest cs = Inr (ws, es) \<Longrightarrow>
    map (\<lambda>(kind, key, v). (kind, key, v = None)) ws = map (\<lambda>(kind, key, v). (kind, key, v = None)) cs"
proof (induction cs arbitrary: latest ws es)
  case (Cons ch cs)
  obtain kind key v where ch: "ch = (kind, key, v)" by (cases ch)
  show ?case
  proof (cases "searched_of d kind")
    case None
    with Cons.prems Cons.IH show ?thesis by (auto simp: ch bindr_eq_Inr)
  next
    case (Some s)
    with Cons.prems obtain v' added latest' ws' es' where w: "written_from c x d now was latest' cs = Inr (ws', es')"
        "ws = (kind, key, v') # ws'" "v' = None \<longleftrightarrow> v = None"
      by (auto simp: ch bindr_eq_Inr split: option.splits)
    with Cons.IH [OF w(1)] show ?thesis by (simp add: ch)
  qed
qed simp

text \<open>A write whose records and the ones before them can be read is written.\<close>

lemma stamp_as_returns:
  assumes "row_as c dec to_row rid bs = Inr p" and "\<And>b. prior = Some b \<Longrightarrow> \<exists>p. row_as c dec to_row rid b = Inr p"
  shows "\<exists>bs' r i. stamp_as c enc dec stamp to_row rid bs prior now = Inr (bs', r, i)"
  using assms by (cases prior) (auto simp: row_as_def stamp_as_def bindr_eq_Inr map_maybe_def Let_def)

lemma stamped_returns:
  assumes "row_in c x s bs = Inr p" and "\<And>b. prior = Some b \<Longrightarrow> \<exists>p. row_in c x s b = Inr p"
  shows "\<exists>bs' r rid. stamped c x s bs prior now = Inr (bs', r, rid)"
  using assms by (cases s) (simp_all add: stamp_as_returns)

lemma searched_table: "searched_of d kind = Some s \<Longrightarrow> \<exists>ks. row_entries d (table_word s) r rid = Inr ks"
  by (cases d) (auto simp: row_entries_def table_of_def tables_def versions_name_def split: if_splits)

lemma written_returns:
  assumes "\<And>kind key. searched_of d kind \<noteq> None \<Longrightarrow> was kind key = Inr (L kind key)"
    and "\<And>kind key s b. searched_of d kind = Some s \<Longrightarrow> L kind key = Some b \<Longrightarrow> \<exists>p. row_in c x s b = Inr p"
    and "\<And>kind key s b. searched_of d kind = Some s \<Longrightarrow> map_of latest (kind, key) = Some (Some b) \<Longrightarrow> \<exists>p. row_in c x s b = Inr p"
    and "\<And>kind key s b. searched_of d kind = Some s \<Longrightarrow> (kind, key, Some b) \<in> set cs \<Longrightarrow> \<exists>p. row_in c x s b = Inr p"
  shows "\<exists>ws es. written_from c x d now was latest cs = Inr (ws, es)"
  using assms(3,4)
proof (induction cs arbitrary: latest)
  case (Cons ch cs)
  obtain kind key v where ch: "ch = (kind, key, v)" by (cases ch)
  show ?case
  proof (cases "searched_of d kind")
    case None
    then show ?thesis using Cons.IH [of latest] Cons.prems by (fastforce simp: ch)
  next
    case (Some s)
    then obtain prior where prior: "(case map_of latest (kind, key) of Some b \<Rightarrow> Inr b | None \<Rightarrow> was kind key) = Inr prior"
        "\<And>b. prior = Some b \<Longrightarrow> \<exists>p. row_in c x s b = Inr p"
    proof (cases "map_of latest (kind, key)")
      case None
      then show ?thesis using that assms(1) [of kind key] assms(2) [OF Some, of key] Some by auto
    next
      case (Some b)
      show ?thesis
        by (rule that [of b]) (use Some Cons.prems(1) [OF \<open>searched_of d kind = Some s\<close>, of key] in auto)
    qed
    have "\<exists>gone. (case prior of None \<Rightarrow> Inr [] | Some b \<Rightarrow>
        bindr (row_in c x s b) (\<lambda>(r, rid). row_entries d (table_word s) r rid)) = Inr gone"
      using prior(2) searched_table [OF Some] by (cases prior) (fastforce simp: bindr_eq_Inr)+
    then obtain gone where gone: "(case prior of None \<Rightarrow> Inr [] | Some b \<Rightarrow>
        bindr (row_in c x s b) (\<lambda>(r, rid). row_entries d (table_word s) r rid)) = Inr gone" ..
    let ?new = "case v of None \<Rightarrow> Inr (None, [])
         | Some bs \<Rightarrow> bindr (stamped c x s bs prior now) (\<lambda>(bs', r, rid).
             bindr (row_entries d (table_word s) r rid) (\<lambda>ks. Inr (Some bs', map (\<lambda>k. (k, Some rid)) ks)))"
    have "\<exists>v' added. ?new = Inr (v', added) \<and> (\<forall>b. v' = Some b \<longrightarrow> (\<exists>p. row_in c x s b = Inr p))"
    proof (cases v)
      case (Some bs)
      then obtain p where "row_in c x s bs = Inr p"
        using Cons.prems(2) [OF \<open>searched_of d kind = Some s\<close>, of key bs] by (auto simp: ch)
      from stamped_returns [OF this prior(2)] obtain bs' r rid where st: "stamped c x s bs prior now = Inr (bs', r, rid)"
        by blast
      obtain ks where "row_entries d (table_word s) r rid = Inr ks"
        using searched_table [OF \<open>searched_of d kind = Some s\<close>] by blast
      then show ?thesis using st stamped_row [OF st] by (simp add: Some)
    qed simp
    then obtain v' added where new: "?new = Inr (v', added)" "\<And>b. v' = Some b \<Longrightarrow> \<exists>p. row_in c x s b = Inr p" by blast
    have "\<exists>ws es. written_from c x d now was (((kind, key), v') # latest) cs = Inr (ws, es)"
    proof (rule Cons.IH)
      show "\<exists>p. row_in c x s' b = Inr p"
        if "searched_of d kind' = Some s'" "map_of (((kind, key), v') # latest) (kind', key') = Some (Some b)" for kind' key' s' b
        using that new(2) Some Cons.prems(1) [OF that(1), of key' b] by (auto split: if_splits)
      show "\<exists>p. row_in c x s' b = Inr p" if "searched_of d kind' = Some s'" "(kind', key', Some b) \<in> set cs" for kind' key' s' b
        using Cons.prems(2) [OF that(1), of key' b] that(2) by simp
    qed
    then show ?thesis using Some prior(1) gone new(1) by (auto simp: ch)
  qed
qed simp

end

text \<open>One searched record at most has no other's entry.\<close>

lemma entries_apart_one:
  "(\<And>kind key. searched_of d kind \<noteq> None \<Longrightarrow> L kind key \<noteq> None \<Longrightarrow> (kind, key) = p) \<Longrightarrow> entries_apart c x d L"
proof -
  assume one: "\<And>kind key. searched_of d kind \<noteq> None \<Longrightarrow> L kind key \<noteq> None \<Longrightarrow> (kind, key) = p"
  have "(kind, key) = p" if "e \<in> place_entries c x d L kind key" for e kind key
    using that one [of kind key] by (auto simp: place_entries_def bytes_entries_def split: option.splits)
  then show ?thesis unfolding entries_apart_def by metis
qed

section \<open>Properties\<close>

definition readable :: "codec \<Rightarrow> secret_rules \<Rightarrow> database \<Rightarrow> record_change list \<Rightarrow> ledger \<Rightarrow> bool" where
  "readable c x d cs L \<longleftrightarrow> (\<forall>kind s b. searched_of d kind = Some s \<longrightarrow>
     (\<exists>key. L kind key = Some b \<or> (kind, key, Some b) \<in> set cs) \<longrightarrow> (\<exists>p. row_in c x s b = Inr p))"

text \<open>
  C9: A write's index entries follow its records: where every searchable record before it and in it
  can be read, it is written, at the places it was asked to write; and an index that is exactly its
  records' before it is exactly theirs after it, as long as no two records have an entry of one key.
\<close>

theorem index_follows_records:
  assumes "secret_laws c x" and "\<And>kind key. searched_of d kind \<noteq> None \<Longrightarrow> was kind key = Inr (L kind key)"
    and "readable c x d cs L" and "index_exact c x d L X"
  shows "\<exists>ws es. written_over c x d cs now was = Inr (ws, es) \<and>
    map (\<lambda>(kind, key, v). (kind, key, v = None)) ws = map (\<lambda>(kind, key, v). (kind, key, v = None)) cs \<and>
    (apart_throughout c x d L ws \<longrightarrow> index_exact c x d (apply_changes L ws) (apply_entries X es))"
proof -
  have read: "\<exists>p. row_in c x s b = Inr p"
    if "searched_of d kind = Some s" "L kind key = Some b \<or> (kind, key, Some b) \<in> set cs" for kind key s b
    using assms(3) that unfolding readable_def by blast
  have "\<exists>ws es. written_from c x d now was [] cs = Inr (ws, es)"
    by (rule secret_laws.written_returns [OF assms(1,2)]) (use read in \<open>blast | simp\<close>)+
  then obtain ws es where w: "written_from c x d now was [] cs = Inr (ws, es)" by blast
  have "apart_throughout c x d L ws \<Longrightarrow> index_exact c x d (apply_changes L ws) (apply_entries X es)"
    by (rule secret_laws.written_exact [OF assms(1) w _ assms(4)]) (simp_all add: assms(2))
  then show ?thesis
    unfolding written_over_def using w secret_laws.written_places [OF assms(1) w] by blast
qed

definition sample_kept :: "record_change list" where
  "sample_kept = [(''held'', entry_key 7 0, Some (w_held plain_codec (newly_held 0 (sample_hold 9)))),
     (''held-journey'', by_key 7 9, Some (be64 0))]"

lemma sample_held_back: "from_bytes plain_codec (r_held plain_codec) (w_held plain_codec (newly_held 0 (sample_hold 9))) =
    Inr (newly_held 0 (sample_hold 9))"
  by (rule plain.held.from_bytes_write) (simp_all add: fit_held_def newly_held_def fit_sample_hold plain.nothing_left)

theorem index_follows_records_witness:
  "\<exists>ws es. written_over plain_codec plain_rules Runtime sample_kept 50 (\<lambda>_ _. Inr None) = Inr (ws, es) \<and>
    length ws = 2 \<and> index_exact plain_codec plain_rules Runtime (apply_changes empty_ledger ws) (apply_entries (\<lambda>_. None) es)"
proof -
  have readable: "readable plain_codec plain_rules Runtime sample_kept empty_ledger"
    by (auto simp: readable_def sample_kept_def empty_ledger_def row_as_def sample_held_back split: if_splits)
  have exact: "index_exact plain_codec plain_rules Runtime empty_ledger (\<lambda>_. None)"
    by (simp add: index_exact_def place_entries_def bytes_entries_def empty_ledger_def split: option.splits)
  from index_follows_records [OF plain_secrets.secret_laws_axioms _ readable exact, of "\<lambda>_ _. Inr None" 50]
  obtain ws es where w: "written_over plain_codec plain_rules Runtime sample_kept 50 (\<lambda>_ _. Inr None) = Inr (ws, es)"
      "map (\<lambda>(kind, key, v). (kind, key, v = None)) ws = map (\<lambda>(kind, key, v). (kind, key, v = None)) sample_kept"
      "apart_throughout plain_codec plain_rules Runtime empty_ledger ws \<longrightarrow>
        index_exact plain_codec plain_rules Runtime (apply_changes empty_ledger ws) (apply_entries (\<lambda>_. None) es)"
    by (auto simp: empty_ledger_def)
  then obtain a b where ws: "ws = [(''held'', entry_key 7 0, a), (''held-journey'', by_key 7 9, b)]"
    by (auto simp: sample_kept_def map_eq_Cons_conv)
  have "entries_apart plain_codec plain_rules Runtime (apply_changes empty_ledger (take n ws))" for n
    by (rule entries_apart_one [where p = "(''held'', entry_key 7 0)"])
      (auto simp: ws take_Cons upd_apply empty_ledger_def split: nat.splits if_splits)
  then have "apart_throughout plain_codec plain_rules Runtime empty_ledger ws" by (simp add: apart_throughout_def)
  with w ws show ?thesis by auto
qed

end
