(* ===== verification/Page.thy ===== *)
theory Page
  imports Columns
begin

text \<open>
  A queue read outside the writer (\<open>src/.src/storage/queue.rs\<close>, \<open>hold.rs\<close>, \<open>failed.rs\<close>, \<open>dead.rs\<close>):
  its places, and a page of its entries from a place on, found by one range of its index in one
  consistent view of the store. It is shown to be the entries the queue holds there, in their
  order, for every index that is exactly its records'.
\<close>

section \<open>The page\<close>

text \<open>A view of the store: its records and its index.\<close>

record view =
  vw_get :: store_get
  vw_scan :: index_scan

definition placed_from :: "index_scan \<Rightarrow> kinds \<Rightarrow> u128 \<Rightarrow> u64 \<Rightarrow> nat \<Rightarrow> (u64 \<times> u128) list result" where
  "placed_from scan K queue from at_most = find_from Runtime scan (k_table K, k_index K) [VId queue] from at_most"

definition page_entries :: "store_get \<Rightarrow> kinds \<Rightarrow> u128 \<Rightarrow> (u64 \<times> u128) list \<Rightarrow> bytes list result" where
  "page_entries get K queue found =
     bindr (each (\<lambda>(sequence, _). get (k_entry K) (entry_key queue sequence)) found) (\<lambda>vs.
       Inr (List.map_filter id vs))"

definition first_of :: "(u64 \<times> u128) list \<Rightarrow> u64 option" where
  "first_of found = (case found of [] \<Rightarrow> None | (sequence, _) # _ \<Rightarrow> Some sequence)"

definition page :: "codec \<Rightarrow> view result \<Rightarrow> kinds \<Rightarrow> u128 \<Rightarrow> u64 \<Rightarrow> u32 \<Rightarrow> (places \<times> bytes list) result" where
  "page c seen K queue from at_most =
     bindr seen (\<lambda>w.
     bindr (bindr (vw_get w (k_places K) (places_key queue)) (decode_places c)) (\<lambda>p.
     if pl_count p = 0 then Inr (p, [])
     else let at = max from (pl_first p); n = unat at_most in
       bindr (if n = 0 then Inr [] else placed_from (vw_scan w) K queue at n) (\<lambda>found.
       bindr (if found \<noteq> [] \<and> at = pl_first p then Inr (first_of found)
         else bindr (placed_from (vw_scan w) K queue (pl_first p) 1) (\<lambda>f. Inr (first_of f))) (\<lambda>first.
       bindr (page_entries (vw_get w) K queue found) (\<lambda>entries.
         Inr (p\<lparr>pl_first := (case first of None \<Rightarrow> pl_next p | Some s \<Rightarrow> s)\<rparr>, entries))))))"

definition read_held :: "codec \<Rightarrow> view result \<Rightarrow> u128 \<Rightarrow> u64 \<times> u32 \<Rightarrow> i128 \<Rightarrow> held_queue result" where
  "read_held c seen queue fm now =
     bindr (page c seen hold_kinds queue (fst fm) (snd fm)) (\<lambda>(p, entries).
     bindr (each (from_bytes c (r_held c)) entries) (\<lambda>hs.
       Inr \<lparr>hq_first = pl_first p, hq_next = pl_next p, hq_count = pl_count p, hq_held = hs,
         hq_read_unix_nanos = now\<rparr>))"

definition read_failed :: "codec \<Rightarrow> view result \<Rightarrow> u128 \<Rightarrow> u64 \<times> u32 \<Rightarrow> failed_queue result" where
  "read_failed c seen queue fm =
     bindr (page c seen failed_kinds queue (fst fm) (snd fm)) (\<lambda>(p, entries).
     bindr (each (from_bytes c (r_failed c)) entries) (\<lambda>fs.
       Inr \<lparr>fq_first = pl_first p, fq_next = pl_next p, fq_count = pl_count p, fq_failed = fs\<rparr>))"

definition read_dead :: "codec \<Rightarrow> view result \<Rightarrow> u128 \<Rightarrow> u64 \<times> u32 \<Rightarrow> dead_queue result" where
  "read_dead c seen queue fm =
     bindr (page c seen dead_kinds queue (fst fm) (snd fm)) (\<lambda>(p, entries).
     bindr (each (from_bytes c (r_dead c)) entries) (\<lambda>ds.
       Inr \<lparr>dq_first = pl_first p, dq_next = pl_next p, dq_count = pl_count p, dq_dead = ds\<rparr>))"

section \<open>A range of a queue's index\<close>

lemma place_prefix:
  "index_prefix Runtime (''held'', ''held_place'') [VId q] =
    Inr (index_of_columns 20 ''held_place'' [''queue'', ''sequence''], 20 # be128 q)"
  "index_prefix Runtime (''failed_message'', ''failed_message_place'') [VId q] =
    Inr (index_of_columns 22 ''failed_message_place'' [''queue'', ''sequence''], 22 # be128 q)"
  "index_prefix Runtime (''dead_message'', ''dead_message_place'') [VId q] =
    Inr (index_of_columns 21 ''dead_message_place'' [''queue'', ''sequence''], 21 # be128 q)"
  by (simp_all add: index_prefix_def table_of_def index_named_def tables_def held_indexes_def failed_message_indexes_def
      dead_message_indexes_def index_of_columns_def versions_name_def)

lemma eights_be64 [simp]: "eights (be64 s) = [s]"
  by (simp add: eights.simps [of "be64 s"]) (simp add: eights.simps)

lemma entry_value:
  "entry_values ix pre 1 (pre @ be64 s @ be128 r, r) = Inr ([s], r)"
  by (simp add: entry_values_def Let_def)

text \<open>Where an index's keys after a prefix are a place and an identifier, a range of them is of places.\<close>

lemma between_places:
  assumes F: "\<And>k r. X (pre @ k) = Some r \<longleftrightarrow> (\<exists>s. k = be64 s @ be128 r \<and> F s = Some r)"
  shows "between X (pre @ be64 from) (pre @ be64 (- 1) @ replicate 17 0xFF) n False =
    map (\<lambda>s. (pre @ be64 s @ be128 (the (F s)), the (F s))) (take n (sorted_list_of_set {s \<in> dom F. from \<le> s}))"
proof -
  let ?key = "\<lambda>s. pre @ be64 s @ be128 (the (F s))"
  have "{k \<in> dom X. pre @ be64 from \<le> k \<and> k \<le> pre @ be64 (- 1) @ replicate 17 0xFF} = ?key ` {s \<in> dom F. from \<le> s}"
    (is "?A = ?B")
  proof (intro equalityI subsetI)
    fix k assume "k \<in> ?A"
    then obtain r where k: "X k = Some r" "pre @ be64 from \<le> k" "k \<le> pre @ be64 (- 1) @ replicate 17 0xFF" by auto
    obtain k' where k': "k = pre @ k'" "be64 from \<le> k'" by (rule between_append [OF k(2,3)])
    then obtain s where s: "k' = be64 s @ be128 r" "F s = Some r" using F k(1) by auto
    then have "from \<le> s" using k'(2) be64_append_le [of "from" "[]" s "be128 r"] by auto
    then show "k \<in> ?B" using s k'(1) by (intro image_eqI [of _ _ s]) auto
  next
    fix k assume "k \<in> ?B"
    then obtain s r where s: "k = ?key s" "F s = Some r" "from \<le> s" by auto
    have "be64 from \<le> be64 s @ be128 r" using s(3) be64_append_le [of "from" "[]" s "be128 r"] by auto
    moreover have "be64 s @ be128 r \<le> be64 (- 1) @ replicate 17 0xFF"
    proof -
      have "be128 r \<le> replicate 17 0xFF" by (rule le_all_ones) simp
      moreover have "s < - 1 \<or> s = - 1" using word_order.extremum [of s] by (simp only: order_le_less)
      ultimately show ?thesis by (simp only: be64_append_le simp_thms)
    qed
    moreover have "X k = Some r" using s by (auto simp: F)
    ultimately show "k \<in> ?A" using s by (auto simp: append_le_append simp del: append_assoc)
  qed
  moreover have "sorted_list_of_set (?key ` {s \<in> dom F. from \<le> s}) = map ?key (sorted_list_of_set {s \<in> dom F. from \<le> s})"
    by (rule sorted_image) (auto simp: append_le_append [of pre] be64_append_le simp del: append_assoc)
  moreover have "map (\<lambda>s. (?key s, the (X (?key s)))) (take n (sorted_list_of_set {s \<in> dom F. from \<le> s})) =
      map (\<lambda>s. (?key s, the (F s))) (take n (sorted_list_of_set {s \<in> dom F. from \<le> s}))"
  proof (intro map_cong refl)
    fix s assume "s \<in> set (take n (sorted_list_of_set {s \<in> dom F. from \<le> s}))"
    then obtain r where "F s = Some r" by (auto dest!: in_set_takeD)
    then have "F s = Some r" "X (?key s) = Some r" using F [of "be64 s @ be128 r" r] by simp_all
    then show "(?key s, the (X (?key s))) = (?key s, the (F s))" by simp
  qed
  ultimately show ?thesis by (simp add: between_def take_map comp_def)
qed

lemma found_places:
  assumes "index_prefix Runtime (k_table K, k_index K) [VId q] = Inr (ix, pre)" and "length (ix_columns ix) = 2"
    and F: "\<And>k r. X (pre @ k) = Some r \<longleftrightarrow> (\<exists>s. k = be64 s @ be128 r \<and> F s = Some r)"
    and scan: "\<And>lo hi n b. scan lo hi n b = Inr (between X lo hi n b)"
  shows "placed_from scan K q from n =
    Inr (map (\<lambda>s. (s, the (F s))) (take n (sorted_list_of_set {s \<in> dom F. from \<le> s})))"
proof -
  let ?ss = "take n (sorted_list_of_set {s \<in> dom F. from \<le> s})"
  have last: "from \<le> (- 1 :: u64)" by (rule word_order.extremum)
  have es: "scan (pre @ be64 from) (pre @ be64 (- 1) @ replicate 17 0xFF) n False =
      Inr (map (\<lambda>s. (pre @ be64 s @ be128 (the (F s)), the (F s))) ?ss)"
    using scan between_places [of X pre F "from" n] F by simp
  have "each (entry_values ix pre 1) (map (\<lambda>s. (pre @ be64 s @ be128 (the (F s)), the (F s))) ?ss) =
      Inr (map (\<lambda>s. ([s], the (F s))) ?ss)"
    using entry_value [of ix pre] by (simp add: each_eq_Inr list_all2_map1 list_all2_map2 list_all2_same)
  with es assms(1,2) last show ?thesis by (simp add: placed_from_def find_from_def find_ordered_def comp_def)
qed

section \<open>The index of a queue's places\<close>

text \<open>The numbers of the indexes of a searchable table, and whose a key is by its number.\<close>

lemma table_of_searched:
  "searched_of Runtime kind = Some s \<Longrightarrow> \<exists>t. table_of Runtime (table_word s) = Some t \<and>
    (kind, map ix_number (ta_indexes t)) \<in> {(''journey'', [1, 2, 3, 4]), (''message'', [5, 6, 7, 8, 17]),
      (''held'', [9, 20, 23]), (''dead-message'', [10, 21]), (''failed-message'', [22])}"
  by (auto simp: table_of_def tables_def journey_indexes_def message_indexes_def held_indexes_def
      dead_message_indexes_def failed_message_indexes_def index_of_columns_def versions_name_def split: if_splits)

lemma entry_number:
  assumes "(n # k, r) \<in> place_entries c x d L kind key"
  shows "\<exists>s t. searched_of d kind = Some s \<and> table_of d (table_word s) = Some t \<and> n \<in> set (map ix_number (ta_indexes t))"
proof -
  obtain es where es: "bytes_entries c x d kind (L kind key) = Inr es" "(n # k, r) \<in> set es"
    using assms by (auto simp: place_entries_def split: sum.splits)
  then obtain s bs row rid ks where s: "searched_of d kind = Some s" "row_entries d (table_word s) row rid = Inr ks" "n # k \<in> set ks"
    by (auto simp: bytes_entries_def bindr_eq_Inr split: option.splits)
  then obtain t where t: "table_of d (table_word s) = Some t" "ks = List.map_filter (\<lambda>i. index_entry_key i row rid) (ta_indexes t)"
    by (auto simp: row_entries_def split: option.splits)
  then obtain i where "i \<in> set (ta_indexes t)" "index_entry_key i row rid = Some (n # k)"
    using s(3) by (auto simp: List.map_filter_def)
  then have "i \<in> set (ta_indexes t) \<and> ix_number i = n"
    by (auto simp: index_entry_key_def split: option.splits if_splits)
  with s t show ?thesis by auto
qed

lemma place_entry_kind:
  assumes "(n # k, r) \<in> place_entries c x Runtime L kind key"
    and "(n, K) \<in> {(20, ''held''), (21, ''dead-message''), (22, ''failed-message'')}"
  shows "kind = K"
proof -
  obtain s t where "searched_of Runtime kind = Some s" "table_of Runtime (table_word s) = Some t"
      "n \<in> set (map ix_number (ta_indexes t))"
    using entry_number [OF assms(1)] by blast
  with table_of_searched [of kind s] assms(2) show ?thesis by auto
qed

text \<open>
  Every record of a kind of queue is at its place, and what the index of places \<open>n\<close> has of it is its
  queue, its place and what it is about.
\<close>

definition place_indexed :: "codec \<Rightarrow> secret_rules \<Rightarrow> kinds \<Rightarrow> u8 \<Rightarrow> (bytes \<Rightarrow> u128 option) \<Rightarrow> ledger \<Rightarrow> bool" where
  "place_indexed c x K n about L \<longleftrightarrow> (\<forall>key bs. L (k_entry K) key = Some bs \<longrightarrow>
     (\<exists>q s a es. key = entry_key q s \<and> about bs = Some a \<and> bytes_entries c x Runtime (k_entry K) (Some bs) = Inr es \<and>
       (\<forall>k r. (n # k, r) \<in> set es \<longleftrightarrow> k = be128 q @ be64 s @ be128 a \<and> r = a)))"

definition abouts_of :: "kinds \<Rightarrow> (bytes \<Rightarrow> u128 option) \<Rightarrow> ledger \<Rightarrow> u128 \<Rightarrow> u64 \<Rightarrow> u128 option" where
  "abouts_of K about L q s = Option.bind (entries_of K L q s) about"

lemma place_index_keys:
  assumes "index_exact c x Runtime L X" and "place_indexed c x K n about L"
    and "(n, k_entry K) \<in> {(20, ''held''), (21, ''dead-message''), (22, ''failed-message'')}"
  shows "X ((n # be128 q) @ k) = Some r \<longleftrightarrow> (\<exists>s. k = be64 s @ be128 r \<and> abouts_of K about L q s = Some r)"
proof
  assume "X ((n # be128 q) @ k) = Some r"
  then obtain kind key where in_L: "(n # be128 q @ k, r) \<in> place_entries c x Runtime L kind key"
    using assms(1) by (auto simp: index_exact_def)
  then have kind: "kind = k_entry K" by (rule place_entry_kind [OF _ assms(3)])
  then obtain bs where bs: "L (k_entry K) key = Some bs"
    using in_L by (cases "L (k_entry K) key") (auto simp: place_entries_def bytes_entries_def split: option.splits)
  then obtain q' s a es where "key = entry_key q' s" "about bs = Some a" "bytes_entries c x Runtime (k_entry K) (Some bs) = Inr es"
      "\<forall>k r. (n # k, r) \<in> set es \<longleftrightarrow> k = be128 q' @ be64 s @ be128 a \<and> r = a"
    using assms(2) unfolding place_indexed_def by blast
  with in_L kind bs show "\<exists>s. k = be64 s @ be128 r \<and> abouts_of K about L q s = Some r"
    by (auto simp: place_entries_def abouts_of_def entries_of_def)
next
  assume "\<exists>s. k = be64 s @ be128 r \<and> abouts_of K about L q s = Some r"
  then obtain s bs where s: "k = be64 s @ be128 r" "L (k_entry K) (entry_key q s) = Some bs" "about bs = Some r"
    by (auto simp: abouts_of_def entries_of_def Option.bind_eq_Some_conv)
  then obtain q' s' a es where e: "entry_key q s = entry_key q' s'" "about bs = Some a"
      "bytes_entries c x Runtime (k_entry K) (Some bs) = Inr es"
      "\<forall>k r. (n # k, r) \<in> set es \<longleftrightarrow> k = be128 q' @ be64 s' @ be128 a \<and> r = a"
    using assms(2) unfolding place_indexed_def by blast
  then have "(n # be128 q @ k, r) \<in> place_entries c x Runtime L (k_entry K) (entry_key q s)"
    using s by (auto simp: place_entries_def)
  then show "X ((n # be128 q) @ k) = Some r" using assms(1) by (auto simp: index_exact_def)
qed

section \<open>A page is the queue's\<close>

text \<open>A view that answers as a ledger and an index are.\<close>

definition view_of :: "view \<Rightarrow> ledger \<Rightarrow> (key \<rightharpoonup> u128) \<Rightarrow> bool" where
  "view_of w L X \<longleftrightarrow> (\<forall>k key. vw_get w k key = Inr (L k key)) \<and>
     (\<forall>lo hi n b. vw_scan w lo hi n b = Inr (between X lo hi n b))"

definition places_from :: "kinds \<Rightarrow> ledger \<Rightarrow> u128 \<Rightarrow> u64 \<Rightarrow> u64 list" where
  "places_from K L q from = sorted_list_of_set {s \<in> dom (entries_of K L q). from \<le> s}"

lemma map_filter_all: "set ss \<subseteq> dom f \<Longrightarrow> List.map_filter id (map f ss) = map (\<lambda>s. the (f s)) ss"
  by (induction ss) (auto simp: List.map_filter_simps)

lemma page_entries_are:
  assumes "view_of w L X" and "set ss \<subseteq> dom (entries_of K L q)"
  shows "page_entries (vw_get w) K q (map (\<lambda>s. (s, f s)) ss) = Inr (map (\<lambda>s. the (entries_of K L q s)) ss)"
proof -
  have "each (\<lambda>(s, _). vw_get w (k_entry K) (entry_key q s)) (map (\<lambda>s. (s, f s)) ss) = Inr (map (entries_of K L q) ss)"
    using assms(1) by (simp add: each_eq_Inr list_all2_map1 list_all2_map2 list_all2_same view_of_def entries_of_def)
  then show ?thesis using map_filter_all [OF assms(2)] by (simp add: page_entries_def)
qed

lemma first_of_places:
  "first_of (map (\<lambda>s. (s, f s)) (take n (sorted_list_of_set A))) = (if n = 0 \<or> A = {} then None else Some (Min A))"
  if "finite (A :: u64 set)"
  using that by (cases n) (auto simp: first_of_def sorted_list_of_set_nonempty)

lemma page_reads:
  assumes inv: "queue_inv c K about L q" and w: "view_of w L X" and exact: "index_exact c x Runtime L X"
    and indexed: "place_indexed c x K n about L"
    and number: "(n, k_entry K) \<in> {(20, ''held''), (21, ''dead-message''), (22, ''failed-message'')}"
    and prefix: "index_prefix Runtime (k_table K, k_index K) [VId q] = Inr (ix, n # be128 q)" "length (ix_columns ix) = 2"
  shows "page c (Inr w) K q from m = Inr ((places_of c K L q)\<lparr>pl_first := (if dom (entries_of K L q) = {}
      then pl_next (places_of c K L q) else Min (dom (entries_of K L q)))\<rparr>,
    map (\<lambda>s. the (entries_of K L q s)) (take (unat m) (places_from K L q from)))"
proof -
  let ?D = "dom (entries_of K L q)"
  let ?p = "places_of c K L q"
  note q = queue_inv_parts [OF inv]
  have abouts: "dom (abouts_of K about L q) = ?D"
    using qinv_about [OF q(2)] by (fastforce simp: abouts_of_def dom_def Option.bind_eq_Some_conv)
  have range: "s \<in> ?D \<Longrightarrow> pl_first ?p \<le> s" for s using qinv_range [OF q(2)] by auto
  have found: "placed_from (vw_scan w) K q at k =
      Inr (map (\<lambda>s. (s, the (abouts_of K about L q s))) (take k (sorted_list_of_set {s \<in> ?D. at \<le> s})))" for at k
    using found_places [OF prefix place_index_keys [OF exact indexed number], of "vw_scan w"] w by (simp add: view_of_def abouts)
  have places: "bindr (vw_get w (k_places K) (places_key q)) (decode_places c) = Inr ?p"
    using w q(1) by (simp add: view_of_def)
  have count: "pl_count ?p = 0 \<longleftrightarrow> ?D = {}"
    using qinv_count [OF q(2)] by (simp add: unat_eq_0 [symmetric] card_eq_0_iff del: unat_eq_0)
  show ?thesis
  proof (cases "?D = {}")
    case True
    then have "pl_count ?p = 0" "pl_first ?p = pl_next ?p" using count q(2) by (simp_all add: qinv_def)
    then show ?thesis using True by (simp add: page_def places places_from_def)
  next
    case False
    let ?at = "max from (pl_first ?p)"
    let ?ss = "take (unat m) (places_from K L q from)"
    let ?fnd = "map (\<lambda>s. (s, the (abouts_of K about L q s))) ?ss"
    have at: "{s \<in> ?D. ?at \<le> s} = {s \<in> ?D. from \<le> s}" using range by auto
    have all: "{s \<in> ?D. pl_first ?p \<le> s} = ?D" using range by auto
    have fnd: "(if unat m = 0 then Inr [] else placed_from (vw_scan w) K q ?at (unat m)) = Inr ?fnd"
    proof (cases "unat m = 0")
      case False
      then show ?thesis using found [of ?at "unat m"] unfolding at places_from_def by simp
    qed simp
    have entries: "page_entries (vw_get w) K q ?fnd = Inr (map (\<lambda>s. the (entries_of K L q s)) ?ss)"
      by (rule page_entries_are [OF w])
        (use set_take_subset [of "unat m" "places_from K L q from"] in \<open>auto simp: places_from_def\<close>)
    have first: "(if ?fnd \<noteq> [] \<and> ?at = pl_first ?p then Inr (first_of ?fnd)
        else bindr (placed_from (vw_scan w) K q (pl_first ?p) 1) (\<lambda>f. Inr (first_of f))) = Inr (Some (Min ?D))"
    proof (cases "?fnd \<noteq> [] \<and> ?at = pl_first ?p")
      case True
      then have "places_from K L q from = sorted_list_of_set ?D" using at all by (simp add: places_from_def)
      moreover have "unat m \<noteq> 0" using True by auto
      ultimately show ?thesis using True False by (simp add: first_of_places)
    next
      case other: False
      have "first_of (map (\<lambda>s. (s, the (abouts_of K about L q s))) (take 1 (sorted_list_of_set ?D))) = Some (Min ?D)"
        using False first_of_places [of ?D _ 1] by simp
      then show ?thesis unfolding if_not_P [OF other] found all by simp
    qed
    show ?thesis
      using count False unfolding page_def places Let_def bindr_simps fnd split_beta prod.sel first entries by simp
  qed
qed

section \<open>A held queue's page\<close>

definition held_keyed :: "ledger \<Rightarrow> bool" where
  "held_keyed L \<longleftrightarrow> (\<forall>key bs. L ''held'' key = Some bs \<longrightarrow> (\<exists>q s. key = entry_key q s))"

lemma held_entries:
  "from_bytes c (r_held c) bs = Inr h \<Longrightarrow> bytes_entries c x Runtime ''held'' (Some bs) =
    Inr (let q = ho_queue (he_hold h); s = he_sequence h; rid = held_id h in
      [(9 # be128 q @ be64 (he_held_unix_nanos h) @ be128 rid, rid), (20 # be128 q @ be64 s @ be128 rid, rid),
       (23 # be128 q @ [if he_failed h then 1 else 0] @ be64 (due_at h) @ be64 s @ be128 rid, rid)])"
  by (simp add: bytes_entries_def row_as_def row_entries_def table_of_def tables_def held_indexes_def index_of_columns_def
      index_entry_key_def value_in_def row_held_def List.map_filter_simps versions_name_def Let_def)

lemma held_indexed:
  assumes "\<forall>q. hold_inv c L q" and "held_keyed L"
  shows "place_indexed c x hold_kinds 20 (held_about c) L"
  unfolding place_indexed_def
proof (intro allI impI)
  fix key bs assume L: "L (k_entry hold_kinds) key = Some bs"
  then obtain q s where key: "key = entry_key q s" using assms(2) by (auto simp: held_keyed_def hold_kinds_def)
  then have "entries_of hold_kinds L q s = Some bs" using L by (simp add: entries_of_def)
  then have h: "from_bytes c (r_held c) bs = Inr (held_at c bs)" "he_sequence (held_at c bs) = s"
      "ho_queue (he_hold (held_at c bs)) = q"
    using hold_inv_parts(2) [of c L q] assms(1) by (auto simp: held_well_def)
  show "\<exists>q s a es. key = entry_key q s \<and> held_about c bs = Some a \<and>
      bytes_entries c x Runtime (k_entry hold_kinds) (Some bs) = Inr es \<and>
      (\<forall>k r. (20 # k, r) \<in> set es \<longleftrightarrow> k = be128 q @ be64 s @ be128 a \<and> r = a)"
    using held_entries [OF h(1), of x] h(2,3)
    by (intro exI [of _ q] exI [of _ s] exI [of _ "ho_journey (he_hold (held_at c bs))"])
      (simp add: key held_about_eq [OF h(1)] hold_kinds_def held_id_def Let_def)
qed

lemma sorted_list_of_filter:
  "finite A \<Longrightarrow> sorted_list_of_set {s \<in> A. P s} = filter P (sorted_list_of_set (A :: u64 set))"
  using strict_sorted_equal [of "sorted_list_of_set {s \<in> A. P s}" "filter P (sorted_list_of_set A)"]
  by (simp add: sorted_wrt_filter)

text \<open>What a queue holds, by its places.\<close>

lemma waiting_by_place:
  "waiting c L q = map (\<lambda>s. held_at c (the (entries_of hold_kinds L q s))) (sorted_list_of_set (dom (entries_of hold_kinds L q)))"
  by (simp add: waiting_def queue_list_def qlist_def comp_def)

lemma waiting_sequence:
  "hold_inv c L q \<Longrightarrow> s \<in> dom (entries_of hold_kinds L q) \<Longrightarrow> he_sequence (held_at c (the (entries_of hold_kinds L q s))) = s"
  using hold_inv_parts(2) [of c L q] by (auto simp: held_well_def)

lemma waiting_from:
  assumes "hold_inv c L q"
  shows "filter (\<lambda>h. from \<le> he_sequence h) (waiting c L q) =
    map (\<lambda>s. held_at c (the (entries_of hold_kinds L q s))) (places_from hold_kinds L q from)"
proof -
  let ?D = "dom (entries_of hold_kinds L q)"
  have "filter (\<lambda>s. from \<le> he_sequence (held_at c (the (entries_of hold_kinds L q s)))) (sorted_list_of_set ?D) =
      filter (\<lambda>s. from \<le> s) (sorted_list_of_set ?D)"
    by (rule filter_cong) (simp_all add: waiting_sequence [OF assms])
  then show ?thesis by (simp add: waiting_by_place filter_map comp_def places_from_def sorted_list_of_filter)
qed

text \<open>
  C32: A page of a held queue, read in one view of the store and its index, is the queue's own:
  at most as many of its Messages as asked for, the first that stand at the place asked from or
  after it, in their order, with the queue's count, its next place and the place of the oldest
  it holds.
\<close>

theorem held_page_is_the_queue:
  assumes "\<forall>q. hold_inv c L q" and "held_keyed L" and "index_exact c x Runtime L X" and "view_of w L X"
  shows "\<exists>count. read_held c (Inr w) q (from, m) now = Inr \<lparr>
      hq_first = (case waiting c L q of [] \<Rightarrow> next_place c L q | h # _ \<Rightarrow> he_sequence h),
      hq_next = next_place c L q, hq_count = count,
      hq_held = take (unat m) (filter (\<lambda>h. from \<le> he_sequence h) (waiting c L q)), hq_read_unix_nanos = now\<rparr> \<and>
    unat count = length (waiting c L q)"
proof -
  let ?D = "dom (entries_of hold_kinds L q)"
  let ?held = "\<lambda>s. held_at c (the (entries_of hold_kinds L q s))"
  have inv: "hold_inv c L q" using assms(1) by blast
  have "index_prefix Runtime (k_table hold_kinds, k_index hold_kinds) [VId q] =
      Inr (index_of_columns 20 ''held_place'' [''queue'', ''sequence''], 20 # be128 q)"
    by (simp add: hold_kinds_def place_prefix)
  note page_reads [OF hold_inv_parts(1) [OF inv] assms(4,3) held_indexed [OF assms(1,2)] _ this, of "from" m]
  then have page: "page c (Inr w) hold_kinds q from m = Inr ((places_of c hold_kinds L q)\<lparr>pl_first := (if ?D = {} then next_place c L q
        else Min ?D)\<rparr>, map (\<lambda>s. the (entries_of hold_kinds L q s)) (take (unat m) (places_from hold_kinds L q from)))"
    by (simp add: next_place_def) (simp add: hold_kinds_def index_of_columns_def)
  have well: "from_bytes c (r_held c) (the (entries_of hold_kinds L q s)) = Inr (?held s)" if "s \<in> ?D" for s
    using hold_inv_parts(2) [OF inv] that by (auto simp: held_well_def)
  have "set (take (unat m) (places_from hold_kinds L q from)) \<subseteq> ?D"
    using set_take_subset [of "unat m" "places_from hold_kinds L q from"] by (auto simp: places_from_def)
  then have read: "each (from_bytes c (r_held c)) (map (\<lambda>s. the (entries_of hold_kinds L q s)) (take (unat m) (places_from hold_kinds L q from))) =
      Inr (map ?held (take (unat m) (places_from hold_kinds L q from)))"
    using well by (auto simp: each_eq_Inr list_all2_map1 list_all2_map2 list_all2_same)
  have first: "(if ?D = {} then next_place c L q else Min ?D) =
      (case waiting c L q of [] \<Rightarrow> next_place c L q | h # _ \<Rightarrow> he_sequence h)"
    using waiting_sequence [OF inv, of "Min ?D"] by (auto simp: waiting_by_place sorted_list_of_set_nonempty)
  have "unat (pl_count (places_of c hold_kinds L q)) = length (waiting c L q)"
    using qinv_count [OF queue_inv_parts(2) [OF hold_inv_parts(1) [OF inv]]] by (simp add: waiting_by_place)
  then show ?thesis
    unfolding read_held_def fst_conv snd_conv page bindr_simps split_beta read first waiting_from [OF inv]
    by (simp add: take_map next_place_def)
qed

text \<open>A ledger of one held Message, its index, and a view of both.\<close>

definition held_one :: ledger where
  "held_one = apply_changes empty_ledger
     [(''held'', entry_key 7 0, Some (w_held plain_codec (newly_held 0 (sample_hold 9)))),
      (''held-journey'', by_key 7 9, Some (be64 0)),
      (''held-places'', places_key 7, Some (w_places plain_codec \<lparr>pl_first = 0, pl_next = 1, pl_count = 1\<rparr>))]"

definition held_one_index :: "key \<rightharpoonup> u128" where
  "held_one_index = map_of (projr (bytes_entries plain_codec plain_rules Runtime ''held''
     (held_one ''held'' (entry_key 7 0))))"

definition held_one_view :: view where
  "held_one_view = \<lparr>vw_get = \<lambda>k key. Inr (held_one k key), vw_scan = \<lambda>lo hi n b. Inr (between held_one_index lo hi n b)\<rparr>"

lemma held_one_kept: "eval empty_ledger (keep plain_codec (sample_hold 9)) = Inr ((), held_one)"
  by (simp add: keep_def place_def hold_kinds_def empty_ledger_def places_def decode_places_def default_places_def
      sample_hold_def newly_held_def held_one_def Let_def)

lemma held_one_inv: "hold_inv plain_codec held_one q" and held_one_waiting: "waiting plain_codec held_one 7 = [newly_held 0 (sample_hold 9)]"
proof -
  obtain L' where L': "eval empty_ledger (keep plain_codec (sample_hold 9)) = Inr ((), L')" "hold_inv plain_codec L' 7"
      "waiting plain_codec L' 7 = [newly_held 0 (sample_hold 9)]" "only_queue hold_kinds 7 empty_ledger L'"
    using plain.eval_keep [OF _ fit_sample_hold, of empty_ledger 9] by (auto simp: sample_hold_def held_here_def)
  then have "L' = held_one" using held_one_kept by simp
  with L' show "waiting plain_codec held_one 7 = [newly_held 0 (sample_hold 9)]" "hold_inv plain_codec held_one q"
    using hold_inv_other(1) [of 7 empty_ledger held_one q] by (cases "q = 7"; simp)+
qed

lemma held_one_exact: "index_exact plain_codec plain_rules Runtime held_one held_one_index"
proof -
  let ?es = "projr (bytes_entries plain_codec plain_rules Runtime ''held'' (held_one ''held'' (entry_key 7 0)))"
  have at: "held_one ''held'' key = (if key = entry_key 7 0 then Some (w_held plain_codec (newly_held 0 (sample_hold 9))) else None)" for key
    by (simp add: held_one_def upd_apply empty_ledger_def)
  have none: "held_one kind key = None" if "searched_of Runtime kind \<noteq> None" "kind \<noteq> ''held''" for kind key
    using that by (auto simp: held_one_def upd_apply empty_ledger_def split: if_splits)
  have es: "bytes_entries plain_codec plain_rules Runtime ''held'' (held_one ''held'' (entry_key 7 0)) = Inr ?es" "distinct (map fst ?es)"
    by (simp_all add: at held_entries [OF sample_held_back] Let_def)
  obtain es where in_es: "bytes_entries plain_codec plain_rules Runtime ''held'' (held_one ''held'' (entry_key 7 0)) = Inr es"
      "?es = es" using es(1) by blast
  have "place_entries plain_codec plain_rules Runtime held_one kind key =
      (if kind = ''held'' \<and> key = entry_key 7 0 then set ?es else {})" for kind key
  proof (cases "kind = ''held'' \<and> key = entry_key 7 0")
    case True
    then show ?thesis unfolding in_es(2) using in_es(1) by (simp only: place_entries_def sum.case simp_thms if_True)
  next
    case False
    have "bytes_entries plain_codec plain_rules Runtime kind (held_one kind key) = Inr []"
    proof (cases "searched_of Runtime kind = None")
      case False
      then have "held_one kind key = None" using \<open>\<not> (kind = ''held'' \<and> key = entry_key 7 0)\<close> none [of kind key] at [of key] by (cases "kind = ''held''") auto
      then show ?thesis by (simp add: bytes_entries_def split: option.splits)
    qed (simp add: bytes_entries_def)
    then show ?thesis unfolding if_not_P [OF False] by (simp add: place_entries_def)
  qed
  then show ?thesis using es(2) by (simp add: index_exact_def held_one_index_def)
qed

theorem held_page_is_the_queue_witness:
  "\<exists>count. read_held plain_codec (Inr held_one_view) 7 (0, 10) 500 = Inr \<lparr>hq_first = 0, hq_next = next_place plain_codec held_one 7,
     hq_count = count, hq_held = [newly_held 0 (sample_hold 9)], hq_read_unix_nanos = 500\<rparr> \<and> unat count = 1"
proof -
  have "held_keyed held_one"
    by (auto simp: held_keyed_def held_one_def upd_apply empty_ledger_def split: if_splits)
  moreover have "view_of held_one_view held_one held_one_index" by (simp add: view_of_def held_one_view_def)
  ultimately show ?thesis
    using held_page_is_the_queue [of plain_codec held_one plain_rules held_one_index held_one_view 7 0 10 500]
      held_one_inv held_one_exact by (simp add: held_one_waiting newly_held_def)
qed

end
