(* ===== verification/Due.thy ===== *)
theory Due
  imports Page "HOL-Library.Product_Lexorder"
begin

text \<open>
  A Send Port's queue read by when each Message in it is due (\<open>src/.src/storage/due.rs\<close>): an index
  keeps each held Message by its queue, whether it failed, when it is due and its place, and each
  queue keeps where its first entries by when they are due are, so a read of a part starts there.

  A read of a part is shown to be that part of what the queue holds, in its order, wherever the
  places kept are at or before the firsts (\<open>due_inv\<close>).
\<close>

section \<open>What is kept, and what is read\<close>

datatype due_part = DueNow | DueWaiting | DueFailed

record due_queue =
  dr_held :: "held list"
  dr_retrying :: u64
  dr_next_due_unix_nanos :: "i128 option"
  dr_read_unix_nanos :: i128

record due_places =
  du_fresh :: u64
  du_retry :: "u64 \<times> u64"
  du_retrying :: u64

definition default_due :: due_places where
  "default_due = \<lparr>du_fresh = 0, du_retry = (1, 0), du_retrying = 0\<rparr>"

definition due_places_kind :: kind where "due_places_kind = ''held-due-places''"
definition held_due :: "string \<times> string" where "held_due = (''held'', ''held_due'')"

definition w_due_places :: "codec \<Rightarrow> due_places \<Rightarrow> bytes" where
  "w_due_places c x = w_u64 c (du_fresh x) @ w_u64 c (fst (du_retry x)) @ w_u64 c (snd (du_retry x)) @ w_u64 c (du_retrying x)"

definition r_due_places :: "codec \<Rightarrow> due_places reader" where
  "r_due_places c =
     andr (r_u64 c) (\<lambda>fresh.
     andr (r_u64 c) (\<lambda>due.
     andr (r_u64 c) (\<lambda>spot.
     andr (r_u64 c) (\<lambda>retrying.
     ret \<lparr>du_fresh = fresh, du_retry = (due, spot), du_retrying = retrying\<rparr>))))"

sublocale codec_laws \<subseteq> due_places: form "w_due_places c" "r_due_places c" "\<lambda>_. True"
proof
  show "r_due_places c (w_due_places c x @ rest) = Inr (x, rest)" for x rest
    by (cases x; cases "du_retry x") (simp add: r_due_places_def w_due_places_def)
qed simp

definition w_due_part :: "codec \<Rightarrow> due_part \<Rightarrow> bytes" where
  "w_due_part c p = w_byte c (case p of DueNow \<Rightarrow> 0 | DueWaiting \<Rightarrow> 1 | DueFailed \<Rightarrow> 2)"

definition r_due_part :: "codec \<Rightarrow> due_part reader" where
  "r_due_part c = andr (r_byte c) (\<lambda>b. if b = 0 then ret DueNow else if b = 1 then ret DueWaiting
     else if b = 2 then ret DueFailed else refuse (''no part of a queue is numbered '' @ digits (unat b)))"

sublocale codec_laws \<subseteq> due_part: form "w_due_part c" "r_due_part c" "\<lambda>_. True"
proof
  show "r_due_part c (w_due_part c x @ rest) = Inr (x, rest)" for x rest
    by (cases x) (simp_all add: r_due_part_def w_due_part_def andr_def)
qed simp

definition w_due_queue :: "codec \<Rightarrow> due_queue \<Rightarrow> bytes" where
  "w_due_queue c x =
     w_list c (w_held c) (dr_held x) @
     w_u64 c (dr_retrying x) @
     w_due c (dr_next_due_unix_nanos x) @
     w_i128 c (dr_read_unix_nanos x)"

definition r_due_queue :: "codec \<Rightarrow> due_queue reader" where
  "r_due_queue c =
     andr (r_list c (r_held c)) (\<lambda>held.
     andr (r_u64 c) (\<lambda>retrying.
     andr (r_due c) (\<lambda>next_due_unix_nanos.
     andr (r_i128 c) (\<lambda>read_unix_nanos.
     ret \<lparr>dr_held = held, dr_retrying = retrying, dr_next_due_unix_nanos = next_due_unix_nanos,
       dr_read_unix_nanos = read_unix_nanos\<rparr>))))"

definition fit_due_queue :: "codec \<Rightarrow> due_queue \<Rightarrow> bool" where
  "fit_due_queue c x \<longleftrightarrow> fit_list c (fit_held c) (dr_held x)"

sublocale codec_laws \<subseteq> due_queue: form "w_due_queue c" "r_due_queue c" "fit_due_queue c"
proof
  show "r_due_queue c (w_due_queue c x @ rest) = Inr (x, rest)" if "fit_due_queue c x" for x rest
    using that by (cases x) (simp add: r_due_queue_def w_due_queue_def fit_due_queue_def held_list.read_write)
  show "fit_due_queue c x" if "r_due_queue c bs = Inr (x, rest)" for bs x rest
    using that by (auto simp: r_due_queue_def andr_eq_Inr fit_due_queue_def intro: form_wf held_list.read_fit)
qed

text \<open>How long one read, or the earliest retry, still waits; where a read of the part goes on.\<close>

definition due_queue_due_in :: "due_queue \<Rightarrow> held \<Rightarrow> u64 option" where
  "due_queue_due_in queue held = due_in held (dr_read_unix_nanos queue)"

definition next_due_in :: "due_queue \<Rightarrow> u64 option" where
  "next_due_in queue = (case dr_next_due_unix_nanos queue of None \<Rightarrow> None
   | Some due \<Rightarrow> let left = sint (due - dr_read_unix_nanos queue)
       in Some (if 0 \<le> left \<and> left < 2 ^ 64 then word_of_int left else 0))"

definition due_after :: "held \<Rightarrow> u64 \<times> u64" where
  "due_after held = (due_at held, u64_add (he_sequence held) 1)"

section \<open>Ranges of the index\<close>

definition region_pair :: "u64 list \<times> u128 \<Rightarrow> (u64 \<times> u64) result" where
  "region_pair vr = (case fst vr of [due, spot] \<Rightarrow> Inr (due, spot)
     | _ \<Rightarrow> Inl (malformed ''a held_due entry that is not a due time and a place''))"

definition region :: "index_scan \<Rightarrow> u128 \<times> bool \<Rightarrow> u64 \<times> u64 \<Rightarrow> u64 \<Rightarrow> nat \<Rightarrow> (u64 \<times> u64) list result" where
  "region scan qf from to at_most = (let (queue, failed) = qf in
     bindr (find_ordered Runtime scan held_due [VId queue, VFlag failed] ([fst from, snd from], to) at_most) (each region_pair))"

definition decode_due :: "codec \<Rightarrow> bytes option \<Rightarrow> due_places result" where
  "decode_due c v = (case v of None \<Rightarrow> Inr default_due | Some bs \<Rightarrow> from_bytes c (r_due_places c) bs)"

definition kept_due :: "codec \<Rightarrow> store_get \<Rightarrow> u128 \<Rightarrow> due_places result" where
  "kept_due c get queue = bindr (get due_places_kind (places_key queue)) (decode_due c)"

section \<open>A read of a part\<close>

definition found_in :: "index_scan \<Rightarrow> due_places \<Rightarrow> u128 \<times> due_part \<Rightarrow> (u64 \<times> u64) \<times> nat \<Rightarrow> u64 \<Rightarrow> (u64 \<times> u64) list result" where
  "found_in scan ps qp fm at = (let (queue, part) = qp; (from, at_most) = fm in case part of
     DueNow \<Rightarrow>
       bindr (if fst from = 0 then region scan (queue, False) (0, max (snd from) (du_fresh ps)) 0 at_most else Inr []) (\<lambda>found.
       let start = max from (du_retry ps) in
       if length found < at_most \<and> fst start \<le> at
       then bindr (region scan (queue, False) start at (at_most - length found)) (\<lambda>more. Inr (found @ more))
       else Inr found)
   | DueWaiting \<Rightarrow> region scan (queue, False) (max from (max (u64_add at 1, 0) (du_retry ps))) (- 1) at_most
   | DueFailed \<Rightarrow> region scan (queue, True) from (- 1) at_most)"

definition read_due :: "codec \<Rightarrow> store_get \<Rightarrow> index_scan \<Rightarrow> u128 \<times> due_part \<Rightarrow> (u64 \<times> u64) \<times> u32 \<Rightarrow> i128 \<Rightarrow> due_queue result" where
  "read_due c get scan qp fm now =
     bindr (kept_due c get (fst qp)) (\<lambda>ps. let at = nanos now in
     bindr (found_in scan ps qp (fst fm, unat (snd fm)) at) (\<lambda>found.
     bindr (region scan (fst qp, False) (max (u64_add at 1, 0) (du_retry ps)) (- 1) 1) (\<lambda>nxt.
     bindr (each (\<lambda>(_, spot). bindr (get (k_entry hold_kinds) (entry_key (fst qp) spot)) (map_maybe (from_bytes c (r_held c)))) found) (\<lambda>hs.
       Inr \<lparr>dr_held = List.map_filter id hs, dr_retrying = du_retrying ps,
         dr_next_due_unix_nanos = (case nxt of [] \<Rightarrow> None | (due, _) # _ \<Rightarrow> Some (word_of_nat (unat due))),
         dr_read_unix_nanos = now\<rparr>))))"

section \<open>The index by when each is due\<close>

text \<open>When a held Message is due, and its place: the order the index keeps a part in.\<close>

definition when_due :: "held \<Rightarrow> u64 \<times> u64" where
  "when_due h = (due_at h, he_sequence h)"

definition dues_of :: "codec \<Rightarrow> ledger \<Rightarrow> u128 \<Rightarrow> bool \<Rightarrow> u64 \<times> u64 \<Rightarrow> u128 option" where
  "dues_of c L q f ds = Option.bind (entries_of hold_kinds L q (snd ds)) (\<lambda>v. let h = held_at c v in
     if he_failed h = f \<and> due_at h = fst ds then Some (held_id h) else None)"

definition flag_byte :: "bool \<Rightarrow> bytes" where
  "flag_byte f = [if f then 1 else 0]"

lemma flag_byte_inject [simp]: "flag_byte f @ k = flag_byte g @ k' \<longleftrightarrow> f = g \<and> k = k'"
  by (auto simp: flag_byte_def split: if_splits)

lemma due_prefix:
  "index_prefix Runtime held_due [VId q, VFlag f] =
    Inr (index_of_columns 23 ''held_due'' [''queue'', ''failed'', ''due_at'', ''sequence''], 23 # be128 q @ flag_byte f)"
  by (simp add: index_prefix_def held_due_def table_of_def index_named_def tables_def held_indexes_def index_of_columns_def
      versions_name_def flag_byte_def)

lemma due_keys:
  assumes inv: "\<forall>q. hold_inv c L q" and keyed: "held_keyed L" and exact: "index_exact c x Runtime L X"
  shows "X ((23 # be128 q @ flag_byte f) @ k) = Some r \<longleftrightarrow>
    (\<exists>ds. k = be64 (fst ds) @ be64 (snd ds) @ be128 r \<and> dues_of c L q f ds = Some r)"
proof
  assume "X ((23 # be128 q @ flag_byte f) @ k) = Some r"
  then obtain kind key where in_L: "(23 # be128 q @ flag_byte f @ k, r) \<in> place_entries c x Runtime L kind key"
    using exact by (auto simp: index_exact_def)
  then obtain s t where "searched_of Runtime kind = Some s" "table_of Runtime (table_word s) = Some t"
      "23 \<in> set (map ix_number (ta_indexes t))"
    using entry_number [OF in_L] by blast
  with table_of_searched [of kind s] have kind: "kind = ''held''" by auto
  then obtain bs where bs: "L ''held'' key = Some bs"
    using in_L by (cases "L ''held'' key") (auto simp: place_entries_def bytes_entries_def split: option.splits)
  then obtain q' s' where key: "key = entry_key q' s'" using keyed by (auto simp: held_keyed_def)
  then have e: "entries_of hold_kinds L q' s' = Some bs" using bs by (simp add: entries_of_def hold_kinds_def)
  then have h: "from_bytes c (r_held c) bs = Inr (held_at c bs)" "he_sequence (held_at c bs) = s'"
      "ho_queue (he_hold (held_at c bs)) = q'"
    using hold_inv_parts(2) [of c L q'] inv by (auto simp: held_well_def)
  from in_L show "\<exists>ds. k = be64 (fst ds) @ be64 (snd ds) @ be128 r \<and> dues_of c L q f ds = Some r"
    unfolding place_entries_def kind key bs [unfolded key] held_entries [OF h(1), of x] using h(2,3) e
    by (auto simp: Let_def flag_byte_def [symmetric] append_eq_Cons_conv dues_of_def split: if_splits)
next
  assume "\<exists>ds. k = be64 (fst ds) @ be64 (snd ds) @ be128 r \<and> dues_of c L q f ds = Some r"
  then obtain d s bs where s: "k = be64 d @ be64 s @ be128 r" "L ''held'' (entry_key q s) = Some bs"
      "he_failed (held_at c bs) = f" "due_at (held_at c bs) = d" "held_id (held_at c bs) = r"
    by (auto simp: dues_of_def entries_of_def Option.bind_eq_Some_conv hold_kinds_def Let_def split: if_splits)
  then have "entries_of hold_kinds L q s = Some bs" by (simp add: entries_of_def hold_kinds_def)
  then have h: "from_bytes c (r_held c) bs = Inr (held_at c bs)" "he_sequence (held_at c bs) = s"
      "ho_queue (he_hold (held_at c bs)) = q"
    using hold_inv_parts(2) [of c L q] inv by (auto simp: held_well_def)
  have "(23 # be128 q @ flag_byte f @ k, r) \<in> place_entries c x Runtime L ''held'' (entry_key q s)"
    unfolding place_entries_def s(2) held_entries [OF h(1), of x] using s h by (auto simp: Let_def flag_byte_def)
  then show "X ((23 # be128 q @ flag_byte f) @ k) = Some r" using exact by (auto simp: index_exact_def)
qed

text \<open>Where an index's keys after a prefix are two numbers and an identifier, a range of them is of pairs.\<close>

lemma pair_le: "be64 a @ be64 b @ us \<le> be64 d @ be64 s @ vs \<longleftrightarrow> (a, b) < (d, s) \<or> (a, b) = (d, s) \<and> us \<le> vs"
  by (auto simp: be64_append_le less_prod_def)

lemma between_pairs:
  assumes F: "\<And>k r. X (pre @ k) = Some r \<longleftrightarrow> (\<exists>ds. k = be64 (fst ds) @ be64 (snd ds) @ be128 r \<and> F ds = Some r)"
    and fin: "finite (dom F)"
  shows "between X (pre @ be64 (fst from) @ be64 (snd from)) (pre @ be64 to @ replicate 25 0xFF) n False =
    map (\<lambda>ds. (pre @ be64 (fst ds) @ be64 (snd ds) @ be128 (the (F ds)), the (F ds)))
      (take n (sorted_list_of_set {ds \<in> dom F. from \<le> ds \<and> fst ds \<le> to}))"
proof -
  let ?key = "\<lambda>ds. pre @ be64 (fst ds) @ be64 (snd ds) @ be128 (the (F ds))"
  let ?P = "{ds \<in> dom F. from \<le> ds \<and> fst ds \<le> to}"
  let ?lo = "be64 (fst from) @ be64 (snd from)" and ?hi = "be64 to @ replicate 25 0xFF"
  have rest: "be64 s @ be128 r \<le> replicate 25 0xFF" for s r by (rule le_all_ones) simp
  have in_range: "?lo \<le> be64 (fst ds) @ be64 (snd ds) @ be128 r \<and> be64 (fst ds) @ be64 (snd ds) @ be128 r \<le> ?hi \<longleftrightarrow>
      from \<le> ds \<and> fst ds \<le> to" for ds r
  proof
    have "?lo \<le> be64 (fst ds) @ be64 (snd ds) @ be128 r \<longleftrightarrow> from < ds \<or> from = ds"
      using pair_le [of "fst from" "snd from" "[]" "fst ds" "snd ds" "be128 r"] by simp
    moreover have "be64 (fst ds) @ be64 (snd ds) @ be128 r \<le> ?hi \<longleftrightarrow> fst ds < to \<or> fst ds = to"
      using rest [of "snd ds" r] by (simp add: be64_append_le)
    ultimately show "?lo \<le> be64 (fst ds) @ be64 (snd ds) @ be128 r \<and> be64 (fst ds) @ be64 (snd ds) @ be128 r \<le> ?hi \<Longrightarrow>
        from \<le> ds \<and> fst ds \<le> to" "from \<le> ds \<and> fst ds \<le> to \<Longrightarrow>
        ?lo \<le> be64 (fst ds) @ be64 (snd ds) @ be128 r \<and> be64 (fst ds) @ be64 (snd ds) @ be128 r \<le> ?hi"
      by (auto simp: le_less)
  qed
  have "{k \<in> dom X. pre @ ?lo \<le> k \<and> k \<le> pre @ ?hi} = ?key ` ?P" (is "?A = ?B")
  proof (intro equalityI subsetI)
    fix k assume "k \<in> ?A"
    then obtain r where k: "X k = Some r" "pre @ ?lo \<le> k" "k \<le> pre @ ?hi" by auto
    obtain k' where k': "k = pre @ k'" "?lo \<le> k'" "k' \<le> ?hi" by (rule between_append [OF k(2,3)])
    then obtain ds where ds: "k' = be64 (fst ds) @ be64 (snd ds) @ be128 r" "F ds = Some r" using F k(1) by auto
    then show "k \<in> ?B" using k' in_range [of ds r] by (intro image_eqI [of _ _ ds]) auto
  next
    fix k assume "k \<in> ?B"
    then obtain ds r where ds: "k = ?key ds" "F ds = Some r" "from \<le> ds" "fst ds \<le> to" by auto
    moreover have "X k = Some r" using ds(1,2) by (auto simp: F)
    ultimately show "k \<in> ?A" using in_range [of ds r] by (auto simp: append_le_append simp del: append_assoc)
  qed
  moreover have "sorted_list_of_set (?key ` ?P) = map ?key (sorted_list_of_set ?P)"
  proof (rule sorted_image)
    show "?key ds \<le> ?key ds' \<longleftrightarrow> ds \<le> ds'" if "ds \<in> ?P" "ds' \<in> ?P" for ds ds'
    proof -
      have "?key ds \<le> ?key ds' \<longleftrightarrow> ds < ds' \<or> ds = ds'"
        unfolding append_le_append pair_le by auto
      then show ?thesis by (simp only: le_less)
    qed
  qed (rule finite_subset [OF _ fin], blast)
  moreover have "map (\<lambda>ds. (?key ds, the (X (?key ds)))) (take n (sorted_list_of_set ?P)) =
      map (\<lambda>ds. (?key ds, the (F ds))) (take n (sorted_list_of_set ?P))"
  proof (intro map_cong refl)
    fix ds assume "ds \<in> set (take n (sorted_list_of_set ?P))"
    moreover have "finite ?P" by (rule finite_subset [OF _ fin]) blast
    ultimately obtain r where "F ds = Some r" by (auto dest!: in_set_takeD)
    then have "F ds = Some r" "X (?key ds) = Some r" using F [of "be64 (fst ds) @ be64 (snd ds) @ be128 r" r] by auto
    then show "(?key ds, the (X (?key ds))) = (?key ds, the (F ds))" by simp
  qed
  ultimately show ?thesis by (simp add: between_def take_map comp_def)
qed

text \<open>A region is what the queue holds of its part there, by when each is due.\<close>

definition dues_from :: "codec \<Rightarrow> ledger \<Rightarrow> u128 \<Rightarrow> bool \<Rightarrow> u64 \<times> u64 \<Rightarrow> u64 \<Rightarrow> (u64 \<times> u64) list" where
  "dues_from c L q f from to = sorted_list_of_set {ds \<in> dom (dues_of c L q f). from \<le> ds \<and> fst ds \<le> to}"

lemma finite_pairs [simp]: "finite (A :: (u64 \<times> u64) set)"
  by (rule finite_subset [OF subset_UNIV]) simp

lemma eights_pair [simp]: "eights (be64 d @ be64 s) = [d, s]"
  by (simp add: eights.simps [of "be64 d @ be64 s"]) 

lemma region_is:
  assumes inv: "\<forall>q. hold_inv c L q" and keyed: "held_keyed L" and exact: "index_exact c x Runtime L X"
    and scan: "\<And>lo hi n b. scan lo hi n b = Inr (between X lo hi n b)"
  shows "region scan (q, f) from to n = Inr (take n (dues_from c L q f from to))"
proof -
  let ?ix = "index_of_columns 23 ''held_due'' [''queue'', ''failed'', ''due_at'', ''sequence'']"
  let ?pre = "23 # be128 q @ flag_byte f"
  let ?ds = "take n (dues_from c L q f from to)"
  let ?F = "dues_of c L q f"
  show ?thesis
  proof (cases "fst from \<le> to")
    case False
    then have "dues_from c L q f from to = []" by (auto simp: dues_from_def less_eq_prod_def)
    then show ?thesis
      using False by (simp add: region_def find_ordered_def due_prefix index_of_columns_def not_le)
  next
    case True
    have "between X (?pre @ be64 (fst from) @ be64 (snd from)) (?pre @ be64 to @ replicate 25 0xFF) n False =
        map (\<lambda>ds. (?pre @ be64 (fst ds) @ be64 (snd ds) @ be128 (the (?F ds)), the (?F ds))) ?ds"
      unfolding dues_from_def by (rule between_pairs [OF due_keys [OF inv keyed exact]]) simp
    moreover have "each (entry_values ?ix ?pre 2)
        (map (\<lambda>ds. (?pre @ be64 (fst ds) @ be64 (snd ds) @ be128 (the (?F ds)), the (?F ds))) ?ds) =
        Inr (map (\<lambda>ds. ([fst ds, snd ds], the (?F ds))) ?ds)"
      by (auto simp: each_eq_Inr list_all2_map1 list_all2_map2 list_all2_same entry_values_def flag_byte_def)
    moreover have "each region_pair (map (\<lambda>ds. ([fst ds, snd ds], the (?F ds))) ?ds) = Inr ?ds"
      by (simp add: each_eq_Inr list_all2_map1 region_pair_def list_all2_same)
    moreover have "\<not> to < fst from" using True by (simp add: not_less)
    ultimately show ?thesis
      using scan by (simp add: region_def find_ordered_def due_prefix index_of_columns_def numeral_2_eq_2)
  qed
qed

section \<open>What a queue holds by when each is due\<close>

definition retrying :: "held \<Rightarrow> bool" where
  "retrying h \<longleftrightarrow> he_due_unix_nanos h \<noteq> None \<and> \<not> he_failed h"

definition due_list :: "codec \<Rightarrow> ledger \<Rightarrow> u128 \<Rightarrow> bool \<Rightarrow> held list" where
  "due_list c L q f = sort_key when_due (filter (\<lambda>h. he_failed h = f) (waiting c L q))"

definition due_spec :: "codec \<Rightarrow> ledger \<Rightarrow> u128 \<Rightarrow> due_part \<Rightarrow> u64 \<times> u64 \<Rightarrow> u64 \<Rightarrow> held list" where
  "due_spec c L q part from at = (case part of
     DueNow \<Rightarrow> filter (\<lambda>h. from \<le> when_due h \<and> due_at h \<le> at) (due_list c L q False)
   | DueWaiting \<Rightarrow> filter (\<lambda>h. from \<le> when_due h \<and> u64_add at 1 \<le> due_at h) (due_list c L q False)
   | DueFailed \<Rightarrow> filter (\<lambda>h. from \<le> when_due h) (due_list c L q True))"

text \<open>The places a queue keeps are at or before its firsts, and it counts its retries.\<close>

definition due_of :: "codec \<Rightarrow> ledger \<Rightarrow> u128 \<Rightarrow> due_places" where
  "due_of c L q = (case decode_due c (L due_places_kind (places_key q)) of Inr ps \<Rightarrow> ps | Inl e \<Rightarrow> default_due)"

definition due_places_ok :: "held list \<Rightarrow> due_places \<Rightarrow> bool" where
  "due_places_ok hs ps \<longleftrightarrow>
     (\<forall>h \<in> set hs. \<not> he_failed h \<longrightarrow> (if due_at h = 0 then du_fresh ps \<le> he_sequence h else du_retry ps \<le> when_due h)) \<and>
     1 \<le> fst (du_retry ps) \<and> unat (du_retrying ps) = length (filter retrying hs)"

definition due_inv :: "codec \<Rightarrow> ledger \<Rightarrow> u128 \<Rightarrow> bool" where
  "due_inv c L q \<longleftrightarrow> decode_due c (L due_places_kind (places_key q)) = Inr (due_of c L q) \<and>
     due_places_ok (waiting c L q) (due_of c L q)"

lemma waiting_distinct: "hold_inv c L q \<Longrightarrow> distinct (map he_sequence (waiting c L q))"
proof -
  assume inv: "hold_inv c L q"
  have "map he_sequence (waiting c L q) = sorted_list_of_set (dom (entries_of hold_kinds L q))"
    unfolding waiting_by_place map_map by (rule map_idI) (simp add: waiting_sequence [OF inv])
  then show ?thesis by simp
qed

lemma waiting_at: "hold_inv c L q \<Longrightarrow> h \<in> set (waiting c L q) \<Longrightarrow>
    \<exists>v. entries_of hold_kinds L q (he_sequence h) = Some v \<and> from_bytes c (r_held c) v = Inr h \<and> held_at c v = h \<and>
      ho_queue (he_hold h) = q"
  using hold_inv_parts(2) [of c L q] by (fastforce simp: waiting_by_place held_well_def)

lemma at_waiting: "entries_of hold_kinds L q s = Some v \<Longrightarrow> held_at c v \<in> set (waiting c L q)"
  by (force simp: waiting_by_place)

lemma when_inj: "hold_inv c L q \<Longrightarrow> inj_on when_due (set (waiting c L q))"
  using waiting_distinct [of c L q] by (auto simp: inj_on_def when_due_def distinct_map)

lemma dom_dues:
  assumes "hold_inv c L q"
  shows "dom (dues_of c L q f) = when_due ` {h \<in> set (waiting c L q). he_failed h = f}"
proof (intro equalityI subsetI)
  fix ds assume "ds \<in> dom (dues_of c L q f)"
  then obtain v where v: "entries_of hold_kinds L q (snd ds) = Some v" "he_failed (held_at c v) = f" "due_at (held_at c v) = fst ds"
    by (auto simp: dues_of_def Option.bind_eq_Some_conv Let_def split: if_splits)
  then have "he_sequence (held_at c v) = snd ds" using hold_inv_parts(2) [OF assms] by (auto simp: held_well_def)
  then show "ds \<in> when_due ` {h \<in> set (waiting c L q). he_failed h = f}"
    using v at_waiting [OF v(1)] by (intro image_eqI [of _ _ "held_at c v"]) (auto simp: when_due_def)
next
  fix ds assume "ds \<in> when_due ` {h \<in> set (waiting c L q). he_failed h = f}"
  then obtain h where h: "h \<in> set (waiting c L q)" "he_failed h = f" "ds = when_due h" by auto
  with waiting_at [OF assms h(1)] show "ds \<in> dom (dues_of c L q f)"
    by (auto simp: dues_of_def when_due_def Let_def)
qed

lemma sorted_pairs_of_filter:
  "sorted_list_of_set {s \<in> A. P s} = filter P (sorted_list_of_set (A :: (u64 \<times> u64) set))"
  using strict_sorted_equal [of "sorted_list_of_set {s \<in> A. P s}" "filter P (sorted_list_of_set A)"]
  by (simp add: sorted_wrt_filter)

lemma due_list_pairs:
  assumes "hold_inv c L q"
  shows "sorted_list_of_set (dom (dues_of c L q f)) = map when_due (due_list c L q f)"
proof -
  have "distinct (waiting c L q)" using waiting_distinct [OF assms] distinct_map by blast
  then have "distinct (map when_due (due_list c L q f))"
    using when_inj [OF assms] by (auto simp: due_list_def distinct_map inj_on_def)
  moreover have "sorted (map when_due (due_list c L q f))" by (simp add: due_list_def)
  moreover have "set (map when_due (due_list c L q f)) = dom (dues_of c L q f)"
    by (simp add: dom_dues [OF assms] due_list_def)
  ultimately show ?thesis by (metis sorted_list_of_set.idem_if_sorted_distinct)
qed

lemma dues_from_list:
  assumes "hold_inv c L q"
  shows "dues_from c L q f from to = map when_due (filter (\<lambda>h. from \<le> when_due h \<and> due_at h \<le> to) (due_list c L q f))"
  by (simp add: dues_from_def sorted_pairs_of_filter due_list_pairs [OF assms] filter_map comp_def)
    (simp add: when_due_def)

lemma filter_sorted_split:
  assumes "sorted (map k xs)" and "\<And>x y. k x \<le> k y \<Longrightarrow> P y \<Longrightarrow> P x"
  shows "filter Q xs = filter (\<lambda>x. Q x \<and> P x) xs @ filter (\<lambda>x. Q x \<and> \<not> P x) xs"
  using assms(1)
proof (induction xs)
  case (Cons x xs)
  show ?case
  proof (cases "P x")
    case False
    then have "\<not> P y" if "y \<in> set xs" for y using Cons.prems assms(2) that by auto
    then have "filter (\<lambda>x. Q x \<and> P x) xs = []" by auto
    then show ?thesis using Cons False by simp
  qed (use Cons in simp)
qed simp

lemma due_spec_splits:
  "due_spec c L q DueNow from at =
     filter (\<lambda>h. (from \<le> when_due h \<and> due_at h \<le> at) \<and> due_at h = 0) (due_list c L q False) @
     filter (\<lambda>h. (from \<le> when_due h \<and> due_at h \<le> at) \<and> due_at h \<noteq> 0) (due_list c L q False)"
proof -
  have "sorted (map when_due (due_list c L q False))" by (simp add: due_list_def)
  moreover have "when_due x \<le> when_due y \<Longrightarrow> due_at y = 0 \<Longrightarrow> due_at x = 0" for x y
    by (auto simp: when_due_def less_eq_prod_def)
  ultimately show ?thesis
    unfolding due_spec_def due_part.case by (rule filter_sorted_split [where P = "\<lambda>h. due_at h = 0" and k = when_due])
qed

section \<open>A read of a part is the part\<close>

lemma take_append_rest: "take n xs @ take (n - length (take n xs)) ys = take n (xs @ ys)"
  by (cases "length xs \<le> n") (simp_all add: min_def)

lemma found_is:
  assumes inv: "\<forall>q. hold_inv c L q" and keyed: "held_keyed L" and exact: "index_exact c x Runtime L X"
    and scan: "\<And>lo hi n b. scan lo hi n b = Inr (between X lo hi n b)"
    and ok: "due_places_ok (waiting c L q) ps"
  shows "found_in scan ps (q, part) (from, n) at = Inr (map when_due (take n (due_spec c L q part from at)))"
proof -
  note region = region_is [OF inv keyed exact scan, unfolded dues_from_list [OF inv [rule_format]]]
  have in_list: "h \<in> set (waiting c L q) \<and> he_failed h = f" if "h \<in> set (due_list c L q f)" for h f
    using that by (simp add: due_list_def)
  have fresh: "du_fresh ps \<le> he_sequence h" if "h \<in> set (due_list c L q False)" "due_at h = 0" for h
    using in_list [OF that(1)] that(2) ok by (auto simp: due_places_ok_def)
  have retry: "du_retry ps \<le> when_due h" if "h \<in> set (due_list c L q False)" "due_at h \<noteq> 0" for h
    using in_list [OF that(1)] that(2) ok by (auto simp: due_places_ok_def)
  have one: "1 \<le> fst (du_retry ps)" using ok by (simp add: due_places_ok_def)
  show ?thesis
  proof (cases part)
    case DueNow
    let ?A = "filter (\<lambda>h. (from \<le> when_due h \<and> due_at h \<le> at) \<and> due_at h = 0) (due_list c L q False)"
    let ?B = "filter (\<lambda>h. (from \<le> when_due h \<and> due_at h \<le> at) \<and> due_at h \<noteq> 0) (due_list c L q False)"
    have A: "(if fst from = 0 then region scan (q, False) (0, max (snd from) (du_fresh ps)) 0 n else Inr []) =
        Inr (map when_due (take n ?A))"
    proof (cases "fst from = 0")
      case True
      then have "filter (\<lambda>h. (0, max (snd from) (du_fresh ps)) \<le> when_due h \<and> due_at h \<le> 0) (due_list c L q False) = ?A"
        using fresh by (intro filter_cong refl) (cases "from", auto simp: when_due_def less_eq_prod_def)
      then show ?thesis using True by (simp add: region take_map)
    next
      case False
      then have "?A = []" by (auto simp: filter_empty_conv when_due_def less_eq_prod_def)
      with False show ?thesis by simp
    qed
    have B: "(if length (take n ?A) < n \<and> fst (max from (du_retry ps)) \<le> at
        then region scan (q, False) (max from (du_retry ps)) at (n - length (take n ?A)) else Inr []) =
        Inr (map when_due (take (n - length (take n ?A)) ?B))"
    proof (cases "length (take n ?A) < n \<and> fst (max from (du_retry ps)) \<le> at")
      case True
      have "filter (\<lambda>h. max from (du_retry ps) \<le> when_due h \<and> due_at h \<le> at) (due_list c L q False) = ?B"
      proof (intro filter_cong refl)
        fix h assume h: "h \<in> set (due_list c L q False)"
        have "\<not> du_retry ps \<le> when_due h" if "due_at h = 0"
          using one that by (auto simp: when_due_def less_eq_prod_def)
        then show "(max from (du_retry ps) \<le> when_due h \<and> due_at h \<le> at) =
            ((from \<le> when_due h \<and> due_at h \<le> at) \<and> due_at h \<noteq> 0)"
          using retry [OF h] by auto
      qed
      then show ?thesis unfolding if_P [OF True] region by (simp add: take_map)
    next
      case False
      have "take (n - length (take n ?A)) ?B = []"
      proof (cases "length (take n ?A) < n")
        case True
        have "?B = []"
        proof (rule ccontr)
          assume "?B \<noteq> []"
          then obtain h where h: "h \<in> set (due_list c L q False)" "from \<le> when_due h" "due_at h \<le> at" "due_at h \<noteq> 0"
            by (auto simp: filter_empty_conv)
          then have "max from (du_retry ps) \<le> when_due h" using retry [OF h(1)] by simp
          then have "fst (max from (du_retry ps)) \<le> due_at h" by (auto simp: when_due_def less_eq_prod_def)
          then show False using False True h(3) by auto
        qed
        then show ?thesis by simp
      qed simp
      then show ?thesis unfolding if_not_P [OF False] by simp
    qed
    have "found_in scan ps (q, DueNow) (from, n) at = bindr (Inr (map when_due (take n ?A))) (\<lambda>found.
        bindr (if length found < n \<and> fst (max from (du_retry ps)) \<le> at
          then region scan (q, False) (max from (du_retry ps)) at (n - length found) else Inr []) (\<lambda>more. Inr (found @ more)))"
      using A by (simp add: found_in_def Let_def)
    also have "\<dots> = Inr (map when_due (take n ?A) @ map when_due (take (n - length (take n ?A)) ?B))"
      unfolding bindr_simps length_map B ..
    also have "map when_due (take n ?A) @ map when_due (take (n - length (take n ?A)) ?B) =
        map when_due (take n (due_spec c L q DueNow from at))"
      by (simp only: due_spec_splits map_append [symmetric] take_append_rest)
    finally show ?thesis by (simp add: DueNow)
  next
    case DueWaiting
    have "filter (\<lambda>h. max from (max (u64_add at 1, 0) (du_retry ps)) \<le> when_due h \<and> due_at h \<le> - 1) (due_list c L q False) =
        filter (\<lambda>h. from \<le> when_due h \<and> u64_add at 1 \<le> due_at h) (due_list c L q False)"
    proof (intro filter_cong refl)
      fix h assume h: "h \<in> set (due_list c L q False)"
      have "at + 1 \<noteq> 0" if "unat at + 1 < 2 ^ 64"
        using that by (simp add: unat_eq_0 [symmetric] unat_word_ariths del: unat_eq_0)
      then have "u64_add at 1 \<noteq> 0" by (simp add: u64_add_def)
      then have "u64_add at 1 \<le> due_at h \<Longrightarrow> due_at h \<noteq> 0" by auto
      moreover have "(u64_add at 1, 0) \<le> when_due h \<longleftrightarrow> u64_add at 1 \<le> due_at h"
        by (auto simp: when_due_def less_eq_prod_def)
      ultimately show "(max from (max (u64_add at 1, 0) (du_retry ps)) \<le> when_due h \<and> due_at h \<le> - 1) =
          (from \<le> when_due h \<and> u64_add at 1 \<le> due_at h)"
        using retry [OF h] by auto
    qed
    then show ?thesis by (simp add: DueWaiting found_in_def region due_spec_def take_map)
  qed (simp add: found_in_def region due_spec_def take_map)
qed

lemma due_spec_waiting: "h \<in> set (due_spec c L q part from at) \<Longrightarrow> h \<in> set (waiting c L q)"
  by (cases part) (auto simp: due_spec_def due_list_def)

text \<open>
  C36: A part of a Send Port's queue read by when each Message is due is that part of what the queue
  holds, from the due time and place asked for, in the order of their due times and places, up to
  as many as asked for: first those due since they were held, then each retry whose time has come.
  It says how many keep a retry's due time, and the earliest of those not yet due. The places kept
  where a part begins change only where the read starts.
\<close>

theorem read_due_is_the_part:
  assumes "\<forall>q. hold_inv c L q" and "held_keyed L" and "index_exact c x Runtime L X" and "due_inv c L q"
    and "\<And>k key. get k key = Inr (L k key)" and "\<And>lo hi n b. scan lo hi n b = Inr (between X lo hi n b)"
  shows "\<exists>retrying_now. read_due c get scan (q, part) (from, m) now = Inr \<lparr>
      dr_held = take (unat m) (due_spec c L q part from (nanos now)),
      dr_retrying = retrying_now,
      dr_next_due_unix_nanos = (case due_spec c L q DueWaiting (0, 0) (nanos now) of [] \<Rightarrow> None
        | h # _ \<Rightarrow> Some (word_of_nat (unat (due_at h)))),
      dr_read_unix_nanos = now\<rparr> \<and>
    unat retrying_now = length (filter retrying (waiting c L q))"
proof -
  let ?ps = "due_of c L q"
  let ?found = "take (unat m) (due_spec c L q part from (nanos now))"
  have ok: "due_places_ok (waiting c L q) ?ps" and kept: "kept_due c get q = Inr ?ps"
    using assms(4,5) by (simp_all add: due_inv_def kept_due_def)
  note found = found_is [OF assms(1,2,3,6) ok]
  have inv: "hold_inv c L q" using assms(1) by blast
  have nxt: "region scan (q, False) (max (u64_add (nanos now) 1, 0) (du_retry ?ps)) (- 1) 1 =
      Inr (map when_due (take 1 (due_spec c L q DueWaiting (0, 0) (nanos now))))"
    using found [of DueWaiting "(0, 0)" 1 "nanos now"] by (simp add: found_in_def max_def less_eq_prod_def)
  have "bindr (get (k_entry hold_kinds) (entry_key q (he_sequence h))) (map_maybe (from_bytes c (r_held c))) = Inr (Some h)"
    if "h \<in> set ?found" for h
    using waiting_at [OF inv due_spec_waiting [OF in_set_takeD [OF that]]] assms(5) by (auto simp: entries_of_def)
  then have entries: "each (\<lambda>(_, spot). bindr (get (k_entry hold_kinds) (entry_key q spot)) (map_maybe (from_bytes c (r_held c))))
      (map when_due ?found) = Inr (map Some ?found)"
    by (auto simp: each_eq_Inr list_all2_map1 list_all2_map2 list_all2_same when_due_def)
  have "List.map_filter id (map Some ?found) = ?found"
    by (simp add: List.map_filter_def comp_def)
  then show ?thesis
    using ok nxt entries kept found [of part "from" "unat m" "nanos now"]
    by (auto simp: read_due_def due_places_ok_def when_due_def split: list.split)
qed

theorem read_due_is_the_part_witness:
  "\<exists>retrying_now. read_due plain_codec (\<lambda>k key. Inr (held_one k key)) (\<lambda>lo hi n b. Inr (between held_one_index lo hi n b))
      (7, DueNow) ((0, 0), 10) 500 = Inr \<lparr>dr_held = [newly_held 0 (sample_hold 9)], dr_retrying = retrying_now,
        dr_next_due_unix_nanos = None, dr_read_unix_nanos = 500\<rparr> \<and> unat retrying_now = 0"
proof -
  have keyed: "held_keyed held_one"
    by (auto simp: held_keyed_def held_one_def upd_apply empty_ledger_def split: if_splits)
  have part: "due_list plain_codec held_one 7 f = (if f then [] else [newly_held 0 (sample_hold 9)])" for f
    by (simp add: due_list_def held_one_waiting newly_held_def)
  have none: "held_one due_places_kind (places_key 7) = None"
    by (simp add: held_one_def upd_apply empty_ledger_def due_places_kind_def)
  have "due_inv plain_codec held_one 7"
    by (simp add: due_inv_def due_of_def decode_due_def none due_places_ok_def held_one_waiting default_due_def
        retrying_def newly_held_def due_at_def)
  from read_due_is_the_part [OF _ keyed held_one_exact this, of "\<lambda>k key. Inr (held_one k key)"
      "\<lambda>lo hi n b. Inr (between held_one_index lo hi n b)" DueNow "(0, 0)" 10 500]
  show ?thesis
    by (simp add: held_one_inv due_spec_def part held_one_waiting newly_held_def due_at_def when_due_def retrying_def
        less_eq_prod_def nanos_def u64_add_def)
qed

end
