(* ===== verification/Settle.thy ===== *)
theory Settle
  imports Due
begin

text \<open>
  Once a batch is decided, each queue it wrote a held Message of keeps where its firsts by when
  each is due are (\<open>settle\<close> in \<open>src/.src/storage/due.rs\<close>): the first of each part found again with one
  range from where it was, and its retries counted on. What the reads of a part rest on
  (\<open>due_inv\<close>) is shown to hold after a batch settled wherever it held before it.
\<close>

section \<open>A batch settled\<close>

text \<open>What runs on a batch over the store: its answer, or an error, and the batch as its reads left it.\<close>

type_synonym 'a on_batch = "batch \<Rightarrow> 'a result \<times> batch"

definition bindb :: "'a on_batch \<Rightarrow> ('a \<Rightarrow> 'b on_batch) \<Rightarrow> 'b on_batch" where
  "bindb m f = (\<lambda>b. case m b of (Inl e, b') \<Rightarrow> (Inl e, b') | (Inr x, b') \<Rightarrow> f x b')"

definition liftb :: "'a result \<Rightarrow> 'a on_batch" where
  "liftb r = (\<lambda>b. (r, b))"

definition no_retry :: "u64 \<times> u64" where
  "no_retry = (- 1, - 1)"

definition untouched :: "index_scan \<Rightarrow> u128 \<Rightarrow> (u64 \<times> u64) \<times> u64 \<Rightarrow> nat \<Rightarrow> u64 list \<Rightarrow> (u64 \<times> u64) option result" where
  "untouched scan queue ft at_most touched = (let (from, to) = ft in
     bindr (region scan (queue, False) from to at_most) (\<lambda>found.
       Inr (find (\<lambda>(_, spot). spot \<notin> set touched) found)))"

definition retries :: "held option \<Rightarrow> u64" where
  "retries held = (case held of None \<Rightarrow> 0 | Some h \<Rightarrow> if he_due_unix_nanos h \<noteq> None \<and> \<not> he_failed h then 1 else 0)"

definition lesser :: "'a :: linorder option \<Rightarrow> 'a \<Rightarrow> 'a option" where
  "lesser first' at = Some (case first' of None \<Rightarrow> at | Some f \<Rightarrow> min f at)"

text \<open>The held Messages a batch wrote, by queue, with their places.\<close>

definition written_held :: "batch \<Rightarrow> (u128 \<times> u64 \<times> bytes option) list" where
  "written_held b = [(word_of_nat (from_be (take 16 key)), word_of_nat (from_be (take 8 (drop 16 key))), v).
     (key, v) \<leftarrow> written_of b (k_entry hold_kinds), 24 \<le> length key]"

record due_seen =
  ds_retrying :: u64
  ds_fresh :: "u64 option"
  ds_retry :: "(u64 \<times> u64) option"

definition seen_of :: "held option \<Rightarrow> held option \<Rightarrow> u64 \<Rightarrow> due_seen \<Rightarrow> due_seen" where
  "seen_of old new spot d =
     (let d1 = d\<lparr>ds_retrying := u64_sub (ds_retrying d + retries new) (retries old)\<rparr> in
      case new of None \<Rightarrow> d1
      | Some h \<Rightarrow> if he_failed h then d1
          else if due_at h = 0 then d1\<lparr>ds_fresh := lesser (ds_fresh d1) spot\<rparr>
          else d1\<lparr>ds_retry := lesser (ds_retry d1) (due_at h, spot)\<rparr>)"

definition seen_one :: "codec \<Rightarrow> store_get \<Rightarrow> u128 \<Rightarrow> u64 \<times> bytes option \<Rightarrow> due_seen \<Rightarrow> due_seen on_batch" where
  "seen_one c get queue pv d = (let (spot, v) = pv in
     bindb (\<lambda>b. before get b (k_entry hold_kinds) (entry_key queue spot)) (\<lambda>was.
     bindb (liftb (map_maybe (from_bytes c (r_held c)) was)) (\<lambda>old.
     bindb (liftb (map_maybe (from_bytes c (r_held c)) v)) (\<lambda>new.
       liftb (Inr (seen_of old new spot d))))))"

fun seen_all :: "codec \<Rightarrow> store_get \<Rightarrow> u128 \<Rightarrow> (u64 \<times> bytes option) list \<Rightarrow> due_seen \<Rightarrow> due_seen on_batch" where
  "seen_all c get queue [] d = liftb (Inr d)"
| "seen_all c get queue (pv # ws) d = bindb (seen_one c get queue pv d) (seen_all c get queue ws)"

definition first_min :: "'a :: linorder option \<Rightarrow> 'a option \<Rightarrow> 'a option" where
  "first_min x y = (case x of None \<Rightarrow> y | Some a \<Rightarrow> lesser y a)"

definition settle_queue :: "codec \<Rightarrow> store_get \<Rightarrow> index_scan \<Rightarrow> u128 \<Rightarrow> (u64 \<times> bytes option) list \<Rightarrow> unit on_batch" where
  "settle_queue c get scan queue ws =
     bindb (\<lambda>b. read get b due_places_kind (places_key queue)) (\<lambda>v.
     bindb (liftb (decode_due c v)) (\<lambda>was.
     bindb (seen_all c get queue ws \<lparr>ds_retrying = du_retrying was, ds_fresh = None, ds_retry = None\<rparr>) (\<lambda>d.
     let touched = map fst ws; at_most = length (remdups touched) + 1 in
     bindb (liftb (if (case ds_fresh d of None \<Rightarrow> False | Some f \<Rightarrow> f \<le> du_fresh was) then Inr None
       else untouched scan queue ((0, du_fresh was), 0) at_most touched)) (\<lambda>kept_fresh.
     bindb (case first_min (map_option snd kept_fresh) (ds_fresh d) of
         Some f \<Rightarrow> liftb (Inr f)
       | None \<Rightarrow> bindb (\<lambda>b. run get b (places c hold_kinds queue)) (\<lambda>p. liftb (Inr (pl_next p)))) (\<lambda>fresh.
     bindb (liftb (if du_retry was = no_retry \<or> (case ds_retry d of None \<Rightarrow> False | Some r \<Rightarrow> r \<le> du_retry was) then Inr None
       else untouched scan queue (du_retry was, - 1) at_most touched)) (\<lambda>kept_retry.
     let now = \<lparr>du_fresh = fresh,
       du_retry = (case first_min kept_retry (ds_retry d) of Some r \<Rightarrow> r | None \<Rightarrow> no_retry),
       du_retrying = ds_retrying d\<rparr> in
     (\<lambda>b. (Inr (), if now \<noteq> was then put b due_places_kind (places_key queue) (Some (w_due_places c now)) else b))))))))"

fun settle_queues :: "codec \<Rightarrow> store_get \<Rightarrow> index_scan \<Rightarrow> (u128 \<times> (u64 \<times> bytes option) list) list \<Rightarrow> unit on_batch" where
  "settle_queues c get scan [] = liftb (Inr ())"
| "settle_queues c get scan ((queue, ws) # qs) = bindb (settle_queue c get scan queue ws) (\<lambda>_. settle_queues c get scan qs)"

definition settle :: "codec \<Rightarrow> store_get \<Rightarrow> index_scan \<Rightarrow> unit on_batch" where
  "settle c get scan b = (let ws = written_held b in
     settle_queues c get scan (map (\<lambda>q. (q, map snd (filter (\<lambda>w. fst w = q) ws))) (sort (remdups (map fst ws)))) b)"

section \<open>What is seen of a batch's writes\<close>

text \<open>A queue's entries by place: what it held, and what it holds once the batch is decided.\<close>

type_synonym by_spot = "u64 \<Rightarrow> held option"

definition entry_at :: "codec \<Rightarrow> ledger \<Rightarrow> u128 \<Rightarrow> by_spot" where
  "entry_at c L q s = map_option (held_at c) (entries_of hold_kinds L q s)"

definition seen_each :: "by_spot \<Rightarrow> by_spot \<Rightarrow> u64 list \<Rightarrow> due_seen \<Rightarrow> due_seen" where
  "seen_each old new ss d = fold (\<lambda>s. seen_of (old s) (new s) s) ss d"

definition retries_at :: "by_spot \<Rightarrow> u64 set" where
  "retries_at e = {s. retries (e s) = 1}"

lemma retries_cases: "retries e = (if retries e = 1 then 1 else 0)"
  by (simp add: retries_def split: option.splits)

lemma finite_u64 [simp]: "finite (A :: u64 set)"
  by (rule finite_subset [OF subset_UNIV]) simp

lemma card_below_top: "(- 1 :: u64) \<notin> A \<Longrightarrow> - 2 \<notin> A \<Longrightarrow> card A + 1 < 2 ^ 64"
proof -
  assume "- 1 \<notin> A" "- 2 \<notin> A"
  then have "card A \<le> card (UNIV - {- 1, - 2 :: u64})" by (intro card_mono) auto
  also have "card (UNIV - {- 1, - 2 :: u64}) = card (UNIV :: u64 set) - 2" by (subst card_Diff_subset) simp_all
  finally show ?thesis by (simp add: card_word)
qed

lemma seen_retrying [simp]:
  "ds_retrying (seen_of old new s d) = u64_sub (ds_retrying d + retries new) (retries old)"
  by (simp add: seen_of_def Let_def split: option.splits)

lemma unat_less_one: "unat (x :: u64) = Suc n \<Longrightarrow> unat (x - 1) = n"
  by (metis One_nat_def Suc_n_not_n diff_Suc_1 unat_eq_zero unat_minus_one nat.distinct(1))

lemma seen_each_retrying:
  assumes "distinct ss" and "set ss \<inter> T = {}" and "unat (ds_retrying d) = card (retries_at (\<lambda>s. if s \<in> T then new s else old s))"
    and "\<And>s. s \<ge> - 2 \<Longrightarrow> old s = None \<and> new s = None"
  shows "unat (ds_retrying (seen_each old new ss d)) = card (retries_at (\<lambda>s. if s \<in> T \<union> set ss then new s else old s))"
  using assms(1-3)
proof (induction ss arbitrary: T d)
  case (Cons p ss)
  let ?A = "retries_at (\<lambda>s. if s \<in> T then new s else old s)"
  let ?B = "retries_at (\<lambda>s. if s \<in> insert p T then new s else old s)"
  have p: "p \<notin> T" using Cons.prems(2) by auto
  have none: "- 1 \<notin> ?A" "- 2 \<notin> ?A" "(- 1 :: u64) \<ge> - 2"
    using assms(4) [of "- 1"] assms(4) [of "- 2"] by (auto simp: retries_at_def retries_def)
  have A: "card ?A = card (?A - {p}) + (if retries (old p) = 1 then 1 else 0)"
  proof (cases "retries (old p) = 1")
    case True
    then have "p \<in> ?A" using p by (simp add: retries_at_def)
    then show ?thesis using True card.remove [of ?A p] by simp
  next
    case False
    then have "p \<notin> ?A" using p by (simp add: retries_at_def)
    then show ?thesis using False by simp
  qed
  have B: "card ?B = card (?A - {p}) + (if retries (new p) = 1 then 1 else 0)"
  proof -
    have "?B = (?A - {p}) \<union> (if retries (new p) = 1 then {p} else {})" using p by (auto simp: retries_at_def)
    moreover have "card (insert p (?A - {p})) = Suc (card (?A - {p}))" by (rule card_insert_disjoint) simp_all
    ultimately show ?thesis by simp
  qed
  have "unat (ds_retrying (seen_of (old p) (new p) p d)) = card ?B"
    using card_below_top [OF none(1,2)] A B Cons.prems(3) retries_cases [of "new p"] retries_cases [of "old p"]
    by (auto simp: u64_sub_def unat_word_ariths word_le_nat_alt unat_less_one split: if_splits)
  with Cons.IH [of "insert p T" "seen_of (old p) (new p) p d"] Cons.prems show ?case
    by (simp add: seen_each_def)
qed (simp add: seen_each_def)

text \<open>The least of a part the batch wrote is found, whichever it wrote last.\<close>

lemma lesser_some: "\<exists>f. lesser x a = Some f \<and> f \<le> a \<and> (\<forall>g. x = Some g \<longrightarrow> f \<le> g)"
  by (auto simp: lesser_def split: option.splits)

lemma seen_fresh_least:
  assumes "(ds_fresh d = Some f) \<or> (\<exists>h. s \<in> set ss \<and> new s = Some h \<and> \<not> he_failed h \<and> due_at h = 0 \<and> s = f)"
  shows "\<exists>g. ds_fresh (seen_each old new ss d) = Some g \<and> g \<le> f"
  using assms
proof (induction ss arbitrary: d f)
  case (Cons p ss)
  let ?d = "seen_of (old p) (new p) p d"
  have keeps: "\<exists>g. ds_fresh ?d = Some g \<and> g \<le> f'" if "ds_fresh d = Some f'" for f'
    using that by (auto simp: seen_of_def Let_def lesser_def split: option.splits)
  have wrote: "\<exists>g. ds_fresh ?d = Some g \<and> g \<le> p" if "new p = Some h" "\<not> he_failed h" "due_at h = 0" for h
    using that by (auto simp: seen_of_def Let_def lesser_def split: option.splits)
  consider g where "ds_fresh ?d = Some g" "g \<le> f"
    | h where "s \<in> set ss" "new s = Some h" "\<not> he_failed h" "due_at h = 0" "s = f"
    using Cons.prems keeps wrote by fastforce
  then show ?case
  proof cases
    case 1
    then show ?thesis using Cons.IH [of ?d g] by (auto simp: seen_each_def)
  next
    case 2
    then show ?thesis using Cons.IH [of ?d f] by (auto simp: seen_each_def)
  qed
qed (simp add: seen_each_def)

lemma seen_retry_least:
  assumes "(ds_retry d = Some r) \<or> (\<exists>h. s \<in> set ss \<and> new s = Some h \<and> \<not> he_failed h \<and> due_at h \<noteq> 0 \<and> (due_at h, s) = r)"
  shows "\<exists>g. ds_retry (seen_each old new ss d) = Some g \<and> g \<le> r"
  using assms
proof (induction ss arbitrary: d r)
  case (Cons p ss)
  let ?d = "seen_of (old p) (new p) p d"
  have keeps: "\<exists>g. ds_retry ?d = Some g \<and> g \<le> r'" if "ds_retry d = Some r'" for r'
    using that by (auto simp: seen_of_def Let_def lesser_def simp del: split_paired_Ex split: option.splits)
  have wrote: "\<exists>g. ds_retry ?d = Some g \<and> g \<le> (due_at h, p)" if "new p = Some h" "\<not> he_failed h" "due_at h \<noteq> 0" for h
    using that by (auto simp: seen_of_def Let_def lesser_def simp del: split_paired_Ex split: option.splits)
  consider g where "ds_retry ?d = Some g" "g \<le> r"
    | h where "s \<in> set ss" "new s = Some h" "\<not> he_failed h" "due_at h \<noteq> 0" "(due_at h, s) = r"
    using Cons.prems keeps wrote by fastforce
  then show ?case
  proof cases
    case 1
    then show ?thesis using Cons.IH [of ?d g] by (auto simp: seen_each_def)
  next
    case 2
    then show ?thesis using Cons.IH [of ?d r] by (auto simp: seen_each_def)
  qed
qed (simp add: seen_each_def)

lemma seen_retry_due:
  "(\<And>r. ds_retry d = Some r \<Longrightarrow> 1 \<le> fst r) \<Longrightarrow> ds_retry (seen_each old new ss d) = Some r \<Longrightarrow> 1 \<le> fst r"
proof (induction ss arbitrary: d)
  case (Cons p ss)
  have "1 \<le> fst g" if "ds_retry (seen_of (old p) (new p) p d) = Some g" for g
    using that Cons.prems(1) by (auto simp: seen_of_def Let_def lesser_def min_def word_le_nat_alt unat_gt_0 Suc_le_eq split: option.splits if_splits)
  from Cons.IH [OF this] Cons.prems(2) show ?case by (simp add: seen_each_def)
qed (simp add: seen_each_def)

section \<open>The first the batch did not write\<close>

text \<open>Of one more than the batch wrote, in order, one is not the batch's, where there is one at all.\<close>

lemma first_found:
  assumes "sorted xs" and "x \<in> set (take n xs)" and "P x"
  shows "\<exists>y. find P (take n xs) = Some y \<and> y \<le> x"
proof -
  obtain i where i: "i < length (take n xs)" "P (take n xs ! i)" "find P (take n xs) = Some (take n xs ! i)" "\<And>j. j < i \<Longrightarrow> \<not> P (take n xs ! j)"
    using assms(2,3) find_None_iff [of P "take n xs"] by (cases "find P (take n xs)") (auto simp: find_Some_iff)
  obtain j where j: "j < length (take n xs)" "take n xs ! j = x" using assms(2) by (auto simp: in_set_conv_nth)
  then have "i \<le> j" using i(4) assms(3) not_le by blast
  moreover have "sorted (take n xs)" using assms(1) by (rule sorted_wrt_take)
  ultimately show ?thesis using i(3) j sorted_nth_mono by blast
qed

lemma first_untouched:
  fixes xs :: "(u64 \<times> u64) list"
  assumes "sorted xs" and "distinct (map snd xs)" and "x \<in> set xs" and "snd x \<notin> set touched"
  shows "\<exists>y. find (\<lambda>(_, spot). spot \<notin> set touched) (take (length (remdups touched) + 1) xs) = Some y \<and> y \<le> x"
proof -
  let ?n = "length (remdups touched) + 1" and ?P = "\<lambda>(_ :: u64, spot). spot \<notin> set touched"
  show ?thesis
  proof (cases "x \<in> set (take ?n xs)")
    case True
    then show ?thesis using assms(4) by (intro first_found [OF assms(1)]) (auto simp: case_prod_beta)
  next
    case False
    then have long: "?n \<le> length xs" and later: "x \<in> set (drop ?n xs)"
      using assms(3) by (metis append_take_drop_id Un_iff set_append nat_le_linear take_all)+
    have "card (snd ` set (take ?n xs)) = ?n"
      using assms(2) long by (metis distinct_card distinct_take length_map length_take list.set_map min.absorb2 take_map)
    moreover have "card (set touched) = length (remdups touched)" by (simp add: length_remdups_card_conv)
    ultimately have "\<not> snd ` set (take ?n xs) \<subseteq> set touched" using card_mono [of "set touched" "snd ` set (take ?n xs)"] by auto
    then obtain z where "z \<in> set (take ?n xs)" "snd z \<notin> set touched" by blast
    then have z: "z \<in> set (take ?n xs)" "?P z" by (simp_all add: case_prod_beta)
    then obtain y where "find ?P (take ?n xs) = Some y" "y \<le> z" using first_found [OF assms(1) z(1), of ?P] by blast
    moreover have "z \<le> x"
      using assms(1) z(1) later by (metis append_take_drop_id sorted_append)
    ultimately show ?thesis by auto
  qed
qed

section \<open>A batch over what the store holds\<close>

text \<open>What a batch reads, and what the store held before it, whatever it has read of it.\<close>

definition over :: "store_get \<Rightarrow> batch \<Rightarrow> ledger \<Rightarrow> ledger \<Rightarrow> bool" where
  "over g b L L' \<longleftrightarrow> agrees g b L' \<and> (\<forall>k key. fst (before g b k key) = Inr (L k key))"

lemma before_put [simp]: "fst (before g (put b k' key' v) k key) = fst (before g b k key)"
  by (cases b) (simp_all add: Let_def split_beta split: option.splits sum.splits)

lemma before_read [simp]: "fst (before g (snd (read g b k' key')) k key) = fst (before g b k key)"
proof (induction b)
  case (Bottom w cs ks)
  then show ?case using before_before [of g "Bottom w cs ks" k' key' k key] by (auto split: option.splits)
qed (auto simp: Let_def split_beta split: option.splits)

lemma before_run [simp]: "fst (before g (snd (run g b p)) k key) = fst (before g b k key)"
proof (induction p arbitrary: b)
  case (Read k' key' h)
  show ?case
  proof (cases "read g b k' key'")
    case (Pair r b')
    then have "fst (before g b' k key) = fst (before g b k key)" using before_read [of g b k' key' k key] by simp
    then show ?thesis using Pair Read.IH [OF rangeI] by (cases r) auto
  qed
qed simp_all

lemma over_put: "over g b L L' \<Longrightarrow> over g (put b k key v) L (upd L' k key v)"
  by (simp add: over_def agrees_put)

lemma over_before:
  "over g b L L' \<Longrightarrow> before g b k key = (Inr (L k key), snd (before g b k key)) \<and> over g (snd (before g b k key)) L L'"
  by (auto simp: over_def agrees_def view_def prod_eq_iff)

lemma over_read:
  "over g b L L' \<Longrightarrow> read g b k key = (Inr (L' k key), snd (read g b k key)) \<and> over g (snd (read g b k key)) L L'"
  by (auto simp: over_def agrees_read) (simp add: agrees_def view_def prod_eq_iff)

lemma over_run: "over g b L L' \<Longrightarrow> eval L' p = Inr (x, L') \<Longrightarrow>
    run g b p = (Inr x, snd (run g b p)) \<and> over g (snd (run g b p)) L L'"
  using run_eval [of g b L' p] by (auto simp: over_def prod_eq_iff)

lemma bindb_Inr: "m b = (Inr x, b') \<Longrightarrow> bindb m f b = f x b'"
  by (simp add: bindb_def)

lemma bindb_over:
  assumes "over g b L L'"
  shows bindb_before: "bindb (\<lambda>b. before g b k key) f b = f (L k key) (snd (before g b k key))"
    and bindb_read: "bindb (\<lambda>b. read g b k key) h b = h (L' k key) (snd (read g b k key))"
    and bindb_run: "eval L' p = Inr (x, L') \<Longrightarrow> bindb (\<lambda>b. run g b p) r b = r x (snd (run g b p))"
  using over_before [OF assms, of k key] over_read [OF assms, of k key] over_run [OF assms, of p x]
  by (simp_all add: bindb_Inr)

lemma bindb_liftb [simp]: "bindb (liftb (Inr x)) f = f x"
  by (simp add: bindb_def liftb_def fun_eq_iff)

text \<open>What the batch wrote is seen with what the store held of it.\<close>

lemma entry_decoded:
  assumes "hold_inv c L q"
  shows "map_maybe (from_bytes c (r_held c)) (L (k_entry hold_kinds) (entry_key q s)) = Inr (entry_at c L q s)"
proof (cases "entries_of hold_kinds L q s")
  case (Some v)
  then have "from_bytes c (r_held c) v = Inr (held_at c v)" using hold_inv_parts(2) [OF assms] by (auto simp: held_well_def)
  then show ?thesis using Some by (simp add: entry_at_def entries_of_def)
qed (simp add: entry_at_def entries_of_def)

lemma seen_all_is:
  assumes "over g b L Lc" and "hold_inv c L q" and "hold_inv c L' q"
    and "\<And>s v. (s, v) \<in> set ws \<Longrightarrow> v = L' (k_entry hold_kinds) (entry_key q s)"
  shows "\<exists>b'. seen_all c g q ws d b = (Inr (seen_each (entry_at c L q) (entry_at c L' q) (map fst ws) d), b') \<and> over g b' L Lc"
  using assms(1,4)
proof (induction ws arbitrary: b d)
  case (Cons w ws)
  obtain s v where w: "w = (s, v)" by (cases w)
  let ?b = "snd (before g b (k_entry hold_kinds) (entry_key q s))"
  have v: "v = L' (k_entry hold_kinds) (entry_key q s)" using Cons.prems(2) w by simp
  note o = over_before [OF Cons.prems(1), of "k_entry hold_kinds" "entry_key q s"]
  have "seen_one c g q w d b = (Inr (seen_of (entry_at c L q s) (entry_at c L' q s) s d), ?b)"
    unfolding seen_one_def w prod.case v Let_def bindb_before [OF Cons.prems(1)] entry_decoded [OF assms(2)]
      entry_decoded [OF assms(3)] bindb_liftb by (simp add: liftb_def)
  then have "seen_all c g q (w # ws) d b = seen_all c g q ws (seen_of (entry_at c L q s) (entry_at c L' q s) s d) ?b"
    by (simp add: bindb_Inr)
  then show ?case
    using Cons.IH [OF conjunct2 [OF o], of "seen_of (entry_at c L q s) (entry_at c L' q s) s d"] Cons.prems(2) w
    by (simp add: seen_each_def)
qed (simp add: liftb_def seen_each_def)

text \<open>The places kept, said of a queue's entries by place.\<close>

definition firsts_ok :: "by_spot \<Rightarrow> due_places \<Rightarrow> bool" where
  "firsts_ok e ps \<longleftrightarrow>
     (\<forall>s h. e s = Some h \<longrightarrow> \<not> he_failed h \<longrightarrow> (if due_at h = 0 then du_fresh ps \<le> s else du_retry ps \<le> (due_at h, s))) \<and>
     1 \<le> fst (du_retry ps) \<and> unat (du_retrying ps) = card (retries_at e)"

lemma entry_waiting:
  assumes "hold_inv c L q"
  shows "h \<in> set (waiting c L q) \<longleftrightarrow> (\<exists>s. entry_at c L q s = Some h)" and "entry_at c L q s = Some h \<Longrightarrow> he_sequence h = s"
proof -
  show "he_sequence h = s" if "entry_at c L q s = Some h" for s
    using that hold_inv_parts(2) [OF assms] by (auto simp: entry_at_def held_well_def)
  show "h \<in> set (waiting c L q) \<longleftrightarrow> (\<exists>s. entry_at c L q s = Some h)"
    using waiting_at [OF assms, of h] by (auto simp: entry_at_def intro: at_waiting)
qed

lemma firsts_ok_waiting:
  assumes "hold_inv c L q"
  shows "due_places_ok (waiting c L q) ps \<longleftrightarrow> firsts_ok (entry_at c L q) ps"
proof -
  let ?hs = "filter retrying (waiting c L q)"
  have "distinct (map he_sequence ?hs)" using waiting_distinct [OF assms] by (simp add: distinct_map inj_on_def)
  then have "length ?hs = card (he_sequence ` set ?hs)" using distinct_card [of "map he_sequence ?hs"] by simp
  also have "he_sequence ` set ?hs = retries_at (entry_at c L q)"
    using entry_waiting [OF assms] by (force simp: retries_at_def retries_def retrying_def split: option.splits)
  finally have "length ?hs = card (retries_at (entry_at c L q))" .
  moreover have "(\<forall>h \<in> set (waiting c L q). \<not> he_failed h \<longrightarrow> (if due_at h = 0 then du_fresh ps \<le> he_sequence h else du_retry ps \<le> when_due h)) \<longleftrightarrow>
      (\<forall>s h. entry_at c L q s = Some h \<longrightarrow> \<not> he_failed h \<longrightarrow> (if due_at h = 0 then du_fresh ps \<le> s else du_retry ps \<le> (due_at h, s)))"
    using entry_waiting [OF assms] by (fastforce simp: when_due_def)
  ultimately show ?thesis by (simp add: due_places_ok_def firsts_ok_def)
qed

section \<open>A queue settled\<close>

lemma in_dues_from:
  assumes "hold_inv c L q"
  shows "ds \<in> set (dues_from c L q False from to) \<longleftrightarrow>
    (\<exists>h. entry_at c L q (snd ds) = Some h \<and> \<not> he_failed h \<and> due_at h = fst ds) \<and> from \<le> ds \<and> fst ds \<le> to"
  by (auto simp: dues_from_def dues_of_def entry_at_def Option.bind_eq_Some_conv Let_def dom_def split: if_splits)

lemma distinct_dues:
  assumes "hold_inv c L q"
  shows "distinct (map snd (dues_from c L q False from to))"
proof -
  have "x = y" if "x \<in> set (dues_from c L q False from to)" "y \<in> set (dues_from c L q False from to)" "snd x = snd y" for x y
    using that by (auto simp: in_dues_from [OF assms] prod_eq_iff)
  moreover have "distinct (dues_from c L q False from to)" by (simp add: dues_from_def)
  ultimately show ?thesis by (auto simp: distinct_map inj_on_def)
qed

lemma untouched_is:
  assumes inv: "\<forall>q. hold_inv c L q" and keyed: "held_keyed L" and exact: "index_exact c x Runtime L X"
    and scan: "\<And>lo hi n b. scan lo hi n b = Inr (between X lo hi n b)"
  shows "\<exists>r. untouched scan q (from, to) (length (remdups touched) + 1) touched = Inr r \<and>
    (\<forall>y. r = Some y \<longrightarrow> from \<le> y \<and> fst y \<le> to) \<and>
    (\<forall>s h. entry_at c L q s = Some h \<longrightarrow> \<not> he_failed h \<longrightarrow> s \<notin> set touched \<longrightarrow> from \<le> (due_at h, s) \<longrightarrow> due_at h \<le> to \<longrightarrow>
      (\<exists>y. r = Some y \<and> y \<le> (due_at h, s)))"
proof -
  have invq: "hold_inv c L q" using inv by blast
  let ?xs = "dues_from c L q False from to" and ?n = "length (remdups touched) + 1"
  let ?r = "find (\<lambda>(_, spot). spot \<notin> set touched) (take ?n ?xs)"
  have "untouched scan q (from, to) ?n touched = Inr ?r"
    unfolding untouched_def prod.case region_is [OF inv keyed exact scan] by simp
  moreover have "from \<le> y \<and> fst y \<le> to" if "?r = Some y" for y
  proof -
    have "y \<in> set (take ?n ?xs)" using that by (metis find_Some_iff nth_mem)
    then have "y \<in> set ?xs" by (rule in_set_takeD)
    then show ?thesis unfolding in_dues_from [OF invq] by blast
  qed
  moreover have "\<exists>y. ?r = Some y \<and> y \<le> (due_at h, s)"
    if "entry_at c L q s = Some h" "\<not> he_failed h" "s \<notin> set touched" "from \<le> (due_at h, s)" "due_at h \<le> to" for s h
  proof -
    have "(due_at h, s) \<in> set ?xs" using that by (simp add: in_dues_from [OF invq])
    moreover have "sorted ?xs" by (simp add: dues_from_def)
    ultimately show ?thesis using that(3) by (intro first_untouched [OF _ distinct_dues [OF invq]]) simp_all
  qed
  ultimately show ?thesis by blast
qed

lemma first_min_least:
  "x = Some a \<or> y = Some a \<Longrightarrow> \<exists>f. first_min x y = Some f \<and> f \<le> a"
  "first_min x y = Some f \<Longrightarrow> x = Some f \<or> y = Some f"
  by (auto simp: first_min_def lesser_def min_def simp del: split_paired_Ex split: option.splits if_splits)

text \<open>The places a queue is left with: what was seen of the batch's writes, and the first of the rest.\<close>

lemma firsts_settled:
  assumes was: "firsts_ok old was" and distinct: "distinct touched" and room: "\<And>s. s \<ge> - 2 \<Longrightarrow> old s = None \<and> new s = None"
    and rest: "\<And>s. s \<notin> set touched \<Longrightarrow> new s = old s"
    and d: "d = seen_each old new touched \<lparr>ds_retrying = du_retrying was, ds_fresh = None, ds_retry = None\<rparr>"
    and kf: "\<And>s h. old s = Some h \<Longrightarrow> \<not> he_failed h \<Longrightarrow> due_at h = 0 \<Longrightarrow> s \<notin> set touched \<Longrightarrow>
      (\<exists>f. ds_fresh d = Some f \<and> f \<le> du_fresh was) \<or> (\<exists>y. kf = Some y \<and> y \<le> s)"
    and kr: "\<And>s h. old s = Some h \<Longrightarrow> \<not> he_failed h \<Longrightarrow> due_at h \<noteq> 0 \<Longrightarrow> s \<notin> set touched \<Longrightarrow>
      (\<exists>r. ds_retry d = Some r \<and> r \<le> du_retry was) \<or> (\<exists>y. kr = Some y \<and> y \<le> (due_at h, s))"
    and kr_due: "\<And>y. kr = Some y \<Longrightarrow> 1 \<le> fst y"
    and fresh: "\<And>f. first_min kf (ds_fresh d) = Some f \<Longrightarrow> fresh = f"
    and retry: "retry = (case first_min kr (ds_retry d) of Some r \<Rightarrow> r | None \<Rightarrow> no_retry)"
  shows "firsts_ok new \<lparr>du_fresh = fresh, du_retry = retry, du_retrying = ds_retrying d\<rparr>"
proof -
  have "unat (ds_retrying d) = card (retries_at (\<lambda>s. if s \<in> {} \<union> set touched then new s else old s))"
    unfolding d by (rule seen_each_retrying) (use was distinct room in \<open>simp_all add: firsts_ok_def\<close>)
  moreover have "(\<lambda>s. if s \<in> {} \<union> set touched then new s else old s) = new" using rest by auto
  ultimately have count: "unat (ds_retrying d) = card (retries_at new)" by simp
  have "1 \<le> fst r" if "ds_retry d = Some r" for r
    using seen_retry_due [OF _ that [unfolded d]] by simp
  then have one: "1 \<le> fst retry"
    using kr_due first_min_least(2) [of kr "ds_retry d"] by (auto simp: retry no_retry_def split: option.splits)
  have first_fresh: "fresh \<le> a" if "kf = Some a \<or> ds_fresh d = Some a" for a
    using first_min_least(1) [OF that] fresh by blast
  have first_retry: "retry \<le> a" if "kr = Some a \<or> ds_retry d = Some a" for a
    using first_min_least(1) [OF that] by (auto simp: retry)
  have "fresh \<le> s" if h: "new s = Some h" "\<not> he_failed h" "due_at h = 0" for s h
  proof (cases "s \<in> set touched")
    case True
    then obtain g where "ds_fresh d = Some g" "g \<le> s"
      using seen_fresh_least [of _ s s touched new] h unfolding d by blast
    then show ?thesis using first_fresh [of g] by auto
  next
    case False
    have old: "old s = Some h" using h rest [OF False] by simp
    then have "du_fresh was \<le> s" using was h by (auto simp: firsts_ok_def)
    then show ?thesis using kf [OF old h(2,3) False] first_fresh by (auto intro: order_trans)
  qed
  moreover have "retry \<le> (due_at h, s)" if h: "new s = Some h" "\<not> he_failed h" "due_at h \<noteq> 0" for s h
  proof (cases "s \<in> set touched")
    case True
    then obtain g where "ds_retry d = Some g" "g \<le> (due_at h, s)"
      using seen_retry_least [of _ "(due_at h, s)" s touched new] h unfolding d by blast
    moreover from this(1) have "retry \<le> g" by (intro first_retry) simp
    ultimately show ?thesis by (blast intro: order_trans)
  next
    case False
    have old: "old s = Some h" using h rest [OF False] by simp
    then have "du_retry was \<le> (due_at h, s)" using was h by (auto simp: firsts_ok_def)
    from kr [OF old h(2,3) False] show ?thesis
    proof (elim disjE exE conjE)
      fix r assume r: "ds_retry d = Some r" "r \<le> du_retry was"
      then have "retry \<le> r" by (intro first_retry) simp
      then show ?thesis using r(2) \<open>du_retry was \<le> (due_at h, s)\<close> by (rule order_trans [OF _ order_trans])
    next
      fix y assume y: "kr = Some y" "y \<le> (due_at h, s)"
      then have "retry \<le> y" by (intro first_retry) simp
      then show ?thesis using y(2) by (rule order_trans)
    qed
  qed
  ultimately show ?thesis using count one by (simp add: firsts_ok_def)
qed

text \<open>A queue of what the batch left, settled: the places it is left with hold of what it holds now.\<close>

definition due_at_least :: "codec \<Rightarrow> ledger \<Rightarrow> ledger \<Rightarrow> u128 \<Rightarrow> bool" where
  "due_at_least c L Lc q \<longleftrightarrow> (\<exists>ps. decode_due c (Lc due_places_kind (places_key q)) = Inr ps \<and> firsts_ok (entry_at c L q) ps)"

definition left_of :: "codec \<Rightarrow> ledger \<Rightarrow> ledger \<Rightarrow> u128 \<Rightarrow> (u64 \<times> bytes option) list \<Rightarrow> bool" where
  "left_of c L Lc q ws \<longleftrightarrow> distinct (map fst ws) \<and>
     (\<forall>(s, v) \<in> set ws. v = Lc (k_entry hold_kinds) (entry_key q s)) \<and>
     (\<forall>s. s \<notin> fst ` set ws \<longrightarrow> entries_of hold_kinds Lc q s = entries_of hold_kinds L q s)"

lemma entry_below:
  assumes "hold_inv c L q" and "next_place c L q \<le> - 2" and "- 2 \<le> s"
  shows "entry_at c L q s = None"
proof (cases "entries_of hold_kinds L q s")
  case (Some v)
  then have "s < next_place c L q"
    using qinv_range [OF queue_inv_parts(2) [OF hold_inv_parts(1) [OF assms(1)]]] by (simp add: next_place_def)
  then show ?thesis using assms(2,3) by simp
qed (simp add: entry_at_def)

lemma no_retry_none:
  assumes "firsts_ok e ps" and "du_retry ps = no_retry" and "e s = Some h" and "\<not> he_failed h" and "due_at h \<noteq> 0"
  shows "s = - 1"
proof -
  have "no_retry \<le> (due_at h, s)" using assms unfolding firsts_ok_def by metis
  then show ?thesis by (auto simp: no_retry_def less_eq_prod_def word_order.extremum_unique)
qed

text \<open>The held Messages a batch wrote, where every key it wrote of them is an entry's.\<close>

lemma in_written_of: "(key, v) \<in> set (written_of b k) \<longleftrightarrow> ((k, key), v) \<in> set (written b)"
  by (auto simp: written_of_def)

lemma distinct_written_of:
  assumes "distinct (map fst (written b))"
  shows "distinct (map fst (written_of b k))"
proof -
  have "distinct (map fst w) \<Longrightarrow> distinct (map fst [(key, v). ((k', key), v) \<leftarrow> w, k' = k])" for w :: by_place
    by (induction w) (force split: if_splits)+
  then show ?thesis using assms by (simp only: written_of_def)
qed

definition held_writes :: "batch \<Rightarrow> bool" where
  "held_writes b \<longleftrightarrow> (\<forall>(key, v) \<in> set (written_of b (k_entry hold_kinds)). \<exists>q s. key = entry_key q s)"

lemma written_held_keys:
  assumes "held_writes b"
  shows "map (\<lambda>(q, s, v). (entry_key q s, v)) (written_held b) = written_of b (k_entry hold_kinds)"
proof -
  have "map (\<lambda>(q, s, v). (entry_key q s, v)) [(word_of_nat (from_be (take 16 key)), word_of_nat (from_be (take 8 (drop 16 key))), v).
      (key, v) \<leftarrow> xs, 24 \<le> length key] = xs"
    if "\<forall>(key, v) \<in> set xs. \<exists>q s. key = entry_key q s" for xs :: "(key \<times> bytes option) list"
    using that by (induction xs) (auto simp: entry_key_def)
  then show ?thesis using assms by (simp add: held_writes_def written_held_def)
qed

lemma left_of_written:
  assumes "held_writes b" and "distinct (map fst (written b))"
    and "\<And>k key. L' k key = (case map_of (written b) (k, key) of Some v \<Rightarrow> v | None \<Rightarrow> L k key)"
  shows "left_of c L L' q (map snd (filter (\<lambda>w. fst w = q) (written_held b)))"
proof -
  let ?ws = "written_held b" and ?W = "written_of b (k_entry hold_kinds)"
  let ?key = "\<lambda>(q, s, v). entry_key q s"
  note keys = written_held_keys [OF assms(1)]
  have "map ?key ?ws = map fst (map (\<lambda>(q, s, v). (entry_key q s, v)) ?ws)" by (auto simp: split_beta)
  then have "distinct (map ?key ?ws)" unfolding keys using distinct_written_of [OF assms(2)] by simp
  then have "distinct (map (fst \<circ> snd) (filter (\<lambda>w. fst w = q) ?ws))" by (auto simp: distinct_map inj_on_def)
  moreover have wrote: "(q, s, v) \<in> set ?ws \<longleftrightarrow> (entry_key q s, v) \<in> set ?W" for q s v
    unfolding keys [symmetric] by (force simp: key_simps)
  have "v = L' (k_entry hold_kinds) (entry_key q s)" if "(q, s, v) \<in> set ?ws" for s v
    using that assms(2) by (simp add: wrote in_written_of assms(3))
  moreover have "entries_of hold_kinds L' q s = entries_of hold_kinds L q s" if "\<And>v. (q, s, v) \<notin> set ?ws" for s
  proof -
    have "map_of (written b) (k_entry hold_kinds, entry_key q s) = None"
      using that by (force simp: wrote in_written_of map_of_eq_None_iff)
    then show ?thesis by (simp add: entries_of_def assms(3))
  qed
  ultimately show ?thesis unfolding left_of_def by (force simp: map_map)
qed

lemma held_elsewhere:
  assumes "\<forall>k. k \<noteq> due_places_kind \<longrightarrow> Lc' k = Lc k"
  shows "hold_inv c Lc' q = hold_inv c Lc q" and "entry_at c Lc' q = entry_at c Lc q" and "waiting c Lc' q = waiting c Lc q"
    and "next_place c Lc' q = next_place c Lc q" and "entries_of hold_kinds Lc' q = entries_of hold_kinds Lc q"
    and "Lc' (k_entry hold_kinds) = Lc (k_entry hold_kinds)"
proof -
  have kinds: "Lc' (k_entry hold_kinds) = Lc (k_entry hold_kinds)" "Lc' (k_by hold_kinds) = Lc (k_by hold_kinds)"
      "Lc' (k_places hold_kinds) = Lc (k_places hold_kinds)"
    by (rule assms [rule_format]; simp add: hold_kinds_def due_places_kind_def)+
  then have "same_queue hold_kinds Lc Lc' q" by (auto simp: same_queue_def entries_of_def index_of_def places_of_def)
  from hold_inv_same [OF this, of c]
  show "hold_inv c Lc' q = hold_inv c Lc q" "waiting c Lc' q = waiting c Lc q" .
  show "entry_at c Lc' q = entry_at c Lc q" "next_place c Lc' q = next_place c Lc q"
      "entries_of hold_kinds Lc' q = entries_of hold_kinds Lc q" "Lc' (k_entry hold_kinds) = Lc (k_entry hold_kinds)"
    using kinds by (auto simp: entry_at_def next_place_def places_of_def entries_of_def fun_eq_iff)
qed

context codec_laws
begin

lemma settle_queue_is:
  assumes inv: "\<forall>q. hold_inv c L q" and keyed: "held_keyed L" and exact: "index_exact c x Runtime L X"
    and scan: "\<And>lo hi n b. scan lo hi n b = Inr (between X lo hi n b)"
    and over: "over g b L Lc" and invc: "hold_inv c Lc q" and ws: "left_of c L Lc q ws"
    and due: "due_at_least c L Lc q" and room: "next_place c L q \<le> - 2" "next_place c Lc q \<le> - 2"
  shows "\<exists>b' Lc'. settle_queue c g scan q ws b = (Inr (), b') \<and> over g b' L Lc' \<and> due_at_least c Lc Lc' q \<and>
    (\<forall>k key. (k, key) \<noteq> (due_places_kind, places_key q) \<longrightarrow> Lc' k key = Lc k key)"
proof -
  note untouched = untouched_is [OF inv keyed exact scan]
  have invq: "hold_inv c L q" using inv by blast
  let ?old = "entry_at c L q" and ?new = "entry_at c Lc q" and ?touched = "map fst ws"
  obtain was where was: "decode_due c (Lc due_places_kind (places_key q)) = Inr was" "firsts_ok ?old was"
    using due by (auto simp: due_at_least_def)
  let ?n = "length (remdups ?touched) + 1"
  have distinct: "distinct ?touched" and vals: "\<And>s v. (s, v) \<in> set ws \<Longrightarrow> v = Lc (k_entry hold_kinds) (entry_key q s)"
    and rest: "\<And>s. s \<notin> set ?touched \<Longrightarrow> ?new s = ?old s"
    using ws by (auto simp: left_of_def entry_at_def)
  have none: "?old s = None \<and> ?new s = None" if "s \<ge> - 2" for s
    using entry_below [OF invq room(1) that] entry_below [OF invc room(2) that] by simp
  define b1 where "b1 = snd (read g b due_places_kind (places_key q))"
  have over1: "over g b1 L Lc" unfolding b1_def using over_read [OF over] by blast
  define d where "d = seen_each ?old ?new ?touched \<lparr>ds_retrying = du_retrying was, ds_fresh = None, ds_retry = None\<rparr>"
  obtain b2 where b2: "seen_all c g q ws \<lparr>ds_retrying = du_retrying was, ds_fresh = None, ds_retry = None\<rparr> b1 = (Inr d, b2)"
      "over g b2 L Lc"
    using seen_all_is [OF over1 invq invc vals] unfolding d_def by blast
  let ?early = "case ds_fresh d of None \<Rightarrow> False | Some f \<Rightarrow> f \<le> du_fresh was"
  obtain kf where kf: "(if ?early then Inr None else untouched scan q ((0, du_fresh was), 0) ?n ?touched) = Inr kf"
      "\<And>s h. ?old s = Some h \<Longrightarrow> \<not> he_failed h \<Longrightarrow> due_at h = 0 \<Longrightarrow> s \<notin> set ?touched \<Longrightarrow>
        (\<exists>f. ds_fresh d = Some f \<and> f \<le> du_fresh was) \<or> (\<exists>y. map_option snd kf = Some y \<and> y \<le> s)"
  proof (cases ?early)
    case True
    then show thesis by (intro that [of None]) (auto split: option.splits)
  next
    case False
    obtain r where r: "untouched scan q ((0, du_fresh was), 0) ?n ?touched = Inr r" "\<forall>y. r = Some y \<longrightarrow> (0, du_fresh was) \<le> y \<and> fst y \<le> 0"
        "\<forall>s h. ?old s = Some h \<longrightarrow> \<not> he_failed h \<longrightarrow> s \<notin> set ?touched \<longrightarrow> (0, du_fresh was) \<le> (due_at h, s) \<longrightarrow> due_at h \<le> 0 \<longrightarrow>
          (\<exists>y. r = Some y \<and> y \<le> (due_at h, s))"
      using untouched [of q "(0, du_fresh was)" 0 ?touched] by auto
    show thesis
    proof (rule that [of r])
      fix s h assume h: "?old s = Some h" "\<not> he_failed h" "due_at h = 0" "s \<notin> set ?touched"
      then have "du_fresh was \<le> s" using was(2) by (auto simp: firsts_ok_def)
      moreover have "(0, du_fresh was) \<le> (due_at h, s)" using calculation h(3) by simp
      ultimately obtain y where "r = Some y" "y \<le> (0, s)" using r(3) h by (metis order_refl)
      moreover from this have "fst y = 0" using r(2) by auto
      ultimately show "(\<exists>f. ds_fresh d = Some f \<and> f \<le> du_fresh was) \<or> (\<exists>y. map_option snd r = Some y \<and> y \<le> s)"
        by (auto simp: less_eq_prod_def)
    qed (use r(1) False in auto)
  qed
  define f where "f = first_min (map_option snd kf) (ds_fresh d)"
  obtain fresh b3 where fresh: "(case f of Some f \<Rightarrow> liftb (Inr f)
       | None \<Rightarrow> bindb (\<lambda>b. run g b (places c hold_kinds q)) (\<lambda>p. liftb (Inr (pl_next p)))) b2 = (Inr fresh, b3)"
      "over g b3 L Lc" "\<And>a. f = Some a \<Longrightarrow> fresh = a"
  proof (cases f)
    case None
    note p = hold_queue.eval_places [OF hold_inv_parts(1) [OF invc]]
    show thesis
      by (rule that [of "pl_next (places_of c hold_kinds Lc q)" "snd (run g b2 (places c hold_kinds q))"])
        (use over_run [OF b2(2) p] None in \<open>simp_all add: bindb_run [OF b2(2) p] liftb_def\<close>)
  qed (use that b2(2) in \<open>simp add: liftb_def\<close>)
  let ?near = "du_retry was = no_retry \<or> (case ds_retry d of None \<Rightarrow> False | Some r \<Rightarrow> r \<le> du_retry was)"
  obtain kr where kr: "(if ?near then Inr None else untouched scan q (du_retry was, - 1) ?n ?touched) = Inr kr"
      "\<And>s h. ?old s = Some h \<Longrightarrow> \<not> he_failed h \<Longrightarrow> due_at h \<noteq> 0 \<Longrightarrow> s \<notin> set ?touched \<Longrightarrow>
        (\<exists>r. ds_retry d = Some r \<and> r \<le> du_retry was) \<or> (\<exists>y. kr = Some y \<and> y \<le> (due_at h, s))"
      "\<And>y. kr = Some y \<Longrightarrow> 1 \<le> fst y"
  proof (cases ?near)
    case True
    show thesis
    proof (rule that [of None])
      fix s h assume h: "?old s = Some h" "\<not> he_failed h" "due_at h \<noteq> 0" "s \<notin> set ?touched"
      have "s \<noteq> - 1" using none [of s] h(1) by auto
      then have "du_retry was \<noteq> no_retry" using no_retry_none [OF was(2) _ h(1-3)] by blast
      with True show "(\<exists>r. ds_retry d = Some r \<and> r \<le> du_retry was) \<or> (\<exists>y. None = Some y \<and> y \<le> (due_at h, s))"
        by (auto split: option.splits)
    qed (use True in auto)
  next
    case False
    obtain r where r: "untouched scan q (du_retry was, - 1) ?n ?touched = Inr r" "\<forall>y. r = Some y \<longrightarrow> du_retry was \<le> y"
        "\<forall>s h. ?old s = Some h \<longrightarrow> \<not> he_failed h \<longrightarrow> s \<notin> set ?touched \<longrightarrow> du_retry was \<le> (due_at h, s) \<longrightarrow>
          (\<exists>y. r = Some y \<and> y \<le> (due_at h, s))"
      using untouched [of q "du_retry was" "- 1" ?touched] by auto
    show thesis
    proof (rule that [of r])
      fix s h assume h: "?old s = Some h" "\<not> he_failed h" "due_at h \<noteq> 0" "s \<notin> set ?touched"
      then have "du_retry was \<le> (due_at h, s)" using was(2) by (auto simp: firsts_ok_def)
      then show "(\<exists>r. ds_retry d = Some r \<and> r \<le> du_retry was) \<or> (\<exists>y. r = Some y \<and> y \<le> (due_at h, s))" using r(3) h by blast
    next
      fix y assume "r = Some y"
      then have "du_retry was \<le> y" using r(2) by blast
      moreover have "1 \<le> fst (du_retry was)" using was(2) by (simp add: firsts_ok_def)
      ultimately show "1 \<le> fst y" by (auto simp: less_eq_prod_def)
    qed (use r(1) False in auto)
  qed
  let ?ps = "\<lparr>du_fresh = fresh, du_retry = (case first_min kr (ds_retry d) of Some r \<Rightarrow> r | None \<Rightarrow> no_retry),
      du_retrying = ds_retrying d\<rparr>"
  have ok: "firsts_ok ?new ?ps"
    by (rule firsts_settled [OF was(2) distinct none rest d_def kf(2) kr(2,3) _ refl]) (use fresh(3) in \<open>simp_all add: f_def\<close>)
  let ?b = "if ?ps \<noteq> was then put b3 due_places_kind (places_key q) (Some (w_due_places c ?ps)) else b3"
  let ?Lc = "if ?ps \<noteq> was then upd Lc due_places_kind (places_key q) (Some (w_due_places c ?ps)) else Lc"
  have "settle_queue c g scan q ws b = (Inr (), ?b)"
    unfolding settle_queue_def bindb_read [OF over] b1_def [symmetric] was(1) bindb_liftb bindb_Inr [where m = "seen_all _ _ _ _ _", OF b2(1)]
      Let_def kf(1) f_def [symmetric] bindb_Inr [where m = "case_option _ _ _", OF fresh(1)] kr(1) ..
  moreover have "over g ?b L ?Lc" using over_put [OF fresh(2)] fresh(2) by auto
  moreover have "due_at_least c Lc ?Lc q"
    using ok was(1) by (auto simp: due_at_least_def decode_due_def due_places.from_bytes_write)
  moreover have "\<forall>k key. (k, key) \<noteq> (due_places_kind, places_key q) \<longrightarrow> ?Lc k key = Lc k key"
    by (auto simp: upd_apply)
  ultimately show ?thesis by blast
qed

text \<open>Each queue the batch wrote, one after the other; no other queue's places are touched.\<close>

lemma settle_queues_is:
  assumes inv: "\<forall>q. hold_inv c L q" and keyed: "held_keyed L" and exact: "index_exact c x Runtime L X"
    and scan: "\<And>lo hi n b. scan lo hi n b = Inr (between X lo hi n b)"
    and "over g b L Lc" and "distinct (map fst qs)"
    and "\<And>q ws. (q, ws) \<in> set qs \<Longrightarrow> hold_inv c Lc q \<and> left_of c L Lc q ws \<and> due_at_least c L Lc q \<and>
      next_place c L q \<le> - 2 \<and> next_place c Lc q \<le> - 2"
  shows "\<exists>b' Lc'. settle_queues c g scan qs b = (Inr (), b') \<and> over g b' L Lc' \<and>
    (\<forall>q \<in> fst ` set qs. due_at_least c Lc Lc' q) \<and>
    (\<forall>k key. (k = due_places_kind \<longrightarrow> key \<notin> places_key ` fst ` set qs) \<longrightarrow> Lc' k key = Lc k key)"
  using assms(5-)
proof (induction qs arbitrary: b Lc)
  case (Cons qw qs)
  obtain q ws where qw: "qw = (q, ws)" by (cases qw)
  have here: "hold_inv c Lc q" "left_of c L Lc q ws" "due_at_least c L Lc q" "next_place c L q \<le> - 2" "next_place c Lc q \<le> - 2"
    using Cons.prems(3) [of q ws] qw by auto
  obtain b1 Lc1 where one: "settle_queue c g scan q ws b = (Inr (), b1)" "over g b1 L Lc1" "due_at_least c Lc Lc1 q"
      "\<And>k key. (k, key) \<noteq> (due_places_kind, places_key q) \<Longrightarrow> Lc1 k key = Lc k key"
    using settle_queue_is [OF inv keyed exact scan Cons.prems(1) here] by blast
  have others: "\<forall>k. k \<noteq> due_places_kind \<longrightarrow> Lc1 k = Lc k" using one(4) by (simp add: fun_eq_iff)
  note same = held_elsewhere [OF others]
  have "hold_inv c Lc1 q' \<and> left_of c L Lc1 q' ws' \<and> due_at_least c L Lc1 q' \<and>
      next_place c L q' \<le> - 2 \<and> next_place c Lc1 q' \<le> - 2" if "(q', ws') \<in> set qs" for q' ws'
  proof -
    have "q' \<noteq> q" using Cons.prems(2) qw that by force
    then have "Lc1 due_places_kind (places_key q') = Lc due_places_kind (places_key q')" using one(4) by simp
    then have "left_of c L Lc1 q' ws' = left_of c L Lc q' ws'" "due_at_least c L Lc1 q' = due_at_least c L Lc q'"
      unfolding left_of_def due_at_least_def same by simp_all
    moreover have "(q', ws') \<in> set (qw # qs)" using that by simp
    ultimately show ?thesis using Cons.prems(3) [of q' ws'] by (simp add: same)
  qed
  then obtain b2 Lc2 where two: "settle_queues c g scan qs b1 = (Inr (), b2)" "over g b2 L Lc2"
      "\<forall>q \<in> fst ` set qs. due_at_least c Lc1 Lc2 q"
      "\<forall>k key. (k = due_places_kind \<longrightarrow> key \<notin> places_key ` fst ` set qs) \<longrightarrow> Lc2 k key = Lc1 k key"
    using Cons.IH [OF one(2)] Cons.prems(2) by auto
  have "settle_queues c g scan (qw # qs) b = (Inr (), b2)" using one(1) two(1) by (simp add: qw bindb_Inr)
  moreover have "due_at_least c Lc Lc2 q"
  proof -
    have "q \<notin> fst ` set qs" using Cons.prems(2) qw by simp
    then have "places_key q \<notin> places_key ` fst ` set qs" by force
    then have "Lc2 due_places_kind (places_key q) = Lc1 due_places_kind (places_key q)" using two(4) by blast
    then show ?thesis using one(3) by (simp add: due_at_least_def)
  qed
  moreover have "\<forall>q \<in> fst ` set qs. due_at_least c Lc Lc2 q" using two(3) by (simp add: due_at_least_def same)
  moreover have "\<forall>k key. (k = due_places_kind \<longrightarrow> key \<notin> places_key ` fst ` set (qw # qs)) \<longrightarrow> Lc2 k key = Lc k key"
    using two(4) one(4) qw by auto
  ultimately show ?case using two(2) qw by (intro exI [of _ b2] exI [of _ Lc2]) auto
qed (simp add: liftb_def, blast)

lemma settle_is:
  assumes inv: "\<forall>q. hold_inv c L q" and keyed: "held_keyed L" and exact: "index_exact c x Runtime L X"
    and scan: "\<And>lo hi n b. scan lo hi n b = Inr (between X lo hi n b)"
    and over: "over g b L L'" and bottom: "b = Bottom w cs ks" and distinct: "distinct (map fst w)"
    and inv': "\<forall>q. hold_inv c L' q" and due: "\<forall>q. due_inv c L q"
    and room: "\<forall>q. next_place c L q \<le> - 2 \<and> next_place c L' q \<le> - 2"
    and wrote: "held_writes b" and apart: "written_of b due_places_kind = []"
  shows "\<exists>b' L''. settle c g scan b = (Inr (), b') \<and> over g b' L L'' \<and> (\<forall>k. k \<noteq> due_places_kind \<longrightarrow> L'' k = L' k) \<and>
    (\<forall>q. due_inv c L'' q)"
proof -
  let ?ws = "written_held b"
  let ?of = "\<lambda>q. map snd (filter (\<lambda>w. fst w = q) ?ws)"
  let ?qs = "map (\<lambda>q. (q, ?of q)) (sort (remdups (map fst ?ws)))"
  have reads: "L' k key = (case map_of (written b) (k, key) of Some v \<Rightarrow> v | None \<Rightarrow> L k key)" for k key
    using over by (auto simp: over_def agrees_def view_def bottom split: option.splits dest!: spec [of _ k] spec [of _ key])
  have distinct_b: "distinct (map fst (written b))" using distinct by (simp add: bottom)
  note left = left_of_written [OF wrote distinct_b reads]
  have "map_of (written b) (due_places_kind, key) = None" for key
    using apart in_written_of [of key _ b due_places_kind] by (force simp: map_of_eq_None_iff)
  then have same_due: "L' due_places_kind = L due_places_kind" by (simp add: fun_eq_iff reads)
  have due': "due_at_least c L L' q" for q
    using due inv by (auto simp: due_at_least_def due_inv_def firsts_ok_waiting same_due)
  obtain b' L'' where settled: "settle_queues c g scan ?qs b = (Inr (), b')" "over g b' L L''"
      "\<forall>q \<in> fst ` set ?qs. due_at_least c L' L'' q"
      "\<forall>k key. (k = due_places_kind \<longrightarrow> key \<notin> places_key ` fst ` set ?qs) \<longrightarrow> L'' k key = L' k key"
  proof -
    have "distinct (map fst ?qs)" by (simp add: comp_def)
    moreover have "hold_inv c L' q \<and> left_of c L L' q us \<and> due_at_least c L L' q \<and> next_place c L q \<le> - 2 \<and> next_place c L' q \<le> - 2"
      if "(q, us) \<in> set ?qs" for q us
    proof -
      have "us = ?of q" using that by auto
      then show ?thesis using left [of c q] inv' due' room by simp
    qed
    ultimately have "\<exists>b' Lc'. settle_queues c g scan ?qs b = (Inr (), b') \<and> over g b' L Lc' \<and>
        (\<forall>q \<in> fst ` set ?qs. due_at_least c L' Lc' q) \<and>
        (\<forall>k key. (k = due_places_kind \<longrightarrow> key \<notin> places_key ` fst ` set ?qs) \<longrightarrow> Lc' k key = L' k key)"
      by (intro settle_queues_is [OF inv keyed exact scan over]) blast+
    then show thesis using that by blast
  qed
  have kinds: "\<forall>k. k \<noteq> due_places_kind \<longrightarrow> L'' k = L' k" using settled(4) by (simp add: fun_eq_iff)
  have now_due: "due_at_least c L' L'' q" for q
  proof (cases "q \<in> fst ` set ?ws")
    case True
    then have "q \<in> fst ` set ?qs" by (force simp: image_image)
    with settled(3) show ?thesis by blast
  next
    case False
    then have "places_key q \<notin> places_key ` fst ` set ?qs" by force
    then have "L'' due_places_kind (places_key q) = L' due_places_kind (places_key q)" using settled(4) by blast
    moreover have "?of q = []" using False by (force simp: filter_empty_conv)
    then have "entry_at c L' q = entry_at c L q" using left [of c q] by (auto simp: left_of_def entry_at_def fun_eq_iff)
    ultimately show ?thesis using due' [of q] by (simp add: due_at_least_def)
  qed
  have "due_inv c L'' q" for q
  proof -
    obtain ps where "decode_due c (L'' due_places_kind (places_key q)) = Inr ps" "firsts_ok (entry_at c L' q) ps"
      using now_due [of q] by (auto simp: due_at_least_def)
    then show ?thesis using inv' by (simp add: due_inv_def due_of_def held_elsewhere [OF kinds] firsts_ok_waiting)
  qed
  moreover have "settle c g scan b = (Inr (), b')" using settled(1) by (simp add: settle_def Let_def)
  ultimately show ?thesis using settled(2) kinds by blast
qed

end

section \<open>Properties\<close>

text \<open>
  C37: A batch settled keeps each queue's firsts by when each is due. Over a store whose index is
  exact and whose every queue keeps places at or before its firsts and counts its retries, every
  queue does so again once the batch, with what \<open>settle\<close> adds to it, is what the store holds,
  whatever held Messages the batch wrote, moved or took out; and nothing else is changed.
\<close>

theorem settle_keeps_the_firsts:
  assumes "codec_laws c" and "\<forall>q. hold_inv c L q" and "held_keyed L" and "index_exact c x Runtime L X"
    and "\<And>lo hi n b. scan lo hi n b = Inr (between X lo hi n b)"
    and "over g b L L'" and "b = Bottom w cs ks" and "distinct (map fst w)"
    and "\<forall>q. hold_inv c L' q" and "\<forall>q. due_inv c L q"
    and "\<forall>q. next_place c L q \<le> - 2 \<and> next_place c L' q \<le> - 2"
    and "held_writes b" and "written_of b due_places_kind = []"
  shows "\<exists>b' L''. settle c g scan b = (Inr (), b') \<and> over g b' L L'' \<and> (\<forall>k. k \<noteq> due_places_kind \<longrightarrow> L'' k = L' k) \<and>
    (\<forall>q. due_inv c L'' q)"
  using codec_laws.settle_is [OF assms] .

text \<open>A Message held in an empty store, and its batch settled.\<close>

definition sample_batch :: batch where
  "sample_batch = snd (run (\<lambda>k key. Inr (empty_ledger k key)) empty_batch (keep plain_codec (sample_hold 9)))"

theorem settle_keeps_the_firsts_witness:
  "\<exists>b' L''. settle plain_codec (\<lambda>k key. Inr (empty_ledger k key)) (\<lambda>lo hi n b. Inr (between Map.empty lo hi n b)) sample_batch = (Inr (), b') \<and>
    (\<forall>k. k \<noteq> due_places_kind \<longrightarrow> L'' k = held_one k) \<and> due_inv plain_codec L'' 7"
proof -
  let ?g = "\<lambda>k key. Inr (empty_ledger k key)"
  have batch: "sample_batch = Bottom
     [((''held'', entry_key 7 0), Some (w_held plain_codec (newly_held 0 (sample_hold 9)))),
      ((''held-journey'', by_key 7 9), Some (be64 0)),
      ((''held-places'', places_key 7), Some (w_places plain_codec \<lparr>pl_first = 0, pl_next = 1, pl_count = 1\<rparr>))]
     (changes sample_batch) (kept sample_batch)"
    by (simp add: sample_batch_def keep_def place_def hold_kinds_def empty_ledger_def places_def decode_places_def
        default_places_def sample_hold_def newly_held_def empty_batch_def Let_def)
  have over: "over ?g sample_batch empty_ledger held_one"
  proof -
    have "over ?g empty_batch empty_ledger empty_ledger"
      by (simp add: over_def agrees_def view_def empty_batch_def)
    then show ?thesis
      using run_eval [of ?g empty_batch empty_ledger "keep plain_codec (sample_hold 9)"] held_one_kept
      by (simp add: over_def sample_batch_def)
  qed
  have keyed: "held_keyed empty_ledger" by (simp add: held_keyed_def empty_ledger_def)
  have exact: "index_exact plain_codec plain_rules Runtime empty_ledger Map.empty"
    by (simp add: index_exact_def place_entries_def bytes_entries_def empty_ledger_def split: option.splits)
  have inv: "\<forall>q. hold_inv plain_codec empty_ledger q" and empty: "waiting plain_codec empty_ledger q = []" for q
    using hold_inv_empty by auto
  have due: "\<forall>q. due_inv plain_codec empty_ledger q"
  proof -
    have "empty_ledger k key = None" for k key by (simp add: empty_ledger_def)
    then show ?thesis by (simp add: due_inv_def due_of_def decode_due_def due_places_ok_def default_due_def)
  qed
  have room: "\<forall>q. next_place plain_codec empty_ledger q \<le> - 2 \<and> next_place plain_codec held_one q \<le> - 2"
  proof -
    have "decode_places plain_codec None = Inr default_places" by (simp add: decode_places_def)
    moreover have "(1 :: u64) \<le> - 2" by (simp add: word_le_def)
    ultimately show ?thesis
      by (simp add: next_place_def places_of_def hold_kinds_def held_one_def upd_apply empty_ledger_def default_places_def)
  qed
  have "held_writes sample_batch" "written_of sample_batch due_places_kind = []"
    by (subst batch; fastforce simp: held_writes_def written_of_def hold_kinds_def due_places_kind_def)+
  from settle_keeps_the_firsts [OF plain.codec_laws_axioms inv keyed exact refl over batch _ _ due room this]
  show ?thesis using held_one_inv by auto
qed

end
