(* ===== verification/Waiting.thy ===== *)
theory Waiting
  imports Prelude
begin

text \<open>
  The writes waiting for the embedded Storage node's next batch, and who decides it
  (\<open>src/.src/storage/commit/waiting.rs\<close>): each caller is a thread that asks for one write; one of
  them leads, decides every write waiting as one batch on its own thread, and hands the lead on once
  its own is answered.

  The threads interleave: a step is what one caller does between two waits, inside one hold of the
  queue's lock (\<open>moved\<close>), and a run any sequence of such steps by any callers. The writer is a
  parameter: what it makes of a group of writes, and which of them it answered before it was done
  or panicked, a write it did not answer having had its reply dropped.
\<close>

section \<open>A caller, and the writes waiting\<close>

text \<open>What a caller is told on its reply (\<open>Answer\<close>), and where it is.\<close>

datatype 'a told = Decided (decided_answer: "'a result") | Lead

datatype ('op, 'a) caller_at =
    Outside
  | AtLock
  | Leading
  | Deciding "('op \<times> nat) list"
  | Looking
  | HandingOn "'a result"
  | Receiving
  | Returned "'a result"

text \<open>
  A reply holds one answer at most (\<open>sync_channel(1)\<close>); \<open>wq_cut\<close> are the callers whose reply has been
  dropped. \<open>wq_asked\<close> and \<open>wq_groups\<close> are what was asked and what was decided so far, for the
  statements alone.
\<close>

record ('op, 'w, 'a) waiting_state =
  wq_writes :: "('op \<times> nat) list"
  wq_leading :: bool
  wq_writer :: 'w
  wq_holder :: "nat option"
  wq_told :: "nat \<Rightarrow> 'a told option"
  wq_cut :: "nat set"
  wq_at :: "nat \<Rightarrow> ('op, 'a) caller_at"
  wq_asked :: "('op \<times> nat) list"
  wq_groups :: "('op \<times> nat) list list"

type_synonym ('op, 'w, 'a) decides = "'w \<Rightarrow> 'op list \<Rightarrow> 'w \<times> 'a result option list"

definition group_most :: nat where "group_most = 1024"

definition writer_failed :: persist_error where
  "writer_failed = Engine ''xmip-storage'' ''the writer failed deciding the batch this write was in''"

definition waiting_new :: "'w \<Rightarrow> ('op, 'w, 'a) waiting_state" where
  "waiting_new w = \<lparr>wq_writes = [], wq_leading = False, wq_writer = w, wq_holder = None, wq_told = (\<lambda>_. None),
     wq_cut = {}, wq_at = (\<lambda>_. Outside), wq_asked = [], wq_groups = []\<rparr>"

definition callers :: "('op \<times> nat) list \<Rightarrow> nat set" where
  "callers ws = snd ` set ws"

lemma callers_simps [simp]:
  "callers [] = {}" "callers ((op, i) # ws) = insert i (callers ws)" "callers (ws @ ws') = callers ws \<union> callers ws'"
  by (auto simp: callers_def)

section \<open>What a caller does\<close>

abbreviation goes :: "nat \<Rightarrow> ('op, 'a) caller_at \<Rightarrow> ('op, 'w, 'a) waiting_state \<Rightarrow> ('op, 'w, 'a) waiting_state" where
  "goes i at' s \<equiv> s\<lparr>wq_at := (wq_at s)(i := at')\<rparr>"

text \<open>Its write pushed; it leads where none does.\<close>

definition asks :: "nat \<Rightarrow> 'op \<Rightarrow> ('op, 'w, 'a) waiting_state \<Rightarrow> ('op, 'w, 'a) waiting_state" where
  "asks i op s = goes i (if wq_leading s then Receiving else AtLock)
     (s\<lparr>wq_writes := wq_writes s @ [(op, i)], wq_leading := True, wq_asked := wq_asked s @ [(op, i)]\<rparr>)"

text \<open>A leader takes the writes waiting, \<open>group_most\<close> at the most; none leads where none wait.\<close>

definition takes :: "nat \<Rightarrow> ('op, 'w, 'a) waiting_state \<Rightarrow> ('op, 'w, 'a) waiting_state" where
  "takes i s = (if wq_writes s = [] then goes i Receiving (s\<lparr>wq_leading := False, wq_holder := None\<rparr>)
     else goes i (Deciding (take group_most (wq_writes s))) (s\<lparr>wq_writes := drop group_most (wq_writes s)\<rparr>))"

text \<open>What each caller of a group is answered, where it is.\<close>

definition answers :: "('op \<times> nat) list \<Rightarrow> 'a result option list \<Rightarrow> nat \<Rightarrow> 'a result option" where
  "answers g as i = (case map_of (zip (map snd g) as) i of None \<Rightarrow> None | Some a \<Rightarrow> a)"

definition commits :: "('op, 'w, 'a) decides \<Rightarrow> nat \<Rightarrow> ('op \<times> nat) list \<Rightarrow> ('op, 'w, 'a) waiting_state \<Rightarrow>
    ('op, 'w, 'a) waiting_state" where
  "commits commit i g s = (let (w, as) = commit (wq_writer s) (map fst g) in
     goes i Looking (s\<lparr>wq_writer := w,
       wq_told := (\<lambda>j. case answers g as j of Some a \<Rightarrow> Some (Decided a) | None \<Rightarrow> wq_told s j),
       wq_cut := wq_cut s \<union> callers g, wq_groups := wq_groups s @ [g]\<rparr>))"

text \<open>Its own reply looked at: answered, or dropped, it lets go of the writer; otherwise it leads on.\<close>

definition looks :: "nat \<Rightarrow> ('op, 'w, 'a) waiting_state \<Rightarrow> ('op, 'w, 'a) waiting_state" where
  "looks i s = (case wq_told s i of
     Some (Decided a) \<Rightarrow> goes i (HandingOn a) (s\<lparr>wq_told := (wq_told s)(i := None), wq_holder := None\<rparr>)
   | Some Lead \<Rightarrow> goes i Leading (s\<lparr>wq_told := (wq_told s)(i := None)\<rparr>)
   | None \<Rightarrow> if i \<in> wq_cut s then goes i (HandingOn (Inl writer_failed)) (s\<lparr>wq_holder := None\<rparr>)
       else goes i Leading s)"

text \<open>
  The lead to the first write waiting whose caller can be told: its reply has room and it has not
  gone. A write whose caller cannot is not decided.
\<close>

definition can_be_told :: "('op, 'w, 'a) waiting_state \<Rightarrow> nat \<Rightarrow> bool" where
  "can_be_told s i \<longleftrightarrow> wq_told s i = None \<and> (case wq_at s i of Outside \<Rightarrow> False | Returned _ \<Rightarrow> False | _ \<Rightarrow> True)"

fun hand_on_lead :: "('op \<times> nat) list \<Rightarrow> ('op, 'w, 'a) waiting_state \<Rightarrow> ('op, 'w, 'a) waiting_state" where
  "hand_on_lead [] s = s\<lparr>wq_writes := [], wq_leading := False\<rparr>"
| "hand_on_lead ((op, j) # ws) s = (if can_be_told s j
     then s\<lparr>wq_writes := (op, j) # ws, wq_told := (wq_told s)(j := Some Lead)\<rparr>
     else hand_on_lead ws (s\<lparr>wq_cut := insert j (wq_cut s)\<rparr>))"

text \<open>An answer waited for: none yet is no step.\<close>

definition receives :: "nat \<Rightarrow> ('op, 'w, 'a) waiting_state \<Rightarrow> ('op, 'w, 'a) waiting_state option" where
  "receives i s = (case wq_told s i of
     Some (Decided a) \<Rightarrow> Some (goes i (Returned a) (s\<lparr>wq_told := (wq_told s)(i := None)\<rparr>))
   | Some Lead \<Rightarrow> Some (goes i AtLock (s\<lparr>wq_told := (wq_told s)(i := None)\<rparr>))
   | None \<Rightarrow> if i \<in> wq_cut s then Some (goes i (Returned (Inl writer_failed)) s) else None)"

definition moved :: "('op, 'w, 'a) decides \<Rightarrow> nat \<Rightarrow> ('op, 'w, 'a) waiting_state \<Rightarrow> ('op, 'w, 'a) waiting_state option" where
  "moved commit i s = (case wq_at s i of
     Outside \<Rightarrow> None
   | AtLock \<Rightarrow> if wq_holder s = None then Some (goes i Leading (s\<lparr>wq_holder := Some i\<rparr>)) else None
   | Leading \<Rightarrow> Some (takes i s)
   | Deciding g \<Rightarrow> Some (commits commit i g s)
   | Looking \<Rightarrow> Some (looks i s)
   | HandingOn a \<Rightarrow> Some (goes i (Returned a) (hand_on_lead (wq_writes s) s))
   | Receiving \<Rightarrow> receives i s
   | Returned _ \<Rightarrow> None)"

inductive steps_to :: "('op, 'w, 'a) decides \<Rightarrow> ('op, 'w, 'a) waiting_state \<Rightarrow> ('op, 'w, 'a) waiting_state \<Rightarrow> bool"
  for commit where
    ask: "wq_at s i = Outside \<Longrightarrow> steps_to commit s (asks i op s)"
  | move: "moved commit i s = Some s' \<Longrightarrow> steps_to commit s s'"

inductive reachable :: "('op, 'w, 'a) decides \<Rightarrow> 'w \<Rightarrow> ('op, 'w, 'a) waiting_state \<Rightarrow> bool"
  for commit w where
    start: "reachable commit w (waiting_new w)"
  | step: "reachable commit w s \<Longrightarrow> steps_to commit s s' \<Longrightarrow> reachable commit w s'"

inductive_cases steps_to_cases: "steps_to commit s s'"

section \<open>What the groups decided come to\<close>

text \<open>The groups decided one after the other: the writer they leave and what each caller is answered.\<close>

definition group_after :: "('op, 'w, 'a) decides \<Rightarrow> ('op \<times> nat) list \<Rightarrow> 'w \<times> (nat \<Rightarrow> 'a result option) \<Rightarrow>
    'w \<times> (nat \<Rightarrow> 'a result option)" where
  "group_after commit g wm = (let (w, as) = commit (fst wm) (map fst g) in
     (w, \<lambda>i. case answers g as i of Some a \<Rightarrow> Some a | None \<Rightarrow> snd wm i))"

definition groups_after :: "('op, 'w, 'a) decides \<Rightarrow> 'w \<Rightarrow> ('op \<times> nat) list list \<Rightarrow> 'w \<times> (nat \<Rightarrow> 'a result option)" where
  "groups_after commit w gs = foldl (\<lambda>wm g. group_after commit g wm) (w, \<lambda>_. None) gs"

definition final_answer :: "('op, 'w, 'a) decides \<Rightarrow> 'w \<Rightarrow> ('op \<times> nat) list list \<Rightarrow> nat \<Rightarrow> 'a result" where
  "final_answer commit w gs i = (case snd (groups_after commit w gs) i of Some a \<Rightarrow> a | None \<Rightarrow> Inl writer_failed)"

lemma groups_after_append: "groups_after commit w (gs @ [g]) = group_after commit g (groups_after commit w gs)"
  by (simp add: groups_after_def)

lemma answers_outside: "i \<notin> callers g \<Longrightarrow> answers g as i = None"
  by (force simp: answers_def callers_def split: option.split dest!: map_of_SomeD set_zip_leftD)

lemma groups_after_other:
  "i \<notin> callers g \<Longrightarrow> snd (groups_after commit w (gs @ [g])) i = snd (groups_after commit w gs) i"
  by (simp add: groups_after_append group_after_def answers_outside split: prod.split)

lemma groups_after_none: "i \<notin> callers (concat gs) \<Longrightarrow> snd (groups_after commit w gs) i = None"
proof (induction gs rule: rev_induct)
  case (snoc g gs)
  then have "i \<notin> callers g" "i \<notin> callers (concat gs)" by simp_all
  with snoc.IH show ?case by (metis groups_after_other)
qed (simp add: groups_after_def)

section \<open>The invariant\<close>

definition decided_of :: "('op, 'w, 'a) waiting_state \<Rightarrow> nat set" where
  "decided_of s = callers (concat (wq_groups s))"

definition deciding_now :: "('op, 'w, 'a) waiting_state \<Rightarrow> ('op \<times> nat) list" where
  "deciding_now s = (case wq_holder s of None \<Rightarrow> [] | Some i \<Rightarrow> (case wq_at s i of Deciding g \<Rightarrow> g | _ \<Rightarrow> []))"

definition leads :: "('op, 'w, 'a) waiting_state \<Rightarrow> nat \<Rightarrow> bool" where
  "leads s i \<longleftrightarrow> wq_told s i = Some Lead \<or>
     (case wq_at s i of AtLock \<Rightarrow> True | Leading \<Rightarrow> True | Deciding _ \<Rightarrow> True | Looking \<Rightarrow> True | HandingOn _ \<Rightarrow> True | _ \<Rightarrow> False)"

definition holds_writer :: "('op, 'w, 'a) waiting_state \<Rightarrow> nat \<Rightarrow> bool" where
  "holds_writer s i \<longleftrightarrow> (case wq_at s i of Leading \<Rightarrow> True | Deciding _ \<Rightarrow> True | Looking \<Rightarrow> True | _ \<Rightarrow> False)"

text \<open>Where a caller may be, by where its write is: waiting, in the group being decided, or decided.\<close>

definition caller_ok :: "('op, 'w, 'a) decides \<Rightarrow> 'w \<Rightarrow> ('op, 'w, 'a) waiting_state \<Rightarrow> nat \<Rightarrow> bool" where
  "caller_ok commit w s i \<longleftrightarrow> (let W = callers (wq_writes s); G = callers (deciding_now s);
       D = decided_of s; a = snd (groups_after commit w (wq_groups s)) i in
     (i \<in> wq_cut s \<longleftrightarrow> i \<in> D) \<and>
     (case wq_at s i of
       Outside \<Rightarrow> i \<notin> callers (wq_asked s) \<and> wq_told s i = None
     | AtLock \<Rightarrow> i \<in> W \<and> wq_told s i = None
     | Leading \<Rightarrow> i \<in> W \<and> wq_told s i = None
     | Deciding g \<Rightarrow> (i \<in> W \<or> i \<in> G) \<and> wq_told s i = None
     | Looking \<Rightarrow> i \<in> W \<and> wq_told s i = None \<or> i \<in> D \<and> wq_told s i = map_option Decided a
     | HandingOn r \<Rightarrow> i \<in> D \<and> wq_told s i = None \<and> r = final_answer commit w (wq_groups s) i
     | Receiving \<Rightarrow> i \<in> W \<and> (wq_told s i = None \<or> wq_told s i = Some Lead) \<or> i \<in> G \<and> wq_told s i = None \<or>
         i \<in> D \<and> wq_told s i = map_option Decided a
     | Returned r \<Rightarrow> i \<in> D \<and> wq_told s i = None \<and> r = final_answer commit w (wq_groups s) i))"

definition waiting_inv :: "('op, 'w, 'a) decides \<Rightarrow> 'w \<Rightarrow> ('op, 'w, 'a) waiting_state \<Rightarrow> bool" where
  "waiting_inv commit w s \<longleftrightarrow>
     wq_asked s = concat (wq_groups s) @ deciding_now s @ wq_writes s \<and> distinct (map snd (wq_asked s)) \<and>
     (\<forall>g \<in> set (wq_groups s). 0 < length g \<and> length g \<le> group_most) \<and>
     (\<forall>i g. wq_at s i = Deciding g \<longrightarrow> 0 < length g \<and> length g \<le> group_most) \<and>
     wq_writer s = fst (groups_after commit w (wq_groups s)) \<and>
     (\<forall>i j. leads s i \<longrightarrow> leads s j \<longrightarrow> i = j) \<and> (wq_leading s \<longleftrightarrow> (\<exists>i. leads s i)) \<and>
     (\<not> wq_leading s \<longrightarrow> wq_writes s = []) \<and>
     (\<forall>i. wq_holder s = Some i \<longleftrightarrow> holds_writer s i) \<and> (\<forall>i. caller_ok commit w s i)"


lemma waiting_inv_dests:
  assumes "waiting_inv commit w s"
  shows inv_asked: "wq_asked s = concat (wq_groups s) @ deciding_now s @ wq_writes s"
    and inv_distinct: "distinct (map snd (wq_asked s))"
    and inv_groups: "g \<in> set (wq_groups s) \<Longrightarrow> 0 < length g \<and> length g \<le> group_most"
    and inv_deciding: "wq_at s i = Deciding g \<Longrightarrow> 0 < length g \<and> length g \<le> group_most"
    and inv_writer: "wq_writer s = fst (groups_after commit w (wq_groups s))"
    and inv_one_leads: "leads s i \<Longrightarrow> leads s j \<Longrightarrow> i = j"
    and inv_leading: "wq_leading s \<longleftrightarrow> (\<exists>i. leads s i)"
    and inv_none_wait: "\<not> wq_leading s \<Longrightarrow> wq_writes s = []"
    and inv_holder: "wq_holder s = Some i \<longleftrightarrow> holds_writer s i"
    and inv_caller: "caller_ok commit w s i"
  using assms unfolding waiting_inv_def by blast+

lemma caller_ok_same:
  assumes "wq_at s' j = wq_at s j" and "wq_told s' j = wq_told s j" and "j \<in> wq_cut s' \<longleftrightarrow> j \<in> wq_cut s"
    and "wq_groups s' = wq_groups s" and "j \<in> callers (wq_writes s') \<longleftrightarrow> j \<in> callers (wq_writes s)"
    and "j \<in> callers (deciding_now s') \<longleftrightarrow> j \<in> callers (deciding_now s)"
    and "j \<in> callers (wq_asked s') \<longleftrightarrow> j \<in> callers (wq_asked s)"
  shows "caller_ok commit w s' j \<longleftrightarrow> caller_ok commit w s j"
  using assms by (simp add: caller_ok_def decided_of_def Let_def split: caller_at.split)

text \<open>Whose write is where, once: in a group decided, in the one being decided, or waiting.\<close>

lemma inv_apart:
  assumes "waiting_inv commit w s"
  shows "decided_of s \<inter> callers (deciding_now s) = {}" and "decided_of s \<inter> callers (wq_writes s) = {}"
    and "callers (deciding_now s) \<inter> callers (wq_writes s) = {}"
    and "callers (wq_asked s) = decided_of s \<union> callers (deciding_now s) \<union> callers (wq_writes s)"
proof -
  have "distinct (map snd (concat (wq_groups s) @ deciding_now s @ wq_writes s))"
    using inv_distinct [OF assms] by (simp only: inv_asked [OF assms])
  then have "decided_of s \<inter> (callers (deciding_now s) \<union> callers (wq_writes s)) = {} \<and>
      callers (deciding_now s) \<inter> callers (wq_writes s) = {}"
    unfolding decided_of_def callers_def by (simp only: map_append distinct_append set_append set_map image_Un simp_thms)
  then show "decided_of s \<inter> callers (deciding_now s) = {}" "decided_of s \<inter> callers (wq_writes s) = {}"
      "callers (deciding_now s) \<inter> callers (wq_writes s) = {}" by blast+
  show "callers (wq_asked s) = decided_of s \<union> callers (deciding_now s) \<union> callers (wq_writes s)"
    by (simp only: inv_asked [OF assms] decided_of_def callers_simps Un_assoc)
qed

lemma decided_not_lead [simp]: "map_option Decided a \<noteq> Some Lead" "Some Lead \<noteq> map_option Decided a"
  by (cases a; simp)+

lemma waiting_invI:
  assumes "wq_asked s = concat (wq_groups s) @ deciding_now s @ wq_writes s" and "distinct (map snd (wq_asked s))"
    and "\<And>g. g \<in> set (wq_groups s) \<Longrightarrow> 0 < length g \<and> length g \<le> group_most"
    and "\<And>i g. wq_at s i = Deciding g \<Longrightarrow> 0 < length g \<and> length g \<le> group_most"
    and "wq_writer s = fst (groups_after commit w (wq_groups s))"
    and "\<And>i j. leads s i \<Longrightarrow> leads s j \<Longrightarrow> i = j" and "wq_leading s \<longleftrightarrow> (\<exists>i. leads s i)"
    and "\<not> wq_leading s \<Longrightarrow> wq_writes s = []" and "\<And>i. wq_holder s = Some i \<longleftrightarrow> holds_writer s i"
    and "\<And>i. caller_ok commit w s i"
  shows "waiting_inv commit w s"
  using assms unfolding waiting_inv_def by blast

lemma asks_sel [simp]:
  "wq_at (asks i op s) = (wq_at s)(i := if wq_leading s then Receiving else AtLock)"
  "wq_writes (asks i op s) = wq_writes s @ [(op, i)]" "wq_leading (asks i op s)"
  "wq_asked (asks i op s) = wq_asked s @ [(op, i)]" "wq_writer (asks i op s) = wq_writer s"
  "wq_holder (asks i op s) = wq_holder s" "wq_told (asks i op s) = wq_told s" "wq_cut (asks i op s) = wq_cut s"
  "wq_groups (asks i op s) = wq_groups s"
  by (simp_all add: asks_def)

lemma inv_asks:
  assumes inv: "waiting_inv commit w s" and out: "wq_at s i = Outside"
  shows "waiting_inv commit w (asks i op s)"
proof -
  let ?s = "asks i op s"
  note d = waiting_inv_dests [OF inv]
  have new: "i \<notin> callers (wq_asked s)" "wq_told s i = None" "i \<notin> wq_cut s"
    using d(10) [of i] out inv_apart(4) [OF inv] by (auto simp: caller_ok_def Let_def)
  have none: "wq_holder s \<noteq> Some i" using d(9) [of i] out by (simp add: holds_writer_def)
  have deciding: "deciding_now ?s = deciding_now s"
    using none by (auto simp: deciding_now_def split: option.split)
  have leads: "leads ?s j \<longleftrightarrow> (if wq_leading s then leads s j else j = i)" for j
    using d(7) out new(2) by (auto simp: leads_def split: caller_at.splits)
  have caller: "caller_ok commit w ?s j" for j
  proof (cases "j = i")
    case True
    have "i \<notin> decided_of s" using new(1) inv_apart(4) [OF inv] by blast
    then show ?thesis using True new by (simp add: caller_ok_def decided_of_def Let_def)
  next
    case False
    then have "caller_ok commit w ?s j \<longleftrightarrow> caller_ok commit w s j"
      by (intro caller_ok_same) (auto simp: deciding)
    then show ?thesis using d(10) by simp
  qed
  have "wq_asked ?s = concat (wq_groups ?s) @ deciding_now ?s @ wq_writes ?s"
    unfolding deciding using d(1) by simp
  moreover have "distinct (map snd (wq_asked ?s))" using d(2) new(1) by (simp add: callers_def)
  moreover have "wq_holder ?s = Some j \<longleftrightarrow> holds_writer ?s j" for j
    using d(9) [of j] none by (auto simp: holds_writer_def)
  moreover have "wq_at ?s j = Deciding g \<Longrightarrow> 0 < length g \<and> length g \<le> group_most" for j g
    using d(4) [of j g] by (simp split: if_splits)
  moreover have "j = k" if "leads ?s j" "leads ?s k" for j k
    using that d(6) by (auto simp: leads split: if_splits)
  moreover have "\<exists>j. leads ?s j" using d(7) by (cases "wq_leading s") (auto simp: leads)
  ultimately show ?thesis
    using d(3,5) caller by (intro waiting_invI) (simp_all del: map_append)
qed

text \<open>A caller whose write waits, or is being decided by another, waits for its answer.\<close>

lemma inv_waits:
  assumes "waiting_inv commit w s" and "j \<in> callers (wq_writes s) \<or> j \<in> callers (deciding_now s)" and "\<not> leads s j"
  shows "wq_at s j = Receiving \<and> wq_told s j = None \<and> j \<notin> decided_of s \<and> j \<notin> wq_cut s"
proof -
  have "j \<notin> decided_of s" "j \<in> callers (wq_asked s)" using inv_apart [OF assms(1)] assms(2) by blast+
  then show ?thesis
    using inv_caller [OF assms(1), of j] assms(3)
    by (cases "wq_at s j") (auto simp: caller_ok_def Let_def leads_def)
qed

lemma inv_locks:
  assumes inv: "waiting_inv commit w s" and at: "wq_at s i = AtLock" and free: "wq_holder s = None"
    and s': "s' = goes i Leading (s\<lparr>wq_holder := Some i\<rparr>)"
  shows "waiting_inv commit w s'"
proof -
  have sel: "wq_at s' = (wq_at s)(i := Leading)" "wq_holder s' = Some i" "wq_writes s' = wq_writes s" "wq_told s' = wq_told s"
      "wq_leading s' = wq_leading s" "wq_writer s' = wq_writer s" "wq_cut s' = wq_cut s" "wq_asked s' = wq_asked s"
      "wq_groups s' = wq_groups s" by (simp_all add: s')
  note d = waiting_inv_dests [OF inv]
  have deciding: "deciding_now s = []" "deciding_now s' = []" using free sel by (simp_all add: deciding_now_def)
  have leads: "leads s' j \<longleftrightarrow> leads s j" for j using at by (simp add: leads_def sel)
  have holder: "wq_holder s' = Some j \<longleftrightarrow> holds_writer s' j" for j
    using d(9) [of j] free by (auto simp: holds_writer_def sel)
  have caller: "caller_ok commit w s' j" for j
  proof (cases "j = i")
    case True
    then show ?thesis using d(10) [of i] at by (simp add: caller_ok_def decided_of_def Let_def sel)
  next
    case False
    then have "caller_ok commit w s' j \<longleftrightarrow> caller_ok commit w s j" by (intro caller_ok_same) (simp_all add: deciding sel)
    then show ?thesis using d(10) by simp
  qed
  show ?thesis
  proof (rule waiting_invI)
    show "wq_asked s' = concat (wq_groups s') @ deciding_now s' @ wq_writes s'" using d(1) by (simp add: sel deciding)
    show "0 < length g \<and> length g \<le> group_most" if "wq_at s' j = Deciding g" for j g
      using that d(4) [of j g] by (simp add: sel split: if_splits)
  qed (use d(2,3,5-8) caller holder in \<open>simp_all only: sel leads simp_thms\<close>)
qed

lemma inv_takes:
  assumes inv: "waiting_inv commit w s" and at: "wq_at s i = Leading"
  shows "waiting_inv commit w (takes i s)"
proof -
  let ?g = "take group_most (wq_writes s)"
  define s' where "s' = takes i s"
  note d = waiting_inv_dests [OF inv]
  have i: "i \<in> callers (wq_writes s)" "wq_told s i = None" "i \<notin> decided_of s"
    using d(10) [of i] at inv_apart(2) [OF inv] by (auto simp: caller_ok_def Let_def)
  then have "wq_writes s \<noteq> []" by auto
  then have sel: "wq_at s' = (wq_at s)(i := Deciding ?g)" "wq_holder s' = wq_holder s" "wq_told s' = wq_told s"
      "wq_writes s' = drop group_most (wq_writes s)" "wq_leading s' = wq_leading s" "wq_writer s' = wq_writer s"
      "wq_cut s' = wq_cut s" "wq_asked s' = wq_asked s" "wq_groups s' = wq_groups s" by (simp_all add: s'_def takes_def)
  have holder: "wq_holder s = Some i" using d(9) [of i] at by (simp add: holds_writer_def)
  have deciding: "deciding_now s = []" "deciding_now s' = ?g" using at holder sel by (simp_all add: deciding_now_def)
  have leads: "leads s' j \<longleftrightarrow> leads s j" for j using at by (simp add: leads_def sel)
  have lead: "leads s i" using at by (simp add: leads_def)
  have split: "callers (wq_writes s) = callers ?g \<union> callers (drop group_most (wq_writes s))"
    by (metis append_take_drop_id callers_simps(3))
  have caller: "caller_ok commit w s' j" for j
  proof (cases "j = i")
    case True
    then show ?thesis
      using d(10) [of i] at split i by (auto simp: caller_ok_def decided_of_def Let_def deciding sel)
  next
    case other: False
    show ?thesis
    proof (cases "j \<in> callers ?g")
      case True
      then have "j \<in> callers (wq_writes s)" "\<not> leads s j" using split other d(6) [OF lead, of j] by auto
      with inv_waits [OF inv, of j] d(10) [of j] True show ?thesis
        by (simp add: caller_ok_def decided_of_def Let_def deciding other sel)
    next
      case False
      then have "j \<in> callers (drop group_most (wq_writes s)) \<longleftrightarrow> j \<in> callers (wq_writes s)" using split by blast
      then have "caller_ok commit w s' j \<longleftrightarrow> caller_ok commit w s j"
        using False other by (intro caller_ok_same) (simp_all add: deciding sel)
      then show ?thesis using d(10) by simp
    qed
  qed
  have "?g \<noteq> []" using \<open>wq_writes s \<noteq> []\<close> by (simp add: group_most_def)
  then have groups: "wq_at s' j = Deciding g \<Longrightarrow> 0 < length g \<and> length g \<le> group_most" for j g
    using d(4) [of j g] by (auto simp: sel split: if_splits)
  have writer: "wq_holder s' = Some j \<longleftrightarrow> holds_writer s' j" for j
    using d(9) [of j] at by (auto simp: holds_writer_def sel)
  show ?thesis
    unfolding s'_def [symmetric]
  proof (rule waiting_invI)
    show "wq_asked s' = concat (wq_groups s') @ deciding_now s' @ wq_writes s'" using d(1) by (simp add: sel deciding)
    show "\<not> wq_leading s' \<Longrightarrow> wq_writes s' = []" using d(7) lead by (auto simp: sel)
  qed (use d(2,3,5-7) caller groups writer in \<open>simp_all only: sel leads simp_thms\<close>)
qed

lemma group_quiet:
  assumes inv: "waiting_inv commit w s" and at: "wq_at s i = Deciding g" and j: "j \<in> callers g"
  shows "wq_told s j = None"
proof (cases "j = i")
  case True
  then show ?thesis using inv_caller [OF inv, of i] at by (auto simp: caller_ok_def Let_def)
next
  case False
  have "wq_holder s = Some i" using inv_holder [OF inv, of i] at by (simp add: holds_writer_def)
  then have "deciding_now s = g" using at by (simp add: deciding_now_def)
  moreover have "\<not> leads s j" using inv_one_leads [OF inv, of i j] at False by (auto simp: leads_def)
  ultimately show ?thesis using inv_waits [OF inv, of j] j by simp
qed

lemma inv_commits:
  assumes inv: "waiting_inv commit w s" and at: "wq_at s i = Deciding g"
  shows "waiting_inv commit w (commits commit i g s)"
proof -
  obtain w' as where c: "commit (wq_writer s) (map fst g) = (w', as)" by fastforce
  define s' where "s' = commits commit i g s"
  have sel: "wq_at s' = (wq_at s)(i := Looking)" "wq_holder s' = wq_holder s" "wq_writes s' = wq_writes s"
      "wq_told s' = (\<lambda>j. case answers g as j of Some a \<Rightarrow> Some (Decided a) | None \<Rightarrow> wq_told s j)"
      "wq_leading s' = wq_leading s" "wq_writer s' = w'" "wq_cut s' = wq_cut s \<union> callers g"
      "wq_asked s' = wq_asked s" "wq_groups s' = wq_groups s @ [g]" by (simp_all add: s'_def commits_def c)
  note d = waiting_inv_dests [OF inv]
  have lead: "leads s i" using at by (simp add: leads_def)
  have holder: "wq_holder s = Some i" using d(9) [of i] at by (simp add: holds_writer_def)
  have deciding: "deciding_now s = g" "deciding_now s' = []" using at holder sel by (simp_all add: deciding_now_def)
  have decided: "decided_of s' = decided_of s \<union> callers g" by (simp add: decided_of_def sel)
  have after: "snd (groups_after commit w (wq_groups s')) j = (if j \<in> callers g then answers g as j
      else snd (groups_after commit w (wq_groups s)) j)" for j
  proof (cases "j \<in> callers g")
    case True
    then have "j \<notin> callers (concat (wq_groups s))" using inv_apart(1) [OF inv] deciding by (auto simp: decided_of_def)
    then have "snd (groups_after commit w (wq_groups s)) j = None" by (rule groups_after_none)
    then show ?thesis
      using True by (simp add: sel groups_after_append group_after_def c d(5) [symmetric] split: option.split)
  qed (simp add: sel groups_after_other)
  note quiet = group_quiet [OF inv at]
  have told: "wq_told s' j = (if j \<in> callers g then map_option Decided (answers g as j) else wq_told s j)" for j
    using quiet [of j] by (cases "j \<in> callers g") (simp_all add: sel answers_outside split: option.split)
  have same: "wq_told s' j = Some Lead \<longleftrightarrow> wq_told s j = Some Lead" for j
    using quiet [of j] by (simp add: told)
  have leads: "leads s' j \<longleftrightarrow> leads s j" for j using at by (simp add: leads_def same) (simp add: sel)
  have caller: "caller_ok commit w s' j" for j
  proof (cases "j \<in> callers g")
    case True
    have "j \<notin> callers (wq_writes s)" using True inv_apart(3) [OF inv] deciding by auto
    moreover have "wq_at s' j = Looking \<or> wq_at s' j = Receiving"
      using True inv_waits [OF inv, of j] d(6) [OF lead, of j] deciding by (auto simp: sel)
    ultimately show ?thesis
      using True after [of j] told [of j] unfolding caller_ok_def Let_def decided by (auto simp: sel deciding)
  next
    case other: False
    show ?thesis
    proof (cases "j = i")
      case True
      then show ?thesis
        using d(10) [of i] at other told [of i] inv_apart(2) [OF inv]
        unfolding caller_ok_def Let_def decided by (auto simp: sel deciding)
    next
      case False
      then have "wq_at s' j = wq_at s j" by (simp add: sel)
      moreover have "final_answer commit w (wq_groups s') j = final_answer commit w (wq_groups s) j"
        using after [of j] other by (simp add: final_answer_def)
      ultimately show ?thesis
        using d(10) [of j] after [of j] told [of j] other deciding
        unfolding caller_ok_def Let_def decided by (auto simp: sel split: caller_at.split)
    qed
  qed
  show ?thesis
    unfolding s'_def [symmetric]
  proof (rule waiting_invI)
    show "wq_asked s' = concat (wq_groups s') @ deciding_now s' @ wq_writes s'" using d(1) by (simp add: sel deciding)
    show "0 < length h \<and> length h \<le> group_most" if "h \<in> set (wq_groups s')" for h
      using that d(3) [of h] d(4) [OF at] by (auto simp: sel)
    show "0 < length h \<and> length h \<le> group_most" if "wq_at s' j = Deciding h" for j h
      using that d(4) [of j h] by (simp add: sel split: if_splits)
    show "wq_writer s' = fst (groups_after commit w (wq_groups s'))"
      by (simp add: sel groups_after_append group_after_def d(5) [symmetric] c)
    show "wq_holder s' = Some j \<longleftrightarrow> holds_writer s' j" for j
      using d(9) [of j] at by (auto simp: sel holds_writer_def)
  qed (use d(2,6-8) caller in \<open>simp_all only: sel leads simp_thms\<close>)
qed

lemma inv_looks:
  assumes inv: "waiting_inv commit w s" and at: "wq_at s i = Looking"
  shows "waiting_inv commit w (looks i s)"
proof -
  define s' where "s' = looks i s"
  note d = waiting_inv_dests [OF inv]
  have holder: "wq_holder s = Some i" using d(9) [of i] at by (simp add: holds_writer_def)
  have ok: "i \<in> callers (wq_writes s) \<and> wq_told s i = None \<and> i \<notin> wq_cut s \<or> i \<in> decided_of s \<and> i \<in> wq_cut s \<and>
      wq_told s i = map_option Decided (snd (groups_after commit w (wq_groups s)) i)"
    using d(10) [of i] at inv_apart(2) [OF inv] by (auto simp: caller_ok_def Let_def)
  let ?at = "if i \<in> wq_cut s then HandingOn (final_answer commit w (wq_groups s) i) else Leading"
  have sel: "wq_at s' = (wq_at s)(i := ?at)" "wq_holder s' = (if i \<in> wq_cut s then None else Some i)"
      "wq_told s' = (wq_told s)(i := None)" "wq_writes s' = wq_writes s" "wq_leading s' = wq_leading s"
      "wq_writer s' = wq_writer s" "wq_cut s' = wq_cut s" "wq_asked s' = wq_asked s" "wq_groups s' = wq_groups s"
    using ok holder by (auto simp: s'_def looks_def final_answer_def split: option.splits told.splits)
  have deciding: "deciding_now s = []" "deciding_now s' = []" using at holder by (simp_all add: deciding_now_def sel)
  have leads: "leads s' j \<longleftrightarrow> leads s j" for j using at by (simp add: leads_def sel)
  have caller: "caller_ok commit w s' j" for j
  proof (cases "j = i")
    case True
    then show ?thesis using ok d(10) [of i] at by (auto simp: caller_ok_def decided_of_def Let_def sel)
  next
    case False
    then have "caller_ok commit w s' j \<longleftrightarrow> caller_ok commit w s j" by (intro caller_ok_same) (simp_all add: deciding sel)
    then show ?thesis using d(10) by simp
  qed
  show ?thesis
    unfolding s'_def [symmetric]
  proof (rule waiting_invI)
    show "wq_asked s' = concat (wq_groups s') @ deciding_now s' @ wq_writes s'" using d(1) by (simp add: sel deciding)
    show "0 < length g \<and> length g \<le> group_most" if "wq_at s' j = Deciding g" for j g
      using that d(4) [of j g] by (simp add: sel split: if_splits)
    show "wq_holder s' = Some j \<longleftrightarrow> holds_writer s' j" for j
      using d(9) [of j] holder by (auto simp: sel holds_writer_def)
  qed (use d(2,3,5-8) caller in \<open>simp_all only: sel leads simp_thms\<close>)
qed

text \<open>The lead handed on: the first write waiting is its caller's who waits for it.\<close>

lemma handed_on:
  assumes inv: "waiting_inv commit w s" and at: "wq_at s i = HandingOn r"
  shows "hand_on_lead (wq_writes s) s = (case wq_writes s of [] \<Rightarrow> s\<lparr>wq_leading := False\<rparr>
    | (op, j) # ws \<Rightarrow> s\<lparr>wq_told := (wq_told s)(j := Some Lead)\<rparr>)"
proof (cases "wq_writes s")
  case (Cons x ws)
  obtain op j where x: "x = (op, j)" by (cases x)
  have "i \<in> decided_of s" using inv_caller [OF inv, of i] at by (simp add: caller_ok_def Let_def)
  then have "j \<noteq> i" using inv_apart(2) [OF inv] Cons x by auto
  then have "\<not> leads s j" using inv_one_leads [OF inv, of i j] at by (auto simp: leads_def)
  then have "can_be_told s j" using inv_waits [OF inv, of j] Cons x by (simp add: can_be_told_def)
  then show ?thesis using Cons x by simp
qed simp

lemma inv_hands_on:
  assumes inv: "waiting_inv commit w s" and at: "wq_at s i = HandingOn r"
  shows "waiting_inv commit w (goes i (Returned r) (hand_on_lead (wq_writes s) s))"
proof -
  define s' where "s' = goes i (Returned r) (hand_on_lead (wq_writes s) s)"
  note d = waiting_inv_dests [OF inv]
  have lead: "leads s i" using at by (simp add: leads_def)
  have i: "i \<in> decided_of s" "wq_told s i = None" using d(10) [of i] at by (simp_all add: caller_ok_def Let_def)
  define nx where "nx = (case wq_writes s of [] \<Rightarrow> None | (op, j) # ws \<Rightarrow> Some j)"
  have nx: "j \<in> callers (wq_writes s) \<and> j \<noteq> i \<and> wq_at s j = Receiving \<and> wq_told s j = None" if "nx = Some j" for j
  proof -
    have j: "j \<in> callers (wq_writes s)" using that by (auto simp: nx_def split: list.splits)
    then have "j \<noteq> i" using inv_apart(2) [OF inv] i(1) by auto
    then show ?thesis using j inv_waits [OF inv, of j] d(6) [OF lead, of j] by auto
  qed
  have empty: "nx = None \<longleftrightarrow> wq_writes s = []" by (auto simp: nx_def split: list.splits)
  have sel: "wq_at s' = (wq_at s)(i := Returned r)" "wq_holder s' = wq_holder s"
      "wq_told s' = (\<lambda>j. if nx = Some j then Some Lead else wq_told s j)" "wq_writes s' = wq_writes s"
      "wq_leading s' \<longleftrightarrow> wq_leading s \<and> nx \<noteq> None"
      "wq_writer s' = wq_writer s" "wq_cut s' = wq_cut s" "wq_asked s' = wq_asked s" "wq_groups s' = wq_groups s"
    by (auto simp: s'_def nx_def handed_on [OF inv at] split: list.split)
  have none: "wq_holder s \<noteq> Some i" using d(9) [of i] at by (simp add: holds_writer_def)
  have holder: "wq_holder s = None"
  proof (cases "wq_holder s")
    case (Some k)
    then have "holds_writer s k" using d(9) by blast
    then have "leads s k" by (auto simp: holds_writer_def leads_def split: caller_at.splits)
    then show ?thesis using d(6) [OF lead] none Some by blast
  qed
  have deciding: "deciding_now s = []" "deciding_now s' = []" using holder by (simp_all add: deciding_now_def sel)
  have leads: "leads s' j \<longleftrightarrow> nx = Some j" for j
  proof (cases "j = i \<or> nx = Some j")
    case False
    then have "\<not> leads s j" using d(6) [OF lead, of j] by blast
    then show ?thesis using False by (simp add: leads_def sel)
  qed (use nx [of j] i in \<open>auto simp: leads_def sel\<close>)
  have caller: "caller_ok commit w s' j" for j
  proof (cases "j = i \<or> nx = Some j")
    case True
    then show ?thesis
      using d(10) [of j] nx [of j] at i by (auto simp: caller_ok_def decided_of_def Let_def sel)
  next
    case False
    then have "caller_ok commit w s' j \<longleftrightarrow> caller_ok commit w s j" by (intro caller_ok_same) (simp_all add: deciding sel)
    then show ?thesis using d(10) by simp
  qed
  have "wq_leading s" using d(7) lead by blast
  then have leading: "wq_leading s' \<longleftrightarrow> nx \<noteq> None" by (simp add: sel)
  show ?thesis
    unfolding s'_def [symmetric]
  proof (rule waiting_invI)
    show "wq_asked s' = concat (wq_groups s') @ deciding_now s' @ wq_writes s'" using d(1) by (simp add: sel deciding)
    show "0 < length g \<and> length g \<le> group_most" if "wq_at s' j = Deciding g" for j g
      using that d(4) [of j g] by (simp add: sel split: if_splits)
    show "wq_leading s' \<longleftrightarrow> (\<exists>j. leads s' j)" by (auto simp: leads leading)
    show "\<not> wq_leading s' \<Longrightarrow> wq_writes s' = []" using empty by (simp add: leading sel(4))
    show "wq_holder s' = Some j \<longleftrightarrow> holds_writer s' j" for j
      using d(9) [of j] none by (auto simp: sel holds_writer_def)
    show "j = k" if "leads s' j" "leads s' k" for j k using that by (simp add: leads)
  qed (use d(2,3,5) caller in \<open>simp_all only: sel simp_thms\<close>)
qed

lemma inv_receives:
  assumes inv: "waiting_inv commit w s" and at: "wq_at s i = Receiving" and "receives i s = Some s'"
  shows "waiting_inv commit w s'"
proof -
  note d = waiting_inv_dests [OF inv]
  let ?at = "if wq_told s i = Some Lead then AtLock else Returned (final_answer commit w (wq_groups s) i)"
  have ok: "wq_told s i = Some Lead \<and> i \<in> callers (wq_writes s) \<or> i \<in> decided_of s \<and>
      wq_told s i = map_option Decided (snd (groups_after commit w (wq_groups s)) i)"
    using d(10) [of i] at assms(3) inv_apart(1,2) [OF inv]
    by (auto simp: caller_ok_def Let_def receives_def split: if_splits)
  have sel: "wq_at s' = (wq_at s)(i := ?at)" "wq_holder s' = wq_holder s"
      "wq_told s' = (wq_told s)(i := None)" "wq_writes s' = wq_writes s" "wq_leading s' = wq_leading s"
      "wq_writer s' = wq_writer s" "wq_cut s' = wq_cut s" "wq_asked s' = wq_asked s" "wq_groups s' = wq_groups s"
    using ok assms(3) by (auto simp: receives_def final_answer_def split: option.splits told.splits if_splits)
  have none: "wq_holder s \<noteq> Some i" using d(9) [of i] at by (simp add: holds_writer_def)
  have deciding: "deciding_now s' = deciding_now s" using none by (auto simp: deciding_now_def sel split: option.split)
  have leads: "leads s' j \<longleftrightarrow> leads s j" for j using at ok by (auto simp: leads_def sel)
  have caller: "caller_ok commit w s' j" for j
  proof (cases "j = i")
    case True
    then show ?thesis using ok d(10) [of i] by (auto simp: caller_ok_def decided_of_def Let_def sel)
  next
    case False
    then have "caller_ok commit w s' j \<longleftrightarrow> caller_ok commit w s j" by (intro caller_ok_same) (simp_all add: deciding sel)
    then show ?thesis using d(10) by simp
  qed
  show ?thesis
  proof (rule waiting_invI)
    show "wq_asked s' = concat (wq_groups s') @ deciding_now s' @ wq_writes s'" using d(1) by (simp add: sel deciding)
    show "0 < length g \<and> length g \<le> group_most" if "wq_at s' j = Deciding g" for j g
      using that d(4) [of j g] by (simp add: sel split: if_splits)
    show "wq_holder s' = Some j \<longleftrightarrow> holds_writer s' j" for j
      using d(9) [of j] none by (auto simp: sel holds_writer_def)
  qed (use d(2,3,5-8) caller in \<open>simp_all only: sel leads simp_thms\<close>)
qed

section \<open>Every run\<close>

lemma inv_new: "waiting_inv commit w (waiting_new w)"
  by (rule waiting_invI)
    (simp_all add: waiting_new_def deciding_now_def groups_after_def leads_def holds_writer_def caller_ok_def decided_of_def)

lemma inv_moved:
  assumes "waiting_inv commit w s" and "moved commit i s = Some s'"
  shows "waiting_inv commit w s'"
proof (cases "wq_at s i")
  case AtLock
  then show ?thesis using assms inv_locks [OF assms(1) AtLock _ refl] by (auto simp: moved_def split: if_splits)
qed (use assms inv_takes [OF assms(1)] inv_commits [OF assms(1)] inv_looks [OF assms(1)] inv_hands_on [OF assms(1)]
      inv_receives [OF assms(1)] in \<open>auto simp: moved_def\<close>)

lemma reachable_inv: "reachable commit w s \<Longrightarrow> waiting_inv commit w s"
proof (induction rule: reachable.induct)
  case (step s s')
  from step.hyps(2) step.IH show ?case by (cases rule: steps_to_cases) (auto intro: inv_asks inv_moved)
qed (rule inv_new)

text \<open>A run of callers already asking, in the order they move.\<close>

fun runs :: "('op, 'w, 'a) decides \<Rightarrow> nat list \<Rightarrow> ('op, 'w, 'a) waiting_state \<Rightarrow> ('op, 'w, 'a) waiting_state option" where
  "runs commit [] s = Some s"
| "runs commit (i # is) s = Option.bind (moved commit i s) (runs commit is)"

lemma reachable_runs: "reachable commit w s \<Longrightarrow> runs commit is s = Some s' \<Longrightarrow> reachable commit w s'"
proof (induction "is" arbitrary: s)
  case (Cons i "is")
  then obtain s1 where s1: "moved commit i s = Some s1" "runs commit is s1 = Some s'"
    by (auto simp: Option.bind_eq_Some_conv)
  show ?case by (rule Cons.IH [OF reachable.step [OF Cons.prems(1) steps_to.move [OF s1(1)]] s1(2)])
qed simp

section \<open>How much is left to do\<close>

text \<open>
  A write waiting counts for more than all a leader does for one batch, and a caller for what it
  has left to do should it lead no further batch.
\<close>

definition left_of :: "('op, 'w, 'a) waiting_state \<Rightarrow> nat \<Rightarrow> nat" where
  "left_of s i = (case wq_at s i of Outside \<Rightarrow> 0 | AtLock \<Rightarrow> 7 | Leading \<Rightarrow> 6 | Deciding _ \<Rightarrow> 12 | Looking \<Rightarrow> 11
     | HandingOn _ \<Rightarrow> 9 | Receiving \<Rightarrow> (if wq_told s i = Some Lead then 8 else 1) | Returned _ \<Rightarrow> 0)"

definition work :: "('op, 'w, 'a) waiting_state \<Rightarrow> nat" where
  "work s = 10 * length (wq_writes s) + (\<Sum>i \<in> callers (wq_asked s). left_of s i)"

lemma finite_callers [simp]: "finite (callers ws)"
  by (simp add: callers_def)

lemma sum_but_one:
  fixes f g :: "'b \<Rightarrow> nat"
  assumes "finite A" and "i \<in> A" and "\<And>j. j \<noteq> i \<Longrightarrow> f j = g j"
  shows "sum f A + g i = sum g A + f i"
  using assms(3) sum.cong [of "A - {i}" "A - {i}" f g] by (simp add: sum.remove [OF assms(1,2)])

lemma asking_in: "waiting_inv commit w s \<Longrightarrow> wq_at s i \<noteq> Outside \<Longrightarrow> i \<in> callers (wq_asked s)"
  using inv_caller [of commit w s i] inv_apart(4) [of commit w s]
  by (cases "wq_at s i") (auto simp: caller_ok_def Let_def)

lemma work_less_one:
  assumes inv: "waiting_inv commit w s" and at: "wq_at s i \<noteq> Outside" and "wq_asked s' = wq_asked s"
    and "\<And>j. j \<noteq> i \<Longrightarrow> left_of s' j = left_of s j"
    and "left_of s' i + 10 * length (wq_writes s') < left_of s i + 10 * length (wq_writes s)"
  shows "work s' < work s"
  using sum_but_one [of "callers (wq_asked s)" i "left_of s'" "left_of s"] asking_in [OF inv at] assms(3-5)
  by (simp add: work_def)

lemma moved_less:
  assumes inv: "waiting_inv commit w s" and moved: "moved commit i s = Some s'"
  shows "work s' < work s"
proof (cases "wq_at s i")
  case Leading
  have "wq_writes s \<noteq> []" using inv_caller [OF inv, of i] Leading by (auto simp: caller_ok_def Let_def)
  then have s': "s' = goes i (Deciding (take group_most (wq_writes s))) (s\<lparr>wq_writes := drop group_most (wq_writes s)\<rparr>)"
      "10 * length (drop group_most (wq_writes s)) + 10 \<le> 10 * length (wq_writes s)"
    using moved Leading by (auto simp: moved_def takes_def group_most_def neq_Nil_conv)
  show ?thesis
    by (rule work_less_one [OF inv, of i]) (use Leading s' in \<open>simp_all add: left_of_def\<close>)
next
  case (Deciding g)
  obtain w' as where c: "commit (wq_writer s) (map fst g) = (w', as)" by fastforce
  have s': "wq_at s' = (wq_at s)(i := Looking)" "wq_writes s' = wq_writes s" "wq_asked s' = wq_asked s"
      "wq_told s' = (\<lambda>j. case answers g as j of Some a \<Rightarrow> Some (Decided a) | None \<Rightarrow> wq_told s j)"
    using moved Deciding by (auto simp: moved_def commits_def c)
  have "wq_told s' j = Some Lead \<longleftrightarrow> wq_told s j = Some Lead" for j
    using group_quiet [OF inv Deciding, of j] answers_outside [of j g as]
    by (cases "j \<in> callers g") (simp_all add: s' split: option.split)
  then show ?thesis
    by (intro work_less_one [OF inv, of i]) (use Deciding in \<open>simp_all add: left_of_def s'(1-3)\<close>)
next
  case (HandingOn r)
  let ?A = "callers (wq_asked s)"
  have i: "i \<in> ?A" using asking_in [OF inv, of i] HandingOn by simp
  have s': "s' = goes i (Returned r) (hand_on_lead (wq_writes s) s)" using moved HandingOn by (simp add: moved_def)
  show ?thesis
  proof (cases "wq_writes s")
    case Nil
    then show ?thesis
      by (intro work_less_one [OF inv, of i]) (use HandingOn s' in \<open>simp_all add: left_of_def\<close>)
  next
    case (Cons x ws)
    obtain op j where x: "x = (op, j)" by (cases x)
    have "i \<in> decided_of s" using inv_caller [OF inv, of i] HandingOn by (simp add: caller_ok_def Let_def)
    then have ji: "j \<noteq> i" using inv_apart(2) [OF inv] Cons x by auto
    then have "\<not> leads s j" using inv_one_leads [OF inv, of i j] HandingOn by (auto simp: leads_def)
    then have j: "wq_at s j = Receiving" "wq_told s j = None" "j \<in> ?A"
      using inv_waits [OF inv, of j] Cons x inv_apart(4) [OF inv] by auto
    have "s' = goes i (Returned r) (s\<lparr>wq_told := (wq_told s)(j := Some Lead)\<rparr>)"
      using handed_on [OF inv HandingOn] s' Cons x by simp
    then have left: "left_of s' = (left_of s)(i := 0, j := 8)" and same: "wq_asked s' = wq_asked s" "wq_writes s' = wq_writes s"
      using ji j by (auto simp: left_of_def fun_eq_iff split: caller_at.split)
    have "sum ((left_of s)(i := 0)) ?A + 9 = sum (left_of s) ?A"
      using sum_but_one [of ?A i "(left_of s)(i := 0)" "left_of s"] i HandingOn by (simp add: left_of_def)
    moreover have "sum (left_of s') ?A + 1 = sum ((left_of s)(i := 0)) ?A + 8"
      using sum_but_one [of ?A j "left_of s'" "(left_of s)(i := 0)"] j ji left by (simp add: left_of_def)
    ultimately show ?thesis by (simp add: work_def same)
  qed
next
  case AtLock
  then show ?thesis
    using moved by (intro work_less_one [OF inv, of i]) (auto simp: moved_def left_of_def split: if_splits)
next
  case Looking
  then show ?thesis
    using moved by (intro work_less_one [OF inv, of i])
      (auto simp: moved_def looks_def left_of_def split: option.splits told.splits if_splits)
next
  case Receiving
  then show ?thesis
    using moved by (intro work_less_one [OF inv, of i])
      (auto simp: moved_def receives_def left_of_def split: option.splits told.splits if_splits)
qed (use moved in \<open>simp_all add: moved_def\<close>)

lemma runs_less:
  assumes "waiting_inv commit w s" and "runs commit is s = Some s'"
  shows "length is + work s' \<le> work s"
  using assms
proof (induction "is" arbitrary: s)
  case (Cons i "is")
  then obtain s1 where s1: "moved commit i s = Some s1" "runs commit is s1 = Some s'"
    by (auto simp: Option.bind_eq_Some_conv)
  with Cons.IH [OF inv_moved [OF Cons.prems(1) s1(1)] s1(2)] moved_less [OF Cons.prems(1) s1(1)] show ?case by simp
qed simp

text \<open>Where no caller can move, each that asked has its answer.\<close>

lemma none_moves:
  assumes inv: "waiting_inv commit w s" and stuck: "\<And>i. moved commit i s = None" and i: "i \<in> callers (wq_asked s)"
  shows "\<exists>r. wq_at s i = Returned r"
proof -
  have holder: "wq_holder s = None"
  proof (cases "wq_holder s")
    case (Some k)
    then have "holds_writer s k" using inv_holder [OF inv] by blast
    then show ?thesis using stuck [of k] by (auto simp: holds_writer_def moved_def split: caller_at.splits)
  qed
  have lead: "\<not> leads s k" for k
  proof
    assume k: "leads s k"
    have "wq_told s k = Some Lead \<Longrightarrow> wq_at s k = Receiving"
      using inv_caller [OF inv, of k] by (cases "wq_at s k") (auto simp: caller_ok_def Let_def)
    then show False
      using k stuck [of k] holder by (auto simp: leads_def moved_def receives_def split: caller_at.splits)
  qed
  then have "wq_writes s = []" using inv_none_wait [OF inv] inv_leading [OF inv] by blast
  moreover have "deciding_now s = []" using holder by (simp add: deciding_now_def)
  ultimately have "i \<in> decided_of s" using i inv_apart(4) [OF inv] by auto
  then have "i \<in> wq_cut s" using inv_caller [OF inv, of i] by (simp add: caller_ok_def Let_def)
  moreover have "wq_at s i \<noteq> Outside" using inv_caller [OF inv, of i] i by (auto simp: caller_ok_def Let_def)
  ultimately show ?thesis
    using stuck [of i] holder lead [of i]
    by (cases "wq_at s i") (auto simp: moved_def receives_def leads_def split: option.splits told.splits)
qed

section \<open>Properties\<close>

text \<open>
  C34: However the callers interleave, the writes asked are decided in the order they were asked,
  each in one group and once: what was asked is the groups decided, the group being decided and
  what waits, in that order. No group is empty or of more than the most a batch takes, no two
  callers hold the writer, the writer is what the groups one after the other make of it, and a
  caller that returned returns what its write's group answered it, or that the writer failed
  where it answered nothing.
\<close>

theorem writes_decided_in_order:
  assumes "reachable commit w s"
  shows "wq_asked s = concat (wq_groups s) @ deciding_now s @ wq_writes s \<and> distinct (map snd (wq_asked s)) \<and>
    (\<forall>g \<in> set (wq_groups s). 0 < length g \<and> length g \<le> group_most) \<and>
    (\<forall>i j. holds_writer s i \<longrightarrow> holds_writer s j \<longrightarrow> i = j) \<and>
    wq_writer s = fst (groups_after commit w (wq_groups s)) \<and>
    (\<forall>i r. wq_at s i = Returned r \<longrightarrow> i \<in> callers (concat (wq_groups s)) \<and> r = final_answer commit w (wq_groups s) i)"
proof -
  note inv = reachable_inv [OF assms]
  have "i = j" if "holds_writer s i" "holds_writer s j" for i j
    using that inv_holder [OF inv, of i] inv_holder [OF inv, of j] by simp
  moreover have "i \<in> callers (concat (wq_groups s)) \<and> r = final_answer commit w (wq_groups s) i" if "wq_at s i = Returned r" for i r
    using inv_caller [OF inv, of i] that by (simp add: caller_ok_def decided_of_def Let_def)
  ultimately show ?thesis
    using inv_asked [OF inv] inv_distinct [OF inv] inv_groups [OF inv] inv_writer [OF inv] by blast
qed

text \<open>
  C35: No write waits for ever. From any state the callers can be in, as long as no new caller
  asks, they can move only so many times, however they interleave; and where none of them can
  move any more, every one that asked has returned with an answer, so none is left waiting on a
  reply that never comes, even where a batch panicked.
\<close>

theorem every_write_is_answered:
  assumes "reachable commit w s" and "runs commit is s = Some s'"
  shows "length is \<le> work s \<and>
    ((\<forall>i. moved commit i s' = None) \<longrightarrow> (\<forall>i \<in> callers (wq_asked s'). \<exists>r. wq_at s' i = Returned r))"
  using runs_less [OF reachable_inv [OF assms(1)] assms(2)] none_moves [OF reachable_inv [OF reachable_runs [OF assms]]]
  by auto

text \<open>A writer that counts its writes and fails one of each group's, its second, for the witnesses.\<close>

definition sample_commit :: "(unit, nat, nat) decides" where
  "sample_commit n ops = (n + length ops, map (\<lambda>k. if k = 1 then None else Some (Inr (n + k))) [0..<length ops])"

text \<open>One leads; two ask while it does, share the next batch, and the lead is handed to the first of them.\<close>

definition sample_asked :: "(unit, nat, nat) waiting_state" where
  "sample_asked = asks 2 () (asks 1 () (the (runs sample_commit [0, 0] (asks 0 () (waiting_new 0)))))"

definition sample_run :: "nat list" where
  "sample_run = [0, 0, 0, 1, 1, 1, 1, 1, 1, 2]"

lemma sample_asked_reachable: "reachable sample_commit 0 sample_asked"
proof -
  have "runs sample_commit [0, 0] (asks 0 () (waiting_new 0)) \<noteq> None"
    by (simp add: moved_def takes_def asks_def waiting_new_def)
  then obtain s where s: "runs sample_commit [0, 0] (asks 0 () (waiting_new 0)) = Some s" by blast
  have new: "reachable sample_commit 0 (asks 0 () (waiting_new 0))"
    by (rule reachable.step [OF reachable.start steps_to.ask]) (simp add: waiting_new_def)
  have "wq_at s 1 = Outside" "wq_at s 2 = Outside"
    using s by (auto simp: moved_def takes_def asks_def waiting_new_def)
  then show ?thesis
    unfolding sample_asked_def s option.sel
    by (intro reachable.step [OF reachable.step [OF reachable_runs [OF new s] steps_to.ask] steps_to.ask]) simp_all
qed

lemma sample_run_ends:
  "\<exists>s'. runs sample_commit sample_run sample_asked = Some s' \<and> map (wq_at s') [0, 1, 2] =
     [Returned (Inr 0), Returned (Inr 1), Returned (Inl writer_failed)] \<and> length (wq_groups s') = 2"
  by (simp add: sample_run_def sample_asked_def moved_def takes_def asks_def waiting_new_def commits_def looks_def receives_def
      answers_def sample_commit_def group_most_def can_be_told_def callers_def Let_def upt_rec)

theorem writes_decided_in_order_witness:
  "\<exists>s'. runs sample_commit sample_run sample_asked = Some s' \<and> wq_at s' 2 = Returned (Inl writer_failed) \<and>
     final_answer sample_commit 0 (wq_groups s') 2 = Inl writer_failed"
  using sample_run_ends writes_decided_in_order [OF reachable_runs [OF sample_asked_reachable]] by fastforce

theorem every_write_is_answered_witness:
  "length sample_run \<le> work sample_asked"
  using every_write_is_answered [OF sample_asked_reachable, of sample_run] sample_run_ends by blast

end
