(* ===== verification/Writer.thy ===== *)
theory Writer
  imports Commit Settle Waiting "HOL-Library.Sublist"
begin

text \<open>
  The embedded Storage node's writer (\<open>Writer::committed\<close> and \<open>Writer::recover\<close> of
  \<open>src/.src/storage/commit.rs\<close>, \<open>again\<close> of \<open>commit/batch.rs\<close>): a group decided on one batch,
  each queue's first due settled, the audit sequence moved on, and the batch laid out and
  written with its index entries, or refused whole. It is shown to be all of the group or none
  of it, to number the audit records it writes without a gap or a number used twice, and, under
  the callers of \<open>Waiting\<close>, to answer each what its group came to, whatever they interleave.
\<close>

section \<open>A group written\<close>

text \<open>An error in words, the key home's own said by \<open>say\<close>; and a batch's failure said again to each write in it.\<close>

primrec display :: "(secret_error \<Rightarrow> string) \<Rightarrow> persist_error \<Rightarrow> string" where
  "display say (Refused scope reason) = scope @ '': refused, '' @ reason"
| "display say (Key e) = ''the store's data key: '' @ say e"
| "display say (Engine engine reason) = engine @ '': '' @ reason"
| "display say (Record reason) = ''record: '' @ reason"
| "display say (Failed reason) = ''a Storage node: '' @ reason"
| "display say (Unreachable reason) = ''Xmip Storage: '' @ reason"
| "display say (persist_error.Schema reason) = reason"
| "display say (Standby reason) = reason"

definition again :: "(secret_error \<Rightarrow> string) \<Rightarrow> persist_error \<Rightarrow> persist_error" where
  "again say e = (case e of
     Refused scope reason \<Rightarrow> Refused scope reason
   | Engine engine reason \<Rightarrow> Engine engine reason
   | _ \<Rightarrow> malformed (display say e))"

text \<open>Whether a write answered is durable already, or told once its batch is synced.\<close>

datatype durability = KeptAlready | Pending

text \<open>
  What a commit finds: the time, what the store answers a read and a range of its index, and the
  engine's failure to write, where it fails.
\<close>

record commit_env =
  ce_now :: i128
  ce_get :: store_get
  ce_scan :: index_scan
  ce_fails :: "persist_error option"

type_synonym batch_write = "record_change list \<times> index_entry list"

text \<open>
  The group's answers, the next audit number, and what is written, where anything is: a batch of no
  change writes nothing and is durable as it is.
\<close>

definition committed :: "codec \<Rightarrow> secret_rules \<Rightarrow> (secret_error \<Rightarrow> string) \<Rightarrow> commit_env \<Rightarrow> (op \<times> u64) list \<Rightarrow> u64 \<Rightarrow>
    (outcome \<times> durability) result list \<times> u64 \<times> batch_write option" where
  "committed c x say env ops next' = (
     let (decided, b, n) = decide_group c (ce_get env) (ce_now env) ops (empty_batch, next');
         (settled, b1) = settle c (ce_get env) (ce_scan env) b;
         b2 = (if n \<noteq> next' then put b1 sequence_kind next_key (Some (be64 n)) else b1);
         empty = (changes b2 = []);
         wrote = (if empty then Inr None
           else bindr settled (\<lambda>_.
             bindr (written_over c x Runtime (changes b2) (nanos (ce_now env)) (\<lambda>k key. fst (before (ce_get env) b2 k key))) (\<lambda>w.
             case ce_fails env of Some e \<Rightarrow> Inl e | None \<Rightarrow> Inr (Some w))))
     in case wrote of
       Inl e \<Rightarrow> (map (\<lambda>_. Inl (again say e)) decided, next', None)
     | Inr w \<Rightarrow> (map (\<lambda>d. bindr d (\<lambda>d. Inr (d, if empty then KeptAlready else Pending))) decided, n, w))"

text \<open>The writer after a batch that panicked: its next number as the store has it, where it can be read.\<close>

definition recover :: "store_get \<Rightarrow> u64 \<Rightarrow> u64" where
  "recover g next' = (case sequence g next_key of Inl _ \<Rightarrow> next' | Inr n \<Rightarrow> n)"

section \<open>The writer on its store\<close>

text \<open>The runtime database as it is decrypted, with its index; a batch written to it whole.\<close>

type_synonym kept_store = "ledger \<times> (key \<rightharpoonup> u128)"

definition over_store :: "kept_store \<Rightarrow> i128 \<Rightarrow> persist_error option \<Rightarrow> commit_env" where
  "over_store S now fails = \<lparr>ce_now = now, ce_get = (\<lambda>k key. Inr (fst S k key)),
     ce_scan = (\<lambda>lo hi n b. Inr (between (snd S) lo hi n b)), ce_fails = fails\<rparr>"

definition batch_written :: "batch_write option \<Rightarrow> kept_store \<Rightarrow> kept_store" where
  "batch_written w S = (case w of None \<Rightarrow> S | Some (ws, es) \<Rightarrow> (apply_changes (fst S) ws, apply_entries (snd S) es))"

definition commit_on :: "codec \<Rightarrow> secret_rules \<Rightarrow> (secret_error \<Rightarrow> string) \<Rightarrow> i128 \<times> persist_error option \<Rightarrow> (op \<times> u64) list \<Rightarrow>
    kept_store \<times> u64 \<Rightarrow> (outcome \<times> durability) result list \<times> kept_store \<times> u64" where
  "commit_on c x say at ops Sn = (let (answers, n, w) = committed c x say (over_store (fst Sn) (fst at) (snd at)) ops (snd Sn)
     in (answers, batch_written w (fst Sn), n))"

section \<open>What a batch is left with\<close>

text \<open>A batch over a ledger at its bottom, its changes making of the ledger the one it reads.\<close>

definition grown :: "store_get \<Rightarrow> ledger \<Rightarrow> batch \<Rightarrow> ledger \<Rightarrow> bool" where
  "grown g L b L' \<longleftrightarrow> over g b L L' \<and> L' = apply_changes L (changes b)"

lemma grown_put: "grown g L b L' \<Longrightarrow> grown g L (put b k key v) (upd L' k key v)"
  by (auto simp: grown_def over_put)

text \<open>What keeps a batch so but for the first due of its queues.\<close>

definition keeps_all_but_due :: "store_get \<Rightarrow> ledger \<Rightarrow> ledger \<Rightarrow> 'a on_batch \<Rightarrow> bool" where
  "keeps_all_but_due g L L' m \<longleftrightarrow> (\<forall>b L1. grown g L b L1 \<longrightarrow> (\<forall>k. k \<noteq> due_places_kind \<longrightarrow> L1 k = L' k) \<longrightarrow>
     (\<exists>L2. grown g L (snd (m b)) L2 \<and> (\<forall>k. k \<noteq> due_places_kind \<longrightarrow> L2 k = L' k)))"

lemma keeps_bindb: "keeps_all_but_due g L L' m \<Longrightarrow> (\<And>x. keeps_all_but_due g L L' (f x)) \<Longrightarrow> keeps_all_but_due g L L' (bindb m f)"
proof -
  assume m: "keeps_all_but_due g L L' m" and f: "\<And>x. keeps_all_but_due g L L' (f x)"
  show ?thesis unfolding keeps_all_but_due_def
  proof (intro allI impI)
    fix b L1 assume b: "grown g L b L1" "\<forall>k. k \<noteq> due_places_kind \<longrightarrow> L1 k = L' k"
    obtain r b1 where r: "m b = (r, b1)" by (cases "m b")
    have "\<exists>L2. grown g L (snd (m b)) L2 \<and> (\<forall>k. k \<noteq> due_places_kind \<longrightarrow> L2 k = L' k)"
      using m b unfolding keeps_all_but_due_def by blast
    then obtain L2 where two: "grown g L b1 L2" "\<forall>k. k \<noteq> due_places_kind \<longrightarrow> L2 k = L' k" by (auto simp: r)
    then show "\<exists>L2. grown g L (snd (bindb m f b)) L2 \<and> (\<forall>k. k \<noteq> due_places_kind \<longrightarrow> L2 k = L' k)"
      using f unfolding keeps_all_but_due_def by (cases r) (auto simp: bindb_def r)
  qed
qed

lemma keeps_liftb [simp]: "keeps_all_but_due g L L' (liftb r)"
  by (auto simp: keeps_all_but_due_def liftb_def)

lemma grown_before: "grown g L b L1 \<Longrightarrow> grown g L (snd (before g b k key)) L1"
  using over_before [of g b L L1 k key] unfolding grown_def by auto

lemma grown_read: "grown g L b L1 \<Longrightarrow> grown g L (snd (read g b k key)) L1"
  using over_read [of g b L L1 k key] unfolding grown_def by auto

lemma keeps_before: "keeps_all_but_due g L L' (\<lambda>b. before g b k key)"
  unfolding keeps_all_but_due_def using grown_before by blast

lemma keeps_read: "keeps_all_but_due g L L' (\<lambda>b. read g b k key)"
  unfolding keeps_all_but_due_def using grown_read by blast

lemma keeps_put_due: "keeps_all_but_due g L L' (\<lambda>b. (Inr (), if p then put b due_places_kind key v else b))"
  unfolding keeps_all_but_due_def
proof (intro allI impI)
  fix b L1 assume b: "grown g L b L1" and same: "\<forall>k. k \<noteq> due_places_kind \<longrightarrow> L1 k = L' k"
  show "\<exists>L2. grown g L (snd (Inr (), if p then put b due_places_kind key v else b)) L2 \<and> (\<forall>k. k \<noteq> due_places_kind \<longrightarrow> L2 k = L' k)"
  proof (cases p)
    case True
    have "\<forall>k. k \<noteq> due_places_kind \<longrightarrow> upd L1 due_places_kind key v k = L' k" using same by simp
    moreover have "grown g L (put b due_places_kind key v) (upd L1 due_places_kind key v)" using b by (rule grown_put)
    ultimately show ?thesis unfolding snd_conv if_P [OF True] by blast
  qed (use b same in auto)
qed

lemma keeps_run: "writes {} p \<Longrightarrow> keeps_all_but_due g L L' (\<lambda>b. run g b p)"
proof -
  assume "writes {} p"
  then have "grown g L (snd (run g b p)) L1" if "grown g L b L1" for b L1
    using that
  proof (induction p arbitrary: b)
    case (Read k key h)
    obtain r b1 where r: "read g b k key = (r, b1)" by (cases "read g b k key")
    then have "grown g L b1 L1" using grown_read [OF Read.prems(2), of k key] by simp
    then show ?case using Read r by (cases r) auto
  qed auto
  then show ?thesis by (auto simp: keeps_all_but_due_def)
qed

lemma places_reads: "writes {} (places c ks queue)"
  by (simp add: places_def)

lemma keeps_settle_queue: "keeps_all_but_due g L L' (settle_queue c g scan queue ws)"
proof -
  have seen: "keeps_all_but_due g L L' (seen_all c g queue ws d)" for ws d
    by (induction ws arbitrary: d)
      (auto simp: seen_one_def Let_def intro!: keeps_bindb keeps_before split: prod.splits)
  show ?thesis unfolding settle_queue_def Let_def
    by (intro keeps_bindb keeps_read keeps_liftb seen keeps_put_due)
      (auto split: option.splits intro!: keeps_bindb keeps_run places_reads)
qed

lemma keeps_settle: "keeps_all_but_due g L L' (settle c g scan)"
proof -
  have "keeps_all_but_due g L L' (settle_queues c g scan qs)" for qs
    by (induction qs) (auto intro!: keeps_bindb keeps_settle_queue)
  then show ?thesis by (simp add: keeps_all_but_due_def settle_def Let_def)
qed

text \<open>A group decided is over the ledger it was decided on, and leaves what its writes in turn would.\<close>

lemma before_staged [simp]: "fst (before g (staged b) k key) = fst (before g b k key)"
  by (simp add: staged_def split_beta Let_def)

lemma before_taken [simp]: "fst (before g (taken b) k key) = fst (before g b k key)"
proof (cases b)
  case (Stage b1 w cs)
  then show ?thesis by (cases b1) (auto simp: Let_def split_beta split: option.splits sum.splits)
qed simp

lemma before_dropped [simp]: "fst (before g (dropped b) k key) = fst (before g b k key)"
  by (cases b) (simp_all add: Let_def split_beta)

lemma before_group: "decide_group c g now ops (b, n) = (ds, b', n') \<Longrightarrow> fst (before g b' k key) = fst (before g b k key)"
proof (induction ops arbitrary: b n ds)
  case (Cons oe ops)
  obtain op epoch where oe: "oe = (op, epoch)" by (cases oe)
  obtain r st where rs: "run g (staged b) (decide c now epoch n op) = (r, st)" by fastforce
  have st: "fst (before g st k key) = fst (before g b k key)"
    using before_run [of g "staged b" "decide c now epoch n op" k key] by (simp add: rs)
  obtain b1 n1 ds1 where "decide_group c g now ops (b1, n1) = (ds1, b', n')" "b1 = taken st \<or> b1 = dropped st"
    using Cons.prems by (auto simp: oe rs split: sum.splits prod.splits)
  then show ?case using Cons.IH st by auto
qed simp

lemma group_grown:
  assumes "in_turn c now ops (L, n) = (ds, L', n')"
  shows "\<exists>b. decide_group c (\<lambda>k key. Inr (L k key)) now ops (empty_batch, n) = (ds, b, n') \<and> grown (\<lambda>k key. Inr (L k key)) L b L'"
proof -
  let ?g = "\<lambda>k key. Inr (L k key)"
  obtain b where b: "decide_group c ?g now ops (empty_batch, n) = (ds, b, n')" "agrees ?g b L'"
      "\<exists>cs. changes b = changes empty_batch @ cs \<and> L' = apply_changes L cs"
    using group_in_turn [OF agrees_empty assms] by blast
  moreover have "fst (before ?g b k key) = Inr (L k key)" for k key
    using before_group [OF b(1)] by (simp add: empty_batch_def)
  ultimately show ?thesis by (auto simp: grown_def over_def empty_batch_def)
qed

section \<open>All of a group, or none of it\<close>

text \<open>
  What a batch is written as: each searchable record as it is but for the times Xmip Storage stamps
  of a Journey (created and updated), a Message (created) and a held Message (held), and nothing
  else changed.
\<close>

fun stamps_only :: "codec \<Rightarrow> searched \<Rightarrow> bytes \<Rightarrow> bytes \<Rightarrow> bool" where
  "stamps_only c SJourney v v' \<longleftrightarrow> (\<exists>j t u. from_bytes c (r_journey_record c) v = Inr j \<and>
     v' = w_journey_record c (j\<lparr>jr_facts := (jr_facts j)\<lparr>jf_created_unix_nanos := t, jf_updated_unix_nanos := u\<rparr>\<rparr>))"
| "stamps_only c SMessage v v' \<longleftrightarrow> (\<exists>m t. from_bytes c (r_message_record c) v = Inr m \<and>
     v' = w_message_record c (m\<lparr>mr_facts := (mr_facts m)\<lparr>mf_created_unix_nanos := t\<rparr>\<rparr>))"
| "stamps_only c SHeld v v' \<longleftrightarrow> (\<exists>h t. from_bytes c (r_held c) v = Inr h \<and> v' = w_held c (h\<lparr>he_held_unix_nanos := t\<rparr>))"
| "stamps_only c SDead v v' \<longleftrightarrow> (\<exists>d. from_bytes c (r_dead c) v = Inr d \<and> v' = w_dead c d)"
| "stamps_only c SFailed v v' \<longleftrightarrow> (\<exists>f. from_bytes c (r_failed c) v = Inr f \<and> v' = w_failed c f)"
| "stamps_only c s v v' \<longleftrightarrow> False"

definition written_as :: "codec \<Rightarrow> kind \<Rightarrow> bytes option \<Rightarrow> bytes option \<Rightarrow> bool" where
  "written_as c k v v' \<longleftrightarrow> v' = v \<or> (\<exists>s b b'. searched_of Runtime k = Some s \<and> v = Some b \<and> v' = Some b' \<and> stamps_only c s b b')"

definition same_but_stamps :: "codec \<Rightarrow> ledger \<Rightarrow> ledger \<Rightarrow> bool" where
  "same_but_stamps c L' L \<longleftrightarrow> (\<forall>k key. written_as c k (L k key) (L' k key))"

lemma written_as_refl [simp]: "written_as c k v v"
  by (simp add: written_as_def)

lemma written_as_unsearched: "written_as c k v v' \<Longrightarrow> searched_of Runtime k = None \<Longrightarrow> v' = v"
  by (simp add: written_as_def)

lemma runtime_kinds: "searched_of Runtime k = Some s \<Longrightarrow> s \<in> {SJourney, SMessage, SHeld, SDead, SFailed}"
  by (auto split: if_splits)

lemma stamped_only:
  assumes "stamped c x s b prior now = Inr (b', r, i)" and "s \<in> {SJourney, SMessage, SHeld, SDead, SFailed}"
  shows "stamps_only c s b b'"
  by (insert assms, (auto simp: stamp_as_def bindr_eq_Inr Let_def stamp_journey_def stamp_message_def stamp_held_def stamp_dead_def
      stamp_failed_def; ((rule exI)+, rule HOL.refl)))

lemma applied_stamps:
  assumes "written_from c x Runtime now was latest cs = Inr (ws, es)" and "\<forall>k key. written_as c k (M k key) (L k key)"
  shows "written_as c k (apply_changes M cs k key) (apply_changes L ws k key)"
  using assms
proof (induction cs arbitrary: latest ws es L M)
  case (Cons ch cs)
  obtain kind place v where ch: "ch = (kind, place, v)" by (cases ch)
  obtain latest' ws' es' v' where w: "written_from c x Runtime now was latest' cs = Inr (ws', es')" "ws = (kind, place, v') # ws'"
      "written_as c kind v v'"
  proof (cases "searched_of Runtime kind")
    case None
    with Cons.prems(1) that show ?thesis by (auto simp: ch bindr_eq_Inr)
  next
    case (Some s)
    with Cons.prems(1) obtain prior gone added ws1 es1 v1 where run: "ws = (kind, place, v1) # ws1"
        "written_from c x Runtime now was (((kind, place), v1) # latest) cs = Inr (ws1, es1)"
        "(case v of None \<Rightarrow> Inr (None, []) | Some bs \<Rightarrow> bindr (stamped c x s bs prior now) (\<lambda>(bs', r, rid).
            bindr (row_entries Runtime (table_word s) r rid) (\<lambda>ks. Inr (Some bs', map (\<lambda>k. (k, Some rid)) ks)))) = Inr (v1, added)"
      by (auto simp: ch bindr_eq_Inr)
    have "written_as c kind v v1"
      using run(3) stamped_only [OF _ runtime_kinds [OF Some]] Some by (auto simp: written_as_def bindr_eq_Inr split: option.splits)
    then show ?thesis using that [OF run(2,1)] by simp
  qed
  have "\<forall>k key. written_as c k (upd M kind place v k key) (upd L kind place v' k key)" using Cons.prems(2) w(3) by (simp add: upd_apply)
  from Cons.IH [OF w(1) this] show ?case by (simp add: w(2) ch)
qed simp

definition moved_on :: "ledger \<Rightarrow> u64 \<Rightarrow> u64 \<Rightarrow> ledger" where
  "moved_on L n n' = (if n' \<noteq> n then upd L sequence_kind next_key (Some (be64 n')) else L)"

text \<open>Where the engine does not fail, a batch fails only of a record that cannot be read.\<close>

definition unreadable :: "'a result \<Rightarrow> bool" where
  "unreadable r \<longleftrightarrow> (\<forall>e. r = Inl e \<longrightarrow> (\<exists>why. e = Record why))"

lemma unreadable_simps [simp]: "unreadable (Inr y)" "unreadable (Inl (Record why))" "unreadable (Inl (malformed why))"
  by (simp_all add: unreadable_def malformed_def)

lemma unreadable_bindr [intro!]: "unreadable m \<Longrightarrow> (\<And>y. m = Inr y \<Longrightarrow> unreadable (f y)) \<Longrightarrow> unreadable (bindr m f)"
  by (cases m) (auto simp: unreadable_def)

lemma unreadable_from_bytes [simp]: "unreadable (from_bytes c r bs)"
  by (auto simp: from_bytes_def unreadable_def split: sum.splits option.splits)

lemma unreadable_maybe [simp]: "(\<And>b. unreadable (f b)) \<Longrightarrow> unreadable (map_maybe f v)"
  by (cases v) (auto simp: map_maybe_def)

lemma unreadable_each [intro]: "(\<And>y. unreadable (f y)) \<Longrightarrow> unreadable (each f ys)"
  by (induction ys) auto

lemma unreadable_row [simp]: "unreadable (row_in c x s bs)" "unreadable (row_entries d t r i)"
  by (cases s, auto simp: row_as_def row_entries_def split: option.splits)

lemma unreadable_stamped [simp]: "unreadable (stamped c x s bs prior now)"
  by (cases s, auto simp: stamp_as_def Let_def)

lemma unreadable_written: "(\<And>k key. unreadable (was k key)) \<Longrightarrow> unreadable (written_from c x d now was latest cs)"
proof (induction cs arbitrary: latest)
  case (Cons ch cs)
  obtain kind key v where "ch = (kind, key, v)" by (cases ch)
  with Cons show ?case by (auto split: option.splits prod.splits)
qed simp

lemma unreadable_find: "(\<And>lo hi n b. unreadable (scan lo hi n b)) \<Longrightarrow> unreadable (find_ordered d scan at equal ft m)"
  by (auto simp: find_ordered_def index_prefix_def missing_index_def not_ordered_def entry_values_def Let_def
      split: prod.splits option.splits list.splits)

lemma unreadable_untouched: "(\<And>lo hi n b. unreadable (scan lo hi n b)) \<Longrightarrow> unreadable (untouched scan q ft m ts)"
  by (auto simp: untouched_def region_def region_pair_def intro!: unreadable_find unreadable_each split: prod.splits list.splits)

definition batch_unreadable :: "'a on_batch \<Rightarrow> bool" where
  "batch_unreadable m \<longleftrightarrow> (\<forall>b. unreadable (fst (m b)))"

lemma batch_unreadable_bind: "batch_unreadable m \<Longrightarrow> (\<And>y. batch_unreadable (f y)) \<Longrightarrow> batch_unreadable (bindb m f)"
  by (auto simp: batch_unreadable_def bindb_def unreadable_def split: prod.splits sum.splits) (metis fst_conv)+

lemma batch_unreadable_lift: "unreadable r \<Longrightarrow> batch_unreadable (liftb r)"
  by (simp add: batch_unreadable_def liftb_def)

lemma unreadable_before: "(\<And>k key. unreadable (g k key)) \<Longrightarrow> unreadable (fst (before g b k key))"
proof (induction b)
  case (Bottom w cs ks)
  from Bottom [of k key] show ?case by (auto split: option.splits sum.splits)
qed (simp_all add: split_beta Let_def)

lemma unreadable_read: "(\<And>k key. unreadable (g k key)) \<Longrightarrow> unreadable (fst (read g b k key))"
proof (induction b)
  case (Bottom w cs ks)
  have "unreadable (fst (before g (Bottom w cs ks) k key))" by (rule unreadable_before) (rule Bottom)
  then show ?case by (auto simp del: before.simps split: option.splits)
qed (simp_all add: split_beta Let_def split: option.splits)

lemma unreadable_settle_queue:
  assumes g: "\<And>k key. unreadable (g k key)" and scan: "\<And>lo hi n b. unreadable (scan lo hi n b)"
  shows "batch_unreadable (settle_queue c g scan queue ws)"
proof -
  have seen: "batch_unreadable (seen_all c g queue vs d)" for vs d
    by (induction vs arbitrary: d)
      (auto simp: seen_one_def batch_unreadable_def [of "\<lambda>b. before g b k key" for k key] unreadable_before [OF g]
        intro!: batch_unreadable_bind batch_unreadable_lift split: prod.splits)
  have due: "unreadable (decode_due c v)" for v by (simp add: decode_due_def split: option.splits)
  have ran: "batch_unreadable (\<lambda>b. run g b (places c hold_kinds queue))"
    unfolding batch_unreadable_def
  proof
    fix b
    have "unreadable (fst (read g b (k_places hold_kinds) (places_key queue)))" by (rule unreadable_read [OF g])
    moreover have "unreadable (decode_places c v)" for v by (simp add: decode_places_def split: option.splits)
    ultimately show "unreadable (fst (run g b (places c hold_kinds queue)))"
      by (auto simp: places_def liftp_def unreadable_def split: sum.splits prod.splits)
  qed
  show ?thesis unfolding settle_queue_def Let_def
    by (intro batch_unreadable_bind batch_unreadable_lift seen due)
      (auto simp: batch_unreadable_def [of "\<lambda>b. read g b k key" for k key] batch_unreadable_def [of "\<lambda>b. (Inr (), f b)" for f]
        unreadable_read [OF g] intro!: unreadable_untouched [OF scan] batch_unreadable_bind batch_unreadable_lift ran split: option.splits)
qed

lemma unreadable_settle:
  assumes "\<And>k key. unreadable (g k key)" and "\<And>lo hi n b. unreadable (scan lo hi n b)"
  shows "unreadable (fst (settle c g scan b))"
proof -
  have "batch_unreadable (settle_queues c g scan qs)" for qs
    by (induction qs) (auto intro!: batch_unreadable_bind batch_unreadable_lift unreadable_settle_queue [OF assms])
  then show ?thesis by (simp add: batch_unreadable_def settle_def Let_def)
qed

lemma written_same:
  assumes "written_over c x Runtime cs now was = Inr (ws, es)"
  shows "same_but_stamps c (apply_changes L ws) (apply_changes L cs)"
  using applied_stamps [OF assms [unfolded written_over_def], of L L] by (simp add: same_but_stamps_def)

text \<open>
  What a group comes to, its writes decided in turn on what the store held: its batch failed, of the
  engine or of a record that cannot be read where its queues' firsts are settled or its records stamped
  and filed, every write answered so and nothing changed; or it was written, each write answered what
  it decided; a group that changes nothing writes nothing.
\<close>

definition batch_refused :: "codec \<Rightarrow> secret_rules \<Rightarrow> i128 \<Rightarrow> (op \<times> u64) list \<Rightarrow> kept_store \<times> u64 \<Rightarrow> persist_error \<Rightarrow> bool" where
  "batch_refused c x now ops Sn e \<longleftrightarrow> (let (S, next') = Sn; g = (\<lambda>k key. Inr (fst S k key));
       (ds, b, n) = decide_group c g now ops (empty_batch, next'); (settled, b1) = settle c g (\<lambda>lo hi n b. Inr (between (snd S) lo hi n b)) b;
       b2 = (if n \<noteq> next' then put b1 sequence_kind next_key (Some (be64 n)) else b1) in
     settled = Inl e \<or> written_over c x Runtime (changes b2) (nanos now) (\<lambda>k key. fst (before g b2 k key)) = Inl e)"

definition all_or_none :: "codec \<Rightarrow> (secret_error \<Rightarrow> string) \<Rightarrow> persist_error option \<Rightarrow> (persist_error \<Rightarrow> bool) \<Rightarrow> outcome result list \<times> ledger \<times> u64 \<Rightarrow>
    kept_store \<times> u64 \<Rightarrow> (outcome \<times> durability) result list \<Rightarrow> kept_store \<times> u64 \<Rightarrow> bool" where
  "all_or_none c say fails bad turned Sn as Sn' \<longleftrightarrow> (let (ds, L1, n1) = turned; (S, n) = Sn; (S', n') = Sn' in
     (\<exists>e. (fails = Some e \<or> (\<exists>why. e = Record why) \<and> bad e) \<and> as = map (\<lambda>_. Inl (again say e)) ds \<and> S' = S \<and> n' = n) \<or>
     (\<exists>dur L2. (if dur = Pending then fails = None else S' = S) \<and> as = map (\<lambda>d. bindr d (\<lambda>d. Inr (d, dur))) ds \<and> n' = n1 \<and>
       same_but_stamps c (fst S') L2 \<and> (\<forall>k. k \<noteq> due_places_kind \<longrightarrow> L2 k = moved_on L1 n n1 k)))"

lemma commit_is:
  assumes "in_turn c now ops (L, n) = (ds, L1, n1)" and "commit_on c x say (now, fails) ops ((L, X), n) = (as, (L', X'), n')"
  shows "all_or_none c say fails (batch_refused c x now ops ((L, X), n)) (ds, L1, n1) ((L, X), n) as ((L', X'), n')"
proof -
  let ?g = "\<lambda>k key. Inr (L k key)" and ?scan = "\<lambda>lo hi n b. Inr (between X lo hi n b)"
  obtain b where b: "decide_group c ?g now ops (empty_batch, n) = (ds, b, n1)" "grown ?g L b L1"
    using group_grown [OF assms(1)] by blast
  obtain settled b1 where s: "settle c ?g ?scan b = (settled, b1)" by fastforce
  have "\<exists>L2. grown ?g L (snd (settle c ?g ?scan b)) L2 \<and> (\<forall>k. k \<noteq> due_places_kind \<longrightarrow> L2 k = L1 k)"
    using keeps_settle [of ?g L L1 c ?scan] b(2) unfolding keeps_all_but_due_def by blast
  then obtain L2 where two: "grown ?g L b1 L2" "\<forall>k. k \<noteq> due_places_kind \<longrightarrow> L2 k = L1 k" unfolding s snd_conv by blast
  define b2 where "b2 = (if n1 \<noteq> n then put b1 sequence_kind next_key (Some (be64 n1)) else b1)"
  have three: "grown ?g L b2 (moved_on L2 n n1)" using two(1) grown_put unfolding b2_def moved_on_def by simp
  have same: "\<forall>k. k \<noteq> due_places_kind \<longrightarrow> moved_on L2 n n1 k = moved_on L1 n n1 k"
    using two(2) by (auto simp: moved_on_def fun_eq_iff upd_apply)
  have left: "moved_on L2 n n1 = apply_changes L (changes b2)" using three by (simp add: grown_def)
  let ?w = "written_over c x Runtime (changes b2) (nanos now) (\<lambda>k key. fst (before ?g b2 k key))"
  show ?thesis
  proof (cases "changes b2 = []")
    case True
    then have "as = map (\<lambda>d. bindr d (\<lambda>d. Inr (d, KeptAlready))) ds" "n' = n1" "L' = moved_on L2 n n1" "(L', X') = (L, X)"
      using assms(2) left by (auto simp: commit_on_def committed_def over_store_def b(1) s b2_def [symmetric] batch_written_def)
    then show ?thesis using same unfolding all_or_none_def Let_def prod.case
      by (intro disjI2 exI [of _ KeptAlready] exI [of _ "moved_on L2 n n1"]) (simp add: same_but_stamps_def)
  next
    case False
    let ?wrote = "bindr settled (\<lambda>_. bindr ?w (\<lambda>w. case fails of Some e \<Rightarrow> Inl e | None \<Rightarrow> Inr (Some w)))"
    have run: "(as, (L', X'), n') = (case ?wrote of Inl e \<Rightarrow> (map (\<lambda>_. Inl (again say e)) ds, (L, X), n)
        | Inr w \<Rightarrow> (map (\<lambda>d. bindr d (\<lambda>d. Inr (d, Pending))) ds, batch_written w (L, X), n1))"
      using False unfolding assms(2) [symmetric] commit_on_def committed_def over_store_def commit_env.simps fst_conv snd_conv b(1) s Let_def prod.case
        b2_def [symmetric]
      by (simp add: batch_written_def split: sum.splits)
    have "unreadable settled" using unreadable_settle [of ?g ?scan c b] by (simp add: s)
    moreover have "unreadable ?w" unfolding written_over_def by (intro unreadable_written unreadable_before) simp
    moreover have "batch_refused c x now ops ((L, X), n) e \<longleftrightarrow> settled = Inl e \<or> ?w = Inl e" for e
      unfolding batch_refused_def Let_def prod.case fst_conv snd_conv b(1) s b2_def by (rule refl)
    ultimately consider (none) e where "fails = Some e \<or> (\<exists>why. e = Record why) \<and> batch_refused c x now ops ((L, X), n) e" "as = map (\<lambda>_. Inl (again say e)) ds" "(L', X') = (L, X)" "n' = n"
      | (all) ws es where "fails = None" "as = map (\<lambda>d. bindr d (\<lambda>d. Inr (d, Pending))) ds" "n' = n1" "L' = apply_changes L ws" "?w = Inr (ws, es)"
      using run by (cases settled; cases ?w; cases fails) (auto simp: batch_written_def unreadable_def)
    then show ?thesis
    proof cases
      case none
      then show ?thesis unfolding all_or_none_def Let_def prod.case by blast
    next
      case all
      from written_same [OF all(5), of L] have "same_but_stamps c L' (moved_on L2 n n1)" by (simp add: all(4) left)
      with all(1,2,3) same show ?thesis unfolding all_or_none_def Let_def prod.case
        by (intro disjI2 exI [of _ Pending] exI [of _ "moved_on L2 n n1"]) simp
    qed
  qed
qed

section \<open>The audit sequence\<close>

text \<open>
  The kinds the audit sequence is kept under are no other operation's: each write moves its next
  number by one with the record it was asked for, or its first kept by one with that record taken
  out, or leaves both.
\<close>

abbreviation not_audit :: "kind set" where
  "not_audit \<equiv> - {audit_kind, sequence_kind}"

definition asked_audit :: "op \<Rightarrow> audit_entry option" where
  "asked_audit op = (case op of OpPublish p \<Rightarrow> Some (pb_audit p) | OpReplay r \<Rightarrow> Some (rp_audit r) | OpAudit e \<Rightarrow> Some e | _ \<Rightarrow> None)"

definition puts_audit :: "op \<Rightarrow> bool" where
  "puts_audit op \<longleftrightarrow> (case op of OpPut k key v \<Rightarrow> k \<in> {audit_kind, sequence_kind} | _ \<Rightarrow> False)"

lemma kinds_not_audit:
  "hand_on_kinds \<subseteq> not_audit" "publish_kinds \<subseteq> not_audit" "replay_writes_set \<union> kinds_of dead_kinds \<subseteq> not_audit"
  "{instance_kind} \<subseteq> not_audit" "{instance_key_kind} \<subseteq> not_audit" "claim_kind \<in> not_audit" "publication_kind \<in> not_audit"
  by (auto simp: audit_kind_def sequence_kind_def hand_on_kinds_def publish_kinds_def replay_writes_set_def journey_kind_def
      message_kind_def origin_kind_def kinds_of_def hold_kinds_def failed_kinds_def dead_kinds_def instance_kind_def
      instance_key_kind_def claim_kind_def publication_kind_def)

lemma claim_writes_quiet:
  "writes not_audit (stored_claim c y)" "writes not_audit (hold_claim c y until)" "writes not_audit (end_claim c y st)"
  using kinds_not_audit(6) by (auto simp: stored_claim_def hold_claim_def end_claim_def Let_def)

lemma take_writes_quiet: "writes not_audit (take_claim c y at)"
  by (cases at) (auto simp: take_claim_def intro!: claim_writes_quiet split: option.splits)

lemma hand_on_writes_quiet: "writes not_audit (decide_hand_on c h now)"
  using writes_mono [OF hand_on_body_writes kinds_not_audit(1)]
  by (auto simp: decide_hand_on_def Let_def intro!: claim_writes_quiet split: option.splits standing.splits)

lemma instances_writes_quiet: "writes not_audit (write_instances c ws keys gone)"
proof -
  have "writes not_audit (eachp (\<lambda>w. put_instance c (iw_record w)) us)" "writes not_audit (eachp (put_key c) ks)"
    "writes not_audit (eachp (take_key c) qs)" for us ks qs
    by (rule writes_mono, rule instance_writes, rule kinds_not_audit)+
  then show ?thesis by (auto simp: write_instances_def del: writes_eachp)
qed

lemma turn_quiet: "eval L (decide_turn c t now) = Inr (r, L') \<Longrightarrow> k \<notin> not_audit \<Longrightarrow> L' k = L k"
proof (erule turn_parts)
  fix L1 assume "k \<notin> not_audit" "eval L (decide_hand_on c (tu_hand_on t) now) = Inr (True, L1)"
    "eval L1 (write_instances c (tu_instances t) (tu_keys t) (tu_unkeyed t)) = Inr ((), L')"
  then show "L' k = L k" using writes_eval [OF hand_on_writes_quiet] writes_eval [OF instances_writes_quiet] by metis
qed auto

lemma publication_writes_quiet: "writes not_audit (decide_publication c p at)"
proof -
  note body = writes_mono [OF publish_body_writes kinds_not_audit(2)]
  have "writes not_audit (still_held c y)" for y
    by (auto simp: still_held_def intro!: claim_writes_quiet split: option.splits)
  then show ?thesis using kinds_not_audit(7)
    by (cases at) (auto simp: decide_publication_def Let_def intro!: body take_writes_quiet split: option.splits)
qed

lemma decide_sequence:
  assumes ran: "eval L (decide c now epoch n op) = Inr ((d, n'), L')" and raw: "\<not> puts_audit op"
  obtains (same) "n' = n" "L' audit_kind = L audit_kind" "L' sequence_kind = L sequence_kind"
  | (audited) e where "asked_audit op = Some e" "n' = n + 1" "L' audit_kind = (L audit_kind)(be64 n := Some (w_audit_entry c e))"
      "L' sequence_kind = L sequence_kind"
  | (moved) k where "op = OpKept k" "n' = n" "decode_sequence (L sequence_kind kept_key) = Inr k"
      "L' audit_kind = (L audit_kind)(be64 k := None)" "L' sequence_kind = (L sequence_kind)(kept_key := Some (be64 (k + 1)))"
proof -
  have apart: "audit_kind \<noteq> sequence_kind" by (simp add: audit_kind_def sequence_kind_def)
  have quiet: thesis if "eval L p = Inr (r, L1)" "writes not_audit p" "n' = n" "L' = L1" for p :: "'z prog" and r L1
    using same that writes_eval [OF that(2,1)] by simp
  have log: "L2 audit_kind = (L1 audit_kind)(be64 n := Some (w_audit_entry c e)) \<and> L2 sequence_kind = L1 sequence_kind \<and> m = n + 1"
    if "eval L1 (decide_audit c e n) = Inr ((w, m), L2)" for L1 L2 e w m
    using that apart by (auto simp: decide_audit_def upd_def)
  show thesis
  proof (cases op)
    case (OpPut k key v)
    then show thesis using ran raw same by (auto simp: puts_audit_def)
  next
    case (OpClaim y lease)
    then show thesis using ran by (auto simp: bindr_eq_Inr intro: quiet take_writes_quiet)
  next
    case (OpRenew ys lease)
    have "writes not_audit (renew_one c now lease y)" for y
      by (auto simp: renew_one_def Let_def intro!: claim_writes_quiet split: option.splits)
    then show thesis using ran OpRenew by (auto simp: bindr_eq_Inr intro: quiet)
  next
    case (OpRelease y)
    have "writes not_audit (decide_release c y)"
      by (auto simp: decide_release_def intro!: claim_writes_quiet split: option.splits)
    then show thesis using ran OpRelease by (auto simp: bindr_eq_Inr intro: quiet)
  next
    case (OpHandOn h)
    then show thesis using ran by (auto simp: bindr_eq_Inr intro: quiet hand_on_writes_quiet)
  next
    case (OpTurn t)
    then show thesis using ran same turn_quiet by (auto simp: bindr_eq_Inr)
  next
    case (OpPublish p)
    obtain r L1 where r: "eval L (decide_publication c p (now, epoch)) = Inr (r, L1)"
      "eval L1 (case r of DecidedBefore hs \<Rightarrow> Ret (DoneClaims hs, n)
        | DecidedNow hs \<Rightarrow> bindp (decide_audit c (pb_audit p) n) (\<lambda>(_, m). Ret (DoneClaims hs, m))) = Inr ((d, n'), L')"
      using ran unfolding OpPublish decide.simps eval_bindp_eq_Inr by blast
    note kinds = writes_eval [OF publication_writes_quiet r(1)]
    show thesis
    proof (cases r)
      case (DecidedBefore hs)
      then show thesis using r(2) kinds same by auto
    next
      case (DecidedNow hs)
      then obtain w where "eval L1 (decide_audit c (pb_audit p) n) = Inr ((w, n'), L')" using r(2) by (auto simp: bindr_eq_Inr)
      from log [OF this] kinds show thesis by (intro audited [of "pb_audit p"]) (auto simp: OpPublish asked_audit_def)
    qed
  next
    case (OpReplay rp)
    obtain r L1 where r: "eval L (decide_replay c rp) = Inr (r, L1)"
      "eval L1 (case r of Now \<Rightarrow> bindp (decide_audit c (rp_audit rp) n) (\<lambda>(_, m). Ret (DoneReplayed Now, m))
        | Before \<Rightarrow> Ret (DoneReplayed Before, n) | Absent \<Rightarrow> Ret (DoneReplayed Absent, n)) = Inr ((d, n'), L')"
      using ran unfolding OpReplay decide.simps eval_bindp_eq_Inr by blast
    note kinds = writes_eval [OF writes_mono [OF decide_replay_writes kinds_not_audit(3)] r(1)]
    show thesis
    proof (cases r)
      case Now
      then obtain w where "eval L1 (decide_audit c (rp_audit rp) n) = Inr ((w, n'), L')" using r(2) by (auto simp: bindr_eq_Inr)
      from log [OF this] kinds show thesis by (intro audited [of "rp_audit rp"]) (auto simp: OpReplay asked_audit_def)
    qed (use r(2) kinds same in auto)
  next
    case (OpAudit e)
    then show thesis using ran log [of L e d n' L'] by (intro audited [of e]) (auto simp: asked_audit_def)
  next
    case (OpKept k)
    obtain b L1 where r: "eval L (decide_kept k) = Inr (b, L1)" "n' = n" "L' = L1" using ran OpKept by (auto simp: bindr_eq_Inr)
    show thesis
    proof (cases "decode_sequence (L sequence_kind kept_key) = Inr k")
      case True
      then show thesis using r OpKept apart by (intro moved [of k]) (auto simp: decide_kept_def upd_def)
    next
      case False
      then show thesis using r same by (auto simp: decide_kept_def bindr_eq_Inr)
    qed
  qed
qed

text \<open>The audit records kept are the ones from the first the keeper has not moved to the next number.\<close>

definition audit_ok :: "ledger \<Rightarrow> u64 \<Rightarrow> bool" where
  "audit_ok L n \<longleftrightarrow> (\<exists>k. decode_sequence (L sequence_kind kept_key) = Inr k \<and> k \<le> n \<and>
     (\<forall>m. (L audit_kind (be64 m) \<noteq> None) = (k \<le> m \<and> m < n)))"

definition writer_ok :: "ledger \<Rightarrow> u64 \<Rightarrow> bool" where
  "writer_ok L n \<longleftrightarrow> audit_ok L n \<and> decode_sequence (L sequence_kind next_key) = Inr n"

definition writes_in :: "u64 \<Rightarrow> (op \<times> u64) list \<Rightarrow> bool" where
  "writes_in n ops \<longleftrightarrow> (\<forall>(op, epoch) \<in> set ops. \<not> puts_audit op \<and> (\<forall>k. op = OpKept k \<longrightarrow> k < n))"

lemma decode_be64 [simp]: "decode_sequence (Some (be64 n)) = Inr n"
  by (simp add: decode_sequence_def)

lemma next_kept_apart [simp]: "next_key \<noteq> kept_key" "kept_key \<noteq> next_key"
  by (simp_all add: next_key_def kept_key_def as_bytes_def)

text \<open>What a group adds to the audit log: its records in order, from the next number on.\<close>

definition plain_audits :: "(op \<times> u64) list \<Rightarrow> audit_entry list" where
  "plain_audits ops = List.map_filter (\<lambda>(op, epoch). case op of OpAudit e \<Rightarrow> Some e | _ \<Rightarrow> None) ops"

definition logged :: "codec \<Rightarrow> (op \<times> u64) list \<Rightarrow> u64 \<Rightarrow> ledger \<Rightarrow> u64 \<Rightarrow> audit_entry list \<Rightarrow> bool" where
  "logged c ops n L' n' es \<longleftrightarrow> subseq es (List.map_filter (asked_audit \<circ> fst) ops) \<and> subseq (plain_audits ops) es \<and>
     unat n' = unat n + length es \<and> (\<forall>i < length es. L' audit_kind (be64 (n + word_of_nat i)) = Some (w_audit_entry c (es ! i)))"

lemma logged_Cons: "logged c ops n L' n' es \<Longrightarrow> \<forall>e. fst oe \<noteq> OpAudit e \<Longrightarrow> logged c (oe # ops) n L' n' es"
  by (auto simp: logged_def plain_audits_def List.map_filter_simps split: option.splits op.splits prod.splits)

lemma in_turn_sequence:
  assumes "in_turn c now ops (L, n) = (ds, L', n')" and "audit_ok L n" and "writes_in n0 ops" and "n0 \<le> n"
    and "unat n + length ops < 2 ^ 64"
  shows "audit_ok L' n' \<and> L' sequence_kind next_key = L sequence_kind next_key \<and> (\<exists>es. logged c ops n L' n' es) \<and>
    (\<forall>m. m < n \<longrightarrow> L' audit_kind (be64 m) = L audit_kind (be64 m) \<or> m < n0 \<and> L' audit_kind (be64 m) = None)"
  using assms
proof (induction ops arbitrary: L n ds)
  case Nil
  then show ?case by (auto simp: logged_def plain_audits_def List.map_filter_simps)
next
  case (Cons oe ops)
  obtain op epoch where oe: "oe = (op, epoch)" by (cases oe)
  have here: "\<not> puts_audit op" "\<And>k. op = OpKept k \<Longrightarrow> k < n0" "writes_in n0 ops"
    using Cons.prems(3) by (auto simp: writes_in_def oe)
  have room: "unat n + length ops < 2 ^ 64" using Cons.prems(5) by simp
  show ?case
  proof (cases "eval L (decide c now epoch n op)")
    case (Inl e)
    then obtain ds' where "in_turn c now ops (L, n) = (ds', L', n')" using Cons.prems(1) by (auto simp: oe split: prod.splits)
    from Cons.IH [OF this Cons.prems(2) here(3) Cons.prems(4) room]
    have ih: "audit_ok L' n' \<and> L' sequence_kind next_key = L sequence_kind next_key \<and> (\<exists>es. logged c ops n L' n' es) \<and>
        (\<forall>m. m < n \<longrightarrow> L' audit_kind (be64 m) = L audit_kind (be64 m) \<or> m < n0 \<and> L' audit_kind (be64 m) = None)" .
    have "\<forall>e. fst oe \<noteq> OpAudit e" using Inl by (auto simp: oe decide_audit_def)
    from ih logged_Cons [OF _ this] show ?thesis by blast
  next
    case (Inr dl)
    obtain d n1 L1 where dl: "dl = ((d, n1), L1)" by (metis surj_pair)
    obtain ds' where rest: "in_turn c now ops (L1, n1) = (ds', L', n')" using Cons.prems(1) Inr dl by (auto simp: oe split: prod.splits)
    obtain k where k: "decode_sequence (L sequence_kind kept_key) = Inr k" "k \<le> n"
        "\<And>m. (L audit_kind (be64 m) \<noteq> None) = (k \<le> m \<and> m < n)"
      using Cons.prems(2) unfolding audit_ok_def by blast
    from Inr [unfolded dl] here(1) show ?thesis
    proof (cases rule: decide_sequence)
      case same
      have "\<forall>e. fst oe \<noteq> OpAudit e" using Inr dl same(1) by (auto simp: oe decide_audit_def)
      note more = logged_Cons [OF _ this]
      have "audit_ok L1 n" using Cons.prems(2) same by (simp add: audit_ok_def)
      from Cons.IH [OF rest [unfolded same(1)] this here(3) Cons.prems(4) room] show ?thesis
        unfolding same using more by blast
    next
      case (audited e)
      have n: "unat (n + 1) = unat n + 1" "n < n + 1"
        using Cons.prems(5) by (simp_all add: unat_word_ariths word_less_nat_alt)
      have below: "m < n + 1 \<longleftrightarrow> m < n \<or> m = n" for m using n(1) by (auto simp: word_less_nat_alt word_unat_eq_iff)
      have "k \<le> n + 1" using k(2) n(2) by (rule order.trans [OF _ less_imp_le])
      moreover have "(L1 audit_kind (be64 m) \<noteq> None) = (k \<le> m \<and> m < n + 1)" for m
        using k(2) k(3) [of m] by (cases "m = n") (simp_all add: audited(3) below)
      ultimately have "audit_ok L1 (n + 1)" unfolding audit_ok_def using k(1) audited(4) by auto
      moreover have "n0 \<le> n + 1" using Cons.prems(4) n(2) by (rule order.trans [OF _ less_imp_le])
      moreover have "unat (n + 1) + length ops < 2 ^ 64" using Cons.prems(5) n by simp
      ultimately have ih: "audit_ok L' n' \<and> L' sequence_kind next_key = L1 sequence_kind next_key \<and> (\<exists>es. logged c ops (n + 1) L' n' es) \<and>
          (\<forall>m. m < n + 1 \<longrightarrow> L' audit_kind (be64 m) = L1 audit_kind (be64 m) \<or> m < n0 \<and> L' audit_kind (be64 m) = None)"
        using Cons.IH [OF rest [unfolded audited(2)] _ here(3)] by blast
      then obtain es where es: "logged c ops (n + 1) L' n' es" by blast
      have "L' audit_kind (be64 n) = Some (w_audit_entry c e)"
        using ih below Cons.prems(4) audited(3) by (auto simp: not_less [symmetric] dest: spec [of _ n])
      then have "logged c (oe # ops) n L' n' (e # es)"
        using es audited(1) n(1) unfolding logged_def oe
        by (auto simp: plain_audits_def List.map_filter_simps asked_audit_def nth_Cons add.assoc [symmetric] split: nat.splits op.splits)
      moreover have "\<forall>m. m < n \<longrightarrow> L' audit_kind (be64 m) = L audit_kind (be64 m) \<or> m < n0 \<and> L' audit_kind (be64 m) = None"
      proof (intro allI impI)
        fix m assume m: "m < n"
        then have "L1 audit_kind (be64 m) = L audit_kind (be64 m)" by (auto simp: audited(3))
        then show "L' audit_kind (be64 m) = L audit_kind (be64 m) \<or> m < n0 \<and> L' audit_kind (be64 m) = None"
          using ih m below by metis
      qed
      ultimately show ?thesis using ih audited(4) by auto
    next
      case (moved k')
      have k': "k' = k" "k < n0" using moved(3) k(1) here(2) [OF moved(1)] by auto
      have "unat k + 1 < 2 ^ 64" using k'(2) unsigned_less [of n0, where ?'a = nat] by (simp add: word_less_nat_alt)
      then have n: "unat (k + 1) = unat k + 1" by (simp add: unat_word_ariths)
      have "(k \<le> m \<and> m < n \<and> m \<noteq> k) = (k + 1 \<le> m \<and> m < n)" for m
        using n by (auto simp: word_less_nat_alt word_le_nat_alt word_unat_eq_iff)
      moreover have "k + 1 \<le> n" using n k'(2) Cons.prems(4) by (simp add: word_less_nat_alt word_le_nat_alt)
      moreover have "(L1 audit_kind (be64 m) \<noteq> None) = (k \<le> m \<and> m < n \<and> m \<noteq> k)" for m
        using k(3) [of m] by (cases "m = k") (simp_all add: moved(4) k'(1))
      ultimately have "audit_ok L1 n" unfolding audit_ok_def using moved(5) k'(1) by auto
      from Cons.IH [OF rest [unfolded moved(2)] this here(3) Cons.prems(4) room]
      have ih: "audit_ok L' n' \<and> L' sequence_kind next_key = L1 sequence_kind next_key \<and> (\<exists>es. logged c ops n L' n' es) \<and>
          (\<forall>m. m < n \<longrightarrow> L' audit_kind (be64 m) = L1 audit_kind (be64 m) \<or> m < n0 \<and> L' audit_kind (be64 m) = None)" .
      have "L1 sequence_kind next_key = L sequence_kind next_key" by (simp add: moved(5))
      moreover have "L1 audit_kind (be64 m) = L audit_kind (be64 m) \<or> m < n0 \<and> L1 audit_kind (be64 m) = None" for m
        using moved(4) k' by simp
      moreover have "\<exists>es. logged c (oe # ops) n L' n' es"
      proof -
        have "\<forall>e. fst oe \<noteq> OpAudit e" by (simp add: oe moved(1))
        from ih logged_Cons [OF _ this] show ?thesis by blast
      qed
      ultimately show ?thesis using ih by metis
    qed
  qed
qed

lemma same_but_stamps_audit:
  assumes "same_but_stamps c L' L" and "k \<in> {audit_kind, sequence_kind}"
  shows "L' k = L k"
proof
  fix key
  have "searched_of Runtime k = None" using assms(2) by (auto simp: audit_kind_def sequence_kind_def)
  show "L' k key = L k key"
    by (rule written_as_unsearched [where c = c, OF _ \<open>searched_of Runtime k = None\<close>]) (use assms(1) in \<open>simp add: same_but_stamps_def\<close>)
qed

lemma commit_sequence:
  assumes commit: "commit_on c x say (now, fails) ops ((L, X), n) = (as, (L', X'), n')"
    and ok: "writer_ok L n" and ops: "writes_in n ops" and room: "unat n + length ops < 2 ^ 64"
  shows "writer_ok L' n' \<and> (\<forall>m. m < n \<longrightarrow> L' audit_kind (be64 m) = L audit_kind (be64 m) \<or> L' audit_kind (be64 m) = None) \<and>
    ((\<exists>e. as = map (\<lambda>_. Inl e) ops \<and> L' = L \<and> X' = X \<and> n' = n) \<or> (\<exists>es. logged c ops n L' n' es))"
proof -
  obtain ds L1 n1 where turn: "in_turn c now ops (L, n) = (ds, L1, n1)" by (metis surj_pair)
  have len: "length ds = length ops"
  proof -
    have "length (fst (in_turn c now ops Ln)) = length ops" for Ln
      by (induction ops arbitrary: Ln) (auto simp: split_beta Let_def split: sum.splits prod.splits)
    from this [of "(L, n)"] turn show ?thesis by simp
  qed
  have audit: "audit_ok L n" "decode_sequence (L sequence_kind next_key) = Inr n" using ok by (simp_all add: writer_ok_def)
  note seq = in_turn_sequence [OF turn audit(1) ops order.refl room]
  consider (none) e where "as = map (\<lambda>_. Inl (again say e)) ds" "L' = L" "X' = X" "n' = n"
    | (all) L2 where "n' = n1" "same_but_stamps c L' L2" "\<forall>k. k \<noteq> due_places_kind \<longrightarrow> L2 k = moved_on L1 n n1 k"
    using commit_is [OF turn commit] unfolding all_or_none_def Let_def prod.case by auto
  then show ?thesis
  proof cases
    case none
    have "as = map (\<lambda>_. Inl (again say e)) ops" using none(1) len by (simp add: map_replicate_const)
    then show ?thesis using none ok by auto
  next
    case all
    have due: "audit_kind \<noteq> due_places_kind" "sequence_kind \<noteq> due_places_kind" "audit_kind \<noteq> sequence_kind"
      by (simp_all add: audit_kind_def sequence_kind_def due_places_kind_def)
    have kinds: "L' audit_kind = L1 audit_kind" "L' sequence_kind = moved_on L1 n n1 sequence_kind"
      using same_but_stamps_audit [OF all(2)] all(3) due by (simp_all add: moved_on_def)
    have key: "L' sequence_kind kept_key = L1 sequence_kind kept_key" by (simp add: kinds(2) moved_on_def)
    have "decode_sequence (L' sequence_kind next_key) = Inr n1"
      using seq audit(2) by (simp add: kinds(2) moved_on_def)
    moreover have "audit_ok L' n1" using seq by (simp add: audit_ok_def kinds(1) key)
    moreover have "\<exists>es. logged c ops n L' n' es" using seq by (simp add: logged_def kinds(1) all(1))
    ultimately show ?thesis using seq all(1) by (auto simp: writer_ok_def kinds(1))
  qed
qed

section \<open>Under its callers\<close>

text \<open>
  The writer \<open>Waiting\<close> decides with: each write with the epoch the writer loads for it, each batch at
  the time and with the engine's failure \<open>env\<close> says of its number.
\<close>

definition writer_commits :: "codec \<Rightarrow> secret_rules \<Rightarrow> (secret_error \<Rightarrow> string) \<Rightarrow> (nat \<Rightarrow> i128 \<times> persist_error option) \<Rightarrow>
    (op \<times> u64, (kept_store \<times> u64) \<times> nat, outcome \<times> durability) decides" where
  "writer_commits c x say env w ops = (let (as, Sn) = commit_on c x say (env (snd w)) ops (fst w) in ((Sn, snd w + 1), map Some as))"

text \<open>
  What a caller's write came to in its group: its place in what the commit answered the group, which
  is all of it or none, decided in turn on what the store held then and left as the store is after it.
\<close>

definition answered_in :: "codec \<Rightarrow> secret_rules \<Rightarrow> (secret_error \<Rightarrow> string) \<Rightarrow> (nat \<Rightarrow> i128 \<times> persist_error option) \<Rightarrow>
    ((op \<times> u64) \<times> nat) list \<Rightarrow> (kept_store \<times> u64) \<times> nat \<Rightarrow> (kept_store \<times> u64) \<times> nat \<Rightarrow> nat \<Rightarrow> (outcome \<times> durability) result \<Rightarrow> bool" where
  "answered_in c x say env g w w' i r \<longleftrightarrow> (let (Sn, k) = w; (Sn', k') = w'; (now, fails) = env k; ops = map fst g;
       as = fst (commit_on c x say (now, fails) ops Sn) in
     (\<exists>m < length g. snd (g ! m) = i \<and> r = as ! m) \<and>
     all_or_none c say fails (batch_refused c x now ops Sn) (in_turn c now ops (fst (fst Sn), snd Sn)) Sn as Sn')"

lemma length_in_turn: "length (fst (in_turn c now ops Ln)) = length ops"
  by (induction ops arbitrary: Ln) (auto simp: split_beta Let_def split: sum.splits prod.splits)

lemma answers_nth:
  assumes "distinct (map snd g)" and "length as = length g" and "m < length g"
  shows "answers g as (snd (g ! m)) = as ! m"
proof -
  have "map_of (zip (map snd g) as) (map snd g ! m) = Some (as ! m)"
    by (rule map_of_zip_nth) (use assms in simp_all)
  then show ?thesis using assms(3) by (simp add: answers_def)
qed

lemma group_answer:
  assumes "distinct (map snd g)" and "i \<in> callers g"
  shows "\<exists>r. snd (group_after (writer_commits c x say env) g (w, m)) i = Some r \<and>
    answered_in c x say env g w (fst (group_after (writer_commits c x say env) g (w, m))) i r"
proof -
  obtain L X n k where w: "w = (((L, X), n), k)" by (metis surj_pair)
  obtain now fails where env: "env k = (now, fails)" by (metis surj_pair)
  obtain ds L1 n1 where turn: "in_turn c now (map fst g) (L, n) = (ds, L1, n1)" by (metis surj_pair)
  obtain as L' X' n' where commit: "commit_on c x say (now, fails) (map fst g) ((L, X), n) = (as, (L', X'), n')"
    by (metis surj_pair)
  have all: "all_or_none c say fails (batch_refused c x now (map fst g) ((L, X), n)) (ds, L1, n1) ((L, X), n) as ((L', X'), n')"
    by (rule commit_is [OF turn commit])
  have "length ds = length g" using length_in_turn [of c now "map fst g" "(L, n)"] turn by simp
  then have len: "length as = length g" using all by (auto simp: all_or_none_def Let_def)
  obtain j where j: "j < length g" "snd (g ! j) = i" using assms(2) by (auto simp: callers_def in_set_conv_nth)
  have "answers g (map Some as) i = Some (as ! j)"
    using answers_nth [OF assms(1) _ j(1), of "map Some as"] j len by simp
  then have "snd (group_after (writer_commits c x say env) g (w, m)) i = Some (as ! j)"
    "fst (group_after (writer_commits c x say env) g (w, m)) = (((L', X'), n'), k + 1)"
    using commit by (simp_all add: group_after_def writer_commits_def w env split: prod.splits)
  moreover have "answered_in c x say env g w (((L', X'), n'), k + 1) i (as ! j)"
    unfolding answered_in_def w env Let_def prod.case fst_conv snd_conv commit turn using j all by blast
  ultimately show ?thesis by auto
qed

lemma groups_answered:
  assumes "distinct (map snd (concat gs))" and "i \<in> callers (concat gs)"
  shows "\<exists>before' g after' r. gs = before' @ g # after' \<and> snd (groups_after (writer_commits c x say env) w gs) i = Some r \<and>
    answered_in c x say env g (fst (groups_after (writer_commits c x say env) w before'))
      (fst (groups_after (writer_commits c x say env) w (before' @ [g]))) i r"
  using assms
proof (induction gs rule: rev_induct)
  case (snoc g gs)
  let ?c = "writer_commits c x say env"
  show ?case
  proof (cases "i \<in> callers g")
    case True
    have "distinct (map snd g)" using snoc.prems(1) by simp
    from group_answer [OF this True, of c x say env "fst (groups_after ?c w gs)" "snd (groups_after ?c w gs)"]
    show ?thesis by (intro exI [of _ gs] exI [of _ g] exI [of _ "[]"]) (simp add: groups_after_append)
  next
    case False
    then obtain before' g' after' r where ih: "gs = before' @ g' # after'" "snd (groups_after ?c w gs) i = Some r"
        "answered_in c x say env g' (fst (groups_after ?c w before')) (fst (groups_after ?c w (before' @ [g']))) i r"
      using snoc.IH snoc.prems by auto
    then have "gs @ [g] = before' @ g' # (after' @ [g])" by simp
    then show ?thesis using ih groups_after_other [OF False] by metis
  qed
qed simp

section \<open>Properties\<close>

text \<open>
  C2: A group is written whole or not at all. Either its batch failed, of the engine's failure or of a
  record that cannot be read where its queues' firsts are settled or its records stamped and filed, and
  every write in it is answered that failure, the records, the index and the next audit number as they
  were; or the engine did not fail, or there was nothing to write, and each write is answered what it
  would be, decided one after the other, and the store holds what they would leave: every record as it
  was written but for the times stamped of a Journey, a Message or a held Message and for the queues'
  firsts, which are settled besides, and the audit sequence's next number moved on with the records.
\<close>

theorem batch_all_or_none:
  assumes "in_turn c now ops (L, n) = (ds, L1, n1)" and "commit_on c x say (now, fails) ops ((L, X), n) = (as, (L', X'), n')"
  shows "(\<exists>e. (fails = Some e \<or> (\<exists>why. e = Record why) \<and> batch_refused c x now ops ((L, X), n) e) \<and> as = map (\<lambda>_. Inl (again say e)) ds \<and> L' = L \<and> X' = X \<and> n' = n) \<or>
    (\<exists>dur L2. (if dur = Pending then fails = None else L' = L \<and> X' = X) \<and> as = map (\<lambda>d. bindr d (\<lambda>d. Inr (d, dur))) ds \<and> n' = n1 \<and>
      (\<forall>k key. L' k key = L2 k key \<or> (\<exists>s b b'. searched_of Runtime k = Some s \<and> L2 k key = Some b \<and> L' k key = Some b' \<and> stamps_only c s b b')) \<and>
      (\<forall>k. k \<noteq> due_places_kind \<longrightarrow> L2 k = moved_on L1 n n1 k))"
  using commit_is [OF assms] unfolding all_or_none_def same_but_stamps_def written_as_def Let_def prod.case fst_conv prod.inject conj_assoc .

text \<open>
  C4: The audit log has no gap and no number twice. The records kept are those from the first the
  keeper has not moved to the next number, which the store keeps and a writer that panicked
  recovers; a batch that is written adds the audit records it was asked for at the next numbers,
  in order, none of those asked alone left out, and changes none before them but to take out what
  the keeper moved; one that fails leaves the log as it was.
\<close>

theorem audit_log_has_no_gap:
  assumes "commit_on c x say (now, fails) ops ((L, X), n) = (as, (L', X'), n')"
    and "writer_ok L n" and "writes_in n ops" and "unat n + length ops < 2 ^ 64"
  shows "writer_ok L' n' \<and> recover (\<lambda>k key. Inr (L' k key)) m = n' \<and>
    (\<forall>m. m < n \<longrightarrow> L' audit_kind (be64 m) = L audit_kind (be64 m) \<or> L' audit_kind (be64 m) = None) \<and>
    ((\<exists>e. as = map (\<lambda>_. Inl e) ops \<and> L' = L \<and> X' = X \<and> n' = n) \<or> (\<exists>es. logged c ops n L' n' es))"
  using commit_sequence [OF assms] by (simp add: recover_def sequence_def writer_ok_def)

text \<open>
  C7: However callers submit their writes at once, each is answered what its write came to in a
  group of which it was one, decided in turn on what the store held when the groups before it had
  been written, in the order they were asked; and the group is all of it or none: where its batch was
  written each caller in it is answered what its write decided, and where the batch failed, each the
  failure, and the store is left as it was.
\<close>

theorem writes_answered_in_turn:
  assumes "reachable (writer_commits c x say env) w s" and "wq_at s i = Returned r"
  shows "\<exists>before' g after'. wq_groups s = before' @ g # after' \<and>
    answered_in c x say env g (fst (groups_after (writer_commits c x say env) w before'))
      (fst (groups_after (writer_commits c x say env) w (before' @ [g]))) i r"
proof -
  let ?c = "writer_commits c x say env"
  note inv = reachable_inv [OF assms(1)]
  have "i \<in> callers (concat (wq_groups s))" "r = final_answer ?c w (wq_groups s) i"
    using inv_caller [OF inv, of i] assms(2) by (simp_all add: caller_ok_def decided_of_def Let_def)
  moreover have "distinct (map snd (concat (wq_groups s)))" using inv_distinct [OF inv] unfolding inv_asked [OF inv] map_append distinct_append by blast
  ultimately obtain before' g after' r' where "wq_groups s = before' @ g # after'" "snd (groups_after ?c w (wq_groups s)) i = Some r'"
      "answered_in c x say env g (fst (groups_after ?c w before')) (fst (groups_after ?c w (before' @ [g]))) i r'" "r = final_answer ?c w (wq_groups s) i"
    using groups_answered [of "wq_groups s" i c x say env w] by blast
  then show ?thesis by (auto simp: final_answer_def)
qed

text \<open>An audit record written to an empty store, for the witnesses.\<close>

definition sample_log :: ledger where
  "sample_log = upd (upd empty_ledger audit_kind (be64 0) (Some (w_audit_entry plain_codec sample_audit)))
     sequence_kind next_key (Some (be64 1))"

lemma sample_commit_on:
  "commit_on plain_codec plain_rules (\<lambda>_. []) (50, None) [(OpAudit sample_audit, 1)] ((empty_ledger, Map.empty), 0) =
    ([Inr (Written, Pending)], (sample_log, Map.empty), 1)"
  by (simp add: commit_on_def committed_def over_store_def decide_audit_def empty_batch_def staged_def settle_def written_held_def
      written_of_def Batch.extend_def liftb_def batch_written_def written_over_def audit_kind_def sequence_kind_def hold_kinds_def
      sample_log_def Let_def)

text \<open>A batch written, and the same where the engine fails.\<close>

theorem batch_all_or_none_witness:
  "commit_on plain_codec plain_rules (\<lambda>_. []) (50, None) [(OpAudit sample_audit, 1)] ((empty_ledger, Map.empty), 0) =
     ([Inr (Written, Pending)], (sample_log, Map.empty), 1) \<and>
   commit_on plain_codec plain_rules (\<lambda>_. []) (50, Some (Engine ''disk'' ''full'')) [(OpAudit sample_audit, 1)] ((empty_ledger, Map.empty), 0) =
     ([Inl (Engine ''disk'' ''full'')], (empty_ledger, Map.empty), 0)"
proof -
  let ?on = "\<lambda>fails. commit_on plain_codec plain_rules (\<lambda>_. []) (50, fails) [(OpAudit sample_audit, 1)] ((empty_ledger, Map.empty), 0)"
  have turn: "in_turn plain_codec 50 [(OpAudit sample_audit, 1)] (empty_ledger, 0) =
      ([Inr Written], upd empty_ledger audit_kind (be64 0) (Some (w_audit_entry plain_codec sample_audit)), 1)"
    by (simp add: decide_audit_def)
  obtain as L' X' n' where run: "?on (Some (Engine ''disk'' ''full'')) = (as, (L', X'), n')" by (metis surj_pair)
  have refused: "as = [Inl (Engine ''disk'' ''full'')]"
    using run by (auto simp: commit_on_def committed_def over_store_def decide_audit_def empty_batch_def staged_def settle_def written_held_def
      written_of_def Batch.extend_def liftb_def batch_written_def written_over_def audit_kind_def sequence_kind_def hold_kinds_def Let_def again_def)
  have "L' = empty_ledger \<and> X' = Map.empty \<and> n' = 0"
    using batch_all_or_none [OF turn run] by (auto simp: refused)
  with refused show ?thesis using run sample_commit_on by simp
qed

theorem audit_log_has_no_gap_witness: "writer_ok sample_log 1 \<and> recover (\<lambda>k key. Inr (sample_log k key)) 7 = 1"
proof -
  have "writer_ok empty_ledger 0" by (simp add: writer_ok_def audit_ok_def empty_ledger_def decode_sequence_def)
  moreover have "writes_in 0 [(OpAudit sample_audit, 1)]" by (simp add: writes_in_def puts_audit_def)
  ultimately show ?thesis using audit_log_has_no_gap [OF sample_commit_on] by simp
qed

theorem writes_answered_in_turn_witness:
  "\<exists>s. runs (writer_commits plain_codec plain_rules (\<lambda>_. []) (\<lambda>_. (50, None))) [0, 0, 0, 0, 0]
      (asks 0 (OpAudit sample_audit, 1) (waiting_new (((empty_ledger, Map.empty), 0), 0))) = Some s \<and>
    wq_at s 0 = Returned (Inr (Written, Pending)) \<and>
    (\<exists>before' g after'. wq_groups s = before' @ g # after' \<and> 0 \<in> callers g)"
proof -
  let ?c = "writer_commits plain_codec plain_rules (\<lambda>_. []) (\<lambda>_. (50, None))"
  let ?s = "asks 0 (OpAudit sample_audit, 1) (waiting_new (((empty_ledger, Map.empty), 0), 0))"
  have start: "reachable ?c (((empty_ledger, Map.empty), 0), 0) ?s"
    by (rule reachable.step [OF reachable.start steps_to.ask]) (simp add: waiting_new_def)
  have decided: "?c (((empty_ledger, Map.empty), 0), 0) [(OpAudit sample_audit, 1)] =
      (((((sample_log, Map.empty), 1), 1), [Some (Inr (Written, Pending))]))"
    by (simp add: writer_commits_def sample_commit_on)
  then have "\<exists>s. runs ?c [0, 0, 0, 0, 0] ?s = Some s \<and> wq_at s 0 = Returned (Inr (Written, Pending))"
    by (simp add: moved_def takes_def asks_def waiting_new_def commits_def looks_def answers_def group_most_def callers_def Let_def)
  then obtain s where s: "runs ?c [0, 0, 0, 0, 0] ?s = Some s" "wq_at s 0 = Returned (Inr (Written, Pending))" by blast
  from writes_answered_in_turn [OF reachable_runs [OF start s(1)] s(2)]
  have "\<exists>before' g after'. wq_groups s = before' @ g # after' \<and> 0 \<in> callers g"
    by (fastforce simp: answered_in_def callers_def split_beta Let_def)
  with s show ?thesis by blast
qed

end
