(* ===== verification/Durable.thy ===== *)
theory Durable
  imports Writer
begin

text \<open>
  When a write answered before its sync is durable (\<open>src/.src/storage/durable.rs\<close>), and the thread
  that syncs the batches the writer wrote (\<open>commit/syncer.rs\<close>): the writer hands over each batch it
  has written and goes on, the thread syncs every batch handed over so far with one sync and tells
  each what the sync came to. It is shown that a batch told durable is on the disk, however the two
  interleave, and that every batch handed over is told.
\<close>

section \<open>A write's durability\<close>

text \<open>Told once, what the sync came to: a failure's words, or nothing wrong.\<close>

type_synonym synced = "string + unit"

definition durable_pending :: "synced option" where "durable_pending = None"

definition tell :: "synced \<Rightarrow> synced option \<Rightarrow> synced option" where
  "tell synced told = (case told of None \<Rightarrow> Some synced | Some _ \<Rightarrow> told)"

definition durable_kept :: "synced option" where "durable_kept = tell (Inr ()) durable_pending"

text \<open>A wait: nothing yet while it is not told, then its word; and whether it was told durable.\<close>

definition waited :: "synced option \<Rightarrow> unit result option" where
  "waited told = map_option (\<lambda>r. case r of Inl why \<Rightarrow> Inl (Engine ''xmip-storage'' why) | Inr _ \<Rightarrow> Inr ()) told"

definition told_durable :: "synced option \<Rightarrow> bool option" where
  "told_durable told = map_option (\<lambda>r. case r of Inl _ \<Rightarrow> False | Inr _ \<Rightarrow> True) told"

section \<open>The syncs\<close>

text \<open>
  Where the thread is: before its next batch, with the batches it took, in the sync begun when \<open>n\<close>
  batches were written, telling the batches what the sync came to, or ended.
\<close>

datatype thread_at =
    Idle
  | Took "nat list"
  | Began "nat list" nat
  | Telling "nat list" synced
  | Ended

text \<open>
  The batches are numbered as they are written: so many are written to the engine, the first so many
  of them are on the disk. \<open>sy_handing\<close> is the batch the writer has written and not yet handed over;
  \<open>sy_open\<close> is the sender, gone once the writer is let go of.
\<close>

record syncing =
  sy_told :: "nat \<Rightarrow> synced option"
  sy_open :: bool
  sy_inbox :: "nat list"
  sy_thread :: thread_at
  sy_written :: nat
  sy_safe :: nat
  sy_handing :: "nat option"

definition syncer_start :: syncing where
  "syncer_start = \<lparr>sy_told = (\<lambda>_. durable_pending), sy_open = True, sy_inbox = [], sy_thread = Idle, sy_written = 0,
     sy_safe = 0, sy_handing = None\<rparr>"

definition tells :: "nat \<Rightarrow> synced \<Rightarrow> syncing \<Rightarrow> syncing" where
  "tells b synced s = s\<lparr>sy_told := (sy_told s)(b := tell synced (sy_told s b))\<rparr>"

definition sync_stopped :: string where "sync_stopped = ''the Storage node's sync has stopped''"

text \<open>The writer: a batch written to the engine, then handed over, or told that the sync has stopped.\<close>

definition batch_in_engine :: "syncing \<Rightarrow> syncing option" where
  "batch_in_engine s = (if sy_open s \<and> sy_handing s = None
     then Some (s\<lparr>sy_handing := Some (sy_written s), sy_written := Suc (sy_written s)\<rparr>) else None)"

definition hands_over :: "syncing \<Rightarrow> syncing option" where
  "hands_over s = (case sy_handing s of None \<Rightarrow> None
   | Some b \<Rightarrow> let s' = s\<lparr>sy_handing := None\<rparr> in
       if sy_open s \<and> sy_thread s \<noteq> Ended then Some (s'\<lparr>sy_inbox := sy_inbox s @ [b]\<rparr>)
       else Some (tells b (Inl sync_stopped) s'))"

definition lets_go :: "syncing \<Rightarrow> syncing option" where
  "lets_go s = (if sy_handing s = None then Some (s\<lparr>sy_open := False\<rparr>) else None)"

text \<open>
  The thread: the first batch waited for, with every other there is; the store synced, which makes
  durable everything written before it began where it does not fail; and each told.
\<close>

definition thread_moved :: "(secret_error \<Rightarrow> string) \<Rightarrow> persist_error option \<Rightarrow> syncing \<Rightarrow> syncing option" where
  "thread_moved say failed s = (case sy_thread s of
     Idle \<Rightarrow> if sy_inbox s \<noteq> [] then Some (s\<lparr>sy_thread := Took (sy_inbox s), sy_inbox := []\<rparr>)
       else if sy_open s then None else Some (s\<lparr>sy_thread := Ended\<rparr>)
   | Took bs \<Rightarrow> Some (s\<lparr>sy_thread := Began bs (sy_written s)\<rparr>)
   | Began bs n \<Rightarrow> (case failed of
       Some e \<Rightarrow> Some (s\<lparr>sy_thread := Telling bs (Inl (display say e))\<rparr>)
     | None \<Rightarrow> Some (s\<lparr>sy_safe := max (sy_safe s) n, sy_thread := Telling bs (Inr ())\<rparr>))
   | Telling [] r \<Rightarrow> Some (s\<lparr>sy_thread := Idle\<rparr>)
   | Telling (b # bs) r \<Rightarrow> Some ((tells b r s)\<lparr>sy_thread := Telling bs r\<rparr>)
   | Ended \<Rightarrow> None)"

inductive syncs_to :: "syncing \<Rightarrow> syncing \<Rightarrow> bool" where
  wrote: "batch_in_engine s = Some s' \<Longrightarrow> syncs_to s s'"
| handed: "hands_over s = Some s' \<Longrightarrow> syncs_to s s'"
| let_go: "lets_go s = Some s' \<Longrightarrow> syncs_to s s'"
| thread: "thread_moved say failed s = Some s' \<Longrightarrow> syncs_to s s'"

inductive syncer_reaches :: "syncing \<Rightarrow> bool" where
  start: "syncer_reaches syncer_start"
| step: "syncer_reaches s \<Longrightarrow> syncs_to s s' \<Longrightarrow> syncer_reaches s'"

inductive_cases syncs_to_cases: "syncs_to s s'"

section \<open>What holds throughout\<close>

fun in_thread :: "thread_at \<Rightarrow> nat list" where
  "in_thread (Took bs) = bs"
| "in_thread (Began bs n) = bs"
| "in_thread (Telling bs r) = bs"
| "in_thread _ = []"

definition untold :: "syncing \<Rightarrow> nat set" where
  "untold s = set (sy_inbox s) \<union> set (in_thread (sy_thread s)) \<union> set_option (sy_handing s)"

definition syncing_inv :: "syncing \<Rightarrow> bool" where
  "syncing_inv s \<longleftrightarrow> sy_safe s \<le> sy_written s \<and> (\<forall>b. sy_told s b = Some (Inr ()) \<longrightarrow> b < sy_safe s) \<and>
     (sy_handing s \<noteq> None \<longrightarrow> sy_open s) \<and> (\<forall>b. b < sy_written s \<longleftrightarrow> sy_told s b \<noteq> None \<or> b \<in> untold s) \<and>
     (case sy_thread s of Began bs n \<Rightarrow> n \<le> sy_written s \<and> (\<forall>b \<in> set bs. b < n)
      | Telling bs (Inr _) \<Rightarrow> (\<forall>b \<in> set bs. b < sy_safe s)
      | Ended \<Rightarrow> \<not> sy_open s \<and> sy_inbox s = [] \<and> sy_handing s = None | _ \<Rightarrow> True)"

lemma tell_is: "tell r t = (if t = None then Some r else t)"
  by (cases t) (simp_all add: tell_def)

lemma inv_wrote: "syncing_inv s \<Longrightarrow> batch_in_engine s = Some s' \<Longrightarrow> syncing_inv s'"
  by (auto simp: syncing_inv_def batch_in_engine_def untold_def less_Suc_eq split: if_splits thread_at.splits sum.splits)

lemma inv_handed:
  assumes inv: "syncing_inv s" and handed: "hands_over s = Some s'"
  shows "syncing_inv s'"
proof -
  obtain b where b: "sy_handing s = Some b" using handed by (auto simp: hands_over_def split: option.splits)
  then have "sy_open s \<and> sy_thread s \<noteq> Ended" using inv by (auto simp: syncing_inv_def)
  then have s': "s' = s\<lparr>sy_handing := None, sy_inbox := sy_inbox s @ [b]\<rparr>" using handed b by (simp add: hands_over_def Let_def)
  have "untold s' = untold s" by (auto simp: untold_def s' b)
  then show ?thesis using inv \<open>sy_open s \<and> sy_thread s \<noteq> Ended\<close>
    by (auto simp: syncing_inv_def s' split: thread_at.splits sum.splits)
qed

lemma inv_let_go: "syncing_inv s \<Longrightarrow> lets_go s = Some s' \<Longrightarrow> syncing_inv s'"
  by (auto simp: syncing_inv_def lets_go_def untold_def split: if_splits thread_at.splits sum.splits)

lemma inv_thread:
  assumes "syncing_inv s" and "thread_moved say failed s = Some s'"
  shows "syncing_inv s'"
proof (cases "sy_thread s")
  case Idle
  then show ?thesis using assms by (auto simp: syncing_inv_def thread_moved_def untold_def split: if_splits option.splits)
next
  case (Took bs)
  then show ?thesis using assms by (auto simp: syncing_inv_def thread_moved_def untold_def)
next
  case (Began bs n)
  then show ?thesis using assms by (auto simp: syncing_inv_def thread_moved_def untold_def less_max_iff_disj split: option.splits)
next
  case (Telling bs r)
  then show ?thesis using assms
    by (cases bs; cases r) (auto simp: syncing_inv_def thread_moved_def untold_def tells_def tell_is split: if_splits)
next
  case Ended
  then show ?thesis using assms by (simp add: thread_moved_def)
qed

lemma reaches_inv: "syncer_reaches s \<Longrightarrow> syncing_inv s"
proof (induction rule: syncer_reaches.induct)
  case start
  then show ?case by (simp add: syncing_inv_def syncer_start_def untold_def durable_pending_def)
next
  case (step s s')
  from step(2,3) show ?case by (auto elim!: syncs_to_cases intro: inv_wrote inv_handed inv_let_go inv_thread)
qed

section \<open>The thread ends its work\<close>

fun thread_work :: "thread_at \<Rightarrow> nat" where
  "thread_work Idle = 1"
| "thread_work (Took bs) = length bs + 4"
| "thread_work (Began bs n) = length bs + 3"
| "thread_work (Telling bs r) = length bs + 2"
| "thread_work Ended = 0"

definition sync_work :: "syncing \<Rightarrow> nat" where
  "sync_work s = thread_work (sy_thread s) + 5 * length (sy_inbox s)"

lemma thread_less: "thread_moved say failed s = Some s' \<Longrightarrow> sync_work s' < sync_work s"
proof (cases "sy_thread s")
  case Idle
  moreover assume "thread_moved say failed s = Some s'"
  ultimately show ?thesis by (cases "sy_inbox s") (auto simp: thread_moved_def sync_work_def split: if_splits)
next
  case (Telling bs r)
  moreover assume "thread_moved say failed s = Some s'"
  ultimately show ?thesis by (cases bs) (auto simp: thread_moved_def sync_work_def tells_def)
qed (auto simp: thread_moved_def sync_work_def split: option.splits)

text \<open>The thread alone, each sync's outcome as it comes.\<close>

fun thread_runs :: "(secret_error \<Rightarrow> string) \<Rightarrow> persist_error option list \<Rightarrow> syncing \<Rightarrow> syncing option" where
  "thread_runs say [] s = Some s"
| "thread_runs say (f # fs) s = (case thread_moved say f s of None \<Rightarrow> None | Some s' \<Rightarrow> thread_runs say fs s')"

lemma thread_runs_less: "thread_runs say fs s = Some s' \<Longrightarrow> length fs + sync_work s' \<le> sync_work s"
  by (induction fs arbitrary: s) (fastforce split: option.splits dest: thread_less)+

lemma thread_runs_reach: "syncer_reaches s \<Longrightarrow> thread_runs say fs s = Some s' \<Longrightarrow> syncer_reaches s' \<and> sy_handing s' = sy_handing s \<and> sy_written s' = sy_written s"
proof (induction fs arbitrary: s)
  case (Cons f fs)
  then obtain s1 where s1: "thread_moved say f s = Some s1" "thread_runs say fs s1 = Some s'" by (auto split: option.splits)
  have "sy_handing s1 = sy_handing s" "sy_written s1 = sy_written s"
    using s1(1) by (auto simp: thread_moved_def tells_def split: thread_at.splits list.splits option.splits if_splits)
  moreover have "syncer_reaches s1" using Cons.prems(1) syncs_to.thread [OF s1(1)] by (rule syncer_reaches.step)
  ultimately show ?case using Cons.IH s1(2) by simp
qed simp

lemma thread_rests:
  assumes "thread_moved say f s = None"
  shows "sy_inbox s = [] \<or> sy_thread s = Ended" and "in_thread (sy_thread s) = []"
  using assms by (auto simp: thread_moved_def split: thread_at.splits list.splits option.splits if_splits)

section \<open>Properties\<close>

text \<open>
  C5: A write told durable is on the disk. However the writer's batches and the syncs interleave, a
  batch whose wait ends well is one of those an engine's sync that did not fail began after it was
  written; what it was told first stands, whatever it is told after.
\<close>

theorem told_durable_is_on_disk:
  assumes "syncer_reaches s" and "waited (sy_told s b) = Some (Inr ())"
  shows "b < sy_safe s \<and> sy_safe s \<le> sy_written s \<and> (\<forall>r. sy_told (tells b r s) b = sy_told s b)"
proof -
  have "sy_told s b = Some (Inr ())" using assms(2) by (cases "sy_told s b"; cases "the (sy_told s b)") (auto simp: waited_def)
  then show ?thesis using reaches_inv [OF assms(1)] by (simp add: syncing_inv_def tells_def tell_is)
qed

text \<open>
  C40: Every batch handed over is told. From any state reached, the thread takes only so many steps
  before it waits for a batch or has ended, whatever its syncs come to; and then every batch written,
  but the one the writer has yet to hand over, has been told, so no caller waits on it for ever.
\<close>

theorem every_batch_is_told:
  assumes "syncer_reaches s" and "thread_runs say fs s = Some s'"
  shows "length fs \<le> sync_work s \<and>
    (thread_moved say f s' = None \<longrightarrow> (\<forall>b < sy_written s. sy_handing s \<noteq> Some b \<longrightarrow> waited (sy_told s' b) \<noteq> None))"
proof (intro conjI impI allI)
  show "length fs \<le> sync_work s" using thread_runs_less [OF assms(2)] by simp
next
  fix b assume rests: "thread_moved say f s' = None" and b: "b < sy_written s" "sy_handing s \<noteq> Some b"
  note s' = thread_runs_reach [OF assms]
  have inv: "syncing_inv s'" using reaches_inv s' by blast
  have "sy_inbox s' = []" using thread_rests(1) [OF rests] inv by (auto simp: syncing_inv_def)
  then have "untold s' = set_option (sy_handing s)" using thread_rests(2) [OF rests] s' by (simp add: untold_def)
  moreover have "b < sy_written s'" using b s' by simp
  ultimately have "sy_told s' b \<noteq> None" using inv b(2) unfolding syncing_inv_def by auto
  then show "waited (sy_told s' b) \<noteq> None" by (simp add: waited_def)
qed

text \<open>Two batches written while the first is synced; the second's sync fails.\<close>

definition sample_syncing :: syncing where
  "sample_syncing = the (hands_over (the (batch_in_engine (the (thread_moved (\<lambda>_. []) None (the (hands_over (the (batch_in_engine syncer_start)))))))))"

lemma sample_syncing_is:
  "sample_syncing = \<lparr>sy_told = (\<lambda>_. None), sy_open = True, sy_inbox = [1], sy_thread = Took [0], sy_written = 2, sy_safe = 0, sy_handing = None\<rparr>"
  by (simp add: sample_syncing_def syncer_start_def batch_in_engine_def hands_over_def thread_moved_def durable_pending_def)

lemma sample_syncing_reached: "syncer_reaches sample_syncing"
proof -
  let ?s1 = "the (batch_in_engine syncer_start)" let ?s2 = "the (hands_over ?s1)" let ?s3 = "the (thread_moved (\<lambda>_. []) None ?s2)"
  let ?s4 = "the (batch_in_engine ?s3)"
  note defs = syncer_start_def batch_in_engine_def hands_over_def thread_moved_def durable_pending_def
  have "syncs_to syncer_start ?s1" by (rule wrote) (simp add: defs)
  moreover have "syncs_to ?s1 ?s2" by (rule handed) (simp add: defs)
  moreover have "syncs_to ?s2 ?s3" by (rule thread [where failed = None and say = "\<lambda>_. []"]) (simp add: defs)
  moreover have "syncs_to ?s3 ?s4" by (rule wrote) (simp add: defs)
  moreover have "syncs_to ?s4 sample_syncing" unfolding sample_syncing_def by (rule handed) (simp add: defs)
  ultimately show ?thesis by (meson syncer_reaches.intros)
qed

definition sample_outcomes :: "persist_error option list" where
  "sample_outcomes = [None, None, None, None, None, None, Some (Engine ''db'' ''full''), None, None]"

lemma sample_runs:
  "\<exists>s'. thread_runs (\<lambda>_. []) sample_outcomes sample_syncing = Some s' \<and> sy_told s' 0 = Some (Inr ()) \<and>
    sy_told s' 1 = Some (Inl ''db: full'') \<and> sy_safe s' = 2 \<and> thread_moved (\<lambda>_. []) None s' = None"
  by (simp add: sample_outcomes_def sample_syncing_is thread_moved_def tells_def tell_def)

theorem told_durable_is_on_disk_witness:
  "\<exists>s'. thread_runs (\<lambda>_. []) sample_outcomes sample_syncing = Some s' \<and> waited (sy_told s' 0) = Some (Inr ()) \<and> 0 < sy_safe s'"
proof -
  obtain s' where s': "thread_runs (\<lambda>_. []) sample_outcomes sample_syncing = Some s'" "sy_told s' 0 = Some (Inr ())"
    using sample_runs by blast
  have "waited (sy_told s' 0) = Some (Inr ())" by (simp add: s'(2) waited_def)
  with told_durable_is_on_disk [OF _ this] thread_runs_reach [OF sample_syncing_reached s'(1)] s'(1) show ?thesis by blast
qed

theorem every_batch_is_told_witness:
  "length sample_outcomes \<le> sync_work sample_syncing \<and>
    (\<exists>s'. thread_runs (\<lambda>_. []) sample_outcomes sample_syncing = Some s' \<and> waited (sy_told s' 1) \<noteq> None)"
proof -
  obtain s' where s': "thread_runs (\<lambda>_. []) sample_outcomes sample_syncing = Some s'" "thread_moved (\<lambda>_. []) None s' = None"
    using sample_runs by blast
  from every_batch_is_told [OF sample_syncing_reached s'(1), of None] s' show ?thesis by (auto simp: sample_syncing_is)
qed

end
