(* ===== verification/Chain.thy ===== *)
theory Chain
  imports Commit Columns
begin

text \<open>
  A writer's audit records in the audit database are a chain (\<open>src/.src/storage/chain.rs\<close>): each is
  given the next number in it, the digest of the record before it and its own digest, over its
  canonical form; the head of the chain is kept in the record's own write. Two kept records of
  one canonical form are shown to be one but for their digest and the keeper's time.
\<close>

section \<open>The canonical form, and a link\<close>

definition chain_kind :: kind where "chain_kind = ''audit-chain-head''"
definition no_digest :: bytes where "no_digest = replicate 32 0"

definition unsealed :: "kept_audit \<Rightarrow> kept_audit" where
  "unsealed k = k\<lparr>ka_facts := (ka_facts k)\<lparr>af_digest := no_digest, af_kept_unix_nanos := 0\<rparr>\<rparr>"

definition canonical_form :: "codec \<Rightarrow> kept_audit \<Rightarrow> stream_record list \<Rightarrow> bytes" where
  "canonical_form c k streams =
     w_kept_audit c (unsealed k) @ w_u32 c (saturated_u32 (length streams)) @ concat (map (w_stream_record c) streams)"

definition chain_digest :: "codec \<Rightarrow> (bytes \<Rightarrow> bytes) \<Rightarrow> kept_audit \<Rightarrow> stream_record list \<Rightarrow> bytes" where
  "chain_digest c sha256 k streams = sha256 (canonical_form c k streams)"

definition carried_streams :: "audit_entry \<Rightarrow> u128 list" where
  "carried_streams entry = foldl (\<lambda>carried s. if s \<in> set carried then carried else carried @ [s]) []
     (case ae_audited entry of None \<Rightarrow> [] | Some a \<Rightarrow> ad_streams a)"

definition cut :: persist_error where
  "cut = malformed ''an audit chain's head that is not a number and a digest''"

definition decode_head :: "bytes option \<Rightarrow> (u64 \<times> bytes) result" where
  "decode_head v = (case v of
     None \<Rightarrow> Inr (0, no_digest)
   | Some head \<Rightarrow> if length head < 8 then Inl cut
       else if length (drop 8 head) \<noteq> 32 then Inl cut
       else Inr (word_of_nat (from_be (take 8 head)), drop 8 head))"

text \<open>The record given its place after the head the store holds, and the head's own change.\<close>

definition link :: "codec \<Rightarrow> (bytes \<Rightarrow> bytes) \<Rightarrow> store_get \<Rightarrow> kept_audit \<Rightarrow> stream_record list \<Rightarrow>
    (kept_audit \<times> record_change) result" where
  "link c sha256 get k streams =
     bindr (get chain_kind (as_bytes (af_writer (ka_facts k)))) (\<lambda>v.
     bindr (decode_head v) (\<lambda>(position, previous).
       let k1 = k\<lparr>ka_facts := (ka_facts k)\<lparr>af_position := position + 1, af_previous := previous\<rparr>\<rparr>;
           k2 = k1\<lparr>ka_facts := (ka_facts k1)\<lparr>af_digest := chain_digest c sha256 k1 streams\<rparr>\<rparr>
       in Inr (k2, (chain_kind, as_bytes (af_writer (ka_facts k)),
            Some (be64 (af_position (ka_facts k2)) @ af_digest (ka_facts k2))))))"

section \<open>What is digested\<close>

lemma distinct_carried: "distinct (carried_streams entry)" and set_carried:
  "set (carried_streams entry) = (case ae_audited entry of None \<Rightarrow> {} | Some a \<Rightarrow> set (ad_streams a))"
proof -
  let ?add = "foldl (\<lambda>carried s. if s \<in> set carried then carried else carried @ [s])"
  have "distinct (?add acc ss)" if "distinct acc" for acc ss :: "u128 list" using that by (induction ss arbitrary: acc) auto
  moreover have "set (?add acc ss) = set acc \<union> set ss" for acc ss :: "u128 list" by (induction ss arbitrary: acc) auto
  ultimately show "distinct (carried_streams entry)"
    "set (carried_streams entry) = (case ae_audited entry of None \<Rightarrow> {} | Some a \<Rightarrow> set (ad_streams a))"
    by (auto simp: carried_streams_def split: option.splits)
qed

lemma length_carried:
  "length (carried_streams entry) \<le> (case ae_audited entry of None \<Rightarrow> 0 | Some a \<Rightarrow> length (ad_streams a))"
  using distinct_card [OF distinct_carried, of entry] card_length [of "case ae_audited entry of None \<Rightarrow> [] | Some a \<Rightarrow> ad_streams a"]
  by (auto simp: set_carried split: option.splits)

text \<open>The digest is over neither itself nor the keeper's time.\<close>

lemma unsealed_same [simp]:
  "unsealed (k\<lparr>ka_facts := (ka_facts k)\<lparr>af_digest := d\<rparr>\<rparr>) = unsealed k"
  "unsealed (k\<lparr>ka_facts := (ka_facts k)\<lparr>af_kept_unix_nanos := t\<rparr>\<rparr>) = unsealed k"
  by (simp_all add: unsealed_def)

lemma fit_unsealed: "fit_kept_audit c k \<Longrightarrow> fit_kept_audit c (unsealed k)"
  by (simp add: unsealed_def fit_kept_audit_def fit_audit_facts_def no_digest_def)

lemma decode_head_write [simp]:
  "length d = 32 \<Longrightarrow> decode_head (Some (be64 n @ d)) = Inr (n, d)"
  by (simp add: decode_head_def)

lemma length_no_digest [simp]: "length no_digest = 32"
  by (simp add: no_digest_def)

lemma decode_head_length: "decode_head v = Inr (n, d) \<Longrightarrow> length d = 32"
  unfolding decode_head_def by (cases v) (auto split: if_splits)

context codec_laws
begin

lemma canonical_inject:
  assumes "fit_kept_audit c k" and "fit_kept_audit c k'" and "list_all (fit_stream_record c) ss" and "list_all (fit_stream_record c) ss'"
    and "length ss < 2 ^ 32" and "length ss' < 2 ^ 32" and "canonical_form c k ss = canonical_form c k' ss'"
  shows "unsealed k = unsealed k' \<and> ss = ss'"
proof -
  have form: "form (w_many c (w_stream_record c)) (r_many c (r_stream_record c)) (fit_many (fit_stream_record c))"
    by (rule many_form) (rule stream_record.form_axioms)
  have same: "w_kept_audit c (unsealed k) @ w_many c (w_stream_record c) ss = w_kept_audit c (unsealed k') @ w_many c (w_stream_record c) ss'"
    using assms(7) by (simp add: canonical_form_def w_many_def)
  have "(Inr (unsealed k, w_many c (w_stream_record c) ss) :: string + _) = Inr (unsealed k', w_many c (w_stream_record c) ss')"
    using kept_audit.read_write [OF fit_unsealed [OF assms(1)], of "w_many c (w_stream_record c) ss", unfolded same]
      kept_audit.read_write [OF fit_unsealed [OF assms(2)], of "w_many c (w_stream_record c) ss'"]
    by (rule trans [OF sym])
  then have "unsealed k = unsealed k'" and "w_many c (w_stream_record c) ss = w_many c (w_stream_record c) ss'" by blast+
  moreover have "fit_many (fit_stream_record c) ss" "fit_many (fit_stream_record c) ss'" using assms by (simp_all add: fit_many_def)
  ultimately show ?thesis using form.write_inject [OF form] by blast
qed

end

end
