(* ===== verification/Chunk_Reader.thy ===== *)
theory Chunk_Reader
  imports Records
begin

text \<open>
  A Stream's chunks read in order (\<open>ChunkReader\<close> in \<open>src/.src/storage/stream.rs\<close>): one chunk held
  at a time, up to the first there is not, held to the length its record keeps and, a kept audit
  record's copy, to its digest too. A chunk is taken whole, or a piece at a time; the loop of a
  read over empty chunks is a partial function, and is shown to end wherever a chunk is not empty
  or is not there.

  However it is read, what a reader gave once it says the Stream ended is every chunk kept, in
  order, of the length and the digest its record says.
\<close>

section \<open>Where it reads, and what it asks\<close>

datatype chunked =
    Ledger u128
  | Audit u128 u128 bytes
  | AuditBody u128 bytes

text \<open>The reads of Xmip Storage a reader asks, and the SHA-256 it takes of what it reads.\<close>

record asking =
  as_chunk :: "u128 \<Rightarrow> u32 \<Rightarrow> stream_chunk option result"
  as_kept_chunk :: "u128 \<Rightarrow> u128 option \<Rightarrow> u32 \<Rightarrow> bytes option result"
  as_kept_stream :: "u128 \<Rightarrow> u128 \<Rightarrow> stream_record option result"
  as_kept_audit :: "u128 \<Rightarrow> kept_audit option result"
  as_sha256 :: "bytes \<Rightarrow> bytes"

text \<open>The SHA-256 of bytes as they pass: what was taken in so far, and its digest.\<close>

type_synonym stream_digest = bytes

definition digest_update :: "stream_digest \<Rightarrow> bytes \<Rightarrow> stream_digest" where
  "digest_update d bs = d @ bs"

record chunk_reader =
  cr_from :: chunked
  cr_length :: u64
  cr_next :: u32
  cr_held :: bytes
  cr_at :: nat
  cr_read :: u64
  cr_ended :: bool
  cr_digest :: "stream_digest option"

definition reader_asking :: "chunked \<Rightarrow> u64 \<Rightarrow> chunk_reader" where
  "reader_asking from len = \<lparr>cr_from = from, cr_length = len, cr_next = 0, cr_held = [], cr_at = 0, cr_read = 0,
     cr_ended = False, cr_digest = (case from of Ledger _ \<Rightarrow> None | _ \<Rightarrow> Some [])\<rparr>"

definition shared_from :: "u128 \<Rightarrow> u64 \<Rightarrow> u32 \<times> u64 \<Rightarrow> chunk_reader" where
  "shared_from stream len cb = (reader_asking (Ledger stream) len)\<lparr>cr_next := fst cb, cr_read := snd cb\<rparr>"

definition audited_reader :: "asking \<Rightarrow> u128 \<Rightarrow> u128 \<Rightarrow> chunk_reader option result" where
  "audited_reader a audit stream = bindr (as_kept_stream a audit stream) (\<lambda>v.
     Inr (map_option (\<lambda>s. reader_asking (Audit audit stream (sr_digest s)) (sr_length s)) v))"

definition body_reader :: "asking \<Rightarrow> u128 \<Rightarrow> chunk_reader option result" where
  "body_reader a audit = bindr (as_kept_audit a audit) (\<lambda>v.
     Inr (map_option (\<lambda>k. reader_asking (AuditBody audit (af_body_digest (ka_facts k))) (af_body_length (ka_facts k))) v))"

section \<open>What went wrong\<close>

text \<open>
  A read that fails says what: the Stream is not of its length, or its digest, which is evidence
  (\<open>InvalidData\<close>), or the chunk could not be read, which is evidence where it failed its tag or
  would not decode and no verdict anywhere else.
\<close>

datatype unread =
    NotItsLength chunked u64 u32 u64
  | NotItsDigest chunked bytes bytes
  | Unread persist_error

fun invalid_data :: "unread \<Rightarrow> bool" where
  "invalid_data (Unread (Refused _ _)) = True"
| "invalid_data (Unread (Record _)) = True"
| "invalid_data (Unread _) = False"
| "invalid_data _ = True"

section \<open>A chunk, and a piece\<close>

definition asked_chunk :: "asking \<Rightarrow> chunked \<Rightarrow> u32 \<Rightarrow> bytes option result" where
  "asked_chunk a from i = (case from of
     Ledger stream \<Rightarrow> bindr (as_chunk a stream i) (\<lambda>v. Inr (map_option sc_bytes v))
   | Audit audit stream _ \<Rightarrow> as_kept_chunk a audit (Some stream) i
   | AuditBody audit _ \<Rightarrow> as_kept_chunk a audit None i)"

definition reader_end :: "asking \<Rightarrow> chunk_reader \<Rightarrow> (unread + unit) \<times> chunk_reader" where
  "reader_end a r = (let wrong = NotItsLength (cr_from r) (cr_read r) (cr_next r) (cr_length r) in
     case cr_from r of
       Ledger stream \<Rightarrow> if cr_read r \<noteq> cr_length r then (Inl wrong, r) else (Inr (), r\<lparr>cr_ended := True\<rparr>)
     | Audit audit stream said \<Rightarrow>
         if cr_read r \<noteq> cr_length r then (Inl wrong, r)
         else let digest = as_sha256 a (case cr_digest r of None \<Rightarrow> [] | Some d \<Rightarrow> d); r' = r\<lparr>cr_digest := None\<rparr> in
           if digest \<noteq> said then (Inl (NotItsDigest (cr_from r) digest said), r') else (Inr (), r'\<lparr>cr_ended := True\<rparr>)
     | AuditBody audit said \<Rightarrow>
         if cr_read r \<noteq> cr_length r then (Inl wrong, r)
         else let digest = as_sha256 a (case cr_digest r of None \<Rightarrow> [] | Some d \<Rightarrow> d); r' = r\<lparr>cr_digest := None\<rparr> in
           if digest \<noteq> said then (Inl (NotItsDigest (cr_from r) digest said), r') else (Inr (), r'\<lparr>cr_ended := True\<rparr>))"

definition next_chunk :: "asking \<Rightarrow> chunk_reader \<Rightarrow> (unread + bytes option) \<times> chunk_reader" where
  "next_chunk a r =
     (if cr_at r < length (cr_held r)
      then (Inr (Some (drop (cr_at r) (cr_held r))), r\<lparr>cr_held := [], cr_at := 0\<rparr>)
      else if cr_ended r then (Inr None, r)
      else case asked_chunk a (cr_from r) (cr_next r) of
        Inl e \<Rightarrow> (Inl (Unread e), r)
      | Inr None \<Rightarrow> (case reader_end a r of (Inl e, r') \<Rightarrow> (Inl e, r') | (Inr _, r') \<Rightarrow> (Inr None, r'))
      | Inr (Some chunk) \<Rightarrow> (Inr (Some chunk),
          r\<lparr>cr_read := cr_read r + word_of_nat (length chunk), cr_digest := map_option (\<lambda>d. digest_update d chunk) (cr_digest r),
            cr_next := cr_next r + 1, cr_held := [], cr_at := 0\<rparr>))"

text \<open>The loop of a read: the next chunk taken while what is held is all given.\<close>

partial_function (option) filled :: "asking \<Rightarrow> chunk_reader \<Rightarrow> ((unread + bool) \<times> chunk_reader) option" where
  "filled a r =
     (if cr_at r \<noteq> length (cr_held r) then Some (Inr True, r)
      else case next_chunk a r of
        (Inl e, r') \<Rightarrow> Some (Inl e, r')
      | (Inr v, r') \<Rightarrow> (case v of None \<Rightarrow> Some (Inr False, r') | Some chunk \<Rightarrow> filled a (r'\<lparr>cr_held := chunk, cr_at := 0\<rparr>)))"

definition read_piece :: "asking \<Rightarrow> chunk_reader \<Rightarrow> nat \<Rightarrow> ((unread + bytes) \<times> chunk_reader) option" where
  "read_piece a r n = (case filled a r of
     None \<Rightarrow> None
   | Some (Inl e, r') \<Rightarrow> Some (Inl e, r')
   | Some (Inr False, r') \<Rightarrow> Some (Inr [], r')
   | Some (Inr True, r') \<Rightarrow> let taken = min n (length (cr_held r') - cr_at r') in
       Some (Inr (take taken (drop (cr_at r') (cr_held r'))), r'\<lparr>cr_at := cr_at r' + taken\<rparr>))"

section \<open>What a reader gave\<close>

text \<open>The chunks kept before a place, in order; and what was given of them so far.\<close>

definition chunks_kept :: "asking \<Rightarrow> chunked \<Rightarrow> nat \<Rightarrow> bytes list \<Rightarrow> bool" where
  "chunks_kept a from k chunks \<longleftrightarrow>
     (\<forall>i < length chunks. asked_chunk a from (word_of_nat (k + i)) = Inr (Some (chunks ! i)))"

text \<open>However a reader is asked: whole chunks, or pieces of any size, in any order.\<close>

inductive gives :: "asking \<Rightarrow> chunk_reader \<Rightarrow> bytes \<Rightarrow> chunk_reader \<Rightarrow> bool" for a r where
  begins: "gives a r [] r"
| whole: "gives a r out r1 \<Longrightarrow> next_chunk a r1 = (Inr (Some chunk), r2) \<Longrightarrow> gives a r (out @ chunk) r2"
| piece: "gives a r out r1 \<Longrightarrow> read_piece a r1 n = Some (Inr part, r2) \<Longrightarrow> gives a r (out @ part) r2"
| unasked: "gives a r out r1 \<Longrightarrow> next_chunk a r1 = (Inl e, r2) \<Longrightarrow> \<not> invalid_data e \<Longrightarrow> gives a r out r2"
| unread: "gives a r out r1 \<Longrightarrow> read_piece a r1 n = Some (Inl e, r2) \<Longrightarrow> \<not> invalid_data e \<Longrightarrow> gives a r out r2"

text \<open>A reader that began at a chunk, once it took some chunks; and what it gave of them.\<close>

definition held_to :: "asking \<Rightarrow> chunked \<Rightarrow> bytes \<Rightarrow> bool" where
  "held_to a from bs = (case from of Ledger _ \<Rightarrow> True | Audit _ _ said \<Rightarrow> as_sha256 a bs = said | AuditBody _ said \<Rightarrow> as_sha256 a bs = said)"

definition took :: "asking \<Rightarrow> chunk_reader \<Rightarrow> bytes list \<Rightarrow> chunk_reader \<Rightarrow> bool" where
  "took a r0 chunks r \<longleftrightarrow> cr_from r = cr_from r0 \<and> cr_length r = cr_length r0 \<and>
     chunks_kept a (cr_from r0) (unat (cr_next r0)) chunks \<and> cr_next r = cr_next r0 + word_of_nat (length chunks) \<and>
     cr_read r = cr_read r0 + word_of_nat (length (concat chunks)) \<and>
     (if cr_ended r
      then asked_chunk a (cr_from r0) (cr_next r) = Inr None \<and> cr_read r = cr_length r0 \<and>
        (\<forall>d. cr_digest r0 = Some d \<longrightarrow> held_to a (cr_from r0) (d @ concat chunks))
      else cr_digest r = map_option (\<lambda>d. d @ concat chunks) (cr_digest r0))"

definition reader_ok :: "asking \<Rightarrow> chunk_reader \<Rightarrow> bytes \<Rightarrow> chunk_reader \<Rightarrow> bool" where
  "reader_ok a r0 out r \<longleftrightarrow> cr_at r \<le> length (cr_held r) \<and>
     (\<exists>chunks. took a r0 chunks r \<and> concat chunks = out @ drop (cr_at r) (cr_held r))"

lemma took_held [simp]: "took a r0 chunks (r\<lparr>cr_held := bs\<rparr>) = took a r0 chunks r"
  "took a r0 chunks (r\<lparr>cr_at := n\<rparr>) = took a r0 chunks r"
  by (simp_all add: took_def)

lemma reader_ok_new: "cr_held r = [] \<Longrightarrow> cr_at r = 0 \<Longrightarrow> \<not> cr_ended r \<Longrightarrow> reader_ok a r [] r"
  by (auto simp: reader_ok_def took_def chunks_kept_def option.map_ident intro!: exI [of _ "[]"])

lemma chunks_kept_more:
  "chunks_kept a from k chunks \<Longrightarrow> asked_chunk a from (word_of_nat (k + length chunks)) = Inr (Some chunk) \<Longrightarrow>
    chunks_kept a from k (chunks @ [chunk])"
  by (auto simp: chunks_kept_def nth_append less_Suc_eq)

lemma reader_end_took:
  assumes "took a r0 chunks r" and "\<not> cr_ended r" and "asked_chunk a (cr_from r) (cr_next r) = Inr None"
    and "reader_end a r = (Inr (), r')"
  shows "took a r0 chunks r' \<and> cr_ended r' \<and> cr_held r' = cr_held r \<and> cr_at r' = cr_at r"
  using assms
  by (cases "cr_from r0") (auto simp: took_def held_to_def reader_end_def Let_def split: if_splits option.splits)

lemma took_one:
  assumes "took a r0 chunks r" and "\<not> cr_ended r" and "asked_chunk a (cr_from r) (cr_next r) = Inr (Some chunk)"
  shows "took a r0 (chunks @ [chunk]) (r\<lparr>cr_read := cr_read r + word_of_nat (length chunk),
    cr_digest := map_option (\<lambda>d. digest_update d chunk) (cr_digest r), cr_next := cr_next r + 1\<rparr>)"
proof -
  have "chunks_kept a (cr_from r0) (unat (cr_next r0)) (chunks @ [chunk])"
    using assms by (intro chunks_kept_more) (simp_all add: took_def)
  then show ?thesis using assms(1,2) by (simp add: took_def digest_update_def option.map_comp comp_def)
qed

lemma next_chunk_ok:
  assumes ok: "reader_ok a r0 out r" and step: "next_chunk a r = (Inr v, r')"
  shows "case v of Some chunk \<Rightarrow> reader_ok a r0 (out @ chunk) r' \<and> cr_held r' = [] \<and> cr_at r' = 0
    | None \<Rightarrow> reader_ok a r0 out r' \<and> cr_ended r' \<and> cr_at r' = length (cr_held r')"
proof (cases "cr_at r < length (cr_held r)")
  case True
  then have r': "v = Some (drop (cr_at r) (cr_held r))" "r' = r\<lparr>cr_held := [], cr_at := 0\<rparr>"
    using step by (auto simp: next_chunk_def)
  then show ?thesis using ok by (simp add: reader_ok_def)
next
  case False
  obtain chunks where c: "took a r0 chunks r" "concat chunks = out" and at: "cr_at r = length (cr_held r)"
    using ok False by (auto simp: reader_ok_def)
  show ?thesis
  proof (cases "cr_ended r")
    case True
    then show ?thesis using False step ok at by (auto simp: next_chunk_def)
  next
    case not_ended: False
    show ?thesis
    proof (cases v)
      case None
      then have none: "asked_chunk a (cr_from r) (cr_next r) = Inr None" and ended: "reader_end a r = (Inr (), r')"
        using False not_ended step by (auto simp: next_chunk_def split: sum.splits option.splits prod.splits)
      show ?thesis using reader_end_took [OF c(1) not_ended none ended] c(2) None at by (auto simp: reader_ok_def)
    next
      case (Some chunk)
      then have asked: "asked_chunk a (cr_from r) (cr_next r) = Inr (Some chunk)"
        and r': "r' = (r\<lparr>cr_read := cr_read r + word_of_nat (length chunk), cr_digest := map_option (\<lambda>d. digest_update d chunk) (cr_digest r),
            cr_next := cr_next r + 1\<rparr>)\<lparr>cr_held := [], cr_at := 0\<rparr>"
        using False not_ended step by (auto simp: next_chunk_def split: sum.splits option.splits prod.splits)
      show ?thesis
        using took_one [OF c(1) not_ended asked] c(2) by (auto simp: Some reader_ok_def r' intro!: exI [of _ "chunks @ [chunk]"])
    qed
  qed
qed

lemma next_chunk_unasked:
  assumes "reader_ok a r0 out r" and "next_chunk a r = (Inl e, r')" and "\<not> invalid_data e"
  shows "r' = r"
  using assms by (cases "cr_from r") (auto simp: next_chunk_def reader_end_def Let_def split: sum.splits option.splits prod.splits if_splits)

text \<open>A loop over empty chunks gives nothing and changes nothing of what is given.\<close>

definition filled_well :: "asking \<Rightarrow> chunk_reader \<Rightarrow> bytes \<Rightarrow> (unread + bool) \<times> chunk_reader \<Rightarrow> bool" where
  "filled_well a r0 out x = (case fst x of
     Inl e \<Rightarrow> invalid_data e \<or> reader_ok a r0 out (snd x)
   | Inr left \<Rightarrow> reader_ok a r0 out (snd x) \<and>
       (if left then cr_at (snd x) \<noteq> length (cr_held (snd x)) else cr_ended (snd x) \<and> cr_at (snd x) = length (cr_held (snd x))))"

lemma filled_ok:
  assumes "filled a r = Some x"
  shows "reader_ok a r0 out r \<longrightarrow> filled_well a r0 out x"
proof (rule filled.raw_induct [where P = "\<lambda>a r x. reader_ok a r0 out r \<longrightarrow> filled_well a r0 out x", OF _ assms])
  fix again a r x
  assume again: "\<And>a r x. again a r = Some x \<Longrightarrow> reader_ok a r0 out r \<longrightarrow> filled_well a r0 out x"
    and body: "(if cr_at r \<noteq> length (cr_held r) then Some (Inr True, r)
      else case next_chunk a r of
        (Inl e, r') \<Rightarrow> Some (Inl e, r')
      | (Inr v, r') \<Rightarrow> (case v of None \<Rightarrow> Some (Inr False, r') | Some chunk \<Rightarrow> again a (r'\<lparr>cr_held := chunk, cr_at := 0\<rparr>))) = Some x"
  show "reader_ok a r0 out r \<longrightarrow> filled_well a r0 out x"
  proof (intro impI)
    assume ok: "reader_ok a r0 out r"
    obtain v r' where step: "next_chunk a r = (v, r')" by (cases "next_chunk a r")
    consider (held) "cr_at r \<noteq> length (cr_held r)" | (wrong) e where "cr_at r = length (cr_held r)" "v = Inl e"
      | (ended) "cr_at r = length (cr_held r)" "v = Inr None"
      | (one) chunk where "cr_at r = length (cr_held r)" "v = Inr (Some chunk)"
      by (metis obj_sumE option.exhaust)
    then show "filled_well a r0 out x"
    proof cases
      case held
      then show ?thesis using body ok by (auto simp: filled_well_def)
    next
      case wrong
      then have "x = (Inl e, r')" using body step by simp
      then show ?thesis using next_chunk_unasked [OF ok] ok step wrong by (auto simp: filled_well_def)
    next
      case ended
      then have "x = (Inr False, r')" using body step by simp
      then show ?thesis using next_chunk_ok [OF ok] step ended by (auto simp: filled_well_def)
    next
      case one
      then have x: "again a (r'\<lparr>cr_held := chunk, cr_at := 0\<rparr>) = Some x" using body step by simp
      have "reader_ok a r0 out (r'\<lparr>cr_held := chunk, cr_at := 0\<rparr>)"
        using next_chunk_ok [OF ok] step one by (auto simp: reader_ok_def)
      then show ?thesis using again [OF x] by blast
    qed
  qed
qed

lemma read_piece_ok:
  assumes "read_piece a r n = Some (v, r')" and "reader_ok a r0 out r"
  shows "case v of Inl e \<Rightarrow> invalid_data e \<or> reader_ok a r0 out r'
    | Inr part \<Rightarrow> reader_ok a r0 (out @ part) r' \<and> (part = [] \<and> 0 < n \<longrightarrow> cr_ended r' \<and> cr_at r' = length (cr_held r'))"
proof -
  obtain w r1 where f: "filled a r = Some (w, r1)" using assms(1) by (auto simp: read_piece_def split: option.splits)
  have well: "filled_well a r0 out (w, r1)" using filled_ok [OF f] assms(2) by blast
  show ?thesis
  proof (cases w)
    case (Inl e)
    then show ?thesis using assms(1) f well by (auto simp: read_piece_def filled_well_def)
  next
    case (Inr held)
    show ?thesis
    proof (cases held)
      case True
      let ?n = "min n (length (cr_held r1) - cr_at r1)"
      have v: "v = Inr (take ?n (drop (cr_at r1) (cr_held r1)))" "r' = r1\<lparr>cr_at := cr_at r1 + ?n\<rparr>"
        using assms(1) f Inr True by (auto simp: read_piece_def Let_def)
      have "take ?n (drop (cr_at r1) (cr_held r1)) @ drop (cr_at r1 + ?n) (cr_held r1) = drop (cr_at r1) (cr_held r1)"
        by (metis append_take_drop_id drop_drop add.commute)
      moreover have "cr_at r1 < length (cr_held r1)" using well Inr True by (auto simp: filled_well_def reader_ok_def)
      ultimately show ?thesis using well Inr True v by (auto simp: filled_well_def reader_ok_def)
    next
      case False
      then show ?thesis using assms(1) f well Inr by (auto simp: read_piece_def filled_well_def)
    qed
  qed
qed

lemma gives_ok:
  assumes "gives a r out r'" and "reader_ok a r [] r"
  shows "reader_ok a r out r'"
  using assms
proof (induction rule: gives.induct)
  case (whole out r1 chunk r2)
  then show ?case using next_chunk_ok [OF _ whole.hyps(2)] by auto
next
  case (piece out r1 n part r2)
  then show ?case using read_piece_ok [OF piece.hyps(2)] by auto
next
  case (unasked out r1 e r2)
  then show ?case using next_chunk_unasked [OF _ unasked.hyps(2,3)] by auto
next
  case (unread out r1 n e r2)
  then show ?case using read_piece_ok [OF unread.hyps(2)] by auto
qed auto

section \<open>A read returns\<close>

lemma next_chunk_asks:
  assumes "cr_at r = length (cr_held r)" and "\<not> cr_ended r"
  shows "asked_chunk a (cr_from r) (cr_next r) = Inr (Some chunk) \<Longrightarrow>
      \<exists>r'. next_chunk a r = (Inr (Some chunk), r') \<and> cr_next r' = cr_next r + 1 \<and> cr_from r' = cr_from r \<and> \<not> cr_ended r'"
    and "asked_chunk a (cr_from r) (cr_next r) = Inr None \<Longrightarrow> \<exists>v r'. next_chunk a r = (v, r') \<and> (v = Inr None \<or> (\<exists>e. v = Inl e))"
    and "asked_chunk a (cr_from r) (cr_next r) = Inl e \<Longrightarrow> next_chunk a r = (Inl (Unread e), r)"
  using assms by (auto simp: next_chunk_def split: sum.splits prod.splits)

lemma filled_returns:
  "asked_chunk a (cr_from r) (cr_next r + word_of_nat k) \<noteq> Inr (Some []) \<Longrightarrow> \<exists>x. filled a r = Some x"
proof (induction k arbitrary: r)
  case (Suc k)
  consider (given) "cr_at r \<noteq> length (cr_held r) \<or> cr_ended r" | (asks) "cr_at r = length (cr_held r)" "\<not> cr_ended r" by blast
  then show ?case
  proof cases
    case given
    then show ?thesis by (subst filled.simps) (auto simp: next_chunk_def)
  next
    case asks
    consider e where "asked_chunk a (cr_from r) (cr_next r) = Inl e" | "asked_chunk a (cr_from r) (cr_next r) = Inr None"
      | chunk where "asked_chunk a (cr_from r) (cr_next r) = Inr (Some chunk)"
      by (metis obj_sumE option.exhaust)
    then show ?thesis
    proof cases
      case (3 chunk)
      then obtain r' where r': "next_chunk a r = (Inr (Some chunk), r')" "cr_next r' = cr_next r + 1" "cr_from r' = cr_from r"
        using next_chunk_asks(1) [OF asks] by blast
      let ?r = "r'\<lparr>cr_held := chunk, cr_at := 0\<rparr>"
      have "asked_chunk a (cr_from ?r) (cr_next ?r + word_of_nat k) \<noteq> Inr (Some [])" using Suc.prems r' by (simp add: add.assoc)
      then obtain x where "filled a ?r = Some x" using Suc.IH by blast
      then show ?thesis using asks r' by (subst filled.simps) simp
    qed (subst filled.simps, use asks next_chunk_asks(2,3) [OF asks] in fastforce)+
  qed
next
  case 0
  have again: "\<exists>x. filled a (r'\<lparr>cr_held := chunk, cr_at := 0\<rparr>) = Some x" if "chunk \<noteq> []" for chunk r'
    using that by (subst filled.simps) simp
  show ?case
    using 0 again by (subst filled.simps) (auto simp: next_chunk_def split: sum.splits option.splits prod.splits)
qed

definition read_ends :: "asking \<Rightarrow> chunk_reader \<Rightarrow> bool" where
  "read_ends a r \<longleftrightarrow> cr_at r \<noteq> length (cr_held r) \<or> cr_ended r \<or>
     (\<exists>k. asked_chunk a (cr_from r) (cr_next r + word_of_nat k) \<noteq> Inr (Some []))"

lemma filled_ends: "filled a r = Some x \<Longrightarrow> read_ends a r"
proof (rule filled.raw_induct [where P = "\<lambda>a r x. read_ends a r"])
  fix again a r x
  assume again: "\<And>a r x. again a r = Some x \<Longrightarrow> read_ends a r"
    and body: "(if cr_at r \<noteq> length (cr_held r) then Some (Inr True, r)
      else case next_chunk a r of
        (Inl e, r') \<Rightarrow> Some (Inl e, r')
      | (Inr v, r') \<Rightarrow> (case v of None \<Rightarrow> Some (Inr False, r') | Some chunk \<Rightarrow> again a (r'\<lparr>cr_held := chunk, cr_at := 0\<rparr>))) = Some x"
  show "read_ends a r"
  proof (rule ccontr)
    assume not: "\<not> read_ends a r"
    then have asks: "cr_at r = length (cr_held r)" "\<not> cr_ended r" and
      empty: "\<And>k. asked_chunk a (cr_from r) (cr_next r + word_of_nat k) = Inr (Some [])"
      by (auto simp: read_ends_def)
    obtain r' where r': "next_chunk a r = (Inr (Some []), r')" "cr_next r' = cr_next r + 1" "cr_from r' = cr_from r" "\<not> cr_ended r'"
      using next_chunk_asks(1) [OF asks, of a "[]"] empty [of 0] by auto
    then have "read_ends a (r'\<lparr>cr_held := [], cr_at := 0\<rparr>)" using body asks by (intro again) simp
    then obtain k where "asked_chunk a (cr_from r) (cr_next r + 1 + word_of_nat k) \<noteq> Inr (Some [])"
      using r' by (auto simp: read_ends_def)
    then show False using empty [of "Suc k"] by (simp add: add.assoc)
  qed
qed

lemma read_to_end:
  assumes "gives a (reader_asking from len) out r"
    and "(\<exists>r'. next_chunk a r = (Inr None, r')) \<or> (\<exists>n r'. 0 < n \<and> read_piece a r n = Some (Inr [], r'))"
  shows "\<exists>chunks. out = concat chunks \<and> chunks_kept a from 0 chunks \<and> asked_chunk a from (word_of_nat (length chunks)) = Inr None \<and>
    word_of_nat (length out) = len \<and> held_to a from out"
proof -
  let ?r0 = "reader_asking from len"
  have "reader_ok a ?r0 out r" using gives_ok [OF assms(1)] reader_ok_new [of ?r0 a] by (simp add: reader_asking_def)
  then have "\<exists>r'. reader_ok a ?r0 out r' \<and> cr_ended r' \<and> cr_at r' = length (cr_held r')"
    using assms(2) next_chunk_ok read_piece_ok by fastforce
  then obtain r' chunks where "took a ?r0 chunks r'" "concat chunks = out" "cr_ended r'" by (auto simp: reader_ok_def)
  then show ?thesis
    by (intro exI [of _ chunks]) (auto simp: took_def reader_asking_def held_to_def split: chunked.splits)
qed

section \<open>Properties\<close>

text \<open>
  C38: A read of a piece returns exactly where it can: where a piece of a chunk is held still, or
  the Stream ended, or Xmip Storage answers some chunk from the next on with anything but an empty
  chunk. Only over a Stream whose every further chunk is empty, without an end, does it not.
\<close>

theorem read_returns:
  "(\<exists>x. read_piece a r n = Some x) \<longleftrightarrow> read_ends a r"
proof
  assume "\<exists>x. read_piece a r n = Some x"
  then obtain x where "filled a r = Some x" by (auto simp: read_piece_def split: option.splits)
  then show "read_ends a r" by (rule filled_ends)
next
  assume "read_ends a r"
  then have "\<exists>x. filled a r = Some x"
  proof (cases "cr_at r \<noteq> length (cr_held r) \<or> cr_ended r")
    case True
    then show ?thesis by (subst filled.simps) (auto simp: next_chunk_def)
  next
    case False
    with \<open>read_ends a r\<close> show ?thesis unfolding read_ends_def by (metis filled_returns)
  qed
  then show "\<exists>x. read_piece a r n = Some x"
    by (auto simp: read_piece_def Let_def split: sum.splits bool.splits)
qed

text \<open>
  C39: A Stream read to its end is the Stream kept. However a reader is asked - whole chunks, or
  pieces of any size, mixed, and again where Xmip Storage did not answer - once it says the Stream
  ended, what it gave is every chunk kept up to the first there is not, in order, as long as its
  record says; and a kept audit record's copy, or body, has the digest its record says. A chunk
  lost or changed is never read as a shorter or another Stream.
\<close>

theorem read_whole_or_refused:
  assumes "gives a (reader_asking from len) out r"
    and "(\<exists>r'. next_chunk a r = (Inr None, r')) \<or> (\<exists>n r'. 0 < n \<and> read_piece a r n = Some (Inr [], r'))"
  shows "\<exists>chunks. out = concat chunks \<and> chunks_kept a from 0 chunks \<and> asked_chunk a from (word_of_nat (length chunks)) = Inr None \<and>
    word_of_nat (length out) = len \<and> held_to a from out"
  using read_to_end [OF assms] .

text \<open>A kept audit record's body of two chunks.\<close>

definition sample_asking :: asking where
  "sample_asking = \<lparr>as_chunk = \<lambda>s i. Inr None, as_kept_chunk = \<lambda>id s i. Inr (if i = 0 then Some [1, 2] else if i = 1 then Some [3] else None),
     as_kept_stream = \<lambda>id s. Inr None, as_kept_audit = \<lambda>id. Inr None, as_sha256 = \<lambda>bs. [word_of_nat (length bs)]\<rparr>"

theorem read_whole_or_refused_witness:
  "\<exists>chunks. [1, 2, 3] = concat chunks \<and> chunks_kept sample_asking (AuditBody 5 [3]) 0 chunks \<and>
    asked_chunk sample_asking (AuditBody 5 [3]) (word_of_nat (length chunks)) = Inr None \<and>
    word_of_nat (length ([1, 2, 3] :: bytes)) = (3 :: u64) \<and> held_to sample_asking (AuditBody 5 [3]) [1, 2, 3]"
proof -
  let ?r = "reader_asking (AuditBody 5 [3]) 3"
  let ?at = "\<lambda>next held at len. ?r\<lparr>cr_next := next, cr_held := held, cr_at := at, cr_read := word_of_nat len, cr_digest := Some (take len [1, 2, 3])\<rparr>"
  note step = read_piece_def filled.simps next_chunk_def asked_chunk_def sample_asking_def reader_asking_def digest_update_def
  have "gives sample_asking ?r ([] @ [1]) (?at 1 [1, 2] 1 2)"
    by (rule piece [where n = 1], rule begins) (simp add: step)
  then have "gives sample_asking ?r (([] @ [1]) @ [2]) (?at 1 [] 0 2)"
    by (rule whole) (simp add: step)
  then have "gives sample_asking ?r ((([] @ [1]) @ [2]) @ [3]) (?at 2 [] 0 3)"
    by (rule whole) (simp add: step)
  then have "gives sample_asking ?r [1, 2, 3] (?at 2 [] 0 3)" by simp
  moreover have "\<exists>r'. next_chunk sample_asking (?at 2 [] 0 3) = (Inr None, r')"
    by (simp add: step reader_end_def)
  ultimately show ?thesis by (intro read_whole_or_refused) blast+
qed

end
