(* ===== verification/Keeper.thy ===== *)
theory Keeper
  imports Chain Chunk_Reader
begin

text \<open>
  The audit keeper (\<open>src/.src/storage/embedded/keeper.rs\<close>): each audit record moved from the
  runtime database to the audit database once, by its identifier, its Streams' chunks and its
  body's beside it, chained after the last record of its writer. The two databases are ledgers,
  what \<open>Encrypted_Store\<close> shows each store to be, the audit database with its index.
\<close>

section \<open>The two databases\<close>

definition chunk_kind :: kind where "chunk_kind = ''chunk''"
definition stream_kind :: kind where "stream_kind = ''stream''"
definition kept_chunk_kind :: kind where "kept_chunk_kind = ''audit-stream-chunk''"
definition kept_body_kind :: kind where "kept_body_kind = ''audit-body-chunk''"

text \<open>The audit database and its index; what runs on it answers, or fails, and leaves it as it is then.\<close>

type_synonym audit_store = "ledger \<times> (key \<rightharpoonup> u128)"
type_synonym 'a on_audit = "audit_store \<Rightarrow> 'a result \<times> audit_store"

definition binda :: "'a on_audit \<Rightarrow> ('a \<Rightarrow> 'b on_audit) \<Rightarrow> 'b on_audit" where
  "binda m f = (\<lambda>A. case m A of (Inl e, A') \<Rightarrow> (Inl e, A') | (Inr x, A') \<Rightarrow> f x A')"

definition lifta :: "'a result \<Rightarrow> 'a on_audit" where
  "lifta r = (\<lambda>A. (r, A))"

definition apply_audit :: "record_change list \<Rightarrow> unit on_audit" where
  "apply_audit cs = (\<lambda>(A, X). (Inr (), (apply_changes A cs, X)))"

definition indexed_audit :: "codec \<Rightarrow> secret_rules \<Rightarrow> u64 \<Rightarrow> record_change list \<Rightarrow> unit on_audit" where
  "indexed_audit c x now cs = (\<lambda>(A, X). case written_over c x database.Audit cs now (\<lambda>k key. Inr (A k key)) of
     Inl e \<Rightarrow> (Inl e, (A, X))
   | Inr (ws, es) \<Rightarrow> (Inr (), (apply_changes A ws, apply_entries X es)))"

definition read_as :: "codec \<Rightarrow> 'a reader \<Rightarrow> ledger \<Rightarrow> kind \<Rightarrow> key \<Rightarrow> 'a option result" where
  "read_as c r L k key = map_maybe (from_bytes c r) (L k key)"

lemma read_as_Some: "read_as c r L k key = Inr (Some y) \<longleftrightarrow> (\<exists>b. L k key = Some b \<and> from_bytes c r b = Inr y)"
  by (cases "L k key") (auto simp: read_as_def map_maybe_def bindr_eq_Inr)

section \<open>A record kept\<close>

definition holds_not :: "codec \<Rightarrow> u128 \<Rightarrow> u128 \<Rightarrow> string \<Rightarrow> persist_error" where
  "holds_not c audit stream what = malformed (''the audit record '' @ show_id c audit @ '' carries the Stream '' @
     show_id c stream @ '', and the Ledger holds '' @ what)"

fun chunks_copied :: "codec \<Rightarrow> ledger \<Rightarrow> u128 \<times> u128 \<Rightarrow> u32 list \<Rightarrow> unit on_audit" where
  "chunks_copied c L ids [] = lifta (Inr ())"
| "chunks_copied c L ids (i # js) = (let (audit, stream) = ids in
     binda (lifta (bindr (read_as c (r_stream_chunk c) L chunk_kind (chunk_key stream i)) (\<lambda>v. case v of
       None \<Rightarrow> Inl (holds_not c audit stream (''no chunk '' @ digits (unat i) @ '' of it''))
     | Some chunk \<Rightarrow> Inr chunk))) (\<lambda>chunk.
     binda (apply_audit [(kept_chunk_kind, audit_chunk_key audit stream i, Some (w_stream_chunk c chunk))]) (\<lambda>_.
       chunks_copied c L ids js)))"

definition stream_kept :: "codec \<Rightarrow> ledger \<Rightarrow> u128 \<Rightarrow> u128 \<Rightarrow> stream_record on_audit" where
  "stream_kept c L audit stream =
     binda (lifta (bindr (read_as c (r_stream_record c) L stream_kind (be128 stream)) (\<lambda>v. case v of
       None \<Rightarrow> Inl (holds_not c audit stream ''no record of it'')
     | Some record \<Rightarrow> Inr record))) (\<lambda>record.
     binda (chunks_copied c L (audit, stream) (map word_of_nat [0 ..< unat (sr_chunks record)])) (\<lambda>_.
       lifta (Inr record)))"

fun streams_kept :: "codec \<Rightarrow> ledger \<Rightarrow> u128 \<Rightarrow> u128 list \<Rightarrow> (record_change list \<times> stream_record list) on_audit" where
  "streams_kept c L audit [] = lifta (Inr ([], []))"
| "streams_kept c L audit (stream # ss) =
     binda (stream_kept c L audit stream) (\<lambda>record.
     binda (streams_kept c L audit ss) (\<lambda>(rows, records).
       lifta (Inr ((kept_streams_kind, audit_stream_key audit stream,
           Some (w_kept_stream c \<lparr>ks_audit = audit, ks_stream = record\<rparr>)) # rows, record # records))))"

text \<open>\<open>chunks(n)\<close> of a slice: pieces of as many bytes, the last of what is left.\<close>

function pieces :: "nat \<Rightarrow> bytes \<Rightarrow> bytes list" where
  "pieces n bs = (if n = 0 \<or> bs = [] then [] else take n bs # pieces n (drop n bs))"
  by auto

termination by (relation "measure (length \<circ> snd)") auto

declare pieces.simps [simp del]

fun body_copied :: "u128 \<Rightarrow> bytes list \<Rightarrow> u32 \<times> stream_digest \<Rightarrow> (u32 \<times> stream_digest) on_audit" where
  "body_copied audit [] sofar = lifta (Inr sofar)"
| "body_copied audit (p # ps) sofar =
     binda (apply_audit [(kept_body_kind, audit_body_key audit (fst sofar), Some p)]) (\<lambda>_.
       body_copied audit ps (fst sofar + 1, digest_update (snd sofar) p))"

definition body_kept :: "codec \<Rightarrow> (bytes \<Rightarrow> bytes) \<Rightarrow> audit_entry \<Rightarrow> nat \<Rightarrow> audit_facts \<Rightarrow> audit_facts on_audit" where
  "body_kept c sha256 entry chunk facts = (let body = body_bytes c entry in
     binda (body_copied (ae_id entry) (pieces (max chunk 1) body) (0, [])) (\<lambda>(index, digest).
       lifta (Inr (facts\<lparr>af_body_length := word_of_nat (length body), af_body_chunks := index, af_body_digest := sha256 digest\<rparr>))))"

text \<open>One audit record kept, where its identifier is not yet.\<close>

definition kept_one :: "codec \<Rightarrow> secret_rules \<Rightarrow> (bytes \<Rightarrow> bytes) \<Rightarrow> u64 \<Rightarrow> ledger \<Rightarrow> nat \<Rightarrow> audit_entry \<Rightarrow> unit on_audit" where
  "kept_one c x sha256 now L chunk entry = (\<lambda>A. if fst A kept_audit_kind (be128 (ae_id entry)) \<noteq> None then (Inr (), A)
     else binda (streams_kept c L (ae_id entry) (carried_streams entry)) (\<lambda>(rows, streams).
       binda (body_kept c sha256 entry chunk (ae_facts entry)) (\<lambda>facts.
       binda (\<lambda>A'. (link c sha256 (\<lambda>k key. Inr (fst A' k key))
           \<lparr>ka_id = ae_id entry, ka_streams = carried_streams entry, ka_facts = facts\<rparr> streams, A')) (\<lambda>(k, head).
       indexed_audit c x now (rows @ [head, (kept_audit_kind, be128 (ae_id entry), Some (w_kept_audit c k))])))) A)"

section \<open>Records moved, oldest first\<close>

text \<open>The keeper's world: the runtime database, and the audit database.\<close>

type_synonym keeping = "ledger \<times> audit_store"

text \<open>Record \<open>number\<close> kept, at what the clock says then, and the writer asked to forget it where the keeper has not moved past it.\<close>

definition keep_number :: "codec \<Rightarrow> secret_rules \<Rightarrow> (bytes \<Rightarrow> bytes) \<Rightarrow> (u64 \<Rightarrow> u64) \<Rightarrow> nat \<Rightarrow> u64 \<Rightarrow> keeping \<Rightarrow> bool result \<times> keeping" where
  "keep_number c x sha256 now chunk number = (\<lambda>(L, A).
     case bindr (read_as c (r_audit_entry c) L audit_kind (be64 number)) (\<lambda>v. case v of
         None \<Rightarrow> Inl (malformed (''audit record '' @ digits (unat number) @ '' is gone'')) | Some entry \<Rightarrow> Inr entry) of
       Inl e \<Rightarrow> (Inl e, (L, A))
     | Inr entry \<Rightarrow> (case kept_one c x sha256 (now number) L chunk entry A of
         (Inl e, A') \<Rightarrow> (Inl e, (L, A'))
       | (Inr _, A') \<Rightarrow> (case eval L (decide_kept number) of
           Inl e \<Rightarrow> (Inl e, (L, A'))
         | Inr (yes, L') \<Rightarrow> (Inr yes, (L', A')))))"

fun keep_numbers :: "codec \<Rightarrow> secret_rules \<Rightarrow> (bytes \<Rightarrow> bytes) \<Rightarrow> (u64 \<Rightarrow> u64) \<Rightarrow> nat \<Rightarrow> u64 list \<Rightarrow> u32 \<Rightarrow> keeping \<Rightarrow> u32 result \<times> keeping" where
  "keep_numbers c x sha256 now chunk [] moved w = (Inr moved, w)"
| "keep_numbers c x sha256 now chunk (n # ns) moved w = (case keep_number c x sha256 now chunk n w of
     (Inl e, w') \<Rightarrow> (Inl e, w')
   | (Inr False, w') \<Rightarrow> (Inr moved, w')
   | (Inr True, w') \<Rightarrow> keep_numbers c x sha256 now chunk ns (moved + 1) w')"

definition keep_audit :: "codec \<Rightarrow> secret_rules \<Rightarrow> (bytes \<Rightarrow> bytes) \<Rightarrow> (u64 \<Rightarrow> u64) \<Rightarrow> u32 \<Rightarrow> nat \<Rightarrow> keeping \<Rightarrow> u32 result \<times> keeping" where
  "keep_audit c x sha256 now m chunk w = (let get = (\<lambda>k key. Inr (fst w k key)) in
     case bindr (sequence get kept_key) (\<lambda>oldest. bindr (sequence get next_key) (\<lambda>nxt. Inr (oldest, nxt))) of
       Inl e \<Rightarrow> (Inl e, w)
     | Inr (oldest, nxt) \<Rightarrow>
         keep_numbers c x sha256 now chunk
           (map word_of_nat [unat oldest ..< unat (min nxt (u64_add oldest (word_of_nat (unat m))))]) 0 w)"

section \<open>What is written before a record's own write\<close>

lemma lifta_apply [simp]: "lifta r A = (r, A)"
  by (simp add: lifta_def)

lemma binda_Inr: "binda m f A = (Inr y, A') \<longleftrightarrow> (\<exists>x A1. m A = (Inr x, A1) \<and> f x A1 = (Inr y, A'))"
  by (auto simp: binda_def split: prod.splits sum.splits)

text \<open>Only chunks beside the record are written, each of its own Stream or body; the index is as it was.\<close>

definition writes_only :: "kind set \<Rightarrow> audit_store \<Rightarrow> audit_store \<Rightarrow> bool" where
  "writes_only S A A' \<longleftrightarrow> snd A' = snd A \<and> (\<forall>k. k \<notin> S \<longrightarrow> fst A' k = fst A k)"

abbreviation beside :: "audit_store \<Rightarrow> audit_store \<Rightarrow> bool" where
  "beside \<equiv> writes_only {kept_chunk_kind, kept_body_kind}"

lemma writes_only_refl [simp]: "writes_only S A A" and beside_trans: "writes_only S A A1 \<Longrightarrow> writes_only S A1 A2 \<Longrightarrow> writes_only S A A2"
  and writes_only_mono: "writes_only S A A1 \<Longrightarrow> S \<subseteq> T \<Longrightarrow> writes_only T A A1"
  by (auto simp: writes_only_def)

lemma beside_binda:
  assumes "writes_only S A (snd (m A))" and "\<And>x A1. m A = (Inr x, A1) \<Longrightarrow> writes_only S A1 (snd (f x A1))"
  shows "writes_only S A (snd (binda m f A))"
proof -
  obtain r A1 where "m A = (r, A1)" by (cases "m A")
  with assms show ?thesis by (cases r) (auto simp: binda_def intro: beside_trans)
qed

lemma beside_apply [simp]: "k \<in> S \<Longrightarrow> writes_only S A (snd (apply_audit [(k, key, v)] A))"
  by (cases A) (auto simp: apply_audit_def writes_only_def upd_def)

lemma only_chunks: "writes_only {kept_chunk_kind} A (snd (chunks_copied c L ids js A))"
proof (induction js arbitrary: A)
  case (Cons i js)
  obtain audit stream where ids: "ids = (audit, stream)" by (cases ids)
  show ?case unfolding ids using Cons.IH [unfolded ids] by (auto intro!: beside_binda)
qed simp

lemma only_stream: "writes_only {kept_chunk_kind} A (snd (stream_kept c L audit stream A))"
  unfolding stream_kept_def by (intro beside_binda only_chunks) simp_all

lemma only_streams: "writes_only {kept_chunk_kind} A (snd (streams_kept c L audit ss A))"
proof (induction ss arbitrary: A)
  case (Cons s ss)
  show ?case by (auto intro!: beside_binda only_stream Cons.IH simp: split_beta)
qed simp

lemma beside_streams: "beside A (snd (streams_kept c L audit ss A))"
  by (rule writes_only_mono [OF only_streams]) simp

lemma beside_body: "beside A (snd (body_copied audit ps sofar A))"
  by (induction ps arbitrary: sofar A) (auto intro!: beside_binda)

text \<open>A body is kept whatever the database holds: its pieces at their numbers.\<close>

lemma body_copied_is:
  "body_copied audit ps (i, d) (A, X) = (Inr (i + word_of_nat (length ps), d @ concat ps),
     (apply_changes A (map (\<lambda>j. (kept_body_kind, audit_body_key audit (i + word_of_nat j), Some (ps ! j))) [0 ..< length ps]), X))"
proof (induction ps arbitrary: i d A)
  case (Cons p ps)
  have "[0 ..< length (p # ps)] = 0 # map Suc [0 ..< length ps]" by (metis length_Cons map_Suc_upt upt_conv_Cons zero_less_Suc)
  then show ?case
    using Cons.IH [of "i + 1" "d @ p" "upd A kept_body_kind (audit_body_key audit i) (Some p)"]
    by (simp add: binda_def apply_audit_def digest_update_def add.assoc comp_def split: prod.splits)
qed simp

lemma concat_pieces: "0 < n \<Longrightarrow> concat (pieces n bs) = bs"
  by (induction n bs rule: pieces.induct) (subst pieces.simps, auto)

text \<open>Its Streams' records are the Ledger's own, and a row is written for each.\<close>

definition stream_row :: "codec \<Rightarrow> u128 \<Rightarrow> u128 \<times> stream_record \<Rightarrow> record_change" where
  "stream_row c audit sr = (kept_streams_kind, audit_stream_key audit (fst sr), Some (w_kept_stream c \<lparr>ks_audit = audit, ks_stream = snd sr\<rparr>))"

lemma streams_kept_is:
  assumes "streams_kept c L audit ss A = (Inr (rows, records), A')"
  shows "rows = map (stream_row c audit) (zip ss records) \<and> length records = length ss \<and>
    (\<forall>i < length ss. read_as c (r_stream_record c) L stream_kind (be128 (ss ! i)) = Inr (Some (records ! i)))"
  using assms
proof (induction ss arbitrary: A rows records)
  case (Cons s ss)
  obtain sr A1 rows' records' where parts: "stream_kept c L audit s A = (Inr sr, A1)"
      "streams_kept c L audit ss A1 = (Inr (rows', records'), A')" "records = sr # records'"
      "rows = stream_row c audit (s, sr) # rows'"
    using Cons.prems by (auto simp: binda_Inr stream_row_def)
  have "read_as c (r_stream_record c) L stream_kind (be128 s) = Inr (Some sr)"
    using parts(1) by (auto simp: stream_kept_def binda_Inr bindr_eq_Inr split: option.splits)
  then show ?case using Cons.IH [OF parts(2)] parts(3,4) by (auto simp: nth_Cons split: nat.splits)
qed simp

section \<open>Every writer's chain\<close>

definition kept_at :: "codec \<Rightarrow> ledger \<Rightarrow> u128 \<Rightarrow> kept_audit option" where
  "kept_at c A i = (case A kept_audit_kind (be128 i) of None \<Rightarrow> None
   | Some bs \<Rightarrow> (case from_bytes c (r_kept_audit c) bs of Inr k \<Rightarrow> Some k | Inl _ \<Rightarrow> None))"

text \<open>The records of the Streams a kept record carries, as their rows keep them.\<close>

definition row_at :: "codec \<Rightarrow> ledger \<Rightarrow> u128 \<Rightarrow> u128 \<Rightarrow> stream_record" where
  "row_at c A i s = ks_stream (value_at c (r_kept_stream c) (the (A kept_streams_kind (audit_stream_key i s))))"

definition rows_at :: "codec \<Rightarrow> ledger \<Rightarrow> kept_audit \<Rightarrow> stream_record list" where
  "rows_at c A k = map (row_at c A (ka_id k)) (ka_streams k)"

text \<open>
  Records in their chain's order: each the number after the one before it, its digest before it,
  and its own digest over its canonical form.
\<close>

fun linked :: "codec \<Rightarrow> (bytes \<Rightarrow> bytes) \<Rightarrow> ledger \<Rightarrow> u64 \<Rightarrow> bytes \<Rightarrow> kept_audit list \<Rightarrow> bool" where
  "linked c sha256 A n previous [] \<longleftrightarrow> True"
| "linked c sha256 A n previous (k # ks) \<longleftrightarrow> af_position (ka_facts k) = n + 1 \<and> af_previous (ka_facts k) = previous \<and>
     af_digest (ka_facts k) = chain_digest c sha256 k (rows_at c A k) \<and>
     linked c sha256 A (n + 1) (af_digest (ka_facts k)) ks"

definition last_digest :: "kept_audit list \<Rightarrow> bytes" where
  "last_digest ks = (if ks = [] then no_digest else af_digest (ka_facts (last ks)))"

definition chain_of :: "codec \<Rightarrow> (bytes \<Rightarrow> bytes) \<Rightarrow> ledger \<Rightarrow> string \<Rightarrow> kept_audit list \<Rightarrow> bool" where
  "chain_of c sha256 A w ks \<longleftrightarrow> linked c sha256 A 0 no_digest ks \<and> distinct (map ka_id ks) \<and>
     set ks = {k. kept_at c A (ka_id k) = Some k \<and> af_writer (ka_facts k) = w} \<and>
     decode_head (A chain_kind (as_bytes w)) = Inr (word_of_nat (length ks), last_digest ks)"

definition chain_inv :: "codec \<Rightarrow> (bytes \<Rightarrow> bytes) \<Rightarrow> ledger \<Rightarrow> bool" where
  "chain_inv c sha256 A \<longleftrightarrow>
     (\<forall>key bs. A kept_audit_kind key = Some bs \<longrightarrow> (\<exists>k. from_bytes c (r_kept_audit c) bs = Inr k \<and> key = be128 (ka_id k))) \<and>
     (\<forall>key bs. A kept_streams_kind key = Some bs \<longrightarrow> (\<exists>s. from_bytes c (r_kept_stream c) bs = Inr s)) \<and>
     (\<forall>w. \<exists>ks. chain_of c sha256 A w ks)"

lemma linked_append:
  "linked c sha256 A n previous (ks @ [k]) \<longleftrightarrow> linked c sha256 A n previous ks \<and>
    af_position (ka_facts k) = n + word_of_nat (length ks) + 1 \<and>
    af_previous (ka_facts k) = (if ks = [] then previous else af_digest (ka_facts (last ks))) \<and>
    af_digest (ka_facts k) = chain_digest c sha256 k (rows_at c A k)"
  by (induction ks arbitrary: n previous) (auto simp: add.assoc add.commute)

lemma linked_same:
  "(\<And>k. k \<in> set ks \<Longrightarrow> rows_at c A' k = rows_at c A k) \<Longrightarrow> linked c sha256 A' n previous ks = linked c sha256 A n previous ks"
  by (induction ks arbitrary: n previous) auto

text \<open>A record stamped with the keeper's time has the digest it had.\<close>

lemma chain_digest_stamped [simp]: "chain_digest c sha256 (stamp_audit now p k) ss = chain_digest c sha256 k ss"
  by (simp add: chain_digest_def canonical_form_def stamp_audit_def)

lemma chain_digest_digest [simp]:
  "chain_digest c sha256 (k\<lparr>ka_facts := (ka_facts k)\<lparr>af_digest := d\<rparr>\<rparr>) ss = chain_digest c sha256 k ss"
  by (simp add: chain_digest_def canonical_form_def)

section \<open>A record's own write\<close>

definition rows_decode :: "codec \<Rightarrow> bytes option \<Rightarrow> bool" where
  "rows_decode c v \<longleftrightarrow> (\<forall>b. v = Some b \<longrightarrow> (\<exists>s. from_bytes c (r_kept_stream c) b = Inr s))"

text \<open>The chains are of three kinds of record; nothing else of the database bears on them.\<close>

lemma chain_inv_same:
  assumes "A' kept_audit_kind = A kept_audit_kind" and "A' kept_streams_kind = A kept_streams_kind" and "A' chain_kind = A chain_kind"
  shows "chain_inv c sha256 A' = chain_inv c sha256 A" and "kept_at c A' = kept_at c A"
proof -
  have rows: "rows_at c A' k = rows_at c A k" for k by (simp add: rows_at_def row_at_def assms)
  have kept: "kept_at c A' i = kept_at c A i" for i by (simp add: kept_at_def assms)
  then show "kept_at c A' = kept_at c A" by blast
  have "chain_of c sha256 A' w ks = chain_of c sha256 A w ks" for w ks
    unfolding chain_of_def linked_same [of ks c A' A, OF rows] kept assms ..
  then show "chain_inv c sha256 A' = chain_inv c sha256 A" by (simp add: chain_inv_def assms)
qed

lemma beside_chain:
  assumes "beside (A, X) (A', X')"
  shows "chain_inv c sha256 A' = chain_inv c sha256 A" and "kept_at c A' = kept_at c A" and "A' kept_audit_kind = A kept_audit_kind"
    and "A' kept_streams_kind = A kept_streams_kind" and "A' chain_kind = A chain_kind"
proof -
  have *: "A' kept_audit_kind = A kept_audit_kind" "A' kept_streams_kind = A kept_streams_kind" "A' chain_kind = A chain_kind"
    using assms by (auto simp: writes_only_def kept_audit_kind_def kept_streams_kind_def chain_kind_def kept_chunk_kind_def kept_body_kind_def)
  then show "A' kept_audit_kind = A kept_audit_kind" "A' kept_streams_kind = A kept_streams_kind" "A' chain_kind = A chain_kind" .
  show "chain_inv c sha256 A' = chain_inv c sha256 A" "kept_at c A' = kept_at c A" by (rule chain_inv_same [OF *])+
qed

text \<open>Changes of places apart: each is left as its own says, every other as it was.\<close>

definition change_place :: "record_change \<Rightarrow> kind \<times> key" where
  "change_place ch = (fst ch, fst (snd ch))"

lemma applied_elsewhere: "(k, key) \<notin> change_place ` set cs \<Longrightarrow> apply_changes L cs k key = L k key"
proof (induction cs arbitrary: L)
  case (Cons ch cs)
  obtain k' key' v where "ch = (k', key', v)" by (cases ch)
  with Cons show ?case by (auto simp: change_place_def upd_apply)
qed simp

lemma applied_there:
  "distinct (map change_place cs) \<Longrightarrow> (k, key, v) \<in> set cs \<Longrightarrow> apply_changes L cs k key = v"
proof (induction cs arbitrary: L)
  case (Cons ch cs)
  obtain k' key' v' where ch: "ch = (k', key', v')" by (cases ch)
  show ?case
  proof (cases "ch = (k, key, v)")
    case True
    then have "(k, key) \<notin> change_place ` set cs" using Cons.prems(1) by (auto simp: change_place_def)
    then show ?thesis using True by (simp add: applied_elsewhere)
  next
    case False
    then have "(k, key, v) \<in> set cs" "distinct (map change_place cs)" using Cons.prems by auto
    then show ?thesis using Cons.IH by (simp add: ch)
  qed
qed simp

text \<open>A body's pieces, and what the record says of them.\<close>

definition body_left :: "codec \<Rightarrow> (bytes \<Rightarrow> bytes) \<Rightarrow> nat \<Rightarrow> audit_entry \<Rightarrow> kept_audit \<Rightarrow> ledger \<Rightarrow> ledger \<Rightarrow> bool" where
  "body_left c sha256 chunk entry k A A1 \<longleftrightarrow> (let ps = pieces (max chunk 1) (body_bytes c entry) in
     af_body_length (ka_facts k) = word_of_nat (length (body_bytes c entry)) \<and> af_body_digest (ka_facts k) = sha256 (body_bytes c entry) \<and>
     A1 kept_body_kind = apply_changes A (map (\<lambda>j. (kept_body_kind, audit_body_key (ae_id entry) (word_of_nat j), Some (ps ! j))) [0 ..< length ps]) kept_body_kind)"

lemma applied_same: "(\<forall>ch \<in> set cs. fst ch = k) \<Longrightarrow> A k = B k \<Longrightarrow> apply_changes A cs k = apply_changes B cs k"
proof (induction cs arbitrary: A B)
  case (Cons ch cs)
  obtain k' key v where ch: "ch = (k', key, v)" by (cases ch)
  have k: "k' = k" using Cons.prems(1) by (simp add: ch)
  have "upd A k key v k = upd B k key v k" unfolding upd_def fun_upd_same Cons.prems(2) ..
  with Cons.prems(1) have "apply_changes (upd A k key v) cs k = apply_changes (upd B k key v) cs k" by (intro Cons.IH) simp
  then show ?case by (simp only: ch k apply_changes_simps)
qed simp

text \<open>What a record's own write leaves of the three kinds.\<close>

lemma own_write:
  assumes "length ss = length rs" and "distinct ss"
    and "A' = apply_changes A (map (stream_row c audit) (zip ss rs) @ [(chain_kind, w, h), (kept_audit_kind, be128 audit, v)])"
  shows "A' kept_audit_kind = (A kept_audit_kind)(be128 audit := v)" and "A' chain_kind = (A chain_kind)(w := h)"
    and "i < length ss \<Longrightarrow> A' kept_streams_kind (audit_stream_key audit (ss ! i)) = Some (w_kept_stream c \<lparr>ks_audit = audit, ks_stream = rs ! i\<rparr>)"
    and "(\<And>s. s \<in> set ss \<Longrightarrow> key \<noteq> audit_stream_key audit s) \<Longrightarrow> A' kept_streams_kind key = A kept_streams_kind key"
    and "k \<noteq> kept_streams_kind \<Longrightarrow> k \<noteq> chain_kind \<Longrightarrow> k \<noteq> kept_audit_kind \<Longrightarrow> A' k = A k"
proof -
  let ?rows = "map (stream_row c audit) (zip ss rs)"
  let ?cs = "?rows @ [(chain_kind, w, h), (kept_audit_kind, be128 audit, v)]"
  have kinds: "kept_audit_kind \<noteq> kept_streams_kind" "chain_kind \<noteq> kept_streams_kind" "chain_kind \<noteq> kept_audit_kind"
    by (simp_all add: kept_audit_kind_def kept_streams_kind_def chain_kind_def)
  have place: "change_place (stream_row c audit sr) = (kept_streams_kind, audit_stream_key audit (fst sr))" for sr
    by (simp add: stream_row_def change_place_def)
  have places: "change_place ` set ?cs = (\<lambda>s. (kept_streams_kind, audit_stream_key audit s)) ` set ss \<union> {(chain_kind, w), (kept_audit_kind, be128 audit)}"
  proof -
    have "change_place ` set ?rows = (\<lambda>s. (kept_streams_kind, audit_stream_key audit s)) ` fst ` set (zip ss rs)"
      by (simp add: image_image place)
    also have "fst ` set (zip ss rs) = set ss" using assms(1) by (metis map_fst_zip set_map)
    finally show ?thesis by (auto simp: change_place_def)
  qed
  have "map change_place ?rows = map (\<lambda>s. (kept_streams_kind, audit_stream_key audit s)) (map fst (zip ss rs))"
    by (simp add: place)
  then have "distinct (map change_place ?rows)" using assms(1,2) by (simp add: distinct_map inj_on_def)
  then have distinct: "distinct (map change_place ?cs)"
    using kinds by (auto simp: place) (auto simp: change_place_def)
  note there = applied_there [OF distinct, of _ _ _ A, folded assms(3)] and elsewhere = applied_elsewhere [of _ _ ?cs A, folded assms(3), unfolded places]
  show "A' kept_audit_kind = (A kept_audit_kind)(be128 audit := v)"
    using there [of kept_audit_kind "be128 audit" v] kinds by (auto simp: fun_eq_iff intro!: elsewhere)
  show "A' chain_kind = (A chain_kind)(w := h)"
    using there [of chain_kind w h] kinds by (auto simp: fun_eq_iff intro!: elsewhere)
  show "A' kept_streams_kind (audit_stream_key audit (ss ! i)) = Some (w_kept_stream c \<lparr>ks_audit = audit, ks_stream = rs ! i\<rparr>)"
    if "i < length ss"
  proof (rule there)
    have "(ss ! i, rs ! i) \<in> set (zip ss rs)" using that assms(1) by (auto simp: set_zip)
    then show "(kept_streams_kind, audit_stream_key audit (ss ! i), Some (w_kept_stream c \<lparr>ks_audit = audit, ks_stream = rs ! i\<rparr>)) \<in> set ?cs"
      by (force simp: stream_row_def)
  qed
  show "A' kept_streams_kind key = A kept_streams_kind key" if "\<And>s. s \<in> set ss \<Longrightarrow> key \<noteq> audit_stream_key audit s"
    using that kinds by (intro elsewhere) auto
  show "A' k = A k" if "k \<noteq> kept_streams_kind" "k \<noteq> chain_kind" "k \<noteq> kept_audit_kind"
    using that by (auto simp: fun_eq_iff intro!: elsewhere)
qed

text \<open>Whatever is kept stays as it is kept.\<close>

definition keeps_kept :: "codec \<Rightarrow> (bytes \<Rightarrow> bytes) \<Rightarrow> ledger \<Rightarrow> ledger \<Rightarrow> bool" where
  "keeps_kept c sha256 A A' \<longleftrightarrow> (chain_inv c sha256 A \<longrightarrow> chain_inv c sha256 A' \<and> (\<forall>i k. kept_at c A i = Some k \<longrightarrow> kept_at c A' i = Some k))"

lemma keeps_kept_trans: "keeps_kept c sha256 A A1 \<Longrightarrow> keeps_kept c sha256 A1 A2 \<Longrightarrow> keeps_kept c sha256 A A2"
  by (auto simp: keeps_kept_def)

text \<open>The writer forgets a record where the keeper stands at it, and only there.\<close>

lemma eval_decide_kept:
  assumes "decode_sequence (L sequence_kind kept_key) = Inr k"
  shows "eval L (decide_kept n) = (if k = n then Inr (True, upd (upd L audit_kind (be64 n) None) sequence_kind kept_key (Some (be64 (n + 1))))
    else Inr (False, L))"
  using assms by (simp add: decide_kept_def)

lemma decode_sequence_be64 [simp]: "decode_sequence (Some (be64 n)) = Inr n"
  by (simp add: decode_sequence_def)

text \<open>The runtime database with so many audit records, from one on, moved.\<close>

definition moved_from :: "u64 \<Rightarrow> nat \<Rightarrow> ledger \<Rightarrow> ledger \<Rightarrow> bool" where
  "moved_from k d L L' \<longleftrightarrow> decode_sequence (L' sequence_kind kept_key) = Inr (k + word_of_nat d) \<and>
     (\<forall>n. L' audit_kind (be64 n) = (if unat k \<le> unat n \<and> unat n < unat k + d then None else L audit_kind (be64 n))) \<and>
     (\<forall>kind key. (kind, key) \<noteq> (sequence_kind, kept_key) \<longrightarrow> (\<forall>n. (kind, key) \<noteq> (audit_kind, be64 n)) \<longrightarrow> L' kind key = L kind key)"

lemma moved_from_one:
  assumes "unat k + Suc d < 2 ^ 64" and "moved_from (k + 1) d (upd (upd L audit_kind (be64 k) None) sequence_kind kept_key (Some (be64 (k + 1)))) L'"
  shows "moved_from k (Suc d) L L'"
proof -
  have "unat (k + 1) = Suc (unat k)" using assms(1) by (simp add: unat_word_ariths)
  then show ?thesis
    using assms(2) by (auto simp: moved_from_def upd_apply audit_kind_def sequence_kind_def add.assoc word_unat_eq_iff)
qed

context secret_laws
begin

lemma written_rows:
  assumes "\<And>sr. sr \<in> set srs \<Longrightarrow> fit_stream_record c (snd sr)"
    and "\<And>key. rows_decode c (case map_of latest (kept_streams_kind, key) of Some v \<Rightarrow> v | None \<Rightarrow> A kept_streams_kind key)"
    and "\<And>latest'. (\<forall>k key. k \<noteq> kept_streams_kind \<longrightarrow> map_of latest' (k, key) = map_of latest (k, key)) \<Longrightarrow>
      \<exists>es. written_from c x database.Audit now (\<lambda>k key. Inr (A k key)) latest' cs = Inr (ws, es)"
  shows "\<exists>es. written_from c x database.Audit now (\<lambda>k key. Inr (A k key)) latest (map (stream_row c audit) srs @ cs) =
    Inr (map (stream_row c audit) srs @ ws, es)"
  using assms
proof (induction srs arbitrary: latest)
  case (Cons sr srs)
  let ?key = "audit_stream_key audit (fst sr)"
  let ?b = "w_kept_stream c \<lparr>ks_audit = audit, ks_stream = snd sr\<rparr>"
  let ?prior = "case map_of latest (kept_streams_kind, ?key) of Some v \<Rightarrow> v | None \<Rightarrow> A kept_streams_kind ?key"
  let ?was = "\<lambda>k key. Inr (A k key)"
  have again: "from_bytes c (r_kept_stream c) ?b = Inr \<lparr>ks_audit = audit, ks_stream = snd sr\<rparr>"
    using Cons.prems(1) [of sr] by (intro kept_stream.from_bytes_write) (simp_all add: fit_kept_stream_def)
  have prior: "(case map_of latest (kept_streams_kind, ?key) of Some b \<Rightarrow> Inr b | None \<Rightarrow> ?was kept_streams_kind ?key) = Inr ?prior"
    by (auto split: option.splits)
  have decodes: "rows_decode c ?prior" by (rule Cons.prems(2))
  obtain gone where gone: "(case ?prior of None \<Rightarrow> Inr [] | Some b \<Rightarrow> bindr (row_in c x SAuditStream b) (\<lambda>(r, rid). row_entries database.Audit ''audit_stream'' r rid)) = Inr gone"
  proof (cases ?prior)
    case (Some b)
    then obtain s where "from_bytes c (r_kept_stream c) b = Inr s" using decodes by (auto simp: rows_decode_def)
    moreover obtain ks where "row_entries database.Audit ''audit_stream'' (row_stream s) (ks_audit s) = Inr ks"
      using searched_table [of database.Audit kept_streams_kind SAuditStream] by (auto simp: kept_streams_kind_def kept_audit_kind_def)
    ultimately show ?thesis using Some that by (simp add: row_as_def)
  qed (use that in simp)
  have st: "stamped c x SAuditStream ?b ?prior now = Inr (?b, row_stream \<lparr>ks_audit = audit, ks_stream = snd sr\<rparr>, audit)"
    using decodes again by (cases ?prior) (auto simp: stamp_as_def stamp_stream_def rows_decode_def map_maybe_def)
  obtain ks where ks: "row_entries database.Audit ''audit_stream'' (row_stream \<lparr>ks_audit = audit, ks_stream = snd sr\<rparr>) audit = Inr ks"
    using searched_table [of database.Audit kept_streams_kind SAuditStream] by (auto simp: kept_streams_kind_def kept_audit_kind_def)
  have later: "\<exists>es. written_from c x database.Audit now ?was (((kept_streams_kind, ?key), Some ?b) # latest) (map (stream_row c audit) srs @ cs) =
      Inr (map (stream_row c audit) srs @ ws, es)"
  proof (rule Cons.IH)
    show "rows_decode c (case map_of (((kept_streams_kind, ?key), Some ?b) # latest) (kept_streams_kind, key) of Some v \<Rightarrow> v | None \<Rightarrow> A kept_streams_kind key)" for key
      using Cons.prems(2) [of key] again by (auto simp: rows_decode_def)
    show "\<exists>es. written_from c x database.Audit now ?was latest' cs = Inr (ws, es)"
      if "\<forall>k key. k \<noteq> kept_streams_kind \<longrightarrow> map_of latest' (k, key) = map_of (((kept_streams_kind, ?key), Some ?b) # latest) (k, key)" for latest'
      using that by (intro Cons.prems(3)) simp
  qed (use Cons.prems(1) in simp)
  then obtain es where later: "written_from c x database.Audit now ?was (((kept_streams_kind, ?key), Some ?b) # latest) (map (stream_row c audit) srs @ cs) =
      Inr (map (stream_row c audit) srs @ ws, es)" ..
  have row: "stream_row c audit sr = (kept_streams_kind, ?key, Some ?b)" by (simp add: stream_row_def)
  have searched: "searched_of database.Audit kept_streams_kind = Some SAuditStream" by (simp add: kept_streams_kind_def kept_audit_kind_def)
  show ?case
    unfolding list.map append_Cons row written_from.simps searched option.case prior bindr_simps gone table_word.simps st prod.case ks later by simp
qed simp

lemma written_record:
  assumes "\<And>sr. sr \<in> set srs \<Longrightarrow> fit_stream_record c (snd sr)" and "fit_kept_audit c k"
    and "\<And>key. rows_decode c (A kept_streams_kind key)" and "A kept_audit_kind (be128 (ka_id k)) = None"
  shows "\<exists>es. written_over c x database.Audit (map (stream_row c audit) srs @ [(chain_kind, w, head'), (kept_audit_kind, be128 (ka_id k), Some (w_kept_audit c k))])
      now (\<lambda>k key. Inr (A k key)) =
    Inr (map (stream_row c audit) srs @ [(chain_kind, w, head'), (kept_audit_kind, be128 (ka_id k), Some (w_kept_audit c (stamp_audit now None k)))], es)"
  unfolding written_over_def
proof (rule written_rows [OF assms(1)])
  fix latest' :: by_place
  assume "\<forall>k key. k \<noteq> kept_streams_kind \<longrightarrow> map_of latest' (k, key) = map_of [] (k, key)"
  then have none: "map_of latest' (kept_audit_kind, be128 (ka_id k)) = None" by (simp add: kept_audit_kind_def kept_streams_kind_def)
  have again: "from_bytes c (r_kept_audit c) (w_kept_audit c k) = Inr k" using assms(2) by (intro kept_audit.from_bytes_write) simp_all
  obtain ks where "row_entries database.Audit ''audit'' (row_audit (stamp_audit now None k)) (ka_id (stamp_audit now None k)) = Inr ks"
    using searched_table [of database.Audit kept_audit_kind SAudit] by (auto simp: kept_audit_kind_def)
  then show "\<exists>es. written_from c x database.Audit now (\<lambda>k key. Inr (A k key)) latest'
      [(chain_kind, w, head'), (kept_audit_kind, be128 (ka_id k), Some (w_kept_audit c k))] =
    Inr ([(chain_kind, w, head'), (kept_audit_kind, be128 (ka_id k), Some (w_kept_audit c (stamp_audit now None k)))], es)"
    using none again assms(4)
    by (simp add: chain_kind_def kept_audit_kind_def kept_streams_kind_def stamp_as_def map_maybe_def Let_def)
qed (use assms(3) in simp_all)

text \<open>A record kept writes what goes beside it, then its own write: its rows, the head and itself.\<close>

lemma kept_one_is:
  assumes "fit_audit_entry c entry" and "\<forall>bs. length (sha256 bs) = 32" and "chain_inv c sha256 A"
    and "A kept_audit_kind (be128 (ae_id entry)) = None"
    and "kept_one c x sha256 now L chunk entry (A, X) = (Inr (), (A', X'))"
  shows "\<exists>A1 records k n previous. beside (A, X) (A1, X) \<and> length records = length (carried_streams entry) \<and>
    (\<forall>i < length records. read_as c (r_stream_record c) L stream_kind (be128 (carried_streams entry ! i)) = Inr (Some (records ! i))) \<and>
    decode_head (A chain_kind (as_bytes (af_writer (ae_facts entry)))) = Inr (n, previous) \<and>
    ka_id k = ae_id entry \<and> ka_streams k = carried_streams entry \<and> af_writer (ka_facts k) = af_writer (ae_facts entry) \<and>
    af_position (ka_facts k) = n + 1 \<and> af_previous (ka_facts k) = previous \<and> af_digest (ka_facts k) = chain_digest c sha256 k records \<and>
    fit_kept_audit c k \<and> (\<forall>r \<in> set records. fit_stream_record c r) \<and>
    A' = apply_changes A1 (map (stream_row c (ae_id entry)) (zip (carried_streams entry) records) @
      [(chain_kind, as_bytes (af_writer (ae_facts entry)), Some (be64 (n + 1) @ af_digest (ka_facts k))),
       (kept_audit_kind, be128 (ae_id entry), Some (w_kept_audit c k))]) \<and>
    body_left c sha256 chunk entry k A A1"
proof -
  let ?ss = "carried_streams entry" and ?id = "ae_id entry" and ?w = "as_bytes (af_writer (ae_facts entry))"
  obtain rows records Y facts Y' k head' Y2 where steps:
      "streams_kept c L ?id ?ss (A, X) = (Inr (rows, records), Y)"
      "body_kept c sha256 entry chunk (ae_facts entry) Y = (Inr facts, Y')"
      "link c sha256 (\<lambda>k key. Inr (fst Y' k key)) \<lparr>ka_id = ?id, ka_streams = ?ss, ka_facts = facts\<rparr> records = Inr (k, head')"
      "indexed_audit c x now (rows @ [head', (kept_audit_kind, be128 ?id, Some (w_kept_audit c k))]) Y' = (Inr (), (A', X'))"
    using assms(4,5) by (auto simp: kept_one_def binda_Inr split: prod.splits)
  have r: "rows = map (stream_row c ?id) (zip ?ss records)" "length records = length ?ss"
      "\<forall>i < length ?ss. read_as c (r_stream_record c) L stream_kind (be128 (?ss ! i)) = Inr (Some (records ! i))"
    using streams_kept_is [OF steps(1)] by auto
  have "beside (A, X) Y" using beside_streams [of "(A, X)" c L ?id ?ss] steps(1) by simp
  moreover have "beside Y Y'" using steps(2) beside_body [of Y ?id "pieces (max chunk 1) (body_bytes c entry)" "(0, [])"]
    by (auto simp: body_kept_def Let_def binda_Inr split: prod.splits)
  ultimately have beside: "beside (A, X) Y'" by (rule beside_trans)
  obtain A1 X1 where Y': "Y' = (A1, X1)" by (cases Y')
  then have X1: "X1 = X" using beside by (simp add: writes_only_def)
  note same = beside_chain [OF beside [unfolded Y']]
  obtain Y1 i d where body: "body_copied ?id (pieces (max chunk 1) (body_bytes c entry)) (0, []) Y = (Inr (i, d), Y1)"
      "facts = (ae_facts entry)\<lparr>af_body_length := word_of_nat (length (body_bytes c entry)), af_body_chunks := i, af_body_digest := sha256 d\<rparr>"
    using steps(2) by (auto simp: body_kept_def Let_def binda_Inr)
  have writer: "af_writer facts = af_writer (ae_facts entry)" by (simp add: body(2))
  obtain n previous where link: "decode_head (A chain_kind ?w) = Inr (n, previous)"
      "k = \<lparr>ka_id = ?id, ka_streams = ?ss, ka_facts = facts\<lparr>af_position := n + 1, af_previous := previous,
        af_digest := chain_digest c sha256 \<lparr>ka_id = ?id, ka_streams = ?ss, ka_facts = facts\<lparr>af_position := n + 1, af_previous := previous\<rparr>\<rparr> records\<rparr>\<rparr>"
      "head' = (chain_kind, ?w, Some (be64 (n + 1) @ af_digest (ka_facts k)))"
    using steps(3) by (auto simp: link_def bindr_eq_Inr Y' same(5) writer Let_def)
  let ?k0 = "\<lparr>ka_id = ?id, ka_streams = ?ss, ka_facts = facts\<lparr>af_position := n + 1, af_previous := previous\<rparr>\<rparr>"
  have k: "ka_id k = ?id" "ka_streams k = ?ss" "af_writer (ka_facts k) = af_writer (ae_facts entry)" "af_position (ka_facts k) = n + 1"
      "af_previous (ka_facts k) = previous" "k = ?k0\<lparr>ka_facts := (ka_facts ?k0)\<lparr>af_digest := chain_digest c sha256 ?k0 records\<rparr>\<rparr>"
    by (simp_all add: link(2) writer)
  have digest: "af_digest (ka_facts k) = chain_digest c sha256 k records"
  proof -
    have "chain_digest c sha256 k records = chain_digest c sha256 ?k0 records" unfolding k(6) by (rule chain_digest_digest)
    then show ?thesis by (simp add: link(2))
  qed
  have fit_records: "fit_stream_record c sr" if member: "sr \<in> set records" for sr
  proof -
    obtain i where "i < length records" "records ! i = sr" using member unfolding in_set_conv_nth by blast
    then obtain b where "from_bytes c (r_stream_record c) b = Inr sr" using r(2,3) by (auto simp: read_as_Some)
    then show ?thesis by (rule stream_record.from_bytes_fit)
  qed
  have "length previous = 32" using link(1) by (rule decode_head_length)
  moreover have "length ?ss < 2 ^ 32"
    using length_carried [of entry] assms(1) by (auto simp: fit_audit_entry_def fit_audited_def fit_many_def split: option.splits)
  ultimately have fit: "fit_kept_audit c k"
    using assms(1,2) by (simp add: link(2) fit_kept_audit_def fit_audit_entry_def fit_audit_facts_def fit_many_def body(2) chain_digest_def list_all_length)
  have rows: "rows_decode c (A1 kept_streams_kind key)" for key
    using assms(3) same(4) by (auto simp: chain_inv_def rows_decode_def)
  obtain es where "written_over c x database.Audit (map (stream_row c ?id) (zip ?ss records) @ [head', (kept_audit_kind, be128 (ka_id k), Some (w_kept_audit c k))])
      now (\<lambda>k key. Inr (A1 k key)) =
    Inr (map (stream_row c ?id) (zip ?ss records) @ [head', (kept_audit_kind, be128 (ka_id k), Some (w_kept_audit c (stamp_audit now None k)))], es)"
    using written_record [of "zip ?ss records" k A1 ?id ?w] fit_records fit rows assms(4) same(3) unfolding link(3)
    by (force simp: k(1) dest: set_zip_rightD)
  then have final: "A' = apply_changes A1 (map (stream_row c ?id) (zip ?ss records) @ [head', (kept_audit_kind, be128 ?id, Some (w_kept_audit c (stamp_audit now None k)))])"
    using steps(4) by (simp add: indexed_audit_def Y' r(1) k(1))
  have "fit_kept_audit c (stamp_audit now None k)" using fit by (rule fit_stamps(6))
  moreover have "af_digest (ka_facts (stamp_audit now None k)) = af_digest (ka_facts k)" "ka_id (stamp_audit now None k) = ka_id k"
    "ka_streams (stamp_audit now None k) = ka_streams k" "af_writer (ka_facts (stamp_audit now None k)) = af_writer (ka_facts k)"
    "af_position (ka_facts (stamp_audit now None k)) = af_position (ka_facts k)" "af_previous (ka_facts (stamp_audit now None k)) = af_previous (ka_facts k)"
    by (simp_all add: stamp_audit_def)
  moreover have "body_left c sha256 chunk entry (stamp_audit now None k) A A1"
  proof -
    let ?ps = "pieces (max chunk 1) (body_bytes c entry)"
    obtain A0 X0 where Y: "Y = (A0, X0)" by (cases Y)
    have "concat ?ps = body_bytes c entry" by (rule concat_pieces) simp
    then have "d = body_bytes c entry" "A1 = apply_changes A0 (map (\<lambda>j. (kept_body_kind, audit_body_key ?id (word_of_nat j), Some (?ps ! j))) [0 ..< length ?ps])"
      using body(1) steps(2) unfolding Y body_copied_is body_kept_def Let_def binda_Inr by (auto simp: body_copied_is Y')
    moreover have "A0 kept_body_kind = A kept_body_kind"
      using only_streams [of "(A, X)" c L ?id ?ss] steps(1) by (simp add: Y writes_only_def kept_body_kind_def kept_chunk_kind_def)
    then have "apply_changes A0 (map (\<lambda>j. (kept_body_kind, audit_body_key ?id (word_of_nat j), Some (?ps ! j))) [0 ..< length ?ps]) kept_body_kind =
        apply_changes A (map (\<lambda>j. (kept_body_kind, audit_body_key ?id (word_of_nat j), Some (?ps ! j))) [0 ..< length ?ps]) kept_body_kind"
      by (intro applied_same) simp_all
    ultimately show ?thesis unfolding body_left_def Let_def by (simp add: link(2) body(2) stamp_audit_def)
  qed
  ultimately show ?thesis
    using beside r(2,3) link(1) k digest fit_records final
    by (intro exI [of _ A1] exI [of _ records] exI [of _ "stamp_audit now None k"] exI [of _ n] exI [of _ previous])
      (simp add: Y' X1 link(3))
qed

lemma kept_one_chain:
  assumes "fit_audit_entry c entry" and "\<forall>bs. length (sha256 bs) = 32" and "chain_inv c sha256 A"
    and "A kept_audit_kind (be128 (ae_id entry)) = None"
    and "kept_one c x sha256 now L chunk entry (A, X) = (Inr (), (A', X'))"
  shows "chain_inv c sha256 A' \<and> (\<exists>k. kept_at c A' = (kept_at c A)(ae_id entry \<mapsto> k) \<and> ka_id k = ae_id entry \<and>
    ka_streams k = carried_streams entry \<and> af_writer (ka_facts k) = af_writer (ae_facts entry))"
proof -
  let ?id = "ae_id entry" and ?ss = "carried_streams entry" and ?w = "af_writer (ae_facts entry)"
  obtain A1 records k n previous where kept: "beside (A, X) (A1, X)" "length records = length ?ss"
      "decode_head (A chain_kind (as_bytes ?w)) = Inr (n, previous)" "ka_id k = ?id" "ka_streams k = ?ss" "af_writer (ka_facts k) = ?w"
      "af_position (ka_facts k) = n + 1" "af_previous (ka_facts k) = previous" "af_digest (ka_facts k) = chain_digest c sha256 k records"
      "fit_kept_audit c k" "\<forall>r \<in> set records. fit_stream_record c r"
    and A': "A' = apply_changes A1 (map (stream_row c ?id) (zip ?ss records) @
      [(chain_kind, as_bytes ?w, Some (be64 (n + 1) @ af_digest (ka_facts k))), (kept_audit_kind, be128 ?id, Some (w_kept_audit c k))])"
    using kept_one_is [OF assms] by blast
  note same = beside_chain [OF kept(1)]
  note left = own_write [OF kept(2) [symmetric] distinct_carried A']
  have again: "from_bytes c (r_kept_audit c) (w_kept_audit c k) = Inr k" using kept(10) by (intro kept_audit.from_bytes_write) simp_all
  have now_kept: "kept_at c A' = (kept_at c A)(?id \<mapsto> k)"
  proof
    fix i show "kept_at c A' i = ((kept_at c A)(?id \<mapsto> k)) i"
      using again by (simp add: kept_at_def left(1) same(3))
  qed
  have row_k: "rows_at c A' k = records"
  proof (rule nth_equalityI)
    fix i assume "i < length (rows_at c A' k)"
    then have i: "i < length ?ss" by (simp add: rows_at_def kept(5))
    then have "fit_stream_record c (records ! i)" using kept(2,11) by simp
    then have "from_bytes c (r_kept_stream c) (w_kept_stream c \<lparr>ks_audit = ?id, ks_stream = records ! i\<rparr>) =
        Inr \<lparr>ks_audit = ?id, ks_stream = records ! i\<rparr>"
      by (intro kept_stream.from_bytes_write) (simp_all add: fit_kept_stream_def)
    then show "rows_at c A' k ! i = records ! i" using i by (simp add: rows_at_def row_at_def kept(4,5) left(3) value_at_eq)
  qed (simp add: rows_at_def kept(2,5))
  have row_other: "rows_at c A' k' = rows_at c A k'" if "ka_id k' \<noteq> ?id" for k'
  proof -
    have "A' kept_streams_kind (audit_stream_key (ka_id k') s) = A kept_streams_kind (audit_stream_key (ka_id k') s)" for s
      using that by (subst left(4)) (auto simp: same(4))
    then show ?thesis by (simp add: rows_at_def row_at_def)
  qed
  have not_kept: "kept_at c A ?id = None" using assms(4) by (simp add: kept_at_def)
  have "\<exists>ks. chain_of c sha256 A' w ks" for w
  proof -
    obtain ks where ks: "chain_of c sha256 A w ks" using assms(3) unfolding chain_inv_def by blast
    then have others: "ka_id k' \<noteq> ?id" if "k' \<in> set ks" for k' using that not_kept by (auto simp: chain_of_def)
    have linked: "linked c sha256 A' 0 no_digest ks"
      using ks linked_same [of ks c A' A] row_other others by (auto simp: chain_of_def)
    show ?thesis
    proof (cases "w = ?w")
      case True
      have head': "n = word_of_nat (length ks)" "previous = last_digest ks" using ks kept(3) True by (simp_all add: chain_of_def)
      have "length (af_digest (ka_facts k)) = 32" using assms(2) by (simp add: kept(9) chain_digest_def)
      then have "decode_head (A' chain_kind (as_bytes w)) = Inr (n + 1, af_digest (ka_facts k))" by (simp add: left(2) True)
      moreover have "linked c sha256 A' 0 no_digest (ks @ [k])"
        using linked kept(7-9) head' row_k by (simp add: linked_append last_digest_def)
      moreover have "distinct (map ka_id (ks @ [k]))"
      proof -
        have "ka_id k \<notin> ka_id ` set ks" unfolding kept(4) image_iff using others by metis
        then show ?thesis using ks by (simp add: chain_of_def)
      qed
      moreover have "set (ks @ [k]) = {k. kept_at c A' (ka_id k) = Some k \<and> af_writer (ka_facts k) = w}"
        using ks kept(4,6) True not_kept by (auto simp: chain_of_def now_kept)
      ultimately have "chain_of c sha256 A' w (ks @ [k])" by (simp add: chain_of_def head' last_digest_def)
      then show ?thesis ..
    next
      case False
      then have "A' chain_kind (as_bytes w) = A chain_kind (as_bytes w)" by (simp add: left(2) same(5))
      moreover have "{k. kept_at c A' (ka_id k) = Some k \<and> af_writer (ka_facts k) = w} = {k. kept_at c A (ka_id k) = Some k \<and> af_writer (ka_facts k) = w}"
        using False kept(4,6) not_kept by (auto simp: now_kept)
      ultimately have "chain_of c sha256 A' w ks" using ks linked by (simp add: chain_of_def)
      then show ?thesis ..
    qed
  qed
  moreover have "\<exists>k. from_bytes c (r_kept_audit c) bs = Inr k \<and> key = be128 (ka_id k)" if "A' kept_audit_kind key = Some bs" for key bs
    using that assms(3) again kept(4) by (auto simp: left(1) same(3) chain_inv_def split: if_splits)
  moreover have "\<exists>s. from_bytes c (r_kept_stream c) bs = Inr s" if "A' kept_streams_kind key = Some bs" for key bs
  proof (cases "\<exists>s \<in> set ?ss. key = audit_stream_key ?id s")
    case True
    then obtain i where i: "i < length ?ss" "key = audit_stream_key ?id (?ss ! i)" by (auto simp: in_set_conv_nth)
    then have "bs = w_kept_stream c \<lparr>ks_audit = ?id, ks_stream = records ! i\<rparr>" using that by (simp add: left(3))
    moreover have "fit_stream_record c (records ! i)" using kept(2,11) i(1) by simp
    ultimately show ?thesis using kept_stream.from_bytes_write [of "\<lparr>ks_audit = ?id, ks_stream = records ! i\<rparr>"] by (auto simp: fit_kept_stream_def)
  next
    case False
    then have "A kept_streams_kind key = Some bs" using that left(4) [of key] same(4) by auto
    then show ?thesis using assms(3) by (auto simp: chain_inv_def)
  qed
  ultimately have "chain_inv c sha256 A'" unfolding chain_inv_def by blast
  then show ?thesis using now_kept kept(4-6) by blast
qed

text \<open>One that fails leaves what it wrote beside; one already kept leaves everything.\<close>

lemma kept_one_fails: "kept_one c x sha256 now L chunk entry A = (Inl e, A') \<Longrightarrow> beside A A'"
proof -
  assume fails: "kept_one c x sha256 now L chunk entry A = (Inl e, A')"
  have own: "A3 = A2" if "indexed_audit c x now cs A2 = (Inl e', A3)" for cs A2 A3 e'
    using that by (cases A2) (auto simp: indexed_audit_def split: sum.splits)
  define m where "m = (\<lambda>(rows, streams). binda (body_kept c sha256 entry chunk (ae_facts entry)) (\<lambda>facts.
       binda (\<lambda>A'. (link c sha256 (\<lambda>k key. Inr (fst A' k key))
           \<lparr>ka_id = ae_id entry, ka_streams = carried_streams entry, ka_facts = facts\<rparr> streams, A')) (\<lambda>(k, head).
       indexed_audit c x now (rows @ [head, (kept_audit_kind, be128 (ae_id entry), Some (w_kept_audit c k))]))))"
  have body: "beside A2 (snd (body_kept c sha256 entry chunk facts A2))" for A2 facts
    unfolding body_kept_def Let_def by (intro beside_binda beside_body) (auto simp: split_beta)
  have "beside A1 A2" if "m sr A1 = (Inl e, A2)" for sr A1 A2
  proof -
    obtain rows streams where sr: "sr = (rows, streams)" by (cases sr)
    obtain r A3 where b: "body_kept c sha256 entry chunk (ae_facts entry) A1 = (r, A3)"
      by (cases "body_kept c sha256 entry chunk (ae_facts entry) A1")
    then have "beside A1 A3" using body [of A1 "ae_facts entry"] by simp
    moreover have "A2 = A3"
    proof (cases r)
      case (Inr facts)
      then show ?thesis
        using that b by (auto simp: m_def sr binda_def split: sum.splits prod.splits dest!: own)
    qed (use that b in \<open>auto simp: m_def sr binda_def\<close>)
    ultimately show ?thesis by simp
  qed
  note rest = this
  have "(fst A kept_audit_kind (be128 (ae_id entry)) \<noteq> None \<and> False) \<or>
      binda (streams_kept c L (ae_id entry) (carried_streams entry)) m A = (Inl e, A')"
    using fails by (auto simp: kept_one_def m_def split: if_splits)
  then obtain r A1 where "streams_kept c L (ae_id entry) (carried_streams entry) A = (r, A1)"
      "(case r of Inl e \<Rightarrow> (Inl e, A1) | Inr sr \<Rightarrow> m sr A1) = (Inl e, A')"
    by (cases "streams_kept c L (ae_id entry) (carried_streams entry) A") (auto simp: binda_def)
  moreover have "beside A A1" using beside_streams [of A c L "ae_id entry" "carried_streams entry"] calculation(1) by simp
  ultimately show "beside A A'" using beside_trans [of _ A A1 A'] rest by (cases r) (fastforce simp del: split_paired_All)+
qed

lemma kept_one_keeps:
  assumes "fit_audit_entry c entry" and "\<forall>bs. length (sha256 bs) = 32"
    and "kept_one c x sha256 now L chunk entry (A, X) = (r, (A', X'))"
  shows "keeps_kept c sha256 A A' \<and> (r = Inr () \<longrightarrow> chain_inv c sha256 A \<longrightarrow> kept_at c A' (ae_id entry) \<noteq> None)"
proof (cases "A kept_audit_kind (be128 (ae_id entry))")
  case (Some bs)
  then have "r = Inr ()" "A' = A" using assms(3) by (simp_all add: kept_one_def)
  moreover have "kept_at c A (ae_id entry) \<noteq> None" if "chain_inv c sha256 A"
    using that Some by (fastforce simp: kept_at_def chain_inv_def)
  ultimately show ?thesis by (simp add: keeps_kept_def)
next
  case None
  show ?thesis
  proof (cases r)
    case (Inl e)
    then have "beside (A, X) (A', X')" using assms(3) kept_one_fails by blast
    then show ?thesis using Inl by (simp add: keeps_kept_def beside_chain)
  next
    case (Inr u)
    have "chain_inv c sha256 A' \<and> (\<exists>k. kept_at c A' = (kept_at c A)(ae_id entry \<mapsto> k))" if "chain_inv c sha256 A"
      using kept_one_chain [OF assms(1,2) that None] assms(3) unfolding Inr by simp blast
    moreover have "kept_at c A (ae_id entry) = None" using None by (simp add: kept_at_def)
    ultimately show ?thesis by (fastforce simp: keeps_kept_def)
  qed
qed

lemma keep_number_keeps:
  assumes "\<forall>bs. length (sha256 bs) = 32" and "keep_number c x sha256 now chunk n (L, (A, X)) = (r, (L', (A', X')))"
  shows "keeps_kept c sha256 A A' \<and> (\<forall>b. r = Inr b \<longrightarrow>
    (\<exists>entry. read_as c (r_audit_entry c) L audit_kind (be64 n) = Inr (Some entry) \<and>
      (chain_inv c sha256 A \<longrightarrow> kept_at c A' (ae_id entry) \<noteq> None) \<and> eval L (decide_kept n) = Inr (b, L')))"
proof (cases "\<exists>entry. read_as c (r_audit_entry c) L audit_kind (be64 n) = Inr (Some entry)")
  case False
  then have "A' = A \<and> (\<forall>b. r \<noteq> Inr b)"
    using assms(2) by (auto simp: keep_number_def bindr_eq_Inr split: sum.splits prod.splits option.splits)
  then show ?thesis by (simp add: keeps_kept_def)
next
  case True
  then obtain entry where entry: "read_as c (r_audit_entry c) L audit_kind (be64 n) = Inr (Some entry)" by blast
  then have "fit_audit_entry c entry" by (auto simp: read_as_Some dest: audit_entry.from_bytes_fit)
  moreover obtain r1 where one: "kept_one c x sha256 (now n) L chunk entry (A, X) = (r1, (A', X'))"
      "r = Inr b \<longrightarrow> r1 = Inr () \<and> eval L (decide_kept n) = Inr (b, L')" for b
    using assms(2) entry by (auto simp: keep_number_def split: sum.splits prod.splits)
  ultimately show ?thesis using kept_one_keeps [OF _ assms(1) one(1)] entry by fastforce
qed

lemma keep_numbers_keeps:
  assumes "\<forall>bs. length (sha256 bs) = 32" and "keep_numbers c x sha256 now chunk ns moved (L, (A, X)) = (r, (L', (A', X')))"
  shows "keeps_kept c sha256 A A'"
  using assms(2)
proof (induction ns arbitrary: L A X moved)
  case (Cons n ns)
  obtain r1 L1 A1 X1 where one: "keep_number c x sha256 now chunk n (L, (A, X)) = (r1, (L1, (A1, X1)))"
    by (cases "keep_number c x sha256 now chunk n (L, (A, X))") auto
  then have first: "keeps_kept c sha256 A A1" using keep_number_keeps [OF assms(1)] by blast
  show ?case
  proof (cases "r1 = Inr True")
    case True
    then have "keeps_kept c sha256 A1 A'" using Cons.IH [of "moved + 1" L1 A1 X1] Cons.prems one by simp
    with first show ?thesis by (rule keeps_kept_trans)
  next
    case False
    then have "A' = A1" using Cons.prems one by (auto split: sum.splits bool.splits)
    with first show ?thesis by simp
  qed
qed (simp add: keeps_kept_def)

lemma keep_numbers_moves:
  assumes sha: "\<forall>bs. length (sha256 bs) = 32" and inv: "chain_inv c sha256 A"
    and "decode_sequence (L sequence_kind kept_key) = Inr k" and "unat k + d < 2 ^ 64"
    and "keep_numbers c x sha256 now chunk (map word_of_nat [unat k ..< unat k + d]) moved (L, (A, X)) = (Inr r, (L', (A', X')))"
  shows "r = moved + word_of_nat d \<and> moved_from k d L L' \<and> (\<forall>n. unat k \<le> unat n \<longrightarrow> unat n < unat k + d \<longrightarrow>
    (\<exists>entry. read_as c (r_audit_entry c) L audit_kind (be64 n) = Inr (Some entry) \<and> kept_at c A' (ae_id entry) \<noteq> None))"
  using assms(2-)
proof (induction d arbitrary: L A X k moved)
  case 0
  then show ?case by (auto simp: moved_from_def)
next
  case (Suc d)
  have next': "unat (k + 1) = Suc (unat k)" using Suc.prems(3) by (simp add: unat_word_ariths)
  have list: "map word_of_nat [unat k ..< unat k + Suc d] = k # map word_of_nat [unat (k + 1) ..< unat (k + 1) + d]"
    by (simp add: upt_conv_Cons next' del: upt_Suc)
  obtain r1 L1 A1 X1 where one: "keep_number c x sha256 now chunk k (L, (A, X)) = (r1, (L1, (A1, X1)))"
    by (cases "keep_number c x sha256 now chunk k (L, (A, X))") auto
  note kept = keep_number_keeps [OF sha one]
  obtain b where b: "r1 = Inr b" using Suc.prems(4) one unfolding list by (cases r1) auto
  then obtain entry where entry: "read_as c (r_audit_entry c) L audit_kind (be64 k) = Inr (Some entry)"
      "kept_at c A1 (ae_id entry) \<noteq> None" "eval L (decide_kept k) = Inr (b, L1)"
    using kept Suc.prems(1) by blast
  have L1: "b" "L1 = upd (upd L audit_kind (be64 k) None) sequence_kind kept_key (Some (be64 (k + 1)))"
    using entry(3) Suc.prems(2) by (simp_all add: eval_decide_kept)
  have rest: "keep_numbers c x sha256 now chunk (map word_of_nat [unat (k + 1) ..< unat (k + 1) + d]) (moved + 1) (L1, (A1, X1)) = (Inr r, (L', (A', X')))"
    using Suc.prems(4) one b L1(1) unfolding list by simp
  have inv1: "chain_inv c sha256 A1" using kept Suc.prems(1) by (simp add: keeps_kept_def)
  have seq1: "decode_sequence (L1 sequence_kind kept_key) = Inr (k + 1)" by (simp add: L1(2))
  have "unat (k + 1) + d < 2 ^ 64" using Suc.prems(3) next' by simp
  note ih = Suc.IH [OF inv1 seq1 this rest]
  have keeps: "keeps_kept c sha256 A1 A'" by (rule keep_numbers_keeps [OF sha rest])
  have "moved_from k (Suc d) L L'" using ih Suc.prems(3) by (intro moved_from_one) (simp_all add: L1(2))
  moreover have "\<exists>entry. read_as c (r_audit_entry c) L audit_kind (be64 n) = Inr (Some entry) \<and> kept_at c A' (ae_id entry) \<noteq> None"
    if n: "unat k \<le> unat n" "unat n < unat k + Suc d" for n
  proof (cases "n = k")
    case True
    then show ?thesis using entry(1,2) keeps inv1 by (fastforce simp: keeps_kept_def)
  next
    case False
    then have "unat n \<noteq> unat k" by (simp add: word_unat_eq_iff)
    then have "\<exists>entry. read_as c (r_audit_entry c) L1 audit_kind (be64 n) = Inr (Some entry) \<and> kept_at c A' (ae_id entry) \<noteq> None"
      using ih n next' by simp
    then show ?thesis using False by (auto simp: read_as_def L1(2) upd_apply audit_kind_def sequence_kind_def)
  qed
  ultimately show ?case using ih by (simp add: add.assoc)
qed

end

text \<open>A runtime database of one audit record, and an empty audit database.\<close>

definition sample_digest :: "bytes \<Rightarrow> bytes" where
  "sample_digest bs = replicate 32 0"

definition sample_runtime :: ledger where
  "sample_runtime = upd (upd empty_ledger audit_kind (be64 0) (Some (w_audit_entry plain_codec sample_audit))) sequence_kind next_key (Some (be64 1))"

lemma empty_chains: "chain_inv c sha256 empty_ledger"
proof -
  have "chain_of c sha256 empty_ledger w []" for w
    by (simp add: chain_of_def kept_at_def empty_ledger_def decode_head_def last_digest_def)
  then show ?thesis unfolding chain_inv_def by (auto simp: empty_ledger_def)
qed

lemma sample_audit_back: "read_as plain_codec (r_audit_entry plain_codec) sample_runtime audit_kind (be64 0) = Inr (Some sample_audit)"
proof -
  have "fit_audit_entry plain_codec sample_audit"
    by (simp add: sample_audit_def fit_audit_entry_def fit_audit_facts_def)
  then have "from_bytes plain_codec (r_audit_entry plain_codec) (w_audit_entry plain_codec sample_audit) = Inr sample_audit"
    by (intro plain.audit_entry.from_bytes_write) simp_all
  then show ?thesis by (simp add: read_as_Some sample_runtime_def upd_apply audit_kind_def sequence_kind_def)
qed

lemma sample_kept_one:
  "\<exists>A' X'. kept_one plain_codec plain_rules sample_digest 50 sample_runtime 4 sample_audit (empty_ledger, Map.empty) = (Inr (), (A', X'))"
proof -
  let ?ps = "pieces (max 4 1) (body_bytes plain_codec sample_audit)"
  let ?B = "apply_changes empty_ledger (map (\<lambda>j. (kept_body_kind, audit_body_key 1 (0 + word_of_nat j), Some (?ps ! j))) [0 ..< length ?ps])"
  define B where "B = ?B"
  define facts where "facts = (ae_facts sample_audit)\<lparr>af_body_length := word_of_nat (length (body_bytes plain_codec sample_audit)),
    af_body_chunks := 0 + word_of_nat (length ?ps), af_body_digest := sample_digest ([] @ concat ?ps)\<rparr>"
  have id: "ae_id sample_audit = 1" and none: "carried_streams sample_audit = []"
    by (simp_all add: sample_audit_def carried_streams_def)
  have body: "body_kept plain_codec sample_digest sample_audit 4 (ae_facts sample_audit) (empty_ledger, Map.empty) = (Inr facts, (B, Map.empty))"
    unfolding body_kept_def Let_def binda_def id body_copied_is by (simp add: facts_def B_def)
  have "beside (empty_ledger, Map.empty) (B, Map.empty)"
    using beside_body [of "(empty_ledger, Map.empty)" 1 ?ps "(0, [])"] unfolding body_copied_is B_def by simp
  note same = beside_chain [OF this]
  define k0 where "k0 = \<lparr>ka_id = 1, ka_streams = [], ka_facts = facts\<rparr>"
  obtain k head' where link: "link plain_codec sample_digest (\<lambda>k key. Inr (B k key)) k0 [] = Inr (k, (chain_kind, head'))"
      "ka_id k = 1" "ka_streams k = []" "fit_audit_facts plain_codec (ka_facts k)"
    using that [of "k0\<lparr>ka_facts := facts\<lparr>af_position := 1, af_previous := no_digest, af_digest := sample_digest []\<rparr>\<rparr>"]
    by (simp add: link_def same(5) empty_ledger_def decode_head_def k0_def chain_digest_def sample_digest_def Let_def facts_def
        sample_audit_def fit_audit_facts_def)
  obtain w h where head': "head' = (w, h)" by (cases head')
  have fit: "fit_kept_audit plain_codec k" using link(3,4) by (simp add: fit_kept_audit_def fit_many_def)
  obtain es where "written_over plain_codec plain_rules database.Audit [(chain_kind, w, h), (kept_audit_kind, be128 1, Some (w_kept_audit plain_codec k))] 50 (\<lambda>k key. Inr (B k key)) =
      Inr ([(chain_kind, w, h), (kept_audit_kind, be128 1, Some (w_kept_audit plain_codec (stamp_audit 50 None k)))], es)"
    using plain_secrets.written_record [of "[]" k B 1 w h 50] fit link(2) same(3,4) by (auto simp: rows_decode_def empty_ledger_def)
  then have "kept_one plain_codec plain_rules sample_digest 50 sample_runtime 4 sample_audit (empty_ledger, Map.empty) =
      (Inr (), (apply_changes B [(chain_kind, w, h), (kept_audit_kind, be128 1, Some (w_kept_audit plain_codec (stamp_audit 50 None k)))], apply_entries Map.empty es))"
    unfolding kept_one_def id none using body link(1)
    by (simp add: empty_ledger_def binda_def k0_def indexed_audit_def head')
  then show ?thesis by blast
qed

lemma sample_moved: "\<exists>L' A' X'. keep_audit plain_codec plain_rules sample_digest (\<lambda>_. 50) 10 4 (sample_runtime, (empty_ledger, Map.empty)) = (Inr 1, (L', (A', X')))"
proof -
  obtain A' X' where one: "kept_one plain_codec plain_rules sample_digest 50 sample_runtime 4 sample_audit (empty_ledger, Map.empty) = (Inr (), (A', X'))"
    using sample_kept_one by blast
  have at: "decode_sequence (sample_runtime sequence_kind kept_key) = Inr 0" "decode_sequence (sample_runtime sequence_kind next_key) = Inr 1"
    by (simp_all add: sample_runtime_def upd_apply empty_ledger_def kept_key_def next_key_def audit_kind_def sequence_kind_def decode_sequence_def as_bytes_def)
  have "map word_of_nat [unat (0 :: u64) ..< unat (min 1 (u64_add 0 (word_of_nat (unat (10 :: u32)))))] = [0 :: u64]"
    by (simp add: u64_add_def)
  then show ?thesis
    using one at eval_decide_kept [where L = sample_runtime and k = 0, OF at(1), of 0] sample_audit_back
    by (simp add: keep_audit_def sequence_def Let_def keep_number_def)
qed

lemma unat_small: "n < 2 ^ 32 \<Longrightarrow> unat (word_of_nat n :: u64) = n"
  by (simp add: unat_of_nat take_bit_nat_eq_self)

section \<open>Properties\<close>

text \<open>
  C14: Every writer's audit chain holds through the keeper's work. Where each writer's kept records are
  linked - each numbered one after the one before it, with its digest, and its own digest over its
  canonical form and the records of its Streams - and the head kept is the last's, they are so after
  a move of any records, done or failed anywhere on the way; and a record once kept is never changed.
\<close>

theorem chains_hold:
  assumes "secret_laws c x" and "\<forall>bs. length (sha256 bs) = 32" and "chain_inv c sha256 A"
    and "keep_audit c x sha256 now m chunk (L, (A, X)) = (r, (L', (A', X')))"
  shows "chain_inv c sha256 A' \<and> (\<forall>i k. kept_at c A i = Some k \<longrightarrow> kept_at c A' i = Some k)"
proof -
  have "keeps_kept c sha256 A A'"
    using assms(4) secret_laws.keep_numbers_keeps [OF assms(1,2)]
    by (auto simp: keep_audit_def Let_def keeps_kept_def split: sum.splits)
  then show ?thesis using assms(3) by (simp add: keeps_kept_def)
qed

theorem chains_hold_witness:
  "\<exists>L' A' X'. keep_audit plain_codec plain_rules sample_digest (\<lambda>_. 50) 10 4 (sample_runtime, (empty_ledger, Map.empty)) = (Inr 1, (L', (A', X'))) \<and>
    chain_inv plain_codec sample_digest A'"
  using sample_moved chains_hold [OF plain_secrets.secret_laws_axioms _ empty_chains, of sample_digest]
  by (fastforce simp: sample_digest_def)

text \<open>
  The keeper moves audit records oldest first, each once. A move that ends moved as many as asked
  for, or all there are; each of them is in the audit database, and forgotten in the runtime database,
  whose sequence stands after the last of them; no other record of the runtime database is touched.
\<close>

theorem keep_moves_oldest_first:
  assumes "secret_laws c x" and "\<forall>bs. length (sha256 bs) = 32" and "chain_inv c sha256 A"
    and "decode_sequence (L sequence_kind kept_key) = Inr k" and "decode_sequence (L sequence_kind next_key) = Inr nxt" and "k \<le> nxt"
    and "keep_audit c x sha256 now m chunk (L, (A, X)) = (Inr r, (L', (A', X')))"
  shows "unat r = min (unat m) (unat nxt - unat k) \<and> moved_from k (unat r) L L' \<and> (\<forall>n. k \<le> n \<longrightarrow> unat n < unat k + unat r \<longrightarrow>
    (\<exists>entry. read_as c (r_audit_entry c) L audit_kind (be64 n) = Inr (Some entry) \<and> kept_at c A' (ae_id entry) \<noteq> None))"
proof -
  let ?to = "unat (min nxt (u64_add k (word_of_nat (unat m))))"
  have "unat m < 2 ^ 32" using unsigned_less [of m] by simp
  then have m: "unat (word_of_nat (unat m) :: u64) = unat m" by (rule unat_small)
  have "unat nxt < 2 ^ 64" using unsigned_less [of nxt] by simp
  then have to: "?to = unat k + min (unat m) (unat nxt - unat k)"
    using assms(6) m word_order.extremum [of nxt] by (auto simp: u64_add_def min_def word_le_nat_alt unat_word_ariths)
  have run: "keep_numbers c x sha256 now chunk (map word_of_nat [unat k ..< unat k + min (unat m) (unat nxt - unat k)]) 0 (L, (A, X)) = (Inr r, (L', (A', X')))"
    using assms(7) unfolding keep_audit_def to [symmetric] by (simp add: sequence_def assms(4,5) Let_def)
  have "unat k + min (unat m) (unat nxt - unat k) < 2 ^ 64" using \<open>unat nxt < 2 ^ 64\<close> assms(6) unfolding word_le_nat_alt by arith
  note ended = secret_laws.keep_numbers_moves [OF assms(1-4) this run]
  moreover have "unat (word_of_nat (min (unat m) (unat nxt - unat k)) :: u32) = min (unat m) (unat nxt - unat k)"
    using \<open>unat m < 2 ^ 32\<close> by (simp add: unat_of_nat take_bit_nat_eq_self)
  ultimately show ?thesis by (simp add: word_le_nat_alt)
qed

theorem keep_moves_oldest_first_witness:
  "\<exists>L' A' X'. keep_audit plain_codec plain_rules sample_digest (\<lambda>_. 50) 10 4 (sample_runtime, (empty_ledger, Map.empty)) = (Inr 1, (L', (A', X'))) \<and>
    moved_from 0 1 sample_runtime L' \<and> kept_at plain_codec A' 1 \<noteq> None"
proof -
  obtain L' A' X' where moved: "keep_audit plain_codec plain_rules sample_digest (\<lambda>_. 50) 10 4 (sample_runtime, (empty_ledger, Map.empty)) = (Inr 1, (L', (A', X')))"
    using sample_moved by blast
  have at: "decode_sequence (sample_runtime sequence_kind kept_key) = Inr 0" "decode_sequence (sample_runtime sequence_kind next_key) = Inr 1"
    by (simp_all add: sample_runtime_def upd_apply empty_ledger_def kept_key_def next_key_def audit_kind_def sequence_kind_def decode_sequence_def as_bytes_def)
  have "\<forall>bs. length (sample_digest bs) = 32" by (simp add: sample_digest_def)
  from keep_moves_oldest_first [where L = sample_runtime and k = 0 and nxt = 1, OF plain_secrets.secret_laws_axioms this empty_chains at _ moved]
  have "moved_from 0 1 sample_runtime L'" "\<exists>entry. read_as plain_codec (r_audit_entry plain_codec) sample_runtime audit_kind (be64 0) = Inr (Some entry) \<and>
      kept_at plain_codec A' (ae_id entry) \<noteq> None"
    by simp_all
  then show ?thesis using moved sample_audit_back by (auto simp: sample_audit_def)
qed

end
