(* ===== verification/Kept.thy ===== *)
theory Kept
  imports Keeper
begin

text \<open>
  What the keeper kept, read back: the embedded node's reads of a Stream and its chunks, of a kept
  audit record, its Streams and its body's chunks (\<open>src/.src/storage/embedded.rs\<close> and
  \<open>embedded/keeper.rs\<close>), and a reader of chunks over them. A record's body as the keeper kept it is
  read back whole, whatever way it is read, unless chunks of a body kept before, in smaller chunks
  and cut short, are left after its own.
\<close>

section \<open>The node's reads\<close>

definition read_chunk :: "codec \<Rightarrow> ledger \<Rightarrow> u128 \<Rightarrow> u32 \<Rightarrow> stream_chunk option result" where
  "read_chunk c L stream index = read_as c (r_stream_chunk c) L chunk_kind (chunk_key stream index)"

definition read_stream :: "codec \<Rightarrow> ledger \<Rightarrow> u128 \<Rightarrow> stream_record option result" where
  "read_stream c L stream = read_as c (r_stream_record c) L stream_kind (be128 stream)"

definition kept_record :: "codec \<Rightarrow> ledger \<Rightarrow> u128 \<Rightarrow> kept_audit option result" where
  "kept_record c A i = read_as c (r_kept_audit c) A kept_audit_kind (be128 i)"

definition kept_body_chunk :: "ledger \<Rightarrow> u128 \<Rightarrow> u32 \<Rightarrow> bytes option result" where
  "kept_body_chunk A i index = Inr (A kept_body_kind (audit_body_key i index))"

definition kept_stream_of :: "codec \<Rightarrow> ledger \<Rightarrow> u128 \<Rightarrow> u128 \<Rightarrow> stream_record option result" where
  "kept_stream_of c A i stream = bindr (read_as c (r_kept_stream c) A kept_streams_kind (audit_stream_key i stream))
     (\<lambda>v. Inr (map_option ks_stream v))"

definition kept_chunk_of :: "codec \<Rightarrow> ledger \<Rightarrow> u128 \<Rightarrow> u128 \<Rightarrow> u32 \<Rightarrow> stream_chunk option result" where
  "kept_chunk_of c A i stream index = read_as c (r_stream_chunk c) A kept_chunk_kind (audit_chunk_key i stream index)"

definition read_kept_audit_chunk :: "codec \<Rightarrow> ledger \<Rightarrow> u128 \<Rightarrow> u128 option \<Rightarrow> u32 \<Rightarrow> bytes option result" where
  "read_kept_audit_chunk c A i stream index = (case stream of
     None \<Rightarrow> kept_body_chunk A i index
   | Some s \<Rightarrow> bindr (kept_chunk_of c A i s index) (\<lambda>v. Inr (map_option sc_bytes v)))"

text \<open>A reader asks the node.\<close>

definition asking_node :: "codec \<Rightarrow> (bytes \<Rightarrow> bytes) \<Rightarrow> ledger \<Rightarrow> ledger \<Rightarrow> asking" where
  "asking_node c sha256 L A = \<lparr>as_chunk = read_chunk c L, as_kept_chunk = read_kept_audit_chunk c A, as_kept_stream = kept_stream_of c A,
     as_kept_audit = kept_record c A, as_sha256 = sha256\<rparr>"

section \<open>A body read back\<close>

lemma chunks_are:
  assumes "\<And>i. asked_chunk a from i = Inr (if unat i < length ps then Some (ps ! unat i) else None)" and "length ps < 2 ^ 32"
    and "chunks_kept a from 0 chunks"
  shows "length chunks \<le> length ps" and "unat (word_of_nat (length chunks) :: u32) = length chunks"
    and "asked_chunk a from (word_of_nat (length chunks)) = Inr None \<Longrightarrow> chunks = ps"
proof -
  have small: "unat (word_of_nat i :: u32) = i" if "i \<le> length ps" for i
    using that assms(2) by (simp add: unat_of_nat take_bit_nat_eq_self)
  have kept: "asked_chunk a from (word_of_nat i) = Inr (Some (chunks ! i))" if "i < length chunks" for i
    using assms(3) that by (auto simp: chunks_kept_def)
  show le: "length chunks \<le> length ps"
  proof (rule ccontr)
    assume "\<not> length chunks \<le> length ps"
    then show False using kept [of "length ps"] by (simp add: assms(1) small)
  qed
  then show n: "unat (word_of_nat (length chunks) :: u32) = length chunks" by (rule small)
  assume "asked_chunk a from (word_of_nat (length chunks)) = Inr None"
  then have all: "length chunks = length ps" using le n by (simp add: assms(1) split: if_splits)
  show "chunks = ps"
  proof (rule nth_equalityI)
    fix i assume i: "i < length chunks"
    then have "asked_chunk a from (word_of_nat i) = Inr (Some (ps ! i))" using all by (simp add: assms(1) small)
    then show "chunks ! i = ps ! i" using kept [OF i] by simp
  qed (rule all)
qed

text \<open>A reader over chunks that are there up to the first there is not never fails, held to what they are.\<close>

lemma reads_without_error:
  assumes "\<And>i. asked_chunk a from i = Inr (if unat i < length ps then Some (ps ! unat i) else None)" and "length ps < 2 ^ 32"
    and "word_of_nat (length (concat ps)) = len" and "held_to a from (concat ps)" and "gives a (reader_asking from len) out r"
  shows "next_chunk a r \<noteq> (Inl e, r')"
proof
  let ?r0 = "reader_asking from len"
  assume fails: "next_chunk a r = (Inl e, r')"
  have "reader_ok a ?r0 out r" using gives_ok [OF assms(5)] reader_ok_new [of ?r0 a] by (simp add: reader_asking_def)
  then obtain chunks where took: "took a ?r0 chunks r" "cr_at r \<le> length (cr_held r)" by (auto simp: reader_ok_def)
  have kept: "chunks_kept a from 0 chunks" and next_r: "cr_next r = word_of_nat (length chunks)" and from_r: "cr_from r = from"
    using took(1) by (simp_all add: took_def reader_asking_def)
  note are = chunks_are [OF assms(1,2) kept]
  have ask: "asked_chunk a from (cr_next r) = Inr (if length chunks < length ps then Some (ps ! length chunks) else None)"
    by (simp add: next_r are(2) assms(1))
  have at_end: "cr_at r = length (cr_held r)" "\<not> cr_ended r" "asked_chunk a from (cr_next r) = Inr None" "reader_end a r = (Inl e, r')"
    using fails took(2) ask from_r by (auto simp: next_chunk_def split: if_splits sum.splits option.splits prod.splits)
  then have "chunks = ps" using are(3) next_r by simp
  then have "cr_read r = len" "cr_length r = len" "cr_digest r = map_option (\<lambda>d. d @ concat ps) (cr_digest ?r0)"
    using took(1) at_end(2) assms(3) by (simp_all add: took_def) (simp_all add: reader_asking_def)
  then show False
    using at_end(4) assms(4) from_r by (cases "from") (auto simp: reader_end_def reader_asking_def held_to_def Let_def)
qed

lemma length_pieces: "length (pieces n bs) \<le> length bs"
proof (induction n bs rule: pieces.induct)
  case (1 n bs)
  show ?case
  proof (cases "n = 0 \<or> bs = []")
    case False
    then have "pieces n bs = take n bs # pieces n (drop n bs)" by (subst pieces.simps) simp
    moreover have "length bs - n < length bs" using False by simp
    ultimately show ?thesis using 1 [OF False] by simp
  qed (subst pieces.simps, simp)
qed

context secret_laws
begin

text \<open>What the keeper left of a body: its pieces at their numbers, and its record's word of them.\<close>

lemma kept_body_is:
  assumes "fit_audit_entry c entry" and "\<forall>bs. length (sha256 bs) = 32" and "chain_inv c sha256 A"
    and "A kept_audit_kind (be128 (ae_id entry)) = None"
    and "kept_one c x sha256 now L chunk entry (A, X) = (Inr (), (A', X'))"
    and "length (pieces (max chunk 1) (body_bytes c entry)) < 2 ^ 32"
  shows "\<exists>k. kept_record c A' (ae_id entry) = Inr (Some k) \<and> af_body_length (ka_facts k) = word_of_nat (length (body_bytes c entry)) \<and>
    af_body_digest (ka_facts k) = sha256 (body_bytes c entry) \<and>
    (\<forall>i. A' kept_body_kind (audit_body_key (ae_id entry) i) =
      (if unat i < length (pieces (max chunk 1) (body_bytes c entry)) then Some (pieces (max chunk 1) (body_bytes c entry) ! unat i)
       else A kept_body_kind (audit_body_key (ae_id entry) i)))"
proof -
  let ?id = "ae_id entry" and ?ps = "pieces (max chunk 1) (body_bytes c entry)"
  obtain A1 records k n previous where kept: "beside (A, X) (A1, X)" "length records = length (carried_streams entry)"
      "ka_id k = ?id" "fit_kept_audit c k" "body_left c sha256 chunk entry k A A1"
    and A': "A' = apply_changes A1 (map (stream_row c ?id) (zip (carried_streams entry) records) @
      [(chain_kind, as_bytes (af_writer (ae_facts entry)), Some (be64 (n + 1) @ af_digest (ka_facts k))), (kept_audit_kind, be128 ?id, Some (w_kept_audit c k))])"
    using kept_one_is [OF assms(1-5)] by blast
  note left = own_write [OF kept(2) [symmetric] distinct_carried A']
  let ?cs = "map (\<lambda>j. (kept_body_kind, audit_body_key ?id (word_of_nat j), Some (?ps ! j))) [0 ..< length ?ps]"
  have "A' kept_body_kind = A1 kept_body_kind"
    by (rule left(5)) (simp_all add: kept_body_kind_def kept_streams_kind_def chain_kind_def kept_audit_kind_def)
  then have body: "A' kept_body_kind = apply_changes A ?cs kept_body_kind" using kept(5) by (simp add: body_left_def Let_def)
  have small: "unat (word_of_nat j :: u32) = j" if "j < length ?ps" for j
    using that assms(6) by (simp add: unat_of_nat take_bit_nat_eq_self)
  have "inj_on (\<lambda>j. word_of_nat j :: u32) {0 ..< length ?ps}"
    by (rule inj_on_inverseI [of _ unat]) (simp add: small)
  then have "distinct (map (\<lambda>j. word_of_nat j :: u32) [0 ..< length ?ps])" unfolding distinct_map by simp
  moreover have "inj (\<lambda>i. (kept_body_kind, audit_body_key ?id i))" by (simp add: inj_def)
  ultimately have "distinct (map (\<lambda>i. (kept_body_kind, audit_body_key ?id i)) (map (\<lambda>j. word_of_nat j :: u32) [0 ..< length ?ps]))"
    unfolding distinct_map [of _ "map _ _"] by (blast intro: inj_on_subset)
  moreover have "map change_place ?cs = map (\<lambda>i. (kept_body_kind, audit_body_key ?id i)) (map (\<lambda>j. word_of_nat j :: u32) [0 ..< length ?ps])"
    unfolding map_map by (intro map_cong refl) (simp add: change_place_def)
  ultimately have distinct: "distinct (map change_place ?cs)" by (simp only:)
  have "A' kept_body_kind (audit_body_key ?id i) = (if unat i < length ?ps then Some (?ps ! unat i) else A kept_body_kind (audit_body_key ?id i))" for i
  proof (cases "unat i < length ?ps")
    case True
    then have "(kept_body_kind, audit_body_key ?id i, Some (?ps ! unat i)) \<in> set ?cs" by (force intro: image_eqI [of _ _ "unat i"])
    from applied_there [OF distinct this] show ?thesis using True by (simp add: body)
  next
    case False
    have "(kept_body_kind, audit_body_key ?id i) \<notin> change_place ` set ?cs" using False small by (auto simp: change_place_def)
    from applied_elsewhere [OF this] show ?thesis using False by (simp add: body)
  qed
  moreover have "from_bytes c (r_kept_audit c) (w_kept_audit c k) = Inr k" using kept(4) by (intro kept_audit.from_bytes_write) simp_all
  then have "kept_record c A' ?id = Inr (Some k)" by (simp add: kept_record_def read_as_Some left(1))
  ultimately show ?thesis using kept(5) by (auto simp: body_left_def Let_def)
qed

end

text \<open>
  A keeper cut short before a record's own write leaves the chunks of its body. Kept again in larger
  chunks, the record's body is fewer of them; the first of those left after its last is read as the
  body's, and the body is refused: it is not of its length.
\<close>

lemma left_over_body_refused:
  assumes "secret_laws c x" and "fit_audit_entry c entry" and "\<forall>bs. length (sha256 bs) = 32" and "chain_inv c sha256 A"
    and "A kept_audit_kind (be128 (ae_id entry)) = None"
    and "kept_one c x sha256 now L chunk entry (A, X) = (Inr (), (A', X'))"
    and "ps = pieces (max chunk 1) (body_bytes c entry)" and "length ps + 1 < 2 ^ 32"
    and "A kept_body_kind (audit_body_key (ae_id entry) (word_of_nat (length ps))) = Some b" and "b \<noteq> []"
    and "\<forall>i. length ps < unat i \<longrightarrow> A kept_body_kind (audit_body_key (ae_id entry) i) = None"
    and "length (body_bytes c entry) + length b < 2 ^ 64"
    and "body_reader (asking_node c sha256 L A') (ae_id entry) = Inr (Some r0)" and "gives (asking_node c sha256 L A') r0 out r"
  shows "next_chunk (asking_node c sha256 L A') r \<noteq> (Inr None, r')"
proof
  assume ended: "next_chunk (asking_node c sha256 L A') r = (Inr None, r')"
  let ?a = "asking_node c sha256 L A'" and ?id = "ae_id entry" and ?qs = "ps @ [b]"
  let ?from = "AuditBody ?id (sha256 (body_bytes c entry))" and ?len = "word_of_nat (length (body_bytes c entry)) :: u64"
  have "length (pieces (max chunk 1) (body_bytes c entry)) < 2 ^ 32" using assms(7,8) by simp
  from secret_laws.kept_body_is [OF assms(1-6) this]
  obtain k where k: "kept_record c A' ?id = Inr (Some k)" "af_body_length (ka_facts k) = ?len" "af_body_digest (ka_facts k) = sha256 (body_bytes c entry)"
      "\<forall>i. A' kept_body_kind (audit_body_key ?id i) = (if unat i < length ps then Some (ps ! unat i) else A kept_body_kind (audit_body_key ?id i))"
    unfolding assms(7) [symmetric] by blast
  have body: "concat ps = body_bytes c entry" unfolding assms(7) by (rule concat_pieces) simp
  have r0: "r0 = reader_asking ?from ?len" using assms(13) k by (simp add: body_reader_def asking_node_def)
  have last: "A kept_body_kind (audit_body_key ?id i) = Some b" if "unat i = length ps" for i
  proof -
    have "i = word_of_nat (length ps)" using that unfolding that [symmetric] by simp
    then show ?thesis using assms(9) by simp
  qed
  have asked: "asked_chunk ?a ?from i = Inr (if unat i < length ?qs then Some (?qs ! unat i) else None)" for i
    using k(4) assms(11) last [of i]
    by (cases "unat i = length ps") (auto simp: asked_chunk_def asking_node_def read_kept_audit_chunk_def kept_body_chunk_def nth_append not_less)
  obtain chunks where c: "out = concat chunks" "chunks_kept ?a ?from 0 chunks" "asked_chunk ?a ?from (word_of_nat (length chunks)) = Inr None"
      "word_of_nat (length out) = ?len"
    using read_to_end [of ?a ?from ?len out r] assms(14) ended unfolding r0 by blast
  have "chunks = ?qs" using chunks_are(3) [OF asked _ c(2,3)] assms(8) by simp
  then have out: "length out = length (body_bytes c entry) + length b" using c(1) body by simp
  have small: "unat (word_of_nat n :: u64) = n" if "n < 2 ^ 64" for n
    using that by (simp add: unat_of_nat take_bit_nat_eq_self)
  have "unat (word_of_nat (length out) :: u64) = length out" "unat ?len = length (body_bytes c entry)"
    by (rule small, use assms(12) out in linarith)+
  then show False using c(4) out assms(10) by simp
qed

section \<open>Properties\<close>

text \<open>
  An audit record's body as the keeper kept it is read back whole. Where no chunk of a body kept
  before is left after the last it writes, a reader of the kept body, asked in whole chunks or pieces,
  is never refused, and what it gave at its end is the body's bytes.
\<close>

theorem kept_body_reads_back:
  assumes "secret_laws c x" and "fit_audit_entry c entry" and "\<forall>bs. length (sha256 bs) = 32" and "chain_inv c sha256 A"
    and "A kept_audit_kind (be128 (ae_id entry)) = None"
    and "kept_one c x sha256 now L chunk entry (A, X) = (Inr (), (A', X'))"
    and "length (pieces (max chunk 1) (body_bytes c entry)) < 2 ^ 32"
    and "\<forall>i. length (pieces (max chunk 1) (body_bytes c entry)) \<le> unat i \<longrightarrow> A kept_body_kind (audit_body_key (ae_id entry) i) = None"
  shows "\<exists>r0. body_reader (asking_node c sha256 L A') (ae_id entry) = Inr (Some r0) \<and>
    (\<forall>out r. gives (asking_node c sha256 L A') r0 out r \<longrightarrow>
      (\<forall>e r'. next_chunk (asking_node c sha256 L A') r \<noteq> (Inl e, r')) \<and>
      (\<forall>r'. next_chunk (asking_node c sha256 L A') r = (Inr None, r') \<longrightarrow> out = body_bytes c entry))"
proof -
  let ?a = "asking_node c sha256 L A'" and ?ps = "pieces (max chunk 1) (body_bytes c entry)" and ?id = "ae_id entry"
  let ?from = "AuditBody ?id (sha256 (body_bytes c entry))" and ?len = "word_of_nat (length (body_bytes c entry)) :: u64"
  obtain k where k: "kept_record c A' ?id = Inr (Some k)" "af_body_length (ka_facts k) = ?len" "af_body_digest (ka_facts k) = sha256 (body_bytes c entry)"
      "\<forall>i. A' kept_body_kind (audit_body_key ?id i) = (if unat i < length ?ps then Some (?ps ! unat i) else A kept_body_kind (audit_body_key ?id i))"
    using secret_laws.kept_body_is [OF assms(1-7)] by blast
  have body: "concat ?ps = body_bytes c entry" by (rule concat_pieces) simp
  have reader: "body_reader ?a ?id = Inr (Some (reader_asking ?from ?len))"
    using k by (simp add: body_reader_def asking_node_def)
  have asked: "asked_chunk ?a ?from i = Inr (if unat i < length ?ps then Some (?ps ! unat i) else None)" for i
    using k(4) assms(8) by (auto simp: asked_chunk_def asking_node_def read_kept_audit_chunk_def kept_body_chunk_def not_less)
  have held: "held_to ?a ?from (concat ?ps)" unfolding body by (simp add: held_to_def asking_node_def)
  have "out = body_bytes c entry" if given: "gives ?a (reader_asking ?from ?len) out r" "next_chunk ?a r = (Inr None, r')" for out r r'
  proof -
    obtain chunks where c: "out = concat chunks" "chunks_kept ?a ?from 0 chunks" "asked_chunk ?a ?from (word_of_nat (length chunks)) = Inr None"
      using read_to_end [OF given(1)] given(2) by blast
    show ?thesis using chunks_are(3) [OF asked assms(7) c(2,3)] c(1) body by simp
  qed
  then show ?thesis
    using reader reads_without_error [OF asked assms(7) _ held] body by auto
qed

theorem kept_body_reads_back_witness:
  "\<exists>A' X' r0. kept_one plain_codec plain_rules sample_digest 50 sample_runtime 4 sample_audit (empty_ledger, Map.empty) = (Inr (), (A', X')) \<and>
    body_reader (asking_node plain_codec sample_digest sample_runtime A') 1 = Inr (Some r0) \<and>
    (\<forall>out r r'. gives (asking_node plain_codec sample_digest sample_runtime A') r0 out r \<longrightarrow>
      next_chunk (asking_node plain_codec sample_digest sample_runtime A') r = (Inr None, r') \<longrightarrow> out = body_bytes plain_codec sample_audit)"
proof -
  obtain A' X' where one: "kept_one plain_codec plain_rules sample_digest 50 sample_runtime 4 sample_audit (empty_ledger, Map.empty) = (Inr (), (A', X'))"
    using sample_kept_one by blast
  have fit: "fit_audit_entry plain_codec sample_audit" by (simp add: sample_audit_def fit_audit_entry_def fit_audit_facts_def)
  have sha: "\<forall>bs. length (sample_digest bs) = 32" by (simp add: sample_digest_def)
  have id: "ae_id sample_audit = 1" by (simp add: sample_audit_def)
  have "length (body_bytes plain_codec sample_audit) = 5"
    by (simp add: body_bytes_def w_audit_body_def sample_audit_def w_maybe_def w_flag_def plain_codec_def plain_counted_def)
  then have "length (pieces (max 4 1) (body_bytes plain_codec sample_audit)) < 2 ^ 32"
    using length_pieces [of "max 4 1" "body_bytes plain_codec sample_audit"] by simp
  from kept_body_reads_back [OF plain_secrets.secret_laws_axioms fit sha empty_chains _ one this]
  show ?thesis using one by (auto simp: empty_ledger_def id)
qed

end
