(* ===== verification/Version.thy ===== *)
theory Version
  imports Schema Batch
begin

text \<open>
  The schema version a database holds and how one that holds an older version reaches this build's
  (\<open>src/.src/storage/schema/version.rs\<close>), and each of an embedded node's databases brought to it as
  it opens (\<open>embedded/versioned.rs\<close>). A database whose versions go on from one at or below the
  build's is shown to be brought to the build's and never stepped down; one made above the build's
  is shown to be taken for one just made.
\<close>

section \<open>The version held\<close>

record database_version =
  dv_database :: database
  dv_version :: u32
  dv_engine :: string

definition evidence :: "database_version \<Rightarrow> string" where
  "evidence v = ''schema version '' @ digits (unat (dv_version v)) @ '' on '' @ dv_engine v"

lemma unat_below_top: "held < (- 1 :: u32) \<Longrightarrow> unat held < 4294967295"
  by (simp add: word_less_nat_alt unsigned_minus_1_eq_mask mask_eq_exp_minus_1)

lemma unat_next: "held < (- 1 :: u32) \<Longrightarrow> unat (held + 1) = unat held + 1"
proof -
  assume "held < (- 1 :: u32)"
  then have "unat held + 1 < 2 ^ 32" using unat_below_top [of held] by simp
  then show ?thesis by (simp add: unat_word_ariths)
qed

text \<open>Upward from a version recorded, while the next one is.\<close>

function recorded_up :: "(u32 \<Rightarrow> 'e + bool) \<Rightarrow> u32 \<Rightarrow> 'e + u32" where
  "recorded_up recorded held = (if held < - 1 then (case recorded (held + 1) of
       Inl e \<Rightarrow> Inl e
     | Inr yes \<Rightarrow> if yes then recorded_up recorded (held + 1) else Inr held)
     else Inr held)"
  by auto

termination
  by (relation "measure (\<lambda>(recorded, held). 2 ^ 32 - unat held)") (auto simp: unat_next dest: unat_below_top)

declare recorded_up.simps [simp del]

text \<open>Downward, the first recorded.\<close>

fun recorded_down :: "(u32 \<Rightarrow> 'e + bool) \<Rightarrow> u32 list \<Rightarrow> 'e + u32 option" where
  "recorded_down recorded [] = Inr None"
| "recorded_down recorded (v # vs) = bindr (recorded v) (\<lambda>yes. if yes then Inr (Some v) else recorded_down recorded vs)"

definition found_version :: "(u32 \<Rightarrow> 'e + bool) \<Rightarrow> u32 \<Rightarrow> 'e + u32 option" where
  "found_version recorded built = bindr (recorded built) (\<lambda>yes.
     if yes then bindr (recorded_up recorded built) (\<lambda>held. Inr (Some held))
     else recorded_down recorded (rev (map word_of_nat [1 ..< unat built])))"

text \<open>The versions to record to reach the build's, in order, or the refusal in words.\<close>

definition version_range :: "u32 \<Rightarrow> u32 \<Rightarrow> u32 list" where
  "version_range lo hi = map word_of_nat [unat lo ..< Suc (unat hi)]"

definition steps :: "database \<Rightarrow> u32 option \<Rightarrow> u32 \<Rightarrow> string + u32 list" where
  "steps d held built = (case held of
     None \<Rightarrow> Inr (version_range built built)
   | Some h \<Rightarrow> if h > built then Inl (''the '' @ database_word d @ '' database holds schema version '' @ digits (unat h) @
         '', newer than this build's '' @ digits (unat built) @ '': start it with a build of version '' @ digits (unat h) @
         '' or later; a database is never stepped down'')
       else Inr (version_range (h + 1) built))"

section \<open>A database brought to the build's\<close>

text \<open>
  Over a store that answers \<open>get\<close> and applies changes, or fails to: what is answered, and what is
  written in the one write.
\<close>

definition reached_version :: "store_get \<Rightarrow> persist_error option \<Rightarrow> string \<Rightarrow> database \<Rightarrow> u32 \<Rightarrow> u64 \<Rightarrow>
    database_version result \<times> record_change list" where
  "reached_version get fails engine d built now = (
     case found_version (\<lambda>held. bindr (get versions_name (be32 held)) (\<lambda>v. Inr (v \<noteq> None))) built of
       Inl e \<Rightarrow> (Inl e, [])
     | Inr held \<Rightarrow> (case steps d held built of
         Inl reason \<Rightarrow> (Inl (persist_error.Schema reason), [])
       | Inr vs \<Rightarrow> let rows = map (\<lambda>v. (versions_name, be32 v, Some (be64 now))) vs;
             reached = \<lparr>dv_database = d, dv_version = built, dv_engine = engine\<rparr> in
           if rows = [] then (Inr reached, [])
           else (case fails of Some e \<Rightarrow> (Inl e, []) | None \<Rightarrow> (Inr reached, rows))))"

section \<open>What is found\<close>

lemma recorded_up_is:
  assumes "\<And>v. recorded v = Inr (a \<le> v \<and> v \<le> h)" and "a \<le> held" and "held \<le> h"
  shows "recorded_up recorded held = Inr h"
  using assms(2,3)
proof (induction "unat h - unat held" arbitrary: held)
  case 0
  then have "held = h" by (simp add: word_le_nat_alt word_unat_eq_iff)
  moreover have "held < - 1 \<Longrightarrow> held < held + 1" by (simp add: word_less_nat_alt unat_next)
  ultimately show ?case by (subst recorded_up.simps) (auto simp: assms(1) not_le [symmetric])
next
  case (Suc n)
  then have less: "held < h" by (simp add: word_less_nat_alt)
  then have "held < - 1" by (meson max_word_max order.strict_trans2)
  note next_is = unat_next [OF this]
  have "a \<le> held + 1" "held + 1 \<le> h" "n = unat h - unat (held + 1)"
    using Suc.prems Suc.hyps(2) less by (simp_all add: word_le_nat_alt word_less_nat_alt next_is)
  then show ?case using Suc.hyps(1) [of "held + 1"] \<open>held < - 1\<close> by (subst recorded_up.simps) (simp add: assms(1))
qed

lemma recorded_down_is:
  assumes "\<And>v. recorded v = Inr (P v)"
  shows "recorded_down recorded vs = Inr (find P vs)"
  by (induction vs) (simp_all add: assms)

lemma find_below:
  assumes "unat h < n" and "n \<le> 2 ^ 32" and "0 < unat h" and "\<And>v. unat v < n \<Longrightarrow> P v = (a \<le> v \<and> v \<le> h)" and "a \<le> (h :: u32)"
  shows "find P (rev (map word_of_nat [1 ..< n])) = Some h"
  using assms(1,2,4)
proof (induction n)
  case (Suc n)
  have n: "unat (word_of_nat n :: u32) = n" using Suc.prems(2) by (simp add: unat_of_nat take_bit_nat_eq_self)
  have step: "rev (map word_of_nat [1 ..< Suc n]) = (word_of_nat n :: u32) # rev (map word_of_nat [1 ..< n])"
    using Suc.prems(1) assms(3) by simp
  show ?case
  proof (cases "unat h = n")
    case True
    then have "word_of_nat n = h" by (simp add: word_unat_eq_iff n)
    moreover have "P h" using Suc.prems(3) [of h] Suc.prems(1) assms(5) by simp
    ultimately show ?thesis unfolding step by simp
  next
    case False
    then have "unat h < n" using Suc.prems(1) by simp
    moreover have "\<not> P (word_of_nat n)" using \<open>unat h < n\<close> Suc.prems(3) [of "word_of_nat n"] n by (simp add: word_le_nat_alt)
    ultimately show ?thesis using Suc unfolding step by simp
  qed
qed simp

lemma find_none: "\<forall>x \<in> set xs. \<not> P x \<Longrightarrow> find P xs = None"
  by (simp add: find_None_iff)

lemma version_found_is:
  assumes rec: "\<And>v. recorded v = Inr (P v)" and P: "\<And>v. P v = (a \<le> v \<and> v \<le> h)" and "1 \<le> a" and "a \<le> h" and "a \<le> built"
  shows "found_version recorded built = Inr (Some h)"
proof (cases "built \<le> h")
  case True
  then have "recorded_up recorded built = Inr h"
    using recorded_up_is [of recorded a h built] rec P assms(5) by simp
  then show ?thesis using True assms(5) by (simp add: found_version_def rec P)
next
  case False
  have "0 < unat h" using assms(3,4) by (simp add: word_le_nat_alt)
  moreover have "unat h < unat built" using False by (simp add: word_le_nat_alt)
  moreover have "unat built \<le> 2 ^ 32" using unsigned_less [of built, where ?'a = nat] by simp
  ultimately have "find P (rev (map word_of_nat [1 ..< unat built])) = Some h"
    using find_below [of h "unat built" P a] P assms(4) by blast
  then show ?thesis using False P [of built] by (simp add: found_version_def rec recorded_down_is [OF rec])
qed

lemma none_found:
  assumes rec: "\<And>v. recorded v = Inr (P v)" and "\<And>v. v \<le> built \<Longrightarrow> \<not> P v"
  shows "found_version recorded built = Inr None"
proof -
  have "\<not> P v" if member: "v \<in> set (rev (map word_of_nat [1 ..< unat built]))" for v
  proof -
    obtain n where n: "v = word_of_nat n" "n < unat built" using member unfolding set_rev set_map set_upt image_iff Bex_def atLeastLessThan_iff by blast
    then have "n < 2 ^ 32" using unsigned_less [of built, where ?'a = nat] by simp
    then have "unat v = n" by (simp add: n(1) unat_of_nat take_bit_nat_eq_self)
    then show ?thesis using assms(2) n(2) by (simp add: word_le_nat_alt)
  qed
  then show ?thesis using assms(2) [of built] by (simp add: found_version_def rec recorded_down_is [OF rec] find_none)
qed

lemma in_version_range: "v \<in> set (version_range lo hi) \<longleftrightarrow> lo \<le> v \<and> v \<le> hi"
proof
  assume "v \<in> set (version_range lo hi)"
  then obtain n where n: "v = word_of_nat n" "unat lo \<le> n" "n \<le> unat hi" by (auto simp: version_range_def)
  then have "n < 2 ^ 32" using unsigned_less [of hi, where ?'a = nat] by simp
  then have "unat v = n" by (simp add: n(1) unat_of_nat take_bit_nat_eq_self)
  then show "lo \<le> v \<and> v \<le> hi" using n(2,3) by (simp add: word_le_nat_alt)
next
  assume "lo \<le> v \<and> v \<le> hi"
  then have "unat v \<in> {unat lo ..< Suc (unat hi)}" by (simp add: word_le_nat_alt)
  then have "word_of_nat (unat v) \<in> set (version_range lo hi)" unfolding version_range_def set_map set_upt by (rule imageI)
  then show "v \<in> set (version_range lo hi)" by simp
qed

definition recorded_at :: "ledger \<Rightarrow> u32 \<Rightarrow> bool" where
  "recorded_at L v \<longleftrightarrow> L versions_name (be32 v) \<noteq> None"

abbreviation asked_of :: "ledger \<Rightarrow> u32 \<Rightarrow> bool result" where
  "asked_of L \<equiv> \<lambda>v. Inr (recorded_at L v)"

abbreviation reads :: "ledger \<Rightarrow> store_get" where
  "reads L \<equiv> \<lambda>k key. Inr (L k key)"

definition version_rows :: "u64 \<Rightarrow> u32 list \<Rightarrow> record_change list" where
  "version_rows now vs = map (\<lambda>v. (versions_name, be32 v, Some (be64 now))) vs"

lemma reached_is:
  assumes "found_version (asked_of L) built = Inr held" and "steps d held built = Inr vs"
  shows "reached_version (reads L) fails engine d built now = (if vs = [] then (Inr \<lparr>dv_database = d, dv_version = built, dv_engine = engine\<rparr>, [])
    else (case fails of Some e \<Rightarrow> (Inl e, []) | None \<Rightarrow> (Inr \<lparr>dv_database = d, dv_version = built, dv_engine = engine\<rparr>, version_rows now vs)))"
  using assms by (auto simp: reached_version_def recorded_at_def version_rows_def split: option.splits)

lemma rows_applied:
  "apply_changes L (version_rows now vs) k key =
    (if k = versions_name \<and> key \<in> be32 ` set vs then Some (be64 now) else L k key)"
  by (induction vs arbitrary: L) (auto simp: version_rows_def upd_apply)

lemma versions_written: "recorded_at (apply_changes L (version_rows now vs)) v \<longleftrightarrow> v \<in> set vs \<or> recorded_at L v"
  by (auto simp: recorded_at_def rows_applied)

lemma reached_at:
  assumes "\<And>v. recorded_at L v = (a \<le> v \<and> v \<le> built)" and "1 \<le> a" and "a \<le> built" and "built < - 1"
  shows "reached_version (reads L) fails engine d built now = (Inr \<lparr>dv_database = d, dv_version = built, dv_engine = engine\<rparr>, [])"
proof -
  have "found_version (asked_of L) built = Inr (Some built)"
    using version_found_is [of "asked_of L" "recorded_at L" a built built] assms by simp
  moreover have "version_range (built + 1) built = []" by (simp add: version_range_def unat_next [OF assms(4)])
  then have "steps d (Some built) built = Inr []" by (simp add: steps_def)
  ultimately show ?thesis by (simp add: reached_is)
qed

text \<open>
  A database made above the build's version, which holds that version alone, is one that recorded
  none to a build below it: it is recorded at the build's, not refused.
\<close>

lemma newer_made_taken_for_new:
  assumes "\<And>v. recorded_at L v = (v = h)" and "built < h"
  shows "reached_version (reads L) None engine d built now =
    (Inr \<lparr>dv_database = d, dv_version = built, dv_engine = engine\<rparr>, [(versions_name, be32 built, Some (be64 now))])"
proof -
  have "found_version (asked_of L) built = Inr None"
    by (rule none_found [where P = "recorded_at L"]) (use assms in auto)
  moreover have "steps d None built = Inr [built]" by (simp add: steps_def version_range_def)
  ultimately show ?thesis by (simp add: reached_is version_rows_def)
qed

section \<open>Properties\<close>

text \<open>Where what was found leaves later versions to record, they are recorded and nothing else is.\<close>

lemma reached_writes:
  assumes found: "found_version (asked_of L) built = Inr held" and vs: "steps d held built = Inr vs"
    and all: "\<And>v. (v \<in> set vs \<or> recorded_at L v) = (a \<le> v \<and> v \<le> built)" and fresh: "\<And>v. v \<in> set vs \<Longrightarrow> \<not> recorded_at L v"
    and one: "1 \<le> a" and low: "a \<le> built" and high: "built < - 1"
  shows "\<exists>rows L'. reached_version (reads L) None engine d built now = (Inr \<lparr>dv_database = d, dv_version = built, dv_engine = engine\<rparr>, rows) \<and>
    L' = apply_changes L rows \<and> (\<forall>v. recorded_at L' v = (a \<le> v \<and> v \<le> built)) \<and>
    (\<forall>k key. L k key \<noteq> None \<or> k \<noteq> versions_name \<longrightarrow> L' k key = L k key) \<and>
    reached_version (reads L') fails engine d built now' = (Inr \<lparr>dv_database = d, dv_version = built, dv_engine = engine\<rparr>, [])"
proof -
  let ?made = "\<lparr>dv_database = d, dv_version = built, dv_engine = engine\<rparr>"
  have made: "reached_version (reads L) None engine d built now = (Inr ?made, version_rows now vs)"
    using reached_is [OF found vs] by (simp add: version_rows_def)
  let ?L = "apply_changes L (version_rows now vs)"
  have "\<forall>v. recorded_at ?L v = (a \<le> v \<and> v \<le> built)" by (simp add: versions_written all)
  moreover have "\<forall>k key. L k key \<noteq> None \<or> k \<noteq> versions_name \<longrightarrow> ?L k key = L k key"
    using fresh by (auto simp: rows_applied recorded_at_def)
  moreover have "reached_version (reads ?L) fails engine d built now' = (Inr ?made, [])"
    by (rule reached_at [of ?L a]) (use calculation(1) one low high in blast)+
  ultimately show ?thesis using made by (intro exI [of _ "version_rows now vs"] exI [of _ ?L]) simp
qed

text \<open>
  A database reaches the build's schema version and is never stepped down. Where its versions go
  on from one at or below the build's to the one it holds, or it recorded none: one that holds a
  version above the build's is refused, and nothing is written; every other records each version up
  to the build's, leaving every row it had and every other kind of record as it was, and opened
  again at the build's writes nothing.
\<close>

theorem database_reaches_the_build:
  assumes "\<And>v. recorded_at L v = (a \<le> v \<and> v \<le> h)" and "1 \<le> a" and "a \<le> h \<or> a = built" and "a \<le> built" and "built < - 1"
  shows "if a \<le> h \<and> built < h then \<exists>why. reached_version (reads L) None engine d built now = (Inl (persist_error.Schema why), [])
    else \<exists>rows L'. reached_version (reads L) None engine d built now = (Inr \<lparr>dv_database = d, dv_version = built, dv_engine = engine\<rparr>, rows) \<and>
      L' = apply_changes L rows \<and> (\<forall>v. recorded_at L' v = (a \<le> v \<and> v \<le> built)) \<and>
      (\<forall>k key. L k key \<noteq> None \<or> k \<noteq> versions_name \<longrightarrow> L' k key = L k key) \<and>
      reached_version (reads L') fails engine d built now' = (Inr \<lparr>dv_database = d, dv_version = built, dv_engine = engine\<rparr>, [])"
proof -
  note wrote = reached_writes [OF _ _ _ _ assms(2,4,5)]
  show ?thesis
  proof (cases "a \<le> h")
    case True
    have found: "found_version (asked_of L) built = Inr (Some h)"
      using version_found_is [of "asked_of L" "recorded_at L" a h built] assms(1,2,4) True by simp
    show ?thesis
    proof (cases "built < h")
      case True
      then have "\<exists>why. reached_version (reads L) None engine d built now = (Inl (persist_error.Schema why), [])"
        using found by (auto simp: reached_version_def steps_def recorded_at_def)
      then show ?thesis using True \<open>a \<le> h\<close> by simp
    next
      case False
      then have h: "h \<le> built" "h < - 1" using assms(5) by (auto intro: order.strict_trans1)
      have "steps d (Some h) built = Inr (version_range (h + 1) built)" using False by (simp add: steps_def)
      moreover have "(v \<in> set (version_range (h + 1) built) \<or> recorded_at L v) = (a \<le> v \<and> v \<le> built)"
        "v \<in> set (version_range (h + 1) built) \<Longrightarrow> \<not> recorded_at L v" for v
      proof -
        have next_le: "h + 1 \<le> v \<longleftrightarrow> h < v" by (simp add: word_le_nat_alt word_less_nat_alt unat_next [OF h(2)] Suc_le_eq)
        show "(v \<in> set (version_range (h + 1) built) \<or> recorded_at L v) = (a \<le> v \<and> v \<le> built)"
          unfolding in_version_range assms(1) next_le using h(1) True by (meson linorder_not_le order.trans less_imp_le)
        show "v \<in> set (version_range (h + 1) built) \<Longrightarrow> \<not> recorded_at L v"
          unfolding in_version_range assms(1) next_le by (meson linorder_not_le)
      qed
      ultimately show ?thesis using False wrote [OF found] by (subst if_not_P) blast+
    qed
  next
    case False
    then have none: "\<not> recorded_at L v" for v unfolding assms(1) by (meson order.trans)
    have "found_version (asked_of L) built = Inr None"
      by (rule none_found [where P = "recorded_at L"]) (use none in auto)
    moreover have "steps d None built = Inr (version_range built built)" by (simp add: steps_def)
    moreover have "(v \<in> set (version_range built built) \<or> recorded_at L v) = (a \<le> v \<and> v \<le> built)" for v
      using none False assms(3) by (auto simp: in_version_range)
    moreover have "\<not> recorded_at L v" if "v \<in> set (version_range built built)" for v by (rule none)
    ultimately show ?thesis using False wrote by (subst if_not_P) blast+
  qed
qed

definition sample_versions :: ledger where
  "sample_versions = upd empty_ledger versions_name (be32 1) (Some (be64 7))"

theorem database_reaches_the_build_witness:
  "\<exists>rows. reached_version (reads sample_versions) None ''memory'' Runtime 3 9 =
     (Inr \<lparr>dv_database = Runtime, dv_version = 3, dv_engine = ''memory''\<rparr>, rows) \<and> recorded_at (apply_changes sample_versions rows) 2"
proof -
  have "recorded_at sample_versions v = (1 \<le> v \<and> v \<le> 1)" for v
    by (auto simp: recorded_at_def sample_versions_def upd_apply empty_ledger_def)
  from database_reaches_the_build [where L = sample_versions and a = 1 and h = 1 and built = 3 and engine = "''memory''" and d = Runtime
      and now = 9 and now' = 9 and fails = None, OF this]
  obtain rows where "reached_version (reads sample_versions) None ''memory'' Runtime 3 9 =
     (Inr \<lparr>dv_database = Runtime, dv_version = 3, dv_engine = ''memory''\<rparr>, rows)"
     "\<forall>v. recorded_at (apply_changes sample_versions rows) v = (1 \<le> v \<and> v \<le> 3)" by auto
  moreover have "1 \<le> (2 :: u32) \<and> 2 \<le> (3 :: u32)" by simp
  ultimately show ?thesis by blast
qed

end
