(* ===== verification/Query.thy ===== *)
theory Query
  imports Version Due
begin

text \<open>
  What Xmip Storage is asked to find (\<open>src/.src/storage/query.rs\<close>, \<open>embedded/searched.rs\<close>): one typed
  question per searchable table, over one of its indexes, its form on the wire, the plan that
  answers it and the search of one database's index it makes. A question is shown to come back from
  its bytes, its plan to name an index of its table that fits it, and a search over an index that is
  exactly its records' to find the records that answer the question, in the order it was asked in.
\<close>

section \<open>A question\<close>

record time_span =
  ts_from :: u64
  ts_to :: u64

definition all_of_time :: time_span where
  "all_of_time = \<lparr>ts_from = 0, ts_to = - 1\<rparr>"

datatype ask =
    MessagesInState string time_span
  | MessagesAtSendPort string string
  | JourneysAfter u128
  | JourneysHolding u128
  | MessagesCreated time_span
  | MessagesFromParty string time_span
  | MessagesOfContract string time_span
  | MessagesAfter u128
  | HeldIn u128 time_span
  | DeadMessages u128 time_span
  | AuditOccurred time_span
  | AuditOfJourney u128
  | AuditOfMessage u128
  | AuditOfArtifact string time_span
  | AuditFailed time_span
  | AuditOfStream u128
  | AuditChain string u64
  | AdministrationUpdated administration_kind time_span

record query =
  qu_ask :: ask
  qu_most :: u32
  qu_newest_first :: bool

section \<open>Its form\<close>

primrec ask_number :: "ask \<Rightarrow> u8" where
  "ask_number (MessagesInState t s) = 1"
| "ask_number (MessagesAtSendPort t t') = 2"
| "ask_number (JourneysAfter i) = 3"
| "ask_number (JourneysHolding i) = 4"
| "ask_number (MessagesCreated s) = 5"
| "ask_number (MessagesFromParty t s) = 6"
| "ask_number (MessagesOfContract t s) = 7"
| "ask_number (MessagesAfter i) = 8"
| "ask_number (HeldIn i s) = 9"
| "ask_number (DeadMessages i s) = 10"
| "ask_number (AuditOccurred s) = 11"
| "ask_number (AuditOfJourney i) = 12"
| "ask_number (AuditOfMessage i) = 13"
| "ask_number (AuditOfArtifact t s) = 14"
| "ask_number (AuditFailed s) = 15"
| "ask_number (AuditOfStream i) = 17"
| "ask_number (AuditChain t n) = 18"
| "ask_number (AdministrationUpdated k s) = 16"

definition w_time_span :: "codec \<Rightarrow> time_span \<Rightarrow> bytes" where
  "w_time_span c s = w_u64 c (ts_from s) @ w_u64 c (ts_to s)"

definition r_time_span :: "codec \<Rightarrow> time_span reader" where
  "r_time_span c = andr (r_u64 c) (\<lambda>lo. andr (r_u64 c) (\<lambda>hi. ret \<lparr>ts_from = lo, ts_to = hi\<rparr>))"

primrec w_ask :: "codec \<Rightarrow> ask \<Rightarrow> bytes" where
  "w_ask c (MessagesInState t s) = w_byte c 1 @ w_text c t @ w_time_span c s"
| "w_ask c (MessagesAtSendPort t t') = w_byte c 2 @ w_text c t @ w_text c t'"
| "w_ask c (JourneysAfter i) = w_byte c 3 @ w_u128 c i"
| "w_ask c (JourneysHolding i) = w_byte c 4 @ w_u128 c i"
| "w_ask c (MessagesCreated s) = w_byte c 5 @ w_time_span c s"
| "w_ask c (MessagesFromParty t s) = w_byte c 6 @ w_text c t @ w_time_span c s"
| "w_ask c (MessagesOfContract t s) = w_byte c 7 @ w_text c t @ w_time_span c s"
| "w_ask c (MessagesAfter i) = w_byte c 8 @ w_u128 c i"
| "w_ask c (HeldIn i s) = w_byte c 9 @ w_u128 c i @ w_time_span c s"
| "w_ask c (DeadMessages i s) = w_byte c 10 @ w_u128 c i @ w_time_span c s"
| "w_ask c (AuditOccurred s) = w_byte c 11 @ w_time_span c s"
| "w_ask c (AuditOfJourney i) = w_byte c 12 @ w_u128 c i"
| "w_ask c (AuditOfMessage i) = w_byte c 13 @ w_u128 c i"
| "w_ask c (AuditOfArtifact t s) = w_byte c 14 @ w_text c t @ w_time_span c s"
| "w_ask c (AuditFailed s) = w_byte c 15 @ w_time_span c s"
| "w_ask c (AuditOfStream i) = w_byte c 17 @ w_u128 c i"
| "w_ask c (AuditChain t n) = w_byte c 18 @ w_text c t @ w_u64 c n"
| "w_ask c (AdministrationUpdated k s) = w_byte c 16 @ w_administration_kind c k @ w_time_span c s"

definition r_ask :: "codec \<Rightarrow> ask reader" where
  "r_ask c = andr (r_byte c) (\<lambda>b.
     if b = 1 then andr (r_text c) (\<lambda>t. andr (r_time_span c) (\<lambda>s. ret (MessagesInState t s)))
     else if b = 2 then andr (r_text c) (\<lambda>t. andr (r_text c) (\<lambda>t'. ret (MessagesAtSendPort t t')))
     else if b = 3 then andr (r_u128 c) (\<lambda>i. ret (JourneysAfter i))
     else if b = 4 then andr (r_u128 c) (\<lambda>i. ret (JourneysHolding i))
     else if b = 5 then andr (r_time_span c) (\<lambda>s. ret (MessagesCreated s))
     else if b = 6 then andr (r_text c) (\<lambda>t. andr (r_time_span c) (\<lambda>s. ret (MessagesFromParty t s)))
     else if b = 7 then andr (r_text c) (\<lambda>t. andr (r_time_span c) (\<lambda>s. ret (MessagesOfContract t s)))
     else if b = 8 then andr (r_u128 c) (\<lambda>i. ret (MessagesAfter i))
     else if b = 9 then andr (r_u128 c) (\<lambda>i. andr (r_time_span c) (\<lambda>s. ret (HeldIn i s)))
     else if b = 10 then andr (r_u128 c) (\<lambda>i. andr (r_time_span c) (\<lambda>s. ret (DeadMessages i s)))
     else if b = 11 then andr (r_time_span c) (\<lambda>s. ret (AuditOccurred s))
     else if b = 12 then andr (r_u128 c) (\<lambda>i. ret (AuditOfJourney i))
     else if b = 13 then andr (r_u128 c) (\<lambda>i. ret (AuditOfMessage i))
     else if b = 14 then andr (r_text c) (\<lambda>t. andr (r_time_span c) (\<lambda>s. ret (AuditOfArtifact t s)))
     else if b = 15 then andr (r_time_span c) (\<lambda>s. ret (AuditFailed s))
     else if b = 16 then andr (r_administration_kind c) (\<lambda>k. andr (r_time_span c) (\<lambda>s. ret (AdministrationUpdated k s)))
     else if b = 17 then andr (r_u128 c) (\<lambda>i. ret (AuditOfStream i))
     else if b = 18 then andr (r_text c) (\<lambda>t. andr (r_u64 c) (\<lambda>n. ret (AuditChain t n)))
     else refuse (''no question is numbered '' @ digits (unat b)))"

definition fit_ask :: "codec \<Rightarrow> ask \<Rightarrow> bool" where
  "fit_ask c a \<longleftrightarrow> (case a of
     MessagesInState t s \<Rightarrow> length t \<le> most c
   | MessagesAtSendPort t t' \<Rightarrow> length t \<le> most c \<and> length t' \<le> most c
   | MessagesFromParty t s \<Rightarrow> length t \<le> most c
   | MessagesOfContract t s \<Rightarrow> length t \<le> most c
   | AuditOfArtifact t s \<Rightarrow> length t \<le> most c
   | AuditChain t n \<Rightarrow> length t \<le> most c
   | _ \<Rightarrow> True)"

definition w_query :: "codec \<Rightarrow> query \<Rightarrow> bytes" where
  "w_query c q = w_ask c (qu_ask q) @ w_u32 c (qu_most q) @ w_flag c (qu_newest_first q)"

definition r_query :: "codec \<Rightarrow> query reader" where
  "r_query c = andr (r_ask c) (\<lambda>a. andr (r_u32 c) (\<lambda>m. andr (r_flag c) (\<lambda>b.
     ret \<lparr>qu_ask = a, qu_most = m, qu_newest_first = b\<rparr>)))"

definition fit_query :: "codec \<Rightarrow> query \<Rightarrow> bool" where
  "fit_query c q \<longleftrightarrow> fit_ask c (qu_ask q)"

sublocale codec_laws \<subseteq> time_span: form "w_time_span c" "r_time_span c" "\<lambda>x. True"
  by unfold_locales (simp_all add: w_time_span_def r_time_span_def)

sublocale codec_laws \<subseteq> ask: form "w_ask c" "r_ask c" "fit_ask c"
proof
  show "r_ask c (w_ask c a @ rest) = Inr (a, rest)" if "fit_ask c a" for a rest
    using that by (cases a) (simp_all add: r_ask_def fit_ask_def time_span.read_write administration_kind.read_write
      fit_administration_kind_def)
  show "fit_ask c a" if "r_ask c bs = Inr (a, rest)" for bs a rest
    using that by (auto simp: r_ask_def andr_eq_Inr fit_ask_def dest: text_short split: if_splits)
qed

sublocale codec_laws \<subseteq> query: form "w_query c" "r_query c" "fit_query c"
  by unfold_locales (auto simp: w_query_def r_query_def fit_query_def andr_eq_Inr ask.read_write dest: ask.read_fit)

section \<open>How it is answered\<close>

record plan =
  qp_database :: database
  qp_table :: string
  qp_index :: string
  qp_equal :: "col_val list"
  qp_range :: "(u64 \<times> u64) option"

primrec ask_index :: "ask \<Rightarrow> database \<times> string \<times> string" where
  "ask_index (MessagesInState t s) = (Runtime, ''journey'', ''journey_state'')"
| "ask_index (MessagesAtSendPort t t') = (Runtime, ''journey'', ''journey_send_port'')"
| "ask_index (JourneysAfter i) = (Runtime, ''journey'', ''journey_previous'')"
| "ask_index (JourneysHolding i) = (Runtime, ''journey'', ''journey_message'')"
| "ask_index (MessagesCreated s) = (Runtime, ''message'', ''message_created'')"
| "ask_index (MessagesFromParty t s) = (Runtime, ''message'', ''message_party'')"
| "ask_index (MessagesOfContract t s) = (Runtime, ''message'', ''message_contract'')"
| "ask_index (MessagesAfter i) = (Runtime, ''message'', ''message_previous'')"
| "ask_index (HeldIn i s) = (Runtime, ''held'', ''held_time'')"
| "ask_index (DeadMessages i s) = (Runtime, ''dead_message'', ''dead_message_time'')"
| "ask_index (AuditOccurred s) = (database.Audit, ''audit'', ''audit_occurred'')"
| "ask_index (AuditOfJourney i) = (database.Audit, ''audit'', ''audit_journey'')"
| "ask_index (AuditOfMessage i) = (database.Audit, ''audit'', ''audit_message'')"
| "ask_index (AuditOfArtifact t s) = (database.Audit, ''audit'', ''audit_artifact'')"
| "ask_index (AuditFailed s) = (database.Audit, ''audit'', ''audit_failed'')"
| "ask_index (AuditOfStream i) = (database.Audit, ''audit_stream'', ''audit_stream_stream'')"
| "ask_index (AuditChain t n) = (database.Audit, ''audit'', ''audit_chain'')"
| "ask_index (AdministrationUpdated k s) = (Administration, ''administration'', ''administration_updated'')"

primrec ask_values :: "ask \<Rightarrow> col_val list \<times> time_span option" where
  "ask_values (MessagesInState t s) = ([VText t], Some s)"
| "ask_values (MessagesAtSendPort t t') = ([VText t, VText t'], None)"
| "ask_values (JourneysAfter i) = ([VId i], None)"
| "ask_values (JourneysHolding i) = ([VId i], None)"
| "ask_values (MessagesCreated s) = ([], Some s)"
| "ask_values (MessagesFromParty t s) = ([VText t], Some s)"
| "ask_values (MessagesOfContract t s) = ([VText t], Some s)"
| "ask_values (MessagesAfter i) = ([VId i], None)"
| "ask_values (HeldIn i s) = ([VId i], Some s)"
| "ask_values (DeadMessages i s) = ([VId i], Some s)"
| "ask_values (AuditOccurred s) = ([], Some s)"
| "ask_values (AuditOfJourney i) = ([VId i], None)"
| "ask_values (AuditOfMessage i) = ([VId i], None)"
| "ask_values (AuditOfArtifact t s) = ([VText t], Some s)"
| "ask_values (AuditFailed s) = ([VFlag True], Some s)"
| "ask_values (AuditOfStream i) = ([VId i], None)"
| "ask_values (AuditChain t n) = ([VText t], Some \<lparr>ts_from = n, ts_to = - 1\<rparr>)"
| "ask_values (AdministrationUpdated k s) = ([VText (word_of_kind k)], Some s)"

definition plan_of :: "ask \<Rightarrow> plan" where
  "plan_of a = (let (d, t, i) = ask_index a; (equal, limits) = ask_values a in
     \<lparr>qp_database = d, qp_table = t, qp_index = i, qp_equal = equal, qp_range = map_option (\<lambda>s. (ts_from s, ts_to s)) limits\<rparr>)"

text \<open>Each of a node's databases has an index of its own; the question is asked of its plan's.\<close>

definition searched_query :: "(database \<Rightarrow> index_scan) \<Rightarrow> query \<Rightarrow> u128 list result" where
  "searched_query scans q = (let p = plan_of (qu_ask q) in
     find_in (qp_database p) (scans (qp_database p)) (qp_table p, qp_index p) (qp_equal p) (qp_range p) (qu_most q, qu_newest_first q))"

section \<open>What answers it\<close>

text \<open>A record's row answers a question; and what its answers are in the order of.\<close>

definition holds_at :: "row \<Rightarrow> string \<Rightarrow> col_val \<Rightarrow> bool" where
  "holds_at r n v \<longleftrightarrow> value_in r n = Some v"

definition number_at :: "row \<Rightarrow> string \<Rightarrow> u64 option" where
  "number_at r n = (case value_in r n of Some (VTime t) \<Rightarrow> Some t | Some (VCount t) \<Rightarrow> Some t | _ \<Rightarrow> None)"

definition within :: "row \<Rightarrow> string \<Rightarrow> time_span \<Rightarrow> bool" where
  "within r n s \<longleftrightarrow> (\<exists>t. number_at r n = Some t \<and> ts_from s \<le> t \<and> t \<le> ts_to s)"

primrec answers_ask :: "ask \<Rightarrow> row \<Rightarrow> bool" where
  "answers_ask (MessagesInState t s) r \<longleftrightarrow> holds_at r ''state'' (VText t) \<and> within r ''updated_at'' s"
| "answers_ask (MessagesAtSendPort t t') r \<longleftrightarrow> holds_at r ''send_port'' (VText t) \<and> holds_at r ''state'' (VText t')"
| "answers_ask (JourneysAfter i) r \<longleftrightarrow> holds_at r ''previous_journey'' (VId i)"
| "answers_ask (JourneysHolding i) r \<longleftrightarrow> holds_at r ''message'' (VId i)"
| "answers_ask (MessagesCreated s) r \<longleftrightarrow> within r ''created_at'' s"
| "answers_ask (MessagesFromParty t s) r \<longleftrightarrow> holds_at r ''party'' (VText t) \<and> within r ''created_at'' s"
| "answers_ask (MessagesOfContract t s) r \<longleftrightarrow> holds_at r ''contract'' (VText t) \<and> within r ''created_at'' s"
| "answers_ask (MessagesAfter i) r \<longleftrightarrow> holds_at r ''previous_message'' (VId i)"
| "answers_ask (HeldIn i s) r \<longleftrightarrow> holds_at r ''queue'' (VId i) \<and> within r ''held_at'' s"
| "answers_ask (DeadMessages i s) r \<longleftrightarrow> holds_at r ''queue'' (VId i) \<and> within r ''queued_at'' s"
| "answers_ask (AuditOccurred s) r \<longleftrightarrow> within r ''occurred_at'' s"
| "answers_ask (AuditOfJourney i) r \<longleftrightarrow> holds_at r ''journey'' (VId i)"
| "answers_ask (AuditOfMessage i) r \<longleftrightarrow> holds_at r ''message'' (VId i)"
| "answers_ask (AuditOfArtifact t s) r \<longleftrightarrow> holds_at r ''artifact_name'' (VText t) \<and> within r ''occurred_at'' s"
| "answers_ask (AuditFailed s) r \<longleftrightarrow> holds_at r ''failed'' (VFlag True) \<and> within r ''occurred_at'' s"
| "answers_ask (AuditOfStream i) r \<longleftrightarrow> holds_at r ''stream'' (VId i)"
| "answers_ask (AuditChain t n) r \<longleftrightarrow> holds_at r ''writer'' (VText t) \<and> within r ''position'' \<lparr>ts_from = n, ts_to = - 1\<rparr>"
| "answers_ask (AdministrationUpdated k s) r \<longleftrightarrow> holds_at r ''kind'' (VText (word_of_kind k)) \<and> within r ''updated_at'' s"

primrec ordered_by :: "ask \<Rightarrow> string option" where
  "ordered_by (MessagesInState t s) = Some ''updated_at''"
| "ordered_by (MessagesAtSendPort t t') = None"
| "ordered_by (JourneysAfter i) = None"
| "ordered_by (JourneysHolding i) = None"
| "ordered_by (MessagesCreated s) = Some ''created_at''"
| "ordered_by (MessagesFromParty t s) = Some ''created_at''"
| "ordered_by (MessagesOfContract t s) = Some ''created_at''"
| "ordered_by (MessagesAfter i) = None"
| "ordered_by (HeldIn i s) = Some ''held_at''"
| "ordered_by (DeadMessages i s) = Some ''queued_at''"
| "ordered_by (AuditOccurred s) = Some ''occurred_at''"
| "ordered_by (AuditOfJourney i) = None"
| "ordered_by (AuditOfMessage i) = None"
| "ordered_by (AuditOfArtifact t s) = Some ''occurred_at''"
| "ordered_by (AuditFailed s) = Some ''occurred_at''"
| "ordered_by (AuditOfStream i) = None"
| "ordered_by (AuditChain t n) = Some ''position''"
| "ordered_by (AdministrationUpdated k s) = Some ''updated_at''"

definition order_of :: "ask \<Rightarrow> row \<Rightarrow> u64" where
  "order_of a r = (case ordered_by a of None \<Rightarrow> 0 | Some n \<Rightarrow> (case number_at r n of None \<Rightarrow> 0 | Some t \<Rightarrow> t))"

text \<open>The records of a database that answer, each by what they are in the order of and its identifier.\<close>

definition answers_in :: "codec \<Rightarrow> secret_rules \<Rightarrow> ask \<Rightarrow> ledger \<Rightarrow> (u64 \<times> u128) set" where
  "answers_in c x a L = {(order_of a r, rid) | r rid. \<exists>kind key s b. searched_of (fst (ask_index a)) kind = Some s \<and>
     table_word s = fst (snd (ask_index a)) \<and> L kind key = Some b \<and> row_in c x s b = Inr (r, rid) \<and> answers_ask a r}"

section \<open>A plan fits its index\<close>

definition of_column :: "table \<Rightarrow> string \<Rightarrow> col_val \<Rightarrow> bool" where
  "of_column t n v \<longleftrightarrow> (\<exists>co \<in> set (ta_columns t). co_name co = n \<and> of_kind (co_kind co) v)"

definition is_number :: "table \<Rightarrow> string \<Rightarrow> bool" where
  "is_number t n \<longleftrightarrow> (\<exists>co \<in> set (ta_columns t). co_name co = n \<and> co_kind co \<in> {KTime, KNumber})"

definition fits_index :: "ask \<Rightarrow> table \<Rightarrow> index \<Rightarrow> bool" where
  "fits_index a t ix \<longleftrightarrow> (let (equal, limits) = ask_values a; ns = ix_columns ix in
     length ns = length equal + (if limits = None then 0 else 1) \<and>
     list_all2 (of_column t) (take (length equal) ns) equal \<and> (limits \<noteq> None \<longrightarrow> is_number t (last ns)) \<and>
     (\<forall>flag. ix_only ix = Some flag \<longrightarrow> (flag, VFlag True) \<in> set (zip ns equal)))"

lemma asked_tables:
  "table_of Administration ''administration'' = Some administration_table"
  "table_of Runtime ''dead_message'' = Some dead_message_table"
  "table_of Runtime ''held'' = Some held_table"
  "table_of Runtime ''journey'' = Some journey_table"
  "table_of Runtime ''message'' = Some message_table"
  "table_of database.Audit ''audit'' = Some kept_audit_table"
  "table_of database.Audit ''audit_stream'' = Some audit_stream_table"
  "table_of Runtime ''failed_message'' = Some failed_message_table"
  "table_of Administration ''secret'' = Some secret_table"
  by (simp_all add: table_of_def tables_def versions_name_def)

lemma asked_indexes:
  "index_named journey_table ''journey_state'' = Some (index_of_columns 1 ''journey_state'' [''state'', ''updated_at''])"
  "index_named journey_table ''journey_send_port'' = Some (index_of_columns 2 ''journey_send_port'' [''send_port'', ''state''])"
  "index_named journey_table ''journey_previous'' = Some (index_of_columns 3 ''journey_previous'' [''previous_journey''])"
  "index_named journey_table ''journey_message'' = Some (index_of_columns 4 ''journey_message'' [''message''])"
  "index_named message_table ''message_created'' = Some (index_of_columns 5 ''message_created'' [''created_at''])"
  "index_named message_table ''message_party'' = Some (index_of_columns 6 ''message_party'' [''party'', ''created_at''])"
  "index_named message_table ''message_contract'' = Some (index_of_columns 7 ''message_contract'' [''contract'', ''created_at''])"
  "index_named message_table ''message_previous'' = Some (index_of_columns 8 ''message_previous'' [''previous_message''])"
  "index_named held_table ''held_time'' = Some (index_of_columns 9 ''held_time'' [''queue'', ''held_at''])"
  "index_named dead_message_table ''dead_message_time'' = Some (index_of_columns 10 ''dead_message_time'' [''queue'', ''queued_at''])"
  "index_named kept_audit_table ''audit_occurred'' = Some (index_of_columns 11 ''audit_occurred'' [''occurred_at''])"
  "index_named kept_audit_table ''audit_journey'' = Some (index_of_columns 12 ''audit_journey'' [''journey''])"
  "index_named kept_audit_table ''audit_message'' = Some (index_of_columns 13 ''audit_message'' [''message''])"
  "index_named kept_audit_table ''audit_artifact'' = Some (index_of_columns 14 ''audit_artifact'' [''artifact_name'', ''occurred_at''])"
  "index_named kept_audit_table ''audit_failed'' = Some ((index_of_columns 15 ''audit_failed'' [''failed'', ''occurred_at''])\<lparr>ix_only := Some ''failed''\<rparr>)"
  "index_named audit_stream_table ''audit_stream_stream'' = Some (index_of_columns 18 ''audit_stream_stream'' [''stream''])"
  "index_named kept_audit_table ''audit_chain'' = Some (index_of_columns 19 ''audit_chain'' [''writer'', ''position''])"
  "index_named administration_table ''administration_updated'' = Some (index_of_columns 16 ''administration_updated'' [''kind'', ''updated_at''])"
  by (simp_all add: index_named_def journey_indexes_def message_indexes_def held_indexes_def dead_message_indexes_def
      audit_indexes_def audit_stream_indexes_def administration_indexes_def index_of_columns_def)

lemma asked_columns:
  "ta_columns journey_table = journey_columns"
  "ta_columns message_table = message_columns"
  "ta_columns held_table = held_columns"
  "ta_columns dead_message_table = dead_message_columns"
  "ta_columns kept_audit_table = audit_columns"
  "ta_columns audit_stream_table = audit_stream_columns"
  "ta_columns administration_table = administration_columns"
  by (simp_all add: journey_table_def message_table_def held_table_def dead_message_table_def kept_audit_table_def audit_stream_table_def administration_table_def)

lemmas asked_names = asked_tables asked_indexes index_of_columns_def

lemma plan_fits:
  "\<exists>t ix. table_of (fst (ask_index a)) (fst (snd (ask_index a))) = Some t \<and> index_named t (snd (snd (ask_index a))) = Some ix \<and>
    fits_index a t ix \<and> (\<forall>n. ordered_by a = Some n \<longrightarrow> n = last (ix_columns ix)) \<and> (ordered_by a = None \<longleftrightarrow> snd (ask_values a) = None)"
  by (cases a) (simp_all add: asked_names fits_index_def of_column_def is_number_def asked_columns journey_columns_def
      message_columns_def held_columns_def dead_message_columns_def audit_columns_def audit_stream_columns_def
      administration_columns_def column_def maybe_def)

text \<open>A row answers where it holds each value its question asks to equal, and a number in its span.\<close>

lemma answers_are:
  assumes "table_of (fst (ask_index a)) (fst (snd (ask_index a))) = Some t" and "index_named t (snd (snd (ask_index a))) = Some ix"
  shows "answers_ask a r \<longleftrightarrow> list_all2 (holds_at r) (take (length (fst (ask_values a))) (ix_columns ix)) (fst (ask_values a)) \<and>
    (\<forall>s. snd (ask_values a) = Some s \<longrightarrow> within r (last (ix_columns ix)) s)"
  using assms by (cases a) (auto simp: asked_names)

section \<open>An entry's key holds its row's values\<close>

text \<open>A text or bytes as short as its count can say; two values of one kind are told apart by their bytes, whatever follows.\<close>

fun short_value :: "col_val \<Rightarrow> bool" where
  "short_value (VText t) \<longleftrightarrow> length t < 2 ^ 32 - 1"
| "short_value (VBytes bs) \<longleftrightarrow> length bs < 2 ^ 32 - 1"
| "short_value _ \<longleftrightarrow> True"

lemma saturated_eq: "length bs < 2 ^ 32 - 1 \<Longrightarrow> saturated_u32 n = saturated_u32 (length bs) \<longleftrightarrow> n = length bs"
proof -
  assume short: "length bs < 2 ^ 32 - 1"
  have unat: "unat (saturated_u32 m) = min m (2 ^ 32 - 1)" for m
    by (auto simp: saturated_u32_def unat_of_nat take_bit_nat_eq_self unsigned_minus_1_eq_mask mask_eq_exp_minus_1)
  show ?thesis unfolding word_unat_eq_iff unat using short by (auto simp: min_def)
qed

lemma counted_free:
  assumes "length bs < 2 ^ 32 - 1"
  shows "counted_words as @ x = counted_words bs @ y \<longleftrightarrow> as = bs \<and> x = y"
  using saturated_eq [OF assms, of "length as"] by (auto simp: counted_words_def)

lemma words_inject: "as_bytes s = as_bytes t \<longleftrightarrow> s = t"
  by (metis of_text_as_bytes)

lemma length_as_bytes [simp]: "length (as_bytes t) = length t"
  by (simp add: as_bytes_def)

lemma encoded_free:
  assumes "of_kind k v" and "of_kind k w" and "short_value w"
  shows "encoded v @ x = encoded w @ y \<longleftrightarrow> v = w \<and> x = y"
  using assms counted_free
  by (cases v; cases w; cases k) (auto simp: words_inject split: if_splits)

definition typed_row :: "table \<Rightarrow> row \<Rightarrow> bool" where
  "typed_row t r \<longleftrightarrow> distinct (map co_name (ta_columns t)) \<and> (\<forall>n v. value_in r n = Some v \<longrightarrow> of_column t n v)"

lemma one_kind:
  assumes "distinct (map co_name (ta_columns t))" and "of_column t n v" and "of_column t n w"
  shows "\<exists>k. of_kind k v \<and> of_kind k w"
proof -
  obtain a b where "a \<in> set (ta_columns t)" "b \<in> set (ta_columns t)" "co_name a = co_name b" "of_kind (co_kind a) v" "of_kind (co_kind b) w"
    using assms(2,3) unfolding of_column_def by auto
  moreover have "a = b" using calculation(1-3) assms(1) by (auto simp: distinct_map inj_on_def)
  ultimately show ?thesis by blast
qed

lemma columns_free:
  assumes "typed_row t r" and "list_all2 (of_column t) ns ws" and "list_all short_value ws"
  shows "(\<exists>k. columns_key r (ns @ ms) = Some k \<and> k @ s = concat (map encoded ws) @ z) \<longleftrightarrow>
    list_all2 (holds_at r) ns ws \<and> (\<exists>k. columns_key r ms = Some k \<and> k @ s = z)"
  using assms(2,3)
proof (induction rule: list_all2_induct)
  case Nil
  then show ?case by simp
next
  case (Cons n ns w ws)
  show ?case
  proof (cases "value_in r n")
    case None
    then show ?thesis by (simp add: holds_at_def)
  next
    case (Some v)
    then have "of_column t n v" using assms(1) by (simp add: typed_row_def)
    then obtain k where "of_kind k v" "of_kind k w" using one_kind Cons.hyps(1) assms(1) unfolding typed_row_def by blast
    then have free: "encoded v @ x = encoded w @ y \<longleftrightarrow> v = w \<and> x = y" for x y using encoded_free Cons.prems by simp
    show ?thesis using Some Cons.IH Cons.prems free free [of "[]" "[]"] by (auto simp: holds_at_def)
  qed
qed

text \<open>What follows an index's columns that equal is the number it is in the order of, where it has one, and the identifier.\<close>

definition after_equal :: "bool \<Rightarrow> u64 \<times> u128 \<Rightarrow> key" where
  "after_equal numbered e = (if numbered then be64 (fst e) else []) @ be128 (snd e)"

lemma number_encoded:
  assumes "typed_row t r" and "is_number t n" and "value_in r n = Some v"
  shows "\<exists>q. number_at r n = Some q \<and> encoded v = be64 q"
proof -
  have typed: "of_column t n v" "distinct (map co_name (ta_columns t))" using assms(1,3) by (auto simp: typed_row_def)
  obtain co where co: "co \<in> set (ta_columns t)" "co_name co = n" "co_kind co \<in> {KTime, KNumber}"
    using assms(2) by (auto simp: is_number_def)
  obtain co' where "co' \<in> set (ta_columns t)" "co_name co' = n" "of_kind (co_kind co') v" using typed(1) by (auto simp: of_column_def)
  moreover have "co' = co" using typed(2) co(1,2) calculation(1,2) by (auto simp: distinct_map inj_on_def)
  ultimately show ?thesis using co(3) assms(3) by (cases v) (auto simp: number_at_def)
qed

lemma take_and_last: "length xs = Suc n \<Longrightarrow> xs = take n xs @ [last xs]"
  by (cases xs rule: rev_cases) simp_all

lemma entry_answers:
  assumes typed: "typed_row t r" and fits: "fits_index a t ix" and short: "list_all short_value (fst (ask_values a))"
    and order: "\<forall>n. ordered_by a = Some n \<longrightarrow> n = last (ix_columns ix)" "ordered_by a = None \<longleftrightarrow> snd (ask_values a) = None"
  shows "index_entry_key ix r rid = Some (ix_number ix # concat (map encoded (fst (ask_values a))) @ z) \<longleftrightarrow>
    list_all2 (holds_at r) (take (length (fst (ask_values a))) (ix_columns ix)) (fst (ask_values a)) \<and>
    (snd (ask_values a) \<noteq> None \<longrightarrow> number_at r (last (ix_columns ix)) \<noteq> None) \<and>
    z = after_equal (snd (ask_values a) \<noteq> None) (order_of a r, rid)"
proof -
  obtain equal limits where v: "ask_values a = (equal, limits)" by (cases "ask_values a")
  let ?ns = "take (length equal) (ix_columns ix)" and ?ms = "drop (length equal) (ix_columns ix)"
  have fit: "length (ix_columns ix) = length equal + (if limits = None then 0 else 1)" "list_all2 (of_column t) ?ns equal"
      "limits \<noteq> None \<Longrightarrow> is_number t (last (ix_columns ix))" "\<forall>flag. ix_only ix = Some flag \<longrightarrow> (flag, VFlag True) \<in> set (zip (ix_columns ix) equal)"
    using fits by (simp_all add: fits_index_def v Let_def)
  have only: "value_in r flag = Some (VFlag True)" if "ix_only ix = Some flag" "list_all2 (holds_at r) ?ns equal" for flag
  proof -
    have "(flag, VFlag True) \<in> set (zip ?ns equal)" using fit(4) that(1) take_zip [of "length equal" "ix_columns ix" equal] by simp
    then show ?thesis using that(2) by (auto simp: list_all2_iff holds_at_def)
  qed
  have key: "(\<exists>k. columns_key r (ix_columns ix) = Some k \<and> k @ be128 rid = concat (map encoded equal) @ z) \<longleftrightarrow>
      list_all2 (holds_at r) ?ns equal \<and> (limits \<noteq> None \<longrightarrow> number_at r (last (ix_columns ix)) \<noteq> None) \<and>
      z = after_equal (limits \<noteq> None) (order_of a r, rid)"
  proof (cases limits)
    case None
    then have "ix_columns ix = ?ns @ []" using fit(1) by simp
    then show ?thesis using columns_free [OF typed fit(2), of "[]" "be128 rid" z] short None by (simp add: v after_equal_def) blast
  next
    case (Some s)
    let ?n = "last (ix_columns ix)"
    have ms: "ix_columns ix = ?ns @ [?n]" using fit(1) Some take_and_last [of "ix_columns ix" "length equal"] by simp
    have named: "ordered_by a = Some ?n" using order Some v by (cases "ordered_by a") auto
    have last: "(\<exists>k. columns_key r [?n] = Some k \<and> k @ be128 rid = z) \<longleftrightarrow>
        number_at r ?n \<noteq> None \<and> z = after_equal True (order_of a r, rid)"
    proof (cases "value_in r ?n")
      case None
      then show ?thesis by (simp add: number_at_def)
    next
      case (Some v)
      then obtain q where "number_at r ?n = Some q" "encoded v = be64 q" using number_encoded [OF typed fit(3)] \<open>limits = Some s\<close> by blast
      then show ?thesis using Some named by (auto simp: after_equal_def order_of_def)
    qed
    show ?thesis using columns_free [OF typed fit(2), of "[?n]" "be128 rid" z] short Some ms last by (simp add: v)
  qed
  have keys: "map_option (\<lambda>k. ix_number ix # k @ be128 rid) m = Some (ix_number ix # w) \<longleftrightarrow> (\<exists>k. m = Some k \<and> k @ be128 rid = w)" for m w
    by (cases m) auto
  show ?thesis
  proof (cases "ix_only ix")
    case None
    then show ?thesis using key by (simp add: v index_entry_key_def keys)
  next
    case (Some flag)
    then show ?thesis using key only by (auto simp: v index_entry_key_def keys)
  qed
qed

section \<open>A row is its table's\<close>

lemma row_of_table_value:
  assumes "row_of_table cols out r" and "value_in r n = Some v"
  shows "\<exists>co \<in> set cols. co_name co = n \<and> of_kind (co_kind co) v"
proof -
  let ?p = "\<lambda>co nv. fst nv = co_name co \<and> may_hold co (snd nv)" and ?cols = "filter (\<lambda>co. co_name co \<notin> set out) cols"
  obtain nv where "find (\<lambda>(n', _). n' = n) r = Some nv" "snd nv = Some v"
    using assms(2) unfolding value_in_def by (auto split: option.splits)
  then obtain m where m: "m < length r" "fst (r ! m) = n" "snd (r ! m) = Some v" by (auto simp: find_Some_iff split_beta)
  have all: "list_all2 ?p ?cols r" using assms(1) by (simp add: row_of_table_def)
  have "?p (?cols ! m) (r ! m)" "m < length ?cols" using list_all2_nthD2 [OF all m(1)] list_all2_lengthD [OF all] m(1) by simp_all
  moreover have "?cols ! m \<in> set cols" using nth_mem [OF calculation(2)] by simp
  ultimately show ?thesis using m(2,3) by (intro bexI [of _ "?cols ! m"]) (simp_all add: may_hold_def)
qed

lemma typed_row_of: "row_of_table (ta_columns t) out r \<Longrightarrow> distinct (map co_name (ta_columns t)) \<Longrightarrow> typed_row t r"
  unfolding typed_row_def of_column_def using row_of_table_value by blast

definition table_for :: "searched \<Rightarrow> table" where
  "table_for s = (case s of SJourney \<Rightarrow> journey_table | SMessage \<Rightarrow> message_table | SHeld \<Rightarrow> held_table | SDead \<Rightarrow> dead_message_table
   | SFailed \<Rightarrow> failed_message_table | SAudit \<Rightarrow> kept_audit_table | SAuditStream \<Rightarrow> audit_stream_table
   | SAdministration \<Rightarrow> administration_table | SSecret \<Rightarrow> secret_table)"

lemma table_for_in: "table_for s \<in> set tables"
  by (cases s) (simp_all add: table_for_def tables_def)

lemma table_for_is: "searched_of d kind = Some s \<Longrightarrow> table_of d (table_word s) = Some (table_for s)"
  by (cases d) (auto simp: table_for_def asked_tables split: if_splits)

lemma table_for_row: "row_in c x s b = Inr (r, rid) \<Longrightarrow> typed_row (table_for s) r"
proof -
  have "distinct (map co_name (ta_columns (table_for s)))"
    using table_for_in [of s] tables_well by (auto simp: list_all_iff table_well_def Let_def)
  moreover assume "row_in c x s b = Inr (r, rid)"
  then have "\<exists>out. row_of_table (ta_columns (table_for s)) out r"
    by (cases s) (auto simp: row_as_def bindr_eq_Inr table_for_def asked_columns failed_message_table_def secret_table_def intro: rows_typed)
  ultimately show ?thesis using typed_row_of by blast
qed

section \<open>The index holds the answers\<close>

text \<open>A table's entries are filed under its own indexes' numbers, and no other's.\<close>

lemma distinct_concat_apart:
  "distinct (concat xss) \<Longrightarrow> i < length xss \<Longrightarrow> j < length xss \<Longrightarrow> i \<noteq> j \<Longrightarrow> set (xss ! i) \<inter> set (xss ! j) = {}"
proof (induction xss arbitrary: i j)
  case (Cons xs xss)
  have apart: "set xs \<inter> set (xss ! m) = {}" if "m < length xss" for m using Cons.prems(1) that by (auto dest: nth_mem)
  show ?case using Cons apart by (cases i; cases j) auto
qed simp

lemma index_its_own:
  assumes "t \<in> set tables" and "t' \<in> set tables" and "ix \<in> set (ta_indexes t)" and "ix' \<in> set (ta_indexes t')"
    and "ix_number ix = ix_number ix'"
  shows "t = t' \<and> ix = ix'"
proof -
  let ?ns = "map (\<lambda>t. map ix_number (ta_indexes t)) tables"
  obtain i j where ij: "i < length tables" "t = tables ! i" "j < length tables" "t' = tables ! j"
    using assms(1,2) by (auto simp: in_set_conv_nth)
  have parts: "distinct (concat ?ns)" using numbers_distinct by (simp add: index_numbers_def)
  have here: "ix_number ix \<in> set (?ns ! i)" using assms(3) ij by simp
  have there: "ix_number ix \<in> set (?ns ! j)" unfolding assms(5) using assms(4) ij by simp
  have "i = j"
  proof (rule ccontr)
    assume "i \<noteq> j"
    then have "set (?ns ! i) \<inter> set (?ns ! j) = {}" using distinct_concat_apart [OF parts] ij(1,3) by simp
    then show False using here there by blast
  qed
  moreover have "distinct (map ix_number (ta_indexes t))" using parts assms(1) by (auto simp: distinct_concat_iff)
  ultimately show ?thesis using assms(3-5) ij by (auto simp: distinct_map inj_on_def)
qed

text \<open>The records of the asked table in a database that hold what a question asks to equal, and are in its order.\<close>

definition equal_rows :: "codec \<Rightarrow> secret_rules \<Rightarrow> ask \<Rightarrow> index \<Rightarrow> ledger \<Rightarrow> (row \<times> u128) set" where
  "equal_rows c x a ix L = {(r, rid). (\<exists>kind key s b. searched_of (fst (ask_index a)) kind = Some s \<and>
     table_word s = fst (snd (ask_index a)) \<and> L kind key = Some b \<and> row_in c x s b = Inr (r, rid)) \<and>
     list_all2 (holds_at r) (take (length (fst (ask_values a))) (ix_columns ix)) (fst (ask_values a)) \<and>
     (snd (ask_values a) \<noteq> None \<longrightarrow> number_at r (last (ix_columns ix)) \<noteq> None)}"

definition index_key_prefix :: "ask \<Rightarrow> index \<Rightarrow> key" where
  "index_key_prefix a ix = ix_number ix # concat (map encoded (fst (ask_values a)))"

lemma place_entries_are:
  "(k, rid) \<in> place_entries c x d L kind key \<longleftrightarrow> (\<exists>s b r i. searched_of d kind = Some s \<and> L kind key = Some b \<and>
     row_in c x s b = Inr (r, rid) \<and> i \<in> set (ta_indexes (table_for s)) \<and> index_entry_key i r rid = Some k)"
proof (cases "searched_of d kind")
  case None
  then show ?thesis by (simp add: place_entries_def bytes_entries_def)
next
  case (Some s)
  have "row_entries d (table_word s) r i = Inr (List.map_filter (\<lambda>ix. index_entry_key ix r i) (ta_indexes (table_for s)))" for r i
    using table_for_is [OF Some] by (simp add: row_entries_def)
  then show ?thesis using Some
    by (cases "L kind key"; cases "row_in c x s (the (L kind key))")
      (auto simp: place_entries_def bytes_entries_def map_filter_def image_iff split: prod.splits)
qed

lemma asked_number: "index_entry_key i r rid = Some (n # k) \<Longrightarrow> ix_number i = n"
  by (auto simp: index_entry_key_def split: option.splits if_splits)

lemma index_holds:
  assumes exact: "index_exact c x (fst (ask_index a)) L X" and short: "list_all short_value (fst (ask_values a))"
    and t: "table_of (fst (ask_index a)) (fst (snd (ask_index a))) = Some t" and ix: "index_named t (snd (snd (ask_index a))) = Some ix"
  shows "X (index_key_prefix a ix @ z) = Some rid \<longleftrightarrow>
    (\<exists>r. (r, rid) \<in> equal_rows c x a ix L \<and> z = after_equal (snd (ask_values a) \<noteq> None) (order_of a r, rid))"
proof -
  have fits: "fits_index a t ix" "\<forall>n. ordered_by a = Some n \<longrightarrow> n = last (ix_columns ix)" "ordered_by a = None \<longleftrightarrow> snd (ask_values a) = None"
    using plan_fits [of a] t ix by auto
  have at: "t \<in> set tables" "ix \<in> set (ta_indexes t)"
    using t ix by (auto simp: table_of_def index_named_def find_Some_iff)
  have own: "(index_key_prefix a ix @ z, rid) \<in> place_entries c x (fst (ask_index a)) L kind key \<longleftrightarrow>
      (\<exists>s b r. searched_of (fst (ask_index a)) kind = Some s \<and> table_word s = fst (snd (ask_index a)) \<and> L kind key = Some b \<and>
        row_in c x s b = Inr (r, rid) \<and> index_entry_key ix r rid = Some (index_key_prefix a ix @ z))" (is "?in \<longleftrightarrow> ?there") for kind key
  proof
    assume ?in
    then obtain s b r i where i: "searched_of (fst (ask_index a)) kind = Some s" "L kind key = Some b" "row_in c x s b = Inr (r, rid)"
        "i \<in> set (ta_indexes (table_for s))" "index_entry_key i r rid = Some (index_key_prefix a ix @ z)"
      unfolding place_entries_are by blast
    have "ix_number i = ix_number ix" using asked_number i(5) by (auto simp: index_key_prefix_def)
    then have same: "table_for s = t" "i = ix" using index_its_own [OF table_for_in at(1) i(4) at(2)] by auto
    have "table_of (fst (ask_index a)) (table_word s) = Some t" using table_for_is [OF i(1)] same by simp
    then have "table_word s = fst (snd (ask_index a))" using t by (auto simp: table_of_def find_Some_iff)
    then show ?there using i same by blast
  next
    assume ?there
    then obtain s b r where s: "searched_of (fst (ask_index a)) kind = Some s" "table_word s = fst (snd (ask_index a))" "L kind key = Some b"
        "row_in c x s b = Inr (r, rid)" "index_entry_key ix r rid = Some (index_key_prefix a ix @ z)" by blast
    moreover have "table_for s = t" using table_for_is [OF s(1)] t s(2) by simp
    ultimately show ?in unfolding place_entries_are using at(2) by blast
  qed
  have key: "index_entry_key ix r rid = Some (index_key_prefix a ix @ z) \<longleftrightarrow>
      list_all2 (holds_at r) (take (length (fst (ask_values a))) (ix_columns ix)) (fst (ask_values a)) \<and>
      (snd (ask_values a) \<noteq> None \<longrightarrow> number_at r (last (ix_columns ix)) \<noteq> None) \<and>
      z = after_equal (snd (ask_values a) \<noteq> None) (order_of a r, rid)"
    if "row_in c x s b = Inr (r, rid)" "searched_of (fst (ask_index a)) kind = Some s" "table_word s = fst (snd (ask_index a))" for s b r kind
  proof -
    have "typed_row t r" using table_for_row [OF that(1)] table_for_is [OF that(2)] t that(3) by simp
    from entry_answers [OF this fits(1) short fits(2,3), of rid z] show ?thesis by (simp add: index_key_prefix_def)
  qed
  have "X (index_key_prefix a ix @ z) = Some rid \<longleftrightarrow>
      (\<exists>kind key. (index_key_prefix a ix @ z, rid) \<in> place_entries c x (fst (ask_index a)) L kind key)"
    using exact by (simp add: index_exact_def)
  also have "\<dots> \<longleftrightarrow> (\<exists>r. (r, rid) \<in> equal_rows c x a ix L \<and> z = after_equal (snd (ask_values a) \<noteq> None) (order_of a r, rid))"
    unfolding own equal_rows_def using key by blast
  finally show ?thesis .
qed

section \<open>A search finds them in order\<close>

lemma between_image:
  fixes f :: "u64 \<times> u128 \<Rightarrow> key"
  assumes "finite (dom X)" and keys: "{k \<in> dom X. lo \<le> k \<and> k \<le> hi} = f ` A"
    and order: "\<And>e e'. e \<in> A \<Longrightarrow> e' \<in> A \<Longrightarrow> f e \<le> f e' \<longleftrightarrow> e \<le> e'" and found: "\<And>e. e \<in> A \<Longrightarrow> X (f e) = Some (snd e)"
  shows "map snd (between X lo hi n reversed) = map snd (take n ((if reversed then rev else id) (sorted_list_of_set A)))"
proof -
  have "inj_on f A" using order by (intro inj_onI) (metis order_eq_iff)
  moreover have "finite (f ` A)" unfolding keys [symmetric] using assms(1) by simp
  ultimately have fin: "finite A" using finite_image_iff by blast
  have "sorted_list_of_set (f ` A) = map f (sorted_list_of_set A)" by (rule sorted_image [OF fin order])
  then have "map (\<lambda>k. the (X k)) (sorted_list_of_set (f ` A)) = map snd (sorted_list_of_set A)"
    using found fin by (simp add: comp_def)
  then show ?thesis unfolding between_def keys by (simp add: take_map [symmetric] rev_map [symmetric] comp_def)
qed

lemma be128_le: "be128 i \<le> be128 j \<longleftrightarrow> i \<le> j"
proof -
  have "unat i < 256 ^ 16" "unat j < 256 ^ 16" using unsigned_less [of i] unsigned_less [of j] by simp_all
  then have "be128 i < be128 j \<longleftrightarrow> i < j" by (simp add: be128_def be_less word_less_nat_alt)
  then show ?thesis unfolding le_less using be_words_inject(3) by blast
qed

lemma after_equal_le:
  assumes "numbered \<or> fst e = fst e'"
  shows "after_equal numbered e \<le> after_equal numbered e' \<longleftrightarrow> e \<le> e'"
proof (cases numbered)
  case True
  then show ?thesis by (cases e; cases e') (simp add: after_equal_def be64_append_le be128_le less_eq_prod_def, use le_less in blast)
next
  case False
  then show ?thesis using assms by (cases e; cases e') (simp add: after_equal_def be128_le less_eq_prod_def)
qed

lemma answers_in_are:
  assumes "table_of (fst (ask_index a)) (fst (snd (ask_index a))) = Some t" and "index_named t (snd (snd (ask_index a))) = Some ix"
  shows "answers_in c x a L = {(order_of a r, rid) | r rid. (r, rid) \<in> equal_rows c x a ix L \<and>
    (\<forall>s. snd (ask_values a) = Some s \<longrightarrow> ts_from s \<le> order_of a r \<and> order_of a r \<le> ts_to s)}"
proof -
  have order: "\<forall>n. ordered_by a = Some n \<longrightarrow> n = last (ix_columns ix)" "ordered_by a = None \<longleftrightarrow> snd (ask_values a) = None"
    using plan_fits [of a] assms by auto
  have "within r (last (ix_columns ix)) s \<longleftrightarrow> number_at r (last (ix_columns ix)) \<noteq> None \<and> ts_from s \<le> order_of a r \<and> order_of a r \<le> ts_to s"
    if s: "snd (ask_values a) = Some s" for r s
  proof -
    have "ordered_by a = Some (last (ix_columns ix))" using order s by (cases "ordered_by a") auto
    then show ?thesis by (auto simp: within_def order_of_def)
  qed
  then show ?thesis unfolding answers_in_def equal_rows_def answers_are [OF assms] by (cases "snd (ask_values a)") (simp_all, blast+)
qed

lemma range_numbered:
  assumes holds: "\<And>z rid. X (P @ z) = Some rid \<longleftrightarrow> (\<exists>q. (q, rid) \<in> E \<and> z = after_equal True (q, rid))"
  shows "{k \<in> dom X. P @ be64 lo \<le> k \<and> k \<le> P @ be64 hi @ replicate 17 0xFF} =
    (\<lambda>e. P @ after_equal True e) ` {e \<in> E. lo \<le> fst e \<and> fst e \<le> hi}"
proof (intro equalityI subsetI)
  fix k assume "k \<in> {k \<in> dom X. P @ be64 lo \<le> k \<and> k \<le> P @ be64 hi @ replicate 17 0xFF}"
  then obtain rid where k: "X k = Some rid" "P @ be64 lo \<le> k" "k \<le> P @ be64 hi @ replicate 17 0xFF" by auto
  obtain z where z: "k = P @ z" "be64 lo \<le> z" "z \<le> be64 hi @ replicate 17 0xFF" by (rule between_append [OF k(2,3)])
  then obtain q where q: "(q, rid) \<in> E" "z = after_equal True (q, rid)" using holds k(1) by blast
  have "lo \<le> q" using z(2) be64_append_le [of lo "[]" q "be128 rid"] unfolding q(2) by (auto simp: after_equal_def)
  moreover have "q \<le> hi" using z(3) be64_append_le [of q "be128 rid" hi "replicate 17 0xFF"] unfolding q(2) by (auto simp: after_equal_def)
  ultimately show "k \<in> (\<lambda>e. P @ after_equal True e) ` {e \<in> E. lo \<le> fst e \<and> fst e \<le> hi}" using q z(1) by (intro image_eqI [of _ _ "(q, rid)"]) simp_all
next
  fix k assume "k \<in> (\<lambda>e. P @ after_equal True e) ` {e \<in> E. lo \<le> fst e \<and> fst e \<le> hi}"
  then obtain q rid where k: "k = P @ after_equal True (q, rid)" "(q, rid) \<in> E" "lo \<le> q" "q \<le> hi" by auto
  have ones: "be128 rid \<le> replicate 17 0xFF" by (rule le_all_ones) simp
  have "be64 lo @ [] \<le> be64 q @ be128 rid" unfolding be64_append_le using k(3) by (simp add: le_less [of lo q] disj_commute)
  moreover have "be64 q @ be128 rid \<le> be64 hi @ replicate 17 0xFF"
    unfolding be64_append_le using k(4) ones by (auto simp: le_less [of q hi])
  moreover have "X k = Some rid" using holds [of "after_equal True (q, rid)" rid] k(1,2) by blast
  ultimately show "k \<in> {k \<in> dom X. P @ be64 lo \<le> k \<and> k \<le> P @ be64 hi @ replicate 17 0xFF}"
    using k(1) by (auto simp: after_equal_def simp del: append_assoc)
qed

lemma range_plain:
  assumes holds: "\<And>z rid. X (P @ z) = Some rid \<longleftrightarrow> (\<exists>q. (q, rid) \<in> E \<and> z = after_equal False (q, rid))"
  shows "{k \<in> dom X. P \<le> k \<and> k \<le> P @ replicate 64 0xFF} = (\<lambda>e. P @ after_equal False e) ` E"
proof (intro equalityI subsetI)
  fix k assume "k \<in> {k \<in> dom X. P \<le> k \<and> k \<le> P @ replicate 64 0xFF}"
  then obtain rid where k: "X k = Some rid" "P @ [] \<le> k" "k \<le> P @ replicate 64 0xFF" by auto
  obtain z where z: "k = P @ z" by (rule between_append [OF k(2,3)])
  then obtain q where "(q, rid) \<in> E" "z = after_equal False (q, rid)" using holds k(1) by blast
  then show "k \<in> (\<lambda>e. P @ after_equal False e) ` E" using z by blast
next
  fix k assume "k \<in> (\<lambda>e. P @ after_equal False e) ` E"
  then obtain q rid where k: "k = P @ after_equal False (q, rid)" "(q, rid) \<in> E" by auto
  have "be128 rid \<le> replicate 64 0xFF" by (rule le_all_ones) simp
  moreover have "X k = Some rid" using holds [of "after_equal False (q, rid)" rid] k by blast
  moreover have "P @ [] \<le> P @ be128 rid" unfolding append_le_append by simp
  ultimately show "k \<in> {k \<in> dom X. P \<le> k \<and> k \<le> P @ replicate 64 0xFF}" using k(1) by (auto simp: after_equal_def)
qed

lemma search_finds:
  assumes "index_exact c x (fst (ask_index (qu_ask q))) L X" and "finite (dom X)" and "list_all short_value (fst (ask_values (qu_ask q)))"
    and scan: "scans (fst (ask_index (qu_ask q))) = (\<lambda>lo hi n b. Inr (between X lo hi n b))"
  shows "searched_query scans q = Inr (map snd (take (unat (qu_most q)) ((if qu_newest_first q then rev else id)
    (sorted_list_of_set (answers_in c x (qu_ask q) L)))))"
proof -
  let ?a = "qu_ask q" and ?rv = "qu_newest_first q"
  obtain t ix where at: "table_of (fst (ask_index ?a)) (fst (snd (ask_index ?a))) = Some t" "index_named t (snd (snd (ask_index ?a))) = Some ix"
      "fits_index ?a t ix" "ordered_by ?a = None \<longleftrightarrow> snd (ask_values ?a) = None"
    using plan_fits [of ?a] by (elim exE conjE) (rule that)
  define P where "P = index_key_prefix ?a ix"
  define E where "E = {(order_of ?a r, rid) | r rid. (r, rid) \<in> equal_rows c x ?a ix L}"
  have holds: "X (P @ z) = Some rid \<longleftrightarrow> (\<exists>p. (p, rid) \<in> E \<and> z = after_equal (snd (ask_values ?a) \<noteq> None) (p, rid))" for z rid
    unfolding P_def E_def index_holds [OF assms(1,3) at(1,2)] by auto
  have prefix: "index_prefix (fst (ask_index ?a)) (fst (snd (ask_index ?a)), snd (snd (ask_index ?a))) (fst (ask_values ?a)) = Inr (ix, P)"
    using at(1,2,3) by (simp add: index_prefix_def P_def index_key_prefix_def fits_index_def Let_def split_beta)
  have plan: "searched_query scans q = bindr (index_range (fst (ask_index ?a)) (fst (snd (ask_index ?a)), snd (snd (ask_index ?a)))
      (fst (ask_values ?a)) (map_option (\<lambda>s. (ts_from s, ts_to s)) (snd (ask_values ?a)))) (\<lambda>(ix, keys). case keys of
       None \<Rightarrow> Inr [] | Some (lo, hi) \<Rightarrow> Inr (map snd (between X lo hi (unat (qu_most q)) ?rv)))"
  proof -
    obtain d n i equal limits where av: "ask_index ?a = (d, n, i)" "ask_values ?a = (equal, limits)"
      by (cases "ask_index ?a"; cases "ask_values ?a") auto
    show ?thesis using scan by (simp add: searched_query_def plan_of_def find_in_def av)
  qed
  show ?thesis
  proof (cases "snd (ask_values ?a)")
    case None
    have E: "E = answers_in c x ?a L" unfolding E_def answers_in_are [OF at(1,2)] using None by simp
    have zero: "fst e = 0" if "e \<in> E" for e using that at(4) None by (auto simp: E_def order_of_def)
    have holds_plain: "X (P @ z) = Some rid \<longleftrightarrow> (\<exists>p. (p, rid) \<in> E \<and> z = after_equal False (p, rid))" for z rid
      using holds None by simp
    have "map snd (between X P (P @ replicate 64 0xFF) n ?rv) = map snd (take n ((if ?rv then rev else id) (sorted_list_of_set E)))" for n
    proof (rule between_image [OF assms(2) range_plain [OF holds_plain]])
      show "P @ after_equal False e \<le> P @ after_equal False e' \<longleftrightarrow> e \<le> e'" if "e \<in> E" "e' \<in> E" for e e'
        unfolding append_le_append using that zero by (intro after_equal_le) simp
      show "X (P @ after_equal False e) = Some (snd e)" if "e \<in> E" for e using that holds_plain by (cases e) auto
    qed
    then show ?thesis unfolding plan using None by (simp add: index_range_def prefix [unfolded prod.collapse] E)
  next
    case (Some s)
    let ?A = "{e \<in> E. ts_from s \<le> fst e \<and> fst e \<le> ts_to s}"
    have A: "?A = answers_in c x ?a L" unfolding E_def answers_in_are [OF at(1,2)] using Some by auto
    have holds_numbered: "X (P @ z) = Some rid \<longleftrightarrow> (\<exists>p. (p, rid) \<in> E \<and> z = after_equal True (p, rid))" for z rid
      using holds Some by simp
    show ?thesis
    proof (cases "ts_from s > ts_to s")
      case True
      then have "?A = {}" by (auto dest: order.trans)
      then have none: "sorted_list_of_set (answers_in c x ?a L) = []" unfolding A by simp
      show ?thesis unfolding plan using Some True by (simp add: index_range_def prefix [unfolded prod.collapse] none)
    next
      case False
      have "map snd (between X (P @ be64 (ts_from s)) (P @ be64 (ts_to s) @ replicate 17 0xFF) n ?rv) =
          map snd (take n ((if ?rv then rev else id) (sorted_list_of_set ?A)))" for n
      proof (rule between_image [OF assms(2) range_numbered [OF holds_numbered]])
        show "P @ after_equal True e \<le> P @ after_equal True e' \<longleftrightarrow> e \<le> e'" for e e'
          unfolding append_le_append by (intro after_equal_le) simp
        show "X (P @ after_equal True e) = Some (snd e)" if "e \<in> ?A" for e using that holds_numbered by (cases e) auto
      qed
      then show ?thesis unfolding plan A using Some False by (simp add: index_range_def prefix [unfolded prod.collapse])
    qed
  qed
qed

context codec_laws
begin

lemma query_back:
  assumes "fit_query c q" and "fit_query c q'"
  shows "r_query c (w_query c q @ rest) = Inr (q, rest)" and "w_query c q = w_query c q' \<longleftrightarrow> q = q'"
  using query.read_write [OF assms(1)] query.write_inject [OF assms] by simp_all

end

section \<open>Properties\<close>

text \<open>
  C25: A question asked of a database whose index is exactly its records' is answered with the
  records of the asked table that answer it, each once, in the order of the number it ranges over
  and then of their identifiers, or the reverse, as many as asked and no other; a span that ends
  before it begins is answered with none.
\<close>

theorem search_answers_the_question:
  assumes "index_exact c x (fst (ask_index (qu_ask q))) L X" and "finite (dom X)" and "list_all short_value (fst (ask_values (qu_ask q)))"
    and "scans (fst (ask_index (qu_ask q))) = (\<lambda>lo hi n b. Inr (between X lo hi n b))"
  shows "searched_query scans q = Inr (map snd (take (unat (qu_most q)) ((if qu_newest_first q then rev else id)
    (sorted_list_of_set (answers_in c x (qu_ask q) L)))))"
  using search_finds [of c x q L X scans, OF assms] .

text \<open>
  A question comes back from its bytes, whatever follows them; every question names a table of
  its database and an index of it whose columns are of the kinds it asks for, the last of them a
  number where it asks a span; and no two questions have the same bytes.
\<close>

theorem question_comes_back:
  assumes "codec_laws c" and "fit_query c q" and "fit_query c q'"
  shows "r_query c (w_query c q @ rest) = Inr (q, rest) \<and> (w_query c q = w_query c q' \<longleftrightarrow> q = q') \<and>
    (\<exists>t ix. table_of (qp_database (plan_of (qu_ask q))) (qp_table (plan_of (qu_ask q))) = Some t \<and>
      index_named t (qp_index (plan_of (qu_ask q))) = Some ix \<and> fits_index (qu_ask q) t ix)"
  using codec_laws.query_back [OF assms] plan_fits [of "qu_ask q"] by (auto simp: plan_of_def split_beta)

text \<open>One held Message and its entries, for the witness.\<close>

definition sample_searched :: ledger where
  "sample_searched = upd empty_ledger ''held'' (entry_key 7 0) (Some (w_held plain_codec (newly_held 0 (sample_hold 9))))"

definition sample_index :: "key \<rightharpoonup> u128" where
  "sample_index k = (if k \<in> set (List.map_filter (\<lambda>i. index_entry_key i (row_held (newly_held 0 (sample_hold 9))) 9)
     (ta_indexes held_table)) then Some 9 else None)"

definition sample_query :: query where
  "sample_query = \<lparr>qu_ask = HeldIn 7 all_of_time, qu_most = 10, qu_newest_first = True\<rparr>"

lemma sample_found:
  "row_in plain_codec plain_rules SHeld (w_held plain_codec (newly_held 0 (sample_hold 9))) =
    Inr (row_held (newly_held 0 (sample_hold 9)), 9)"
  by (simp add: row_as_def sample_held_back) (simp add: held_id_def newly_held_def sample_hold_def)

lemma sample_index_exact: "index_exact plain_codec plain_rules Runtime sample_searched sample_index"
proof -
  have "place_entries plain_codec plain_rules Runtime sample_searched kind key =
      (if kind = ''held'' \<and> key = entry_key 7 0
       then {k. sample_index k = Some 9} \<times> {9} else {})" for kind key
  proof (cases "kind = ''held'' \<and> key = entry_key 7 0")
    case True
    have "bytes_entries plain_codec plain_rules Runtime ''held'' (sample_searched ''held'' (entry_key 7 0)) =
        Inr (map (\<lambda>k. (k, 9)) (List.map_filter (\<lambda>i. index_entry_key i (row_held (newly_held 0 (sample_hold 9))) 9) (ta_indexes held_table)))"
      using sample_found table_for_is [of Runtime "''held''" SHeld]
      by (simp add: bytes_entries_def sample_searched_def upd_apply row_entries_def table_for_def)
    then show ?thesis using True by (auto simp: place_entries_def sample_index_def)
  next
    case False
    then have "sample_searched kind key = None" by (auto simp: sample_searched_def upd_apply empty_ledger_def)
    then show ?thesis using False by (auto simp: place_entries_def bytes_entries_def split: option.splits)
  qed
  then show ?thesis unfolding index_exact_def by (auto simp: sample_index_def split: if_splits)
qed

lemma sample_answers: "answers_in plain_codec plain_rules (HeldIn 7 all_of_time) sample_searched = {(0, 9)}"
proof -
  let ?w = "w_held plain_codec (newly_held 0 (sample_hold 9))" and ?r = "row_held (newly_held 0 (sample_hold 9))"
  have at: "sample_searched kind key = Some b \<longleftrightarrow> kind = ''held'' \<and> key = entry_key 7 0 \<and> b = ?w" for kind key b
    by (auto simp: sample_searched_def upd_apply empty_ledger_def)
  have h1: "(\<exists>kind key s b. searched_of Runtime kind = Some s \<and> table_word s = ''held'' \<and> sample_searched kind key = Some b \<and>
      row_in plain_codec plain_rules s b = Inr (r, rid)) \<longleftrightarrow> row_in plain_codec plain_rules SHeld ?w = Inr (r, rid)" for r rid
    unfolding at by (simp del: row_in.simps)
  have h2: "row_in plain_codec plain_rules SHeld ?w = Inr (r, rid) \<longleftrightarrow> r = ?r \<and> rid = 9" for r rid
    unfolding sample_found by (simp add: eq_commute)
  have found: "(\<exists>kind key s b. searched_of Runtime kind = Some s \<and> table_word s = ''held'' \<and> sample_searched kind key = Some b \<and>
      row_in plain_codec plain_rules s b = Inr (r, rid)) \<longleftrightarrow> r = ?r \<and> rid = 9" for r rid
    by (rule trans [OF h1 h2])
  have "answers_in plain_codec plain_rules (HeldIn 7 all_of_time) sample_searched =
      {(order_of (HeldIn 7 all_of_time) r, rid) | r rid. (r = ?r \<and> rid = 9) \<and> answers_ask (HeldIn 7 all_of_time) r}"
    unfolding answers_in_def ask_index.simps fst_conv snd_conv found [symmetric] by blast
  moreover have "answers_ask (HeldIn 7 all_of_time) ?r" "order_of (HeldIn 7 all_of_time) ?r = 0"
    by (simp_all add: order_of_def holds_at_def within_def number_at_def value_in_def row_held_def newly_held_def sample_hold_def all_of_time_def)
  ultimately show ?thesis by auto
qed

theorem search_answers_the_question_witness:
  "searched_query (\<lambda>_ lo hi n b. Inr (between sample_index lo hi n b)) sample_query = Inr [9]"
proof -
  have "finite (dom sample_index)"
    by (rule finite_subset [of _ "set (List.map_filter (\<lambda>i. index_entry_key i (row_held (newly_held 0 (sample_hold 9))) 9) (ta_indexes held_table))"])
      (auto simp: sample_index_def split: if_splits)
  then show ?thesis
    using search_answers_the_question [of plain_codec plain_rules sample_query sample_searched sample_index "\<lambda>_ lo hi n b. Inr (between sample_index lo hi n b)"]
      sample_index_exact sample_answers by (simp add: sample_query_def)
qed

theorem question_comes_back_witness:
  "r_query plain_codec (w_query plain_codec sample_query @ [5]) = Inr (sample_query, [5])"
  using question_comes_back [OF plain.codec_laws_axioms, of sample_query sample_query "[5]"]
  by (simp add: fit_query_def fit_ask_def sample_query_def)

end
