(* ===== verification/Shipped.thy ===== *)
theory Shipped
  imports Memory Codec
begin

text \<open>
  What Storage nodes say to one another (\<open>src/.src/storage/standby/shipped.rs\<close>): what one stands
  as, where a standby asks to be followed from, and the frames a primary sends it, each with its
  form on the wire.
\<close>

section \<open>The frames\<close>

definition databases :: nat where "databases = 3"

record node_standing =
  ns_process :: u128
  ns_primary :: bool
  ns_epoch :: u64
  ns_history :: u128
  ns_next :: "u64 list"
  ns_copying :: bool

definition standing_held :: "node_standing \<Rightarrow> u64" where
  "standing_held s = sum_list (ns_next s)"

record follow =
  fo_epoch :: u64
  fo_history :: u128
  fo_next :: "u64 list"

datatype shipped =
    Beat u64
  | Copy u8 u64 "change list"
  | Whole u128 u64 "bytes list"
  | Entries u8 "entry list"
  | Copied u8 u64
  | Declined string

section \<open>Their forms\<close>

definition w_nexts :: "codec \<Rightarrow> u64 list \<Rightarrow> bytes" where
  "w_nexts c ns = concat (map (w_u64 c) ns)"

definition r_nexts :: "codec \<Rightarrow> u64 list reader" where
  "r_nexts c = r_times databases (r_u64 c)"

definition w_standing :: "codec \<Rightarrow> node_standing \<Rightarrow> bytes" where
  "w_standing c s = w_u128 c (ns_process s) @ w_flag c (ns_primary s) @ w_u64 c (ns_epoch s) @ w_u128 c (ns_history s) @
     w_nexts c (ns_next s) @ w_flag c (ns_copying s)"

definition r_standing :: "codec \<Rightarrow> node_standing reader" where
  "r_standing c = andr (r_u128 c) (\<lambda>p. andr (r_flag c) (\<lambda>b. andr (r_u64 c) (\<lambda>e. andr (r_u128 c) (\<lambda>h.
     andr (r_nexts c) (\<lambda>ns. andr (r_flag c) (\<lambda>w.
       ret \<lparr>ns_process = p, ns_primary = b, ns_epoch = e, ns_history = h, ns_next = ns, ns_copying = w\<rparr>))))))"

definition fit_standing :: "codec \<Rightarrow> node_standing \<Rightarrow> bool" where
  "fit_standing c s \<longleftrightarrow> length (ns_next s) = databases"

definition w_follow :: "codec \<Rightarrow> follow \<Rightarrow> bytes" where
  "w_follow c f = w_u64 c (fo_epoch f) @ w_u128 c (fo_history f) @ w_nexts c (fo_next f)"

definition r_follow :: "codec \<Rightarrow> follow reader" where
  "r_follow c = andr (r_u64 c) (\<lambda>e. andr (r_u128 c) (\<lambda>h. andr (r_nexts c) (\<lambda>ns.
     ret \<lparr>fo_epoch = e, fo_history = h, fo_next = ns\<rparr>)))"

definition fit_follow :: "codec \<Rightarrow> follow \<Rightarrow> bool" where
  "fit_follow c f \<longleftrightarrow> length (fo_next f) = databases"

definition w_change :: "codec \<Rightarrow> change \<Rightarrow> bytes" where
  "w_change c kv = (let (key, v) = kv in w_counted c key @ w_maybe c (w_counted c) v)"

definition r_change :: "codec \<Rightarrow> change reader" where
  "r_change c = andr (r_counted c) (\<lambda>key. andr (r_maybe c (r_counted c)) (\<lambda>v. ret (key, v)))"

definition fit_change :: "codec \<Rightarrow> change \<Rightarrow> bool" where
  "fit_change c kv \<longleftrightarrow> length (fst kv) \<le> most c \<and> fit_maybe (\<lambda>b. length b \<le> most c) (snd kv)"

definition w_pair :: "codec \<Rightarrow> entry \<Rightarrow> bytes" where
  "w_pair c kv = w_counted c (fst kv) @ w_counted c (snd kv)"

definition r_pair :: "codec \<Rightarrow> entry reader" where
  "r_pair c = andr (r_counted c) (\<lambda>key. andr (r_counted c) (\<lambda>v. ret (key, v)))"

definition fit_pair :: "codec \<Rightarrow> entry \<Rightarrow> bool" where
  "fit_pair c kv \<longleftrightarrow> length (fst kv) \<le> most c \<and> length (snd kv) \<le> most c"

primrec w_shipped :: "codec \<Rightarrow> shipped \<Rightarrow> bytes" where
  "w_shipped c (Beat e) = w_byte c 0 @ w_u64 c e"
| "w_shipped c (Copy d n cs) = w_byte c 1 @ w_byte c d @ w_u64 c n @ w_many c (w_change c) cs"
| "w_shipped c (Whole h e ks) = w_byte c 2 @ w_u128 c h @ w_u64 c e @ w_many c (w_counted c) ks"
| "w_shipped c (Entries d es) = w_byte c 3 @ w_byte c d @ w_many c (w_pair c) es"
| "w_shipped c (Copied d n) = w_byte c 4 @ w_byte c d @ w_u64 c n"
| "w_shipped c (Declined why) = w_byte c 5 @ w_text c why"

definition r_database :: "codec \<Rightarrow> u8 reader" where
  "r_database c = andr (r_byte c) (\<lambda>d. if unat d < databases then ret d
     else refuse (''no database is numbered '' @ digits (unat d)))"

definition r_shipped :: "codec \<Rightarrow> shipped reader" where
  "r_shipped c = andr (r_byte c) (\<lambda>b.
     if b = 0 then andr (r_u64 c) (\<lambda>e. ret (Beat e))
     else if b = 1 then andr (r_database c) (\<lambda>d. andr (r_u64 c) (\<lambda>n. andr (r_many c (r_change c)) (\<lambda>cs. ret (Copy d n cs))))
     else if b = 2 then andr (r_u128 c) (\<lambda>h. andr (r_u64 c) (\<lambda>e. andr (r_many c (r_counted c)) (\<lambda>ks. ret (Whole h e ks))))
     else if b = 3 then andr (r_database c) (\<lambda>d. andr (r_many c (r_pair c)) (\<lambda>es. ret (Entries d es)))
     else if b = 4 then andr (r_database c) (\<lambda>d. andr (r_u64 c) (\<lambda>n. ret (Copied d n)))
     else if b = 5 then andr (r_text c) (\<lambda>why. ret (Declined why))
     else refuse (''no frame is numbered '' @ digits (unat b)))"

definition fit_shipped :: "codec \<Rightarrow> shipped \<Rightarrow> bool" where
  "fit_shipped c s \<longleftrightarrow> (case s of
     Beat e \<Rightarrow> True
   | Copy d n cs \<Rightarrow> unat d < databases \<and> fit_many (fit_change c) cs
   | Whole h e ks \<Rightarrow> fit_many (\<lambda>b. length b \<le> most c) ks
   | Entries d es \<Rightarrow> unat d < databases \<and> fit_many (fit_pair c) es
   | Copied d n \<Rightarrow> unat d < databases
   | Declined why \<Rightarrow> length why \<le> most c)"

section \<open>They come back\<close>

sublocale codec_laws \<subseteq> u64_form: form "w_u64 c" "r_u64 c" "\<lambda>x. True"
  by unfold_locales auto

context codec_laws
begin

lemma nexts_form: "form (w_nexts c) (r_nexts c) (\<lambda>ns. length ns = databases)"
proof
  show "r_nexts c (w_nexts c ns @ rest) = Inr (ns, rest)" if "length ns = databases" for ns rest
    using u64_form.times_write [of ns rest] that by (simp add: r_nexts_def w_nexts_def list_all_iff)
  show "length ns = databases" if "r_nexts c bs = Inr (ns, rest)" for bs ns rest
    using u64_form.times_fit that by (simp add: r_nexts_def)
qed

end

sublocale codec_laws \<subseteq> nexts: form "w_nexts c" "r_nexts c" "\<lambda>ns. length ns = databases"
  by (rule nexts_form)

sublocale codec_laws \<subseteq> standing: form "w_standing c" "r_standing c" "fit_standing c"
  by unfold_locales (auto simp: w_standing_def r_standing_def fit_standing_def andr_eq_Inr nexts.read_write dest: nexts.read_fit)

sublocale codec_laws \<subseteq> follow: form "w_follow c" "r_follow c" "fit_follow c"
  by unfold_locales (auto simp: w_follow_def r_follow_def fit_follow_def andr_eq_Inr nexts.read_write dest: nexts.read_fit)

sublocale codec_laws \<subseteq> counted_maybe: form "w_maybe c (w_counted c)" "r_maybe c (r_counted c)" "fit_maybe (\<lambda>b. length b \<le> most c)"
  by (rule maybe_form) (rule counted_form.form_axioms)

sublocale codec_laws \<subseteq> change: form "w_change c" "r_change c" "fit_change c"
  by unfold_locales (auto simp: w_change_def r_change_def fit_change_def andr_eq_Inr counted_maybe.read_write dest: counted_maybe.read_fit counted_short)

sublocale codec_laws \<subseteq> pair: form "w_pair c" "r_pair c" "fit_pair c"
  by unfold_locales (auto simp: w_pair_def r_pair_def fit_pair_def andr_eq_Inr dest: counted_short)

sublocale codec_laws \<subseteq> changes: form "w_many c (w_change c)" "r_many c (r_change c)" "fit_many (fit_change c)"
  by (rule many_form) (rule change.form_axioms)

sublocale codec_laws \<subseteq> pairs: form "w_many c (w_pair c)" "r_many c (r_pair c)" "fit_many (fit_pair c)"
  by (rule many_form) (rule pair.form_axioms)

sublocale codec_laws \<subseteq> handed_keys: form "w_many c (w_counted c)" "r_many c (r_counted c)" "fit_many (\<lambda>b. length b \<le> most c)"
  by (rule many_form) (rule counted_form.form_axioms)

context codec_laws
begin

lemma database_back: "unat d < databases \<Longrightarrow> r_database c (w_byte c d @ rest) = Inr (d, rest)"
  by (simp add: r_database_def)

lemma database_fit: "r_database c bs = Inr (d, rest) \<Longrightarrow> unat d < databases"
  by (auto simp: r_database_def andr_eq_Inr split: if_splits)

end

sublocale codec_laws \<subseteq> shipped: form "w_shipped c" "r_shipped c" "fit_shipped c"
proof
  show "r_shipped c (w_shipped c s @ rest) = Inr (s, rest)" if "fit_shipped c s" for s rest
    using that by (cases s) (simp_all add: r_shipped_def fit_shipped_def database_back changes.read_write pairs.read_write handed_keys.read_write)
  show "fit_shipped c s" if "r_shipped c bs = Inr (s, rest)" for bs s rest
    using that by (auto simp: r_shipped_def andr_eq_Inr fit_shipped_def
        dest: text_short database_fit changes.read_fit pairs.read_fit handed_keys.read_fit split: if_splits)
qed

end
