(* ===== verification/Replica.thy ===== *)
theory Replica
  imports Copies
begin

text \<open>
  A primary's database and a standby's, the one written and its writes handed on, the other taking
  them (\<open>src/.src/storage/standby/copies.rs\<close>, the turn of \<open>src/.src/storage/standby/ship.rs\<close> and the
  copies of \<open>src/.src/storage/standby/follow.rs\<close>), as a relation between their states: any write of the
  primary, or any part of a turn taken by the standby.
\<close>

section \<open>What each does\<close>

datatype engine_op =
    WriteOp key bytes
  | WriteNewOp key bytes
  | RemoveOp key
  | ApplyOp "change list"
  | DeferredOp "change list"
  | SyncOp

definition run_op :: "'e engine \<Rightarrow> engine_op \<Rightarrow> 'e \<Rightarrow> 'e result" where
  "run_op E op e = (case op of
     WriteOp k v \<Rightarrow> en_write E e k v
   | WriteNewOp k v \<Rightarrow> bindr (en_write_new E e k v) (\<lambda>(wrote, e'). Inr e')
   | RemoveOp k \<Rightarrow> en_remove E e k
   | ApplyOp cs \<Rightarrow> en_apply E e cs
   | DeferredOp cs \<Rightarrow> en_apply_deferred E e cs
   | SyncOp \<Rightarrow> en_sync E e)"

text \<open>The copies of a turn taken one after another, to the first refused.\<close>

fun take_copies :: "'e engine \<Rightarrow> nat \<Rightarrow> copy list \<Rightarrow> 'e \<times> copies \<Rightarrow> ('e \<times> copies) result" where
  "take_copies E d [] s = Inr s"
| "take_copies E d (w # ws) s = bindr (take_copy E d w s) (take_copies E d ws)"

text \<open>
  The two together, and what the primary held of what is copied when its next write was the \<open>n\<close>th. A
  database's own keys are not copied.
\<close>

record 'e replicas =
  rp_primary :: "'e \<times> copies"
  rp_standby :: "'e \<times> copies"
  rp_seen :: "nat \<Rightarrow> key \<rightharpoonup> bytes"

definition shared :: "(key \<rightharpoonup> bytes) \<Rightarrow> key \<rightharpoonup> bytes" where
  "shared m = (\<lambda>k. if own_key k then None else m k)"

definition next_at :: "nat \<Rightarrow> 'e \<times> copies \<Rightarrow> u64" where
  "next_at d s = kw_next (co_kept (snd s) ! d)"

definition primary_does :: "'e engine \<Rightarrow> ('e \<Rightarrow> key \<rightharpoonup> bytes) \<Rightarrow> nat \<Rightarrow> engine_op \<Rightarrow> 'e replicas \<Rightarrow> 'e replicas option" where
  "primary_does E recs d op R = (if next_at d (rp_primary R) < - 1 then (case run_op (copied_engine E d) op (rp_primary R) of
       Inl e \<Rightarrow> None
     | Inr p \<Rightarrow> Some (R\<lparr>rp_primary := p, rp_seen := (rp_seen R)(unat (next_at d p) := shared (recs (fst p)))\<rparr>)) else None)"

definition turn_taken :: "'e engine \<Rightarrow> nat \<Rightarrow> nat \<Rightarrow> nat \<Rightarrow> 'e replicas \<Rightarrow> 'e replicas option" where
  "turn_taken E d at_most j R = (case since d (next_at d (rp_standby R)) at_most (snd (rp_primary R)) of
     Inl why \<Rightarrow> None
   | Inr ws \<Rightarrow> (case take_copies E d (take j ws) (rp_standby R) of Inl e \<Rightarrow> None | Inr s \<Rightarrow> Some (R\<lparr>rp_standby := s\<rparr>)))"

inductive replicates :: "'e engine \<Rightarrow> ('e \<Rightarrow> key \<rightharpoonup> bytes) \<Rightarrow> nat \<Rightarrow> 'e replicas \<Rightarrow> 'e replicas \<Rightarrow> bool"
  for E :: "'e engine" and recs :: "'e \<Rightarrow> key \<rightharpoonup> bytes" and d :: nat where
  refl: "replicates E recs d R R"
| wrote: "replicates E recs d R R' \<Longrightarrow> primary_does E recs d op R' = Some R'' \<Longrightarrow> replicates E recs d R R''"
| taken: "replicates E recs d R R' \<Longrightarrow> turn_taken E d at_most j R' = Some R'' \<Longrightarrow> replicates E recs d R R''"

text \<open>The standby level with its primary, as a whole copy with no write meanwhile leaves them.\<close>

definition level :: "('e \<Rightarrow> key \<rightharpoonup> bytes) \<Rightarrow> ('e \<Rightarrow> bool) \<Rightarrow> nat \<Rightarrow> 'e replicas \<Rightarrow> bool" where
  "level recs ok d R \<longleftrightarrow> (let (ep, cp) = rp_primary R; (es, cs) = rp_standby R in
     ok ep \<and> ok es \<and> d < length (co_kept cp) \<and> d < length (co_kept cs) \<and> co_history cs = co_history cp \<and>
     kw_writes (co_kept cp ! d) = [] \<and> kw_writes (co_kept cs ! d) = [] \<and> kw_next (co_kept cs ! d) = kw_next (co_kept cp ! d) \<and>
     shared (recs es) = shared (recs ep) \<and> positioned (recs es position_key) = Some (co_history cs, kw_next (co_kept cs ! d)) \<and>
     rp_seen R (unat (kw_next (co_kept cp ! d))) = shared (recs ep))"

section \<open>The writes kept are a window of the log\<close>

text \<open>Each write in it makes of what was held at its number what is held at the next, up to \<open>n\<close>.\<close>

fun window :: "(nat \<Rightarrow> key \<rightharpoonup> bytes) \<Rightarrow> nat \<Rightarrow> copy list \<Rightarrow> nat \<Rightarrow> bool" where
  "window G f [] n \<longleftrightarrow> f = n"
| "window G f ((m, cs) # ws) n \<longleftrightarrow> unat m = f \<and> not_own cs = cs \<and> G (Suc f) = changed cs (G f) \<and> window G (Suc f) ws n"

lemma window_length: "window G f ws n \<Longrightarrow> n = f + length ws"
  by (induction G f ws n rule: window.induct) auto

lemma window_append: "window G f (ws @ ws') n \<longleftrightarrow> (\<exists>m. window G f ws m \<and> window G m ws' n)"
  by (induction G f ws n rule: window.induct) auto

lemma window_cong: "window G f ws n \<Longrightarrow> (\<And>m. f \<le> m \<Longrightarrow> m \<le> n \<Longrightarrow> G m = G' m) \<Longrightarrow> window G' f ws n"
proof (induction G f ws n rule: window.induct)
  case (2 G f m cs ws n)
  then have "Suc f \<le> n" using window_length by fastforce
  then show ?case using 2 by simp
qed simp

lemma window_take: "window G f ws n \<Longrightarrow> window G f (take j ws) (f + length (take j ws))"
proof (induction G f ws n arbitrary: j rule: window.induct)
  case (2 G f m cs ws n)
  then show ?case by (cases j) auto
qed simp

lemma window_popped: "window G f ws n \<Longrightarrow> \<exists>f' \<ge> f. window G f' (fst (pop_over at_most ws b)) n"
proof (induction at_most ws b arbitrary: f rule: pop_over.induct)
  case (1 at_most w w' ws b)
  show ?case
  proof (cases "b > at_most")
    case True
    have "window G (Suc f) (w' # ws) n" using 1(2) by (cases w) simp
    then obtain f' where "f' \<ge> Suc f" "window G f' (fst (pop_over at_most (w' # ws) (b - change_bytes (snd w)))) n"
      using 1(1) [OF True] by blast
    then show ?thesis using True by (intro exI [of _ f']) simp
  next
    case False
    then show ?thesis using 1(2) by (intro exI [of _ f]) simp
  qed
qed auto

lemma window_from: "window G f ws n \<Longrightarrow> f \<le> unat a \<Longrightarrow> unat a \<le> n \<Longrightarrow> window G (unat a) (dropWhile (\<lambda>(m, _). m < a) ws) n"
proof (induction G f ws n rule: window.induct)
  case (2 G f m cs ws n)
  show ?case
  proof (cases "m < a")
    case True
    then have "unat m < unat a" by (simp add: word_less_nat_alt)
    then show ?thesis using 2 True by simp
  next
    case False
    then have "unat a = f" using 2(2,3) by (simp add: word_less_nat_alt)
    then show ?thesis using 2(2) False by simp
  qed
qed simp

lemma taken_up_is: "\<exists>j. taken_up at_most b any ws = take j ws \<and> (ws \<noteq> [] \<and> \<not> any \<longrightarrow> j > 0)"
proof (induction at_most b any ws rule: taken_up.induct)
  case (2 at_most b any n cs ws)
  show ?case
  proof (cases "b \<ge> at_most \<and> any")
    case True
    then show ?thesis by (intro exI [of _ 0]) simp
  next
    case False
    then obtain j where "taken_up at_most (b + change_bytes cs) True ws = take j ws" using 2 by blast
    then show ?thesis using False by (intro exI [of _ "Suc j"]) simp
  qed
qed simp

lemma first_kept_is: "window G f (kw_writes k) (unat (kw_next k)) \<Longrightarrow> unat (first_kept k) = f"
  by (cases "kw_writes k") (auto simp: first_kept_def)

lemma since_window:
  assumes "window G f (kw_writes (co_kept c ! d)) (unat (kw_next (co_kept c ! d)))" and "since d from at_most c = Inr ws"
    and "from \<le> kw_next (co_kept c ! d)"
  shows "window G (unat from) ws (unat from + length ws)" and "ws = [] \<longleftrightarrow> from = kw_next (co_kept c ! d)"
    and "unat from + length ws \<le> unat (kw_next (co_kept c ! d))"
proof -
  let ?k = "co_kept c ! d"
  have "window G (unat from) ws (unat from + length ws) \<and> (ws = [] \<longleftrightarrow> from = kw_next ?k) \<and> unat from + length ws \<le> unat (kw_next ?k)"
  proof (cases "from = kw_next ?k")
    case True
    then show ?thesis using assms(2) by (simp add: since_def)
  next
    case False
    then have less: "from < kw_next ?k" using assms(3) by simp
    let ?ws = "dropWhile (\<lambda>(n, _). n < from) (kw_writes ?k)"
    have ws: "\<not> from < first_kept ?k" "ws = taken_up at_most 0 False ?ws"
      using assms(2) less by (auto simp: since_def Let_def linorder_not_le split: if_splits)
    have "f \<le> unat from" using ws(1) first_kept_is [OF assms(1)] by (simp add: word_less_nat_alt)
    then have w: "window G (unat from) ?ws (unat (kw_next ?k))" using window_from [OF assms(1)] less by (simp add: word_less_nat_alt)
    then have len: "unat (kw_next ?k) = unat from + length ?ws" by (rule window_length)
    then have "?ws \<noteq> []" using less by (auto simp: word_less_nat_alt)
    then obtain j where "ws = take j ?ws" "j > 0" using ws(2) taken_up_is [of at_most 0 False ?ws] by auto
    then show ?thesis using window_take [OF w, of j] \<open>?ws \<noteq> []\<close> False len by auto
  qed
  then show "window G (unat from) ws (unat from + length ws)" "ws = [] \<longleftrightarrow> from = kw_next ?k"
    "unat from + length ws \<le> unat (kw_next ?k)" by blast+
qed

lemma shared_changed: "shared (changed cs m) = changed (not_own cs) (shared m)"
proof (induction cs arbitrary: m)
  case (Cons kv cs)
  have "shared (m(k := v)) = (if own_key k then shared m else (shared m)(k := v))" for k v
    by (auto simp: shared_def fun_eq_iff)
  then show ?case using Cons by (cases kv) (simp add: not_own_def del: fun_upd_apply)
qed (simp add: not_own_def)

lemma not_own_twice [simp]: "not_own (not_own cs) = not_own cs"
  by (simp add: not_own_def)

lemma position_own [simp]: "own_key position_key"
  by (simp add: own_key_def position_key_def)

lemma shared_own [simp]: "own_key k \<Longrightarrow> shared (m(k := v)) = shared m"
  by (auto simp: shared_def fun_eq_iff)

lemma positioned_position [simp]: "positioned (snd (position h n)) = Some (h, n)"
  by (simp add: positioned_def position_def)

section \<open>What holds throughout\<close>

definition replica_inv :: "('e \<Rightarrow> key \<rightharpoonup> bytes) \<Rightarrow> ('e \<Rightarrow> bool) \<Rightarrow> nat \<Rightarrow> 'e replicas \<Rightarrow> bool" where
  "replica_inv recs ok d R \<longleftrightarrow> (let (ep, cp) = rp_primary R; (es, cs) = rp_standby R; kp = co_kept cp ! d; ks = co_kept cs ! d in
     ok ep \<and> ok es \<and> d < length (co_kept cp) \<and> d < length (co_kept cs) \<and> co_history cs = co_history cp \<and> kw_next ks \<le> kw_next kp \<and>
     (\<exists>f. window (rp_seen R) f (kw_writes kp) (unat (kw_next kp))) \<and> (\<exists>f. window (rp_seen R) f (kw_writes ks) (unat (kw_next ks))) \<and>
     rp_seen R (unat (kw_next kp)) = shared (recs ep) \<and> rp_seen R (unat (kw_next ks)) = shared (recs es) \<and>
     positioned (recs es position_key) = Some (co_history cs, kw_next ks))"

lemma level_inv: "level recs ok d R \<Longrightarrow> replica_inv recs ok d R"
  by (auto simp: level_def replica_inv_def Let_def split: prod.splits)

lemma kept_more_simps [simp]:
  "co_history (kept_more d cs c) = co_history c" "length (co_kept (kept_more d cs c)) = length (co_kept c)"
  "d < length (co_kept c) \<Longrightarrow> co_kept (kept_more d cs c) ! d = keep_write cs (co_most c) (co_kept c ! d)"
  by (simp_all add: kept_more_def)

lemma keep_write_next [simp]: "kw_next (keep_write cs m k) = kw_next k + 1"
  by (simp add: keep_write_def split_beta)

lemma next_above: "n < (- 1 :: u64) \<Longrightarrow> unat (n + 1) = Suc (unat n)"
  by (rule unat_Suc_u64) auto

lemma window_kept:
  assumes "window G f (kw_writes k) (unat (kw_next k))" and "kw_next k < - 1" and "not_own cs = cs"
    and "G (Suc (unat (kw_next k))) = changed cs (G (unat (kw_next k)))"
  shows "\<exists>f'. window G f' (kw_writes (keep_write cs m k)) (unat (kw_next (keep_write cs m k)))"
proof -
  have "window G f (kw_writes k @ [(kw_next k, cs)]) (Suc (unat (kw_next k)))"
    using assms by (auto simp: window_append)
  then obtain f' where "window G f' (fst (pop_over m (kw_writes k @ [(kw_next k, cs)]) (kw_bytes k + change_bytes cs))) (Suc (unat (kw_next k)))"
    using window_popped by blast
  then show ?thesis using next_above [OF assms(2)] by (auto simp: keep_write_def split_beta)
qed

context engine_laws
begin

lemma op_kept:
  assumes ok: "ok (fst s)" and run: "run_op (copied_engine E d) op s = Inr s'"
  shows "ok (fst s') \<and> ((snd s' = snd s \<and> shared (recs (fst s')) = shared (recs (fst s))) \<or>
    (\<exists>cs. not_own cs = cs \<and> snd s' = kept_more d cs (snd s) \<and> shared (recs (fst s')) = changed cs (shared (recs (fst s)))))"
proof -
  obtain e c where s: "s = (e, c)" by (cases s)
  have oke: "ok e" using ok s by simp
  have wrote: ?thesis if "ok e'" "recs e' = changed cs (recs e)" "s' = (e', copies_written d cs True c)" for e' cs
    using that by (cases "not_own cs = []") (auto simp: s copies_written_def shared_changed intro!: exI [of _ "not_own cs"])
  have same: ?thesis if "ok e'" "recs e' = recs e" "s' = (e', c)" for e' using that by (simp add: s)
  note simps = run_op_def copied_engine_def wrote_kept_def bindr_eq_Inr
  show ?thesis
  proof (cases op)
    case (WriteOp k v)
    then obtain e' where "en_write E e k v = Inr e'" "s' = (e', copies_written d [(k, Some v)] True c)"
      using run by (auto simp: s simps)
    then show ?thesis using wrote [of e' "[(k, Some v)]"] write_law [OF oke] by simp
  next
    case (WriteNewOp k v)
    then obtain b e' where new: "en_write_new E e k v = Inr (b, e')" "s' = (e', copies_written d [(k, Some v)] b c)"
      using run by (auto simp: s simps)
    note law = write_new_law [OF oke new(1)]
    show ?thesis
    proof (cases b)
      case True
      then show ?thesis using wrote [of e' "[(k, Some v)]"] law new(2) by simp
    next
      case False
      show ?thesis by (rule same [of e']) (use law new(2) False in \<open>simp_all add: copies_written_def\<close>)
    qed
  next
    case (RemoveOp k)
    then obtain e' where "en_remove E e k = Inr e'" "s' = (e', copies_written d [(k, None)] True c)"
      using run by (auto simp: s simps)
    then show ?thesis using wrote [of e' "[(k, None)]"] remove_law [OF oke] by simp
  next
    case (ApplyOp cs)
    then obtain e' where "en_apply E e cs = Inr e'" "s' = (e', copies_written d cs True c)"
      using run by (auto simp: s simps)
    then show ?thesis using wrote [of e' cs] apply_law [OF oke] by simp
  next
    case (DeferredOp cs)
    then obtain e' where "en_apply_deferred E e cs = Inr e'" "s' = (e', copies_written d cs True c)"
      using run by (auto simp: s simps)
    then show ?thesis using wrote [of e' cs] deferred_law [OF oke] by simp
  next
    case SyncOp
    then obtain e' where "en_sync E e = Inr e'" "s' = (e', c)" using run by (auto simp: s simps)
    then show ?thesis using same sync_law [OF oke] by simp
  qed
qed

lemma primary_step:
  assumes did: "primary_does E recs d op R = Some R'" and R: "rp_primary R = (ep, cp)" and ok: "ok ep" "d < length (co_kept cp)"
    and w: "window (rp_seen R) f (kw_writes (co_kept cp ! d)) (unat (kw_next (co_kept cp ! d)))"
    and held: "rp_seen R (unat (kw_next (co_kept cp ! d))) = shared (recs ep)"
  shows "\<exists>e c G. R' = R\<lparr>rp_primary := (e, c), rp_seen := G\<rparr> \<and> ok e \<and> d < length (co_kept c) \<and> co_history c = co_history cp \<and>
    (\<exists>f. window G f (kw_writes (co_kept c ! d)) (unat (kw_next (co_kept c ! d)))) \<and> G (unat (kw_next (co_kept c ! d))) = shared (recs e) \<and>
    kw_next (co_kept cp ! d) \<le> kw_next (co_kept c ! d) \<and> (\<forall>m \<le> unat (kw_next (co_kept cp ! d)). G m = rp_seen R m)"
proof -
  let ?kp = "co_kept cp ! d" and ?G = "rp_seen R"
  obtain p where below: "kw_next ?kp < - 1" and p: "run_op (copied_engine E d) op (ep, cp) = Inr p"
    "R' = R\<lparr>rp_primary := p, rp_seen := ?G(unat (next_at d p) := shared (recs (fst p)))\<rparr>"
    using did by (auto simp: primary_does_def R next_at_def split: if_splits sum.splits)
  obtain e c where pe: "p = (e, c)" by (cases p)
  from op_kept [OF _ p(1)] ok(1) pe have oke: "ok e" and cases: "(c = cp \<and> shared (recs e) = shared (recs ep)) \<or>
      (\<exists>ws. not_own ws = ws \<and> c = kept_more d ws cp \<and> shared (recs e) = changed ws (shared (recs ep)))" by auto
  from cases show ?thesis
  proof
    assume same: "c = cp \<and> shared (recs e) = shared (recs ep)"
    then have "?G(unat (kw_next ?kp) := shared (recs e)) = ?G" using held by auto
    then have "R' = R\<lparr>rp_primary := (e, c), rp_seen := ?G\<rparr>" using p(2) same by (simp add: pe next_at_def)
    then show ?thesis using same oke ok(2) w held by (intro exI [of _ e] exI [of _ c] exI [of _ ?G]) auto
  next
    assume "\<exists>ws. not_own ws = ws \<and> c = kept_more d ws cp \<and> shared (recs e) = changed ws (shared (recs ep))"
    then obtain ws where ws: "not_own ws = ws" "c = kept_more d ws cp" "shared (recs e) = changed ws (shared (recs ep))" by blast
    have next': "next_at d p = kw_next ?kp + 1" by (simp add: next_at_def pe ws(2) ok(2))
    let ?G' = "?G(Suc (unat (kw_next ?kp)) := shared (recs e))"
    note up = next_above [OF below]
    have w': "window ?G' f (kw_writes ?kp) (unat (kw_next ?kp))" using window_cong [OF w, of ?G'] by auto
    have "?G' (Suc (unat (kw_next ?kp))) = changed ws (?G' (unat (kw_next ?kp)))" using ws(3) held by simp
    from window_kept [OF w' below ws(1) this, of "co_most cp"]
    have "\<exists>f. window ?G' f (kw_writes (co_kept c ! d)) (unat (kw_next (co_kept c ! d)))"
      by (simp add: ws(2) ok(2) del: fun_upd_apply)
    moreover have "R' = R\<lparr>rp_primary := (e, c), rp_seen := ?G'\<rparr>" using p(2) next' up by (simp add: pe)
    moreover have "kw_next ?kp \<le> kw_next (co_kept c ! d)" using up by (simp add: ws(2) ok(2) word_le_nat_alt)
    ultimately show ?thesis using oke up by (intro exI [of _ e] exI [of _ c] exI [of _ ?G']) (simp add: ws(2) ok(2))
  qed
qed

lemma inv_primary_does:
  assumes inv: "replica_inv recs ok d R" and did: "primary_does E recs d op R = Some R'"
  shows "replica_inv recs ok d R'"
proof -
  obtain ep cp es cs where R: "rp_primary R = (ep, cp)" "rp_standby R = (es, cs)" by (cases "rp_primary R"; cases "rp_standby R")
  let ?kp = "co_kept cp ! d" and ?ks = "co_kept cs ! d" and ?G = "rp_seen R"
  have i: "ok ep" "ok es" "d < length (co_kept cp)" "d < length (co_kept cs)" "co_history cs = co_history cp" "kw_next ?ks \<le> kw_next ?kp"
      "?G (unat (kw_next ?kp)) = shared (recs ep)" "?G (unat (kw_next ?ks)) = shared (recs es)"
      "positioned (recs es position_key) = Some (co_history cs, kw_next ?ks)"
    using inv by (simp_all add: replica_inv_def R Let_def)
  obtain f f' where w: "window ?G f (kw_writes ?kp) (unat (kw_next ?kp))" "window ?G f' (kw_writes ?ks) (unat (kw_next ?ks))"
    using inv by (auto simp: replica_inv_def R Let_def)
  have n: "unat (kw_next ?ks) \<le> unat (kw_next ?kp)" using i(6) by (simp add: word_le_nat_alt)
  obtain e c G where R': "R' = R\<lparr>rp_primary := (e, c), rp_seen := G\<rparr>" and e: "ok e" "d < length (co_kept c)" "co_history c = co_history cp"
      "\<exists>f. window G f (kw_writes (co_kept c ! d)) (unat (kw_next (co_kept c ! d)))" "G (unat (kw_next (co_kept c ! d))) = shared (recs e)"
    and up: "kw_next ?kp \<le> kw_next (co_kept c ! d)" and same: "\<forall>m \<le> unat (kw_next ?kp). G m = ?G m"
    using primary_step [OF did R(1) i(1,3) w(1) i(7)] by blast
  have "\<exists>f. window G f (kw_writes ?ks) (unat (kw_next ?ks))" using window_cong [OF w(2), of G] same n by auto
  moreover have "kw_next ?ks \<le> kw_next (co_kept c ! d)" using i(6) up by (rule order_trans)
  ultimately show ?thesis using i e same n by (simp add: replica_inv_def R R' Let_def)
qed

lemma inv_take_copy:
  assumes inv: "replica_inv recs ok d R" and took: "take_copy E d (m, cs) (rp_standby R) = Inr s"
    and log: "not_own cs = cs" "rp_seen R (Suc (unat m)) = changed cs (rp_seen R (unat m))" and below: "unat m < unat (next_at d (rp_primary R))"
  shows "replica_inv recs ok d (R\<lparr>rp_standby := s\<rparr>) \<and> next_at d s = m + 1 \<and> m = next_at d (rp_standby R)"
proof -
  obtain ep cp es c where R: "rp_primary R = (ep, cp)" "rp_standby R = (es, c)" by (cases "rp_primary R"; cases "rp_standby R")
  let ?kp = "co_kept cp ! d" and ?ks = "co_kept c ! d" and ?G = "rp_seen R"
  have i: "ok ep" "ok es" "d < length (co_kept cp)" "d < length (co_kept c)" "co_history c = co_history cp" "kw_next ?ks \<le> kw_next ?kp"
      "?G (unat (kw_next ?kp)) = shared (recs ep)" "?G (unat (kw_next ?ks)) = shared (recs es)"
    and w: "\<exists>f. window ?G f (kw_writes ?kp) (unat (kw_next ?kp))" "\<exists>f. window ?G f (kw_writes ?ks) (unat (kw_next ?ks))"
    using inv by (simp_all add: replica_inv_def R Let_def)
  have m: "m = kw_next ?ks" using took by (auto simp: take_copy_def R Let_def split: if_splits)
  then obtain e' where e': "en_apply_deferred E es (cs @ [position (co_history c) (m + 1)]) = Inr e'" "s = (e', kept_more d cs c)"
    using took by (auto simp: take_copy_def R Let_def bindr_eq_Inr)
  from deferred_law [OF i(2) e'(1)] have oke: "ok e'" and recs: "recs e' = (changed cs (recs es))(position_key := snd (position (co_history c) (m + 1)))"
    by (simp_all add: position_def)
  have "m < - 1"
  proof -
    have "unat m < unat (kw_next ?kp)" using below by (simp add: R next_at_def)
    then have "m < kw_next ?kp" by (simp add: word_less_nat_alt)
    then show ?thesis by (rule order_less_le_trans) simp
  qed
  then have up: "unat (m + 1) = Suc (unat m)" by (rule next_above)
  have "\<exists>f. window ?G f (kw_writes (keep_write cs (co_most c) ?ks)) (unat (kw_next ?ks + 1))"
    using w(2) window_kept [where k = ?ks and G = ?G and cs = cs and m = "co_most c"] \<open>m < - 1\<close> log m by auto
  moreover have "?G (Suc (unat m)) = shared (recs e')" using log i(8) m by (simp add: recs shared_changed del: fun_upd_apply)
  moreover have "m + 1 \<le> kw_next ?kp" using below up by (simp add: word_le_nat_alt R next_at_def)
  ultimately show ?thesis using i w(1) oke up
    by (simp add: replica_inv_def R Let_def e'(2) next_at_def m [symmetric] recs)
qed

lemma inv_take_copies:
  assumes "replica_inv recs ok d R" and "take_copies E d ws (rp_standby R) = Inr s" and "window (rp_seen R) (unat (next_at d (rp_standby R))) ws n"
    and "n \<le> unat (next_at d (rp_primary R))"
  shows "replica_inv recs ok d (R\<lparr>rp_standby := s\<rparr>) \<and> unat (next_at d s) = n"
  using assms
proof (induction ws arbitrary: R)
  case Nil
  then have same: "R\<lparr>rp_standby := s\<rparr> = R" by (cases R) simp
  show ?case unfolding same using Nil by simp
next
  case (Cons w ws)
  obtain m cs where w: "w = (m, cs)" by (cases w)
  obtain s1 where s1: "take_copy E d (m, cs) (rp_standby R) = Inr s1" "take_copies E d ws s1 = Inr s"
    using Cons.prems(2) by (auto simp: w bindr_eq_Inr)
  have log: "not_own cs = cs" "unat m = unat (next_at d (rp_standby R))" "rp_seen R (Suc (unat m)) = changed cs (rp_seen R (unat m))"
      "window (rp_seen R) (Suc (unat m)) ws n"
    using Cons.prems(3) by (simp_all add: w)
  have "unat m < n" using window_length [OF log(4)] by simp
  then have "unat m < unat (next_at d (rp_primary R))" using Cons.prems(4) by simp
  note one = inv_take_copy [OF Cons.prems(1) s1(1) log(1,3) this]
  have "m < next_at d (rp_primary R)" using \<open>unat m < unat (next_at d (rp_primary R))\<close> by (simp add: word_less_nat_alt)
  then have "m < - 1" by (rule order_less_le_trans) simp
  then have "unat (next_at d s1) = Suc (unat m)" using one next_above by simp
  then show ?case using Cons.IH [of "R\<lparr>rp_standby := s1\<rparr>"] one s1(2) log(4) Cons.prems(4) by simp
qed

lemma inv_turn_taken:
  assumes inv: "replica_inv recs ok d R" and took: "turn_taken E d at_most j R = Some R'"
  shows "replica_inv recs ok d R'"
proof -
  obtain ws s where ws: "since d (next_at d (rp_standby R)) at_most (snd (rp_primary R)) = Inr ws" "take_copies E d (take j ws) (rp_standby R) = Inr s"
      "R' = R\<lparr>rp_standby := s\<rparr>"
    using took by (auto simp: turn_taken_def split: sum.splits)
  obtain f where f: "window (rp_seen R) f (kw_writes (co_kept (snd (rp_primary R)) ! d)) (unat (kw_next (co_kept (snd (rp_primary R)) ! d)))"
      "next_at d (rp_standby R) \<le> kw_next (co_kept (snd (rp_primary R)) ! d)"
    using inv by (auto simp: replica_inv_def next_at_def Let_def split: prod.splits)
  note w = since_window [OF f(1) ws(1) f(2)]
  have "unat (next_at d (rp_standby R)) + length (take j ws) \<le> unat (next_at d (rp_primary R))"
    using w(3) by (simp add: next_at_def)
  from inv_take_copies [OF inv ws(2) window_take [OF w(1)] this] show ?thesis by (simp add: ws(3))
qed

lemma inv_replicates: "replicates E recs d R R' \<Longrightarrow> replica_inv recs ok d R \<Longrightarrow> replica_inv recs ok d R'"
  by (induction rule: replicates.induct) (blast intro: inv_primary_does inv_turn_taken)+

end

section \<open>Properties\<close>

text \<open>
  C20: However a primary's writes and its standby's copies interleave, the standby holds, but for the
  keys of its own, what its primary held when its next write was the standby's next: level with the
  primary it holds what the primary holds. Its position record says the history it follows and its
  next write, so a standby that starts again takes its writes on from there; and as long as what it
  lacks is kept, a turn hands it at least one write.
\<close>

theorem standby_holds_its_primarys:
  assumes "engine_laws E recs ok" and "level recs ok d R0" and "replicates E recs d R0 R"
  shows "shared (recs (fst (rp_standby R))) = rp_seen R (unat (next_at d (rp_standby R))) \<and>
    (next_at d (rp_standby R) = next_at d (rp_primary R) \<longrightarrow> shared (recs (fst (rp_standby R))) = shared (recs (fst (rp_primary R)))) \<and>
    positioned (recs (fst (rp_standby R)) position_key) = Some (co_history (snd (rp_primary R)), next_at d (rp_standby R)) \<and>
    (\<forall>at_most ws. since d (next_at d (rp_standby R)) at_most (snd (rp_primary R)) = Inr ws \<longrightarrow>
      (ws = [] \<longleftrightarrow> next_at d (rp_standby R) = next_at d (rp_primary R)))"
proof -
  have inv: "replica_inv recs ok d R"
    using engine_laws.inv_replicates [OF assms(1,3)] level_inv [OF assms(2)] by blast
  obtain ep cp es cs where R: "rp_primary R = (ep, cp)" "rp_standby R = (es, cs)" by (cases "rp_primary R"; cases "rp_standby R")
  have "\<exists>f. window (rp_seen R) f (kw_writes (co_kept cp ! d)) (unat (kw_next (co_kept cp ! d)))" "kw_next (co_kept cs ! d) \<le> kw_next (co_kept cp ! d)"
    using inv by (simp_all add: replica_inv_def R Let_def)
  then have "ws = [] \<longleftrightarrow> kw_next (co_kept cs ! d) = kw_next (co_kept cp ! d)"
    if "since d (kw_next (co_kept cs ! d)) at_most cp = Inr ws" for at_most ws
    using since_window(2) [OF _ that] by blast
  then show ?thesis using inv by (simp add: replica_inv_def R next_at_def Let_def) metis
qed

text \<open>A standby level with its primary, for the witness.\<close>

definition sample_level :: "memory replicas" where
  "sample_level = \<lparr>rp_primary = ([], copies_new 7 [1, 1, 1] 1000),
     rp_standby = ([(position_key, be128 7 @ be64 1)], copies_new 7 [1, 1, 1] 1000), rp_seen = (\<lambda>_. Map.empty)\<rparr>"

lemmas replica_defs = run_op_def copied_engine_def memory_engine_def memory_write_def memory_apply_def wrote_kept_def
  copies_written_def kept_more_def keep_write_def not_own_def change_bytes_def copies_new_def empty_kept_def take_copy_def
  since_def first_kept_def next_at_def

lemma position_not [simp]: "position_key \<noteq> [b]" "[b] \<noteq> position_key" "\<not> own_key [b]"
  by (auto simp: position_key_def own_prefix_def as_bytes_def own_key_def)

lemma sample_level_is: "level map_of ordered 0 sample_level"
  by (auto simp: level_def sample_level_def copies_new_def empty_kept_def shared_def positioned_def ordered_def fun_eq_iff)

definition sample_wrote :: "memory \<times> copies" where
  "sample_wrote = ([([5], [1])], kept_more 0 [([5], Some [1])] (copies_new 7 [1, 1, 1] 1000))"

lemma sample_write: "run_op (copied_engine memory_engine 0) (WriteOp [5] [1]) ([], copies_new 7 [1, 1, 1] 1000) = Inr sample_wrote"
  by (simp add: sample_wrote_def run_op_def copied_engine_def memory_engine_def memory_write_def wrote_kept_def copies_written_def not_own_def)

lemma sample_next: "next_at 0 sample_wrote = 2" "next_at 0 ([], copies_new 7 [1, 1, 1] 1000) = 1"
  by (simp_all add: sample_wrote_def next_at_def copies_new_def empty_kept_def)

lemma sample_taken: "\<exists>e c. since 0 1 1000 (snd sample_wrote) = Inr [(1, [([5], Some [1])])] \<and>
    take_copies memory_engine 0 [(1, [([5], Some [1])])] (rp_standby sample_level) = Inr (e, c) \<and> next_at 0 (e, c) = 2"
  by (simp add: sample_wrote_def sample_level_def since_def first_kept_def copies_new_def empty_kept_def keep_write_def kept_more_def
      take_copy_def memory_engine_def memory_apply_def next_at_def change_bytes_def Let_def word_le_nat_alt)

theorem standby_holds_its_primarys_witness:
  "\<exists>R. replicates memory_engine map_of 0 sample_level R \<and> next_at 0 (rp_standby R) = 2 \<and> shared (map_of (fst (rp_standby R))) [5] = Some [1]"
proof -
  define R1 where "R1 = sample_level\<lparr>rp_primary := sample_wrote, rp_seen := (rp_seen sample_level)(2 := shared (map_of (fst sample_wrote)))\<rparr>"
  have "primary_does memory_engine map_of 0 (WriteOp [5] [1]) sample_level = Some R1"
    by (simp add: primary_does_def sample_level_def R1_def sample_write sample_next word_less_nat_alt
        unsigned_minus_1_eq_mask mask_eq_exp_minus_1)
  moreover obtain e c where s: "since 0 1 1000 (snd sample_wrote) = Inr [(1, [([5], Some [1])])]"
      "take_copies memory_engine 0 [(1, [([5], Some [1])])] (rp_standby sample_level) = Inr (e, c)" "next_at 0 (e, c) = 2"
    using sample_taken by blast
  have "next_at 0 (rp_standby sample_level) = 1" by (simp add: sample_level_def next_at_def copies_new_def empty_kept_def)
  then have "turn_taken memory_engine 0 1000 1 R1 = Some (R1\<lparr>rp_standby := (e, c)\<rparr>)"
    using s(1,2) by (simp add: turn_taken_def R1_def del: take_copies.simps)
  ultimately have run: "replicates memory_engine map_of 0 sample_level (R1\<lparr>rp_standby := (e, c)\<rparr>)"
    using replicates.intros by metis
  have "shared (map_of e) = shared (map_of (fst sample_wrote))"
    using standby_holds_its_primarys [OF memory.engine_laws_axioms sample_level_is run] s(3) sample_next(1) by (simp add: R1_def)
  then have "shared (map_of e) [5] = Some [1]" by (simp add: sample_wrote_def shared_def)
  then show ?thesis using run s(3) by (intro exI [of _ "R1\<lparr>rp_standby := (e, c)\<rparr>"]) simp
qed

end
