(* ===== verification/Following.thy ===== *)
theory Following
  imports Replica Writer
begin

text \<open>
  A standby following its primary, frame by frame, and what a Storage node of several starts from
  (\<open>src/.src/storage/standby.rs\<close>, \<open>src/.src/storage/standby/follow.rs\<close>). A node whose whole copy was
  cut short is shown to say so whatever comes after, until a whole copy is in. The syncs, which leave
  the records as they are, and the connection are not modelled; the key store, which wraps a data key
  handed, is the parameter \<open>rewrap\<close>.
\<close>

section \<open>A Storage node\<close>

definition epoch_key :: key where "epoch_key = own_prefix @ as_bytes ''epoch'' @ [0]"
definition copying_key :: key where "copying_key = own_prefix @ as_bytes ''copying'' @ [0]"

datatype node_role =
    Finding
  | IsPrimary
  | StandbyOf string

record 'e node =
  nd_process :: u128
  nd_engines :: "'e list"
  nd_copies :: copies
  nd_epoch :: u64
  nd_role :: node_role

definition engine_at :: "nat \<Rightarrow> 'e node \<Rightarrow> 'e" where
  "engine_at d n = nd_engines n ! d"

definition with_engine :: "nat \<Rightarrow> 'e \<Rightarrow> 'e node \<Rightarrow> 'e node" where
  "with_engine d e n = n\<lparr>nd_engines := (nd_engines n)[d := e]\<rparr>"

text \<open>
  Where it starts: in the history its databases' positions say, where they all say the same, each at
  the next write its own says; and in the epoch it kept.
\<close>

definition from_positions :: "(u128 \<times> u64) option list \<Rightarrow> u128 \<times> u64 list" where
  "from_positions at = (case at of
     Some (h, _) # _ \<Rightarrow> if list_all (\<lambda>p. case p of None \<Rightarrow> False | Some (h', _) \<Rightarrow> h' = h) at
       then (h, map (\<lambda>p. case p of None \<Rightarrow> 1 | Some (_, next') \<Rightarrow> next') at) else (0, replicate databases 1)
   | _ \<Rightarrow> (0, replicate databases 1))"

definition kept_epoch :: "bytes option \<Rightarrow> u64" where
  "kept_epoch v = (case v of None \<Rightarrow> 0 | Some b \<Rightarrow> if length b = 8 then word_of_nat (from_be b) else 0)"

definition node_new :: "'e engine \<Rightarrow> u128 \<Rightarrow> nat \<Rightarrow> 'e list \<Rightarrow> 'e node result" where
  "node_new E process at_most es = bindr (each (\<lambda>e. en_read E e position_key) es) (\<lambda>ps.
     bindr (en_read E (es ! 0) epoch_key) (\<lambda>v.
       let (history, next') = from_positions (map positioned ps) in
       Inr \<lparr>nd_process = process, nd_engines = es, nd_copies = copies_new history next' at_most,
         nd_epoch = kept_epoch v, nd_role = Finding\<rparr>))"

text \<open>Whether a whole copy into it is under way or was cut short: one that cannot be read is taken for one.\<close>

definition is_copying :: "'e engine \<Rightarrow> 'e node \<Rightarrow> bool" where
  "is_copying E n = (case en_read E (engine_at 0 n) copying_key of Inl _ \<Rightarrow> True | Inr v \<Rightarrow> v \<noteq> None)"

text \<open>The epoch met, kept where it is later; what could not be written is let be.\<close>

definition heard_epoch :: "'e engine \<Rightarrow> u64 \<Rightarrow> 'e node \<Rightarrow> 'e node" where
  "heard_epoch E epoch n = (if epoch > nd_epoch n
     then (let n' = n\<lparr>nd_epoch := epoch\<rparr> in case en_write E (engine_at 0 n') epoch_key (be64 epoch) of
         Inl _ \<Rightarrow> n' | Inr e \<Rightarrow> with_engine 0 e n') else n)"

definition take_up :: "'e engine \<Rightarrow> node_role \<Rightarrow> u64 \<Rightarrow> 'e node \<Rightarrow> 'e node" where
  "take_up E role epoch n = heard_epoch E epoch (n\<lparr>nd_role := role\<rparr>)"

section \<open>A whole copy\<close>

definition last_key :: key where "last_key = replicate 1024 0xFF"
definition wipe_page :: nat where "wipe_page = 1024"

text \<open>
  What is left of what was being changed, and what refused the rest, where something did: what was
  done before it stays.
\<close>

type_synonym 'a tried = "'a \<times> persist_error option"

definition tried_then :: "'a tried \<Rightarrow> ('a \<Rightarrow> 'a tried) \<Rightarrow> 'a tried" where
  "tried_then t f = (case t of (x, Some why) \<Rightarrow> (x, Some why) | (x, None) \<Rightarrow> f x)"

definition try_on :: "'a \<Rightarrow> 'a result \<Rightarrow> 'a tried" where
  "try_on x r = (case r of Inl why \<Rightarrow> (x, Some why) | Inr y \<Rightarrow> (y, None))"

partial_function (option) wiped :: "'e engine \<Rightarrow> 'e \<Rightarrow> 'e tried option" where
  "wiped E e = (case en_scan E e [] last_key wipe_page False of
     Inl why \<Rightarrow> Some (e, Some why)
   | Inr found \<Rightarrow> (let gone = filter (\<lambda>k. k \<noteq> copying_key) (map fst found) in
       if gone = [] then Some (e, None)
       else (case en_apply_deferred E e (map (\<lambda>k. (k, None)) gone) of
         Inl why \<Rightarrow> Some (e, Some why) | Inr e' \<Rightarrow> wiped E e')))"

text \<open>One database emptied and given its primary's data key, wrapped under this node's own key.\<close>

definition wiped_one :: "'e engine \<Rightarrow> (bytes \<Rightarrow> secret_error + bytes) \<Rightarrow> bytes \<Rightarrow> 'e \<Rightarrow> 'e tried option" where
  "wiped_one E rewrap k e = map_option (\<lambda>t. tried_then t (\<lambda>e'.
     try_on e' (bindr (keyed (rewrap k)) (en_write E e' data_key_at)))) (wiped E e)"

fun wiped_each :: "'e engine \<Rightarrow> (bytes \<Rightarrow> secret_error + bytes) \<Rightarrow> (nat \<times> bytes) list \<Rightarrow> 'e node \<Rightarrow> 'e node tried option" where
  "wiped_each E rewrap [] n = Some (n, None)"
| "wiped_each E rewrap ((d, k) # ks) n = (case wiped_one E rewrap k (engine_at d n) of
     None \<Rightarrow> None
   | Some (e, Some why) \<Rightarrow> Some (with_engine d e n, Some why)
   | Some (e, None) \<Rightarrow> wiped_each E rewrap ks (with_engine d e n))"

definition wiped_all :: "'e engine \<Rightarrow> (bytes \<Rightarrow> secret_error + bytes) \<Rightarrow> bytes list \<Rightarrow> 'e node \<Rightarrow> 'e node tried option" where
  "wiped_all E rewrap ks n = (if length ks \<noteq> databases
     then Some (n, Some (Failed (''a whole copy handed '' @ digits (length ks) @ '' data keys'')))
     else wiped_each E rewrap (enumerate 0 ks) n)"

text \<open>The whole copy under way: the history it brings, and where each database's copies follow from, once said.\<close>

record whole_copy =
  wh_history :: u128
  wh_next :: "u64 option list"

definition apply_at :: "'e engine \<Rightarrow> nat \<Rightarrow> change list \<Rightarrow> 'e node \<Rightarrow> 'e node tried" where
  "apply_at E d cs n = try_on n (bindr (en_apply E (engine_at d n) cs) (\<lambda>e. Inr (with_engine d e n)))"

fun positions_written :: "'e engine \<Rightarrow> u128 \<Rightarrow> (nat \<times> u64) list \<Rightarrow> 'e node \<Rightarrow> 'e node tried" where
  "positions_written E h [] n = (n, None)"
| "positions_written E h ((d, next') # ns) n = tried_then (apply_at E d [position h next'] n) (positions_written E h ns)"

definition copied_whole :: "'e engine \<Rightarrow> whole_copy \<Rightarrow> 'e node \<Rightarrow> 'e node tried" where
  "copied_whole E w n = (let next' = map (\<lambda>p. case p of None \<Rightarrow> 1 | Some m \<Rightarrow> m) (wh_next w) in
     tried_then (positions_written E (wh_history w) (enumerate 0 next') n) (\<lambda>n.
     tried_then (apply_at E 0 [(copying_key, None)] n) (\<lambda>n.
       (n\<lparr>nd_copies := copies_restart (wh_history w) next' (nd_copies n)\<rparr>, None))))"

section \<open>A frame taken\<close>

text \<open>The node after each frame, the whole copy under way, and why it stopped following, where it did.\<close>

record 'e followed =
  fl_node :: "'e node"
  fl_whole :: "whole_copy option"
  fl_ended :: "string option"

definition follows_on :: "(secret_error \<Rightarrow> string) \<Rightarrow> whole_copy option \<Rightarrow> 'e node tried \<Rightarrow> 'e followed" where
  "follows_on say w t = \<lparr>fl_node = fst t, fl_whole = w, fl_ended = map_option (display say) (snd t)\<rparr>"

definition whole_begun :: "'e engine \<Rightarrow> 'e node \<Rightarrow> 'e node tried" where
  "whole_begun E n = tried_then (apply_at E 0 [(copying_key, Some [1])] n) (\<lambda>n.
     (n\<lparr>nd_copies := copies_restart 0 (replicate databases 1) (nd_copies n)\<rparr>, None))"

definition whole_taken :: "'e engine \<Rightarrow> (bytes \<Rightarrow> secret_error + bytes) \<Rightarrow> (secret_error \<Rightarrow> string) \<Rightarrow> u128 \<times> u64 \<times> bytes list \<Rightarrow>
    'e node \<Rightarrow> whole_copy option \<Rightarrow> 'e followed option" where
  "whole_taken E rewrap say hek n w = (let (h, e, ks) = hek in case whole_begun E n of
     (n1, Some why) \<Rightarrow> Some (follows_on say w (n1, Some why))
   | (n1, None) \<Rightarrow> (case wiped_all E rewrap ks n1 of
       None \<Rightarrow> None
     | Some (n2, Some why) \<Rightarrow> Some (follows_on say w (n2, Some why))
     | Some (n2, None) \<Rightarrow> Some (follows_on say (Some \<lparr>wh_history = h, wh_next = replicate databases None\<rparr>) (heard_epoch E e n2, None))))"

definition copy_taken :: "'e engine \<Rightarrow> nat \<Rightarrow> copy \<Rightarrow> 'e node \<Rightarrow> 'e node tried" where
  "copy_taken E d nc n = try_on n (bindr (take_copy E d nc (engine_at d n, nd_copies n)) (\<lambda>(e, c).
     Inr ((with_engine d e n)\<lparr>nd_copies := c\<rparr>)))"

definition entries_taken :: "'e engine \<Rightarrow> nat \<Rightarrow> entry list \<Rightarrow> 'e node \<Rightarrow> 'e node tried" where
  "entries_taken E d es n = try_on n (bindr (en_apply_deferred E (engine_at d n)
     (map (\<lambda>(k, v). (k, Some v)) (filter (\<lambda>(k, v). \<not> own_key k) es))) (\<lambda>e. Inr (with_engine d e n)))"

definition frame_taken :: "'e engine \<Rightarrow> (bytes \<Rightarrow> secret_error + bytes) \<Rightarrow> (secret_error \<Rightarrow> string) \<Rightarrow> shipped \<Rightarrow>
    'e node \<Rightarrow> whole_copy option \<Rightarrow> 'e followed option" where
  "frame_taken E rewrap say frame n w = (case frame of
     Beat e \<Rightarrow> Some (follows_on say w (heard_epoch E e n, None))
   | Copy d number cs \<Rightarrow> Some (follows_on say w (copy_taken E (unat d) (number, cs) n))
   | Whole h e ks \<Rightarrow> whole_taken E rewrap say (h, e, ks) n w
   | Entries d es \<Rightarrow> Some (follows_on say w (entries_taken E (unat d) es n))
   | Copied d next' \<Rightarrow> (case w of
       None \<Rightarrow> Some \<lparr>fl_node = n, fl_whole = w, fl_ended = Some ''a whole copy's end with no start''\<rparr>
     | Some whole \<Rightarrow> (let whole' = whole\<lparr>wh_next := (wh_next whole)[unat d := Some next']\<rparr> in
         if list_all (\<lambda>p. p \<noteq> None) (wh_next whole') then Some (follows_on say None (copied_whole E whole' n))
         else Some (follows_on say (Some whole') (n, None))))
   | Declined why \<Rightarrow> Some \<lparr>fl_node = n, fl_whole = w, fl_ended = Some (''declined: '' @ why)\<rparr>)"

text \<open>Frame after frame, until it stops.\<close>

fun frames_taken :: "'e engine \<Rightarrow> (bytes \<Rightarrow> secret_error + bytes) \<Rightarrow> (secret_error \<Rightarrow> string) \<Rightarrow> shipped list \<Rightarrow> 'e followed \<Rightarrow> 'e followed option" where
  "frames_taken E rewrap say [] f = Some f"
| "frames_taken E rewrap say (x # xs) f = (if fl_ended f \<noteq> None then Some f
     else case frame_taken E rewrap say x (fl_node f) (fl_whole f) of None \<Rightarrow> None | Some f' \<Rightarrow> frames_taken E rewrap say xs f')"

section \<open>A whole copy cut short\<close>

text \<open>A node of the databases there are, a whole copy under way in it.\<close>

definition copying_in :: "('e \<Rightarrow> key \<rightharpoonup> bytes) \<Rightarrow> ('e \<Rightarrow> bool) \<Rightarrow> 'e node \<Rightarrow> bool" where
  "copying_in recs ok n \<longleftrightarrow> length (nd_engines n) = databases \<and> (\<forall>d < databases. ok (engine_at d n)) \<and>
     recs (engine_at 0 n) copying_key \<noteq> None"

text \<open>A frame as a primary sends it: no copy of a database's own keys, and of a database there is.\<close>

definition fair_frame :: "shipped \<Rightarrow> bool" where
  "fair_frame x \<longleftrightarrow> (case x of Copy d m cs \<Rightarrow> unat d < databases \<and> not_own cs = cs | Entries d es \<Rightarrow> unat d < databases
     | Copied d m \<Rightarrow> unat d < databases | _ \<Rightarrow> True)"

text \<open>A frame that does not end a whole copy leaves it under way.\<close>

definition end_unsaid :: "nat \<Rightarrow> whole_copy option \<Rightarrow> bool" where
  "end_unsaid d w \<longleftrightarrow> (\<forall>v. w = Some v \<longrightarrow> length (wh_next v) = databases \<and> wh_next v ! d = None)"

lemma own_keys_apart [simp]:
  "copying_key \<noteq> epoch_key" "epoch_key \<noteq> copying_key" "copying_key \<noteq> position_key" "position_key \<noteq> copying_key"
  "copying_key \<noteq> data_key_at" "data_key_at \<noteq> copying_key" "epoch_key \<noteq> data_key_at" "data_key_at \<noteq> epoch_key"
  "epoch_key \<noteq> position_key" "position_key \<noteq> epoch_key"
  by (simp_all add: copying_key_def epoch_key_def position_key_def data_key_at_def own_prefix_def as_bytes_def)

lemma own_keys [simp]: "own_key copying_key" "own_key epoch_key" "own_key data_key_at"
  by (simp_all add: own_key_def copying_key_def epoch_key_def data_key_at_def own_prefix_def as_bytes_def)

lemma not_own_other: "not_own cs = cs \<Longrightarrow> own_key k \<Longrightarrow> k \<notin> fst ` set cs"
  by (auto simp: not_own_def filter_id_conv)

lemma copying_with:
  assumes "copying_in recs ok n" and "d < databases" and "ok e" and "d = 0 \<Longrightarrow> recs e copying_key \<noteq> None"
  shows "copying_in recs ok (with_engine d e n)"
  using assms by (cases "d = 0") (auto simp: copying_in_def with_engine_def engine_at_def nth_list_update)

lemma copying_fields [simp]:
  "copying_in recs ok (n\<lparr>nd_copies := c\<rparr>) = copying_in recs ok n" "copying_in recs ok (n\<lparr>nd_epoch := x\<rparr>) = copying_in recs ok n"
  "copying_in recs ok (n\<lparr>nd_role := r\<rparr>) = copying_in recs ok n"
  "engine_at d (n\<lparr>nd_copies := c\<rparr>) = engine_at d n" "engine_at d (n\<lparr>nd_epoch := x\<rparr>) = engine_at d n"
  by (simp_all add: copying_in_def engine_at_def)

context engine_laws
begin

lemma changed_keeps: "ok e \<Longrightarrow> recs e copying_key \<noteq> None \<Longrightarrow> copying_key \<notin> fst ` set cs \<Longrightarrow>
    en_apply E e cs = Inr e' \<or> en_apply_deferred E e cs = Inr e' \<Longrightarrow> ok e' \<and> recs e' copying_key \<noteq> None"
  using apply_law [of e cs e'] deferred_law [of e cs e'] changed_other [of copying_key cs "recs e"] by auto

lemma copying_at: "copying_in recs ok n \<Longrightarrow> d < databases \<Longrightarrow> ok (engine_at d n) \<and> (d = 0 \<longrightarrow> recs (engine_at d n) copying_key \<noteq> None)"
  by (auto simp: copying_in_def)

lemma copying_heard: "copying_in recs ok n \<Longrightarrow> copying_in recs ok (heard_epoch E e n)"
proof -
  assume n: "copying_in recs ok n"
  have at: "ok (engine_at 0 n)" "recs (engine_at 0 n) copying_key \<noteq> None" using copying_at [OF n, of 0] by (simp_all add: databases_def)
  have "copying_in recs ok (with_engine 0 e' n')" if "en_write E (engine_at 0 n) epoch_key (be64 e) = Inr e'" "copying_in recs ok n'" for e' n'
    using write_law [OF at(1) that(1)] at(2) copying_with [OF that(2), of 0 e'] by (simp add: databases_def)
  then show ?thesis using n by (auto simp: heard_epoch_def Let_def split: sum.splits)
qed

lemma copying_applied:
  assumes "copying_in recs ok n" and "d < databases" and "copying_key \<notin> fst ` set cs"
  shows "copying_in recs ok (fst (apply_at E d cs n))"
proof (cases "en_apply E (engine_at d n) cs")
  case (Inr e)
  then have "ok e \<and> (d = 0 \<longrightarrow> recs e copying_key \<noteq> None)"
    using changed_keeps [of "engine_at d n" cs e] copying_at [OF assms(1,2)] assms(3) apply_law [of "engine_at d n" cs e] by (cases "d = 0") auto
  then show ?thesis using Inr copying_with [OF assms(1,2)] by (simp add: apply_at_def try_on_def)
qed (simp add: apply_at_def try_on_def assms(1))

lemma copying_copy:
  assumes "copying_in recs ok n" and "d < databases" and "not_own cs = cs"
  shows "copying_in recs ok (fst (copy_taken E d (m, cs) n))"
proof (cases "take_copy E d (m, cs) (engine_at d n, nd_copies n)")
  case (Inr ec)
  then obtain e c where e: "ec = (e, c)" "en_apply_deferred E (engine_at d n) (cs @ [position (co_history (nd_copies n)) (m + 1)]) = Inr e"
    by (auto simp: take_copy_def Let_def bindr_eq_Inr split: if_splits)
  have "copying_key \<notin> fst ` set (cs @ [position (co_history (nd_copies n)) (m + 1)])"
    using not_own_other [OF assms(3), of copying_key] by (simp add: position_def)
  then have "ok e \<and> (d = 0 \<longrightarrow> recs e copying_key \<noteq> None)"
    using changed_keeps [OF _ _ _ disjI2 [OF e(2)]] copying_at [OF assms(1,2)] deferred_law [OF _ e(2)] by (cases "d = 0") auto
  then show ?thesis using Inr e(1) copying_with [OF assms(1,2)] by (simp add: copy_taken_def try_on_def)
qed (simp add: copy_taken_def try_on_def assms(1))

lemma copying_entries:
  assumes "copying_in recs ok n" and "d < databases"
  shows "copying_in recs ok (fst (entries_taken E d es n))"
proof -
  let ?cs = "map (\<lambda>(k, v). (k, Some v)) (filter (\<lambda>(k, v). \<not> own_key k) es)"
  show ?thesis
  proof (cases "en_apply_deferred E (engine_at d n) ?cs")
    case (Inr e)
    have "copying_key \<notin> fst ` set ?cs" by auto
    then have "ok e \<and> (d = 0 \<longrightarrow> recs e copying_key \<noteq> None)"
      using changed_keeps [OF _ _ _ disjI2 [OF Inr]] copying_at [OF assms] deferred_law [OF _ Inr] by (cases "d = 0") auto
    then show ?thesis using Inr copying_with [OF assms] by (simp add: entries_taken_def try_on_def)
  qed (simp add: entries_taken_def try_on_def assms(1))
qed

text \<open>A wipe ends, and leaves only that a copy is under way.\<close>

lemma wiped_ends: "ok e \<Longrightarrow> \<exists>t. wiped E e = Some t"
proof (induction "card (dom (recs e))" arbitrary: e rule: less_induct)
  case less
  show ?case
  proof (cases "en_scan E e [] last_key wipe_page False")
    case (Inl why)
    then show ?thesis by (simp add: wiped.simps)
  next
    case (Inr found)
    let ?gone = "filter (\<lambda>k. k \<noteq> copying_key) (map fst found)"
    show ?thesis
    proof (cases "?gone = [] \<or> (\<exists>why. en_apply_deferred E e (map (\<lambda>k. (k, None)) ?gone) = Inl why)")
      case True
      then show ?thesis using Inr by (auto simp: wiped.simps [of E e] Let_def)
    next
      case False
      then obtain e' where e': "en_apply_deferred E e (map (\<lambda>k. (k, None)) ?gone) = Inr e'" "?gone \<noteq> []"
        by (cases "en_apply_deferred E e (map (\<lambda>k. (k, None)) ?gone)") auto
      have in_dom: "set ?gone \<subseteq> dom (recs e)"
        using scan_law [OF less.prems Inr] finite_recs [OF less.prems] by (auto simp: between_def dest!: in_set_takeD)
      obtain g where gone_some: "g \<in> set ?gone" using e'(2) by (cases ?gone) auto
      have gone: "changed (map (\<lambda>k. (k, None)) ks) m k = (if k \<in> set ks then None else m k)" for ks and m :: "key \<rightharpoonup> bytes" and k
        by (induction ks arbitrary: m) auto
      have "dom (recs e') = dom (recs e) - set ?gone" using deferred_law [OF less.prems e'(1)] by (auto simp: gone dom_def)
      then have "dom (recs e') \<subset> dom (recs e)" using in_dom gone_some by blast
      then have "card (dom (recs e')) < card (dom (recs e))" by (rule psubset_card_mono [OF finite_recs [OF less.prems]])
      then obtain t where "wiped E e' = Some t" using less.hyps deferred_law [OF less.prems e'(1)] by blast
      then show ?thesis using Inr e' by (simp add: wiped.simps [of E e] Let_def)
    qed
  qed
qed

lemma wiped_is:
  assumes "wiped E e = Some t" and "ok e"
  shows "ok (fst t) \<and> (recs e copying_key \<noteq> None \<longrightarrow> recs (fst t) copying_key \<noteq> None) \<and>
    (snd t = None \<longrightarrow> (\<forall>k \<le> last_key. k \<noteq> copying_key \<longrightarrow> recs (fst t) k = None))"
  using assms
proof (induction "card (dom (recs e))" arbitrary: e rule: less_induct)
  case less
  show ?case
  proof (cases "en_scan E e [] last_key wipe_page False")
    case (Inl why)
    then show ?thesis using less.prems by (auto simp: wiped.simps [of E e])
  next
    case (Inr found)
    let ?ks = "map fst found"
    let ?gone = "filter (\<lambda>k. k \<noteq> copying_key) ?ks"
    note page = scan_law [OF less.prems(2) Inr] and fin = finite_recs [OF less.prems(2)]
    consider "?gone = []" | why where "?gone \<noteq> []" "en_apply_deferred E e (map (\<lambda>k. (k, None)) ?gone) = Inl why"
      | e' where "?gone \<noteq> []" "en_apply_deferred E e (map (\<lambda>k. (k, None)) ?gone) = Inr e'"
      by (cases "en_apply_deferred E e (map (\<lambda>k. (k, None)) ?gone)") auto
    then show ?thesis
    proof cases
      case 1
      let ?dom = "{k \<in> dom (recs e). [] \<le> k \<and> k \<le> last_key}"
      have keys: "?ks = take wipe_page (sorted_list_of_set ?dom)" using page by (simp add: between_def comp_def take_map)
      have only: "set ?ks \<subseteq> {copying_key}" using 1 by (auto simp: filter_empty_conv)
      have "?dom \<subseteq> {copying_key}"
      proof -
        have fin': "finite ?dom" using fin by simp
        have "length ?ks \<le> 1"
        proof -
          have "distinct ?ks" unfolding keys by (simp add: distinct_take)
          then have "length ?ks = card (set ?ks)" by (rule distinct_card [symmetric])
          also have "\<dots> \<le> 1" using card_mono [OF _ only] by simp
          finally show ?thesis .
        qed
        then have "length (sorted_list_of_set ?dom) \<le> 1" by (auto simp: keys wipe_page_def)
        then have "?ks = sorted_list_of_set ?dom" by (simp add: keys wipe_page_def)
        then show ?thesis using only fin' by simp
      qed
      then have "recs e k = None" if "k \<le> last_key" "k \<noteq> copying_key" for k using that by auto
      moreover have "t = (e, None)" using less.prems(1) 1 Inr by (simp add: wiped.simps [of E e])
      ultimately show ?thesis using less.prems(2) by simp
    next
      case (2 why)
      then have "t = (e, Some why)" using less.prems(1) Inr by (simp add: wiped.simps [of E e])
      then show ?thesis using less.prems(2) by simp
    next
      case (3 e')
      have gone: "changed (map (\<lambda>k. (k, None)) ks) m k = (if k \<in> set ks then None else m k)" for ks and m :: "key \<rightharpoonup> bytes" and k
        by (induction ks arbitrary: m) auto
      have in_dom: "set ?gone \<subseteq> dom (recs e)" using page fin by (auto simp: between_def dest!: in_set_takeD)
      obtain g where "g \<in> set ?gone" using 3(1) by (cases ?gone) auto
      moreover have dom: "dom (recs e') = dom (recs e) - set ?gone" "ok e'" "recs e copying_key \<noteq> None \<Longrightarrow> recs e' copying_key \<noteq> None"
        using deferred_law [OF less.prems(2) 3(2)] by (auto simp: gone dom_def)
      ultimately have "dom (recs e') \<subset> dom (recs e)" using in_dom by blast
      then have "card (dom (recs e')) < card (dom (recs e))" by (rule psubset_card_mono [OF fin])
      moreover have "wiped E e' = Some t" using less.prems(1) Inr 3 by (simp add: wiped.simps [of E e])
      ultimately show ?thesis using less.hyps dom(2,3) by blast
    qed
  qed
qed

lemma copying_wiped_one:
  assumes "wiped_one E rewrap k e = Some t" and "ok e"
  shows "ok (fst t) \<and> (recs e copying_key \<noteq> None \<longrightarrow> recs (fst t) copying_key \<noteq> None)"
proof -
  obtain u where u: "wiped E e = Some u" "t = tried_then u (\<lambda>e'. try_on e' (bindr (keyed (rewrap k)) (en_write E e' data_key_at)))"
    using assms(1) by (auto simp: wiped_one_def)
  note w = wiped_is [OF u(1) assms(2)]
  show ?thesis
  proof (cases "snd u")
    case (Some why)
    then show ?thesis using w u(2) by (cases u) (simp add: tried_then_def)
  next
    case None
    then have t: "t = try_on (fst u) (bindr (keyed (rewrap k)) (en_write E (fst u) data_key_at))" using u(2) by (cases u) (simp add: tried_then_def)
    show ?thesis
    proof (cases "bindr (keyed (rewrap k)) (en_write E (fst u) data_key_at)")
      case (Inl why)
      then show ?thesis using t w by (simp add: try_on_def)
    next
      case (Inr e')
      then obtain v where "en_write E (fst u) data_key_at v = Inr e'" by (auto simp: bindr_eq_Inr)
      then show ?thesis using write_law [of "fst u" data_key_at v e'] t w Inr by (simp add: try_on_def)
    qed
  qed
qed

lemma wiped_one_ends: "ok e \<Longrightarrow> \<exists>t. wiped_one E rewrap k e = Some t"
  using wiped_ends [of e] by (auto simp: wiped_one_def)

lemma copying_wiped_each:
  "copying_in recs ok n \<Longrightarrow> \<forall>(d, k) \<in> set dks. d < databases \<Longrightarrow>
    \<exists>t. wiped_each E rewrap dks n = Some t \<and> copying_in recs ok (fst t)"
proof (induction dks arbitrary: n)
  case (Cons dk dks)
  obtain d k where dk: "dk = (d, k)" "d < databases" using Cons.prems(2) by (cases dk) auto
  note at = copying_at [OF Cons.prems(1) dk(2)]
  obtain e why where t: "wiped_one E rewrap k (engine_at d n) = Some (e, why)" using wiped_one_ends at by fastforce
  have "copying_in recs ok (with_engine d e n)"
    using copying_with [OF Cons.prems(1) dk(2), of e] copying_wiped_one [OF t] at by auto
  then show ?case using Cons t by (cases why) (auto simp: dk(1))
qed simp

lemma copying_whole_begun: "copying_in recs ok n \<Longrightarrow> copying_in recs ok (fst (whole_begun E n))"
proof -
  assume n: "copying_in recs ok n"
  obtain m why where m: "apply_at E 0 [(copying_key, Some [1])] n = (m, why)" by (cases "apply_at E 0 [(copying_key, Some [1])] n")
  have "copying_in recs ok m"
  proof (cases "en_apply E (engine_at 0 n) [(copying_key, Some [1])]")
    case (Inr e)
    then have "ok e" "recs e copying_key \<noteq> None" using apply_law [OF _ Inr] copying_at [OF n, of 0] by (auto simp: databases_def)
    then show ?thesis using m Inr copying_with [OF n, of 0 e] by (auto simp: apply_at_def try_on_def databases_def)
  qed (use m n in \<open>auto simp: apply_at_def try_on_def\<close>)
  then show ?thesis using m by (cases why) (auto simp: whole_begun_def tried_then_def)
qed

lemma copying_whole_taken:
  assumes "copying_in recs ok (fst (whole_begun E n))"
  shows "\<exists>f. whole_taken E rewrap say (h, e, ks) n w = Some f \<and> copying_in recs ok (fl_node f) \<and>
    (fl_whole f = w \<or> fl_whole f = Some \<lparr>wh_history = h, wh_next = replicate databases None\<rparr>)"
proof -
  obtain n1 why where n1: "whole_begun E n = (n1, why)" by (cases "whole_begun E n")
  then have at: "copying_in recs ok n1" using assms by simp
  have "\<exists>t. wiped_all E rewrap ks n1 = Some t \<and> copying_in recs ok (fst t)"
  proof (cases "length ks = databases")
    case True
    then have "\<forall>(d, k) \<in> set (enumerate 0 ks). d < databases" by (auto simp: in_set_enumerate_eq)
    then show ?thesis using copying_wiped_each [OF at, of "enumerate 0 ks" rewrap] True by (simp add: wiped_all_def)
  qed (simp add: wiped_all_def at)
  then obtain n2 why' where n2: "wiped_all E rewrap ks n1 = Some (n2, why')" "copying_in recs ok n2" by auto
  show ?thesis using n1 n2 at copying_heard [OF n2(2), of e]
    by (cases why; cases why') (auto simp: whole_taken_def follows_on_def)
qed

lemma copying_frame:
  assumes "copying_in recs ok n" and "fair_frame x" and "\<And>m. x \<noteq> Copied d m" and "unat d < databases" and "end_unsaid (unat d) w"
  shows "\<exists>f. frame_taken E rewrap say x n w = Some f \<and> copying_in recs ok (fl_node f) \<and> end_unsaid (unat d) (fl_whole f)"
proof (cases x)
  case (Beat e)
  then show ?thesis using copying_heard [OF assms(1)] assms(5) by (simp add: frame_taken_def follows_on_def)
next
  case (Copy d' m cs)
  then show ?thesis using copying_copy [OF assms(1)] assms(2,5) by (simp add: frame_taken_def follows_on_def fair_frame_def)
next
  case (Whole h e ks)
  obtain f where "whole_taken E rewrap say (h, e, ks) n w = Some f" "copying_in recs ok (fl_node f)"
      "fl_whole f = w \<or> fl_whole f = Some \<lparr>wh_history = h, wh_next = replicate databases None\<rparr>"
    using copying_whole_taken [OF copying_whole_begun [OF assms(1)]] by blast
  moreover from this have "end_unsaid (unat d) (fl_whole f)" using assms(4,5) by (auto simp: end_unsaid_def)
  ultimately show ?thesis using Whole by (simp add: frame_taken_def)
next
  case (Entries d' es)
  then show ?thesis using copying_entries [OF assms(1)] assms(2,5) by (simp add: frame_taken_def follows_on_def fair_frame_def)
next
  case (Copied d' m)
  then have other: "d' \<noteq> d" using assms(3) by blast
  show ?thesis
  proof (cases w)
    case None
    then show ?thesis using Copied assms(1) by (simp add: frame_taken_def end_unsaid_def)
  next
    case (Some v)
    let ?v = "v\<lparr>wh_next := (wh_next v)[unat d' := Some m]\<rparr>"
    have "unat d' \<noteq> unat d" using other by (simp add: word_unat_eq_iff)
    then have unsaid: "end_unsaid (unat d) (Some ?v)" using assms(5) Some by (simp add: end_unsaid_def)
    then have "\<not> list_all (\<lambda>p. p \<noteq> None) (wh_next ?v)"
      using assms(4) by (auto simp: end_unsaid_def list_all_length)
    then show ?thesis using Copied Some assms(1) unsaid by (simp add: frame_taken_def follows_on_def Let_def)
  qed
next
  case (Declined why)
  then show ?thesis using assms(1,5) by (simp add: frame_taken_def)
qed

lemma copying_frames:
  assumes "\<forall>x \<in> set xs. fair_frame x \<and> (\<forall>m. x \<noteq> Copied d m)" and "unat d < databases"
    and "copying_in recs ok (fl_node f)" and "end_unsaid (unat d) (fl_whole f)"
  shows "\<exists>f'. frames_taken E rewrap say xs f = Some f' \<and> copying_in recs ok (fl_node f')"
  using assms(1,3,4)
proof (induction xs arbitrary: f)
  case (Cons x xs)
  show ?case
  proof (cases "fl_ended f = None")
    case True
    have "\<exists>f'. frame_taken E rewrap say x (fl_node f) (fl_whole f) = Some f' \<and> copying_in recs ok (fl_node f') \<and> end_unsaid (unat d) (fl_whole f')"
      by (rule copying_frame [OF Cons.prems(2) _ _ assms(2) Cons.prems(3)]) (use Cons.prems(1) in auto)
    then obtain f' where f': "frame_taken E rewrap say x (fl_node f) (fl_whole f) = Some f'" "copying_in recs ok (fl_node f')" "end_unsaid (unat d) (fl_whole f')"
      by blast
    then show ?thesis using Cons.IH [OF _ f'(2,3)] Cons.prems(1) True by simp
  next
    case False
    then show ?thesis using Cons.prems(2) by simp
  qed
qed simp

lemma copying_said: "copying_in recs ok n \<Longrightarrow> is_copying E n"
  using read_law [of "engine_at 0 n" copying_key] by (auto simp: copying_in_def is_copying_def databases_def split: sum.splits)

lemma copying_made_again: "copying_in recs ok n \<Longrightarrow> node_new E process at_most (nd_engines n) = Inr m \<Longrightarrow> is_copying E m"
  by (rule copying_said) (auto simp: node_new_def bindr_eq_Inr copying_in_def engine_at_def Let_def split_beta)

text \<open>A wipe takes the epoch kept with the rest, and it is written again only where it is later.\<close>

lemma epoch_below: "epoch_key \<le> last_key"
  unfolding last_key_def by (rule le_all_ones) (simp add: epoch_key_def own_prefix_def as_bytes_def)

lemma wiped_one_epoch:
  assumes "wiped_one E rewrap k e = Some (e', None)" and "ok e"
  shows "recs e' epoch_key = None"
proof -
  obtain u where u: "wiped E e = Some u" "(e', None) = tried_then u (\<lambda>e'. try_on e' (bindr (keyed (rewrap k)) (en_write E e' data_key_at)))"
    using assms(1) by (auto simp: wiped_one_def)
  then obtain v where v: "snd u = None" "en_write E (fst u) data_key_at v = Inr e'"
    by (cases u; cases "snd u") (auto simp: tried_then_def try_on_def bindr_eq_Inr split: sum.splits)
  then show ?thesis using wiped_is [OF u(1) assms(2)] epoch_below write_law [of "fst u" data_key_at v e'] by auto
qed

lemma begun_copying:
  assumes "length (nd_engines n) = databases" and "\<forall>d < databases. ok (engine_at d n)" and "snd (whole_begun E n) = None"
  shows "copying_in recs ok (fst (whole_begun E n))"
proof -
  obtain e where e: "en_apply E (engine_at 0 n) [(copying_key, Some [1])] = Inr e"
    using assms(3) by (cases "en_apply E (engine_at 0 n) [(copying_key, Some [1])]")
      (auto simp: whole_begun_def apply_at_def try_on_def tried_then_def)
  have "ok (engine_at 0 n)" using assms(2) by (simp add: databases_def)
  then have "ok e" "recs e copying_key \<noteq> None" using apply_law [OF _ e] by auto
  then have "copying_in recs ok (with_engine 0 e n)"
    using assms(1,2) by (auto simp: copying_in_def with_engine_def engine_at_def nth_list_update databases_def)
  then show ?thesis using e by (simp add: whole_begun_def apply_at_def try_on_def tried_then_def)
qed

lemma cut_short:
  assumes n: "length (nd_engines n) = databases" "\<forall>d < databases. ok (engine_at d n)"
    and start: "recs (engine_at 0 n) copying_key \<noteq> None \<or> (\<exists>h e ks ys. xs = Whole h e ks # ys \<and> snd (whole_begun E n) = None)"
    and frames: "\<forall>x \<in> set xs. fair_frame x \<and> (\<forall>m. x \<noteq> Copied d m)" and d: "unat d < databases"
  shows "\<exists>f. frames_taken E rewrap say xs \<lparr>fl_node = n, fl_whole = None, fl_ended = None\<rparr> = Some f \<and> copying_in recs ok (fl_node f)"
  using start
proof
  assume "recs (engine_at 0 n) copying_key \<noteq> None"
  then have "copying_in recs ok n" using n by (simp add: copying_in_def)
  then show ?thesis by (intro copying_frames [OF frames d]) (simp_all add: end_unsaid_def)
next
  assume "\<exists>h e ks ys. xs = Whole h e ks # ys \<and> snd (whole_begun E n) = None"
  then obtain h e ks ys where xs: "xs = Whole h e ks # ys" "snd (whole_begun E n) = None" by blast
  obtain f where f: "whole_taken E rewrap say (h, e, ks) n None = Some f" "copying_in recs ok (fl_node f)"
      "fl_whole f = None \<or> fl_whole f = Some \<lparr>wh_history = h, wh_next = replicate databases None\<rparr>"
    using copying_whole_taken [OF begun_copying [OF n xs(2)]] by blast
  have "end_unsaid (unat d) (fl_whole f)" using f(3) d by (auto simp: end_unsaid_def)
  from copying_frames [OF _ d f(2) this, of ys] frames f(1) show ?thesis by (simp add: xs(1) frame_taken_def)
qed

lemma wiped_each_others: "\<forall>(d, k) \<in> set dks. d \<noteq> 0 \<Longrightarrow> wiped_each E rewrap dks n = Some t \<Longrightarrow>
    engine_at 0 (fst t) = engine_at 0 n \<and> nd_epoch (fst t) = nd_epoch n"
proof (induction dks arbitrary: n)
  case (Cons dk dks)
  obtain d k where dk: "dk = (d, k)" "d \<noteq> 0" using Cons.prems(1) by (cases dk) auto
  then have same: "engine_at 0 (with_engine d e n) = engine_at 0 n" "nd_epoch (with_engine d e n) = nd_epoch n" for e
    by (simp_all add: engine_at_def with_engine_def)
  show ?case using Cons.prems Cons.IH same by (fastforce simp: dk(1) split: option.splits prod.splits)
qed auto

lemma epoch_forgotten:
  assumes n: "length (nd_engines n) = databases" "ok (engine_at 0 n)" and e: "e \<le> nd_epoch n"
    and took: "whole_taken E rewrap say (h, e, ks) n w = Some f" "fl_ended f = None"
  shows "recs (engine_at 0 (fl_node f)) epoch_key = None"
proof -
  obtain n1 why where n1: "whole_begun E n = (n1, why)" by (cases "whole_begun E n")
  obtain n2 where n2: "why = None" "wiped_all E rewrap ks n1 = Some (n2, None)" "fl_node f = heard_epoch E e n2"
    using took n1 by (auto simp: whole_taken_def follows_on_def split: option.splits prod.splits)
  obtain e0 where e0: "en_apply E (engine_at 0 n) [(copying_key, Some [1])] = Inr e0" "engine_at 0 n1 = e0" "nd_epoch n1 = nd_epoch n"
    using n1 n2(1) n(1) by (cases "en_apply E (engine_at 0 n) [(copying_key, Some [1])]")
      (auto simp: whole_begun_def apply_at_def try_on_def tried_then_def engine_at_def with_engine_def databases_def)
  have "length ks = databases" using n2(2) by (auto simp: wiped_all_def split: if_splits)
  then obtain k ks' where ks: "ks = k # ks'" by (cases ks) (auto simp: databases_def)
  have each: "wiped_each E rewrap ((0, k) # enumerate 1 ks') n1 = Some (n2, None)"
    using n2(2) \<open>length ks = databases\<close> by (simp add: wiped_all_def ks)
  then obtain e1 where e1: "wiped_one E rewrap k (engine_at 0 n1) = Some (e1, None)"
      "wiped_each E rewrap (enumerate 1 ks') (with_engine 0 e1 n1) = Some (n2, None)"
    by (auto split: option.splits prod.splits)
  have "ok (engine_at 0 n1)" using apply_law [OF n(2) e0(1)] e0(2) by simp
  then have gone: "recs e1 epoch_key = None" by (rule wiped_one_epoch [OF e1(1)])
  have "0 < length (nd_engines n1)"
    using n1 n(1) n2(1) by (cases "en_apply E (engine_at 0 n) [(copying_key, Some [1])]")
      (auto simp: whole_begun_def apply_at_def try_on_def tried_then_def with_engine_def databases_def)
  moreover have "\<forall>(d, k) \<in> set (enumerate 1 ks'). d \<noteq> 0" by (auto simp: in_set_enumerate_eq)
  ultimately have "engine_at 0 n2 = e1" "nd_epoch n2 = nd_epoch n"
    using wiped_each_others [OF _ e1(2)] e0(3) by (auto simp: engine_at_def with_engine_def)
  moreover have "\<not> e > nd_epoch n" using e by (simp add: linorder_not_less)
  ultimately show ?thesis using gone n2(3) by (simp add: heard_epoch_def)
qed

end

section \<open>The epoch a whole copy loses\<close>

text \<open>
  A standby copied whole keeps the epoch it met in memory only, where its primary's is no later: the
  wipe takes the record of it, so a node started again on its databases begins in epoch 0.
\<close>

lemma whole_copy_forgets_epoch:
  assumes "engine_laws E recs ok" and "length (nd_engines n) = databases" and "ok (engine_at 0 n)" and "e \<le> nd_epoch n"
    and "whole_taken E rewrap say (h, e, ks) n w = Some f" and "fl_ended f = None"
    and "ok (engine_at 0 (fl_node f))" and "node_new E process at_most (nd_engines (fl_node f)) = Inr m"
  shows "nd_epoch m = 0"
proof -
  have "recs (engine_at 0 (fl_node f)) epoch_key = None" by (rule engine_laws.epoch_forgotten [OF assms(1-6)])
  then have "v = None" if "en_read E (nd_engines (fl_node f) ! 0) epoch_key = Inr v" for v
    using engine_laws.read_law [OF assms(1,7), of epoch_key v] that by (simp add: engine_at_def)
  then show ?thesis using assms(8) by (auto simp: node_new_def bindr_eq_Inr Let_def split_beta kept_epoch_def)
qed

section \<open>Properties\<close>

text \<open>
  C24: A whole copy cut short stays said. Once a whole copy into a node has begun, whatever frames come
  after it, taken or refused, and whichever fails part of the way: until the end of every database's
  copy is said, the node says that a copy is under way in it, and so does one started again on its
  databases; and each frame is dealt with, the wipe of a database among them.
\<close>

theorem cut_short_stays_cut_short:
  assumes "engine_laws E recs ok" and "length (nd_engines n) = databases" and "\<forall>d < databases. ok (engine_at d n)"
    and "recs (engine_at 0 n) copying_key \<noteq> None \<or> (\<exists>h e ks ys. xs = Whole h e ks # ys \<and> snd (whole_begun E n) = None)"
    and "\<forall>x \<in> set xs. fair_frame x \<and> (\<forall>m. x \<noteq> Copied d m)" and "unat d < databases"
  shows "\<exists>f. frames_taken E rewrap say xs \<lparr>fl_node = n, fl_whole = None, fl_ended = None\<rparr> = Some f \<and> is_copying E (fl_node f) \<and>
    (\<forall>process at_most m. node_new E process at_most (nd_engines (fl_node f)) = Inr m \<longrightarrow> is_copying E m)"
proof -
  obtain f where "frames_taken E rewrap say xs \<lparr>fl_node = n, fl_whole = None, fl_ended = None\<rparr> = Some f" "copying_in recs ok (fl_node f)"
    using engine_laws.cut_short [OF assms] by blast
  then show ?thesis
    using engine_laws.copying_said [OF assms(1)] engine_laws.copying_made_again [OF assms(1)] by blast
qed

definition sample_node :: "memory node" where
  "sample_node = \<lparr>nd_process = 1, nd_engines = [[], [], []], nd_copies = copies_new 0 [1, 1, 1] 1000, nd_epoch = 5, nd_role = StandbyOf ''first''\<rparr>"

theorem cut_short_stays_cut_short_witness:
  "\<exists>f. frames_taken memory_engine (\<lambda>k. Inr k) (\<lambda>_. []) [Whole 9 5 [[1], [2], [3]], Entries 0 [([5], [1])], Copied 0 4]
      \<lparr>fl_node = sample_node, fl_whole = None, fl_ended = None\<rparr> = Some f \<and> is_copying memory_engine (fl_node f)"
proof -
  have engines: "\<forall>d < databases. ordered (engine_at d sample_node)"
    by (auto simp: sample_node_def engine_at_def databases_def less_Suc_eq numeral_3_eq_3)
  have begun: "snd (whole_begun memory_engine sample_node) = None"
    by (simp add: whole_begun_def apply_at_def memory_engine_def memory_apply_def try_on_def tried_then_def)
  have frames: "\<forall>x \<in> set [Whole 9 5 [[1], [2], [3]], Entries 0 [([5], [1])], Copied 0 4]. fair_frame x \<and> (\<forall>m. x \<noteq> Copied 1 m)"
    by (simp add: fair_frame_def databases_def)
  from cut_short_stays_cut_short [OF memory.engine_laws_axioms _ engines disjI2 frames, of "\<lambda>k. Inr k" "\<lambda>_. []"] begun
  show ?thesis by (fastforce simp: sample_node_def databases_def)
qed

end
