(* ===== verification/Promotion.thy ===== *)
theory Promotion
  imports Following
begin

text \<open>
  How the Storage nodes settle which is the primary (\<open>src/.src/storage/standby/finding.rs\<close>, the
  standing of \<open>src/.src/storage/standby/served.rs\<close>): what each does with what the others answer it. Of
  nodes given the same answers one is promoted, the one holding most of the latest epoch, and a
  promotion's epoch is above every one answered. The asking, the waiting and the opening of the
  databases are parameters: the answers, whether the silence has passed, and \<open>opening\<close>.
\<close>

section \<open>What is answered\<close>

record answered =
  an_place :: nat
  an_address :: string
  an_standing :: node_standing

definition standing_of :: "'e engine \<Rightarrow> bool \<Rightarrow> 'e node \<Rightarrow> node_standing" where
  "standing_of E stopping n = \<lparr>ns_process = nd_process n, ns_primary = (nd_role n = IsPrimary \<and> \<not> stopping), ns_epoch = nd_epoch n,
     ns_history = co_history (nd_copies n), ns_next = copies_next (nd_copies n), ns_copying = is_copying E n\<rparr>"

text \<open>Of the answers in the order of the list, those that came: the place in it each is at.\<close>

definition standings :: "(string \<times> node_standing option) list \<Rightarrow> answered list" where
  "standings asked = List.map_filter (\<lambda>(place, address, s). map_option (\<lambda>s. \<lparr>an_place = place, an_address = address, an_standing = s\<rparr>) s)
     (enumerate 0 asked)"

section \<open>Who is promoted\<close>

definition rank :: "answered \<Rightarrow> u64 \<times> u64" where
  "rank a = (ns_epoch (an_standing a), standing_held (an_standing a))"

text \<open>\<open>Iterator::max_by\<close>: the last of the greatest; a place earlier in the list is the greater.\<close>

definition above :: "answered \<Rightarrow> answered \<Rightarrow> bool" where
  "above a b \<longleftrightarrow> rank a > rank b \<or> rank a = rank b \<and> an_place a < an_place b"

definition best_of :: "answered list \<Rightarrow> answered option" where
  "best_of as = (case as of [] \<Rightarrow> None | a # as \<Rightarrow> Some (foldl (\<lambda>x y. if above x y then x else y) a as))"

definition promotes :: "u128 \<Rightarrow> bool \<Rightarrow> answered list \<Rightarrow> bool" where
  "promotes process silent as = (case find (\<lambda>a. ns_process (an_standing a) = process) as of
     None \<Rightarrow> False
   | Some me \<Rightarrow> if ns_copying (an_standing me) then False
       else if map_option an_place (best_of (filter (\<lambda>a. \<not> ns_copying (an_standing a)) as)) \<noteq> Some (an_place me) then False
       else list_all (\<lambda>place. list_ex (\<lambda>a. an_place a = place) as) [0 ..< an_place me] \<or> silent)"

datatype settles =
    Follows string u64
  | Promoted u64
  | Waits

definition latest_epoch :: "answered list \<Rightarrow> u64" where
  "latest_epoch as = foldl max 0 (map (\<lambda>a. ns_epoch (an_standing a)) as)"

definition find_round :: "bool \<Rightarrow> answered list \<Rightarrow> 'e node \<Rightarrow> settles" where
  "find_round silent as n = (case find (\<lambda>a. ns_primary (an_standing a) \<and> ns_process (an_standing a) \<noteq> nd_process n \<and>
       ns_epoch (an_standing a) \<ge> nd_epoch n) as of
     Some a \<Rightarrow> Follows (an_address a) (ns_epoch (an_standing a))
   | None \<Rightarrow> if promotes (nd_process n) silent as then Promoted (max (latest_epoch as) (nd_epoch n) + 1) else Waits)"

text \<open>A primary asks the others, each silence, and steps down where one is of a later epoch.\<close>

definition keep_primary :: "'e engine \<Rightarrow> answered list \<Rightarrow> 'e node \<Rightarrow> 'e node" where
  "keep_primary E as n = (if list_ex (\<lambda>a. ns_primary (an_standing a) \<and> ns_process (an_standing a) \<noteq> nd_process n \<and>
     ns_epoch (an_standing a) > nd_epoch n) as then take_up E Finding 0 n else n)"

section \<open>A promotion\<close>

definition cut_short_copy :: persist_error where
  "cut_short_copy = Failed ''a whole copy into it was cut short; it holds part of a Ledger''"

definition removed_at :: "'e engine \<Rightarrow> nat \<Rightarrow> key \<Rightarrow> 'e node \<Rightarrow> 'e node tried" where
  "removed_at E d k n = try_on n (bindr (en_remove E (engine_at d n) k) (\<lambda>e. Inr (with_engine d e n)))"

fun positions_removed :: "'e engine \<Rightarrow> nat list \<Rightarrow> 'e node \<Rightarrow> 'e node tried" where
  "positions_removed E [] n = (n, None)"
| "positions_removed E (d # ds) n = tried_then (removed_at E d position_key n) (positions_removed E ds)"

definition promote :: "'e engine \<Rightarrow> u128 \<Rightarrow> ('e list \<Rightarrow> 'e list tried) \<Rightarrow> u64 \<Rightarrow> 'e node \<Rightarrow> 'e node tried" where
  "promote E random opening epoch n = (if is_copying E n then (n, Some cut_short_copy)
     else let n = (if co_history (nd_copies n) = 0
         then n\<lparr>nd_copies := copies_restart random (replicate databases 1) (nd_copies n)\<rparr> else n) in
       tried_then (positions_removed E [0 ..< databases] n) (\<lambda>n.
       let (es, refused) = opening (nd_engines n) in
       tried_then (n\<lparr>nd_engines := es\<rparr>, refused) (\<lambda>n. (take_up E IsPrimary epoch n, None))))"

section \<open>The greatest of the answers\<close>

lemma above_total: "an_place a \<noteq> an_place b \<Longrightarrow> above a b \<noteq> above b a"
  by (auto simp: above_def)

lemma above_trans: "above a b \<Longrightarrow> above b c \<Longrightarrow> above a c"
  by (auto simp: above_def)

lemma best_among: "best_of as = Some b \<Longrightarrow> b \<in> set as"
proof -
  have "foldl (\<lambda>x y. if above x y then x else y) a as \<in> insert a (set as)" for a as
    by (induction as arbitrary: a) auto
  then show "best_of as = Some b \<Longrightarrow> b \<in> set as" by (fastforce simp: best_of_def split: list.splits)
qed

lemma best_above:
  assumes "best_of as = Some b" and "distinct (map an_place as)" and "a \<in> set as" and "a \<noteq> b"
  shows "above b a"
proof -
  have "a' \<in> insert x (set as) \<Longrightarrow> a' \<noteq> foldl (\<lambda>x y. if above x y then x else y) x as \<Longrightarrow>
      above (foldl (\<lambda>x y. if above x y then x else y) x as) a'"
    if "distinct (map an_place (x # as))" for x as a'
    using that
  proof (induction as arbitrary: x a')
    case (Cons y as)
    let ?z = "if above x y then x else y" and ?w = "if above x y then y else x"
    have z: "above ?z ?w" using above_total [of x y] Cons.prems(3) by auto
    have d: "distinct (map an_place (?z # as))" using Cons.prems(3) by auto
    let ?f = "foldl (\<lambda>x y. if above x y then x else y) ?z as"
    have top: "?f = ?z \<or> above ?f ?z" using Cons.IH [of ?z ?z] d by auto
    show ?case
    proof (cases "a' = ?w")
      case True
      then show ?thesis using top z above_trans by auto
    next
      case False
      then have "a' \<in> insert ?z (set as)" using Cons.prems(1) by (auto split: if_splits)
      then show ?thesis using Cons.IH [of a' ?z] Cons.prems(2) d by simp
    qed
  qed simp
  then show ?thesis using assms by (cases as) (auto simp: best_of_def)
qed

lemma one_place: "distinct (map an_place as) \<Longrightarrow> a \<in> set as \<Longrightarrow> b \<in> set as \<Longrightarrow> an_place a = an_place b \<Longrightarrow> a = b"
  by (auto simp: distinct_map inj_on_def)

lemma promotes_is:
  assumes "distinct (map an_place as)" and "promotes p silent as"
  shows "\<exists>b. best_of (filter (\<lambda>a. \<not> ns_copying (an_standing a)) as) = Some b \<and> ns_process (an_standing b) = p"
proof -
  obtain me where me: "find (\<lambda>a. ns_process (an_standing a) = p) as = Some me"
      "map_option an_place (best_of (filter (\<lambda>a. \<not> ns_copying (an_standing a)) as)) = Some (an_place me)"
    using assms(2) by (auto simp: promotes_def split: option.splits if_splits)
  then obtain b where b: "best_of (filter (\<lambda>a. \<not> ns_copying (an_standing a)) as) = Some b" "an_place b = an_place me" by auto
  have "b \<in> set as" using best_among [OF b(1)] by simp
  moreover have "me \<in> set as" "ns_process (an_standing me) = p" using me(1) by (auto simp: find_Some_iff)
  ultimately show ?thesis using one_place [OF assms(1)] b by blast
qed

lemma find_the: "distinct (map f as) \<Longrightarrow> b \<in> set as \<Longrightarrow> find (\<lambda>a. f a = f b) as = Some b"
proof (induction as)
  case (Cons a as)
  then show ?case by (cases "a = b") (auto simp: image_iff)
qed simp

lemma best_promotes:
  assumes "distinct (map (\<lambda>a. ns_process (an_standing a)) as)"
    and "best_of (filter (\<lambda>a. \<not> ns_copying (an_standing a)) as) = Some b"
  shows "promotes (ns_process (an_standing b)) True as"
proof -
  have b: "b \<in> set as" "\<not> ns_copying (an_standing b)" using best_among [OF assms(2)] by simp_all
  then show ?thesis using find_the [OF assms(1) b(1)] assms(2) by (simp add: promotes_def)
qed

lemma latest_above: "a \<in> set as \<Longrightarrow> ns_epoch (an_standing a) \<le> latest_epoch as"
proof -
  have "x \<le> foldl max x xs \<and> (\<forall>y \<in> set xs. y \<le> foldl max x xs)" for x :: u64 and xs
  proof (induction xs arbitrary: x)
    case (Cons z xs)
    from Cons [of "max x z"] show ?case by auto
  qed simp
  then show "a \<in> set as \<Longrightarrow> ns_epoch (an_standing a) \<le> latest_epoch as" by (auto simp: latest_epoch_def)
qed

lemma heard_rises: "nd_epoch n \<le> nd_epoch (heard_epoch E e n) \<and> e \<le> nd_epoch (heard_epoch E e n)"
  by (auto simp: heard_epoch_def with_engine_def Let_def split: sum.splits)

lemma removed_fields: "nd_epoch (fst (removed_at E d k n)) = nd_epoch n"
  by (simp add: removed_at_def try_on_def with_engine_def bindr_def split: sum.splits)

lemma positions_removed_fields: "nd_epoch (fst (positions_removed E ds n)) = nd_epoch n"
proof (induction ds arbitrary: n)
  case (Cons d ds)
  obtain m why where "removed_at E d position_key n = (m, why)" by (cases "removed_at E d position_key n")
  then show ?case using Cons removed_fields [of E d position_key n] by (cases why) (simp_all add: tried_then_def)
qed simp

lemma promote_is:
  assumes "promote E random opening e n = (n', None)"
  shows "\<not> is_copying E n \<and> (\<exists>m. nd_epoch m = nd_epoch n \<and> n' = take_up E IsPrimary e m)"
proof -
  define n0 where "n0 = (if co_history (nd_copies n) = 0 then n\<lparr>nd_copies := copies_restart random (replicate databases 1) (nd_copies n)\<rparr> else n)"
  have "nd_epoch n0 = nd_epoch n" by (simp add: n0_def)
  have copying: "\<not> is_copying E n" using assms by (auto simp: promote_def cut_short_copy_def)
  obtain m why where m: "positions_removed E [0 ..< databases] n0 = (m, why)" by (cases "positions_removed E [0 ..< databases] n0")
  have "nd_epoch m = nd_epoch n" using positions_removed_fields [of E "[0 ..< databases]" n0] m \<open>nd_epoch n0 = nd_epoch n\<close> by simp
  moreover have "why = None \<and> (\<exists>es. n' = take_up E IsPrimary e (m\<lparr>nd_engines := es\<rparr>))"
    using assms copying m unfolding promote_def n0_def [symmetric] Let_def by (cases why) (auto simp: tried_then_def split: prod.splits option.splits)
  ultimately obtain es where "n' = take_up E IsPrimary e (m\<lparr>nd_engines := es\<rparr>)" "nd_epoch (m\<lparr>nd_engines := es\<rparr>) = nd_epoch n" by auto
  then show ?thesis using copying by blast
qed

section \<open>Two primaries of one epoch\<close>

text \<open>
  Two Storage nodes that cannot reach each other each find themselves alone, and are promoted in one
  epoch; once they reach each other again neither is of a later epoch than the other, and neither
  steps down.
\<close>

lemma primaries_of_one_epoch_stay:
  assumes "\<forall>a \<in> set as. ns_epoch (an_standing a) \<le> nd_epoch n"
  shows "keep_primary E as n = n"
  using assms by (auto simp: keep_primary_def list_ex_iff linorder_not_less)

definition alone :: "nat \<Rightarrow> u128 \<Rightarrow> u64 \<Rightarrow> answered" where
  "alone at process epoch = \<lparr>an_place = at, an_address = [], an_standing =
     \<lparr>ns_process = process, ns_primary = False, ns_epoch = epoch, ns_history = 7, ns_next = [1, 1, 1], ns_copying = False\<rparr>\<rparr>"

lemma both_promoted:
  assumes "nd_process n = 1" and "nd_process m = 2" and "nd_epoch n = 3" and "nd_epoch m = 3"
  shows "find_round True [alone 0 1 3] n = Promoted 4 \<and> find_round True [alone 1 2 3] m = Promoted 4"
  using assms by (simp add: find_round_def alone_def promotes_def best_of_def latest_epoch_def)

section \<open>Properties\<close>

text \<open>
  C23: Of the Storage nodes settling on the same answers one is promoted and no other, whichever has
  waited out the silence: one that says no whole copy is under way in it, and holds most of the latest
  epoch of those that say so; there is one wherever any of them says so.
\<close>

theorem one_node_is_promoted:
  assumes "distinct (map an_place as)" and "distinct (map (\<lambda>a. ns_process (an_standing a)) as)"
    and "\<exists>a \<in> set as. \<not> ns_copying (an_standing a)"
  shows "\<exists>p. promotes p True as \<and> (\<forall>q silent. promotes q silent as \<longrightarrow> q = p) \<and>
    (\<exists>b \<in> set as. ns_process (an_standing b) = p \<and> \<not> ns_copying (an_standing b) \<and>
      (\<forall>a \<in> set as. \<not> ns_copying (an_standing a) \<longrightarrow> rank a \<le> rank b))"
proof -
  let ?whole = "filter (\<lambda>a. \<not> ns_copying (an_standing a)) as"
  have "?whole \<noteq> []" using assms(3) by (auto simp: filter_empty_conv)
  then obtain b where b: "best_of ?whole = Some b" by (cases ?whole) (auto simp: best_of_def)
  have "distinct (map an_place ?whole)" using assms(1) by (simp add: distinct_map_filter)
  then have "rank a \<le> rank b" if "a \<in> set ?whole" for a
    using best_above [OF b _ that] by (cases "a = b") (auto simp: above_def)
  moreover have "q = ns_process (an_standing b)" if "promotes q silent as" for q silent
    using promotes_is [OF assms(1) that] b by auto
  ultimately show ?thesis using best_promotes [OF assms(2) b] best_among [OF b] by auto
qed

text \<open>
  C22: A promotion raises the epoch: a node is promoted in an epoch above its own and every one it was
  answered, where no other primary of its epoch or a later one answered it and no whole copy is under
  way in it; promoted, it is the primary in that epoch.
\<close>

theorem promotion_raises_epoch:
  assumes "find_round silent as n = Promoted e" and "e \<noteq> 0" and "promote E random opening e n = (n', None)"
  shows "nd_epoch n < e \<and> (\<forall>a \<in> set as. ns_epoch (an_standing a) < e) \<and> nd_epoch n' = e \<and> nd_role n' = IsPrimary \<and> \<not> is_copying E n \<and>
    (\<forall>a \<in> set as. ns_primary (an_standing a) \<and> ns_process (an_standing a) \<noteq> nd_process n \<longrightarrow> ns_epoch (an_standing a) < nd_epoch n)"
proof -
  let ?m = "max (latest_epoch as) (nd_epoch n)"
  have e: "e = ?m + 1" and none: "\<forall>a \<in> set as. \<not> (ns_primary (an_standing a) \<and> ns_process (an_standing a) \<noteq> nd_process n \<and>
      ns_epoch (an_standing a) \<ge> nd_epoch n)"
    using assms(1) by (auto simp: find_round_def find_None_iff split: option.splits if_splits)
  have "?m \<noteq> - 1" using assms(2) e by auto
  then have up: "x < e \<longleftrightarrow> x \<le> ?m" for x using u64_less_Suc [of ?m x] e by simp
  obtain m where m: "nd_epoch m = nd_epoch n" "n' = take_up E IsPrimary e m" "\<not> is_copying E n" using promote_is [OF assms(3)] by blast
  have own: "nd_epoch n < e" unfolding up by simp
  have "nd_epoch n' = e \<and> nd_role n' = IsPrimary"
    using own m(1,2) by (auto simp: take_up_def heard_epoch_def Let_def with_engine_def split: sum.splits)
  moreover have "ns_epoch (an_standing a) < e" if "a \<in> set as" for a unfolding up using latest_above [OF that] by (simp add: le_max_iff_disj)
  ultimately show ?thesis using own m(3) none by (auto simp: linorder_not_le)
qed

text \<open>Two standbys, the second holding more, for the witnesses.\<close>

definition sample_answers_two :: "answered list" where
  "sample_answers_two = [alone 0 8 5, (alone 1 1 5)\<lparr>an_standing := \<lparr>ns_process = 1, ns_primary = False, ns_epoch = 5,
     ns_history = 7, ns_next = [4, 1, 1], ns_copying = False\<rparr>\<rparr>]"

theorem one_node_is_promoted_witness: "promotes 1 True sample_answers_two \<and> \<not> promotes 8 True sample_answers_two"
proof -
  have "\<exists>p. promotes p True sample_answers_two \<and> (\<forall>q silent. promotes q silent sample_answers_two \<longrightarrow> q = p)"
    using one_node_is_promoted [of sample_answers_two] by (auto simp: sample_answers_two_def alone_def)
  moreover have "promotes 1 True sample_answers_two"
    by (simp add: sample_answers_two_def alone_def promotes_def best_of_def above_def rank_def standing_held_def word_less_nat_alt)
  moreover have "(1 :: u128) \<noteq> 8" by simp
  ultimately show ?thesis by metis
qed

theorem promotion_raises_epoch_witness:
  "\<exists>n'. promote memory_engine 3 (\<lambda>es. (es, None)) 6 sample_node = (n', None) \<and> nd_epoch n' = 6 \<and> nd_epoch sample_node < 6"
proof -
  have "find_round True sample_answers_two sample_node = Promoted 6"
    by (simp add: sample_answers_two_def alone_def find_round_def promotes_def best_of_def above_def rank_def standing_held_def
        word_less_nat_alt latest_epoch_def sample_node_def)
  note found = this
  have "\<exists>n'. promote memory_engine 3 (\<lambda>es. (es, None)) 6 sample_node = (n', None)"
    by (simp add: promote_def is_copying_def memory_engine_def memory_read_def memory_remove_def sample_node_def engine_at_def
        copies_new_def databases_def upt_rec removed_at_def try_on_def tried_then_def with_engine_def)
  then obtain n' where n': "promote memory_engine 3 (\<lambda>es. (es, None)) 6 sample_node = (n', None)" by blast
  show ?thesis using promotion_raises_epoch [OF found _ n'] n' by auto
qed

end
