(* ===== verification/Whole_Copy.thy ===== *)
theory Whole_Copy
  imports Following
begin

text \<open>
  The whole of a database handed on while its primary goes on writing (\<open>whole\<close> of
  \<open>src/.src/storage/standby/ship.rs\<close>, the entries of \<open>src/.src/storage/standby/follow.rs\<close>): page after
  page in the order of the keys, each page as the engine holds it then, and the writes from where the
  copy began handed on after it. A standby so copied is shown to hold what its primary held once it
  has taken the writes made while it was copied, and not before.
\<close>

section \<open>Page after page\<close>

definition ship_page :: nat where "ship_page = 256"

record 'e whole_ship =
  wc_rep :: "'e replicas"
  wc_first :: key
  wc_done :: bool

definition page_shipped :: "'e engine \<Rightarrow> nat \<Rightarrow> 'e whole_ship \<Rightarrow> 'e whole_ship option" where
  "page_shipped E pg S = (if wc_done S then None else
     case en_scan E (fst (rp_primary (wc_rep S))) (wc_first S) last_key pg False of
       Inl why \<Rightarrow> None
     | Inr found \<Rightarrow> if found = [] then Some (S\<lparr>wc_done := True\<rparr>)
         else (case en_apply_deferred E (fst (rp_standby (wc_rep S)))
             (map (\<lambda>(k, v). (k, Some v)) (filter (\<lambda>(k, v). \<not> own_key k) found)) of
           Inl why \<Rightarrow> None
         | Inr e \<Rightarrow> Some (S\<lparr>wc_rep := (wc_rep S)\<lparr>rp_standby := (e, snd (rp_standby (wc_rep S)))\<rparr>, wc_first := fst (last found) @ [0]\<rparr>)))"

inductive ships_whole :: "'e engine \<Rightarrow> ('e \<Rightarrow> key \<rightharpoonup> bytes) \<Rightarrow> nat \<Rightarrow> nat \<Rightarrow> 'e whole_ship \<Rightarrow> 'e whole_ship \<Rightarrow> bool"
  for E :: "'e engine" and recs :: "'e \<Rightarrow> key \<rightharpoonup> bytes" and d pg :: nat where
  refl: "ships_whole E recs d pg S S"
| wrote: "ships_whole E recs d pg S S' \<Longrightarrow> primary_does E recs d op (wc_rep S') = Some R \<Longrightarrow>
    ships_whole E recs d pg S (S'\<lparr>wc_rep := R\<rparr>)"
| shipped: "ships_whole E recs d pg S S' \<Longrightarrow> page_shipped E pg S' = Some S'' \<Longrightarrow> ships_whole E recs d pg S S''"

text \<open>The primary as it runs, and the standby wiped.\<close>

definition primary_part :: "('e \<Rightarrow> key \<rightharpoonup> bytes) \<Rightarrow> ('e \<Rightarrow> bool) \<Rightarrow> nat \<Rightarrow> 'e replicas \<Rightarrow> bool" where
  "primary_part recs ok d R \<longleftrightarrow> (let (ep, cp) = rp_primary R; kp = co_kept cp ! d in ok ep \<and> d < length (co_kept cp) \<and>
     (\<exists>f. window (rp_seen R) f (kw_writes kp) (unat (kw_next kp))) \<and> rp_seen R (unat (kw_next kp)) = shared (recs ep))"

definition whole_start :: "('e \<Rightarrow> key \<rightharpoonup> bytes) \<Rightarrow> ('e \<Rightarrow> bool) \<Rightarrow> nat \<Rightarrow> 'e whole_ship \<Rightarrow> bool" where
  "whole_start recs ok d S \<longleftrightarrow> primary_part recs ok d (wc_rep S) \<and> ok (fst (rp_standby (wc_rep S))) \<and>
     (\<forall>k \<le> last_key. shared (recs (fst (rp_standby (wc_rep S)))) k = None) \<and> wc_first S = [] \<and> \<not> wc_done S"

definition whole_inv :: "('e \<Rightarrow> key \<rightharpoonup> bytes) \<Rightarrow> ('e \<Rightarrow> bool) \<Rightarrow> nat \<Rightarrow> nat \<Rightarrow> 'e whole_ship \<Rightarrow> bool" where
  "whole_inv recs ok d from S \<longleftrightarrow> (let R = wc_rep S; es = fst (rp_standby R); np = unat (next_at d (rp_primary R)) in
     primary_part recs ok d R \<and> ok es \<and> from \<le> np \<and>
     (\<forall>k \<le> last_key. (k < wc_first S \<or> wc_done S) \<longrightarrow> (\<exists>m. from \<le> m \<and> m \<le> np \<and> shared (recs es) k = rp_seen R m k)) \<and>
     (\<forall>k \<le> last_key. wc_first S \<le> k \<and> \<not> wc_done S \<longrightarrow> shared (recs es) k = None))"

section \<open>A page\<close>

lemma less_snoc_zero: "k < l @ [0 :: u8] \<longleftrightarrow> k \<le> (l :: bytes)"
proof (induction l arbitrary: k)
  case Nil
  have "\<not> (b :: u8) < 0" for b by simp
  then show ?case by (cases k) auto
next
  case (Cons b l)
  then show ?case by (cases k) auto
qed

lemma changed_puts: "distinct (map fst es) \<Longrightarrow> changed (map (\<lambda>(k, v). (k, Some v)) es) m k = (case map_of es k of None \<Rightarrow> m k | Some v \<Rightarrow> Some v)"
proof (induction es arbitrary: m)
  case (Cons e es)
  obtain a b where e: "e = (a, b)" by (cases e)
  have "map_of es a = None" using Cons.prems e by (simp add: map_of_eq_None_iff)
  then show ?case using Cons e by (cases "k = a") (auto split: option.splits)
qed simp

lemma map_of_map_keys_if: "map_of (map (\<lambda>k. (k, f k)) ks) k = (if k \<in> set ks then Some (f k) else None)"
  by (induction ks) auto

text \<open>A page holds every key of the map from its first to its last, each with its value.\<close>

lemma page_whole:
  assumes "finite (dom m)" and es: "es = between m lo hi pg False" and "es \<noteq> []"
  shows "distinct (map fst es)" and "lo \<le> k \<Longrightarrow> k \<le> fst (last es) \<Longrightarrow> map_of es k = m k" and "fst (last es) < k \<or> k < lo \<Longrightarrow> map_of es k = None"
    and "fst (last es) \<le> hi" and "lo \<le> fst (last es)"
proof -
  let ?ks = "sorted_list_of_set {k \<in> dom m. lo \<le> k \<and> k \<le> hi}"
  have fin: "finite {k \<in> dom m. lo \<le> k \<and> k \<le> hi}" using assms(1) by simp
  have keys: "map fst es = take pg ?ks" "es = map (\<lambda>k. (k, the (m k))) (take pg ?ks)"
    by (simp_all add: es between_def take_map comp_def)
  show d: "distinct (map fst es)" unfolding keys(1) by (simp add: distinct_take)
  have ne: "take pg ?ks \<noteq> []" using assms(3) keys(2) by auto
  then have l: "fst (last es) = last (take pg ?ks)" by (simp add: keys(2) last_map)
  have "last (take pg ?ks) \<in> set ?ks" using ne last_in_set in_set_takeD by fast
  then show "fst (last es) \<le> hi" "lo \<le> fst (last es)" using l fin by auto
  have sorted: "sorted (take pg ?ks)" by (simp add: sorted_wrt_take)
  have upto: "x \<in> set (take pg ?ks) \<longleftrightarrow> x \<in> set ?ks \<and> x \<le> fst (last es)" for x
  proof
    assume x: "x \<in> set (take pg ?ks)"
    then obtain i where i: "i < length (take pg ?ks)" "x = take pg ?ks ! i" by (auto simp: in_set_conv_nth)
    have "take pg ?ks ! i \<le> take pg ?ks ! (length (take pg ?ks) - 1)"
      by (rule sorted_nth_mono [OF sorted]) (use i(1) in linarith)+
    then have "x \<le> last (take pg ?ks)" unfolding i(2) last_conv_nth [OF ne] .
    then show "x \<in> set ?ks \<and> x \<le> fst (last es)" using x l by (auto dest: in_set_takeD)
  next
    assume x: "x \<in> set ?ks \<and> x \<le> fst (last es)"
    then obtain i where i: "i < length ?ks" "x = ?ks ! i" by (auto simp: in_set_conv_nth)
    show "x \<in> set (take pg ?ks)"
    proof (cases "i < pg")
      case True
      then show ?thesis using i nth_mem [of i "take pg ?ks"] by simp
    next
      case False
      let ?n = "pg - 1"
      have pos: "0 < pg" using ne by (cases pg) auto
      have len: "length (take pg ?ks) = pg" using False i(1) by simp
      then have last: "fst (last es) = ?ks ! ?n" unfolding l last_conv_nth [OF ne] len using pos by simp
      have n: "?n < i" using False pos by linarith
      have "?ks ! ?n \<le> ?ks ! i" by (rule sorted_nth_mono) (use i(1) n in simp_all)
      moreover have "?ks ! ?n \<noteq> ?ks ! i"
        using nth_eq_iff_index_eq [of ?ks ?n i] n i(1) by simp
      ultimately show ?thesis using x i(2) last by simp
    qed
  qed
  have at: "map_of es k = (if k \<in> set (take pg ?ks) then Some (the (m k)) else None)" for k
    unfolding keys(2) by (simp add: map_of_map_keys_if)
  show "lo \<le> k \<Longrightarrow> k \<le> fst (last es) \<Longrightarrow> map_of es k = m k"
    using at upto \<open>fst (last es) \<le> hi\<close> fin by (cases "m k") (auto dest: order_trans)
  show "fst (last es) < k \<or> k < lo \<Longrightarrow> map_of es k = None" using at upto fin by auto
qed

section \<open>What holds while it is copied\<close>

context engine_laws
begin

lemma primary_part_step:
  assumes "primary_part recs ok d R" and "primary_does E recs d op R = Some R'"
  shows "primary_part recs ok d R' \<and> rp_standby R' = rp_standby R \<and> unat (next_at d (rp_primary R)) \<le> unat (next_at d (rp_primary R')) \<and>
    co_history (snd (rp_primary R')) = co_history (snd (rp_primary R)) \<and> (\<forall>m \<le> unat (next_at d (rp_primary R)). rp_seen R' m = rp_seen R m)"
proof -
  obtain ep cp where R: "rp_primary R = (ep, cp)" by (cases "rp_primary R")
  obtain f where p: "ok ep" "d < length (co_kept cp)" "window (rp_seen R) f (kw_writes (co_kept cp ! d)) (unat (kw_next (co_kept cp ! d)))"
      "rp_seen R (unat (kw_next (co_kept cp ! d))) = shared (recs ep)"
    using assms(1) by (auto simp: primary_part_def R Let_def)
  from primary_step [OF assms(2) R p] show ?thesis
    by (auto simp: primary_part_def R next_at_def word_le_nat_alt Let_def)
qed

lemma whole_inv_wrote:
  assumes inv: "whole_inv recs ok d from S" and did: "primary_does E recs d op (wc_rep S) = Some R"
  shows "whole_inv recs ok d from (S\<lparr>wc_rep := R\<rparr>)"
proof -
  have p: "primary_part recs ok d (wc_rep S)" using inv by (simp add: whole_inv_def Let_def)
  note step = primary_part_step [OF p did]
  have "\<exists>m. from \<le> m \<and> m \<le> unat (next_at d (rp_primary R)) \<and> shared (recs (fst (rp_standby R))) k = rp_seen R m k"
    if "\<exists>m. from \<le> m \<and> m \<le> unat (next_at d (rp_primary (wc_rep S))) \<and> shared (recs (fst (rp_standby (wc_rep S)))) k = rp_seen (wc_rep S) m k" for k
    using that step by (metis order_trans)
  then show ?thesis using inv step by (auto simp: whole_inv_def Let_def)
qed

lemma whole_inv_page:
  assumes inv: "whole_inv recs ok d from S" and page: "page_shipped E pg S = Some S'" and "0 < pg"
  shows "whole_inv recs ok d from S'"
proof -
  let ?R = "wc_rep S"
  let ?ep = "fst (rp_primary ?R)" and ?es = "fst (rp_standby ?R)" and ?np = "unat (next_at d (rp_primary ?R))"
  have i: "primary_part recs ok d ?R" "ok ?es" "from \<le> ?np"
    and before_first: "\<And>k. k \<le> last_key \<Longrightarrow> k < wc_first S \<Longrightarrow> \<exists>m. from \<le> m \<and> m \<le> ?np \<and> shared (recs ?es) k = rp_seen ?R m k"
    using inv by (auto simp: whole_inv_def Let_def)
  have open': "\<not> wc_done S" using page by (simp add: page_shipped_def split: if_splits)
  have rest: "\<And>k. k \<le> last_key \<Longrightarrow> wc_first S \<le> k \<Longrightarrow> shared (recs ?es) k = None" using inv open' by (simp add: whole_inv_def Let_def)
  have held: "ok ?ep" "rp_seen ?R ?np = shared (recs ?ep)"
    using i(1) by (auto simp: primary_part_def next_at_def Let_def split: prod.splits)
  obtain found where found: "en_scan E ?ep (wc_first S) last_key pg False = Inr found"
    using page open' by (auto simp: page_shipped_def split: sum.splits)
  note scanned = scan_law [OF held(1) found] and fin = finite_recs [OF held(1)]
  show ?thesis
  proof (cases "found = []")
    case True
    then have S': "S' = S\<lparr>wc_done := True\<rparr>" using page open' found by (simp add: page_shipped_def)
    have "sorted_list_of_set {k \<in> dom (recs ?ep). wc_first S \<le> k \<and> k \<le> last_key} = []"
      using scanned True assms(3) by (simp add: between_def)
    then have none: "recs ?ep k = None" if "wc_first S \<le> k" "k \<le> last_key" for k using that fin by auto
    have "\<exists>m. from \<le> m \<and> m \<le> ?np \<and> shared (recs ?es) k = rp_seen ?R m k" if k: "k \<le> last_key" for k
    proof (cases "k < wc_first S")
      case True
      then show ?thesis using before_first k by simp
    next
      case False
      then have "shared (recs ?es) k = None" "rp_seen ?R ?np k = None" using rest none k held(2) by (simp_all add: shared_def)
      then show ?thesis using i(3) by (intro exI [of _ ?np]) simp
    qed
    then show ?thesis using i by (simp add: whole_inv_def S' Let_def)
  next
    case False
    let ?puts = "map (\<lambda>(k, v). (k, Some v)) (filter (\<lambda>(k, v). \<not> own_key k) found)" and ?l = "fst (last found)"
    obtain e where e: "en_apply_deferred E ?es ?puts = Inr e"
      "S' = S\<lparr>wc_rep := ?R\<lparr>rp_standby := (e, snd (rp_standby ?R))\<rparr>, wc_first := ?l @ [0]\<rparr>"
      using page open' found False by (auto simp: page_shipped_def split: sum.splits)
    note whole = page_whole [OF fin scanned False]
    have "distinct (map fst (filter (\<lambda>(k, v). \<not> own_key k) found))" using whole(1) by (simp add: distinct_map_filter)
    then have e': "ok e" "shared (recs e) k = (if own_key k then None else case map_of found k of None \<Rightarrow> recs ?es k | Some v \<Rightarrow> Some v)" for k
      using deferred_law [OF i(2) e(1)] map_of_filter_keys [of "\<lambda>k. \<not> own_key k" k found]
      by (auto simp: changed_puts shared_def split: option.splits)
    have "\<exists>m. from \<le> m \<and> m \<le> ?np \<and> shared (recs e) k = rp_seen ?R m k" if k: "k \<le> last_key" "k \<le> ?l" for k
    proof (cases "k < wc_first S")
      case True
      then have "shared (recs e) k = shared (recs ?es) k" unfolding e'(2) using whole(3) [of k] by (simp add: shared_def)
      then show ?thesis using before_first k True by simp
    next
      case False
      then have "shared (recs e) k = shared (recs ?ep) k"
        unfolding e'(2) using whole(2) [of k] rest [of k] k by (auto simp: shared_def split: option.splits)
      then show ?thesis using i(3) held(2) by (intro exI [of _ ?np]) simp
    qed
    moreover have "shared (recs e) k = None" if "k \<le> last_key" "?l @ [0] \<le> k" for k
    proof -
      have above: "?l < k" using that(2) less_snoc_zero [of k ?l] by (simp add: linorder_not_less [symmetric])
      then have "wc_first S \<le> k" using whole(5) by simp
      then show ?thesis unfolding e'(2) using rest [OF that(1)] whole(3) [of k] above by (simp add: shared_def split: if_splits)
    qed
    ultimately show ?thesis using i e'(1) open' by (simp add: whole_inv_def e(2) less_snoc_zero Let_def primary_part_def)
  qed
qed

lemma whole_inv_ships:
  "ships_whole E recs d pg S S' \<Longrightarrow> 0 < pg \<Longrightarrow> whole_inv recs ok d from S \<Longrightarrow> whole_inv recs ok d from S'"
  by (induction rule: ships_whole.induct) (blast intro: whole_inv_wrote whole_inv_page)+

lemma whole_start_inv: "whole_start recs ok d S \<Longrightarrow> whole_inv recs ok d (unat (next_at d (rp_primary (wc_rep S)))) S"
proof -
  have "\<not> k < []" for k :: key by (cases k) simp_all
  then show "whole_start recs ok d S \<Longrightarrow> whole_inv recs ok d (unat (next_at d (rp_primary (wc_rep S)))) S"
    by (auto simp: whole_start_def whole_inv_def Let_def)
qed

end

section \<open>Caught up\<close>

text \<open>Writes taken one after another leave each key as it was last written, or as it was where none wrote it.\<close>

lemma window_reaches:
  assumes "window G f ws n" and "f \<le> m" and "m \<le> D" and "shared x k = G m k"
  shows "\<exists>m'. n \<le> m' \<and> m' \<le> max D n \<and> shared (changed (concat (map snd ws)) x) k = G m' k"
  using assms
proof (induction G f ws n arbitrary: m x D rule: window.induct)
  case (1 G f n)
  then show ?case by (intro exI [of _ m]) auto
next
  case (2 G f number cs ws n)
  have log: "not_own cs = cs" "G (Suc f) = changed cs (G f)" "window G (Suc f) ws n" using 2(2) by simp_all
  let ?x = "changed cs x"
  have x: "shared ?x k = changed cs (shared x) k" by (simp add: shared_changed log(1))
  have n: "Suc f \<le> n" using window_length [OF log(3)] by simp
  have "\<exists>m'. Suc f \<le> m' \<and> m' \<le> max D (Suc f) \<and> shared ?x k = G m' k"
  proof (cases "k \<in> fst ` set cs")
    case True
    have "changed cs y k = changed cs z k" for y z :: "key \<rightharpoonup> bytes" using True
    proof (induction cs arbitrary: y z)
      case (Cons kv cs)
      then show ?case by (cases kv; cases "k \<in> fst ` set cs") (auto simp: changed_other)
    qed simp
    then show ?thesis using log(2) x by (intro exI [of _ "Suc f"]) simp
  next
    case False
    then have "shared ?x k = G m k" using 2(5) x by (simp add: changed_other)
    moreover have "G f k = G (Suc f) k" using False log(2) by (simp add: changed_other)
    ultimately show ?thesis using 2(3,4) by (cases "m = f") (auto intro: exI [of _ "Suc f"] exI [of _ m])
  qed
  then obtain m' where m': "Suc f \<le> m'" "m' \<le> max D (Suc f)" "shared ?x k = G m' k" by blast
  from 2(1) [OF log(3) m'(1) m'(2) m'(3)] obtain m'' where "n \<le> m''" "m'' \<le> max (max D (Suc f)) n"
      "shared (changed (concat (map snd ws)) ?x) k = G m'' k" by blast
  then show ?case using n by (intro exI [of _ m'']) auto
qed

text \<open>
  What holds once the copy is in: the standby's next write is where the copy began, and each key is as
  its primary held it at some number from there to the one the copy ended at, \<open>D\<close>, or to its own next.
\<close>

definition catching_up :: "('e \<Rightarrow> key \<rightharpoonup> bytes) \<Rightarrow> ('e \<Rightarrow> bool) \<Rightarrow> nat \<Rightarrow> nat \<Rightarrow> 'e replicas \<Rightarrow> bool" where
  "catching_up recs ok d D R \<longleftrightarrow> (let (es, cs) = rp_standby R; ns = unat (next_at d (rp_standby R)) in
     primary_part recs ok d R \<and> ok es \<and> d < length (co_kept cs) \<and> next_at d (rp_standby R) \<le> next_at d (rp_primary R) \<and>
     D \<le> unat (next_at d (rp_primary R)) \<and>
     (\<forall>k \<le> last_key. \<exists>m. ns \<le> m \<and> m \<le> max D ns \<and> shared (recs es) k = rp_seen R m k))"

context engine_laws
begin

lemma catching_wrote:
  assumes inv: "catching_up recs ok d D R" and did: "primary_does E recs d op R = Some R'"
  shows "catching_up recs ok d D R'"
proof -
  have p: "primary_part recs ok d R" using inv by (auto simp: catching_up_def Let_def split: prod.splits)
  note step = primary_part_step [OF p did]
  let ?ns = "unat (next_at d (rp_standby R))" and ?np = "unat (next_at d (rp_primary R))"
  have top: "max D ?ns \<le> ?np" using inv by (auto simp: catching_up_def word_le_nat_alt Let_def split: prod.splits)
  have "rp_seen R' m = rp_seen R m" if "m \<le> max D ?ns" for m using order_trans [OF that top] step by simp
  then have "\<exists>m. ?ns \<le> m \<and> m \<le> max D ?ns \<and> shared x k = rp_seen R' m k" if "\<exists>m. ?ns \<le> m \<and> m \<le> max D ?ns \<and> shared x k = rp_seen R m k" for k x
    using that by metis
  then show ?thesis using inv step top by (auto simp: catching_up_def word_le_nat_alt Let_def split: prod.splits)
qed

lemma taken_all:
  assumes "take_copies E d ws (e, c) = Inr (e', c')" and "ok e" and "d < length (co_kept c)" and "window G f ws n" and "unat (kw_next (co_kept c ! d)) = f"
    and "n < 2 ^ 64"
  shows "ok e' \<and> d < length (co_kept c') \<and> unat (kw_next (co_kept c' ! d)) = n \<and> shared (recs e') = shared (changed (concat (map snd ws)) (recs e))"
  using assms
proof (induction ws arbitrary: e c f)
  case (Cons w ws)
  obtain m cs where w: "w = (m, cs)" by (cases w)
  have log: "not_own cs = cs" "window G (Suc f) ws n" using Cons.prems(4) by (simp_all add: w)
  obtain e1 c1 where one: "take_copy E d (m, cs) (e, c) = Inr (e1, c1)" "take_copies E d ws (e1, c1) = Inr (e', c')"
    using Cons.prems(1) by (auto simp: w bindr_eq_Inr)
  then have c1: "c1 = kept_more d cs c" and e1: "en_apply_deferred E e (cs @ [position (co_history c) (m + 1)]) = Inr e1"
    by (auto simp: take_copy_def Let_def bindr_eq_Inr split: if_splits)
  from deferred_law [OF Cons.prems(2) e1] have oke: "ok e1" and r: "recs e1 = (changed cs (recs e))(position_key := snd (position (co_history c) (m + 1)))"
    by (simp_all add: position_def)
  have "f < n" using window_length [OF log(2)] by simp
  then have "unat (kw_next (co_kept c ! d) + 1) = Suc f" using Cons.prems(5,6) by (simp add: unat_word_ariths)
  then have "unat (kw_next (co_kept c1 ! d)) = Suc f" by (simp add: c1 Cons.prems(3))
  from Cons.IH [OF one(2) oke _ log(2) this Cons.prems(6)] Cons.prems(3)
  show ?case by (simp add: c1 w r shared_changed del: fun_upd_apply)
qed simp

lemma catching_taken:
  assumes inv: "catching_up recs ok d D R" and took: "turn_taken E d at_most j R = Some R'"
  shows "catching_up recs ok d D R'"
proof -
  obtain ep cp es cs where R: "rp_primary R = (ep, cp)" "rp_standby R = (es, cs)" by (cases "rp_primary R"; cases "rp_standby R")
  let ?ns = "kw_next (co_kept cs ! d)" and ?G = "rp_seen R"
  have i: "primary_part recs ok d R" "ok es" "d < length (co_kept cs)" "?ns \<le> kw_next (co_kept cp ! d)" "D \<le> unat (kw_next (co_kept cp ! d))"
    and keys: "\<And>k. k \<le> last_key \<Longrightarrow> \<exists>m. unat ?ns \<le> m \<and> m \<le> max D (unat ?ns) \<and> shared (recs es) k = ?G m k"
    using inv by (auto simp: catching_up_def R next_at_def Let_def)
  obtain ws s where ws: "since d ?ns at_most cp = Inr ws" "take_copies E d (take j ws) (es, cs) = Inr s" "R' = R\<lparr>rp_standby := s\<rparr>"
    using took by (auto simp: turn_taken_def R next_at_def split: sum.splits)
  obtain e' c' where s: "s = (e', c')" by (cases s)
  obtain f where "window ?G f (kw_writes (co_kept cp ! d)) (unat (kw_next (co_kept cp ! d)))"
    using i(1) by (auto simp: primary_part_def R Let_def)
  note w = since_window [OF this ws(1) i(4)]
  let ?n = "unat ?ns + length (take j ws)"
  have win: "window ?G (unat ?ns) (take j ws) ?n" using window_take [OF w(1)] by simp
  have n: "?n \<le> unat (kw_next (co_kept cp ! d))" using w(3) by simp
  have "unat (kw_next (co_kept cp ! d)) < 2 ^ LENGTH(64)" by (rule unsigned_less)
  then have "?n < 2 ^ 64" using n by simp
  from taken_all [OF ws(2) [unfolded s] i(2,3) win HOL.refl this]
  have t: "ok e'" "d < length (co_kept c')" "unat (kw_next (co_kept c' ! d)) = ?n" "shared (recs e') = shared (changed (concat (map snd (take j ws))) (recs es))"
    by blast+
  have "\<exists>m. ?n \<le> m \<and> m \<le> max D ?n \<and> shared (recs e') k = ?G m k" if below: "k \<le> last_key" for k
  proof -
    from keys [OF below] obtain m where m: "unat ?ns \<le> m" "m \<le> max D (unat ?ns)" "shared (recs es) k = ?G m k" by blast
    from window_reaches [OF win m] obtain m' where "?n \<le> m'" "m' \<le> max (max D (unat ?ns)) ?n" "shared (recs e') k = ?G m' k"
      unfolding t(4) by blast
    then show ?thesis by (intro exI [of _ m']) auto
  qed
  then show ?thesis using i t n by (simp add: catching_up_def ws(3) s R next_at_def word_le_nat_alt Let_def primary_part_def)
qed

lemma catching_replicates: "replicates E recs d R R' \<Longrightarrow> catching_up recs ok d D R \<Longrightarrow> catching_up recs ok d D R'"
  by (induction rule: replicates.induct) (blast intro: catching_wrote catching_taken)+

lemma whole_in:
  assumes "whole_inv recs ok d (unat from) S" and "wc_done S" and e: "en_apply E (fst (rp_standby (wc_rep S))) [position h from] = Inr e"
    and "d < length (co_kept cs)" and "kw_next (co_kept cs ! d) = from"
  shows "catching_up recs ok d (unat (next_at d (rp_primary (wc_rep S)))) ((wc_rep S)\<lparr>rp_standby := (e, cs)\<rparr>)"
proof -
  let ?R = "wc_rep S"
  let ?np = "unat (next_at d (rp_primary ?R))"
  have i: "primary_part recs ok d ?R" "ok (fst (rp_standby ?R))" "unat from \<le> ?np"
      "\<And>k. k \<le> last_key \<Longrightarrow> \<exists>m. unat from \<le> m \<and> m \<le> ?np \<and> shared (recs (fst (rp_standby ?R))) k = rp_seen ?R m k"
    using assms(1,2) by (auto simp: whole_inv_def Let_def)
  from apply_law [OF i(2) e] have "ok e" "shared (recs e) = shared (recs (fst (rp_standby ?R)))"
    by (simp_all add: position_def del: fun_upd_apply)
  moreover have "max ?np (unat from) = ?np" using i(3) by simp
  ultimately show ?thesis using i assms(4,5)
    by (simp add: catching_up_def next_at_def primary_part_def word_le_nat_alt Let_def)
qed

end

section \<open>A copy taken for whole before it is\<close>

text \<open>
  A write of the primary's between two pages that changes a key of each leaves the standby, its whole
  copy said to be in, with the one changed and not the other: what no batch left, until it has taken
  that write. Pages of one key, for a smaller instance.
\<close>

definition sample_ship :: "memory whole_ship" where
  "sample_ship = \<lparr>wc_rep = \<lparr>rp_primary = ([([1], [0]), ([2], [0])], copies_new 7 [1, 1, 1] 1000), rp_standby = ([], copies_new 0 [1, 1, 1] 1000),
     rp_seen = (\<lambda>_. shared (map_of [([1], [0]), ([2], [0])]))\<rparr>, wc_first = [], wc_done = False\<rparr>"

definition sample_batch :: "change list" where
  "sample_batch = [([1], Some [9]), ([2], Some [9])]"

definition torn_at :: "nat \<Rightarrow> memory whole_ship" where
  "torn_at n = (let R = \<lparr>rp_primary = ([([1], [0]), ([2], [0])], copies_new 7 [1, 1, 1] 1000), rp_standby = ([([1], [0])], copies_new 0 [1, 1, 1] 1000),
       rp_seen = (\<lambda>_. shared (map_of [([1], [0]), ([2], [0])]))\<rparr>;
     p = ([([1], [9]), ([2], [9])], kept_more 0 sample_batch (copies_new 7 [1, 1, 1] 1000));
     R' = R\<lparr>rp_primary := p, rp_seen := (rp_seen R)(2 := shared (map_of [([1], [9]), ([2], [9])]))\<rparr>;
     R'' = R'\<lparr>rp_standby := ([([1], [0]), ([2], [9])], copies_new 0 [1, 1, 1] 1000)\<rparr>
   in if n = 0 then \<lparr>wc_rep = R, wc_first = [1, 0], wc_done = False\<rparr>
     else if n = 1 then \<lparr>wc_rep = R', wc_first = [1, 0], wc_done = False\<rparr>
     else if n = 2 then \<lparr>wc_rep = R'', wc_first = [2, 0], wc_done = False\<rparr>
     else \<lparr>wc_rep = R'', wc_first = [2, 0], wc_done = True\<rparr>)"

lemma below_last_key [simp]: "b < 255 \<Longrightarrow> b # bs \<le> last_key"
proof -
  have "last_key = 255 # replicate 1023 255" unfolding last_key_def by (simp add: replicate_Suc [symmetric] numeral_eq_Suc del: replicate_Suc)
  moreover assume "b < 255"
  ultimately show "b # bs \<le> last_key" by (metis Cons_le_Cons)
qed

lemma not_past_last_key [simp]: "b < 255 \<Longrightarrow> \<not> last_key < b # bs"
  by (simp add: linorder_not_less)

lemma torn_first: "page_shipped memory_engine 1 sample_ship = Some (torn_at 0)"
  by (simp add: page_shipped_def sample_ship_def torn_at_def memory_engine_def memory_scan_def memory_apply_def ranged_def Let_def)

lemma torn_second: "page_shipped memory_engine 1 (torn_at 1) = Some (torn_at 2)"
  by (simp add: page_shipped_def torn_at_def memory_engine_def memory_scan_def memory_apply_def ranged_def Let_def)

lemma torn_third: "page_shipped memory_engine 1 (torn_at 2) = Some (torn_at 3)"
  by (simp add: page_shipped_def torn_at_def memory_engine_def memory_scan_def memory_apply_def ranged_def Let_def)

lemma torn_wrote: "primary_does memory_engine map_of 0 (ApplyOp sample_batch) (wc_rep (torn_at 0)) = Some (wc_rep (torn_at 1))"
  by (simp add: primary_does_def torn_at_def run_op_def copied_engine_def memory_engine_def memory_apply_def wrote_kept_def copies_written_def
      sample_batch_def not_own_def next_at_def kept_more_def copies_new_def empty_kept_def keep_write_def change_bytes_def Let_def
      word_less_nat_alt unsigned_minus_1_eq_mask mask_eq_exp_minus_1)

text \<open>The copy said to be in, and the standby as the primary never was.\<close>

lemma torn_whole_copy:
  "\<exists>S. ships_whole memory_engine map_of 0 1 sample_ship S \<and> page_shipped memory_engine 1 S = None \<and>
    (\<forall>n. shared (map_of (fst (rp_standby (wc_rep S)))) \<noteq> rp_seen (wc_rep S) n)"
proof (intro exI [of _ "torn_at 3"] conjI allI)
  have "ships_whole memory_engine map_of 0 1 sample_ship (torn_at 0)" by (rule ships_whole.shipped [OF ships_whole.refl torn_first])
  from ships_whole.wrote [OF this torn_wrote] have "ships_whole memory_engine map_of 0 1 sample_ship (torn_at 1)" by (simp add: torn_at_def Let_def)
  from ships_whole.shipped [OF ships_whole.shipped [OF this torn_second] torn_third]
  show "ships_whole memory_engine map_of 0 1 sample_ship (torn_at 3)" .
next
  show "page_shipped memory_engine 1 (torn_at 3) = None" by (simp add: page_shipped_def torn_at_def Let_def)
next
  fix n
  have "shared (map_of (fst (rp_standby (wc_rep (torn_at 3))))) [1] = Some [0]" "shared (map_of (fst (rp_standby (wc_rep (torn_at 3))))) [2] = Some [9]"
    by (simp_all add: torn_at_def shared_def Let_def)
  moreover have "rp_seen (wc_rep (torn_at 3)) n [1] = Some [9] \<longleftrightarrow> rp_seen (wc_rep (torn_at 3)) n [2] = Some [9]"
    by (simp add: torn_at_def shared_def Let_def)
  ultimately show "shared (map_of (fst (rp_standby (wc_rep (torn_at 3))))) \<noteq> rp_seen (wc_rep (torn_at 3)) n"
    by auto
qed

section \<open>Properties\<close>

text \<open>
  C21: A standby copied whole, page after page, while its primary goes on writing holds what its primary
  held: once it has been handed the writes kept from where the copy began until it is as far as the
  primary was when the copy ended, each of its keys is as the primary held it at the write the standby
  is next to take, whatever was written between the pages and whatever is written after.
\<close>

theorem whole_copy_catches_up:
  assumes "engine_laws E recs ok" and "whole_start recs ok d S0" and "ships_whole E recs d ship_page S0 S" and "wc_done S"
    and "en_apply E (fst (rp_standby (wc_rep S))) [position h from] = Inr e" and "from = next_at d (rp_primary (wc_rep S0))"
    and "d < length (co_kept cs)" and "kw_next (co_kept cs ! d) = from"
    and "replicates E recs d ((wc_rep S)\<lparr>rp_standby := (e, cs)\<rparr>) R"
    and "next_at d (rp_primary (wc_rep S)) \<le> next_at d (rp_standby R)" and "k \<le> last_key"
  shows "shared (recs (fst (rp_standby R))) k = rp_seen R (unat (next_at d (rp_standby R))) k"
proof -
  let ?D = "unat (next_at d (rp_primary (wc_rep S)))" and ?n = "unat (next_at d (rp_standby R))"
  have "0 < ship_page" by (simp add: ship_page_def)
  then have "whole_inv recs ok d (unat from) S"
    using engine_laws.whole_inv_ships [OF assms(1,3)] engine_laws.whole_start_inv [OF assms(1,2)] assms(6) by blast
  from engine_laws.whole_in [OF assms(1) this assms(4,5,7,8)]
  have "catching_up recs ok d ?D R" using engine_laws.catching_replicates [OF assms(1,9)] by blast
  then obtain m where "?n \<le> m" "m \<le> max ?D ?n" "shared (recs (fst (rp_standby R))) k = rp_seen R m k"
    using assms(11) by (auto simp: catching_up_def Let_def split: prod.splits)
  moreover have "?D \<le> ?n" using assms(10) by (simp add: word_le_nat_alt)
  ultimately show ?thesis by simp
qed

text \<open>Both keys in one page, a write after it, the copy's end, and that write taken.\<close>

definition whole_at :: "nat \<Rightarrow> memory whole_ship" where
  "whole_at n = (let R = (wc_rep sample_ship)\<lparr>rp_standby := ([([1], [0]), ([2], [0])], copies_new 0 [1, 1, 1] 1000)\<rparr>;
     p = ([([1], [9]), ([2], [9])], kept_more 0 sample_batch (copies_new 7 [1, 1, 1] 1000));
     R' = R\<lparr>rp_primary := p, rp_seen := (rp_seen R)(2 := shared (map_of [([1], [9]), ([2], [9])]))\<rparr>
   in if n = 0 then \<lparr>wc_rep = R, wc_first = [2, 0], wc_done = False\<rparr>
     else if n = 1 then \<lparr>wc_rep = R', wc_first = [2, 0], wc_done = False\<rparr>
     else \<lparr>wc_rep = R', wc_first = [2, 0], wc_done = True\<rparr>)"

lemma whole_first: "page_shipped memory_engine ship_page sample_ship = Some (whole_at 0)"
  by (simp add: page_shipped_def sample_ship_def whole_at_def ship_page_def memory_engine_def memory_scan_def memory_apply_def ranged_def Let_def)

lemma whole_wrote: "primary_does memory_engine map_of 0 (ApplyOp sample_batch) (wc_rep (whole_at 0)) = Some (wc_rep (whole_at 1))"
  by (simp add: primary_does_def whole_at_def sample_ship_def run_op_def copied_engine_def memory_engine_def memory_apply_def wrote_kept_def copies_written_def
      sample_batch_def not_own_def next_at_def kept_more_def copies_new_def empty_kept_def keep_write_def change_bytes_def Let_def
      word_less_nat_alt unsigned_minus_1_eq_mask mask_eq_exp_minus_1)

lemma whole_last: "page_shipped memory_engine ship_page (whole_at 1) = Some (whole_at 2)"
  by (simp add: page_shipped_def sample_ship_def whole_at_def ship_page_def memory_engine_def memory_scan_def memory_apply_def ranged_def Let_def)

lemma whole_ran: "ships_whole memory_engine map_of 0 ship_page sample_ship (whole_at 2)"
proof -
  have "ships_whole memory_engine map_of 0 ship_page sample_ship (whole_at 0)" by (rule ships_whole.shipped [OF ships_whole.refl whole_first])
  from ships_whole.wrote [OF this whole_wrote] have "ships_whole memory_engine map_of 0 ship_page sample_ship (whole_at 1)"
    by (simp add: whole_at_def Let_def)
  from ships_whole.shipped [OF this whole_last] show ?thesis .
qed

lemma sample_ship_starts: "whole_start map_of ordered 0 sample_ship"
  by (auto simp: whole_start_def primary_part_def sample_ship_def copies_new_def empty_kept_def ordered_def shared_def)

lemma whole_taken_turn: "\<exists>s. turn_taken memory_engine 0 1000 1 ((wc_rep (whole_at 2))\<lparr>rp_standby := (e, copies_new 7 [1, 1, 1] 1000)\<rparr>) =
      Some ((wc_rep (whole_at 2))\<lparr>rp_standby := s\<rparr>) \<and> next_at 0 s = 2"
  by (simp add: turn_taken_def whole_at_def sample_ship_def sample_batch_def since_def first_kept_def copies_new_def empty_kept_def keep_write_def kept_more_def
      take_copy_def memory_engine_def memory_apply_def next_at_def change_bytes_def Let_def word_le_nat_alt)

theorem whole_copy_catches_up_witness:
  "\<exists>S (R :: memory replicas). ships_whole memory_engine map_of 0 ship_page sample_ship S \<and> shared (map_of (fst (rp_standby R))) [1] = Some [9] \<and>
    shared (map_of (fst (rp_standby R))) [2] = Some [9]"
proof -
  obtain e where e: "en_apply memory_engine (fst (rp_standby (wc_rep (whole_at 2)))) [position 7 1] = Inr e"
    by (simp add: memory_engine_def memory_apply_def)
  obtain s where s: "turn_taken memory_engine 0 1000 1 ((wc_rep (whole_at 2))\<lparr>rp_standby := (e, copies_new 7 [1, 1, 1] 1000)\<rparr>) =
      Some ((wc_rep (whole_at 2))\<lparr>rp_standby := s\<rparr>)" "next_at 0 s = 2"
    using whole_taken_turn by blast
  let ?R = "(wc_rep (whole_at 2))\<lparr>rp_standby := s\<rparr>"
  have done': "wc_done (whole_at 2)" and from1: "1 = next_at 0 (rp_primary (wc_rep sample_ship))"
    and to2: "next_at 0 (rp_primary (wc_rep (whole_at 2))) \<le> next_at 0 (rp_standby ?R)"
    and cs: "0 < length (co_kept (copies_new 7 [1, 1, 1] 1000))" "kw_next (co_kept (copies_new 7 [1, 1, 1] 1000) ! 0) = 1"
    using s(2) by (simp_all add: whole_at_def sample_ship_def next_at_def kept_more_def copies_new_def empty_kept_def keep_write_def Let_def)
  have "shared (map_of (fst (rp_standby ?R))) k = rp_seen ?R (unat (next_at 0 (rp_standby ?R))) k" if "k \<le> last_key" for k
    by (rule whole_copy_catches_up [OF memory.engine_laws_axioms sample_ship_starts whole_ran done' e from1 cs
        replicates.taken [OF replicates.refl s(1)] to2 that])
  from this [of "[1]"] this [of "[2]"] have "shared (map_of (fst (rp_standby ?R))) [1] = Some [9]" "shared (map_of (fst (rp_standby ?R))) [2] = Some [9]"
    using s(2) by (simp_all add: whole_at_def shared_def Let_def)
  with whole_ran show ?thesis by blast
qed

end
