(* ===== verification/Wire.thy ===== *)
theory Wire
  imports Query Shipped Secrets Publication Instance Due
begin

text \<open>
  Xmip Storage on the wire (\<open>src/.src/storage/wire.rs\<close>, \<open>wire/operation.rs\<close>, \<open>wire/answer.rs\<close>): an
  operation asked, with its fields, and what it answered, each with its one form; and what each
  operation is called where it is admitted. Each is shown to come back from its bytes as it was.

  Names and kinds of secrets are the crate \<open>xcore\<close>'s, as in \<open>Secrets\<close>; a frame around the bytes is the
  crate \<open>net\<close>'s.
\<close>

section \<open>Operations asked\<close>

datatype request =
    RqWriteChunk stream_chunk
  | RqReadChunk u128 u32
  | RqWriteMessage message_record
  | RqReadMessage u128
  | RqWriteJourney journey_record
  | RqReadJourney u128
  | RqClaim claim u64
  | RqRenew "claim list" u64
  | RqRelease claim
  | RqHandOn hand_on
  | RqWriteAudit audit_entry
  | RqKeepAudit u32 u64
  | RqReadKeptAudit u128
  | RqWriteAdministration administration_record
  | RqReadAdministration administration_kind u128
  | RqRemoveAdministration administration_kind u128
  | RqPublish publication
  | RqReadHeld u128 u64 u32
  | RqReadDead u128 u64 u32
  | RqReadDeadMessage u128 u128
  | RqReplay replay
  | RqQuery query
  | RqWriteStream stream_chunk stream_record
  | RqReadStream u128
  | RqReadKeptAuditChunk u128 "u128 option" u32
  | RqReadKeptAuditStream u128 u128
  | RqReadFailed u128 u64 u32
  | RqReadDue u128 due_part "u64 \<times> u64" u32
  | RqStanding
  | RqFollow follow
  | RqTurn turn
  | RqReadInstance u128
  | RqReadInstanceKey u128
  | RqWriteSecret secret_record
  | RqReadSecret string
  | RqListSecrets

text \<open>What it does, to read or to write, and the operation, as the rules of the Storage plane name it.\<close>

primrec operation :: "request \<Rightarrow> string \<times> string" where
  "operation (RqWriteChunk a) = (''write'', ''write_chunk'')"
| "operation (RqReadChunk a b) = (''read'', ''read_chunk'')"
| "operation (RqWriteMessage a) = (''write'', ''write_message'')"
| "operation (RqReadMessage a) = (''read'', ''read_message'')"
| "operation (RqWriteJourney a) = (''write'', ''write_journey'')"
| "operation (RqReadJourney a) = (''read'', ''read_journey'')"
| "operation (RqClaim a b) = (''write'', ''claim'')"
| "operation (RqRenew a b) = (''write'', ''renew'')"
| "operation (RqRelease a) = (''write'', ''release'')"
| "operation (RqHandOn a) = (''write'', ''hand_on'')"
| "operation (RqWriteAudit a) = (''write'', ''write_audit'')"
| "operation (RqKeepAudit a b) = (''write'', ''keep_audit'')"
| "operation (RqReadKeptAudit a) = (''read'', ''read_kept_audit'')"
| "operation (RqWriteAdministration a) = (''write'', ''write_administration'')"
| "operation (RqReadAdministration a b) = (''read'', ''read_administration'')"
| "operation (RqRemoveAdministration a b) = (''write'', ''remove_administration'')"
| "operation (RqPublish a) = (''write'', ''publish'')"
| "operation (RqReadHeld a b d) = (''read'', ''read_held'')"
| "operation (RqReadDead a b d) = (''read'', ''read_dead'')"
| "operation (RqReadDeadMessage a b) = (''read'', ''read_dead_message'')"
| "operation (RqReplay a) = (''write'', ''replay'')"
| "operation (RqQuery a) = (''read'', ''query'')"
| "operation (RqWriteStream a b) = (''write'', ''write_stream'')"
| "operation (RqReadStream a) = (''read'', ''read_stream'')"
| "operation (RqReadKeptAuditChunk a b d) = (''read'', ''read_kept_audit_chunk'')"
| "operation (RqReadKeptAuditStream a b) = (''read'', ''read_kept_audit_stream'')"
| "operation (RqReadFailed a b d) = (''read'', ''read_failed'')"
| "operation (RqReadDue a b d e) = (''read'', ''read_due'')"
| "operation RqStanding = (''read'', ''standing'')"
| "operation (RqFollow a) = (''read'', ''follow'')"
| "operation (RqTurn a) = (''write'', ''turn'')"
| "operation (RqReadInstance a) = (''read'', ''read_instance'')"
| "operation (RqReadInstanceKey a) = (''read'', ''read_instance_key'')"
| "operation (RqWriteSecret a) = (''write'', ''write_secret'')"
| "operation (RqReadSecret a) = (''read'', ''read_secret'')"
| "operation RqListSecrets = (''read'', ''list_secrets'')"

section \<open>What they answer\<close>

datatype answer =
    AnDone
  | AnChunk "stream_chunk option"
  | AnMessage "message_record option"
  | AnJourney "journey_record option"
  | AnClaim "claim option"
  | AnYes bool
  | AnCount u32
  | AnAudit "kept_audit option"
  | AnAdministration "administration_record option"
  | AnRefused string string
  | AnFailed string
  | AnHeld held_queue
  | AnDeadQueue dead_queue
  | AnDead dead_entry
  | AnReplayed replayed
  | AnClaims "claim list"
  | AnRecords "u128 list"
  | AnStream "stream_record option"
  | AnBytes "bytes option"
  | AnFailedQueue failed_queue
  | AnDueQueue due_queue
  | AnStanding node_standing
  | AnStandby string
  | AnInstance "instance_record option"
  | AnSecret "secret_record option"
  | AnSecrets "secret_entry list"

section \<open>Their forms\<close>

text \<open>A secret and its entry as long as the codec counts, named and of a kind as the crate has them.\<close>

definition fit_secret_record :: "codec \<Rightarrow> secret_rules \<Rightarrow> secret_record \<Rightarrow> bool" where
  "fit_secret_record c x s \<longleftrightarrow> fit_named c x (xr_name s) (xr_kind s) \<and> length (xr_value s) \<le> most c \<and>
     length (xr_set_by s) \<le> most c \<and> xs_secret x (xr_name s) (xr_kind s) (xr_value s) = Inr ()"

definition fit_secret_entry :: "codec \<Rightarrow> secret_rules \<Rightarrow> secret_entry \<Rightarrow> bool" where
  "fit_secret_entry c x e \<longleftrightarrow> fit_named c x (xe_name e) (xe_kind e) \<and> length (xe_set_by e) \<le> most c"

primrec w_request :: "codec \<Rightarrow> request \<Rightarrow> bytes" where
  "w_request c (RqWriteChunk a) = w_byte c 1 @ w_stream_chunk c a"
| "w_request c (RqReadChunk a b) = w_byte c 2 @ w_u128 c a @ w_u32 c b"
| "w_request c (RqWriteMessage a) = w_byte c 3 @ w_message_record c a"
| "w_request c (RqReadMessage a) = w_byte c 4 @ w_u128 c a"
| "w_request c (RqWriteJourney a) = w_byte c 5 @ w_journey_record c a"
| "w_request c (RqReadJourney a) = w_byte c 6 @ w_u128 c a"
| "w_request c (RqClaim a b) = w_byte c 7 @ w_claim c a @ w_u64 c b"
| "w_request c (RqRenew a b) = w_byte c 8 @ w_list c (w_claim c) a @ w_u64 c b"
| "w_request c (RqRelease a) = w_byte c 9 @ w_claim c a"
| "w_request c (RqHandOn a) = w_byte c 10 @ w_hand_on c a"
| "w_request c (RqWriteAudit a) = w_byte c 11 @ w_audit_entry c a"
| "w_request c (RqKeepAudit a b) = w_byte c 12 @ w_u32 c a @ w_u64 c b"
| "w_request c (RqReadKeptAudit a) = w_byte c 13 @ w_u128 c a"
| "w_request c (RqWriteAdministration a) = w_byte c 14 @ w_administration_record c a"
| "w_request c (RqReadAdministration a b) = w_byte c 15 @ w_administration_kind c a @ w_u128 c b"
| "w_request c (RqRemoveAdministration a b) = w_byte c 16 @ w_administration_kind c a @ w_u128 c b"
| "w_request c (RqPublish a) = w_byte c 17 @ w_publication c a"
| "w_request c (RqReadHeld a b d) = w_byte c 18 @ w_u128 c a @ w_u64 c b @ w_u32 c d"
| "w_request c (RqReadDead a b d) = w_byte c 19 @ w_u128 c a @ w_u64 c b @ w_u32 c d"
| "w_request c (RqReadDeadMessage a b) = w_byte c 20 @ w_u128 c a @ w_u128 c b"
| "w_request c (RqReplay a) = w_byte c 21 @ w_replay c a"
| "w_request c (RqQuery a) = w_byte c 22 @ w_query c a"
| "w_request c (RqWriteStream a b) = w_byte c 23 @ w_stream_chunk c a @ w_stream_record c b"
| "w_request c (RqReadStream a) = w_byte c 24 @ w_u128 c a"
| "w_request c (RqReadKeptAuditChunk a b d) = w_byte c 25 @ w_u128 c a @ w_flag c (b \<noteq> None) @ w_u128 c (case b of None \<Rightarrow> 0 | Some s \<Rightarrow> s) @ w_u32 c d"
| "w_request c (RqReadKeptAuditStream a b) = w_byte c 26 @ w_u128 c a @ w_u128 c b"
| "w_request c (RqReadFailed a b d) = w_byte c 27 @ w_u128 c a @ w_u64 c b @ w_u32 c d"
| "w_request c (RqReadDue a b d e) = w_byte c 28 @ w_u128 c a @ w_due_part c b @ w_u64 c (fst d) @ w_u64 c (snd d) @ w_u32 c e"
| "w_request c RqStanding = w_byte c 29"
| "w_request c (RqFollow a) = w_byte c 30 @ w_follow c a"
| "w_request c (RqTurn a) = w_byte c 31 @ w_turn c a"
| "w_request c (RqReadInstance a) = w_byte c 32 @ w_u128 c a"
| "w_request c (RqReadInstanceKey a) = w_byte c 33 @ w_u128 c a"
| "w_request c (RqWriteSecret a) = w_byte c 34 @ w_secret_record c a"
| "w_request c (RqReadSecret a) = w_byte c 35 @ w_text c a"
| "w_request c RqListSecrets = w_byte c 36"

definition r_request :: "codec \<Rightarrow> secret_rules \<Rightarrow> request reader" where
  "r_request c x = andr (r_byte c) (\<lambda>n.
     if n = 1 then andr (r_stream_chunk c) (\<lambda>a. ret (RqWriteChunk a))
     else if n = 2 then andr (r_u128 c) (\<lambda>a. andr (r_u32 c) (\<lambda>b. ret (RqReadChunk a b)))
     else if n = 3 then andr (r_message_record c) (\<lambda>a. ret (RqWriteMessage a))
     else if n = 4 then andr (r_u128 c) (\<lambda>a. ret (RqReadMessage a))
     else if n = 5 then andr (r_journey_record c) (\<lambda>a. ret (RqWriteJourney a))
     else if n = 6 then andr (r_u128 c) (\<lambda>a. ret (RqReadJourney a))
     else if n = 7 then andr (r_claim c) (\<lambda>a. andr (r_u64 c) (\<lambda>b. ret (RqClaim a b)))
     else if n = 8 then andr (r_list c (r_claim c)) (\<lambda>a. andr (r_u64 c) (\<lambda>b. ret (RqRenew a b)))
     else if n = 9 then andr (r_claim c) (\<lambda>a. ret (RqRelease a))
     else if n = 10 then andr (r_hand_on c) (\<lambda>a. ret (RqHandOn a))
     else if n = 11 then andr (r_audit_entry c) (\<lambda>a. ret (RqWriteAudit a))
     else if n = 12 then andr (r_u32 c) (\<lambda>a. andr (r_u64 c) (\<lambda>b. ret (RqKeepAudit a b)))
     else if n = 13 then andr (r_u128 c) (\<lambda>a. ret (RqReadKeptAudit a))
     else if n = 14 then andr (r_administration_record c) (\<lambda>a. ret (RqWriteAdministration a))
     else if n = 15 then andr (r_administration_kind c) (\<lambda>a. andr (r_u128 c) (\<lambda>b. ret (RqReadAdministration a b)))
     else if n = 16 then andr (r_administration_kind c) (\<lambda>a. andr (r_u128 c) (\<lambda>b. ret (RqRemoveAdministration a b)))
     else if n = 17 then andr (r_publication c) (\<lambda>a. ret (RqPublish a))
     else if n = 18 then andr (r_u128 c) (\<lambda>a. andr (r_u64 c) (\<lambda>b. andr (r_u32 c) (\<lambda>d. ret (RqReadHeld a b d))))
     else if n = 19 then andr (r_u128 c) (\<lambda>a. andr (r_u64 c) (\<lambda>b. andr (r_u32 c) (\<lambda>d. ret (RqReadDead a b d))))
     else if n = 20 then andr (r_u128 c) (\<lambda>a. andr (r_u128 c) (\<lambda>b. ret (RqReadDeadMessage a b)))
     else if n = 21 then andr (r_replay c) (\<lambda>a. ret (RqReplay a))
     else if n = 22 then andr (r_query c) (\<lambda>a. ret (RqQuery a))
     else if n = 23 then andr (r_stream_chunk c) (\<lambda>a. andr (r_stream_record c) (\<lambda>b. ret (RqWriteStream a b)))
     else if n = 24 then andr (r_u128 c) (\<lambda>a. ret (RqReadStream a))
     else if n = 25 then andr (r_u128 c) (\<lambda>a. andr (r_flag c) (\<lambda>flag. andr (r_u128 c) (\<lambda>s. andr (r_u32 c) (\<lambda>d. ret (RqReadKeptAuditChunk a (if flag then Some s else None) d)))))
     else if n = 26 then andr (r_u128 c) (\<lambda>a. andr (r_u128 c) (\<lambda>b. ret (RqReadKeptAuditStream a b)))
     else if n = 27 then andr (r_u128 c) (\<lambda>a. andr (r_u64 c) (\<lambda>b. andr (r_u32 c) (\<lambda>d. ret (RqReadFailed a b d))))
     else if n = 28 then andr (r_u128 c) (\<lambda>a. andr (r_due_part c) (\<lambda>b. andr (r_u64 c) (\<lambda>b1. andr (r_u64 c) (\<lambda>b2. andr (r_u32 c) (\<lambda>e. ret (RqReadDue a b (b1, b2) e))))))
     else if n = 29 then ret RqStanding
     else if n = 30 then andr (r_follow c) (\<lambda>a. ret (RqFollow a))
     else if n = 31 then andr (r_turn c) (\<lambda>a. ret (RqTurn a))
     else if n = 32 then andr (r_u128 c) (\<lambda>a. ret (RqReadInstance a))
     else if n = 33 then andr (r_u128 c) (\<lambda>a. ret (RqReadInstanceKey a))
     else if n = 34 then andr (r_secret_record c x) (\<lambda>a. ret (RqWriteSecret a))
     else if n = 35 then andr (r_name c x) (\<lambda>a. ret (RqReadSecret a))
     else if n = 36 then ret RqListSecrets
     else refuse (''no operation is numbered '' @ digits (unat n)))"

definition fit_request :: "codec \<Rightarrow> secret_rules \<Rightarrow> request \<Rightarrow> bool" where
  "fit_request c x r \<longleftrightarrow> (case r of
     RqWriteChunk a \<Rightarrow> fit_stream_chunk c a
   | RqWriteMessage a \<Rightarrow> fit_message_record c a
   | RqWriteJourney a \<Rightarrow> fit_journey_record c a
   | RqClaim a b \<Rightarrow> fit_claim c a
   | RqRenew a b \<Rightarrow> fit_list c (fit_claim c) a
   | RqRelease a \<Rightarrow> fit_claim c a
   | RqHandOn a \<Rightarrow> fit_hand_on c a
   | RqWriteAudit a \<Rightarrow> fit_audit_entry c a
   | RqWriteAdministration a \<Rightarrow> fit_administration_record c a
   | RqReadAdministration a b \<Rightarrow> fit_administration_kind c a
   | RqRemoveAdministration a b \<Rightarrow> fit_administration_kind c a
   | RqPublish a \<Rightarrow> fit_publication c a
   | RqReplay a \<Rightarrow> fit_replay c a
   | RqQuery a \<Rightarrow> fit_query c a
   | RqWriteStream a b \<Rightarrow> fit_stream_chunk c a \<and> fit_stream_record c b
   | RqFollow a \<Rightarrow> fit_follow c a
   | RqTurn a \<Rightarrow> fit_turn c a
   | RqWriteSecret a \<Rightarrow> fit_secret_record c x a
   | RqReadSecret a \<Rightarrow> (length a \<le> most c \<and> xs_name x a = Inr a)
   | _ \<Rightarrow> True)"

primrec w_answer :: "codec \<Rightarrow> answer \<Rightarrow> bytes" where
  "w_answer c AnDone = w_byte c 0"
| "w_answer c (AnChunk a) = w_byte c 1 @ w_maybe c (w_stream_chunk c) a"
| "w_answer c (AnMessage a) = w_byte c 2 @ w_maybe c (w_message_record c) a"
| "w_answer c (AnJourney a) = w_byte c 3 @ w_maybe c (w_journey_record c) a"
| "w_answer c (AnClaim a) = w_byte c 4 @ w_maybe c (w_claim c) a"
| "w_answer c (AnYes a) = w_byte c 5 @ w_flag c a"
| "w_answer c (AnCount a) = w_byte c 6 @ w_u32 c a"
| "w_answer c (AnAudit a) = w_byte c 7 @ w_maybe c (w_kept_audit c) a"
| "w_answer c (AnAdministration a) = w_byte c 8 @ w_maybe c (w_administration_record c) a"
| "w_answer c (AnRefused a b) = w_byte c 9 @ w_text c a @ w_text c b"
| "w_answer c (AnFailed a) = w_byte c 10 @ w_text c a"
| "w_answer c (AnHeld a) = w_byte c 11 @ w_held_queue c a"
| "w_answer c (AnDeadQueue a) = w_byte c 12 @ w_dead_queue c a"
| "w_answer c (AnDead a) = w_byte c 13 @ w_dead_entry c a"
| "w_answer c (AnReplayed a) = w_byte c 14 @ w_replayed c a"
| "w_answer c (AnClaims a) = w_byte c 15 @ w_list c (w_claim c) a"
| "w_answer c (AnRecords a) = w_byte c 16 @ w_many c (w_u128 c) a"
| "w_answer c (AnStream a) = w_byte c 17 @ w_maybe c (w_stream_record c) a"
| "w_answer c (AnBytes a) = w_byte c 18 @ w_maybe c (w_counted c) a"
| "w_answer c (AnFailedQueue a) = w_byte c 19 @ w_failed_queue c a"
| "w_answer c (AnDueQueue a) = w_byte c 20 @ w_due_queue c a"
| "w_answer c (AnStanding a) = w_byte c 21 @ w_standing c a"
| "w_answer c (AnStandby a) = w_byte c 22 @ w_text c a"
| "w_answer c (AnInstance a) = w_byte c 23 @ w_maybe c (w_instance_record c) a"
| "w_answer c (AnSecret a) = w_byte c 24 @ w_maybe c (w_secret_record c) a"
| "w_answer c (AnSecrets a) = w_byte c 25 @ w_list c (w_secret_entry c) a"

definition r_answer :: "codec \<Rightarrow> secret_rules \<Rightarrow> answer reader" where
  "r_answer c x = andr (r_byte c) (\<lambda>n.
     if n = 0 then ret AnDone
     else if n = 1 then andr (r_maybe c (r_stream_chunk c)) (\<lambda>a. ret (AnChunk a))
     else if n = 2 then andr (r_maybe c (r_message_record c)) (\<lambda>a. ret (AnMessage a))
     else if n = 3 then andr (r_maybe c (r_journey_record c)) (\<lambda>a. ret (AnJourney a))
     else if n = 4 then andr (r_maybe c (r_claim c)) (\<lambda>a. ret (AnClaim a))
     else if n = 5 then andr (r_flag c) (\<lambda>a. ret (AnYes a))
     else if n = 6 then andr (r_u32 c) (\<lambda>a. ret (AnCount a))
     else if n = 7 then andr (r_maybe c (r_kept_audit c)) (\<lambda>a. ret (AnAudit a))
     else if n = 8 then andr (r_maybe c (r_administration_record c)) (\<lambda>a. ret (AnAdministration a))
     else if n = 9 then andr (r_text c) (\<lambda>a. andr (r_text c) (\<lambda>b. ret (AnRefused a b)))
     else if n = 10 then andr (r_text c) (\<lambda>a. ret (AnFailed a))
     else if n = 11 then andr (r_held_queue c) (\<lambda>a. ret (AnHeld a))
     else if n = 12 then andr (r_dead_queue c) (\<lambda>a. ret (AnDeadQueue a))
     else if n = 13 then andr (r_dead_entry c) (\<lambda>a. ret (AnDead a))
     else if n = 14 then andr (r_replayed c) (\<lambda>a. ret (AnReplayed a))
     else if n = 15 then andr (r_list c (r_claim c)) (\<lambda>a. ret (AnClaims a))
     else if n = 16 then andr (r_many c (r_u128 c)) (\<lambda>a. ret (AnRecords a))
     else if n = 17 then andr (r_maybe c (r_stream_record c)) (\<lambda>a. ret (AnStream a))
     else if n = 18 then andr (r_maybe c (r_counted c)) (\<lambda>a. ret (AnBytes a))
     else if n = 19 then andr (r_failed_queue c) (\<lambda>a. ret (AnFailedQueue a))
     else if n = 20 then andr (r_due_queue c) (\<lambda>a. ret (AnDueQueue a))
     else if n = 21 then andr (r_standing c) (\<lambda>a. ret (AnStanding a))
     else if n = 22 then andr (r_text c) (\<lambda>a. ret (AnStandby a))
     else if n = 23 then andr (r_maybe c (r_instance_record c)) (\<lambda>a. ret (AnInstance a))
     else if n = 24 then andr (r_maybe c (r_secret_record c x)) (\<lambda>a. ret (AnSecret a))
     else if n = 25 then andr (r_list c (r_secret_entry c x)) (\<lambda>a. ret (AnSecrets a))
     else refuse (''no answer is numbered '' @ digits (unat n)))"

definition fit_answer :: "codec \<Rightarrow> secret_rules \<Rightarrow> answer \<Rightarrow> bool" where
  "fit_answer c x v \<longleftrightarrow> (case v of
     AnChunk a \<Rightarrow> fit_maybe (fit_stream_chunk c) a
   | AnMessage a \<Rightarrow> fit_maybe (fit_message_record c) a
   | AnJourney a \<Rightarrow> fit_maybe (fit_journey_record c) a
   | AnClaim a \<Rightarrow> fit_maybe (fit_claim c) a
   | AnAudit a \<Rightarrow> fit_maybe (fit_kept_audit c) a
   | AnAdministration a \<Rightarrow> fit_maybe (fit_administration_record c) a
   | AnRefused a b \<Rightarrow> length a \<le> most c \<and> length b \<le> most c
   | AnFailed a \<Rightarrow> length a \<le> most c
   | AnHeld a \<Rightarrow> fit_held_queue c a
   | AnDeadQueue a \<Rightarrow> fit_dead_queue c a
   | AnDead a \<Rightarrow> fit_dead_entry c a
   | AnClaims a \<Rightarrow> fit_list c (fit_claim c) a
   | AnRecords a \<Rightarrow> fit_many (\<lambda>_. True) a
   | AnStream a \<Rightarrow> fit_maybe (fit_stream_record c) a
   | AnBytes a \<Rightarrow> fit_maybe (\<lambda>b. length b \<le> most c) a
   | AnFailedQueue a \<Rightarrow> fit_failed_queue c a
   | AnDueQueue a \<Rightarrow> fit_due_queue c a
   | AnStanding a \<Rightarrow> fit_standing c a
   | AnStandby a \<Rightarrow> length a \<le> most c
   | AnInstance a \<Rightarrow> fit_maybe (fit_instance_record c) a
   | AnSecret a \<Rightarrow> fit_maybe (fit_secret_record c x) a
   | AnSecrets a \<Rightarrow> fit_list c (fit_secret_entry c x) a
   | _ \<Rightarrow> True)"

section \<open>They come back\<close>

lemma not_refused: "\<forall>w. r \<noteq> Inl w \<Longrightarrow> r = Inr ()"
  by (cases r) simp_all

sublocale secret_laws \<subseteq> secret_record: form "w_secret_record c" "r_secret_record c x" "fit_secret_record c x"
proof
  show "r_secret_record c x (w_secret_record c s @ rest) = Inr (s, rest)" if "fit_secret_record c x s" for s rest
    using that by (cases s) (simp add: r_secret_record_def w_secret_record_def fit_secret_record_def fit_named_def r_name_def r_kind_def w_kind_def)
  show "fit_secret_record c x s" if "r_secret_record c x bs = Inr (s, rest)" for bs s rest
    using that by (auto simp: r_secret_record_def andr_eq_Inr fit_secret_record_def fit_named_def refuse_def
        dest: read_name read_kind text_short counted_short not_refused split: sum.splits)
qed

sublocale secret_laws \<subseteq> secret_entry: form "w_secret_entry c" "r_secret_entry c x" "fit_secret_entry c x"
proof
  show "r_secret_entry c x (w_secret_entry c e @ rest) = Inr (e, rest)" if "fit_secret_entry c x e" for e rest
    using that by (cases e) (simp add: r_secret_entry_def w_secret_entry_def fit_secret_entry_def fit_named_def r_name_def r_kind_def w_kind_def)
  show "fit_secret_entry c x e" if "r_secret_entry c x bs = Inr (e, rest)" for bs e rest
    using that by (auto simp: r_secret_entry_def andr_eq_Inr fit_secret_entry_def fit_named_def
        dest: read_name read_kind text_short)
qed

sublocale secret_laws \<subseteq> secret_entries: form "w_list c (w_secret_entry c)" "r_list c (r_secret_entry c x)" "fit_list c (fit_secret_entry c x)"
  by (rule list_form) (rule secret_entry.form_axioms)

sublocale secret_laws \<subseteq> secret_maybe: form "w_maybe c (w_secret_record c)" "r_maybe c (r_secret_record c x)" "fit_maybe (fit_secret_record c x)"
  by (rule maybe_form) (rule secret_record.form_axioms)

context secret_laws
begin

lemma name_form: "length n \<le> most c \<and> xs_name x n = Inr n \<Longrightarrow> r_name c x (w_text c n @ rest) = Inr (n, rest)"
  by (simp add: r_name_def)

text \<open>The forms of what is asked and answered, and of a record that may be missing.\<close>

lemmas asked_forms = stream_chunk.read_write message_record.read_write journey_record.read_write claim.read_write claim_list.read_write
  hand_on.read_write audit_entry.read_write administration_record.read_write administration_kind.read_write publication.read_write
  replay.read_write query.read_write stream_record.read_write follow.read_write turn.read_write due_part.read_write
  secret_record.read_write name_form

lemmas maybe_forms =
  form.read_write [OF maybe_form [OF stream_chunk.form_axioms]] form.read_write [OF maybe_form [OF message_record.form_axioms]]
  form.read_write [OF maybe_form [OF journey_record.form_axioms]] form.read_write [OF maybe_form [OF claim.form_axioms]]
  form.read_write [OF maybe_form [OF kept_audit.form_axioms]] form.read_write [OF maybe_form [OF administration_record.form_axioms]]
  form.read_write [OF maybe_form [OF stream_record.form_axioms]] form.read_write [OF maybe_form [OF instance_record.form_axioms]]
  form.read_write [OF maybe_form [OF counted_form.form_axioms]]

lemma request_back: "fit_request c x r \<Longrightarrow> r_request c x (w_request c r @ rest) = Inr (r, rest)"
  by (cases r) (auto simp: r_request_def fit_request_def asked_forms split: option.splits)

lemma answer_back: "fit_answer c x v \<Longrightarrow> r_answer c x (w_answer c v @ rest) = Inr (v, rest)"
  by (cases v) (auto simp: r_answer_def fit_answer_def asked_forms maybe_forms secret_maybe.read_write secret_entries.read_write
      held_queue.read_write dead_queue.read_write dead_entry.read_write replayed.read_write failed_queue.read_write
      due_queue.read_write standing.read_write)

end

section \<open>Properties\<close>

text \<open>
  C13: A request and an answer come back from their bytes as they were, each of the thirty-six
  operations and the twenty-six answers; and no two requests have the same bytes.
\<close>

theorem wire_carries:
  assumes "secret_laws c x" and "fit_request c x r" and "fit_request c x r'" and "fit_answer c x v"
  shows "from_bytes c (r_request c x) (w_request c r) = Inr r \<and> from_bytes c (r_answer c x) (w_answer c v) = Inr v \<and>
    (w_request c r = w_request c r' \<longleftrightarrow> r = r')"
proof -
  have left: "left_over c [] = None" using assms(1) by (simp add: secret_laws_def codec_laws_def)
  have "r_request c x (w_request c q) = Inr (q, [])" if "fit_request c x q" for q
    using secret_laws.request_back [OF assms(1) that, of "[]"] by simp
  moreover have "r_answer c x (w_answer c v) = Inr (v, [])"
    using secret_laws.answer_back [OF assms(1,4), of "[]"] by simp
  ultimately show ?thesis using assms(2,3) left unfolding from_bytes_def by (auto dest: arg_cong [of _ _ "r_request c x"])
qed

text \<open>A secret asked for by its name, and a count.\<close>

theorem wire_carries_witness:
  "w_request plain_codec (RqReadSecret ''partner'') \<noteq> w_request plain_codec RqListSecrets \<and>
   from_bytes plain_codec (r_request plain_codec plain_rules) (w_request plain_codec (RqReadSecret ''partner'')) = Inr (RqReadSecret ''partner'')"
proof -
  have "fit_request plain_codec plain_rules (RqReadSecret ''partner'')" "fit_request plain_codec plain_rules RqListSecrets"
    "fit_answer plain_codec plain_rules (AnCount 7)"
    by (simp_all add: fit_request_def fit_answer_def plain_rules_def)
  from wire_carries [OF plain_secrets.secret_laws_axioms this] show ?thesis by simp
qed

end
