(* ===== verification/Xmip_Storage.thy ===== *)
theory Xmip_Storage
  imports Wire
begin

text \<open>
  Xmip Storage's operations over whichever databases are behind them (\<open>trait XmipStorage\<close> of
  \<open>src/.src/storage.rs\<close>), as a record of functions on a state; and the one that asks each of what
  answers now (\<open>src/.src/storage/standby/delegated.rs\<close>, \<open>served\<close> and \<open>reaching\<close> of
  \<open>src/.src/storage/standby/served.rs\<close>).

  A lease is in nanoseconds; what a Publication is durable by is what a wait on it comes to.
\<close>

type_synonym ('s, 'a) does = "'s \<Rightarrow> 's \<times> 'a result"

record 's storage =
  xm_write_chunk :: "stream_chunk \<Rightarrow> ('s, unit) does"
  xm_read_chunk :: "u128 \<Rightarrow> u32 \<Rightarrow> ('s, stream_chunk option) does"
  xm_write_stream :: "stream_chunk \<Rightarrow> stream_record \<Rightarrow> ('s, unit) does"
  xm_read_stream :: "u128 \<Rightarrow> ('s, stream_record option) does"
  xm_write_message :: "message_record \<Rightarrow> ('s, unit) does"
  xm_read_message :: "u128 \<Rightarrow> ('s, message_record option) does"
  xm_write_journey :: "journey_record \<Rightarrow> ('s, unit) does"
  xm_read_journey :: "u128 \<Rightarrow> ('s, journey_record option) does"
  xm_publish :: "publication \<Rightarrow> ('s, claim list \<times> unit result) does"
  xm_read_held :: "u128 \<Rightarrow> u64 \<Rightarrow> u32 \<Rightarrow> ('s, held_queue) does"
  xm_read_failed :: "u128 \<Rightarrow> u64 \<Rightarrow> u32 \<Rightarrow> ('s, failed_queue) does"
  xm_read_due :: "u128 \<Rightarrow> due_part \<Rightarrow> (u64 \<times> u64) \<Rightarrow> u32 \<Rightarrow> ('s, due_queue) does"
  xm_read_dead :: "u128 \<Rightarrow> u64 \<Rightarrow> u32 \<Rightarrow> ('s, dead_queue) does"
  xm_read_dead_message :: "u128 \<Rightarrow> u128 \<Rightarrow> ('s, dead_entry) does"
  xm_replay :: "replay \<Rightarrow> ('s, replayed) does"
  xm_claim :: "u128 \<Rightarrow> string \<Rightarrow> u128 \<Rightarrow> nat \<Rightarrow> ('s, claim option) does"
  xm_renew :: "(claim list) \<Rightarrow> nat \<Rightarrow> ('s, claim list) does"
  xm_release :: "claim \<Rightarrow> ('s, bool) does"
  xm_hand_on :: "hand_on \<Rightarrow> ('s, bool) does"
  xm_turn :: "turn \<Rightarrow> ('s, bool) does"
  xm_read_instance :: "u128 \<Rightarrow> ('s, instance_record option) does"
  xm_read_instance_key :: "u128 \<Rightarrow> ('s, u128 option) does"
  xm_write_audit :: "audit_entry \<Rightarrow> ('s, unit) does"
  xm_keep_audit :: "u32 \<Rightarrow> u64 \<Rightarrow> ('s, u32) does"
  xm_read_kept_audit :: "u128 \<Rightarrow> ('s, kept_audit option) does"
  xm_read_kept_audit_stream :: "u128 \<Rightarrow> u128 \<Rightarrow> ('s, stream_record option) does"
  xm_read_kept_audit_chunk :: "u128 \<Rightarrow> (u128 option) \<Rightarrow> u32 \<Rightarrow> ('s, bytes option) does"
  xm_write_administration :: "administration_record \<Rightarrow> ('s, unit) does"
  xm_read_administration :: "administration_kind \<Rightarrow> u128 \<Rightarrow> ('s, administration_record option) does"
  xm_remove_administration :: "administration_kind \<Rightarrow> u128 \<Rightarrow> ('s, unit) does"
  xm_write_secret :: "secret_record \<Rightarrow> ('s, unit) does"
  xm_read_secret :: "string \<Rightarrow> ('s, secret_record option) does"
  xm_list_secrets :: "('s, secret_entry list) does"
  xm_query :: "query \<Rightarrow> ('s, u128 list) does"

section \<open>Whatever answers now\<close>

definition asked_now :: "('s \<Rightarrow> 's storage result) \<Rightarrow> ('s storage \<Rightarrow> ('s, 'a) does) \<Rightarrow> ('s, 'a) does" where
  "asked_now now op s = (case now s of Inl why \<Rightarrow> (s, Inl why) | Inr S \<Rightarrow> op S s)"

definition delegated :: "('s \<Rightarrow> 's storage result) \<Rightarrow> 's storage" where
  "delegated now = \<lparr>
     xm_write_chunk = (\<lambda>a. asked_now now (\<lambda>P. xm_write_chunk P a)),
     xm_read_chunk = (\<lambda>a b. asked_now now (\<lambda>P. xm_read_chunk P a b)),
     xm_write_stream = (\<lambda>a b. asked_now now (\<lambda>P. xm_write_stream P a b)),
     xm_read_stream = (\<lambda>a. asked_now now (\<lambda>P. xm_read_stream P a)),
     xm_write_message = (\<lambda>a. asked_now now (\<lambda>P. xm_write_message P a)),
     xm_read_message = (\<lambda>a. asked_now now (\<lambda>P. xm_read_message P a)),
     xm_write_journey = (\<lambda>a. asked_now now (\<lambda>P. xm_write_journey P a)),
     xm_read_journey = (\<lambda>a. asked_now now (\<lambda>P. xm_read_journey P a)),
     xm_publish = (\<lambda>a. asked_now now (\<lambda>P. xm_publish P a)),
     xm_read_held = (\<lambda>a b d. asked_now now (\<lambda>P. xm_read_held P a b d)),
     xm_read_failed = (\<lambda>a b d. asked_now now (\<lambda>P. xm_read_failed P a b d)),
     xm_read_due = (\<lambda>a b d e. asked_now now (\<lambda>P. xm_read_due P a b d e)),
     xm_read_dead = (\<lambda>a b d. asked_now now (\<lambda>P. xm_read_dead P a b d)),
     xm_read_dead_message = (\<lambda>a b. asked_now now (\<lambda>P. xm_read_dead_message P a b)),
     xm_replay = (\<lambda>a. asked_now now (\<lambda>P. xm_replay P a)),
     xm_claim = (\<lambda>a b d e. asked_now now (\<lambda>P. xm_claim P a b d e)),
     xm_renew = (\<lambda>a b. asked_now now (\<lambda>P. xm_renew P a b)),
     xm_release = (\<lambda>a. asked_now now (\<lambda>P. xm_release P a)),
     xm_hand_on = (\<lambda>a. asked_now now (\<lambda>P. xm_hand_on P a)),
     xm_turn = (\<lambda>a. asked_now now (\<lambda>P. xm_turn P a)),
     xm_read_instance = (\<lambda>a. asked_now now (\<lambda>P. xm_read_instance P a)),
     xm_read_instance_key = (\<lambda>a. asked_now now (\<lambda>P. xm_read_instance_key P a)),
     xm_write_audit = (\<lambda>a. asked_now now (\<lambda>P. xm_write_audit P a)),
     xm_keep_audit = (\<lambda>a b. asked_now now (\<lambda>P. xm_keep_audit P a b)),
     xm_read_kept_audit = (\<lambda>a. asked_now now (\<lambda>P. xm_read_kept_audit P a)),
     xm_read_kept_audit_stream = (\<lambda>a b. asked_now now (\<lambda>P. xm_read_kept_audit_stream P a b)),
     xm_read_kept_audit_chunk = (\<lambda>a b d. asked_now now (\<lambda>P. xm_read_kept_audit_chunk P a b d)),
     xm_write_administration = (\<lambda>a. asked_now now (\<lambda>P. xm_write_administration P a)),
     xm_read_administration = (\<lambda>a b. asked_now now (\<lambda>P. xm_read_administration P a b)),
     xm_remove_administration = (\<lambda>a b. asked_now now (\<lambda>P. xm_remove_administration P a b)),
     xm_write_secret = (\<lambda>a. asked_now now (\<lambda>P. xm_write_secret P a)),
     xm_read_secret = (\<lambda>a. asked_now now (\<lambda>P. xm_read_secret P a)),
     xm_list_secrets = asked_now now (\<lambda>P. xm_list_secrets P),
     xm_query = (\<lambda>a. asked_now now (\<lambda>P. xm_query P a))\<rparr>"

text \<open>Its own databases while it is the primary and not stopping; a refusal, or the primary over the wire, else.\<close>

definition lent :: "('s \<Rightarrow> bool) \<Rightarrow> 's storage \<Rightarrow> 's \<Rightarrow> 's storage option" where
  "lent primary own s = (if primary s then Some own else None)"

definition served :: "('s \<Rightarrow> bool) \<Rightarrow> ('s \<Rightarrow> string) \<Rightarrow> 's storage \<Rightarrow> 's storage" where
  "served primary said own = delegated (\<lambda>s. case lent primary own s of None \<Rightarrow> Inl (Standby (said s)) | Some S \<Rightarrow> Inr S)"

definition reaching :: "('s \<Rightarrow> bool) \<Rightarrow> 's storage \<Rightarrow> 's storage \<Rightarrow> 's storage" where
  "reaching primary client own = delegated (\<lambda>s. Inr (case lent primary own s of None \<Rightarrow> client | Some S \<Rightarrow> S))"

end
