(* ===== verification/Server.thy ===== *)
theory Server
  imports Xmip_Storage Writer
begin

text \<open>
  A Storage node's server (\<open>src/.src/storage/server.rs\<close>, \<open>server/admitted.rs\<close>): what the storage
  behind it answers a request, and a connection's requests served one after another, each admitted
  before it is answered. It is shown that what a connection does to the storage is its admitted
  requests in order and nothing else, whatever comes on it.

  The rules' reading (\<open>authorize::plane\<close>) is a parameter, as are the certificate's reading (\<open>tls\<close>) and
  the frames (\<open>net\<close>).
\<close>

section \<open>An answer\<close>

definition answering :: "(secret_error \<Rightarrow> string) \<Rightarrow> ('a \<Rightarrow> answer) \<Rightarrow> ('s, 'a) does \<Rightarrow> 's \<Rightarrow> 's \<times> answer" where
  "answering say f op s = (let (s', got) = op s in (s', case got of
     Inr v \<Rightarrow> f v
   | Inl why \<Rightarrow> (case why of Refused scope reason \<Rightarrow> AnRefused scope reason | Standby reason \<Rightarrow> AnStandby reason
       | _ \<Rightarrow> AnFailed (display say why))))"

text \<open>A Publication answered once durable.\<close>

definition awaited :: "('s, claim list \<times> unit result) does \<Rightarrow> ('s, claim list) does" where
  "awaited op s = (let (s', got) = op s in (s', bindr got (\<lambda>(held, durable). bindr durable (\<lambda>_. Inr held))))"

definition not_an_operation :: persist_error where
  "not_an_operation = Failed ''a Storage node's standing is its server's to answer''"

definition answer :: "(secret_error \<Rightarrow> string) \<Rightarrow> 's storage \<Rightarrow> request \<Rightarrow> 's \<Rightarrow> 's \<times> answer" where
  "answer say S r = (case r of
     RqWriteChunk a \<Rightarrow> answering say (\<lambda>_. AnDone) (xm_write_chunk S a)
   | RqReadChunk a b \<Rightarrow> answering say AnChunk (xm_read_chunk S a b)
   | RqWriteStream a b \<Rightarrow> answering say (\<lambda>_. AnDone) (xm_write_stream S a b)
   | RqReadStream a \<Rightarrow> answering say AnStream (xm_read_stream S a)
   | RqWriteMessage a \<Rightarrow> answering say (\<lambda>_. AnDone) (xm_write_message S a)
   | RqReadMessage a \<Rightarrow> answering say AnMessage (xm_read_message S a)
   | RqWriteJourney a \<Rightarrow> answering say (\<lambda>_. AnDone) (xm_write_journey S a)
   | RqReadJourney a \<Rightarrow> answering say AnJourney (xm_read_journey S a)
   | RqPublish a \<Rightarrow> answering say AnClaims (awaited (xm_publish S a))
   | RqReadHeld a b d \<Rightarrow> answering say AnHeld (xm_read_held S a b d)
   | RqReadFailed a b d \<Rightarrow> answering say AnFailedQueue (xm_read_failed S a b d)
   | RqReadDue a b d e \<Rightarrow> answering say AnDueQueue (xm_read_due S a b d e)
   | RqReadDead a b d \<Rightarrow> answering say AnDeadQueue (xm_read_dead S a b d)
   | RqReadDeadMessage a b \<Rightarrow> answering say AnDead (xm_read_dead_message S a b)
   | RqReplay a \<Rightarrow> answering say AnReplayed (xm_replay S a)
   | RqClaim a b \<Rightarrow> answering say AnClaim (xm_claim S (cl_journey a) (cl_holder a) (cl_token a) (unat b))
   | RqRenew a b \<Rightarrow> answering say AnClaims (xm_renew S a (unat b))
   | RqRelease a \<Rightarrow> answering say AnYes (xm_release S a)
   | RqHandOn a \<Rightarrow> answering say AnYes (xm_hand_on S a)
   | RqTurn a \<Rightarrow> answering say AnYes (xm_turn S a)
   | RqReadInstance a \<Rightarrow> answering say AnInstance (xm_read_instance S a)
   | RqReadInstanceKey a \<Rightarrow> answering say (\<lambda>found. AnRecords (case found of None \<Rightarrow> [] | Some k \<Rightarrow> [k])) (xm_read_instance_key S a)
   | RqWriteAudit a \<Rightarrow> answering say (\<lambda>_. AnDone) (xm_write_audit S a)
   | RqKeepAudit a b \<Rightarrow> answering say AnCount (xm_keep_audit S a b)
   | RqReadKeptAudit a \<Rightarrow> answering say AnAudit (xm_read_kept_audit S a)
   | RqReadKeptAuditStream a b \<Rightarrow> answering say AnStream (xm_read_kept_audit_stream S a b)
   | RqReadKeptAuditChunk a b d \<Rightarrow> answering say AnBytes (xm_read_kept_audit_chunk S a b d)
   | RqWriteAdministration a \<Rightarrow> answering say (\<lambda>_. AnDone) (xm_write_administration S a)
   | RqReadAdministration a b \<Rightarrow> answering say AnAdministration (xm_read_administration S a b)
   | RqRemoveAdministration a b \<Rightarrow> answering say (\<lambda>_. AnDone) (xm_remove_administration S a b)
   | RqWriteSecret a \<Rightarrow> answering say (\<lambda>_. AnDone) (xm_write_secret S a)
   | RqReadSecret a \<Rightarrow> answering say AnSecret (xm_read_secret S a)
   | RqListSecrets \<Rightarrow> answering say AnSecrets (xm_list_secrets S)
   | RqQuery a \<Rightarrow> answering say AnRecords (xm_query S a)
   | RqStanding \<Rightarrow> answering say (\<lambda>_ :: unit. AnDone) (\<lambda>s. (s, Inl not_an_operation))
   | RqFollow a \<Rightarrow> answering say (\<lambda>_ :: unit. AnDone) (\<lambda>s. (s, Inl not_an_operation)))"

section \<open>Who is admitted\<close>

record plane_rule =
  ru_does :: string
  ru_operation :: string
  ru_standing :: u8

definition person :: u8 where "person = 0"
definition a_node :: u8 where "a_node = 1"

definition rules :: "plane_rule list" where
  "rules = map (\<lambda>(does, operation). \<lparr>ru_does = does, ru_operation = operation, ru_standing = a_node\<rparr>)
     [(''read'', ''read_secret''), (''read'', ''list_secrets''), (''write'', ''write_secret''), (''read'', ''*''), (''write'', ''*'')]"

text \<open>Who a certificate proves, and its standing: a node's authenticates servers.\<close>

definition caller :: "(string option \<times> bool) option \<Rightarrow> string option \<times> u8" where
  "caller leaf = (case leaf of None \<Rightarrow> (None, person)
   | Some (who, servers) \<Rightarrow> (who, if servers then a_node else person))"

type_synonym admits = "string option \<Rightarrow> u8 \<Rightarrow> string \<times> string \<Rightarrow> plane_rule list \<Rightarrow> string + unit"

section \<open>A connection\<close>

text \<open>
  What a server serves: the operations, and what it says it is; and for a Storage node of several,
  the handing on of its writes, which takes the connection over.
\<close>

record 's serving =
  sv_storage :: "'s storage"
  sv_standing :: "'s \<Rightarrow> node_standing"
  sv_ships :: bool

definition alone_standing :: node_standing where
  "alone_standing = \<lparr>ns_process = 0, ns_primary = True, ns_epoch = 0, ns_history = 0, ns_next = replicate databases 1, ns_copying = False\<rparr>"

text \<open>What is done with a request: answered and read on, answered and ended, or the connection handed over.\<close>

datatype served_one =
    Answered answer
  | Ended answer
  | HandedOver follow

definition only_one :: string where
  "only_one = ''this Storage node is the only one: it hands its writes to none''"

definition serve_one :: "(secret_error \<Rightarrow> string) \<Rightarrow> admits \<Rightarrow> 's serving \<Rightarrow> string option \<times> u8 \<Rightarrow> request \<Rightarrow> 's \<Rightarrow> 's \<times> served_one" where
  "serve_one say admit V who r s = (case admit (fst who) (snd who) (operation r) rules of
     Inl why \<Rightarrow> (s, Ended (AnFailed why))
   | Inr _ \<Rightarrow> (case r of
       RqStanding \<Rightarrow> (s, Answered (AnStanding (sv_standing V s)))
     | RqFollow asked \<Rightarrow> (s, if sv_ships V then HandedOver asked else Answered (AnFailed only_one))
     | _ \<Rightarrow> (let (s', v) = answer say (sv_storage V) r s in (s', Answered v))))"

text \<open>The frames that come, in order, and the answers sent; it ends at a frame that is no request.\<close>

fun serve :: "(secret_error \<Rightarrow> string) \<Rightarrow> codec \<Rightarrow> secret_rules \<Rightarrow> admits \<Rightarrow> 's serving \<Rightarrow> string option \<times> u8 \<Rightarrow>
    bytes list \<Rightarrow> 's \<Rightarrow> 's \<times> answer list" where
  "serve say c x admit V who [] s = (s, [])"
| "serve say c x admit V who (f # fs) s = (case from_bytes c (r_request c x) f of
     Inl _ \<Rightarrow> (s, [])
   | Inr r \<Rightarrow> (case serve_one say admit V who r s of
       (s', Answered v) \<Rightarrow> (let (s'', vs) = serve say c x admit V who fs s' in (s'', v # vs))
     | (s', Ended v) \<Rightarrow> (s', [v])
     | (s', HandedOver _) \<Rightarrow> (s', [])))"

section \<open>What a connection does\<close>

text \<open>The requests on it until a frame that is none, and what one admitted is answered.\<close>

fun requests_in :: "codec \<Rightarrow> secret_rules \<Rightarrow> bytes list \<Rightarrow> request list" where
  "requests_in c x [] = []"
| "requests_in c x (f # fs) = (case from_bytes c (r_request c x) f of Inl _ \<Rightarrow> [] | Inr r \<Rightarrow> r # requests_in c x fs)"

definition reply :: "(secret_error \<Rightarrow> string) \<Rightarrow> 's serving \<Rightarrow> request \<Rightarrow> 's \<Rightarrow> answer" where
  "reply say V r s = (case r of RqStanding \<Rightarrow> AnStanding (sv_standing V s) | RqFollow _ \<Rightarrow> AnFailed only_one
     | _ \<Rightarrow> snd (answer say (sv_storage V) r s))"

definition admitted :: "admits \<Rightarrow> string option \<times> u8 \<Rightarrow> request \<Rightarrow> bool" where
  "admitted admit who r \<longleftrightarrow> admit (fst who) (snd who) (operation r) rules = Inr ()"

definition hands_over :: "'s serving \<Rightarrow> request \<Rightarrow> bool" where
  "hands_over V r \<longleftrightarrow> sv_ships V \<and> (case r of RqFollow _ \<Rightarrow> True | _ \<Rightarrow> False)"

definition after_requests :: "(secret_error \<Rightarrow> string) \<Rightarrow> 's serving \<Rightarrow> request list \<Rightarrow> 's \<Rightarrow> 's" where
  "after_requests say V rs s = foldl (\<lambda>s r. fst (answer say (sv_storage V) r s)) s rs"

definition served_requests :: "admits \<Rightarrow> string option \<times> u8 \<Rightarrow> 's serving \<Rightarrow> request list \<Rightarrow> request list" where
  "served_requests admit who V rs = takeWhile (\<lambda>r. admitted admit who r \<and> \<not> hands_over V r) rs"

lemma serve_one_is: "serve_one say admit V who r s = (if \<not> admitted admit who r
    then (s, Ended (AnFailed (projl (admit (fst who) (snd who) (operation r) rules))))
    else (fst (answer say (sv_storage V) r s), if hands_over V r then HandedOver (case r of RqFollow f \<Rightarrow> f) else Answered (reply say V r s)))"
  by (cases r) (auto simp: serve_one_def admitted_def hands_over_def reply_def answer_def answering_def Let_def split: sum.splits prod.splits)

text \<open>A connection served, its requests one after another.\<close>

lemma serve_is:
  "let rs = served_requests admit who V (requests_in c x fs) in
    fst (serve say c x admit V who fs s) = after_requests say V rs s \<and>
    snd (serve say c x admit V who fs s) = map (\<lambda>i. reply say V (rs ! i) (after_requests say V (take i rs) s)) [0 ..< length rs] @
      (case drop (length rs) (requests_in c x fs) of r # _ \<Rightarrow> (if admitted admit who r then []
        else [AnFailed (projl (admit (fst who) (snd who) (operation r) rules))]) | [] \<Rightarrow> [])"
proof (induction fs arbitrary: s)
  case (Cons f fs)
  show ?case
  proof (cases "from_bytes c (r_request c x) f")
    case (Inr r)
    have run: "fst (answer say (sv_storage V) r s) = s" if "hands_over V r"
      using that by (auto simp: hands_over_def answer_def answering_def split: request.splits)
    show ?thesis using Cons.IH Inr run
      by (simp add: Let_def served_requests_def serve_one_is after_requests_def upt_conv_Cons map_Suc_upt [symmetric] comp_def split_beta del: upt_Suc)
  qed (simp add: after_requests_def served_requests_def)
qed (simp add: after_requests_def served_requests_def)

section \<open>Properties\<close>

text \<open>
  C12: Whatever comes on a connection, what it does to the storage is its requests in order, up to the
  first that is not admitted, that hands the connection over or that is no request, and nothing
  after: each is answered by the storage as the ones before it left it, or by the server where its
  standing is asked; and one not admitted is answered with why, and ends the connection.
\<close>

theorem only_admitted_are_served:
  "let rs = served_requests admit who V (requests_in c x fs) in
    fst (serve say c x admit V who fs s) = after_requests say V rs s \<and>
    snd (serve say c x admit V who fs s) = map (\<lambda>i. reply say V (rs ! i) (after_requests say V (take i rs) s)) [0 ..< length rs] @
      (case drop (length rs) (requests_in c x fs) of r # _ \<Rightarrow> (if admitted admit who r then []
        else [AnFailed (projl (admit (fst who) (snd who) (operation r) rules))]) | [] \<Rightarrow> [])"
  by (rule serve_is)

end
