(* ===== verification/Client.thy ===== *)
theory Client
  imports Server "HOL-Library.Multiset"
begin

text \<open>
  A node reaching Xmip Storage (\<open>src/.src/storage/client.rs\<close>, \<open>client/operations.rs\<close>): the Storage
  nodes listed, asked round robin, each over a connection kept or one made afresh, a standby or a
  primary of an earlier epoch not asked; and each operation as the request it asks and the answer it
  expects. It is shown that the nodes are asked each once at most, in their turn, until one answers;
  and that an operation asked through it of a server is that operation of the storage behind.

  Connecting, with TLS, and an exchange on a connection are parameters, as is the clock; requests
  are one after another, where the code takes the locks of a node's fields in turn.
\<close>

section \<open>The Storage nodes\<close>

record reached =
  rc_address :: string
  rc_answered :: bool
  rc_standby :: bool
  rc_said :: string
  rc_at :: nat

record 'k client_node =
  kn_address :: string
  kn_idle :: "'k list"
  kn_passed_over :: "nat option"
  kn_standby :: bool
  kn_last :: "reached option"

record 'k client =
  kc_nodes :: "'k client_node list"
  kc_next :: u64
  kc_pass_over :: nat
  kc_epoch :: u64

datatype unasked =
    IsStandby string
  | AskFailed string

record ('w, 'k) network =
  nw_exchange :: "request \<Rightarrow> 'k \<Rightarrow> 'w \<Rightarrow> 'w \<times> 'k \<times> (string + answer)"
  nw_connect :: "string \<Rightarrow> 'w \<Rightarrow> 'w \<times> (string + 'k)"
  nw_now :: "'w \<Rightarrow> nat"

definition passed_over :: "nat \<Rightarrow> 'k client_node \<Rightarrow> bool" where
  "passed_over now n = (case kn_passed_over n of None \<Rightarrow> False | Some until \<Rightarrow> until > now)"

definition unasked_said :: "unasked \<Rightarrow> string" where
  "unasked_said u = (case u of IsStandby said \<Rightarrow> said | AskFailed said \<Rightarrow> said)"

definition node_answered :: "nat \<Rightarrow> nat \<Rightarrow> unasked + answer \<Rightarrow> 'k client_node \<Rightarrow> 'k client_node" where
  "node_answered now pass_over got n = (let (ok, standby, said) = (case got of
       Inr _ \<Rightarrow> (True, False, ''answered'')
     | Inl (IsStandby said) \<Rightarrow> (False, True, said)
     | Inl (AskFailed said) \<Rightarrow> (False, kn_standby n, said)) in
     n\<lparr>kn_standby := standby, kn_passed_over := (if ok then None else Some (now + pass_over)),
       kn_last := Some \<lparr>rc_address = kn_address n, rc_answered = ok, rc_standby = standby, rc_said = said, rc_at = now\<rparr>\<rparr>)"

section \<open>Whose turn it is\<close>

definition turn_rank :: "nat \<Rightarrow> 'k client \<Rightarrow> nat \<Rightarrow> nat" where
  "turn_rank now C i = (let n = kc_nodes C ! i in
     if passed_over now n then 2 else if kn_standby n then 1 else 0)"

definition turn_order :: "nat \<Rightarrow> 'k client \<Rightarrow> nat list" where
  "turn_order now C = sort_key (turn_rank now C)
     (map (\<lambda>step. unat (kc_next C + word_of_nat step) mod length (kc_nodes C)) [0 ..< length (kc_nodes C)])"

definition turn_taken_by :: "'k client \<Rightarrow> 'k client" where
  "turn_taken_by C = C\<lparr>kc_next := kc_next C + 1\<rparr>"

section \<open>One node asked\<close>

definition on_node :: "nat \<Rightarrow> ('k client_node \<Rightarrow> 'k client_node) \<Rightarrow> 'k client \<Rightarrow> 'k client" where
  "on_node i f C = C\<lparr>kc_nodes := (kc_nodes C)[i := f (kc_nodes C ! i)]\<rparr>"

text \<open>An answer that says its Storage node is a standby is no answer.\<close>

definition standby_said :: "answer \<Rightarrow> unasked + answer" where
  "standby_said v = (case v of AnStandby said \<Rightarrow> Inl (IsStandby said) | _ \<Rightarrow> Inr v)"

text \<open>A new connection's Storage node held to what it says it is.\<close>

definition standing_met :: "(answer \<Rightarrow> string) \<Rightarrow> string + answer \<Rightarrow> 'k client \<Rightarrow> 'k client \<times> (unasked + unit)" where
  "standing_met shown got C = (case got of
     Inl failure \<Rightarrow> (C, Inl (AskFailed failure))
   | Inr (AnStanding standing) \<Rightarrow> (if \<not> ns_primary standing
       then (C, Inl (IsStandby (''a standby Storage node, epoch '' @ digits (unat (ns_epoch standing)))))
       else (C\<lparr>kc_epoch := max (kc_epoch C) (ns_epoch standing)\<rparr>, if ns_epoch standing < kc_epoch C
         then Inl (AskFailed (''a primary of epoch '' @ digits (unat (ns_epoch standing)) @ '', before the epoch '' @
           digits (unat (kc_epoch C)) @ '' met: it is not asked'')) else Inr ()))
   | Inr v \<Rightarrow> (C, Inl (AskFailed (''answered '' @ shown v @ '' to what it is''))))"

definition ask_afresh :: "('w, 'k) network \<Rightarrow> (answer \<Rightarrow> string) \<Rightarrow> request \<Rightarrow> nat \<Rightarrow> 'k client \<times> 'w \<Rightarrow> ('k client \<times> 'w) \<times> (unasked + answer)" where
  "ask_afresh N shown r i S = (let (C, w) = S in case nw_connect N (kn_address (kc_nodes C ! i)) w of
     (w, Inl failure) \<Rightarrow> ((C, w), Inl (AskFailed failure))
   | (w, Inr k) \<Rightarrow> (let (w, k, got) = nw_exchange N RqStanding k w in case standing_met shown got C of
       (C, Inl why) \<Rightarrow> ((C, w), Inl why)
     | (C, Inr _) \<Rightarrow> (case nw_exchange N r k w of
         (w, k, Inl failure) \<Rightarrow> ((C, w), Inl (AskFailed failure))
       | (w, k, Inr v) \<Rightarrow> ((on_node i (\<lambda>n. n\<lparr>kn_idle := kn_idle n @ [k]\<rparr>) C, w), standby_said v))))"

definition ask_node :: "('w, 'k) network \<Rightarrow> (answer \<Rightarrow> string) \<Rightarrow> request \<Rightarrow> nat \<Rightarrow> 'k client \<times> 'w \<Rightarrow> ('k client \<times> 'w) \<times> (unasked + answer)" where
  "ask_node N shown r i S = (let (C, w) = S; idle = kn_idle (kc_nodes C ! i) in
     if idle = [] then ask_afresh N shown r i (C, w)
     else (let C = on_node i (\<lambda>n. n\<lparr>kn_idle := butlast idle\<rparr>) C in case nw_exchange N r (last idle) w of
         (w, k, Inr v) \<Rightarrow> ((on_node i (\<lambda>n. n\<lparr>kn_idle := kn_idle n @ [k]\<rparr>) C, w), standby_said v)
       | (w, k, Inl _) \<Rightarrow> ask_afresh N shown r i (C, w)))"

text \<open>Asked, and what it came to kept of the node.\<close>

definition tries_node :: "('w, 'k) network \<Rightarrow> (answer \<Rightarrow> string) \<Rightarrow> request \<Rightarrow> nat \<Rightarrow> 'k client \<times> 'w \<Rightarrow> ('k client \<times> 'w) \<times> (unasked + answer)" where
  "tries_node N shown r i S = (let ((C, w), got) = ask_node N shown r i S in
     ((on_node i (node_answered (nw_now N w) (kc_pass_over C) got) C, w), got))"

section \<open>A request asked\<close>

definition joined :: "string list \<Rightarrow> string" where
  "joined ss = (case ss of [] \<Rightarrow> '''' | s # ss \<Rightarrow> s @ concat (map (\<lambda>t. ''; '' @ t) ss))"

fun ask_each :: "('w, 'k) network \<Rightarrow> (answer \<Rightarrow> string) \<Rightarrow> request \<Rightarrow> nat list \<Rightarrow> string list \<Rightarrow> ('k client \<times> 'w, answer) does" where
  "ask_each N shown r [] failures S = (S, Inl (Unreachable (''no Storage node answered: '' @ joined failures)))"
| "ask_each N shown r (i # is) failures S = (let (S', got) = tries_node N shown r i S in case got of
     Inr v \<Rightarrow> (S', Inr v)
   | Inl u \<Rightarrow> ask_each N shown r is (failures @ [kn_address (kc_nodes (fst S) ! i) @ '': '' @ unasked_said u]) S')"

definition client_asks :: "('w, 'k) network \<Rightarrow> (answer \<Rightarrow> string) \<Rightarrow> nat option \<Rightarrow> request \<Rightarrow> ('k client \<times> 'w, answer) does" where
  "client_asks N shown pinned r S = (let (C, w) = S in case pinned of
     Some i \<Rightarrow> (case tries_node N shown r i (C, w) of
         (S', Inr v) \<Rightarrow> (S', Inr v)
       | (S', Inl u) \<Rightarrow> (S', Inl (Unreachable (''the statement'' @ [CHR 0x27] @ ''s Storage node '' @ kn_address (kc_nodes C ! i) @
           '' did not answer: '' @ unasked_said u))))
   | None \<Rightarrow> ask_each N shown r (turn_order (nw_now N w) C) [] (turn_taken_by C, w))"

text \<open>One node of the list for a statement: the one it is over already, or the next in turn.\<close>

definition pinned_client :: "('w, 'k) network \<Rightarrow> nat option \<Rightarrow> 'k client \<times> 'w \<Rightarrow> ('k client \<times> 'w) \<times> nat option" where
  "pinned_client N pinned S = (let (C, w) = S in case pinned of Some i \<Rightarrow> (S, Some i)
     | None \<Rightarrow> ((turn_taken_by C, w), case turn_order (nw_now N w) C of [] \<Rightarrow> None | i # _ \<Rightarrow> Some i))"

section \<open>Each operation asked\<close>

definition wire_nanos :: "nat \<Rightarrow> u64" where
  "wire_nanos lease = word_of_nat (min lease (2 ^ 64 - 1))"

text \<open>The answer an operation expected, or why there was none.\<close>

definition expected :: "(answer \<Rightarrow> string) \<Rightarrow> answer \<Rightarrow> (answer \<Rightarrow> 'a option) \<Rightarrow> 'a result" where
  "expected shown v taking = (case v of
     AnRefused scope reason \<Rightarrow> Inl (Refused scope reason)
   | AnFailed reason \<Rightarrow> Inl (Failed reason)
   | _ \<Rightarrow> (case taking v of Some y \<Rightarrow> Inr y | None \<Rightarrow> Inl (Record (''a Storage node answered '' @ shown v))))"

definition asking :: "(answer \<Rightarrow> string) \<Rightarrow> (request \<Rightarrow> ('s, answer) does) \<Rightarrow> request \<Rightarrow> (answer \<Rightarrow> 'a option) \<Rightarrow> ('s, 'a) does" where
  "asking shown asker r taking s = (let (s', got) = asker r s in (s', bindr got (\<lambda>v. expected shown v taking)))"

definition mapped :: "('a \<Rightarrow> 'b) \<Rightarrow> ('s, 'a) does \<Rightarrow> ('s, 'b) does" where
  "mapped f op s = (let (s', got) = op s in (s', bindr got (\<lambda>v. Inr (f v))))"

definition done_taken :: "answer \<Rightarrow> unit option" where
  "done_taken v = (case v of AnDone \<Rightarrow> Some () | _ \<Rightarrow> None)"

definition claimed_taken :: "answer \<Rightarrow> claim option option" where
  "claimed_taken v = (case v of AnClaim claim \<Rightarrow> Some claim | _ \<Rightarrow> None)"

definition held_taken :: "answer \<Rightarrow> claim list option" where
  "held_taken v = (case v of AnClaims held \<Rightarrow> Some held | _ \<Rightarrow> None)"

definition yes_taken :: "answer \<Rightarrow> bool option" where
  "yes_taken v = (case v of AnYes yes \<Rightarrow> Some yes | _ \<Rightarrow> None)"

definition client_storage :: "(answer \<Rightarrow> string) \<Rightarrow> (request \<Rightarrow> ('s, answer) does) \<Rightarrow> 's storage" where
  "client_storage shown asker = \<lparr>
     xm_write_chunk = (\<lambda>a. asking shown asker (RqWriteChunk a) done_taken),
     xm_read_chunk = (\<lambda>a b. asking shown asker (RqReadChunk a b) (\<lambda>v. case v of AnChunk found \<Rightarrow> Some found | _ \<Rightarrow> None)),
     xm_write_stream = (\<lambda>a b. asking shown asker (RqWriteStream a b) done_taken),
     xm_read_stream = (\<lambda>a. asking shown asker (RqReadStream a) (\<lambda>v. case v of AnStream found \<Rightarrow> Some found | _ \<Rightarrow> None)),
     xm_write_message = (\<lambda>a. asking shown asker (RqWriteMessage a) done_taken),
     xm_read_message = (\<lambda>a. asking shown asker (RqReadMessage a) (\<lambda>v. case v of AnMessage found \<Rightarrow> Some found | _ \<Rightarrow> None)),
     xm_write_journey = (\<lambda>a. asking shown asker (RqWriteJourney a) done_taken),
     xm_read_journey = (\<lambda>a. asking shown asker (RqReadJourney a) (\<lambda>v. case v of AnJourney found \<Rightarrow> Some found | _ \<Rightarrow> None)),
     xm_publish = (\<lambda>a. mapped (\<lambda>held. (held, Inr ())) (asking shown asker (RqPublish a) held_taken)),
     xm_read_held = (\<lambda>a b d. asking shown asker (RqReadHeld a b d) (\<lambda>v. case v of AnHeld found \<Rightarrow> Some found | _ \<Rightarrow> None)),
     xm_read_failed = (\<lambda>a b d. asking shown asker (RqReadFailed a b d) (\<lambda>v. case v of AnFailedQueue found \<Rightarrow> Some found | _ \<Rightarrow> None)),
     xm_read_due = (\<lambda>a b d e. asking shown asker (RqReadDue a b d e) (\<lambda>v. case v of AnDueQueue found \<Rightarrow> Some found | _ \<Rightarrow> None)),
     xm_read_dead = (\<lambda>a b d. asking shown asker (RqReadDead a b d) (\<lambda>v. case v of AnDeadQueue found \<Rightarrow> Some found | _ \<Rightarrow> None)),
     xm_read_dead_message = (\<lambda>a b. asking shown asker (RqReadDeadMessage a b) (\<lambda>v. case v of AnDead found \<Rightarrow> Some found | _ \<Rightarrow> None)),
     xm_replay = (\<lambda>a. asking shown asker (RqReplay a) (\<lambda>v. case v of AnReplayed found \<Rightarrow> Some found | _ \<Rightarrow> None)),
     xm_claim = (\<lambda>a b d e. asking shown asker (RqClaim \<lparr>cl_journey = a, cl_holder = b, cl_token = d, cl_until_unix_nanos = 0, cl_fence = 0\<rparr> (wire_nanos e)) claimed_taken),
     xm_renew = (\<lambda>a b. asking shown asker (RqRenew a (wire_nanos b)) held_taken),
     xm_release = (\<lambda>a. asking shown asker (RqRelease a) yes_taken),
     xm_hand_on = (\<lambda>a. asking shown asker (RqHandOn a) yes_taken),
     xm_turn = (\<lambda>a. asking shown asker (RqTurn a) yes_taken),
     xm_read_instance = (\<lambda>a. asking shown asker (RqReadInstance a) (\<lambda>v. case v of AnInstance found \<Rightarrow> Some found | _ \<Rightarrow> None)),
     xm_read_instance_key = (\<lambda>a. asking shown asker (RqReadInstanceKey a) (\<lambda>v. case v of AnRecords found \<Rightarrow> Some (case found of [] \<Rightarrow> None | k # _ \<Rightarrow> Some k) | _ \<Rightarrow> None)),
     xm_write_audit = (\<lambda>a. asking shown asker (RqWriteAudit a) done_taken),
     xm_keep_audit = (\<lambda>a b. asking shown asker (RqKeepAudit a b) (\<lambda>v. case v of AnCount found \<Rightarrow> Some found | _ \<Rightarrow> None)),
     xm_read_kept_audit = (\<lambda>a. asking shown asker (RqReadKeptAudit a) (\<lambda>v. case v of AnAudit found \<Rightarrow> Some found | _ \<Rightarrow> None)),
     xm_read_kept_audit_stream = (\<lambda>a b. asking shown asker (RqReadKeptAuditStream a b) (\<lambda>v. case v of AnStream found \<Rightarrow> Some found | _ \<Rightarrow> None)),
     xm_read_kept_audit_chunk = (\<lambda>a b d. asking shown asker (RqReadKeptAuditChunk a b d) (\<lambda>v. case v of AnBytes found \<Rightarrow> Some found | _ \<Rightarrow> None)),
     xm_write_administration = (\<lambda>a. asking shown asker (RqWriteAdministration a) done_taken),
     xm_read_administration = (\<lambda>a b. asking shown asker (RqReadAdministration a b) (\<lambda>v. case v of AnAdministration found \<Rightarrow> Some found | _ \<Rightarrow> None)),
     xm_remove_administration = (\<lambda>a b. asking shown asker (RqRemoveAdministration a b) done_taken),
     xm_write_secret = (\<lambda>a. asking shown asker (RqWriteSecret a) done_taken),
     xm_read_secret = (\<lambda>a. asking shown asker (RqReadSecret a) (\<lambda>v. case v of AnSecret found \<Rightarrow> Some found | _ \<Rightarrow> None)),
     xm_list_secrets = asking shown asker RqListSecrets (\<lambda>v. case v of AnSecrets found \<Rightarrow> Some found | _ \<Rightarrow> None),
     xm_query = (\<lambda>a. asking shown asker (RqQuery a) (\<lambda>v. case v of AnRecords found \<Rightarrow> Some found | _ \<Rightarrow> None))\<rparr>"


section \<open>Served over the wire\<close>

text \<open>A network whose every address reaches one server, and a connection made proven to it as \<open>who\<close>.\<close>

definition received :: "codec \<Rightarrow> secret_rules \<Rightarrow> answer \<Rightarrow> string + answer" where
  "received c x v = (case from_bytes c (r_answer c x) (w_answer c v) of Inl _ \<Rightarrow> Inl ''a frame that is not a record'' | Inr v' \<Rightarrow> Inr v')"

definition served_over :: "(secret_error \<Rightarrow> string) \<Rightarrow> codec \<Rightarrow> secret_rules \<Rightarrow> admits \<Rightarrow> 's serving \<Rightarrow> string option \<times> u8 \<Rightarrow> nat \<Rightarrow> ('s, unit) network" where
  "served_over say c x admit V who now = \<lparr>
     nw_exchange = (\<lambda>r k s. case from_bytes c (r_request c x) (w_request c r) of
         Inl _ \<Rightarrow> (s, k, Inl ''the connection ended'')
       | Inr r' \<Rightarrow> (case serve_one say admit V who r' s of
           (s', Answered v) \<Rightarrow> (s', k, received c x v)
         | (s', Ended v) \<Rightarrow> (s', k, received c x v)
         | (s', HandedOver _) \<Rightarrow> (s', k, Inl ''the connection ended''))),
     nw_connect = (\<lambda>address s. (s, Inr ())),
     nw_now = (\<lambda>s. now)\<rparr>"

text \<open>
  What an operation comes to over the wire: its errors told apart no further than a refused record,
  an answer once durable, a lease of as many nanoseconds as eight bytes count.
\<close>

definition crossed :: "(secret_error \<Rightarrow> string) \<Rightarrow> ('s, 'a) does \<Rightarrow> ('s, 'a) does" where
  "crossed say op s = (let (s', got) = op s in (s', case got of Inr v \<Rightarrow> Inr v
     | Inl why \<Rightarrow> Inl (case why of Refused scope reason \<Rightarrow> Refused scope reason | _ \<Rightarrow> Failed (display say why))))"

definition over_wire :: "(secret_error \<Rightarrow> string) \<Rightarrow> 's storage \<Rightarrow> 's storage" where
  "over_wire say S = \<lparr>
     xm_write_chunk = (\<lambda>a. crossed say (xm_write_chunk S a)),
     xm_read_chunk = (\<lambda>a b. crossed say (xm_read_chunk S a b)),
     xm_write_stream = (\<lambda>a b. crossed say (xm_write_stream S a b)),
     xm_read_stream = (\<lambda>a. crossed say (xm_read_stream S a)),
     xm_write_message = (\<lambda>a. crossed say (xm_write_message S a)),
     xm_read_message = (\<lambda>a. crossed say (xm_read_message S a)),
     xm_write_journey = (\<lambda>a. crossed say (xm_write_journey S a)),
     xm_read_journey = (\<lambda>a. crossed say (xm_read_journey S a)),
     xm_publish = (\<lambda>a. mapped (\<lambda>held. (held, Inr ())) (crossed say (awaited (xm_publish S a)))),
     xm_read_held = (\<lambda>a b d. crossed say (xm_read_held S a b d)),
     xm_read_failed = (\<lambda>a b d. crossed say (xm_read_failed S a b d)),
     xm_read_due = (\<lambda>a b d e. crossed say (xm_read_due S a b d e)),
     xm_read_dead = (\<lambda>a b d. crossed say (xm_read_dead S a b d)),
     xm_read_dead_message = (\<lambda>a b. crossed say (xm_read_dead_message S a b)),
     xm_replay = (\<lambda>a. crossed say (xm_replay S a)),
     xm_claim = (\<lambda>a b d e. crossed say (xm_claim S a b d (min e (2 ^ 64 - 1)))),
     xm_renew = (\<lambda>a b. crossed say (xm_renew S a (min b (2 ^ 64 - 1)))),
     xm_release = (\<lambda>a. crossed say (xm_release S a)),
     xm_hand_on = (\<lambda>a. crossed say (xm_hand_on S a)),
     xm_turn = (\<lambda>a. crossed say (xm_turn S a)),
     xm_read_instance = (\<lambda>a. crossed say (xm_read_instance S a)),
     xm_read_instance_key = (\<lambda>a. crossed say (xm_read_instance_key S a)),
     xm_write_audit = (\<lambda>a. crossed say (xm_write_audit S a)),
     xm_keep_audit = (\<lambda>a b. crossed say (xm_keep_audit S a b)),
     xm_read_kept_audit = (\<lambda>a. crossed say (xm_read_kept_audit S a)),
     xm_read_kept_audit_stream = (\<lambda>a b. crossed say (xm_read_kept_audit_stream S a b)),
     xm_read_kept_audit_chunk = (\<lambda>a b d. crossed say (xm_read_kept_audit_chunk S a b d)),
     xm_write_administration = (\<lambda>a. crossed say (xm_write_administration S a)),
     xm_read_administration = (\<lambda>a b. crossed say (xm_read_administration S a b)),
     xm_remove_administration = (\<lambda>a b. crossed say (xm_remove_administration S a b)),
     xm_write_secret = (\<lambda>a. crossed say (xm_write_secret S a)),
     xm_read_secret = (\<lambda>a. crossed say (xm_read_secret S a)),
     xm_list_secrets = crossed say (xm_list_secrets S),
     xm_query = (\<lambda>a. crossed say (xm_query S a))\<rparr>"

text \<open>A request and its answer as long as the codec counts, and its Storage node no standby.\<close>

definition reaches :: "codec \<Rightarrow> secret_rules \<Rightarrow> (secret_error \<Rightarrow> string) \<Rightarrow> 's storage \<Rightarrow> request \<Rightarrow> 's \<Rightarrow> bool" where
  "reaches c x say S r s \<longleftrightarrow> fit_request c x r \<and> fit_answer c x (snd (answer say S r s)) \<and> (\<forall>said. snd (answer say S r s) \<noteq> AnStandby said) \<and>
     r \<noteq> RqStanding \<and> (\<forall>f. r \<noteq> RqFollow f)"

definition same_as :: "('k \<times> 's, 'a) does \<Rightarrow> ('s, 'a) does \<Rightarrow> 'k \<Rightarrow> 's \<Rightarrow> bool" where
  "same_as op op' C s \<longleftrightarrow> (\<exists>C'. op (C, s) = ((C', fst (op' s)), snd (op' s)))"

text \<open>A node's certificate admitted, and the server one that says it is the primary of the latest epoch met.\<close>

definition serves_client :: "codec \<Rightarrow> admits \<Rightarrow> 's serving \<Rightarrow> string option \<times> u8 \<Rightarrow> 'k client \<Rightarrow> bool" where
  "serves_client c admit V who C \<longleftrightarrow> (\<forall>does. admit (fst who) (snd who) does rules = Inr ()) \<and> kc_nodes C \<noteq> [] \<and>
     (\<forall>s. ns_primary (sv_standing V s) \<and> kc_epoch C \<le> ns_epoch (sv_standing V s) \<and> fit_standing c (sv_standing V s))"

lemma serves_client_on [simp]: "serves_client c admit V who (on_node i f C) = serves_client c admit V who C"
  by (simp add: serves_client_def on_node_def)

lemma serves_client_turn [simp]: "serves_client c admit V who (turn_taken_by C) = serves_client c admit V who C"
  by (simp add: serves_client_def turn_taken_by_def)

lemma length_turn_order [simp]: "length (turn_order now C) = length (kc_nodes C)"
  by (simp add: turn_order_def)

lemma same_as_mapped: "same_as op op' C s \<Longrightarrow> same_as (mapped f op) (mapped f op') C s"
  by (auto simp: same_as_def mapped_def split: prod.splits)

context secret_laws
begin

lemma received_back: "fit_answer c x v \<Longrightarrow> received c x v = Inr v"
  using answer_back [of v "[]"] by (simp add: received_def from_bytes_def)

lemma request_read: "fit_request c x r \<Longrightarrow> from_bytes c (r_request c x) (w_request c r) = Inr r"
  using request_back [of r "[]"] by (simp add: from_bytes_def)

lemma exchange_served:
  assumes "serves_client c admit V who C" and "reaches c x say (sv_storage V) r s"
  shows "nw_exchange (served_over say c x admit V who now) r k s = (fst (answer say (sv_storage V) r s), k, Inr (snd (answer say (sv_storage V) r s)))"
proof -
  have "serve_one say admit V who r s = (fst (answer say (sv_storage V) r s), Answered (snd (answer say (sv_storage V) r s)))"
    using assms by (cases r) (auto simp: serve_one_def serves_client_def reaches_def split_beta)
  then show ?thesis using assms(2) by (simp add: served_over_def reaches_def received_back request_read)
qed

lemma exchange_standing:
  assumes "serves_client c admit V who C"
  shows "nw_exchange (served_over say c x admit V who now) RqStanding k s = (s, k, Inr (AnStanding (sv_standing V s)))"
proof -
  have "fit_answer c x (AnStanding (sv_standing V s))" "fit_request c x RqStanding"
    using assms by (simp_all add: serves_client_def fit_answer_def fit_request_def)
  then show ?thesis using assms
    by (simp add: served_over_def serve_one_def serves_client_def received_back request_read del: w_request.simps)
qed

lemma standby_unsaid: "reaches c x say S r s \<Longrightarrow> standby_said (snd (answer say S r s)) = Inr (snd (answer say S r s))"
  by (auto simp: reaches_def standby_said_def split: answer.splits)

lemma afresh_served:
  assumes "serves_client c admit V who C" and "reaches c x say (sv_storage V) r s"
  shows "\<exists>C'. ask_afresh (served_over say c x admit V who now) shown r i (C, s) =
    ((C', fst (answer say (sv_storage V) r s)), Inr (snd (answer say (sv_storage V) r s)))"
proof -
  have "nw_connect (served_over say c x admit V who now) a s = (s, Inr ())" for a by (simp add: served_over_def)
  moreover have "standing_met shown (Inr (AnStanding (sv_standing V s))) C = (C\<lparr>kc_epoch := max (kc_epoch C) (ns_epoch (sv_standing V s))\<rparr>, Inr ())"
    using assms(1) by (auto simp: standing_met_def serves_client_def not_less)
  ultimately show ?thesis
    using exchange_served [OF assms] exchange_standing [OF assms(1)] standby_unsaid [OF assms(2)] by (simp add: ask_afresh_def)
qed

lemma node_served:
  assumes "serves_client c admit V who C" and "reaches c x say (sv_storage V) r s"
  shows "\<exists>C'. tries_node (served_over say c x admit V who now) shown r i (C, s) =
    ((C', fst (answer say (sv_storage V) r s)), Inr (snd (answer say (sv_storage V) r s)))"
proof -
  have "\<exists>C'. ask_node (served_over say c x admit V who now) shown r i (C, s) =
      ((C', fst (answer say (sv_storage V) r s)), Inr (snd (answer say (sv_storage V) r s)))"
    using afresh_served [OF assms] exchange_served [OF assms] standby_unsaid [OF assms(2)]
    by (auto simp: ask_node_def Let_def)
  then show ?thesis by (auto simp: tries_node_def)
qed

lemma client_served:
  assumes "serves_client c admit V who C" and "reaches c x say (sv_storage V) r s"
  shows "\<exists>C'. client_asks (served_over say c x admit V who now) shown pinned r (C, s) =
    ((C', fst (answer say (sv_storage V) r s)), Inr (snd (answer say (sv_storage V) r s)))"
proof (cases pinned)
  case None
  have "length (turn_order (nw_now (served_over say c x admit V who now) s) C) \<noteq> 0"
    using assms(1) by (simp add: serves_client_def)
  then obtain i others where o: "turn_order (nw_now (served_over say c x admit V who now) s) C = i # others" by (cases "turn_order (nw_now (served_over say c x admit V who now) s) C") auto
  have "serves_client c admit V who (turn_taken_by C)" using assms(1) by simp
  from node_served [OF this assms(2)] obtain C' where "tries_node (served_over say c x admit V who now) shown r i (turn_taken_by C, s) =
      ((C', fst (answer say (sv_storage V) r s)), Inr (snd (answer say (sv_storage V) r s)))" by blast
  then show ?thesis by (simp add: client_asks_def None o)
next
  case (Some i)
  moreover obtain C' where "tries_node (served_over say c x admit V who now) shown r i (C, s) =
      ((C', fst (answer say (sv_storage V) r s)), Inr (snd (answer say (sv_storage V) r s)))" using node_served [OF assms] by blast
  ultimately show ?thesis by (simp add: client_asks_def)
qed

text \<open>An operation whose request the server answers with what the client takes.\<close>

lemma asked_crosses:
  assumes serves: "serves_client c admit V who C" and reach: "reaches c x say (sv_storage V) r s"
    and answer: "answer say (sv_storage V) r = answering say f op"
    and taking: "\<And>v. expected shown (f v) taking = Inr v"
  shows "same_as (asking shown (client_asks (served_over say c x admit V who now) shown pinned) r taking) (crossed say op) C s"
proof -
  obtain C' where a: "client_asks (served_over say c x admit V who now) shown pinned r (C, s) =
      ((C', fst (answering say f op s)), Inr (snd (answering say f op s)))"
    using client_served [OF serves reach] unfolding answer by blast
  have unsaid: "snd (answering say f op s) \<noteq> AnStandby said" for said using reach by (simp add: reaches_def answer)
  obtain s' got where o: "op s = (s', got)" by (cases "op s")
  have "expected shown (snd (answering say f op s)) taking = snd (crossed say op s)"
  proof (cases got)
    case (Inl why)
    then show ?thesis using unsaid [of "case why of Standby w \<Rightarrow> w | _ \<Rightarrow> ''''"] by (cases why) (simp_all add: answering_def crossed_def expected_def o)
  next
    case (Inr v)
    then show ?thesis by (simp add: answering_def crossed_def taking o)
  qed
  moreover have "fst (answering say f op s) = fst (crossed say op s)" by (simp add: answering_def crossed_def split_beta)
  ultimately show ?thesis using a by (auto simp: same_as_def asking_def)
qed

end

lemmas expects = expected_def done_taken_def claimed_taken_def held_taken_def yes_taken_def

section \<open>Properties\<close>

text \<open>
  C11: A node's operation on Xmip Storage over the wire is that operation of the storage behind the
  server it reaches, done once: each of the thirty-four comes to what the storage comes to, the
  storage left as it leaves it, with an error told apart no further than a refused record, whichever
  of the Storage nodes listed was asked, over a connection kept or a new one, in its turn or for one
  statement; where the request and its answer are as long as the codec counts.
\<close>

theorem client_is_the_storage:
  fixes shown say V pinned x admit who now
  assumes "secret_laws c x" and "serves_client c admit V who C"
  shows "let K = client_storage shown (client_asks (served_over say c x admit V who now) shown pinned); W = over_wire say (sv_storage V) in
    (\<forall>a. reaches c x say (sv_storage V) (RqWriteChunk a) s \<longrightarrow> same_as (xm_write_chunk K a) (xm_write_chunk W a) C s) \<and>
    (\<forall>a b. reaches c x say (sv_storage V) (RqReadChunk a b) s \<longrightarrow> same_as (xm_read_chunk K a b) (xm_read_chunk W a b) C s) \<and>
    (\<forall>a b. reaches c x say (sv_storage V) (RqWriteStream a b) s \<longrightarrow> same_as (xm_write_stream K a b) (xm_write_stream W a b) C s) \<and>
    (\<forall>a. reaches c x say (sv_storage V) (RqReadStream a) s \<longrightarrow> same_as (xm_read_stream K a) (xm_read_stream W a) C s) \<and>
    (\<forall>a. reaches c x say (sv_storage V) (RqWriteMessage a) s \<longrightarrow> same_as (xm_write_message K a) (xm_write_message W a) C s) \<and>
    (\<forall>a. reaches c x say (sv_storage V) (RqReadMessage a) s \<longrightarrow> same_as (xm_read_message K a) (xm_read_message W a) C s) \<and>
    (\<forall>a. reaches c x say (sv_storage V) (RqWriteJourney a) s \<longrightarrow> same_as (xm_write_journey K a) (xm_write_journey W a) C s) \<and>
    (\<forall>a. reaches c x say (sv_storage V) (RqReadJourney a) s \<longrightarrow> same_as (xm_read_journey K a) (xm_read_journey W a) C s) \<and>
    (\<forall>a. reaches c x say (sv_storage V) (RqPublish a) s \<longrightarrow> same_as (xm_publish K a) (xm_publish W a) C s) \<and>
    (\<forall>a b d. reaches c x say (sv_storage V) (RqReadHeld a b d) s \<longrightarrow> same_as (xm_read_held K a b d) (xm_read_held W a b d) C s) \<and>
    (\<forall>a b d. reaches c x say (sv_storage V) (RqReadFailed a b d) s \<longrightarrow> same_as (xm_read_failed K a b d) (xm_read_failed W a b d) C s) \<and>
    (\<forall>a b d e. reaches c x say (sv_storage V) (RqReadDue a b d e) s \<longrightarrow> same_as (xm_read_due K a b d e) (xm_read_due W a b d e) C s) \<and>
    (\<forall>a b d. reaches c x say (sv_storage V) (RqReadDead a b d) s \<longrightarrow> same_as (xm_read_dead K a b d) (xm_read_dead W a b d) C s) \<and>
    (\<forall>a b. reaches c x say (sv_storage V) (RqReadDeadMessage a b) s \<longrightarrow> same_as (xm_read_dead_message K a b) (xm_read_dead_message W a b) C s) \<and>
    (\<forall>a. reaches c x say (sv_storage V) (RqReplay a) s \<longrightarrow> same_as (xm_replay K a) (xm_replay W a) C s) \<and>
    (\<forall>a b d e. reaches c x say (sv_storage V) (RqClaim \<lparr>cl_journey = a, cl_holder = b, cl_token = d, cl_until_unix_nanos = 0, cl_fence = 0\<rparr> (wire_nanos e)) s \<longrightarrow> same_as (xm_claim K a b d e) (xm_claim W a b d e) C s) \<and>
    (\<forall>a b. reaches c x say (sv_storage V) (RqRenew a (wire_nanos b)) s \<longrightarrow> same_as (xm_renew K a b) (xm_renew W a b) C s) \<and>
    (\<forall>a. reaches c x say (sv_storage V) (RqRelease a) s \<longrightarrow> same_as (xm_release K a) (xm_release W a) C s) \<and>
    (\<forall>a. reaches c x say (sv_storage V) (RqHandOn a) s \<longrightarrow> same_as (xm_hand_on K a) (xm_hand_on W a) C s) \<and>
    (\<forall>a. reaches c x say (sv_storage V) (RqTurn a) s \<longrightarrow> same_as (xm_turn K a) (xm_turn W a) C s) \<and>
    (\<forall>a. reaches c x say (sv_storage V) (RqReadInstance a) s \<longrightarrow> same_as (xm_read_instance K a) (xm_read_instance W a) C s) \<and>
    (\<forall>a. reaches c x say (sv_storage V) (RqReadInstanceKey a) s \<longrightarrow> same_as (xm_read_instance_key K a) (xm_read_instance_key W a) C s) \<and>
    (\<forall>a. reaches c x say (sv_storage V) (RqWriteAudit a) s \<longrightarrow> same_as (xm_write_audit K a) (xm_write_audit W a) C s) \<and>
    (\<forall>a b. reaches c x say (sv_storage V) (RqKeepAudit a b) s \<longrightarrow> same_as (xm_keep_audit K a b) (xm_keep_audit W a b) C s) \<and>
    (\<forall>a. reaches c x say (sv_storage V) (RqReadKeptAudit a) s \<longrightarrow> same_as (xm_read_kept_audit K a) (xm_read_kept_audit W a) C s) \<and>
    (\<forall>a b. reaches c x say (sv_storage V) (RqReadKeptAuditStream a b) s \<longrightarrow> same_as (xm_read_kept_audit_stream K a b) (xm_read_kept_audit_stream W a b) C s) \<and>
    (\<forall>a b d. reaches c x say (sv_storage V) (RqReadKeptAuditChunk a b d) s \<longrightarrow> same_as (xm_read_kept_audit_chunk K a b d) (xm_read_kept_audit_chunk W a b d) C s) \<and>
    (\<forall>a. reaches c x say (sv_storage V) (RqWriteAdministration a) s \<longrightarrow> same_as (xm_write_administration K a) (xm_write_administration W a) C s) \<and>
    (\<forall>a b. reaches c x say (sv_storage V) (RqReadAdministration a b) s \<longrightarrow> same_as (xm_read_administration K a b) (xm_read_administration W a b) C s) \<and>
    (\<forall>a b. reaches c x say (sv_storage V) (RqRemoveAdministration a b) s \<longrightarrow> same_as (xm_remove_administration K a b) (xm_remove_administration W a b) C s) \<and>
    (\<forall>a. reaches c x say (sv_storage V) (RqWriteSecret a) s \<longrightarrow> same_as (xm_write_secret K a) (xm_write_secret W a) C s) \<and>
    (\<forall>a. reaches c x say (sv_storage V) (RqReadSecret a) s \<longrightarrow> same_as (xm_read_secret K a) (xm_read_secret W a) C s) \<and>
    (reaches c x say (sv_storage V) RqListSecrets s \<longrightarrow> same_as (xm_list_secrets K) (xm_list_secrets W) C s) \<and>
    (\<forall>a. reaches c x say (sv_storage V) (RqQuery a) s \<longrightarrow> same_as (xm_query K a) (xm_query W a) C s)"
proof -
  have lease: "min n (2 ^ 64 - 1) = unat (wire_nanos n)" for n
    by (simp add: wire_nanos_def unat_of_nat take_bit_nat_eq_self)
  note crosses = secret_laws.asked_crosses [OF assms(1,2)]
  show ?thesis unfolding Let_def client_storage_def over_wire_def storage.simps lease
    by (intro conjI allI impI same_as_mapped; (rule crosses, assumption, simp add: answer_def, simp add: expects split: option.split))
qed

text \<open>A storage that keeps one Journey, served to a client of two Storage nodes.\<close>

definition sample_storage :: "journey_record option storage" where
  "sample_storage = (delegated (\<lambda>_. Inl (Failed ''not kept'')))\<lparr>
     xm_write_journey := (\<lambda>j s. (Some j, Inr ())), xm_read_journey := (\<lambda>i s. (s, Inr s))\<rparr>"

definition sample_serving :: "journey_record option serving" where
  "sample_serving = \<lparr>sv_storage = sample_storage, sv_standing = (\<lambda>_. alone_standing), sv_ships = False\<rparr>"

definition sample_node_at :: "string \<Rightarrow> nat option \<Rightarrow> unit client_node" where
  "sample_node_at address until = \<lparr>kn_address = address, kn_idle = [], kn_passed_over = until, kn_standby = False, kn_last = None\<rparr>"

definition sample_client :: "unit client" where
  "sample_client = \<lparr>kc_nodes = [sample_node_at ''a:1'' (Some 9), sample_node_at ''b:1'' None], kc_next = 0, kc_pass_over = 5, kc_epoch = 0\<rparr>"

definition admits_all :: admits where
  "admits_all who standing does rs = Inr ()"

definition kept_journey :: journey_record where "kept_journey = sample_journey 5 None False"

lemma sample_serves: "serves_client plain_codec admits_all sample_serving (None, a_node) sample_client"
  by (simp add: serves_client_def admits_all_def sample_client_def sample_serving_def alone_standing_def fit_standing_def)

lemma sample_answer: "answer (\<lambda>_. []) sample_storage (RqReadJourney 5) (Some kept_journey) = (Some kept_journey, AnJourney (Some kept_journey))"
  by (simp add: answer_def answering_def sample_storage_def)

lemma sample_reaches: "reaches plain_codec plain_rules (\<lambda>_. []) (sv_storage sample_serving) (RqReadJourney 5) (Some kept_journey)"
  using fit_sample_journey sample_answer by (simp add: reaches_def sample_serving_def fit_request_def fit_answer_def kept_journey_def)

theorem client_is_the_storage_witness:
  "\<exists>C'. xm_read_journey (client_storage (\<lambda>_. []) (client_asks (served_over (\<lambda>_. []) plain_codec plain_rules admits_all sample_serving
    (None, a_node) 0) (\<lambda>_. []) None)) 5 (sample_client, Some kept_journey) = ((C', Some kept_journey), Inr (Some kept_journey))"
proof -
  let ?K = "client_storage (\<lambda>_. []) (client_asks (served_over (\<lambda>_. []) plain_codec plain_rules admits_all sample_serving (None, a_node) 0) (\<lambda>_. []) None)"
  note sample_reaches
  moreover have "\<forall>a. reaches plain_codec plain_rules (\<lambda>_. []) (sv_storage sample_serving) (RqReadJourney a) (Some kept_journey) \<longrightarrow>
      same_as (xm_read_journey ?K a) (xm_read_journey (over_wire (\<lambda>_. []) (sv_storage sample_serving)) a) sample_client (Some kept_journey)"
    using client_is_the_storage [OF plain_secrets.secret_laws_axioms sample_serves, where say = "\<lambda>_. []" and shown = "\<lambda>_. []" and now = 0 and pinned = None
        and s = "Some kept_journey", unfolded Let_def] by (elim conjE) assumption
  ultimately show ?thesis by (auto simp: same_as_def over_wire_def crossed_def sample_serving_def sample_storage_def)
qed

text \<open>Each node a request is asked of and what it came to, in the order asked.\<close>

fun asked_trace :: "('w, 'k) network \<Rightarrow> (answer \<Rightarrow> string) \<Rightarrow> request \<Rightarrow> nat list \<Rightarrow> 'k client \<times> 'w \<Rightarrow> (nat \<times> (unasked + answer)) list" where
  "asked_trace N shown r [] S = []"
| "asked_trace N shown r (i # is) S = (let (S', got) = tries_node N shown r i S in
     (i, got) # (case got of Inr _ \<Rightarrow> [] | Inl _ \<Rightarrow> asked_trace N shown r is S'))"

lemma each_traced:
  "map fst (asked_trace N shown r order S) = take (length (asked_trace N shown r order S)) order \<and>
   list_all (\<lambda>(i, got). isl got) (butlast (asked_trace N shown r order S)) \<and>
   (case snd (ask_each N shown r order failures S) of
      Inr v \<Rightarrow> asked_trace N shown r order S \<noteq> [] \<and> snd (last (asked_trace N shown r order S)) = Inr v
    | Inl e \<Rightarrow> map fst (asked_trace N shown r order S) = order \<and> list_all (\<lambda>(i, got). isl got) (asked_trace N shown r order S))"
proof (induction order arbitrary: S failures)
  case (Cons i order)
  obtain S' got where t: "tries_node N shown r i S = (S', got)" by (cases "tries_node N shown r i S")
  show ?case
  proof (cases got)
    case (Inl u)
    then show ?thesis
      using Cons.IH [of S' "failures @ [kn_address (kc_nodes (fst S) ! i) @ '': '' @ unasked_said u]"] t
      by (auto split: sum.splits) (metis length_map order_refl)
  next
    case (Inr v)
    then show ?thesis using t by simp
  qed
qed simp

lemma turn_orders_all:
  assumes "unat (kc_next C) + length (kc_nodes C) \<le> 2 ^ 64"
  shows "mset (turn_order now C) = mset [0 ..< length (kc_nodes C)]"
proof -
  let ?n = "length (kc_nodes C)" and ?f = "unat (kc_next C)"
  let ?at = "\<lambda>step. unat (kc_next C + word_of_nat step) mod ?n"
  have at: "?at step = (?f + step) mod ?n" if "step < ?n" for step
  proof -
    have "?f + step < 2 ^ 64" using assms that by simp
    then show ?thesis by (simp add: unat_word_ariths unat_of_nat take_bit_nat_eq_self)
  qed
  have inj: "inj_on ?at {0 ..< ?n}"
  proof
    fix a b assume ab: "a \<in> {0 ..< ?n}" "b \<in> {0 ..< ?n}" "?at a = ?at b"
    then have m: "(?f + a) mod ?n = (?f + b) mod ?n" using at by simp
    have same: "u = v" if uv: "u \<le> v" "v < ?n" "(?f + v) mod ?n = (?f + u) mod ?n" for u v
    proof -
      have "?n dvd (?f + v) - (?f + u)" using uv(1,3) mod_eq_dvd_iff_nat [of "?f + u" "?f + v" ?n] by simp
      then have "?n dvd v - u" by simp
      moreover have "v - u < ?n" using uv(2) by simp
      ultimately have "v - u = 0" by (meson nat_dvd_not_less neq0_conv)
      then show ?thesis using uv(1) by simp
    qed
    have le: "a < ?n" "b < ?n" using ab(1,2) by simp_all
    show "a = b"
    proof (cases "a \<le> b")
      case True
      then show ?thesis by (rule same [OF _ le(2) m [symmetric]])
    next
      case False
      then have "b \<le> a" by simp
      then show ?thesis by (rule same [OF _ le(1) m, symmetric])
    qed
  qed
  moreover have "?at ` {0 ..< ?n} \<subseteq> {0 ..< ?n}"
  proof
    fix y assume "y \<in> ?at ` {0 ..< ?n}"
    then have "0 < ?n" "\<exists>z. y = z mod ?n" by auto
    then show "y \<in> {0 ..< ?n}" by auto
  qed
  ultimately have "?at ` {0 ..< ?n} = {0 ..< ?n}" by (intro endo_inj_surj) simp_all
  with inj have "distinct (map ?at [0 ..< ?n])" "set (map ?at [0 ..< ?n]) = set [0 ..< ?n]"
    by (simp_all add: distinct_map)
  then have "mset (map ?at [0 ..< ?n]) = mset [0 ..< ?n]" using set_eq_iff_mset_eq_distinct [of "map ?at [0 ..< ?n]" "[0 ..< ?n]"] by simp
  then show ?thesis by (simp add: turn_order_def)
qed

text \<open>
  A request is asked of the Storage nodes in their turn, each once at most: in an order that has
  every node listed once, those that did not answer lately after those said to be standbys and these
  after the rest, from the next round robin; of one node after another until one answers, whose answer
  it is. It fails only where every node listed was asked and none answered.
\<close>

theorem each_asked_in_turn:
  assumes "unat (kc_next C) + length (kc_nodes C) \<le> 2 ^ 64"
  shows "let order = turn_order (nw_now N w) C; asked = asked_trace N shown r order (turn_taken_by C, w) in
    mset order = mset [0 ..< length (kc_nodes C)] \<and> sorted (map (turn_rank (nw_now N w) C) order) \<and>
    map fst asked = take (length asked) order \<and> list_all (\<lambda>(i, got). isl got) (butlast asked) \<and>
    (case snd (client_asks N shown None r (C, w)) of
       Inr v \<Rightarrow> asked \<noteq> [] \<and> snd (last asked) = Inr v
     | Inl e \<Rightarrow> map fst asked = order \<and> list_all (\<lambda>(i, got). isl got) asked)"
proof -
  have "sorted (map (turn_rank (nw_now N w) C) (turn_order (nw_now N w) C))" by (simp add: turn_order_def)
  then show ?thesis
    using turn_orders_all [OF assms, of "nw_now N w"] each_traced [of N shown r "turn_order (nw_now N w) C" "(turn_taken_by C, w)" "[]"]
    by (simp add: Let_def client_asks_def)
qed

text \<open>The second node of two asked first, where the first did not answer lately; and its answer the request's.\<close>

theorem each_asked_in_turn_witness:
  "\<exists>tr. tr = asked_trace (served_over (\<lambda>_. []) plain_codec plain_rules admits_all sample_serving (None, a_node) 0) (\<lambda>_. []) (RqReadJourney 5)
     (turn_order 0 sample_client) (turn_taken_by sample_client, Some kept_journey) \<and> turn_order 0 sample_client = [1, 0] \<and>
   map fst tr = take (length tr) [1, 0] \<and> tr \<noteq> [] \<and> snd (last tr) = Inr (AnJourney (Some kept_journey))"
proof -
  let ?N = "served_over (\<lambda>_. []) plain_codec plain_rules admits_all sample_serving (None, a_node) 0"
  have order: "turn_order 0 sample_client = [1, 0]"
    by (simp add: turn_order_def turn_rank_def sample_client_def sample_node_at_def passed_over_def)
  have small: "unat (kc_next sample_client) + length (kc_nodes sample_client) \<le> 2 ^ 64" by (simp add: sample_client_def)
  have now: "nw_now ?N w = 0" for w by (simp add: served_over_def)
  have "snd (client_asks ?N (\<lambda>_. []) None (RqReadJourney 5) (sample_client, Some kept_journey)) = Inr (AnJourney (Some kept_journey))"
    using plain_secrets.client_served [OF sample_serves sample_reaches, of 0 "\<lambda>_. []" None] sample_answer by (auto simp: sample_serving_def)
  then show ?thesis using each_asked_in_turn [OF small, of ?N "Some kept_journey" "\<lambda>_. []" "RqReadJourney 5"] order
    by (simp add: now Let_def)
qed

section \<open>A connection kept\<close>

text \<open>
  A connection kept from before is asked whatever its Storage node is now: a primary of an epoch
  before the latest met, which a new connection would not be asked over, answers on it.
\<close>

lemma kept_connection_unasked:
  assumes "kn_idle (kc_nodes C ! i) = ks @ [k]" and "nw_exchange N r k w = (w', k', Inr v)"
  shows "snd (ask_node N shown r i (C, w)) = standby_said v \<and> kc_epoch (fst (fst (ask_node N shown r i (C, w)))) = kc_epoch C \<and>
    snd (fst (ask_node N shown r i (C, w))) = w'"
  using assms by (simp add: ask_node_def on_node_def)

end
