(* ===== verification/Embedded.thy ===== *)
theory Embedded
  imports Server Durable Kept Query Instance
begin

text \<open>
  The embedded Storage node (\<open>src/.src/storage/embedded.rs\<close>, \<open>embedded/submitted.rs\<close>,
  \<open>embedded/administration.rs\<close>, \<open>embedded/secrets.rs\<close>, \<open>embedded/epoch.rs\<close>): its three databases, opened
  at this build's schema version, and each of its thirty-four operations, a write of the runtime
  database through the one writer and answered once synced, but for a Publication, answered before.
  It is shown that whatever a server over it is asked, a claim held and not lapsed stays its holder's,
  and is granted to nobody else, until its holder gives it up.

  Operations come one after another, each a batch of its own; writers at once are \<open>Writer\<close>'s. Each
  database is a ledger with its index, what \<open>Encrypted_Store\<close> shows a store to be. What an operation
  finds of the world at its moment is a parameter: the clock, whether an engine fails a write, what
  its sync comes to. A read does not fail of its engine, nor the engines in a move of audit records.
\<close>

section \<open>The node\<close>

record moment =
  mo_now :: i128
  mo_fails :: "persist_error option"
  mo_synced :: synced
  mo_nonce :: bytes
  mo_kept_at :: "u64 \<Rightarrow> u64"

text \<open>What it is made with, a secret's sealing key among it, derived of the administration database's own.\<close>

record node_env =
  ne_codec :: codec
  ne_rules :: secret_rules
  ne_say :: "secret_error \<Rightarrow> string"
  ne_crypt :: crypt
  ne_sealing :: "bytes result"
  ne_sha256 :: "bytes \<Rightarrow> bytes"
  ne_moments :: "nat \<Rightarrow> moment"

record embedded =
  em_runtime :: kept_store
  em_administration :: kept_store
  em_audit :: kept_store
  em_next :: u64
  em_epoch :: u64
  em_at :: nat

definition store_gets :: "kept_store \<Rightarrow> store_get" where
  "store_gets S = (\<lambda>k key. Inr (fst S k key))"

definition store_scans :: "kept_store \<Rightarrow> index_scan" where
  "store_scans S = (\<lambda>lo hi n b. Inr (between (snd S) lo hi n b))"

definition view_now :: "kept_store \<Rightarrow> view result" where
  "view_now S = Inr \<lparr>vw_get = store_gets S, vw_scan = store_scans S\<rparr>"

section \<open>Opened\<close>

definition built_version :: u32 where "built_version = 1"

text \<open>One database at the build's version, and the three in turn; the databases are as each left them.\<close>

definition brought :: "moment \<Rightarrow> string \<Rightarrow> database \<Rightarrow> kept_store \<Rightarrow> kept_store \<times> database_version result" where
  "brought m engine d S = (let (got, rows) = reached_version (store_gets S) (mo_fails m) engine d built_version (nanos (mo_now m))
     in ((apply_changes (fst S) rows, snd S), got))"

definition embedded_over :: "moment \<Rightarrow> string \<times> string \<times> string \<Rightarrow> kept_store \<times> kept_store \<times> kept_store \<Rightarrow>
    (kept_store \<times> kept_store \<times> kept_store) \<times> (database_version list \<times> embedded) result" where
  "embedded_over m engines stores = (let (er, ea, eu) = engines; (R, A, U) = stores in
     case brought m er Runtime R of (R, Inl e) \<Rightarrow> ((R, A, U), Inl e) | (R, Inr vr) \<Rightarrow> (
     case brought m ea Administration A of (A, Inl e) \<Rightarrow> ((R, A, U), Inl e) | (A, Inr va) \<Rightarrow> (
     case brought m eu database.Audit U of (U, Inl e) \<Rightarrow> ((R, A, U), Inl e) | (U, Inr vu) \<Rightarrow>
       ((R, A, U), bindr (sequence (store_gets R) next_key) (\<lambda>n.
          Inr ([vr, va, vu], \<lparr>em_runtime = R, em_administration = A, em_audit = U, em_next = n, em_epoch = 0, em_at = 0\<rparr>))))))"

definition in_epoch :: "u64 \<Rightarrow> embedded \<Rightarrow> embedded" where
  "in_epoch epoch s = s\<lparr>em_epoch := max (em_epoch s) epoch\<rparr>"

section \<open>What the writer is asked\<close>

text \<open>An operation at the next moment; one that only looks.\<close>

definition at_moment :: "node_env \<Rightarrow> (moment \<Rightarrow> embedded \<Rightarrow> embedded \<times> 'a result) \<Rightarrow> (embedded, 'a) does" where
  "at_moment N op s = op (ne_moments N (em_at s)) (s\<lparr>em_at := Suc (em_at s)\<rparr>)"

definition looked :: "node_env \<Rightarrow> (moment \<Rightarrow> embedded \<Rightarrow> 'a result) \<Rightarrow> (embedded, 'a) does" where
  "looked N f = at_moment N (\<lambda>m s. (s, f m s))"

definition asked_ahead :: "node_env \<Rightarrow> op \<Rightarrow> moment \<Rightarrow> embedded \<Rightarrow> embedded \<times> (outcome \<times> durability) result" where
  "asked_ahead N q m s = (let (as, S, n) = commit_on (ne_codec N) (ne_rules N) (ne_say N) (mo_now m, mo_fails m) [(q, em_epoch s)]
       (em_runtime s, em_next s) in (s\<lparr>em_runtime := S, em_next := n\<rparr>, hd as))"

definition durably :: "moment \<Rightarrow> durability \<Rightarrow> unit result" where
  "durably m d = (case waited (case d of KeptAlready \<Rightarrow> durable_kept | Pending \<Rightarrow> tell (mo_synced m) durable_pending) of
     Some r \<Rightarrow> r | None \<Rightarrow> Inr ())"

definition submits :: "node_env \<Rightarrow> op \<Rightarrow> moment \<Rightarrow> embedded \<Rightarrow> embedded \<times> outcome result" where
  "submits N q m s = (let (s', got) = asked_ahead N q m s in (s', bindr got (\<lambda>(d, dur). bindr (durably m dur) (\<lambda>_. Inr d))))"

text \<open>What it answered, as the operation that asked reads it.\<close>

definition taken_by :: "(outcome \<Rightarrow> 'a option) \<Rightarrow> string \<Rightarrow> embedded \<times> outcome result \<Rightarrow> embedded \<times> 'a result" where
  "taken_by f why sd = (let (s, got) = sd in (s, bindr got (\<lambda>d. case f d of Some y \<Rightarrow> Inr y | None \<Rightarrow> Inl (malformed why))))"

definition em_written :: "node_env \<Rightarrow> op \<Rightarrow> (embedded, unit) does" where
  "em_written N q = at_moment N (\<lambda>m s. taken_by (\<lambda>_. Some ()) '''' (submits N q m s))"

definition em_claimed :: "node_env \<Rightarrow> op \<Rightarrow> (embedded, claim option) does" where
  "em_claimed N q = at_moment N (\<lambda>m s. taken_by (\<lambda>d. case d of DoneClaim claim \<Rightarrow> Some claim | _ \<Rightarrow> None)
     ''the writer answered no claim'' (submits N q m s))"

definition em_held :: "node_env \<Rightarrow> op \<Rightarrow> (embedded, claim list) does" where
  "em_held N q = at_moment N (\<lambda>m s. taken_by (\<lambda>d. case d of DoneClaims held \<Rightarrow> Some held | _ \<Rightarrow> None)
     ''the writer answered no claims'' (submits N q m s))"

definition em_held_ahead :: "node_env \<Rightarrow> op \<Rightarrow> (embedded, claim list \<times> unit result) does" where
  "em_held_ahead N q = at_moment N (\<lambda>m s. let (s', got) = asked_ahead N q m s in
     (s', bindr got (\<lambda>(d, dur). case d of DoneClaims held \<Rightarrow> Inr (held, durably m dur) | _ \<Rightarrow> Inl (malformed ''the writer answered no claims''))))"

definition em_yes :: "node_env \<Rightarrow> op \<Rightarrow> (embedded, bool) does" where
  "em_yes N q = at_moment N (\<lambda>m s. taken_by (\<lambda>d. case d of Yes yes \<Rightarrow> Some yes | _ \<Rightarrow> None)
     ''the writer answered no verdict'' (submits N q m s))"

definition em_replayed :: "node_env \<Rightarrow> op \<Rightarrow> (embedded, replayed) does" where
  "em_replayed N q = at_moment N (\<lambda>m s. taken_by (\<lambda>d. case d of DoneReplayed r \<Rightarrow> Some r | _ \<Rightarrow> None)
     ''the writer answered no Replay'' (submits N q m s))"

text \<open>A write straight to the runtime engine, durable with the next.\<close>

definition em_deferred :: "node_env \<Rightarrow> (moment \<Rightarrow> record_change list) \<Rightarrow> (embedded, unit) does" where
  "em_deferred N cs = at_moment N (\<lambda>m s. case mo_fails m of Some e \<Rightarrow> (s, Inl e)
     | None \<Rightarrow> (s\<lparr>em_runtime := (apply_changes (fst (em_runtime s)) (cs m), snd (em_runtime s))\<rparr>, Inr ()))"

definition stream_written :: "node_env \<Rightarrow> moment \<Rightarrow> stream_chunk \<Rightarrow> stream_record \<Rightarrow> record_change list" where
  "stream_written N m last' stream =
     [(chunk_kind, chunk_key (sc_stream last') (sc_index last'), Some (w_stream_chunk (ne_codec N) last')),
      (stream_kind, be128 (sr_stream stream), Some (w_stream_record (ne_codec N) (stream\<lparr>sr_written_unix_nanos := nanos (mo_now m)\<rparr>)))]"

section \<open>The administration database\<close>

definition administration_kind_of :: "administration_kind \<Rightarrow> kind" where
  "administration_kind_of kind = administration_prefix @ word_of_kind kind"

definition indexed_administration :: "node_env \<Rightarrow> record_change list \<Rightarrow> moment \<Rightarrow> embedded \<Rightarrow> embedded \<times> unit result" where
  "indexed_administration N cs m s =
     (case written_over (ne_codec N) (ne_rules N) Administration cs (nanos (mo_now m)) (store_gets (em_administration s)) of
        Inl e \<Rightarrow> (s, Inl e)
      | Inr w \<Rightarrow> (case mo_fails m of Some e \<Rightarrow> (s, Inl e)
          | None \<Rightarrow> (s\<lparr>em_administration := batch_written (Some w) (em_administration s)\<rparr>, Inr ())))"

definition administered :: "node_env \<Rightarrow> administration_kind \<Rightarrow> u128 \<Rightarrow> bytes option \<Rightarrow> (embedded, unit) does" where
  "administered N kind i v = at_moment N (indexed_administration N [(administration_kind_of kind, be128 i, v)])"

definition administration_at :: "node_env \<Rightarrow> administration_kind \<Rightarrow> u128 \<Rightarrow> embedded \<Rightarrow> administration_record option result" where
  "administration_at N kind i s =
     read_as (ne_codec N) (r_administration_record (ne_codec N)) (fst (em_administration s)) (administration_kind_of kind) (be128 i)"

text \<open>Secrets, found by their name's index entry.\<close>

definition secrets_by_name :: "string \<times> string" where "secrets_by_name = (''secret'', ''secret_name'')"

definition secret_id :: "string \<Rightarrow> embedded \<Rightarrow> u128 option result" where
  "secret_id n s = bindr (find_in Administration (store_scans (em_administration s)) secrets_by_name [VText n] None (1, False))
     (\<lambda>found. Inr (case found of [] \<Rightarrow> None | i # _ \<Rightarrow> Some i))"

definition secret_by_id :: "node_env \<Rightarrow> u128 \<Rightarrow> embedded \<Rightarrow> kept_secret option result" where
  "secret_by_id N i s =
     read_as (ne_codec N) (r_kept_secret (ne_codec N) (ne_rules N)) (fst (em_administration s)) secret_kind (be128 i)"

definition secret_set :: "node_env \<Rightarrow> secret_record \<Rightarrow> moment \<Rightarrow> embedded \<Rightarrow> embedded \<times> unit result" where
  "secret_set N secret m s =
     (case bindr (ne_sealing N) (\<lambda>key. bindr (sealed_secret (ne_crypt N) key (mo_nonce m) secret) (\<lambda>k.
         bindr (secret_id (xr_name secret) s) (\<lambda>there. Inr (case there of Some i \<Rightarrow> k\<lparr>xk_id := i\<rparr> | None \<Rightarrow> k)))) of
        Inl e \<Rightarrow> (s, Inl e)
      | Inr k \<Rightarrow> indexed_administration N [(secret_kind, be128 (xk_id k), Some (w_kept_secret (ne_codec N) k))] m s)"

definition secret_read :: "node_env \<Rightarrow> string \<Rightarrow> embedded \<Rightarrow> secret_record option result" where
  "secret_read N n s = bindr (secret_id n s) (\<lambda>there. case there of None \<Rightarrow> Inr None
     | Some i \<Rightarrow> bindr (ne_sealing N) (\<lambda>key. bindr (secret_by_id N i s) (\<lambda>v. case v of None \<Rightarrow> Inr None
         | Some k \<Rightarrow> bindr (opened_secret (ne_crypt N) (ne_rules N) (ne_say N) key k) (\<lambda>r. Inr (Some r)))))"

definition secret_list :: "node_env \<Rightarrow> embedded \<Rightarrow> secret_entry list result" where
  "secret_list N s = bindr (find_in Administration (store_scans (em_administration s)) secrets_by_name [] None (- 1, False)) (\<lambda>found.
     bindr (each (\<lambda>i. secret_by_id N i s) found) (\<lambda>vs. Inr (map kept_entry (List.map_filter id vs))))"

section \<open>Its operations\<close>

definition em_scans :: "embedded \<Rightarrow> database \<Rightarrow> index_scan" where
  "em_scans s d = store_scans (case d of Runtime \<Rightarrow> em_runtime s | Administration \<Rightarrow> em_administration s | database.Audit \<Rightarrow> em_audit s)"

definition embedded_storage :: "node_env \<Rightarrow> embedded storage" where
  "embedded_storage N = (let c = ne_codec N in \<lparr>
     xm_write_chunk = (\<lambda>a. em_deferred N (\<lambda>_. [(chunk_kind, chunk_key (sc_stream a) (sc_index a), Some (w_stream_chunk c a))])),
     xm_read_chunk = (\<lambda>a b. looked N (\<lambda>m s. read_chunk c (fst (em_runtime s)) a b)),
     xm_write_stream = (\<lambda>a b. em_deferred N (\<lambda>m. stream_written N m a b)),
     xm_read_stream = (\<lambda>a. looked N (\<lambda>m s. read_stream c (fst (em_runtime s)) a)),
     xm_write_message = (\<lambda>a. em_written N (OpPut message_kind (be128 (mr_message a)) (w_message_record c a))),
     xm_read_message = (\<lambda>a. looked N (\<lambda>m s. read_as c (r_message_record c) (fst (em_runtime s)) message_kind (be128 a))),
     xm_write_journey = (\<lambda>a. em_written N (OpPut journey_kind (be128 (jr_journey a)) (w_journey_record c a))),
     xm_read_journey = (\<lambda>a. looked N (\<lambda>m s. read_as c (r_journey_record c) (fst (em_runtime s)) journey_kind (be128 a))),
     xm_publish = (\<lambda>a. em_held_ahead N (OpPublish a)),
     xm_read_held = (\<lambda>a b d. looked N (\<lambda>m s. read_held c (view_now (em_runtime s)) a (b, d) (mo_now m))),
     xm_read_failed = (\<lambda>a b d. looked N (\<lambda>m s. read_failed c (view_now (em_runtime s)) a (b, d))),
     xm_read_due = (\<lambda>a b d e. looked N (\<lambda>m s.
       read_due c (store_gets (em_runtime s)) (store_scans (em_runtime s)) (a, b) (d, e) (mo_now m))),
     xm_read_dead = (\<lambda>a b d. looked N (\<lambda>m s. read_dead c (view_now (em_runtime s)) a (b, d))),
     xm_read_dead_message = (\<lambda>a b. looked N (\<lambda>m s. read_one_dead c (store_gets (em_runtime s)) a b)),
     xm_replay = (\<lambda>a. em_replayed N (OpReplay a)),
     xm_claim = (\<lambda>a b d e. em_claimed N (OpClaim \<lparr>cl_journey = a, cl_holder = b, cl_token = d, cl_until_unix_nanos = 0, cl_fence = 0\<rparr>
       (lease_nanos (word_of_nat e)))),
     xm_renew = (\<lambda>a b. em_held N (OpRenew a (lease_nanos (word_of_nat b)))),
     xm_release = (\<lambda>a. em_yes N (OpRelease a)),
     xm_hand_on = (\<lambda>a. em_yes N (OpHandOn a)),
     xm_turn = (\<lambda>a. em_yes N (OpTurn a)),
     xm_read_instance = (\<lambda>a. looked N (\<lambda>m s. read_instance c (store_gets (em_runtime s)) a)),
     xm_read_instance_key = (\<lambda>a. looked N (\<lambda>m s. read_instance_key c (store_gets (em_runtime s)) a)),
     xm_write_audit = (\<lambda>a. em_written N (OpAudit a)),
     xm_keep_audit = (\<lambda>a b. at_moment N (\<lambda>m s. let (got, (L, A)) =
         keep_audit c (ne_rules N) (ne_sha256 N) (mo_kept_at m) a (unat b) (fst (em_runtime s), em_audit s)
       in (s\<lparr>em_runtime := (L, snd (em_runtime s)), em_audit := A\<rparr>, got))),
     xm_read_kept_audit = (\<lambda>a. looked N (\<lambda>m s. kept_record c (fst (em_audit s)) a)),
     xm_read_kept_audit_stream = (\<lambda>a b. looked N (\<lambda>m s. kept_stream_of c (fst (em_audit s)) a b)),
     xm_read_kept_audit_chunk = (\<lambda>a b d. looked N (\<lambda>m s. read_kept_audit_chunk c (fst (em_audit s)) a b d)),
     xm_write_administration = (\<lambda>a. administered N (ar_kind a) (ar_id a) (Some (w_administration_record c a))),
     xm_read_administration = (\<lambda>a b. looked N (\<lambda>m s. administration_at N a b s)),
     xm_remove_administration = (\<lambda>a b. administered N a b None),
     xm_write_secret = (\<lambda>a. at_moment N (secret_set N a)),
     xm_read_secret = (\<lambda>a. looked N (\<lambda>m s. secret_read N a s)),
     xm_list_secrets = looked N (\<lambda>m s. secret_list N s),
     xm_query = (\<lambda>a. looked N (\<lambda>m s. searched_query (em_scans s) a))\<rparr>)"

section \<open>One write asked of the writer\<close>

lemma kinds_not_claim [simp]:
  "chunk_kind \<noteq> claim_kind" "stream_kind \<noteq> claim_kind" "message_kind \<noteq> claim_kind" "journey_kind \<noteq> claim_kind"
  "due_places_kind \<noteq> claim_kind" "sequence_kind \<noteq> claim_kind" "audit_kind \<noteq> claim_kind"
  by (simp_all add: chunk_kind_def stream_kind_def message_kind_def journey_kind_def due_places_kind_def sequence_kind_def
      audit_kind_def claim_kind_def)

lemmas claim_not_kinds [simp] = kinds_not_claim [THEN not_sym]

text \<open>Either nothing is written, and the write is refused; or it is what it decides.\<close>

lemma asked_ahead_is:
  assumes "asked_ahead N q m s = (s', got)"
  shows "em_at s' = em_at s \<and>
    ((fst (em_runtime s') claim_kind = fst (em_runtime s) claim_kind \<and> (\<forall>y. got \<noteq> Inr y)) \<or>
     (\<exists>d dur n1 L1. eval (fst (em_runtime s)) (decide (ne_codec N) (mo_now m) (em_epoch s) (em_next s) q) = Inr ((d, n1), L1) \<and>
       fst (em_runtime s') claim_kind = L1 claim_kind \<and> got = Inr (d, dur)))"
proof -
  let ?c = "ne_codec N"
  obtain L X where S: "em_runtime s = (L, X)" by (cases "em_runtime s")
  obtain as L' X' n' where run: "commit_on ?c (ne_rules N) (ne_say N) (mo_now m, mo_fails m) [(q, em_epoch s)] ((L, X), em_next s) = (as, (L', X'), n')"
    by (metis surj_pair)
  have s': "s' = s\<lparr>em_runtime := (L', X'), em_next := n'\<rparr>" "got = hd as" using assms run by (auto simp: asked_ahead_def S)
  obtain ds L1 n1 where turn: "in_turn ?c (mo_now m) [(q, em_epoch s)] (L, em_next s) = (ds, L1, n1)" by (metis surj_pair)
  have same: "L' claim_kind = L1 claim_kind" if "same_but_stamps ?c L' L2" "\<forall>k. k \<noteq> due_places_kind \<longrightarrow> L2 k = moved_on L1 (em_next s) n1 k" for L2
  proof
    fix key
    have "searched_of Runtime claim_kind = None" by (simp add: claim_kind_def)
    moreover have "written_as ?c claim_kind (L2 claim_kind key) (L' claim_kind key)" using that(1) unfolding same_but_stamps_def by blast
    ultimately have "L' claim_kind key = L2 claim_kind key" by (rule written_as_unsearched [rotated])
    also have "L2 claim_kind = L1 claim_kind" using that(2) by (simp add: moved_on_def fun_eq_iff upd_apply)
    finally show "L' claim_kind key = L1 claim_kind key" .
  qed
  from commit_is [OF turn run] consider
      (none) e where "as = map (\<lambda>_. Inl e) ds" "L' = L"
    | (all) dur L2 where "as = map (\<lambda>d. bindr d (\<lambda>d. Inr (d, dur))) ds" "same_but_stamps ?c L' L2"
        "\<forall>k. k \<noteq> due_places_kind \<longrightarrow> L2 k = moved_on L1 (em_next s) n1 k"
    unfolding all_or_none_def Let_def prod.case by auto
  then show ?thesis
  proof cases
    case none
    have "ds \<noteq> []" using turn by (auto simp: Let_def split: sum.splits prod.splits)
    with none show ?thesis by (cases ds) (auto simp: s' S)
  next
    case all
    note kind = same [OF all(2,3)]
    show ?thesis
    proof (cases "eval L (decide ?c (mo_now m) (em_epoch s) (em_next s) q)")
      case (Inl e)
      then have "ds = [Inl e]" "L1 = L" using turn by (auto simp: Let_def)
      with all(1) kind show ?thesis by (simp add: s' S)
    next
      case (Inr r)
      obtain d n2 L3 where r: "r = ((d, n2), L3)" by (metis surj_pair)
      then have "ds = [Inr d]" "L1 = L3" using turn Inr by (auto simp: Let_def)
      with all(1) kind Inr show ?thesis by (simp add: s' S r)
    qed
  qed
qed

lemma submits_is:
  assumes "submits N q m s = (s', got)"
  shows "em_at s' = em_at s \<and>
    ((fst (em_runtime s') claim_kind = fst (em_runtime s) claim_kind \<and> (\<forall>y. got \<noteq> Inr y)) \<or>
     (\<exists>d n1 L1. eval (fst (em_runtime s)) (decide (ne_codec N) (mo_now m) (em_epoch s) (em_next s) q) = Inr ((d, n1), L1) \<and>
       fst (em_runtime s') claim_kind = L1 claim_kind \<and> (\<forall>y. got = Inr y \<longrightarrow> y = d)))"
proof -
  obtain ahead where "asked_ahead N q m s = (s', ahead)" "got = bindr ahead (\<lambda>(d, dur). bindr (durably m dur) (\<lambda>_. Inr d))"
    using assms by (auto simp: submits_def split: prod.splits)
  with asked_ahead_is [OF this(1)] show ?thesis by (fastforce simp: bindr_eq_Inr)
qed

section \<open>A claim that stands\<close>

text \<open>Held and not lapsed, and every claim under its own Message.\<close>

definition claim_stands :: "codec \<Rightarrow> u128 \<Rightarrow> claim \<Rightarrow> embedded \<Rightarrow> bool" where
  "claim_stands c j claim s \<longleftrightarrow> claims_home c (fst (em_runtime s)) \<and> held_still c j claim (fst (em_runtime s))"

lemma claim_stands_same: "fst (em_runtime s') claim_kind = fst (em_runtime s) claim_kind \<Longrightarrow> claim_stands c j claim s' = claim_stands c j claim s"
  unfolding claim_stands_def by (rule claims_both)

text \<open>Nothing a move of audit records writes in the runtime database is a claim.\<close>

lemma keep_numbers_claims: "keep_numbers c x sha256 now chunk ns done_so_far (L, A) = (r, (L', A')) \<Longrightarrow> L' claim_kind = L claim_kind"
proof (induction ns arbitrary: L A done_so_far)
  case (Cons n ns)
  obtain r1 L1 A1 where one: "keep_number c x sha256 now chunk n (L, A) = (r1, (L1, A1))" by (metis surj_pair)
  have writes: "writes {audit_kind, sequence_kind} (decide_kept n)" by (auto simp: decide_kept_def)
  have "L1 = L \<or> (\<exists>b. eval L (decide_kept n) = Inr (b, L1))"
    using one by (auto simp: keep_number_def split: sum.splits prod.splits)
  then have "L1 claim_kind = L claim_kind"
  proof (elim disjE exE)
    fix b assume "eval L (decide_kept n) = Inr (b, L1)"
    from writes_eval [OF writes this] show ?thesis by simp
  qed simp
  then show ?case using Cons one by (auto split: sum.splits bool.splits)
qed simp

lemma keep_audit_claims: "keep_audit c x sha256 now m chunk (L, A) = (r, (L', A')) \<Longrightarrow> L' claim_kind = L claim_kind"
  by (auto simp: keep_audit_def Let_def dest: keep_numbers_claims split: sum.splits)

text \<open>The holder's own: the claim a request gives up, or writes under another's name; and the claims one asks for.\<close>

definition gives_up :: "request \<Rightarrow> claim option" where
  "gives_up r = (case r of RqRelease claim \<Rightarrow> Some claim | RqHandOn h \<Rightarrow> Some (ha_claim h) | RqTurn t \<Rightarrow> Some (ha_claim (tu_hand_on t)) | _ \<Rightarrow> None)"

lemma op_keeps:
  assumes laws: "codec_laws (ne_codec N)" and stands: "claim_stands (ne_codec N) j claim s"
    and now: "sint (mo_now m) \<le> sint (cl_until_unix_nanos claim)" and fit: "\<And>y. y \<in> asked_claims q \<Longrightarrow> fit_claim (ne_codec N) y"
    and raw: "\<not> writes_claims_raw q" and other: "\<And>y. ends q = Some y \<Longrightarrow> \<not> claim_is claim y"
  shows "claim_stands (ne_codec N) j claim (fst (asked_ahead N q m s))" and "claim_stands (ne_codec N) j claim (fst (submits N q m s))"
proof -
  have home: "claims_home (ne_codec N) (fst (em_runtime s))" and still: "held_still (ne_codec N) j claim (fst (em_runtime s))"
    using stands by (simp_all add: claim_stands_def)
  have decided: "claims_home (ne_codec N) L1 \<and> held_still (ne_codec N) j claim L1"
    if "eval (fst (em_runtime s)) (decide (ne_codec N) (mo_now m) (em_epoch s) (em_next s) q) = Inr ((d, n1), L1)" for d n1 L1
  proof (rule codec_laws.decide_keeps [where c = "ne_codec N" and L = "fst (em_runtime s)" and op = q and now = "mo_now m"
        and epoch = "em_epoch s" and n = "em_next s" and d = d and n' = n1])
    show "fit_claim (ne_codec N) y" if "y \<in> asked_claims q" for y using fit [OF that] .
    show "\<not> claim_is claim y" if "ends q = Some y" for y using other [OF that] .
  qed (fact laws home still now raw that)+
  have "claim_stands (ne_codec N) j claim (fst (asked_ahead N q m s))"
  proof -
    obtain s' got where run: "asked_ahead N q m s = (s', got)" by (metis surj_pair)
    from asked_ahead_is [OF run] consider (none) "fst (em_runtime s') claim_kind = fst (em_runtime s) claim_kind"
      | (all) d n1 L1 where "eval (fst (em_runtime s)) (decide (ne_codec N) (mo_now m) (em_epoch s) (em_next s) q) = Inr ((d, n1), L1)"
          "fst (em_runtime s') claim_kind = L1 claim_kind" by blast
    then show ?thesis
    proof cases
      case none
      from claim_stands_same [OF none, of "ne_codec N" j claim] stands show ?thesis by (simp only: run fst_conv)
    next
      case all
      show ?thesis unfolding run fst_conv claim_stands_def
        using decided [OF all(1)] claims_both [of "fst (em_runtime s')" L1 "ne_codec N" j claim, OF all(2)] by (simp only:)
    qed
  qed
  then show "claim_stands (ne_codec N) j claim (fst (asked_ahead N q m s))" "claim_stands (ne_codec N) j claim (fst (submits N q m s))"
    by (simp_all add: submits_def split_beta Let_def)
qed

text \<open>Each operation leaves the claim, but its holder's own that gives it up.\<close>

lemma fst_taken [simp]: "fst (taken_by f why sd) = fst sd"
  by (simp add: taken_by_def split_beta)

lemma fst_answering [simp]: "fst (answering say f op s) = fst (op s)" "fst (awaited op' s) = fst (op' s)"
  by (simp_all add: answering_def awaited_def split_beta Let_def)

definition next_moment :: "embedded \<Rightarrow> embedded" where
  "next_moment s = s\<lparr>em_at := Suc (em_at s)\<rparr>"

lemma fst_operations [simp]:
  "fst (em_written N q s) = fst (submits N q (ne_moments N (em_at s)) (next_moment s))"
  "fst (em_claimed N q s) = fst (submits N q (ne_moments N (em_at s)) (next_moment s))"
  "fst (em_held N q s) = fst (submits N q (ne_moments N (em_at s)) (next_moment s))"
  "fst (em_yes N q s) = fst (submits N q (ne_moments N (em_at s)) (next_moment s))"
  "fst (em_replayed N q s) = fst (submits N q (ne_moments N (em_at s)) (next_moment s))"
  "fst (em_held_ahead N q s) = fst (asked_ahead N q (ne_moments N (em_at s)) (next_moment s))"
  "fst (looked N f s) = next_moment s"
  by (simp_all add: em_written_def em_claimed_def em_held_def em_yes_def em_replayed_def em_held_ahead_def looked_def at_moment_def
      next_moment_def split_beta Let_def)

text \<open>What leaves the claims of the runtime database as they are.\<close>

definition same_claims :: "embedded \<Rightarrow> embedded \<Rightarrow> bool" where
  "same_claims s s' \<longleftrightarrow> fst (em_runtime s') claim_kind = fst (em_runtime s) claim_kind \<and> em_at s' = Suc (em_at s)"

lemma same_claims_next [simp]: "same_claims s (next_moment s)"
  by (simp add: same_claims_def next_moment_def)

lemma same_claims_deferred:
  assumes "\<And>m. claim_kind \<notin> fst ` set (cs m)"
  shows "same_claims s (fst (em_deferred N cs s))"
proof -
  have "apply_changes L cs' claim_kind = L claim_kind" if "claim_kind \<notin> fst ` set cs'" for L cs'
    using that by (induction cs' arbitrary: L) (auto simp: fun_eq_iff upd_apply)
  then show ?thesis using assms by (auto simp: same_claims_def em_deferred_def at_moment_def split: option.splits)
qed

lemma same_claims_administration:
  "same_claims s (fst (at_moment N (indexed_administration N cs) s))" "same_claims s (fst (at_moment N (secret_set N a) s))"
  by (auto simp: same_claims_def at_moment_def indexed_administration_def secret_set_def split: sum.splits option.splits)

lemma same_claims_keep: "same_claims s (fst (xm_keep_audit (embedded_storage N) a b s))"
  by (auto simp: same_claims_def embedded_storage_def at_moment_def Let_def dest: keep_audit_claims split: prod.splits)

lemma at_submits [simp]: "em_at (fst (submits N q m s)) = em_at s" "em_at (fst (asked_ahead N q m s)) = em_at s"
proof -
  show "em_at (fst (asked_ahead N q m s)) = em_at s" by (simp add: asked_ahead_def split_beta Let_def)
  then show "em_at (fst (submits N q m s)) = em_at s" by (simp add: submits_def split_beta Let_def)
qed

lemma answered_is [simp]: "fst (answer say S (RqStanding) s) = s" "fst (answer say S (RqFollow f) s) = s"
  by (simp_all add: answer_def)

text \<open>The write each request asks of the writer, where it asks one; another leaves the claims.\<close>

definition writer_op :: "node_env \<Rightarrow> request \<Rightarrow> op option" where
  "writer_op N r = (case r of
     RqWriteMessage a \<Rightarrow> Some (OpPut message_kind (be128 (mr_message a)) (w_message_record (ne_codec N) a))
   | RqWriteJourney a \<Rightarrow> Some (OpPut journey_kind (be128 (jr_journey a)) (w_journey_record (ne_codec N) a))
   | RqClaim a b \<Rightarrow> Some (OpClaim \<lparr>cl_journey = cl_journey a, cl_holder = cl_holder a, cl_token = cl_token a, cl_until_unix_nanos = 0,
       cl_fence = 0\<rparr> (lease_nanos (word_of_nat (unat b))))
   | RqRenew a b \<Rightarrow> Some (OpRenew a (lease_nanos (word_of_nat (unat b))))
   | RqRelease a \<Rightarrow> Some (OpRelease a) | RqHandOn a \<Rightarrow> Some (OpHandOn a) | RqTurn a \<Rightarrow> Some (OpTurn a)
   | RqPublish a \<Rightarrow> Some (OpPublish a) | RqReplay a \<Rightarrow> Some (OpReplay a) | RqWriteAudit a \<Rightarrow> Some (OpAudit a)
   | _ \<Rightarrow> None)"

lemma answer_op:
  "writer_op N r = Some q \<Longrightarrow> fst (answer say (embedded_storage N) r s) = fst (submits N q (ne_moments N (em_at s)) (next_moment s)) \<or>
    fst (answer say (embedded_storage N) r s) = fst (asked_ahead N q (ne_moments N (em_at s)) (next_moment s))"
  by (cases r) (auto simp: writer_op_def answer_def embedded_storage_def Let_def)

lemma answer_other:
  "writer_op N r = None \<Longrightarrow> same_claims s (fst (answer say (embedded_storage N) r s)) \<or> fst (answer say (embedded_storage N) r s) = s"
proof (cases r)
  case (RqKeepAudit a b)
  then show ?thesis using same_claims_keep [of s N a b] by (simp add: answer_def)
qed (simp_all add: writer_op_def answer_def embedded_storage_def Let_def same_claims_deferred same_claims_administration administered_def
    stream_written_def)

lemma writer_op_claims:
  assumes "writer_op N r = Some q" and "\<And>a b. r = RqClaim a b \<Longrightarrow> fit_claim c a"
    and "\<And>p. r = RqPublish p \<Longrightarrow> fit_list c (fit_claim c) (pb_claims p)"
  shows "(\<forall>y \<in> asked_claims q. fit_claim c y) \<and> \<not> writes_claims_raw q \<and> ends q = gives_up r"
  using assms
  by (cases r) (auto simp: writer_op_def asked_claims_def writes_claims_raw_def ends_def gives_up_def fit_claim_def fit_list_def list_all_iff)

lemma request_keeps:
  assumes laws: "codec_laws (ne_codec N)" and stands: "claim_stands (ne_codec N) j claim s"
    and now: "sint (mo_now (ne_moments N (em_at s))) \<le> sint (cl_until_unix_nanos claim)"
    and fit: "\<And>a b. r = RqClaim a b \<Longrightarrow> fit_claim (ne_codec N) a" "\<And>p. r = RqPublish p \<Longrightarrow> fit_list (ne_codec N) (fit_claim (ne_codec N)) (pb_claims p)"
    and other: "\<And>y. gives_up r = Some y \<Longrightarrow> \<not> claim_is claim y"
  shows "claim_stands (ne_codec N) j claim (fst (answer say (embedded_storage N) r s)) \<and>
    em_at (fst (answer say (embedded_storage N) r s)) \<in> {em_at s, Suc (em_at s)}"
proof (cases "writer_op N r")
  case None
  from answer_other [OF this, of s say] show ?thesis
    using stands claim_stands_same [of "fst (answer say (embedded_storage N) r s)" s] by (auto simp: same_claims_def)
next
  case (Some q)
  have "claim_stands (ne_codec N) j claim (next_moment s)"
    using stands claim_stands_same [of "next_moment s" s] by (simp add: next_moment_def)
  note keeps = op_keeps [OF laws this now, of q]
  note asks = writer_op_claims [OF Some fit]
  have "claim_stands (ne_codec N) j claim (fst (asked_ahead N q (ne_moments N (em_at s)) (next_moment s)))"
    "claim_stands (ne_codec N) j claim (fst (submits N q (ne_moments N (em_at s)) (next_moment s)))"
    by (rule keeps; use asks other in auto)+
  with answer_op [OF Some, of say s] show ?thesis by (auto simp: next_moment_def)
qed

text \<open>And is granted to nobody else.\<close>

lemma claim_refused:
  assumes stands: "claim_stands (ne_codec N) (cl_journey other) claim s" and token: "cl_token other \<noteq> cl_token claim"
    and now: "sint (mo_now (ne_moments N (em_at s))) \<le> sint (cl_until_unix_nanos claim)"
  shows "snd (answer say (embedded_storage N) (RqClaim other lease) s) \<noteq> AnClaim (Some h)"
proof -
  let ?c = "ne_codec N" and ?m = "ne_moments N (em_at s)" and ?L = "fst (em_runtime s)"
  let ?y = "\<lparr>cl_journey = cl_journey other, cl_holder = cl_holder other, cl_token = cl_token other, cl_until_unix_nanos = 0, cl_fence = 0\<rparr>"
  obtain st where st: "claim_now ?c ?L (cl_journey other) = Inr (Some st)" "st_standing st = standing.Held" "claim_is (st_claim st) claim"
      "sint (cl_until_unix_nanos claim) \<le> sint (cl_until_unix_nanos (st_claim st))"
    using stands by (auto simp: claim_stands_def held_still_def)
  have "eval ?L (take_claim ?c ?y (mo_now ?m, until, epoch)) = Inr (None, ?L)" for until epoch
    by (subst eval_take_claim [where prior = "Some st"])
      (use st now token in \<open>auto simp: free_at_def asked_by_def claim_is_def\<close>)
  then have decided: "eval ?L (decide ?c (mo_now ?m) epoch n (OpClaim ?y l)) = Inr ((DoneClaim None, n), ?L)" for epoch n l by simp
  obtain s' got where run: "submits N (OpClaim ?y (lease_nanos (word_of_nat (unat lease)))) ?m (next_moment s) = (s', got)" by (metis surj_pair)
  have "got \<noteq> Inr (DoneClaim (Some h))" using submits_is [OF run] decided by (auto simp: next_moment_def)
  moreover have "got = Inr (DoneClaim (Some h))" if "snd (answer say (embedded_storage N) (RqClaim other lease) s) = AnClaim (Some h)"
  proof (cases got)
    case (Inl e)
    with that run show ?thesis
      by (cases e) (simp_all add: answer_def answering_def embedded_storage_def em_claimed_def at_moment_def next_moment_def taken_by_def Let_def malformed_def)
  next
    case (Inr d)
    with that run show ?thesis
      by (cases d) (simp_all add: answer_def answering_def embedded_storage_def em_claimed_def at_moment_def next_moment_def taken_by_def Let_def malformed_def)
  qed
  ultimately show ?thesis by blast
qed

section \<open>Over a connection\<close>

text \<open>A request whose claims were read of the wire, and that does not give up the claim.\<close>

definition leaves_claim :: "codec \<Rightarrow> claim \<Rightarrow> request \<Rightarrow> bool" where
  "leaves_claim c claim r \<longleftrightarrow> (\<forall>a b. r = RqClaim a b \<longrightarrow> fit_claim c a) \<and>
     (\<forall>p. r = RqPublish p \<longrightarrow> fit_list c (fit_claim c) (pb_claims p)) \<and> (\<forall>y. gives_up r = Some y \<longrightarrow> \<not> claim_is claim y)"

lemma requests_keep:
  assumes laws: "codec_laws (ne_codec N)" and V: "sv_storage V = embedded_storage N"
    and "list_all (leaves_claim (ne_codec N) claim) rs" and "claim_stands (ne_codec N) j claim s"
    and "\<And>i. i < length rs \<Longrightarrow> sint (mo_now (ne_moments N (em_at s + i))) \<le> sint (cl_until_unix_nanos claim)"
  shows "claim_stands (ne_codec N) j claim (after_requests say V rs s) \<and>
    em_at s \<le> em_at (after_requests say V rs s) \<and> em_at (after_requests say V rs s) \<le> em_at s + length rs"
  using assms(3-5)
proof (induction rs arbitrary: s)
  case (Cons r rs)
  let ?s = "fst (answer say (embedded_storage N) r s)"
  have one: "claim_stands (ne_codec N) j claim ?s \<and> em_at ?s \<in> {em_at s, Suc (em_at s)}"
    by (rule request_keeps [OF laws Cons.prems(2)]) (use Cons.prems(1) Cons.prems(3) [of 0] in \<open>auto simp: leaves_claim_def\<close>)
  then have "sint (mo_now (ne_moments N (em_at ?s + i))) \<le> sint (cl_until_unix_nanos claim)" if "i < length rs" for i
    using that Cons.prems(3) [of i] Cons.prems(3) [of "Suc i"] by auto
  with one Cons.prems(1) have "claim_stands (ne_codec N) j claim (after_requests say V rs ?s) \<and>
    em_at ?s \<le> em_at (after_requests say V rs ?s) \<and> em_at (after_requests say V rs ?s) \<le> em_at ?s + length rs"
    by (intro Cons.IH) simp_all
  with one show ?case by (auto simp: after_requests_def V)
qed (simp add: after_requests_def)

context codec_laws
begin

lemma read_request_claims: "from_bytes c (r_request c x) f = Inr r \<Longrightarrow>
    (\<forall>a b. r = RqClaim a b \<longrightarrow> fit_claim c a) \<and> (\<forall>p. r = RqPublish p \<longrightarrow> fit_list c (fit_claim c) (pb_claims p))"
  by (cases r) (auto simp: from_bytes_def r_request_def andr_eq_Inr fit_publication_def dest: claim.read_fit publication.read_fit
      split: sum.splits option.splits if_splits)

lemma requests_claims: "r \<in> set (requests_in c x fs) \<Longrightarrow>
    (\<forall>a b. r = RqClaim a b \<longrightarrow> fit_claim c a) \<and> (\<forall>p. r = RqPublish p \<longrightarrow> fit_list c (fit_claim c) (pb_claims p))"
  by (induction fs) (auto dest: read_request_claims [OF sym] split: sum.splits)

end

lemma length_requests_in: "length (requests_in c x fs) \<le> length fs"
  by (induction fs) (auto split: sum.splits)

section \<open>Properties\<close>

text \<open>
  C10: While an embedded node serves a connection, a claim held in its runtime database and not lapsed
  at any moment of it stays held by its holder, under its token and lapsing no earlier, whatever is
  asked, and whatever an engine or a sync comes to, unless its holder releases it, hands it on or
  takes its turn; and nobody asking for that Journey under another token is answered a claim.
\<close>

theorem claim_stays_served:
  assumes "codec_laws (ne_codec N)" and "sv_storage V = embedded_storage N"
    and "claims_home (ne_codec N) (fst (em_runtime s))" and "held_still (ne_codec N) j claim (fst (em_runtime s))"
    and "\<And>i. i < length fs \<Longrightarrow> sint (mo_now (ne_moments N (em_at s + i))) \<le> sint (cl_until_unix_nanos claim)"
    and "\<And>r y. r \<in> set (served_requests admit who V (requests_in (ne_codec N) (ne_rules N) fs)) \<Longrightarrow> gives_up r = Some y \<Longrightarrow> \<not> claim_is claim y"
  shows "let (s', vs) = serve say (ne_codec N) (ne_rules N) admit V who fs s;
      rs = served_requests admit who V (requests_in (ne_codec N) (ne_rules N) fs) in
    claims_home (ne_codec N) (fst (em_runtime s')) \<and> held_still (ne_codec N) j claim (fst (em_runtime s')) \<and>
    (\<forall>i < length rs. \<forall>other lease h. rs ! i = RqClaim other lease \<longrightarrow> cl_journey other = j \<longrightarrow> cl_token other \<noteq> cl_token claim \<longrightarrow>
      vs ! i \<noteq> AnClaim (Some h))"
proof -
  let ?c = "ne_codec N" and ?rs = "served_requests admit who V (requests_in (ne_codec N) (ne_rules N) fs)"
  have laws: "codec_laws ?c" by (fact assms(1))
  have short: "length ?rs \<le> length fs"
    using length_requests_in [of ?c "ne_rules N" fs] length_takeWhile_le [of _ "requests_in ?c (ne_rules N) fs"]
    by (auto simp: served_requests_def intro: order_trans)
  have "list_all (leaves_claim ?c claim) ?rs"
    using codec_laws.requests_claims [OF laws, of _ "ne_rules N" fs] assms(6)
    by (auto simp: list_all_iff leaves_claim_def served_requests_def dest: set_takeWhileD)
  moreover have "claim_stands ?c j claim s" using assms(3,4) by (simp add: claim_stands_def)
  ultimately have keeps: "claim_stands ?c j claim (after_requests say V (take n ?rs) s) \<and>
      em_at s \<le> em_at (after_requests say V (take n ?rs) s) \<and> em_at (after_requests say V (take n ?rs) s) \<le> em_at s + min n (length ?rs)" for n
    using requests_keep [OF laws assms(2), of claim "take n ?rs" j s say] assms(5) short
    by (auto simp: list_all_iff min.commute dest: in_set_takeD)
  have "snd (answer say (embedded_storage N) (RqClaim other lease) (after_requests say V (take i ?rs) s)) \<noteq> AnClaim (Some h)"
    if "i < length ?rs" "cl_journey other = j" "cl_token other \<noteq> cl_token claim" for i other lease h
  proof -
    let ?t = "after_requests say V (take i ?rs) s"
    have "em_at s \<le> em_at ?t \<and> em_at ?t \<le> em_at s + i" using keeps [of i] that(1) by simp
    then have "em_at ?t = em_at s + (em_at ?t - em_at s)" "em_at ?t - em_at s < length fs" using that(1) short by linarith+
    with assms(5) [of "em_at ?t - em_at s"] have "sint (mo_now (ne_moments N (em_at ?t))) \<le> sint (cl_until_unix_nanos claim)" by simp
    with keeps [of i] that show ?thesis by (intro claim_refused) simp_all
  qed
  then show ?thesis
    using serve_is [of admit who V ?c "ne_rules N" fs say s] keeps [of "length ?rs"]
    by (auto simp: Let_def split_beta claim_stands_def reply_def assms(2) nth_append)
qed

text \<open>A node that holds a claim until 200, asked at 100 by another for the Journey.\<close>

definition sample_node :: node_env where
  "sample_node = \<lparr>ne_codec = plain_codec, ne_rules = plain_rules, ne_say = (\<lambda>_. []), ne_crypt = plain_crypt, ne_sealing = Inr [],
     ne_sha256 = (\<lambda>b. b), ne_moments = (\<lambda>_. \<lparr>mo_now = 100, mo_fails = None, mo_synced = Inr (), mo_nonce = [], mo_kept_at = (\<lambda>n. n)\<rparr>)\<rparr>"

definition sample_embedded :: embedded where
  "sample_embedded = \<lparr>em_runtime = (sample_claimed, Map.empty), em_administration = (empty_ledger, Map.empty),
     em_audit = (empty_ledger, Map.empty), em_next = 0, em_epoch = 3, em_at = 0\<rparr>"

definition sample_embedded_serving :: "embedded serving" where
  "sample_embedded_serving = \<lparr>sv_storage = embedded_storage sample_node, sv_standing = (\<lambda>_. alone_standing), sv_ships = False\<rparr>"

definition admits_any :: admits where "admits_any who standing does rs = Inr ()"

theorem claim_stays_served_witness:
  "\<exists>s' v. serve (\<lambda>_. []) plain_codec plain_rules admits_any sample_embedded_serving (None, 0)
      [w_request plain_codec (RqClaim (sample_claim ''b'' 2) 5)] sample_embedded = (s', [v]) \<and> cl_journey (sample_claim ''b'' 2) = 9 \<and>
    (\<forall>h. v \<noteq> AnClaim (Some h)) \<and> held_still plain_codec 9 (ha_claim sample_hand_on) (fst (em_runtime s'))"
proof -
  let ?r = "RqClaim (sample_claim ''b'' 2) 5" and ?V = sample_embedded_serving
  have held: "held_still plain_codec 9 (ha_claim sample_hand_on) sample_claimed"
    using sample_claimed by (simp add: held_still_def claim_is_def)
  have home: "claims_home plain_codec sample_claimed"
    unfolding sample_claimed_def
    by (rule plain.claims_home_set)
      (simp_all add: claims_home_def sample_hand_on_def fit_claim_def plain_codec_def [THEN arg_cong [where f = most]])
  have "fit_request plain_codec plain_rules ?r" by (simp add: fit_request_def fit_sample_claim)
  then have "from_bytes plain_codec (r_request plain_codec plain_rules) (w_request plain_codec ?r) = Inr ?r"
    using plain_secrets.request_back [of ?r "[]"] by (simp add: from_bytes_def)
  then have asked: "requests_in plain_codec plain_rules [w_request plain_codec ?r] = [?r]" by simp
  then have rs: "served_requests admits_any (None, 0) ?V [?r] = [?r]"
    by (simp add: served_requests_def admitted_def admits_any_def Server.hands_over_def)
  obtain s' vs where run: "serve (\<lambda>_. []) plain_codec plain_rules admits_any ?V (None, 0) [w_request plain_codec ?r] sample_embedded = (s', vs)"
    by (metis surj_pair)
  have "length vs = 1"
    using serve_is [of admits_any "(None, 0)" ?V plain_codec plain_rules "[w_request plain_codec ?r]" "\<lambda>_. []" sample_embedded] run asked rs
    by (simp add: Let_def)
  then obtain v where vs: "vs = [v]" by (cases vs) auto
  have j: "cl_journey (sample_claim ''b'' 2) = 9" "cl_token (sample_claim ''b'' 2) \<noteq> cl_token (ha_claim sample_hand_on)"
    by (simp_all add: sample_claim_def sample_hand_on_def)
  have at: "sint (100 :: i128) \<le> sint (cl_until_unix_nanos (ha_claim sample_hand_on))" by (simp add: sample_hand_on_def)
  show ?thesis
    using claim_stays_served [of sample_node ?V sample_embedded 9 "ha_claim sample_hand_on" "[w_request plain_codec ?r]" admits_any "(None, 0)"
        "\<lambda>_. []"] plain.codec_laws_axioms home held asked rs run vs j at
    by (simp add: sample_node_def sample_embedded_def sample_embedded_serving_def gives_up_def)
qed

end
