(* ===== verification/Spec2Isabelle.thy ===== *)
theory Spec2Isabelle
  imports Durable Kept Query Promotion Whole_Copy Client Embedded
begin

text \<open>
  Xmip Storage: the persistence crate of the repository (\<open>src/.src\<close>), as a model of its own code and
  the theorems that make it correct.

  \<^bold>\<open>The program.\<close> A Storage node keeps three databases, the runtime, the administration and the
  audit database, each an engine (\<open>engine.rs\<close>) under a layer that seals every record
  (\<open>encrypted_store.rs\<close>). The runtime database has one writer (\<open>storage/commit.rs\<close>): callers queue
  their writes (\<open>commit/waiting.rs\<close>), one of them leads and decides a group of them as one batch with a
  stage per write (\<open>commit/batch.rs\<close>), each record searchable stamped and filed (\<open>columns.rs\<close>), each
  queue's firsts settled (\<open>due.rs\<close>), and a thread syncs the batches (\<open>commit/syncer.rs\<close>,
  \<open>durable.rs\<close>). What a write decides is the business of one module each: claims, hand-ons,
  Publications, held, failed and dead Messages, Work Process Instances. An audit keeper moves audit
  records to the audit database, a chain per writer. Nodes ask a Storage node over the wire
  (\<open>client.rs\<close>, \<open>server.rs\<close>, \<open>wire.rs\<close>); Storage nodes of several are a primary and standbys copying
  its writes (\<open>standby\<close>).

  \<^bold>\<open>Shared.\<close> \<open>Prelude\<close>: bytes, machine integers as words, the error values of \<open>error.rs\<close> and the
  language's \<open>?\<close> as \<open>bindr\<close>. \<open>Codec\<close>: the codec library is not under \<open>src/\<close>; it is the record \<open>codec\<close>
  and the laws \<open>codec_laws\<close>, a form being a writer, a reader and the values it carries (locale
  \<open>form\<close>). \<open>Facts\<close>, \<open>Records\<close>: every record as its struct, with the writer and the reader of its
  \<open>Form\<close> impl (\<open>facts.rs\<close>, \<open>record.rs\<close>, \<open>stream.rs\<close>, \<open>audited.rs\<close>, \<open>audit_entry.rs\<close>,
  \<open>kept_audit.rs\<close>), an interpretation of \<open>form\<close> for each.

  \<^bold>\<open>The writer.\<close> \<open>Batch\<close>: the stages and what a batch read; a decision is a program of reads and
  writes, its meaning a function of a \<^emph>\<open>ledger\<close> (kind and key to bytes), and running it on a batch is
  shown to be that meaning. \<open>Claim\<close> (\<open>claim.rs\<close>), \<open>Queue\<close> (\<open>queue.rs\<close>, with the locales of a queue of
  places that \<open>Hold\<close>, \<open>Failed\<close> and \<open>Dead\<close> interpret), \<open>Hold\<close> (\<open>hold.rs\<close>), \<open>Origin\<close> (\<open>origin.rs\<close>),
  \<open>Failed\<close> (\<open>failed.rs\<close>), \<open>Dead\<close> (\<open>dead.rs\<close>), \<open>Hand_On\<close> (\<open>hand_on.rs\<close>), \<open>Instance\<close> (\<open>instance.rs\<close>),
  \<open>Publication\<close> (\<open>publication.rs\<close>): each a queue's or a claim's invariant, kept by every operation, and
  what each decides on every branch. \<open>Commit\<close>: the writes and their decision. \<open>Waiting\<close>: the callers as a
  step relation, its invariant over all interleavings, and a measure that shows every write answered.
  \<open>Settle\<close>: the firsts a batch leaves. \<open>Writer\<close>: a batch is its writes decided in turn, all or none,
  and under its callers. \<open>Durable\<close>: the sync thread, its invariant and that it ends.

  \<^bold>\<open>Kept and found.\<close> \<open>Memory\<close>: the engine's laws (locale \<open>engine_laws\<close>), interpreted by the memory
  engine. \<open>Encrypted_Store\<close>: every write and read of the layer, shown to be a ledger and an index to
  its user, over any engine and cipher of the laws (locale \<open>encrypted\<close>). \<open>Schema\<close> (\<open>schema.rs\<close>,
  \<open>schema/tables.rs\<close>, \<open>schema/searchable.rs\<close>), \<open>Version\<close> (\<open>schema/version.rs\<close>, \<open>embedded/versioned.rs\<close>),
  \<open>Row\<close> (\<open>row.rs\<close>), \<open>Columns\<close> (\<open>columns.rs\<close>): the rows, the index entries of each write and the searches as
  ranges of keys. \<open>Page\<close>, \<open>Due\<close>, \<open>Query\<close>: a queue's page, its part by due time and a question, each
  shown equal to a reference definition over the records themselves. \<open>Secrets\<close> (\<open>secret.rs\<close>,
  \<open>secret/sealed.rs\<close>).

  \<^bold>\<open>Audit.\<close> \<open>Chain\<close> (\<open>chain.rs\<close>), \<open>Keeper\<close> (\<open>embedded/keeper.rs\<close>), \<open>Chunk_Reader\<close> (the reader of
  \<open>stream.rs\<close>), \<open>Kept\<close> (the reads of \<open>embedded.rs\<close>).

  \<^bold>\<open>Over the wire.\<close> \<open>Wire\<close> (\<open>wire.rs\<close>, \<open>wire/answer.rs\<close>, \<open>wire/operation.rs\<close>): requests and answers and
  their forms. \<open>Xmip_Storage\<close>: the trait \<open>XmipStorage\<close> as a record of its thirty-four operations on a
  state, and the delegation of \<open>standby/delegated.rs\<close> and \<open>standby/served.rs\<close>. \<open>Server\<close> (\<open>server.rs\<close>,
  \<open>server/admitted.rs\<close>) serves such a record, \<open>Client\<close> (\<open>client.rs\<close>, \<open>client/operations.rs\<close>) is one;
  \<open>Embedded\<close> (\<open>embedded.rs\<close> and the files of \<open>embedded\<close>) is the one of the node itself. The client is
  shown to be the storage behind the server, and a claim to stay its holder's whatever a connection
  asks.

  \<^bold>\<open>Several nodes.\<close> \<open>Shipped\<close> (\<open>standby/shipped.rs\<close>), \<open>Copies\<close> (\<open>standby/copies.rs\<close>), \<open>Replica\<close> (the
  turns of \<open>standby/ship.rs\<close>), \<open>Following\<close> (\<open>standby.rs\<close>, \<open>standby/follow.rs\<close>), \<open>Whole_Copy\<close> (\<open>whole\<close> of
  \<open>ship.rs\<close>), \<open>Promotion\<close> (\<open>standby/finding.rs\<close>): step relations of a primary and its standby with the
  refinement they keep, and who is promoted.

  \<^bold>\<open>Parameters.\<close> What is not under \<open>src/\<close> is an argument: the codec and its digests, the cipher
  (\<open>crypt\<close>), the names and kinds of secrets (\<open>secret_rules\<close>), the plane's reading of its rules, the
  network and the clock. Their hypotheses are the locales' laws; \<open>plain_codec\<close>, \<open>plain_crypt\<close>,
  \<open>plain_rules\<close> and the memory engine are instances, and the witnesses evaluate on them.

  \<^bold>\<open>Bounds.\<close> No definition has fuel: the loops are recursions on lists or with a measure, and the
  threads step relations. Counters keep their width; where a property asks that one does not
  overflow, it says so.

  \<^bold>\<open>Not modelled.\<close> TLS, TCP, frames, accepting and stopping a server, threads' timers, timeouts and
  time counters: I/O around the operations modelled. The SQL of the three database servers
  (\<open>storage/database.rs\<close>, \<open>schema/dialect.rs\<close>, \<open>schema/upgrade.rs\<close>): text for servers that are not here.
  \<open>Display\<close> of a value in an error's words is a parameter where it is not the crate's own. Tests, the
  fixtures but the memory engine, and re-exports. The client's nodes are asked one request after
  another, and the embedded node's operations come one after another; callers at once are the
  writer's (\<open>Waiting\<close>, \<open>Writer\<close>).
\<close>

end
